(* ===== verification/Prelude.thy ===== *)
theory Prelude imports Main "HOL-Library.AList" begin

text \<open>
  Shared vocabulary of the development.

  A Go \<^verbatim>\<open>map[K]V\<close> is a finite association list with distinct keys. The list order
  is one of the iteration orders Go may choose for a \<^verbatim>\<open>range\<close> over the map; theorems
  speak about the lookup function \<^term>\<open>map_of\<close>, which does not depend on it. A nil
  map reads like the empty one.

  A Go slice is a list. Where the code tells \<^verbatim>\<open>nil\<close> from an empty slice the model uses
  \<^typ>\<open>'a list option\<close>, with \<^term>\<open>None\<close> for nil. Indices and lengths (\<^verbatim>\<open>int\<close>) are
  \<^typ>\<open>int\<close> where they cannot leave the 64-bit range.
\<close>

named_theorems gomap_simps \<open>how reads of a Go map follow its writes\<close>
named_theorems slice_simps \<open>index arithmetic on slices\<close>

section \<open>Go maps\<close>

type_synonym ('k, 'v) gomap = "('k \<times> 'v) list"

abbreviation gm_get :: "('k, 'v) gomap \<Rightarrow> 'k \<Rightarrow> 'v option" where
  "gm_get m k \<equiv> map_of m k"

abbreviation gm_has :: "('k, 'v) gomap \<Rightarrow> 'k \<Rightarrow> bool" where
  "gm_has m k \<equiv> map_of m k \<noteq> None"

definition gm_set :: "'k \<Rightarrow> 'v \<Rightarrow> ('k, 'v) gomap \<Rightarrow> ('k, 'v) gomap" where
  "gm_set k v m = AList.update k v m"

definition gm_del :: "'k \<Rightarrow> ('k, 'v) gomap \<Rightarrow> ('k, 'v) gomap" where
  "gm_del k m = AList.delete k m"

definition gm_wf :: "('k, 'v) gomap \<Rightarrow> bool" where
  "gm_wf m \<longleftrightarrow> distinct (map fst m)"

text \<open>Reading with a default: what \<^verbatim>\<open>m[k]\<close> gives when the zero value of V is \<open>z\<close>.\<close>

definition gm_get_or :: "'v \<Rightarrow> ('k, 'v) gomap \<Rightarrow> 'k \<Rightarrow> 'v" where
  "gm_get_or z m k = (case gm_get m k of None \<Rightarrow> z | Some v \<Rightarrow> v)"

lemma gm_get_set [simp, gomap_simps]: "map_of (gm_set k v m) = (map_of m)(k \<mapsto> v)"
  by (simp add: gm_set_def update_conv')

lemma gm_get_del [simp, gomap_simps]: "map_of (gm_del k m) = (map_of m)(k := None)"
  by (simp add: gm_del_def delete_conv')

lemma gm_wf_Nil [simp]: "gm_wf []"
  by (simp add: gm_wf_def)

lemma gm_wf_set [simp, intro]: "gm_wf m \<Longrightarrow> gm_wf (gm_set k v m)"
  by (simp add: gm_wf_def gm_set_def distinct_update)

lemma gm_wf_del [simp, intro]: "gm_wf m \<Longrightarrow> gm_wf (gm_del k m)"
  by (simp add: gm_wf_def gm_del_def distinct_delete)

lemma gm_wf_Cons: "gm_wf ((k, v) # m) \<longleftrightarrow> map_of m k = None \<and> gm_wf m"
  by (auto simp: gm_wf_def map_of_eq_None_iff)

lemma gm_get_or_set [gomap_simps]:
  "gm_get_or z (gm_set k v m) k' = (if k' = k then v else gm_get_or z m k')"
  by (simp add: gm_get_or_def)

lemma gm_in_set: "gm_wf m \<Longrightarrow> (k, v) \<in> set m \<longleftrightarrow> map_of m k = Some v"
  by (auto simp: gm_wf_def dest: map_of_SomeD)

lemma dom_gm: "dom (map_of m) = fst ` set m"
  by (rule dom_map_of_conv_image_fst)

lemma gm_wf_length: "gm_wf m \<Longrightarrow> length m = card (dom (map_of m))"
  by (metis distinct_card dom_gm gm_wf_def length_map list.set_map)

section \<open>Loops over a map that write into another\<close>

text \<open>\<^verbatim>\<open>for k, v := range src { dst[k] = v }\<close> and \<^verbatim>\<open>for k := range ks { delete(dst, k) }\<close>.\<close>

definition gm_copy_into :: "('k, 'v) gomap \<Rightarrow> ('k, 'v) gomap \<Rightarrow> ('k, 'v) gomap" where
  "gm_copy_into src dst = fold (\<lambda>(k, v) d. gm_set k v d) src dst"

definition gm_delete_all :: "('k, 'u) gomap \<Rightarrow> ('k, 'v) gomap \<Rightarrow> ('k, 'v) gomap" where
  "gm_delete_all ks dst = fold (\<lambda>(k, _) d. gm_del k d) ks dst"

lemma gm_copy_into_Nil [simp]: "gm_copy_into [] dst = dst"
  by (simp add: gm_copy_into_def)

lemma gm_copy_into_Cons [simp]:
  "gm_copy_into ((k, v) # src) dst = gm_copy_into src (gm_set k v dst)"
  by (simp add: gm_copy_into_def)

lemma gm_delete_all_Nil [simp]: "gm_delete_all [] dst = dst"
  by (simp add: gm_delete_all_def)

lemma gm_delete_all_Cons [simp]:
  "gm_delete_all ((k, u) # ks) dst = gm_delete_all ks (gm_del k dst)"
  by (simp add: gm_delete_all_def)

lemma gm_get_copy_into [gomap_simps]:
  "gm_wf src \<Longrightarrow> map_of (gm_copy_into src dst) = map_of dst ++ map_of src"
proof (induction src arbitrary: dst)
  case Nil
  then show ?case by simp
next
  case (Cons p src)
  obtain k v where p: "p = (k, v)" by (cases p)
  with Cons.prems have "map_of src k = None" and "gm_wf src"
    by (simp_all add: gm_wf_Cons)
  with p Cons.IH show ?case
    by (auto simp: fun_eq_iff map_add_def split: option.splits)
qed

lemma gm_get_delete_all [gomap_simps]:
  "map_of (gm_delete_all ks dst) k = (if map_of ks k = None then map_of dst k else None)"
proof (induction ks arbitrary: dst)
  case Nil
  then show ?case by simp
next
  case (Cons p ks)
  show ?case by (cases p; cases "map_of ks k") (simp_all add: Cons.IH)
qed

lemma gm_wf_copy_into [simp, intro]: "gm_wf dst \<Longrightarrow> gm_wf (gm_copy_into src dst)"
proof (induction src arbitrary: dst)
  case (Cons p src)
  then show ?case by (cases p) (simp add: Cons.IH)
qed simp

lemma gm_wf_delete_all [simp, intro]: "gm_wf dst \<Longrightarrow> gm_wf (gm_delete_all ks dst)"
proof (induction ks arbitrary: dst)
  case (Cons p ks)
  then show ?case by (cases p) (simp add: Cons.IH)
qed simp

section \<open>Lists\<close>

lemma nth_list_update_if:
  "xs[i := x] ! j = (if i = j \<and> i < length xs then x else xs ! j)"
  by (cases "i < length xs") (auto simp: nth_list_update list_update_beyond)

lemma fold_append_map: "fold (\<lambda>x acc. acc @ [f x]) xs acc = acc @ map f xs"
  by (induction xs arbitrary: acc) auto

lemma fold_append_filter:
  "fold (\<lambda>x acc. if P x then acc @ [x] else acc) xs acc = acc @ filter P xs"
  by (induction xs arbitrary: acc) auto

lemma fold_append_concat: "fold (\<lambda>x acc. acc @ x) xss acc = acc @ concat xss"
  by (induction xss arbitrary: acc) auto

section \<open>Iterating with a yield\<close>

text \<open>
  What ranging over values does: each goes to the body with the body's state, until the body asks to stop.
\<close>

fun yield_all :: "('a \<Rightarrow> 's \<Rightarrow> 's \<times> bool) \<Rightarrow> 'a list \<Rightarrow> 's \<Rightarrow> 's" where
  "yield_all yield [] s = s"
| "yield_all yield (v # vs) s = (case yield v s of (s', cont) \<Rightarrow> if \<not> cont then s' else yield_all yield vs s')"

end
