(* ===== verification/Errorkit.thy ===== *)
theory Errorkit imports Prelude begin

text \<open>
  Error values of \<^verbatim>\<open>pkg/errorkit\<close> and \<^verbatim>\<open>internal/errorkitlite\<close>. A Go \<^verbatim>\<open>error\<close> is a
  \<^verbatim>\<open>go_error option\<close> with \<^term>\<open>None\<close> for nil. The constructors of \<^verbatim>\<open>go_error\<close> are
  the concrete error types the modelled code builds; \<^verbatim>\<open>errors_Is\<close> follows the standard
  library's \<^verbatim>\<open>errors.Is\<close> for a target that is an \<^verbatim>\<open>errorkit.Error\<close> constant, the
  only kind of target the modelled code asks for.
\<close>

datatype go_error =
    ErrConst string                       \<comment> \<open>errorkit.Error, errorkitlite.Error\<close>
  | ErrText string                        \<comment> \<open>fmt.Errorf without a wrapped error\<close>
  | ErrWrapText string go_error           \<comment> \<open>fmt.Errorf with one wrapped error\<close>
  | ErrW string "go_error option"         \<comment> \<open>errorkitlite.W\<close>
  | ErrWrapper string go_error            \<comment> \<open>errorkit.wrapper, the owner being a constant\<close>
  | ErrWithContext go_error               \<comment> \<open>errorkit.withContextError\<close>
  | MultiError "go_error list"            \<comment> \<open>errorkitlite.MultiError\<close>
  | TxRollbackError go_error go_error     \<comment> \<open>txkit.TxRollbackError: Err, Cause\<close>
  | ErrPanic string                       \<comment> \<open>not an error value: the call panicked\<close>

abbreviation ErrCanceled :: go_error where
  "ErrCanceled \<equiv> ErrConst ''context canceled''"

section \<open>errors.Is\<close>

fun errors_Is :: "go_error \<Rightarrow> string \<Rightarrow> bool" where
  "errors_Is (ErrConst s) t = (s = t)"
| "errors_Is (ErrText s) t = False"
| "errors_Is (ErrWrapText s e) t = errors_Is e t"
| "errors_Is (ErrW s w) t = (s = t \<or> (case w of None \<Rightarrow> False | Some e \<Rightarrow> errors_Is e t))"
| "errors_Is (ErrWrapper s e) t = (s = t \<or> errors_Is e t)"
| "errors_Is (ErrWithContext e) t = errors_Is e t"
| "errors_Is (MultiError es) t = list_ex (\<lambda>e. errors_Is e t) es"
| "errors_Is (TxRollbackError e c) t = errors_Is c t"
| "errors_Is (ErrPanic s) t = False"

text \<open>\<^verbatim>\<open>errors.Is(nil, target)\<close> is false for a non-nil target.\<close>

definition err_Is :: "go_error option \<Rightarrow> string \<Rightarrow> bool" where
  "err_Is e t = (case e of None \<Rightarrow> False | Some x \<Rightarrow> errors_Is x t)"

lemma err_Is_simps [simp]: "err_Is None t = False" "err_Is (Some x) t = errors_Is x t"
  by (simp_all add: err_Is_def)

section \<open>Building errors\<close>

text \<open>\<^verbatim>\<open>errorkit.Error.Wrap\<close>, \<^verbatim>\<open>errorkit.Error.F\<close> and \<^verbatim>\<open>errorkitlite.Error.F\<close>.\<close>

definition Error_Wrap :: "string \<Rightarrow> go_error option \<Rightarrow> go_error" where
  "Error_Wrap s oth = (case oth of None \<Rightarrow> ErrConst s | Some e \<Rightarrow> ErrWrapper s e)"

definition Error_F :: "string \<Rightarrow> string \<Rightarrow> go_error" where
  "Error_F s text = Error_Wrap s (Some (ErrText text))"

definition ErrorLite_F :: "string \<Rightarrow> string \<Rightarrow> go_error" where
  "ErrorLite_F s text = ErrW s (Some (ErrText text))"

definition WithContext :: "go_error option \<Rightarrow> go_error option" where
  "WithContext e = (case e of None \<Rightarrow> None | Some x \<Rightarrow> Some (ErrWithContext x))"

lemma Error_F_Is [simp]: "errors_Is (Error_F s text) t \<longleftrightarrow> s = t"
  by (simp add: Error_F_def Error_Wrap_def)

lemma ErrorLite_F_Is [simp]: "errors_Is (ErrorLite_F s text) t \<longleftrightarrow> s = t"
  by (simp add: ErrorLite_F_def)

lemma WithContext_Is [simp]: "err_Is (WithContext e) t = err_Is e t"
  by (cases e) (simp_all add: WithContext_def)

section \<open>Merge\<close>

fun Merge_clean :: "go_error option list \<Rightarrow> go_error list" where
  "Merge_clean [] = []"
| "Merge_clean (None # errs) = Merge_clean errs"
| "Merge_clean (Some e # errs) = e # Merge_clean errs"

definition Merge :: "go_error option list \<Rightarrow> go_error option" where
  "Merge errs =
     (case Merge_clean errs of
        [] \<Rightarrow> None
      | [e] \<Rightarrow> Some e
      | es \<Rightarrow> Some (MultiError es))"

text \<open>\<^verbatim>\<open>Finish(&returnErr, blk)\<close>: the caller's error merged with the block's.\<close>

definition Finish :: "go_error option \<Rightarrow> go_error option \<Rightarrow> go_error option" where
  "Finish returnErr blkErr = Merge [returnErr, blkErr]"

lemma set_Merge_clean: "set (Merge_clean errs) = {e. Some e \<in> set errs}"
  by (induction errs rule: Merge_clean.induct) auto

lemma Merge_clean_Nil_iff: "Merge_clean errs = [] \<longleftrightarrow> (\<forall>e \<in> set errs. e = None)"
  by (induction errs rule: Merge_clean.induct) auto

lemma Merge_clean_append: "Merge_clean (xs @ ys) = Merge_clean xs @ Merge_clean ys"
  by (induction xs rule: Merge_clean.induct) auto

lemma Merge_clean_Some [simp]: "Merge_clean (map Some es) = es"
  by (induction es) auto

lemma Merge_None_iff: "Merge errs = None \<longleftrightarrow> (\<forall>e \<in> set errs. e = None)"
  by (auto simp: Merge_def Merge_clean_Nil_iff [symmetric] split: list.splits)

lemma Merge_Nil [simp]: "Merge [] = None"
  by (simp add: Merge_def)

lemma Merge_single [simp]: "Merge [Some x] = Some x"
  by (simp add: Merge_def)

lemma Merge_pair [simp]:
  "Merge [None, e] = e" "Merge [e, None] = e"
  "Merge [Some x, Some y] = Some (MultiError [x, y])"
  by (cases e; simp add: Merge_def)+

lemma Merge_Some_first [simp]: "\<exists>y. Merge [Some e, x] = Some y"
  by (cases x) simp_all

lemma err_Is_Merge_clean: "err_Is (Merge errs) t \<longleftrightarrow> list_ex (\<lambda>e. errors_Is e t) (Merge_clean errs)"
  by (auto simp: Merge_def split: list.splits)

lemma err_Is_Merge: "err_Is (Merge errs) t \<longleftrightarrow> (\<exists>e. e \<in> set errs \<and> err_Is e t)"
proof -
  have "err_Is (Merge errs) t \<longleftrightarrow> (\<exists>e. Some e \<in> set errs \<and> errors_Is e t)"
    by (simp add: err_Is_Merge_clean list_ex_iff set_Merge_clean)
  then show ?thesis
    by (metis err_Is_def option.case_eq_if option.collapse err_Is_simps(2))
qed

lemma Finish_simps [simp]: "Finish None e = e" "Finish e None = e"
  by (simp_all add: Finish_def)

section \<open>MergeErrFunc\<close>

text \<open>
  \<^verbatim>\<open>MergeErrFunc\<close> drops the nil functions and returns one that calls the others. The
  deferred \<^verbatim>\<open>Finish\<close> calls are registered from the last function to the first, so they
  run from the first to the last; each one merges the error so far with its function's
  error. A function of the code reads a state, here \<open>'w\<close>.
\<close>

fun MergeErrFunc_run :: "('w \<Rightarrow> go_error option) list \<Rightarrow> 'w \<Rightarrow> go_error option \<Rightarrow> go_error option" where
  "MergeErrFunc_run [] w acc = acc"
| "MergeErrFunc_run (f # fns) w acc = MergeErrFunc_run fns w (Finish acc (f w))"

definition MergeErrFunc ::
    "('w \<Rightarrow> go_error option) option list \<Rightarrow> 'w \<Rightarrow> go_error option" where
  "MergeErrFunc errFuncs w =
     (case List.map_filter (\<lambda>f. f) errFuncs of
        [] \<Rightarrow> None
      | [f] \<Rightarrow> f w
      | fns \<Rightarrow> MergeErrFunc_run fns w None)"

lemma MergeErrFunc_run_None:
  "MergeErrFunc_run fns w acc = None \<longleftrightarrow> acc = None \<and> (\<forall>f \<in> set fns. f w = None)"
  by (induction fns arbitrary: acc) (auto simp: Finish_def Merge_None_iff)

lemma MergeErrFunc_run_Is:
  "err_Is (MergeErrFunc_run fns w acc) t \<longleftrightarrow> err_Is acc t \<or> (\<exists>f. f \<in> set fns \<and> err_Is (f w) t)"
  by (induction fns arbitrary: acc) (auto simp: Finish_def err_Is_Merge)

end
