(* ===== verification/GoContext.thy ===== *)
theory GoContext imports Errorkit begin

text \<open>
  Go's \<^verbatim>\<open>context.Context\<close>, as far as the modelled packages use it, and the part of
  \<^verbatim>\<open>pkg/contextkit\<close> they rely on.

  A context value is immutable: a chain of \<^verbatim>\<open>WithCancel\<close>, \<^verbatim>\<open>WithValue\<close> and detached
  layers over \<^verbatim>\<open>Background\<close>. What changes is which cancel functions have been called;
  \<^verbatim>\<open>ctx_world\<close> records that, and the states of the stateful components extend it.
  Deadlines are not modelled: the modelled code never sets one.
\<close>

datatype ('k, 'v) ctx =
    Background
  | WithCancelCtx nat "('k, 'v) ctx"
  | WithValueCtx 'k 'v "('k, 'v) ctx"
  | DetachedCtx "('k, 'v) ctx"

record ctx_world =
  cancelled :: "nat list"
  next_cancel :: nat

text \<open>\<^verbatim>\<open>ctx.Err()\<close>: a context is cancelled when one of its cancel layers, or of its parents', is.\<close>

fun ctx_Err :: "'z ctx_world_scheme \<Rightarrow> ('k, 'v) ctx \<Rightarrow> go_error option" where
  "ctx_Err w Background = None"
| "ctx_Err w (WithCancelCtx i c) = (if i \<in> set (cancelled w) then Some ErrCanceled else ctx_Err w c)"
| "ctx_Err w (WithValueCtx k v c) = ctx_Err w c"
| "ctx_Err w (DetachedCtx c) = None"

text \<open>\<^verbatim>\<open>ctx.Value(key)\<close>: the innermost binding; a detached context reads its parent's values.\<close>

fun ctx_Value :: "('k, 'v) ctx \<Rightarrow> 'k \<Rightarrow> 'v option" where
  "ctx_Value Background k = None"
| "ctx_Value (WithCancelCtx i c) k = ctx_Value c k"
| "ctx_Value (WithValueCtx k' v c) k = (if k' = k then Some v else ctx_Value c k)"
| "ctx_Value (DetachedCtx c) k = ctx_Value c k"

text \<open>The cancel layers a context listens to.\<close>

fun ctx_cancels :: "('k, 'v) ctx \<Rightarrow> nat set" where
  "ctx_cancels Background = {}"
| "ctx_cancels (WithCancelCtx i c) = insert i (ctx_cancels c)"
| "ctx_cancels (WithValueCtx k v c) = ctx_cancels c"
| "ctx_cancels (DetachedCtx c) = {}"

definition context_WithCancel ::
    "('k, 'v) ctx \<Rightarrow> 'z ctx_world_scheme \<Rightarrow> (('k, 'v) ctx \<times> nat) \<times> 'z ctx_world_scheme" where
  "context_WithCancel c w =
     ((WithCancelCtx (next_cancel w) c, next_cancel w), w\<lparr>next_cancel := Suc (next_cancel w)\<rparr>)"

definition context_cancel :: "nat \<Rightarrow> 'z ctx_world_scheme \<Rightarrow> 'z ctx_world_scheme" where
  "context_cancel i w = w\<lparr>cancelled := i # cancelled w\<rparr>"

section \<open>pkg/contextkit\<close>

definition contextkit_WithoutCancel :: "('k, 'v) ctx \<Rightarrow> ('k, 'v) ctx" where
  "contextkit_WithoutCancel parent = DetachedCtx parent"

definition ValueHandler_Lookup :: "'k \<Rightarrow> ('k, 'v) ctx option \<Rightarrow> 'v option" where
  "ValueHandler_Lookup key ctx = (case ctx of None \<Rightarrow> None | Some c \<Rightarrow> ctx_Value c key)"

definition ValueHandler_ContextWith :: "'k \<Rightarrow> ('k, 'v) ctx option \<Rightarrow> 'v \<Rightarrow> ('k, 'v) ctx" where
  "ValueHandler_ContextWith key ctx v =
     WithValueCtx key v (case ctx of None \<Rightarrow> Background | Some c \<Rightarrow> c)"

section \<open>Facts\<close>

lemma ctx_Err_iff: "ctx_Err w c = None \<longleftrightarrow> ctx_cancels c \<inter> set (cancelled w) = {}"
  by (induction c) auto

lemma ctx_Err_cases: "ctx_Err w c = None \<or> ctx_Err w c = Some ErrCanceled"
  by (induction c) auto

lemma ctx_Err_cong: "cancelled w = cancelled w' \<Longrightarrow> ctx_Err w c = ctx_Err w' c"
  by (induction c) auto

lemma ctx_Err_next_cancel [simp]: "ctx_Err (w\<lparr>next_cancel := n\<rparr>) c = ctx_Err w c"
  by (rule ctx_Err_cong) simp

lemma ctx_Err_WithCancel_None:
  "ctx_Err w (WithCancelCtx i c) = None \<Longrightarrow> ctx_Err w c = None"
  by (auto split: if_splits)

text \<open>A cancel layer is fresh when no context in play listens to it and it was never called.\<close>

definition ctx_fresh_below :: "'z ctx_world_scheme \<Rightarrow> ('k, 'v) ctx \<Rightarrow> bool" where
  "ctx_fresh_below w c \<longleftrightarrow>
     (\<forall>i \<in> ctx_cancels c. i < next_cancel w) \<and> (\<forall>i \<in> set (cancelled w). i < next_cancel w)"

lemma context_cancel_other:
  "i \<notin> ctx_cancels c \<Longrightarrow> ctx_Err (context_cancel i w) c = ctx_Err w c"
  by (induction c) (auto simp: context_cancel_def)

lemma context_cancel_self: "ctx_Err (context_cancel i w) (WithCancelCtx i c) = Some ErrCanceled"
  by (simp add: context_cancel_def)

lemma context_WithCancel_Err:
  "ctx_fresh_below w c \<Longrightarrow> context_WithCancel c w = ((c', i), w') \<Longrightarrow>
     ctx_Err w' c' = ctx_Err w c \<and> ctx_Err w' c = ctx_Err w c \<and> i \<notin> ctx_cancels c"
  by (auto simp: context_WithCancel_def ctx_fresh_below_def)

lemma WithoutCancel_Err [simp]: "ctx_Err w (contextkit_WithoutCancel c) = None"
  by (simp add: contextkit_WithoutCancel_def)

lemma WithoutCancel_Value [simp]: "ctx_Value (contextkit_WithoutCancel c) k = ctx_Value c k"
  by (simp add: contextkit_WithoutCancel_def)

lemma ValueHandler_roundtrip [simp]:
  "ValueHandler_Lookup key (Some (ValueHandler_ContextWith key ctx v)) = Some v"
  by (simp add: ValueHandler_Lookup_def ValueHandler_ContextWith_def)

end
