(* ===== verification/Comproto.thy ===== *)
theory Comproto imports GoContext begin

text \<open>
  \<^verbatim>\<open>port/comproto\<close>: the one-phase commit protocol and its Finish helpers. An operation
  takes the world and returns its result with the new world. \<^verbatim>\<open>OnePhaseCommit_run\<close> is
  the pattern every client of the protocol repeats: begin, defer
  \<^verbatim>\<open>FinishOnePhaseCommit\<close>, run the body with the transaction's context.

  The locale \<^verbatim>\<open>one_phase_commit\<close> states what a provider promises for a context that is
  not yet in a transaction; its lemma is the atomicity of every such client.
\<close>

type_synonym ('w, 'r) op = "'w \<Rightarrow> 'r \<times> 'w"

text \<open>\<^verbatim>\<open>FinishTx\<close>: \<open>errp\<close> is the caller's return error at the time the deferred call runs.\<close>

definition FinishTx ::
    "go_error option \<Rightarrow> ('w, go_error option) op \<Rightarrow> ('w, go_error option) op \<Rightarrow>
     ('w, go_error option) op" where
  "FinishTx errp commit rollback w =
     (case errp of
        Some e \<Rightarrow> (case rollback w of (rbErr, w') \<Rightarrow> (Merge [Some e, rbErr], w'))
      | None \<Rightarrow> commit w)"

definition FinishOnePhaseCommit ::
    "go_error option \<Rightarrow> ('c \<Rightarrow> ('w, go_error option) op) \<Rightarrow> ('c \<Rightarrow> ('w, go_error option) op) \<Rightarrow>
     'c \<Rightarrow> ('w, go_error option) op" where
  "FinishOnePhaseCommit rErr CommitTx RollbackTx tx =
     FinishTx rErr (CommitTx tx) (RollbackTx tx)"

definition OnePhaseCommit_run ::
    "('c \<Rightarrow> ('w, 'c \<times> go_error option) op) \<Rightarrow> ('c \<Rightarrow> ('w, go_error option) op) \<Rightarrow>
     ('c \<Rightarrow> ('w, go_error option) op) \<Rightarrow> 'c \<Rightarrow> ('c \<Rightarrow> ('w, go_error option) op) \<Rightarrow>
     ('w, go_error option) op" where
  "OnePhaseCommit_run BeginTx CommitTx RollbackTx ctx body w =
     (case BeginTx ctx w of
        ((_, Some err), w1) \<Rightarrow> (Some err, w1)
      | ((tx, None), w1) \<Rightarrow>
          (case body tx w1 of
             (rErr, w2) \<Rightarrow> FinishOnePhaseCommit rErr CommitTx RollbackTx tx w2))"

lemma FinishTx_error: "errp = Some e \<Longrightarrow> fst (FinishTx errp commit rollback w) \<noteq> None"
  by (cases "rollback w"; cases "fst (rollback w)") (auto simp: FinishTx_def)

lemma FinishTx_rollback [simp]:
  "FinishTx (Some e) commit rollback w =
     (Merge [Some e, fst (rollback w)], snd (rollback w))"
  by (simp add: FinishTx_def split: prod.split)

lemma FinishTx_commit [simp]: "FinishTx None commit rollback w = commit w"
  by (simp add: FinishTx_def)

section \<open>The contract of a provider\<close>

locale one_phase_commit =
  fixes BeginTx :: "'c \<Rightarrow> ('w, 'c \<times> go_error option) op"
    and CommitTx :: "'c \<Rightarrow> ('w, go_error option) op"
    and RollbackTx :: "'c \<Rightarrow> ('w, go_error option) op"
    and view :: "'w \<Rightarrow> 'c \<Rightarrow> 'd"
    and base :: "'w \<Rightarrow> 'c \<Rightarrow> bool"
    and within :: "'w \<Rightarrow> 'c \<Rightarrow> 'c \<Rightarrow> bool"
  assumes begin_err: "base w c \<Longrightarrow> BeginTx c w = ((c', Some e), w') \<Longrightarrow> view w' c = view w c"
    and begin_ok: "base w c \<Longrightarrow> BeginTx c w = ((c', None), w') \<Longrightarrow>
          within w' c c' \<and> view w' c' = view w c \<and> view w' c = view w c"
    and commit_ok: "within w c c' \<Longrightarrow> CommitTx c' w = (None, w') \<Longrightarrow> view w' c = view w c'"
    and commit_err: "within w c c' \<Longrightarrow> CommitTx c' w = (Some e, w') \<Longrightarrow> view w' c = view w c"
    and rollback: "within w c c' \<Longrightarrow> RollbackTx c' w = (r, w') \<Longrightarrow> view w' c = view w c"
begin

text \<open>
  A body is isolated when what it does inside its transaction leaves the enclosing context's
  view alone.
\<close>

definition isolated :: "'c \<Rightarrow> ('c \<Rightarrow> ('w, go_error option) op) \<Rightarrow> bool" where
  "isolated c body \<longleftrightarrow>
     (\<forall>w c' r w'. within w c c' \<longrightarrow> body c' w = (r, w') \<longrightarrow> within w' c c' \<and> view w' c = view w c)"

lemma isolatedD:
  "isolated c body \<Longrightarrow> within w c c' \<Longrightarrow> body c' w = (r, w') \<Longrightarrow>
     within w' c c' \<and> view w' c = view w c"
  by (auto simp: isolated_def)

text \<open>
  Atomicity: when the run fails, the context sees what it saw before; when it succeeds, it sees
  what the body left in its transaction.
\<close>

lemma run_atomic:
  assumes b: "base w c" and iso: "isolated c body"
    and run: "OnePhaseCommit_run BeginTx CommitTx RollbackTx c body w = (r, w')"
  shows "(r \<noteq> None \<and> view w' c = view w c) \<or>
         (\<exists>tx w1 w2. BeginTx c w = ((tx, None), w1) \<and> within w1 c tx \<and> view w1 tx = view w c \<and>
            body tx w1 = (None, w2) \<and> CommitTx tx w2 = (None, w') \<and>
            r = None \<and> view w' c = view w2 tx)"
proof -
  obtain tx be w1 where bg: "BeginTx c w = ((tx, be), w1)" by (metis prod.exhaust)
  show ?thesis
  proof (cases be)
    case (Some e)
    with b bg run show ?thesis by (auto simp: OnePhaseCommit_run_def dest: begin_err)
  next
    case None
    with b bg have w1: "within w1 c tx" "view w1 tx = view w c" "view w1 c = view w c"
      by (auto dest: begin_ok)
    obtain br w2 where body: "body tx w1 = (br, w2)" by (metis prod.exhaust)
    from isolatedD [OF iso w1(1) body] have w2: "within w2 c tx" "view w2 c = view w c"
      using w1 by auto
    from run bg None body
    have fin: "FinishTx br (CommitTx tx) (RollbackTx tx) w2 = (r, w')"
      by (simp add: OnePhaseCommit_run_def FinishOnePhaseCommit_def)
    show ?thesis
    proof (cases br)
      case (Some e)
      with fin have "r \<noteq> None" and "snd (RollbackTx tx w2) = w'"
        by (auto simp: Merge_None_iff)
      with w2 show ?thesis by (metis rollback prod.collapse)
    next
      case None
      with fin have cm: "CommitTx tx w2 = (r, w')" by simp
      show ?thesis
      proof (cases r)
        case None
        with cm w2 \<open>br = None\<close> bg \<open>be = None\<close> body w1 show ?thesis
          by (auto dest: commit_ok)
      next
        case (Some e)
        with cm w2 show ?thesis by (auto dest: commit_err)
      qed
    qed
  qed
qed

end

section \<open>Lifting a provider to a larger world\<close>

text \<open>
  Clients carry more state than the provider (the entity behind a pointer, say). The provider's
  operations act on the first component, and the contract lifts.
\<close>

definition on_fst :: "('w, 'r) op \<Rightarrow> ('w \<times> 'e, 'r) op" where
  "on_fst f w = (case f (fst w) of (r, w1) \<Rightarrow> (r, (w1, snd w)))"

lemma on_fst_eq: "on_fst f w = (r, w') \<longleftrightarrow> f (fst w) = (r, fst w') \<and> snd w' = snd w"
  by (cases w') (auto simp: on_fst_def split: prod.splits)

lemma one_phase_commit_on_fst:
  assumes "one_phase_commit B C R view base within"
  shows "one_phase_commit (\<lambda>c. on_fst (B c)) (\<lambda>c. on_fst (C c)) (\<lambda>c. on_fst (R c))
           (\<lambda>w. view (fst w)) (\<lambda>w. base (fst w)) (\<lambda>w. within (fst w))"
  by (rule one_phase_commit.intro; unfold on_fst_eq;
      blast dest: one_phase_commit.begin_err [OF assms] one_phase_commit.begin_ok [OF assms]
        one_phase_commit.commit_ok [OF assms] one_phase_commit.commit_err [OF assms]
        one_phase_commit.rollback [OF assms])

end
