(* ===== verification/EventLog.thy ===== *)
theory EventLog imports Comproto begin

text \<open>
  The event log of \<^verbatim>\<open>adapter/memory/EventLog.go\<close>: an append-only list of events with
  transactions that buffer events over their parent (the log or an enclosing transaction).

  A \<^verbatim>\<open>*EventLogTx\<close> is an index into \<open>el_txs\<close>; a parent is older than its transaction.
  An event is either one of the log's own \<^verbatim>\<open>EventLogEvent\<close>s or a user's. The stack traces
  that \<^verbatim>\<open>ensureTrace\<close> attaches are debug data and are not part of an event here.
\<close>

datatype 'e event = EventLogEvent string string | UserEvent 'e

definition txEventLogEventType :: string where
  "txEventLogEventType = ''Tx''"

type_synonym elctx = "(string, nat) ctx"

datatype event_manager = TheLog | TheTx nat

record 'e event_log_tx =
  etx_events :: "'e event list"
  etx_parent :: event_manager
  etx_cancel :: nat
  done_commit :: bool
  done_rollback :: bool

record 'e event_log = ctx_world +
  el_NS :: string
  el_events :: "'e event list"
  el_txs :: "'e event_log_tx list"

definition el_errTxDone :: go_error where
  "el_errTxDone = ErrConst ''transaction has already been commit or rolled back''"

definition el_errNoTx :: go_error where
  "el_errNoTx = ErrConst ''no transaction found in the given context''"

section \<open>EventLogTx\<close>

definition etx_isDone :: "'e event_log \<Rightarrow> nat \<Rightarrow> bool" where
  "etx_isDone s a = (done_commit (el_txs s ! a) \<or> done_rollback (el_txs s ! a))"

definition etx_push :: "nat \<Rightarrow> 'e event \<Rightarrow> 'e event_log \<Rightarrow> 'e event_log" where
  "etx_push a ev s =
     s\<lparr>el_txs := (el_txs s)[a := (el_txs s ! a)\<lparr>etx_events := etx_events (el_txs s ! a) @ [ev]\<rparr>]\<rparr>"

definition etx_Append :: "nat \<Rightarrow> elctx \<Rightarrow> 'e event \<Rightarrow> ('e event_log, go_error option) op" where
  "etx_Append a ctx ev s =
     (case ctx_Err s ctx of Some err \<Rightarrow> (Some err, s) | None \<Rightarrow> (None, etx_push a ev s))"

fun etx_Events :: "'e event_log \<Rightarrow> nat \<Rightarrow> 'e event list" where
  "etx_Events s a =
     (case etx_parent (el_txs s ! a) of
        TheLog \<Rightarrow> el_events s
      | TheTx p \<Rightarrow> if p < a then etx_Events s p else []) @ etx_events (el_txs s ! a)"

declare etx_Events.simps [simp del]

section \<open>EventLog\<close>

definition el_LookupTx :: "'e event_log \<Rightarrow> elctx \<Rightarrow> nat option" where
  "el_LookupTx s ctx = ctx_Value ctx (el_NS s)"

definition el_Append :: "elctx \<Rightarrow> 'e event \<Rightarrow> ('e event_log, go_error option) op" where
  "el_Append ctx ev s =
     (case ctx_Err s ctx of
        Some err \<Rightarrow> (Some err, s)
      | None \<Rightarrow>
          (case (case el_LookupTx s ctx of None \<Rightarrow> None | Some a \<Rightarrow> if etx_isDone s a then None else Some a) of
             Some a \<Rightarrow> etx_Append a ctx ev s
           | None \<Rightarrow> (None, s\<lparr>el_events := el_events s @ [ev]\<rparr>)))"

definition el_Rewrite :: "('e event list \<Rightarrow> 'e event list) \<Rightarrow> 'e event_log \<Rightarrow> 'e event_log" where
  "el_Rewrite mapper s = s\<lparr>el_events := mapper (el_events s)\<rparr>"

text \<open>\<^verbatim>\<open>RewriteEventLog[EventType]\<close>: \<open>sel\<close> is the type assertion to the event type.\<close>

definition RewriteEventLog ::
    "('e \<Rightarrow> 'f option) \<Rightarrow> ('f \<Rightarrow> 'e) \<Rightarrow> ('f list \<Rightarrow> 'f list) \<Rightarrow> 'e event_log \<Rightarrow> 'e event_log" where
  "RewriteEventLog sel pack rewrite s =
     (let asserts = (\<lambda>ev. case ev of UserEvent e \<Rightarrow> sel e | EventLogEvent _ _ \<Rightarrow> None)
      in el_Rewrite (\<lambda>es. filter (\<lambda>ev. asserts ev = None) es @
                          map (UserEvent \<circ> pack) (rewrite (List.map_filter asserts es))) s)"

definition el_Purge :: "'e event_log \<Rightarrow> 'e event_log" where
  "el_Purge s = s\<lparr>el_events := []\<rparr>"

definition el_Events :: "'e event_log \<Rightarrow> 'e event list" where
  "el_Events s = el_events s"

definition el_EventsInContext :: "'e event_log \<Rightarrow> elctx \<Rightarrow> 'e event list" where
  "el_EventsInContext s ctx = (case el_LookupTx s ctx of Some a \<Rightarrow> etx_Events s a | None \<Rightarrow> el_Events s)"

definition em_Append :: "event_manager \<Rightarrow> elctx \<Rightarrow> 'e event \<Rightarrow> ('e event_log, go_error option) op" where
  "em_Append em ctx ev s = (case em of TheLog \<Rightarrow> el_Append ctx ev s | TheTx p \<Rightarrow> etx_Append p ctx ev s)"

definition el_BeginTx :: "elctx \<Rightarrow> ('e event_log, elctx \<times> go_error option) op" where
  "el_BeginTx ctx s =
     (if (case el_LookupTx s ctx of None \<Rightarrow> False | Some a \<Rightarrow> etx_isDone s a)
      then ((ctx, Some (ErrText ''current context transaction already commit'')), s)
      else
        (let em = (case el_LookupTx s ctx of Some a \<Rightarrow> TheTx a | None \<Rightarrow> TheLog)
         in case context_WithCancel ctx s of
              ((ctx', cancel), s1) \<Rightarrow>
                (let a = length (el_txs s1);
                     s2 = s1\<lparr>el_txs := el_txs s1 @ [\<lparr>etx_events = [], etx_parent = em, etx_cancel = cancel,
                                              done_commit = False, done_rollback = False\<rparr>]\<rparr>
                 in case etx_Append a ctx' (EventLogEvent txEventLogEventType ''BeginTx'') s2 of
                      (Some err, s3) \<Rightarrow> ((ctx', Some err), s3)
                    | (None, s3) \<Rightarrow> ((WithValueCtx (el_NS s3) a ctx', None), s3))))"

fun em_append_each :: "event_manager \<Rightarrow> elctx \<Rightarrow> 'e event list \<Rightarrow> ('e event_log, go_error option) op" where
  "em_append_each em ctx [] s = (None, s)"
| "em_append_each em ctx (ev # evs) s =
     (case em_Append em ctx ev s of
        (Some err, s') \<Rightarrow> (Some err, s')
      | (None, s') \<Rightarrow> em_append_each em ctx evs s')"

definition etx_mark :: "('e event_log_tx \<Rightarrow> 'e event_log_tx) \<Rightarrow> nat \<Rightarrow> 'e event_log \<Rightarrow> 'e event_log" where
  "etx_mark f a s = s\<lparr>el_txs := (el_txs s)[a := f (el_txs s ! a)]\<rparr>"

definition el_CommitTx :: "elctx \<Rightarrow> ('e event_log, go_error option) op" where
  "el_CommitTx ctx s =
     (case el_LookupTx s ctx of
        None \<Rightarrow> (Some el_errNoTx, s)
      | Some a \<Rightarrow>
          if etx_isDone s a then (Some el_errTxDone, s)
          else
            (case etx_Append a ctx (EventLogEvent txEventLogEventType ''CommitTx'') s of
               (Some err, s1) \<Rightarrow> (Some err, s1)
             | (None, s1) \<Rightarrow>
                 (let s2 = etx_mark (\<lambda>t. t\<lparr>done_commit := True\<rparr>) a s1;
                      tx = el_txs s2 ! a
                  in case em_append_each (etx_parent tx) ctx (etx_events tx) s2 of
                       (Some err, s3) \<Rightarrow> (Some err, s3)
                     | (None, s3) \<Rightarrow> (None, context_cancel (etx_cancel tx) s3))))"

definition el_RollbackTx :: "elctx \<Rightarrow> ('e event_log, go_error option) op" where
  "el_RollbackTx ctx s =
     (case el_LookupTx s ctx of
        None \<Rightarrow> (Some el_errNoTx, s)
      | Some a \<Rightarrow>
          if etx_isDone s a then (Some el_errTxDone, s)
          else
            (case etx_Append a ctx (EventLogEvent txEventLogEventType ''RollbackTx'') s of
               (Some err, s1) \<Rightarrow> (Some err, s1)
             | (None, s1) \<Rightarrow>
                 (let s2 = etx_mark (\<lambda>t. t\<lparr>done_rollback := True\<rparr>) a s1
                  in (None, context_cancel (etx_cancel (el_txs s2 ! a)) s2))))"

text \<open>\<^verbatim>\<open>Atomic\<close>: the callback takes the transaction; \<^verbatim>\<open>LookupTx\<close> of the new context finds it.\<close>

definition el_Atomic ::
    "(nat option \<Rightarrow> ('e event_log, go_error option) op) \<Rightarrow> elctx \<Rightarrow> ('e event_log, go_error option) op" where
  "el_Atomic fn ctx s =
     (case ctx_Err s ctx of
        Some err \<Rightarrow> (Some err, s)
      | None \<Rightarrow>
          (case el_BeginTx ctx s of
             ((_, Some err), s1) \<Rightarrow> (Some err, s1)
           | ((ctx', None), s1) \<Rightarrow>
               (case fn (el_LookupTx s1 ctx') s1 of
                  (Some err, s2) \<Rightarrow> (Some err, snd (el_RollbackTx ctx' s2))
                | (None, s2) \<Rightarrow> el_CommitTx ctx' s2)))"

definition is_tx_event :: "'e event \<Rightarrow> bool" where
  "is_tx_event ev = (case ev of EventLogEvent typ _ \<Rightarrow> typ = txEventLogEventType | UserEvent _ \<Rightarrow> False)"

definition el_Compress :: "'e event_log \<Rightarrow> 'e event_log" where
  "el_Compress s = el_Rewrite (filter (\<lambda>ev. \<not> is_tx_event ev)) s"

definition NewEventLog :: "string \<Rightarrow> 'e event_log" where
  "NewEventLog ns = \<lparr>cancelled = [], next_cancel = 0, el_NS = ns, el_events = [], el_txs = []\<rparr>"

section \<open>What the operations do\<close>

lemma etx_push_simps [simp]:
  "el_events (etx_push a ev s) = el_events s" "el_NS (etx_push a ev s) = el_NS s"
  "length (el_txs (etx_push a ev s)) = length (el_txs s)"
  "etx_parent (el_txs (etx_push a ev s) ! b) = etx_parent (el_txs s ! b)"
  "etx_cancel (el_txs (etx_push a ev s) ! b) = etx_cancel (el_txs s ! b)"
  "cancelled (etx_push a ev s) = cancelled s" "next_cancel (etx_push a ev s) = next_cancel s"
  "etx_isDone (etx_push a ev s) b = etx_isDone s b"
  "el_LookupTx (etx_push a ev s) c = el_LookupTx s c" "ctx_Err (etx_push a ev s) c = ctx_Err s c"
  by (simp_all add: etx_push_def nth_list_update_if etx_isDone_def el_LookupTx_def
      ctx_Err_cong [of "etx_push a ev s" s])
     (rule ctx_Err_cong, simp)

lemma etx_push_events:
  "a < length (el_txs s) \<Longrightarrow>
     etx_events (el_txs (etx_push a ev s) ! b) = etx_events (el_txs s ! b) @ (if b = a then [ev] else [])"
  by (simp add: etx_push_def nth_list_update_if)

lemma etx_mark_simps [simp]:
  "el_events (etx_mark f a s) = el_events s" "el_NS (etx_mark f a s) = el_NS s"
  "length (el_txs (etx_mark f a s)) = length (el_txs s)"
  "cancelled (etx_mark f a s) = cancelled s" "next_cancel (etx_mark f a s) = next_cancel s"
  "el_LookupTx (etx_mark f a s) c = el_LookupTx s c" "ctx_Err (etx_mark f a s) c = ctx_Err s c"
  by (simp_all add: etx_mark_def el_LookupTx_def) (rule ctx_Err_cong, simp)

lemma etx_mark_nth [simp]: "a < length (el_txs s) \<Longrightarrow> el_txs (etx_mark f a s) ! a = f (el_txs s ! a)"
  by (simp add: etx_mark_def)

lemma el_events_update_simps [simp]:
  "el_LookupTx (s\<lparr>el_events := es\<rparr>) c = el_LookupTx s c" "ctx_Err (s\<lparr>el_events := es\<rparr>) c = ctx_Err s c"
  "etx_isDone (s\<lparr>el_events := es\<rparr>) a = etx_isDone s a"
  by (simp_all add: el_LookupTx_def etx_isDone_def) (rule ctx_Err_cong, simp)

lemma context_cancel_el_simps [simp]:
  "el_events (context_cancel i s) = el_events s" "el_txs (context_cancel i s) = el_txs s"
  "el_NS (context_cancel i s) = el_NS s" "el_LookupTx (context_cancel i s) c = el_LookupTx s c"
  by (simp_all add: context_cancel_def el_LookupTx_def)

text \<open>The commit loop into the log: the committing transaction is done, so its context appends to the log.\<close>

lemma em_append_each_log:
  "ctx_Err s c = None \<Longrightarrow> el_LookupTx s c = Some a \<Longrightarrow> etx_isDone s a \<Longrightarrow>
     em_append_each TheLog c evs s = (None, s\<lparr>el_events := el_events s @ evs\<rparr>)"
  by (induction evs arbitrary: s) (simp_all add: em_Append_def el_Append_def)

text \<open>The commit loop into an enclosing transaction.\<close>

lemma em_append_each_tx:
  "ctx_Err s c = None \<Longrightarrow> p < length (el_txs s) \<Longrightarrow>
     em_append_each (TheTx p) c evs s =
       (None, s\<lparr>el_txs := (el_txs s)[p := (el_txs s ! p)\<lparr>etx_events := etx_events (el_txs s ! p) @ evs\<rparr>]\<rparr>)"
proof (induction evs arbitrary: s)
  case (Cons ev evs)
  have "em_append_each (TheTx p) c (ev # evs) s = em_append_each (TheTx p) c evs (etx_push p ev s)"
    using Cons.prems by (simp add: em_Append_def etx_Append_def)
  also have "\<dots> = (None, (etx_push p ev s)\<lparr>el_txs := (el_txs (etx_push p ev s))[p :=
      (el_txs (etx_push p ev s) ! p)\<lparr>etx_events := etx_events (el_txs (etx_push p ev s) ! p) @ evs\<rparr>]\<rparr>)"
    using Cons.prems by (intro Cons.IH) simp_all
  finally show ?case using Cons.prems by (simp add: etx_push_def)
qed simp

section \<open>The log provides the one-phase commit protocol\<close>

text \<open>What a context sees of the log, apart from the transaction markers.\<close>

definition el_view :: "'e event_log \<Rightarrow> elctx \<Rightarrow> 'e event list" where
  "el_view s c = filter (\<lambda>ev. \<not> is_tx_event ev) (el_EventsInContext s c)"

definition el_base :: "'e event_log \<Rightarrow> elctx \<Rightarrow> bool" where
  "el_base s c \<longleftrightarrow> el_LookupTx s c = None"

definition el_within :: "'e event_log \<Rightarrow> elctx \<Rightarrow> elctx \<Rightarrow> bool" where
  "el_within s c c' \<longleftrightarrow> el_base s c \<and>
     (case el_LookupTx s c' of None \<Rightarrow> False
      | Some a \<Rightarrow> a < length (el_txs s) \<and> etx_parent (el_txs s ! a) = TheLog \<and> \<not> etx_isDone s a)"

lemma el_withinE:
  assumes "el_within s c c'"
  obtains a where "el_LookupTx s c = None" "el_LookupTx s c' = Some a" "a < length (el_txs s)"
    "etx_parent (el_txs s ! a) = TheLog" "\<not> etx_isDone s a"
  using assms by (auto simp: el_within_def el_base_def split: option.splits)

lemma is_tx_event_Tx [simp]: "is_tx_event (EventLogEvent txEventLogEventType n)"
  by (simp add: is_tx_event_def)

lemma el_view_base: "el_LookupTx s c = None \<Longrightarrow> el_view s c = filter (\<lambda>ev. \<not> is_tx_event ev) (el_events s)"
  by (simp add: el_view_def el_EventsInContext_def el_Events_def)

lemma el_view_log_tx:
  "el_LookupTx s c = Some a \<Longrightarrow> etx_parent (el_txs s ! a) = TheLog \<Longrightarrow>
     el_view s c = filter (\<lambda>ev. \<not> is_tx_event ev) (el_events s @ etx_events (el_txs s ! a))"
  by (simp add: el_view_def el_EventsInContext_def etx_Events.simps [of s a])

lemma el_BeginTx_ok:
  assumes "el_BeginTx c s = ((c', None), s')"
  shows "el_LookupTx s' c' = Some (length (el_txs s)) \<and> length (el_txs s') = Suc (length (el_txs s)) \<and>
    etx_parent (el_txs s' ! length (el_txs s)) = (case el_LookupTx s c of Some a \<Rightarrow> TheTx a | None \<Rightarrow> TheLog) \<and>
    etx_events (el_txs s' ! length (el_txs s)) = [EventLogEvent txEventLogEventType ''BeginTx''] \<and>
    \<not> etx_isDone s' (length (el_txs s)) \<and> el_events s' = el_events s \<and> el_NS s' = el_NS s \<and>
    ctx_Err s' c' = None \<and> (\<forall>b < length (el_txs s). el_txs s' ! b = el_txs s ! b)"
proof -
  let ?em = "case el_LookupTx s c of Some a \<Rightarrow> TheTx a | None \<Rightarrow> TheLog"
  define s2 where "s2 = s\<lparr>next_cancel := Suc (next_cancel s), el_txs := el_txs s @
    [\<lparr>etx_events = [], etx_parent = ?em, etx_cancel = next_cancel s, done_commit = False, done_rollback = False\<rparr>]\<rparr>"
  let ?c = "WithCancelCtx (next_cancel s) c"
  from assms have s': "s' = etx_push (length (el_txs s)) (EventLogEvent txEventLogEventType ''BeginTx'') s2"
    and c': "c' = WithValueCtx (el_NS s) (length (el_txs s)) ?c" and e: "ctx_Err s2 ?c = None"
    by (auto simp: el_BeginTx_def Let_def context_WithCancel_def etx_Append_def s2_def
        simp del: ctx_Err.simps split: if_splits option.splits)
  have "ctx_Err s' c' = None" using e by (simp only: s' c' etx_push_simps ctx_Err.simps)
  then show ?thesis
    by (simp add: s' c' etx_push_events, simp add: s2_def el_LookupTx_def etx_isDone_def nth_append
        etx_push_def)
qed

lemma el_BeginTx_err: "el_BeginTx c s = ((c', Some e), s') \<Longrightarrow> el_events s' = el_events s \<and> el_NS s' = el_NS s"
  by (auto simp: el_BeginTx_def Let_def context_WithCancel_def etx_Append_def split: if_splits option.splits)

lemma el_CommitTx_log:
  assumes "el_LookupTx s c = Some a" "a < length (el_txs s)" "etx_parent (el_txs s ! a) = TheLog"
    "\<not> etx_isDone s a" "ctx_Err s c = None"
  shows "\<exists>s'. el_CommitTx c s = (None, s') \<and>
     el_events s' = el_events s @ etx_events (el_txs s ! a) @ [EventLogEvent txEventLogEventType ''CommitTx''] \<and>
     el_NS s' = el_NS s \<and> etx_isDone s' a \<and> length (el_txs s') = length (el_txs s)"
proof -
  let ?ev = "EventLogEvent txEventLogEventType ''CommitTx''"
  define s2 where "s2 = etx_mark (\<lambda>t. t\<lparr>done_commit := True\<rparr>) a (etx_push a ?ev s)"
  have s2: "ctx_Err s2 c = None" "el_LookupTx s2 c = Some a" "etx_isDone s2 a" "el_events s2 = el_events s"
    "etx_parent (el_txs s2 ! a) = TheLog" "etx_events (el_txs s2 ! a) = etx_events (el_txs s ! a) @ [?ev]"
    "el_NS s2 = el_NS s" "length (el_txs s2) = length (el_txs s)"
    using assms by (simp_all add: s2_def etx_push_events etx_isDone_def)
  have "el_CommitTx c s = (None, context_cancel (etx_cancel (el_txs s2 ! a))
      (s2\<lparr>el_events := el_events s2 @ etx_events (el_txs s2 ! a)\<rparr>))"
    using assms s2(5) em_append_each_log [OF s2(1-3)]
    by (simp add: el_CommitTx_def etx_Append_def s2_def [symmetric] Let_def)
  with s2 show ?thesis by (simp add: etx_isDone_def)
qed

lemma el_CommitTx_err: "el_CommitTx c s = (Some e, s') \<Longrightarrow> ctx_Err s c \<noteq> None \<Longrightarrow> s' = s"
  by (auto simp: el_CommitTx_def etx_Append_def split: option.splits if_splits)

lemma el_RollbackTx_frame:
  "el_RollbackTx c s = (r, s') \<Longrightarrow> el_events s' = el_events s \<and> el_NS s' = el_NS s"
  by (auto simp: el_RollbackTx_def etx_Append_def Let_def split: option.splits if_splits)

interpretation elcommit: one_phase_commit el_BeginTx el_CommitTx el_RollbackTx el_view el_base el_within
proof
  fix s s' :: "'a event_log" and c c' :: elctx and e
  assume "el_base s c" "el_BeginTx c s = ((c', Some e), s')"
  with el_BeginTx_err [of c s] show "el_view s' c = el_view s c"
    by (auto simp: el_base_def el_view_base el_LookupTx_def)
next
  fix s s' :: "'a event_log" and c c' :: elctx
  assume b: "el_base s c" and bg: "el_BeginTx c s = ((c', None), s')"
  note B = el_BeginTx_ok [OF bg]
  have "el_LookupTx s' c = None" using b B by (simp add: el_base_def el_LookupTx_def)
  with b B show "el_within s' c c' \<and> el_view s' c' = el_view s c \<and> el_view s' c = el_view s c"
    by (simp add: el_within_def el_base_def el_view_base el_view_log_tx)
next
  fix s s' :: "'a event_log" and c c' :: elctx
  assume w: "el_within s c c'" and cm: "el_CommitTx c' s = (None, s')"
  from w obtain a where a: "el_LookupTx s c = None" "el_LookupTx s c' = Some a" "a < length (el_txs s)"
    "etx_parent (el_txs s ! a) = TheLog" "\<not> etx_isDone s a" by (rule el_withinE)
  have "ctx_Err s c' = None" using cm a
    by (auto simp: el_CommitTx_def etx_Append_def split: option.splits if_splits)
  from el_CommitTx_log [OF a(2-5) this] cm
  have s': "el_events s' = el_events s @ etx_events (el_txs s ! a) @ [EventLogEvent txEventLogEventType ''CommitTx'']"
    "el_NS s' = el_NS s" by auto
  then have "el_LookupTx s' c = None" using a(1) by (simp add: el_LookupTx_def)
  with a s' show "el_view s' c = el_view s c'" by (simp add: el_view_base el_view_log_tx)
next
  fix s s' :: "'a event_log" and c c' :: elctx and e
  assume w: "el_within s c c'" and cm: "el_CommitTx c' s = (Some e, s')"
  from w obtain a where a: "el_LookupTx s c' = Some a" "a < length (el_txs s)"
    "etx_parent (el_txs s ! a) = TheLog" "\<not> etx_isDone s a" by (rule el_withinE)
  have "ctx_Err s c' \<noteq> None" using el_CommitTx_log [OF a] cm by auto
  with cm show "el_view s' c = el_view s c" using el_CommitTx_err by blast
next
  fix s s' :: "'a event_log" and c c' :: elctx and r
  assume w: "el_within s c c'" and "el_RollbackTx c' s = (r, s')"
  with el_RollbackTx_frame have "el_events s' = el_events s" "el_NS s' = el_NS s" by blast+
  moreover have "el_LookupTx s c = None" using w by (auto elim: el_withinE)
  ultimately show "el_view s' c = el_view s c" by (simp add: el_view_base el_LookupTx_def)
qed

lemma el_CommitTx_nested:
  assumes "el_LookupTx s c = Some a" "a < length (el_txs s)" "etx_parent (el_txs s ! a) = TheTx p" "p < a"
    "\<not> etx_isDone s a" "ctx_Err s c = None"
  shows "\<exists>s'. el_CommitTx c s = (None, s') \<and> el_events s' = el_events s \<and>
     etx_events (el_txs s' ! p) =
       etx_events (el_txs s ! p) @ etx_events (el_txs s ! a) @ [EventLogEvent txEventLogEventType ''CommitTx''] \<and>
     etx_isDone s' a \<and> etx_isDone s' p = etx_isDone s p"
proof -
  let ?ev = "EventLogEvent txEventLogEventType ''CommitTx''"
  define s2 where "s2 = etx_mark (\<lambda>t. t\<lparr>done_commit := True\<rparr>) a (etx_push a ?ev s)"
  have p: "p \<noteq> a" "p < length (el_txs s)" using assms by simp_all
  then have s2p: "el_txs s2 ! p = el_txs s ! p"
    by (simp add: s2_def etx_mark_def etx_push_def nth_list_update_if)
  have s2: "ctx_Err s2 c = None" "el_events s2 = el_events s" "etx_isDone s2 a"
    "etx_parent (el_txs s2 ! a) = TheTx p" "etx_events (el_txs s2 ! a) = etx_events (el_txs s ! a) @ [?ev]"
    "length (el_txs s2) = length (el_txs s)"
    using assms by (simp_all add: s2_def etx_push_events etx_isDone_def)
  define t where "t = (el_txs s2 ! p)\<lparr>etx_events := etx_events (el_txs s2 ! p) @ etx_events (el_txs s2 ! a)\<rparr>"
  have "el_CommitTx c s = (None, context_cancel (etx_cancel (el_txs s2 ! a)) (s2\<lparr>el_txs := (el_txs s2)[p := t]\<rparr>))"
    using assms s2(4) em_append_each_tx [OF s2(1), of p "etx_events (el_txs s2 ! a)"] p s2(6)
    by (simp add: el_CommitTx_def etx_Append_def s2_def [symmetric] t_def Let_def)
  with p s2 s2p show ?thesis by (simp add: etx_isDone_def t_def)
qed

section \<open>Properties\<close>

definition ex_el_begin :: "(elctx \<times> go_error option) \<times> nat event_log" where
  "ex_el_begin = el_BeginTx Background (NewEventLog ''L'')"

definition ex_el :: "nat event_log" where
  "ex_el = snd (etx_Append 0 (fst (fst ex_el_begin)) (UserEvent 7) (snd ex_el_begin))"

lemma ex_el_begin_value: "ex_el_begin =
   ((WithValueCtx ''L'' 0 (WithCancelCtx 0 Background), None),
    \<lparr>cancelled = [], next_cancel = 1, el_NS = ''L'', el_events = [],
     el_txs = [\<lparr>etx_events = [EventLogEvent txEventLogEventType ''BeginTx''], etx_parent = TheLog,
                etx_cancel = 0, done_commit = False, done_rollback = False\<rparr>]\<rparr>)"
  by (simp add: ex_el_begin_def el_BeginTx_def NewEventLog_def el_LookupTx_def context_WithCancel_def
      Let_def etx_Append_def etx_push_def)

lemma ex_el_value: "ex_el = \<lparr>cancelled = [], next_cancel = 1, el_NS = ''L'', el_events = [],
     el_txs = [\<lparr>etx_events = [EventLogEvent txEventLogEventType ''BeginTx'', UserEvent 7], etx_parent = TheLog,
                etx_cancel = 0, done_commit = False, done_rollback = False\<rparr>]\<rparr>"
  by (simp add: ex_el_def ex_el_begin_value etx_Append_def etx_push_def)

text \<open>A nested transaction begun inside \<open>ex_el\<close>'s, whose enclosing transaction is then rolled back
  through a context that does not share its cancellation.\<close>

definition ex_el_nested :: "nat event_log" where
  "ex_el_nested = ex_el\<lparr>el_txs := [(el_txs ex_el ! 0)\<lparr>done_rollback := True\<rparr>,
     \<lparr>etx_events = [UserEvent 9], etx_parent = TheTx 0, etx_cancel = 1, done_commit = False, done_rollback = False\<rparr>]\<rparr>"

text \<open>A commit publishes the buffered events, in order and followed by its marker, to its parent only.
  For an open transaction on a live context CommitTx succeeds and finishes it; a top-level one appends
  its events to the log, a nested one appends them to the enclosing transaction and leaves the log
  unchanged.\<close>

theorem el_CommitTx_publishes:
  assumes "el_LookupTx s c = Some a" "a < length (el_txs s)" "\<not> etx_isDone s a" "ctx_Err s c = None"
    and "(case etx_parent (el_txs s ! a) of TheLog \<Rightarrow> True | TheTx p \<Rightarrow> p < a)"
    and "el_CommitTx c s = (r, s')"
  shows "r = None \<and> etx_isDone s' a \<and>
    (let published = etx_events (el_txs s ! a) @ [EventLogEvent txEventLogEventType ''CommitTx'']
     in case etx_parent (el_txs s ! a) of
          TheLog \<Rightarrow> el_events s' = el_events s @ published
        | TheTx p \<Rightarrow> el_events s' = el_events s \<and>
                      etx_events (el_txs s' ! p) = etx_events (el_txs s ! p) @ published)"
proof (cases "etx_parent (el_txs s ! a)")
  case TheLog
  with el_CommitTx_log [OF assms(1,2) TheLog assms(3,4)] assms(6) show ?thesis by auto
next
  case (TheTx p)
  with assms(5) have "p < a" by simp
  with el_CommitTx_nested [OF assms(1,2) TheTx this assms(3,4)] assms(6) TheTx show ?thesis by auto
qed

text \<open>Atomic is all or nothing. From a context in no transaction, for a callback that only appends to
  its transaction, a failing Atomic leaves the events the context sees (markers aside) as they were, and a
  succeeding one makes the context see what the transaction saw when the callback returned.\<close>

theorem el_Atomic_atomic:
  assumes "el_LookupTx s c = None"
    and "\<forall>t s1 c' e s2. el_within s1 c c' \<and> el_LookupTx s1 c' = t \<and> fn t s1 = (e, s2) \<longrightarrow>
           el_within s2 c c' \<and> el_events s2 = el_events s1"
    and "el_Atomic fn c s = (e, s')"
  shows "(e \<noteq> None \<and> el_view s' c = el_view s c) \<or>
    (\<exists>c' s1 s2. e = None \<and> el_BeginTx c s = ((c', None), s1) \<and> fn (el_LookupTx s1 c') s1 = (None, s2) \<and>
       el_view s1 c' = el_view s c \<and> el_view s' c = el_view s2 c')"
proof (cases "ctx_Err s c")
  case (Some x)
  with assms(3) show ?thesis by (auto simp: el_Atomic_def)
next
  case None
  define body where "body = (\<lambda>c' s1. fn (el_LookupTx s1 c') s1)"
  define e0 where "e0 = fst (OnePhaseCommit_run el_BeginTx el_CommitTx el_RollbackTx c body s)"
  have same: "OnePhaseCommit_run el_BeginTx el_CommitTx el_RollbackTx c body s = (e0, s')"
    and e0: "e0 = None \<longleftrightarrow> e = None"
    using assms(3) None
    by (auto simp: el_Atomic_def OnePhaseCommit_run_def body_def e0_def FinishOnePhaseCommit_def Merge_None_iff
        split: prod.splits option.splits)
  have iso: "elcommit.isolated c body"
    unfolding elcommit.isolated_def body_def
  proof (intro allI impI)
    fix s1 c' r s2
    assume w: "el_within s1 c c'" and f: "fn (el_LookupTx s1 c') s1 = (r, s2)"
    with assms(2) have w2: "el_within s2 c c'" "el_events s2 = el_events s1" by blast+
    with w show "el_within s2 c c' \<and> el_view s2 c = el_view s1 c"
      by (auto elim!: el_withinE simp: el_view_base)
  qed
  have "el_base s c" using assms(1) by (simp add: el_base_def)
  from elcommit.run_atomic [OF this iso same] e0 show ?thesis unfolding body_def by blast
qed

text \<open>Committing into a finished enclosing transaction loses the events. When the enclosing transaction
  is already finished, committing the nested one through a context that is still live reports success, yet
  the log is unchanged and the enclosing transaction can no longer be committed.\<close>

theorem el_nested_commit_lost:
  assumes "el_LookupTx s c = Some a" "a < length (el_txs s)" "\<not> etx_isDone s a" "ctx_Err s c = None"
    and "etx_parent (el_txs s ! a) = TheTx p" "p < a" "etx_isDone s p"
    and "el_CommitTx c s = (r, s')" "el_LookupTx s' cp = Some p"
  shows "r = None \<and> el_events s' = el_events s \<and> el_CommitTx cp s' = (Some el_errTxDone, s')"
proof -
  from el_CommitTx_nested [OF assms(1,2,5,6,3,4)] assms(7,8)
  have "r = None" "el_events s' = el_events s" "etx_isDone s' p" by auto
  with assms(9) show ?thesis by (simp add: el_CommitTx_def)
qed

end
