(* ===== verification/Crud.thy ===== *)
theory Crud imports Comproto begin

text \<open>
  What the in-memory repositories share: the error constants of \<^verbatim>\<open>port/crud\<close> and of
  \<^verbatim>\<open>adapter/memory\<close>, and the ID accessor \<^verbatim>\<open>extid.Accessor\<close>.
\<close>

section \<open>Error constants\<close>

definition ErrMissingID :: go_error where "ErrMissingID = ErrConst ''ErrMissingID''"
definition ErrNilPointer :: string where "ErrNilPointer = ''ErrNilPointer''"
definition crud_ErrAlreadyExists :: string where "crud_ErrAlreadyExists = ''err-already-exists''"
definition crud_ErrNotFound :: string where "crud_ErrNotFound = ''err-not-found''"

section \<open>The ID accessor\<close>

record ('v, 'i) accessor =
  acc_fn :: "(('v \<Rightarrow> 'i) \<times> ('i \<Rightarrow> 'v \<Rightarrow> 'v)) option"
  ext_Lookup :: "'v \<Rightarrow> 'i \<times> bool"
  ext_Set :: "'v \<Rightarrow> 'i \<Rightarrow> 'v \<times> go_error option"

definition Accessor_Lookup :: "('v, 'i) accessor \<Rightarrow> 'v \<Rightarrow> 'i \<times> bool" where
  "Accessor_Lookup fn ent = (case acc_fn fn of None \<Rightarrow> ext_Lookup fn ent | Some (get, put) \<Rightarrow> (get ent, True))"

definition Accessor_Get :: "('v, 'i) accessor \<Rightarrow> 'v \<Rightarrow> 'i" where
  "Accessor_Get fn ent = fst (Accessor_Lookup fn ent)"

definition Accessor_Set :: "('v, 'i) accessor \<Rightarrow> 'v \<Rightarrow> 'i \<Rightarrow> 'v \<times> go_error option" where
  "Accessor_Set fn ent ident = (case acc_fn fn of None \<Rightarrow> ext_Set fn ent ident | Some (get, put) \<Rightarrow> (put ident ent, None))"

text \<open>Reading back an ID that was set: what an accessor promises.\<close>

definition accessor_law :: "('v, 'i) accessor \<Rightarrow> bool" where
  "accessor_law fn \<longleftrightarrow> (\<forall>v i v'. Accessor_Set fn v i = (v', None) \<longrightarrow> Accessor_Get fn v' = i)"

end
