(* ===== verification/EventLogRepository.thy ===== *)
theory EventLogRepository imports EventLog Crud begin

text \<open>
  \<^verbatim>\<open>EventLogRepository[ENT, ID]\<close> of \<^verbatim>\<open>adapter/memory/EventLogRepository.go\<close>: CRUD
  by event sourcing. Every write appends an event of the repository's namespace to the event log, every
  read folds those events into a view, a map from ID keys to entities.

  The log's user events are this entity type's repository events, of any namespace, and foreign events.
  A panic is the value \<^verbatim>\<open>ErrPanic\<close>: callers pass it on as they pass on an error, and a
  deferred call runs with the nil error that the panicking function had not yet set.
\<close>

record 'v repo_event =
  ev_Namespace :: string
  ev_Name :: string
  ev_Value :: 'v

datatype ('v, 'x) log_event = RepoEvent "'v repo_event" | ForeignEvent 'x

type_synonym ('v, 'x) elog = "('v, 'x) log_event event_log"
type_synonym 'v view = "(string, 'v) gomap"

definition CreateEvent :: string where "CreateEvent = ''Create''"
definition UpdateEvent :: string where "UpdateEvent = ''Update''"
definition DeleteAllEvent :: string where "DeleteAllEvent = ''DeleteAll''"
definition DeleteByIDEvent :: string where "DeleteByIDEvent = ''DeleteByID''"

lemmas event_names = CreateEvent_def UpdateEvent_def DeleteAllEvent_def DeleteByIDEvent_def

record ('v, 'i) elr =
  elr_Namespace :: string
  elr_IDA :: "('v, 'i) accessor"
  elr_newID :: "elctx \<Rightarrow> go_error + 'i"
  elr_key :: "'i \<Rightarrow> string"
  elr_zeroID :: 'i
  elr_zeroENT :: 'v
  CompressEventLog :: bool

definition elr_ownEvent :: "('v, 'i) elr \<Rightarrow> 'v repo_event \<Rightarrow> bool" where
  "elr_ownEvent r e = (ev_Namespace e = elr_Namespace r)"

section \<open>The view\<close>

definition elr_isDoneTx :: "elctx \<Rightarrow> 'e event_log \<Rightarrow> go_error option" where
  "elr_isDoneTx ctx s =
     (case el_LookupTx s ctx of
        None \<Rightarrow> None | Some tx \<Rightarrow> if etx_isDone s tx then Some el_errTxDone else None)"

definition repo_event_of :: "('v, 'x) log_event event \<Rightarrow> 'v repo_event option" where
  "repo_event_of ev = (case ev of UserEvent (RepoEvent e) \<Rightarrow> Some e | _ \<Rightarrow> None)"

definition elr_own :: "('v, 'i) elr \<Rightarrow> ('v, 'x) log_event event list \<Rightarrow> 'v repo_event list" where
  "elr_own r es = filter (elr_ownEvent r) (List.map_filter repo_event_of es)"

definition elr_Events :: "('v, 'i) elr \<Rightarrow> elctx \<Rightarrow> ('v, 'x) elog \<Rightarrow> 'v repo_event list" where
  "elr_Events r ctx s = elr_own r (el_EventsInContext s ctx)"

definition view_FindByID :: "('v, 'i) elr \<Rightarrow> 'i \<Rightarrow> 'v view \<Rightarrow> 'v option" where
  "view_FindByID r ident v = gm_get v (elr_key r ident)"

definition view_setByID :: "('v, 'i) elr \<Rightarrow> 'i \<Rightarrow> 'v \<Rightarrow> 'v view \<Rightarrow> 'v view" where
  "view_setByID r ident ent v = gm_set (elr_key r ident) ent v"

definition view_delByID :: "('v, 'i) elr \<Rightarrow> 'i \<Rightarrow> 'v view \<Rightarrow> 'v view" where
  "view_delByID r ident v = gm_del (elr_key r ident) v"

text \<open>\<^verbatim>\<open>view\<close>; \<^term>\<open>None\<close> is the panic on an event value without an ID.\<close>

fun elr_view_from :: "('v, 'i) elr \<Rightarrow> 'v view \<Rightarrow> 'v repo_event list \<Rightarrow> 'v view option" where
  "elr_view_from r v [] = Some v"
| "elr_view_from r v (e # es) =
     (if ev_Name e = CreateEvent \<or> ev_Name e = UpdateEvent then
        (case Accessor_Lookup (elr_IDA r) (ev_Value e) of
           (ident, True) \<Rightarrow> elr_view_from r (view_setByID r ident (ev_Value e) v) es
         | (ident, False) \<Rightarrow> None)
      else if ev_Name e = DeleteByIDEvent then
        (case Accessor_Lookup (elr_IDA r) (ev_Value e) of
           (ident, True) \<Rightarrow> elr_view_from r (view_delByID r ident v) es
         | (ident, False) \<Rightarrow> None)
      else if ev_Name e = DeleteAllEvent then elr_view_from r [] es
      else elr_view_from r v es)"

definition elr_view :: "('v, 'i) elr \<Rightarrow> 'v repo_event list \<Rightarrow> 'v view option" where
  "elr_view r es = elr_view_from r [] es"

definition elr_View :: "('v, 'i) elr \<Rightarrow> elctx \<Rightarrow> ('v, 'x) elog \<Rightarrow> 'v view option" where
  "elr_View r ctx s = elr_view r (elr_Events r ctx s)"

definition missingID :: go_error where
  "missingID = ErrPanic ''missing id in event value''"

section \<open>Compress and append\<close>

definition elr_compress_events :: "('v, 'i) elr \<Rightarrow> 'v repo_event list \<Rightarrow> 'v repo_event list option" where
  "elr_compress_events r es =
     (case elr_view r (filter (elr_ownEvent r) es) of
        None \<Rightarrow> None
      | Some v \<Rightarrow> Some (filter (\<lambda>e. \<not> elr_ownEvent r e) es @
          map (\<lambda>(k, ent). \<lparr>ev_Namespace = elr_Namespace r, ev_Name = CreateEvent, ev_Value = ent\<rparr>) v))"

definition repo_sel :: "('v, 'x) log_event \<Rightarrow> 'v repo_event option" where
  "repo_sel e = (case e of RepoEvent x \<Rightarrow> Some x | ForeignEvent _ \<Rightarrow> None)"

text \<open>\<^verbatim>\<open>Compress\<close>; a panic of the view happens before the log is rewritten.\<close>

definition elr_Compress :: "('v, 'i) elr \<Rightarrow> (('v, 'x) elog, go_error option) op" where
  "elr_Compress r s =
     (let s1 = el_Compress s
      in case elr_compress_events r (List.map_filter repo_event_of (el_events s1)) of
           None \<Rightarrow> (Some missingID, s1)
         | Some _ \<Rightarrow>
             (None, RewriteEventLog repo_sel RepoEvent (\<lambda>es. the (elr_compress_events r es)) s1))"

definition elr_append :: "('v, 'i) elr \<Rightarrow> elctx \<Rightarrow> 'v repo_event \<Rightarrow> (('v, 'x) elog, go_error option) op" where
  "elr_append r ctx e s =
     (case el_Append ctx (UserEvent (RepoEvent e)) s of
        (Some err, s1) \<Rightarrow> (Some err, s1)
      | (None, s1) \<Rightarrow> if CompressEventLog r then elr_Compress r s1 else (None, s1))"

section \<open>CRUD\<close>

definition elr_FindByID :: "('v, 'i) elr \<Rightarrow> elctx \<Rightarrow> 'i \<Rightarrow> ('v, 'x) elog \<Rightarrow> go_error + 'v option" where
  "elr_FindByID r ctx ident s =
     (case ctx_Err s ctx of Some err \<Rightarrow> Inl err
      | None \<Rightarrow> (case elr_isDoneTx ctx s of Some err \<Rightarrow> Inl err
      | None \<Rightarrow> (case elr_View r ctx s of None \<Rightarrow> Inl missingID
                  | Some v \<Rightarrow> Inr (view_FindByID r ident v))))"

definition elr_FindAll :: "('v, 'i) elr \<Rightarrow> elctx \<Rightarrow> ('v, 'x) elog \<Rightarrow> (go_error + 'v) list" where
  "elr_FindAll r ctx s =
     (case ctx_Err s ctx of Some err \<Rightarrow> [Inl err]
      | None \<Rightarrow> (case elr_isDoneTx ctx s of Some err \<Rightarrow> [Inl err]
      | None \<Rightarrow> (case elr_View r ctx s of None \<Rightarrow> [Inl missingID]
                  | Some v \<Rightarrow> map (\<lambda>(k, ent). Inr ent) v)))"

fun elr_FindByIDs :: "('v, 'i) elr \<Rightarrow> elctx \<Rightarrow> 'i list \<Rightarrow> ('v, 'x) elog \<Rightarrow> (go_error + 'v) list" where
  "elr_FindByIDs r ctx [] s = []"
| "elr_FindByIDs r ctx (ident # ids) s =
     (case elr_FindByID r ctx ident s of
        Inl err \<Rightarrow> [Inl err]
      | Inr None \<Rightarrow> [Inl (ErrWrapText ''id is not found'' (ErrConst crud_ErrNotFound))]
      | Inr (Some ent) \<Rightarrow> Inr ent # elr_FindByIDs r ctx ids s)"

definition elr_event :: "('v, 'i) elr \<Rightarrow> string \<Rightarrow> 'v \<Rightarrow> 'v repo_event" where
  "elr_event r name v = \<lparr>ev_Namespace = elr_Namespace r, ev_Name = name, ev_Value = v\<rparr>"

definition elr_create :: "('v, 'i) elr \<Rightarrow> elctx \<Rightarrow> (('v, 'x) elog \<times> 'v, go_error option) op" where
  "elr_create r ctx w =
     (let ident = Accessor_Get (elr_IDA r) (snd w);
          insert = (\<lambda>ident w.
            case ctx_Err (fst w) ctx of Some err \<Rightarrow> (Some err, w)
            | None \<Rightarrow>
              (case elr_FindByID r ctx ident (fst w) of
                 Inl err \<Rightarrow> (Some err, w)
               | Inr (Some _) \<Rightarrow>
                   (WithContext (Some (ErrorLite_F crud_ErrAlreadyExists ''already exists with id'')), w)
               | Inr None \<Rightarrow>
                   (case elr_append r ctx (elr_event r CreateEvent (snd w)) (fst w) of
                      (e, s) \<Rightarrow> (e, (s, snd w)))))
      in if ident = elr_zeroID r then
           (case elr_newID r ctx of
              Inl err \<Rightarrow> (Some err, w)
            | Inr newID \<Rightarrow>
                (case Accessor_Set (elr_IDA r) (snd w) newID of
                   (v, Some err) \<Rightarrow> (Some err, (fst w, v))
                 | (v, None) \<Rightarrow> insert newID (fst w, v)))
         else insert ident w)"

definition elr_Create :: "('v, 'i) elr \<Rightarrow> elctx \<Rightarrow> (('v, 'x) elog \<times> 'v option, go_error option) op" where
  "elr_Create r ctx w =
     (case snd w of
        None \<Rightarrow> (Some (Error_F ErrNilPointer ''Create is called with nil''), w)
      | Some v \<Rightarrow> (case elr_create r ctx (fst w, v) of (err, (s, v')) \<Rightarrow> (err, (s, Some v'))))"

definition elr_update :: "('v, 'i) elr \<Rightarrow> elctx \<Rightarrow> 'v \<Rightarrow> (('v, 'x) elog, go_error option) op" where
  "elr_update r ctx v s =
     (case Accessor_Lookup (elr_IDA r) v of
        (ident, False) \<Rightarrow> (Some (ErrText ''doesn't have id field''), s)
      | (ident, True) \<Rightarrow>
          if ident = elr_zeroID r then (Some (ErrText ''external id field is empty''), s)
          else
            (case elr_FindByID r ctx ident s of
               Inl err \<Rightarrow> (Some err, s)
             | Inr None \<Rightarrow> (Some (ErrorLite_F crud_ErrNotFound ''entity not found by id''), s)
             | Inr (Some _) \<Rightarrow> elr_append r ctx (elr_event r UpdateEvent v) s))"

definition elr_Update :: "('v, 'i) elr \<Rightarrow> elctx \<Rightarrow> 'v option \<Rightarrow> (('v, 'x) elog, go_error option) op" where
  "elr_Update r ctx ptr s =
     (case ptr of None \<Rightarrow> (Some (Error_F ErrNilPointer ''Update is called with nil''), s)
      | Some v \<Rightarrow> elr_update r ctx v s)"

definition elr_DeleteByID :: "('v, 'i) elr \<Rightarrow> elctx \<Rightarrow> 'i \<Rightarrow> (('v, 'x) elog, go_error option) op" where
  "elr_DeleteByID r ctx ident s =
     (case elr_FindByID r ctx ident s of
        Inl err \<Rightarrow> (Some err, s)
      | Inr None \<Rightarrow> (Some (ErrorLite_F crud_ErrNotFound ''entity not found by id''), s)
      | Inr (Some _) \<Rightarrow>
          (case Accessor_Set (elr_IDA r) (elr_zeroENT r) ident of
             (v, Some err) \<Rightarrow> (Some err, s)
           | (v, None) \<Rightarrow> elr_append r ctx (elr_event r DeleteByIDEvent v) s))"

definition elr_DeleteAll :: "('v, 'i) elr \<Rightarrow> elctx \<Rightarrow> (('v, 'x) elog, go_error option) op" where
  "elr_DeleteAll r ctx s =
     (case elr_isDoneTx ctx s of Some err \<Rightarrow> (Some err, s)
      | None \<Rightarrow> elr_append r ctx (elr_event r DeleteAllEvent (elr_zeroENT r)) s)"

section \<open>Save and batches\<close>

definition elr_Save :: "('v, 'i) elr \<Rightarrow> elctx \<Rightarrow> (('v, 'x) elog \<times> 'v, go_error option) op" where
  "elr_Save r ctx w =
     (case ctx_Err (fst w) ctx of Some err \<Rightarrow> (Some err, w)
      | None \<Rightarrow>
        (case el_BeginTx ctx (fst w) of
           ((_, Some err), s1) \<Rightarrow> (Some err, (s1, snd w))
         | ((tx, None), s1) \<Rightarrow>
             (let ident = Accessor_Get (elr_IDA r) (snd w)
              in case (if ident = elr_zeroID r then elr_create r tx (s1, snd w)
                       else case elr_FindByID r tx ident s1 of
                              Inl err \<Rightarrow> (Some err, (s1, snd w))
                            | Inr None \<Rightarrow> elr_create r tx (s1, snd w)
                            | Inr (Some _) \<Rightarrow> (case elr_update r tx (snd w) s1 of (e, s) \<Rightarrow> (e, (s, snd w)))) of
                   (Some (ErrPanic p), (s2, v)) \<Rightarrow> (Some (ErrPanic p), (snd (el_CommitTx tx s2), v))
                 | (Some rErr, (s2, v)) \<Rightarrow> (Some rErr, (snd (el_RollbackTx tx s2), v))
                 | (None, (s2, v)) \<Rightarrow> (case el_CommitTx tx s2 of (e, s3) \<Rightarrow> (e, (s3, v))))))"

record 'v elr_batch =
  eb_C :: elctx
  eb_vs :: "'v list"
  eb_closed :: bool
  eb_finish :: bool
  eb_closeErr :: "go_error option"

definition elr_Batch :: "elctx \<Rightarrow> 'v elr_batch" where
  "elr_Batch ctx = \<lparr>eb_C = ctx, eb_vs = [], eb_closed = False, eb_finish = False, eb_closeErr = None\<rparr>"

definition eb_Add :: "'v \<Rightarrow> 'e event_log \<Rightarrow> 'v elr_batch \<Rightarrow> go_error option \<times> 'v elr_batch" where
  "eb_Add v s b =
     (if eb_closed b then (Some (ErrText ''closed already''), b)
      else case ctx_Err s (eb_C b) of
             Some err \<Rightarrow> (Some err, b)
           | None \<Rightarrow> (None, b\<lparr>eb_vs := eb_vs b @ [v]\<rparr>))"

fun eb_create_each :: "('v, 'i) elr \<Rightarrow> 'v list \<Rightarrow> elctx \<Rightarrow> (('v, 'x) elog, go_error option) op" where
  "eb_create_each r [] ctx s = (None, s)"
| "eb_create_each r (v # vs) ctx s =
     (case elr_create r ctx (s, v) of
        (Some err, (s', _)) \<Rightarrow> (Some err, s')
      | (None, (s', _)) \<Rightarrow> eb_create_each r vs ctx s')"

definition eb_close_run :: "('v, 'i) elr \<Rightarrow> 'v elr_batch \<Rightarrow> (('v, 'x) elog, go_error option) op" where
  "eb_close_run r b s =
     (case el_BeginTx (eb_C b) s of
        ((_, Some err), s1) \<Rightarrow> (Some err, s1)
      | ((tx, None), s1) \<Rightarrow>
          (case eb_create_each r (eb_vs b) tx s1 of
             (Some (ErrPanic p), s2) \<Rightarrow>
               (Some (ErrPanic p), snd (FinishOnePhaseCommit None el_CommitTx el_RollbackTx tx s2))
           | (rErr, s2) \<Rightarrow> FinishOnePhaseCommit rErr el_CommitTx el_RollbackTx tx s2))"

text \<open>
  \<^verbatim>\<open>synckit.Init\<close> on a \<^verbatim>\<open>sync.Once\<close> runs the function once and keeps its error; after a
  panic the once is spent and the error was never set.
\<close>

definition eb_Close :: "('v, 'i) elr \<Rightarrow> (('v, 'x) elog \<times> 'v elr_batch, go_error option) op" where
  "eb_Close r w =
     (if eb_finish (snd w) then (eb_closeErr (snd w), w)
      else case eb_close_run r (snd w) (fst w) of
             (e, s) \<Rightarrow> (e, (s, (snd w)\<lparr>eb_finish := True, eb_closeErr := (case e of Some (ErrPanic _) \<Rightarrow> None | _ \<Rightarrow> e)\<rparr>)))"

section \<open>What the events mean\<close>

text \<open>The effect of an event on a map from keys to entities: the specification of the view.\<close>

definition elr_apply :: "('v, 'i) elr \<Rightarrow> 'v repo_event \<Rightarrow> (string \<Rightarrow> 'v option) \<Rightarrow> string \<Rightarrow> 'v option" where
  "elr_apply r e f =
     (let k = elr_key r (Accessor_Get (elr_IDA r) (ev_Value e))
      in if ev_Name e = CreateEvent \<or> ev_Name e = UpdateEvent then f(k \<mapsto> ev_Value e)
         else if ev_Name e = DeleteByIDEvent then f(k := None)
         else if ev_Name e = DeleteAllEvent then Map.empty
         else f)"

definition elr_event_ok :: "('v, 'i) elr \<Rightarrow> 'v repo_event \<Rightarrow> bool" where
  "elr_event_ok r e \<longleftrightarrow>
     (ev_Name e = CreateEvent \<or> ev_Name e = UpdateEvent \<or> ev_Name e = DeleteByIDEvent \<longrightarrow>
        snd (Accessor_Lookup (elr_IDA r) (ev_Value e)))"

definition view_keyed :: "('v, 'i) elr \<Rightarrow> 'v view \<Rightarrow> bool" where
  "view_keyed r v \<longleftrightarrow> gm_wf v \<and>
     (\<forall>k ent. map_of v k = Some ent \<longrightarrow>
        snd (Accessor_Lookup (elr_IDA r) ent) \<and> elr_key r (Accessor_Get (elr_IDA r) ent) = k)"

definition elr_sem :: "('v, 'i) elr \<Rightarrow> 'v repo_event list \<Rightarrow> string \<Rightarrow> 'v option" where
  "elr_sem r es = fold (elr_apply r) es Map.empty"

lemma view_keyed_set:
  "view_keyed r v \<Longrightarrow> Accessor_Lookup (elr_IDA r) ent = (i, True) \<Longrightarrow> view_keyed r (view_setByID r i ent v)"
  by (auto simp: view_keyed_def view_setByID_def Accessor_Get_def)

lemma view_keyed_del: "view_keyed r v \<Longrightarrow> view_keyed r (view_delByID r i v)"
  by (auto simp: view_keyed_def view_delByID_def)

lemma elr_view_from_spec:
  assumes "view_keyed r v"
  shows "(elr_view_from r v es = None \<and> \<not> list_all (elr_event_ok r) es) \<or>
    (\<exists>v'. elr_view_from r v es = Some v' \<and> list_all (elr_event_ok r) es \<and> view_keyed r v' \<and>
       map_of v' = fold (elr_apply r) es (map_of v))"
  using assms
proof (induction es arbitrary: v)
  case (Cons e es)
  obtain i b where l: "Accessor_Lookup (elr_IDA r) (ev_Value e) = (i, b)" by (metis prod.exhaust)
  then have g: "Accessor_Get (elr_IDA r) (ev_Value e) = i" by (simp add: Accessor_Get_def)
  consider (set) "ev_Name e = CreateEvent \<or> ev_Name e = UpdateEvent"
    | (del) "ev_Name e = DeleteByIDEvent" "\<not> (ev_Name e = CreateEvent \<or> ev_Name e = UpdateEvent)"
    | (clear) "ev_Name e = DeleteAllEvent" "\<not> (ev_Name e = CreateEvent \<or> ev_Name e = UpdateEvent)"
        "ev_Name e \<noteq> DeleteByIDEvent"
    | (other) "\<not> (ev_Name e = CreateEvent \<or> ev_Name e = UpdateEvent)" "ev_Name e \<noteq> DeleteByIDEvent"
        "ev_Name e \<noteq> DeleteAllEvent" by blast
  then show ?case
  proof cases
    case set
    then have ap: "elr_apply r e f = f(elr_key r i \<mapsto> ev_Value e)" for f by (simp add: elr_apply_def g)
    have ok: "elr_event_ok r e = b" using set by (auto simp: elr_event_ok_def l)
    show ?thesis
    proof (cases b)
      case True
      with l have "view_keyed r (view_setByID r i (ev_Value e) v)" using view_keyed_set [OF Cons.prems] by simp
      from Cons.IH [OF this] set show ?thesis by (simp add: l True ok ap view_setByID_def del: fun_upd_apply)
    next
      case False
      then show ?thesis using set by (simp add: l ok)
    qed
  next
    case del
    then have ap: "elr_apply r e f = f(elr_key r i := None)" for f by (auto simp: elr_apply_def g)
    have ok: "elr_event_ok r e = b" using del by (simp add: elr_event_ok_def l)
    show ?thesis
      using Cons.IH [OF view_keyed_del [OF Cons.prems, of i]] del
      by (cases b) (simp_all add: l ok ap view_delByID_def del: fun_upd_apply)
  next
    case clear
    then have ap: "elr_apply r e f = Map.empty" for f by (auto simp: elr_apply_def)
    have ok: "elr_event_ok r e" using clear by (auto simp: elr_event_ok_def)
    have "view_keyed r []" by (simp add: view_keyed_def)
    from Cons.IH [OF this] clear show ?thesis by (simp add: ok ap)
  next
    case other
    then have ap: "elr_apply r e f = f" for f by (auto simp: elr_apply_def)
    have ok: "elr_event_ok r e" using other by (auto simp: elr_event_ok_def)
    from Cons.IH [OF Cons.prems] other show ?thesis by (simp add: ok ap)
  qed
qed simp

lemma elr_view_spec:
  "(elr_view r es = None \<and> \<not> list_all (elr_event_ok r) es) \<or>
   (\<exists>v. elr_view r es = Some v \<and> list_all (elr_event_ok r) es \<and> view_keyed r v \<and> map_of v = elr_sem r es)"
  using elr_view_from_spec [of r "[]" es] by (simp add: elr_view_def elr_sem_def view_keyed_def)

lemma elr_view_Some:
  "elr_view r es = Some v \<Longrightarrow> list_all (elr_event_ok r) es \<and> view_keyed r v \<and> map_of v = elr_sem r es"
  using elr_view_spec [of r es] by auto

lemma elr_view_ok: "list_all (elr_event_ok r) es \<Longrightarrow> \<exists>v. elr_view r es = Some v \<and> map_of v = elr_sem r es"
  using elr_view_spec [of r es] by auto

section \<open>Compressing\<close>

definition creates_of :: "('v, 'i) elr \<Rightarrow> 'v view \<Rightarrow> 'v repo_event list" where
  "creates_of r v =
     map (\<lambda>(k, ent). \<lparr>ev_Namespace = elr_Namespace r, ev_Name = CreateEvent, ev_Value = ent\<rparr>) v"

lemma creates_of_sem:
  assumes "view_keyed r v"
  shows "fold (elr_apply r) (creates_of r v) f = f ++ map_of v \<and>
     list_all (elr_event_ok r) (creates_of r v) \<and> list_all (elr_ownEvent r) (creates_of r v)"
  using assms
proof (induction v arbitrary: f)
  case (Cons p v)
  obtain k ent where p: "p = (k, ent)" by (cases p)
  have none: "map_of v k = None" using Cons.prems by (simp add: p view_keyed_def gm_wf_Cons)
  have ent: "snd (Accessor_Lookup (elr_IDA r) ent)" "elr_key r (Accessor_Get (elr_IDA r) ent) = k"
  proof -
    have "map_of (p # v) k = Some ent" by (simp add: p)
    then show "snd (Accessor_Lookup (elr_IDA r) ent)" "elr_key r (Accessor_Get (elr_IDA r) ent) = k"
      using Cons.prems unfolding view_keyed_def by blast+
  qed
  have "view_keyed r v"
  proof -
    have "map_of (p # v) k' = Some x" if "map_of v k' = Some x" for k' x using that none by (auto simp: p)
    then show ?thesis using Cons.prems unfolding view_keyed_def by (simp add: p gm_wf_Cons) blast
  qed
  note IH = Cons.IH [OF this]
  have "f(k \<mapsto> ent) ++ map_of v = f ++ map_of (p # v)"
    using none by (auto simp: p fun_eq_iff map_add_def split: option.splits)
  moreover define e where "e = \<lparr>ev_Namespace = elr_Namespace r, ev_Name = CreateEvent, ev_Value = ent\<rparr>"
  then have "elr_apply r e f = f(k \<mapsto> ent)" "elr_event_ok r e" "elr_ownEvent r e"
    "creates_of r (p # v) = e # creates_of r v"
    using ent by (simp_all add: creates_of_def p elr_apply_def elr_event_ok_def elr_ownEvent_def)
  ultimately show ?case using IH [of "f(k \<mapsto> ent)"] by (simp del: fun_upd_apply)
qed (simp add: creates_of_def)

lemma map_filter_UserEvent [simp]:
  "List.map_filter repo_event_of (map (UserEvent \<circ> RepoEvent) es) = es"
  by (induction es) (simp_all add: repo_event_of_def)

lemma repo_asserts: "(case ev of UserEvent e \<Rightarrow> repo_sel e | EventLogEvent _ _ \<Rightarrow> None) = repo_event_of ev"
  by (simp add: repo_event_of_def repo_sel_def split: event.split log_event.split)

lemma map_filter_none [simp]:
  "List.map_filter repo_event_of (filter (\<lambda>ev. P ev \<and> repo_event_of ev = None) es) = []"
  by (induction es) (auto split: option.split)

lemma repo_event_of_tx: "is_tx_event ev \<Longrightarrow> repo_event_of ev = None"
  by (cases ev) (simp_all add: is_tx_event_def repo_event_of_def)

lemma map_filter_filter_tx [simp]:
  "List.map_filter repo_event_of (filter (\<lambda>ev. \<not> is_tx_event ev) es) = List.map_filter repo_event_of es"
  by (induction es) (auto simp: repo_event_of_tx split: option.split)

lemma map_filter_app: "List.map_filter f (xs @ ys) = List.map_filter f xs @ List.map_filter f ys"
  by (induction xs) (auto split: option.split)

lemma filter_not_repo [simp]:
  "filter (\<lambda>ev. repo_event_of ev = None) (map (UserEvent \<circ> RepoEvent) es) = []"
  by (induction es) (simp_all add: repo_event_of_def)

lemma elr_Compress_ok:
  assumes "list_all (elr_event_ok r) (elr_own r (el_events s))" "elr_Compress r s = (e, s')"
  shows "e = None \<and> el_txs s' = el_txs s \<and> el_NS s' = el_NS s \<and> cancelled s' = cancelled s \<and>
    (\<exists>v. elr_view r (elr_own r (el_events s)) = Some v \<and>
       List.map_filter repo_event_of (el_events s') =
         filter (\<lambda>e. \<not> elr_ownEvent r e) (List.map_filter repo_event_of (el_events s)) @ creates_of r v) \<and>
    filter (\<lambda>ev. repo_event_of ev = None) (el_events s') =
      filter (\<lambda>ev. repo_event_of ev = None \<and> \<not> is_tx_event ev) (el_events s)"
proof -
  let ?es = "List.map_filter repo_event_of (el_events s)"
  have own: "elr_own r (el_events s) = filter (elr_ownEvent r) ?es" by (simp add: elr_own_def)
  obtain v where v: "elr_view r (filter (elr_ownEvent r) ?es) = Some v"
    using elr_view_ok [OF assms(1)] by (auto simp: own)
  then have ce: "elr_compress_events r ?es = Some (filter (\<lambda>e. \<not> elr_ownEvent r e) ?es @ creates_of r v)"
    by (simp add: elr_compress_events_def creates_of_def)
  have "s' = s\<lparr>el_events := filter (\<lambda>ev. repo_event_of ev = None) (filter (\<lambda>ev. \<not> is_tx_event ev) (el_events s)) @
      map (UserEvent \<circ> RepoEvent) (filter (\<lambda>e. \<not> elr_ownEvent r e) ?es @ creates_of r v)\<rparr> \<and> e = None"
    using assms(2) ce
    by (auto simp: elr_Compress_def Let_def RewriteEventLog_def el_Compress_def el_Rewrite_def repo_asserts)
  then show ?thesis
    by (simp add: own v map_filter_app del: map_append) (rule filter_cong, auto)
qed

section \<open>Appending to a context\<close>

text \<open>The events that the transactions of a context buffer above the log.\<close>

fun etx_buffer :: "'e event_log \<Rightarrow> nat \<Rightarrow> 'e event list" where
  "etx_buffer s a =
     (case etx_parent (el_txs s ! a) of
        TheLog \<Rightarrow> [] | TheTx p \<Rightarrow> if p < a then etx_buffer s p else []) @ etx_events (el_txs s ! a)"

declare etx_buffer.simps [simp del]

definition el_wf :: "'e event_log \<Rightarrow> bool" where
  "el_wf s \<longleftrightarrow> list_all (\<lambda>a. case etx_parent (el_txs s ! a) of TheLog \<Rightarrow> True | TheTx p \<Rightarrow> p < a)
     [0..<length (el_txs s)]"

definition ctx_buffer :: "'e event_log \<Rightarrow> elctx \<Rightarrow> 'e event list" where
  "ctx_buffer s c = (case el_LookupTx s c of None \<Rightarrow> [] | Some a \<Rightarrow> etx_buffer s a)"

definition el_ctx_ok :: "'e event_log \<Rightarrow> elctx \<Rightarrow> bool" where
  "el_ctx_ok s c \<longleftrightarrow> el_wf s \<and> (case el_LookupTx s c of None \<Rightarrow> True | Some a \<Rightarrow> a < length (el_txs s))"

definition el_ready :: "'e event_log \<Rightarrow> elctx \<Rightarrow> bool" where
  "el_ready s c \<longleftrightarrow> el_ctx_ok s c \<and> ctx_Err s c = None \<and>
     (case el_LookupTx s c of None \<Rightarrow> True | Some a \<Rightarrow> \<not> etx_isDone s a)"

lemma etx_Events_buffer:
  "el_wf s \<Longrightarrow> a < length (el_txs s) \<Longrightarrow> etx_Events s a = el_events s @ etx_buffer s a"
proof (induction a rule: less_induct)
  case (less a)
  then have "case etx_parent (el_txs s ! a) of TheLog \<Rightarrow> True | TheTx p \<Rightarrow> p < a"
    by (simp add: el_wf_def list_all_iff)
  with less show ?case
    by (subst etx_Events.simps, subst etx_buffer.simps) (auto split: event_manager.splits)
qed

lemma EventsInContext_buffer:
  "el_ctx_ok s c \<Longrightarrow> el_EventsInContext s c = el_events s @ ctx_buffer s c"
  by (auto simp: el_ctx_ok_def el_EventsInContext_def ctx_buffer_def el_Events_def etx_Events_buffer
      split: option.splits)

lemma etx_buffer_cong: "el_txs s' = el_txs s \<Longrightarrow> etx_buffer s' a = etx_buffer s a"
proof (induction a rule: less_induct)
  case (less a)
  then show ?case
    by (subst (1 2) etx_buffer.simps) (auto split: event_manager.split)
qed

lemma ctx_buffer_cong: "el_txs s' = el_txs s \<Longrightarrow> el_NS s' = el_NS s \<Longrightarrow> ctx_buffer s' c = ctx_buffer s c"
  using etx_buffer_cong [of s' s] by (simp add: ctx_buffer_def el_LookupTx_def split: option.split)

lemma etx_buffer_push_below: "b < a \<Longrightarrow> etx_buffer (etx_push a ev s) b = etx_buffer s b"
proof (induction b rule: less_induct)
  case (less b)
  then have "etx_events (el_txs (etx_push a ev s) ! b) = etx_events (el_txs s ! b)"
    by (simp add: etx_push_def nth_list_update_if)
  with less show ?case
    by (subst (1 2) etx_buffer.simps) (auto split: event_manager.split)
qed

lemma etx_buffer_push: "a < length (el_txs s) \<Longrightarrow> etx_buffer (etx_push a ev s) a = etx_buffer s a @ [ev]"
  by (subst (1 2) etx_buffer.simps) (auto simp: etx_push_events etx_buffer_push_below split: event_manager.split)

lemma el_wf_push [simp]: "el_wf (etx_push a ev s) = el_wf s"
  by (simp add: el_wf_def)

lemma el_ctx_ok_same:
  "el_txs s' = el_txs s \<Longrightarrow> el_NS s' = el_NS s \<Longrightarrow> el_ctx_ok s' c = el_ctx_ok s c"
  by (simp add: el_ctx_ok_def el_wf_def el_LookupTx_def split: option.split)

lemma el_ready_same:
  "el_txs s' = el_txs s \<Longrightarrow> el_NS s' = el_NS s \<Longrightarrow> cancelled s' = cancelled s \<Longrightarrow> el_ready s' c = el_ready s c"
  using el_ctx_ok_same [of s' s c] ctx_Err_cong [of s' s c]
  by (simp add: el_ready_def el_LookupTx_def etx_isDone_def split: option.split)

lemma el_Append_ready:
  assumes "el_ready s c"
  shows "\<exists>s'. el_Append c ev s = (None, s') \<and> el_ready s' c \<and>
     el_EventsInContext s' c = el_EventsInContext s c @ [ev] \<and>
     (\<exists>xs. el_events s' = el_events s @ xs \<and> xs @ ctx_buffer s' c = ctx_buffer s c @ [ev])"
proof (cases "el_LookupTx s c")
  case None
  let ?s = "s\<lparr>el_events := el_events s @ [ev]\<rparr>"
  have "el_Append c ev s = (None, ?s)" using assms None by (simp add: el_Append_def el_ready_def)
  moreover have "el_ready ?s c" using assms by (subst el_ready_same) simp_all
  ultimately show ?thesis using None
    by (simp add: el_EventsInContext_def el_Events_def ctx_buffer_def)
next
  case (Some a)
  let ?s = "etx_push a ev s"
  have a: "a < length (el_txs s)" "\<not> etx_isDone s a" "ctx_Err s c = None" "el_ctx_ok s c"
    using assms Some by (simp_all add: el_ready_def el_ctx_ok_def)
  have ap: "el_Append c ev s = (None, ?s)" using a Some by (simp add: el_Append_def etx_Append_def)
  have r: "el_ready ?s c" using assms Some by (simp add: el_ready_def el_ctx_ok_def)
  then have "el_ctx_ok ?s c" by (simp add: el_ready_def)
  from EventsInContext_buffer [OF this] EventsInContext_buffer [OF a(4)] a(1) Some ap r
  show ?thesis by (simp add: ctx_buffer_def etx_buffer_push)
qed

section \<open>The repository over a context\<close>

lemma elr_own_append: "elr_own r (xs @ ys) = elr_own r xs @ elr_own r ys"
  by (simp add: elr_own_def map_filter_app)

lemma elr_sem_append: "elr_sem r (xs @ ys) = fold (elr_apply r) ys (elr_sem r xs)"
  by (simp add: elr_sem_def)

lemma elr_View_sem:
  "elr_View r c s = Some v \<Longrightarrow>
     map_of v = elr_sem r (elr_Events r c s) \<and> list_all (elr_event_ok r) (elr_Events r c s) \<and> view_keyed r v"
  using elr_view_Some [of r "elr_Events r c s" v] by (simp add: elr_View_def)

text \<open>Compressing keeps what every context of this repository sees, and the events of the others.\<close>

lemma elr_Compress_context:
  fixes s :: "('v, 'x) elog" and r :: "('v, 'i) elr"
  assumes "el_ctx_ok s c" "list_all (elr_event_ok r) (elr_Events r c s)" "elr_Compress r s = (e, s')"
  shows "e = None \<and> el_ctx_ok s' c \<and> list_all (elr_event_ok r) (elr_Events r c s') \<and>
    elr_sem r (elr_Events r c s') = elr_sem r (elr_Events r c s) \<and>
    (el_ready s c \<longrightarrow> el_ready s' c) \<and>
    (\<forall>r' :: ('v, 'i) elr. elr_Namespace r' \<noteq> elr_Namespace r \<longrightarrow> elr_Events r' c s' = elr_Events r' c s)"
proof -
  have E: "elr_Events q c s = elr_own q (el_events s) @ elr_own q (ctx_buffer s c)" for q :: "('v, 'i) elr"
    by (simp add: elr_Events_def EventsInContext_buffer [OF assms(1)] elr_own_append)
  have ok: "list_all (elr_event_ok r) (elr_own r (el_events s))" using assms(2) by (simp add: E)
  from elr_Compress_ok [OF ok assms(3)] obtain v where v: "e = None" "el_txs s' = el_txs s" "el_NS s' = el_NS s"
    "cancelled s' = cancelled s" "elr_view r (elr_own r (el_events s)) = Some v"
    "List.map_filter repo_event_of (el_events s') =
       filter (\<lambda>e. \<not> elr_ownEvent r e) (List.map_filter repo_event_of (el_events s)) @ creates_of r v" by blast
  have ok': "el_ctx_ok s' c" using el_ctx_ok_same [OF v(2,3)] assms(1) by simp
  have buf: "ctx_buffer s' c = ctx_buffer s c" using v(2,3) by (rule ctx_buffer_cong)
  have E': "elr_Events q c s' = elr_own q (el_events s') @ elr_own q (ctx_buffer s c)" for q :: "('v, 'i) elr"
    by (simp add: elr_Events_def EventsInContext_buffer [OF ok'] elr_own_append buf)
  note vs = elr_view_Some [OF v(5)]
  have cr: "fold (elr_apply r) (creates_of r v) Map.empty = map_of v" "list_all (elr_event_ok r) (creates_of r v)"
    "list_all (elr_ownEvent r) (creates_of r v)"
    using creates_of_sem [of r v] vs by simp_all
  have own: "elr_own r (el_events s') = creates_of r v"
    using cr(3) by (simp add: elr_own_def v(6) filter_id_conv list_all_iff)
  have sem: "elr_sem r (elr_Events r c s') = elr_sem r (elr_Events r c s)"
    using cr(1) vs by (simp add: E E' own elr_sem_append) (simp add: elr_sem_def)
  have "elr_own r' (el_events s') = elr_own r' (el_events s)" if "elr_Namespace r' \<noteq> elr_Namespace r" for r' :: "('v, 'i) elr"
  proof -
    have "filter (elr_ownEvent r') (creates_of r v) = []"
      using that cr(3) by (auto simp: filter_empty_conv list_all_iff elr_ownEvent_def)
    moreover have "filter (elr_ownEvent r') (filter (\<lambda>e. \<not> elr_ownEvent r e) xs) = filter (elr_ownEvent r') xs" for xs
      using that by (auto simp: elr_ownEvent_def intro!: filter_cong)
    ultimately show ?thesis by (simp add: elr_own_def v(6))
  qed
  moreover have "list_all (elr_event_ok r) (elr_Events r c s')" using assms(2) cr(2) by (simp add: E E' own)
  moreover have "el_ready s' c = el_ready s c" by (rule el_ready_same [OF v(2,3,4)])
  ultimately show ?thesis using v(1) ok' sem by (simp add: E E')
qed

text \<open>What appending an event does to what the context sees, with and without compression.\<close>

lemma elr_append_effect:
  fixes s :: "('v, 'x) elog" and r :: "('v, 'i) elr"
  assumes "el_ready s c" "elr_View r c s = Some vw" "elr_ownEvent r e" "elr_event_ok r e"
    and "elr_append r c e s = (x, s')"
  shows "x = None \<and> el_ready s' c \<and>
    (\<exists>vw'. elr_View r c s' = Some vw' \<and> map_of vw' = elr_apply r e (map_of vw))"
proof -
  obtain s1 where s1: "el_Append c (UserEvent (RepoEvent e)) s = (None, s1)" "el_ready s1 c"
    "el_EventsInContext s1 c = el_EventsInContext s c @ [UserEvent (RepoEvent e)]"
    using el_Append_ready [OF assms(1), of "UserEvent (RepoEvent e)"] by blast
  have own: "elr_own r [UserEvent (RepoEvent e) :: ('v, 'x) log_event event] = [e]"
    using assms(3) by (simp add: elr_own_def repo_event_of_def)
  then have ev: "elr_Events r c s1 = elr_Events r c s @ [e]" by (simp add: elr_Events_def s1(3) elr_own_append)
  note vw = elr_View_sem [OF assms(2)]
  have ok: "list_all (elr_event_ok r) (elr_Events r c s1)" using vw assms(4) by (simp add: ev)
  have sem: "elr_sem r (elr_Events r c s1) = elr_apply r e (map_of vw)"
    using vw by (simp add: ev elr_sem_append)
  have fin: "x = None \<and> el_ready s' c \<and> list_all (elr_event_ok r) (elr_Events r c s') \<and>
      elr_sem r (elr_Events r c s') = elr_sem r (elr_Events r c s1)"
  proof (cases "CompressEventLog r")
    case True
    with assms(5) s1(1) have "elr_Compress r s1 = (x, s')" by (simp add: elr_append_def)
    moreover have "el_ctx_ok s1 c" using s1(2) by (simp add: el_ready_def)
    ultimately show ?thesis using elr_Compress_context [of s1 c r x s'] ok s1(2) by blast
  next
    case False
    with assms(5) s1 ok show ?thesis by (simp add: elr_append_def)
  qed
  then obtain vw' where "elr_view r (elr_Events r c s') = Some vw'" "map_of vw' = elr_sem r (elr_Events r c s')"
    using elr_view_ok by blast
  with fin sem show ?thesis by (auto simp: elr_View_def)
qed

section \<open>Properties\<close>

definition ex_elr :: "(nat \<times> nat, nat) elr" where
  "ex_elr = \<lparr>elr_Namespace = ''users'',
     elr_IDA = \<lparr>acc_fn = Some (fst, \<lambda>i v. (i, snd v)), ext_Lookup = \<lambda>v. (0, False), ext_Set = \<lambda>v i. (v, None)\<rparr>,
     elr_newID = \<lambda>_. Inr 3, elr_key = \<lambda>i. replicate i (CHR ''x''), elr_zeroID = 0, elr_zeroENT = (0, 0),
     CompressEventLog = True\<rparr>"

definition ex_elog :: "(nat \<times> nat, nat) elog" where
  "ex_elog = (NewEventLog ''L'')\<lparr>el_events :=
     [EventLogEvent txEventLogEventType ''BeginTx'',
      UserEvent (RepoEvent (elr_event ex_elr CreateEvent (2, 5))),
      UserEvent (ForeignEvent 8),
      UserEvent (RepoEvent (elr_event ex_elr UpdateEvent (2, 6))),
      EventLogEvent txEventLogEventType ''CommitTx'']\<rparr>"

lemma ex_elog_ready: "el_ready ex_elog Background"
  by (simp add: el_ready_def el_ctx_ok_def el_LookupTx_def ex_elog_def NewEventLog_def el_wf_def)

lemma ex_elog_view: "elr_View ex_elr Background ex_elog = Some [(''xx'', (2, 6))]"
  by code_simp

text \<open>C6: the event-sourced repository behaves as a map. On a live context, in a transaction or not, with
  or without log compression, when the view of its events is defined: Create fails with ErrAlreadyExists
  exactly when the ID is taken, Update and DeleteByID with ErrNotFound exactly when it is free, and a
  failing one changes nothing; after a succeeding one, and after DeleteAll, the view is the old map with
  the key set, removed, or with no key at all.\<close>

theorem elr_crud_contract:
  assumes "el_ready s c" "elr_View r c s = Some vw"
    and "Accessor_Lookup (elr_IDA r) v = (i, True)" "i \<noteq> elr_zeroID r"
    and "Accessor_Set (elr_IDA r) (elr_zeroENT r) i = (z, None)" "Accessor_Lookup (elr_IDA r) z = (i, True)"
  shows "let k = elr_key r i; found = map_of vw k \<noteq> None;
             becomes = (\<lambda>s' f. \<exists>vw'. elr_View r c s' = Some vw' \<and> map_of vw' = f)
         in (case elr_create r c (s, v) of (e, s', v') \<Rightarrow> v' = v \<and>
               (if found then err_Is e crud_ErrAlreadyExists \<and> s' = s
                else e = None \<and> becomes s' ((map_of vw)(k \<mapsto> v)))) \<and>
            (case elr_update r c v s of (e, s') \<Rightarrow>
               (if found then e = None \<and> becomes s' ((map_of vw)(k \<mapsto> v))
                else err_Is e crud_ErrNotFound \<and> s' = s)) \<and>
            (case elr_DeleteByID r c i s of (e, s') \<Rightarrow>
               (if found then e = None \<and> becomes s' ((map_of vw)(k := None))
                else err_Is e crud_ErrNotFound \<and> s' = s)) \<and>
            (case elr_DeleteAll r c s of (e, s') \<Rightarrow> e = None \<and> becomes s' Map.empty)"
proof -
  let ?k = "elr_key r i"
  have live: "ctx_Err s c = None" "elr_isDoneTx c s = None"
    using assms(1) by (auto simp: el_ready_def elr_isDoneTx_def split: option.splits)
  then have F: "elr_FindByID r c i s = Inr (map_of vw ?k)"
    by (simp add: elr_FindByID_def assms(2) view_FindByID_def)
  have G: "Accessor_Get (elr_IDA r) v = i" "Accessor_Get (elr_IDA r) z = i"
    using assms(3,6) by (simp_all add: Accessor_Get_def)
  have ap: "case elr_append r c (elr_event r name x) s of (e, s') \<Rightarrow> e = None \<and>
      (\<exists>vw'. elr_View r c s' = Some vw' \<and> map_of vw' = elr_apply r (elr_event r name x) (map_of vw))"
    if "elr_event_ok r (elr_event r name x)" for name x
    using elr_append_effect [OF assms(1,2) _ that] by (auto simp: elr_ownEvent_def elr_event_def split: prod.split)
  have eff: "elr_event_ok r (elr_event r CreateEvent v)" "elr_event_ok r (elr_event r UpdateEvent v)"
    "elr_event_ok r (elr_event r DeleteByIDEvent z)" "elr_event_ok r (elr_event r DeleteAllEvent (elr_zeroENT r))"
    "\<And>f. elr_apply r (elr_event r CreateEvent v) f = f(?k \<mapsto> v)"
    "\<And>f. elr_apply r (elr_event r UpdateEvent v) f = f(?k \<mapsto> v)"
    "\<And>f. elr_apply r (elr_event r DeleteByIDEvent z) f = f(?k := None)"
    "\<And>f. elr_apply r (elr_event r DeleteAllEvent (elr_zeroENT r)) f = Map.empty"
    using G assms(3,6) by (simp_all add: elr_event_ok_def elr_apply_def elr_event_def event_names)
  note A = ap [OF eff(1)] ap [OF eff(2)] ap [OF eff(3)] ap [OF eff(4)]
  have cr: "elr_create r c (s, v) = (case map_of vw ?k of
       Some _ \<Rightarrow> (WithContext (Some (ErrorLite_F crud_ErrAlreadyExists ''already exists with id'')), (s, v))
     | None \<Rightarrow> (case elr_append r c (elr_event r CreateEvent v) s of (e, s') \<Rightarrow> (e, (s', v))))"
    using G(1) assms(4) live F by (simp add: elr_create_def Let_def split: option.split)
  have up: "elr_update r c v s = (case map_of vw ?k of
       None \<Rightarrow> (Some (ErrorLite_F crud_ErrNotFound ''entity not found by id''), s)
     | Some _ \<Rightarrow> elr_append r c (elr_event r UpdateEvent v) s)"
    using assms(3,4) F by (simp add: elr_update_def split: option.split)
  have de: "elr_DeleteByID r c i s = (case map_of vw ?k of
       None \<Rightarrow> (Some (ErrorLite_F crud_ErrNotFound ''entity not found by id''), s)
     | Some _ \<Rightarrow> elr_append r c (elr_event r DeleteByIDEvent z) s)"
    using F assms(5) by (simp add: elr_DeleteByID_def split: option.split)
  have da: "elr_DeleteAll r c s = elr_append r c (elr_event r DeleteAllEvent (elr_zeroENT r)) s"
    by (simp add: elr_DeleteAll_def live)
  show ?thesis
    unfolding cr up de da Let_def using A
    by (cases "map_of vw ?k") (simp_all add: eff(5-8) split_def del: fun_upd_apply)
qed

theorem elr_crud_contract_witness:
  "err_Is (fst (elr_create ex_elr Background (ex_elog, (2, 9)))) crud_ErrAlreadyExists \<and>
   fst (elr_DeleteAll ex_elr Background ex_elog) = None"
proof -
  have h: "Accessor_Lookup (elr_IDA ex_elr) (2, 9) = (2, True)" "(2 :: nat) \<noteq> elr_zeroID ex_elr"
    "Accessor_Set (elr_IDA ex_elr) (elr_zeroENT ex_elr) 2 = ((2, 0), None)"
    "Accessor_Lookup (elr_IDA ex_elr) (2, 0) = (2, True)"
    by (simp_all add: ex_elr_def Accessor_Lookup_def Accessor_Set_def)
  have k: "elr_key ex_elr 2 = ''xx''" by (simp add: ex_elr_def numeral_2_eq_2)
  show ?thesis
    using elr_crud_contract [OF ex_elog_ready ex_elog_view h] by (simp add: Let_def k split_def)
qed

text \<open>C7: compressing the log changes no view. When every event of the repository that a context sees has
  an ID, Compress succeeds; the context's view of this repository is the same map, the events of every
  other repository are untouched and in order, all foreign events are kept, and the repository's part of
  the log is one Create per live entity.\<close>

theorem elr_Compress_preserves:
  fixes s :: "('v, 'x) elog" and r :: "('v, 'i) elr"
  assumes "el_ctx_ok s c" "elr_View r c s = Some vw" "elr_Compress r s = (e, s')"
  shows "e = None \<and> (\<exists>vw'. elr_View r c s' = Some vw' \<and> map_of vw' = map_of vw) \<and>
    (\<forall>r' :: ('v, 'i) elr. elr_Namespace r' \<noteq> elr_Namespace r \<longrightarrow> elr_Events r' c s' = elr_Events r' c s) \<and>
    filter (\<lambda>ev. repo_event_of ev = None) (el_events s') =
      filter (\<lambda>ev. repo_event_of ev = None \<and> \<not> is_tx_event ev) (el_events s) \<and>
    (\<exists>lv. elr_view r (elr_own r (el_events s)) = Some lv \<and> elr_own r (el_events s') = creates_of r lv)"
proof -
  note vw = elr_View_sem [OF assms(2)]
  then have ok: "list_all (elr_event_ok r) (elr_Events r c s)" by blast
  note C = elr_Compress_context [OF assms(1) ok assms(3)]
  have "list_all (elr_event_ok r) (elr_own r (el_events s))"
    using ok by (simp add: elr_Events_def EventsInContext_buffer [OF assms(1)] elr_own_append)
  from elr_Compress_ok [OF this assms(3)] obtain lv where
    lv: "elr_view r (elr_own r (el_events s)) = Some lv"
      "List.map_filter repo_event_of (el_events s') =
         filter (\<lambda>e. \<not> elr_ownEvent r e) (List.map_filter repo_event_of (el_events s)) @ creates_of r lv"
      "filter (\<lambda>ev. repo_event_of ev = None) (el_events s') =
         filter (\<lambda>ev. repo_event_of ev = None \<and> \<not> is_tx_event ev) (el_events s)" by blast
  have "list_all (elr_ownEvent r) (creates_of r lv)" using creates_of_sem elr_view_Some [OF lv(1)] by blast
  then have own: "elr_own r (el_events s') = creates_of r lv"
    by (simp add: elr_own_def lv(2) filter_id_conv list_all_iff)
  have "\<exists>vw'. elr_View r c s' = Some vw' \<and> map_of vw' = map_of vw"
    using elr_view_ok [of r "elr_Events r c s'"] C vw by (simp add: elr_View_def)
  with C lv own show ?thesis by blast
qed

theorem elr_Compress_preserves_witness:
  "fst (elr_Compress ex_elr ex_elog) = None \<and>
   (\<exists>vw'. elr_View ex_elr Background (snd (elr_Compress ex_elr ex_elog)) = Some vw' \<and> map_of vw' ''xx'' = Some (2, 6))"
proof -
  have "el_ctx_ok ex_elog Background" using ex_elog_ready by (simp add: el_ready_def)
  from elr_Compress_preserves [OF this ex_elog_view prod.collapse [symmetric]] show ?thesis by auto
qed

text \<open>a closed batch still accepts values, and drops them. After Close, Add on a live context reports
  success, yet closing again returns the first result and leaves the log as it is.\<close>

theorem eb_Add_after_Close:
  assumes "\<not> eb_closed b" "eb_Close r (s, b) = (e, s1, b1)" "ctx_Err s1 (eb_C b) = None"
    and "eb_Add v s1 b1 = (e2, b2)"
  shows "e2 = None \<and> v \<in> set (eb_vs b2) \<and> snd (snd (eb_Close r (s1, b2))) = b2 \<and>
         fst (snd (eb_Close r (s1, b2))) = s1"
proof (cases "eb_finish b")
  case True
  with assms show ?thesis by (auto simp: eb_Close_def eb_Add_def)
next
  case False
  obtain e0 s0 where "eb_close_run r b s = (e0, s0)" by (metis prod.exhaust)
  with assms False show ?thesis by (auto simp: eb_Close_def eb_Add_def)
qed


end
