(* ===== verification/TxKit.thy ===== *)
theory TxKit imports Comproto begin

text \<open>
  \<^verbatim>\<open>pkg/teardown/Teardown.go\<close> and \<^verbatim>\<open>pkg/txkit/txkit.go\<close>.

  A \<^verbatim>\<open>Teardown\<close> is a stack of functions. A function is a name \<open>'f\<close> with an
  interpretation \<open>exec\<close> that acts on the world; the stack lives in the world, behind the
  accessors \<open>get\<close> and \<open>put\<close>, because a function may defer further ones while it
  runs. \<^verbatim>\<open>Finish\<close> loops until the stack is empty, which need not happen: the model's
  value is then \<^term>\<open>None\<close>.

  A transaction \<^verbatim>\<open>Manager\<close> keeps \<^verbatim>\<open>txInContext\<close> cells on a heap; contexts hold
  their addresses. The native transaction's \<^verbatim>\<open>Begin\<close>, \<^verbatim>\<open>Commit\<close> and
  \<^verbatim>\<open>Rollback\<close> are the manager's arguments.
\<close>

section \<open>Teardown\<close>

definition td_Defer :: "('w \<Rightarrow> 'f list) \<Rightarrow> ('f list \<Rightarrow> 'w \<Rightarrow> 'w) \<Rightarrow> 'f \<Rightarrow> 'w \<Rightarrow> 'w" where
  "td_Defer get put fn w = put (get w @ [fn]) w"

definition td_IsEmpty :: "('w \<Rightarrow> 'f list) \<Rightarrow> 'w \<Rightarrow> bool" where
  "td_IsEmpty get w = (length (get w) = 0)"

text \<open>The deferred closures of \<^verbatim>\<open>run\<close>, in the order in which they execute.\<close>

fun td_run_fns :: "('f \<Rightarrow> ('w, go_error option) op) \<Rightarrow> 'f list \<Rightarrow> ('w, go_error list) op" where
  "td_run_fns exec [] w = ([], w)"
| "td_run_fns exec (fn # fns) w =
     (case exec fn w of
        (err, w1) \<Rightarrow>
          (case td_run_fns exec fns w1 of
             (errs, w2) \<Rightarrow> ((case err of Some e \<Rightarrow> e # errs | None \<Rightarrow> errs), w2)))"

definition td_run ::
    "('w \<Rightarrow> 'f list) \<Rightarrow> ('f list \<Rightarrow> 'w \<Rightarrow> 'w) \<Rightarrow> ('f \<Rightarrow> ('w, go_error option) op) \<Rightarrow> ('w, go_error list) op" where
  "td_run get put exec w = td_run_fns exec (rev (get w)) (put [] w)"

partial_function (option) td_loop ::
    "('w \<Rightarrow> 'f list) \<Rightarrow> ('f list \<Rightarrow> 'w \<Rightarrow> 'w) \<Rightarrow> ('f \<Rightarrow> ('w, go_error option) op) \<Rightarrow>
     go_error list \<Rightarrow> 'w \<Rightarrow> (go_error list \<times> 'w) option" where
  "td_loop get put exec errors w =
     (if td_IsEmpty get w then Some (errors, w)
      else td_loop get put exec (errors @ fst (td_run get put exec w)) (snd (td_run get put exec w)))"

definition td_Finish ::
    "('w \<Rightarrow> 'f list) \<Rightarrow> ('f list \<Rightarrow> 'w \<Rightarrow> 'w) \<Rightarrow> ('f \<Rightarrow> ('w, go_error option) op) \<Rightarrow> 'w \<Rightarrow>
     (go_error option \<times> 'w) option" where
  "td_Finish get put exec w =
     (case td_loop get put exec [] w of
        None \<Rightarrow> None | Some (errors, w') \<Rightarrow> Some (Merge (map Some errors), w'))"

section \<open>Manager\<close>

type_synonym tmctx = "(unit, nat) ctx"

record 'tx tx_in_context =
  tm_parent :: "nat option"
  tm_tx :: "'tx option"
  tm_done :: bool
  tm_cancel :: nat

record 'tx tm_world = ctx_world +
  tm_cells :: "'tx tx_in_context list"

record ('tx, 'z) manager =
  m_Begin :: "tmctx \<Rightarrow> 'z \<Rightarrow> (go_error + 'tx) \<times> 'z"
  m_Commit :: "tmctx \<Rightarrow> 'tx \<Rightarrow> 'z \<Rightarrow> go_error option \<times> 'z"
  m_Rollback :: "tmctx \<Rightarrow> 'tx \<Rightarrow> 'z \<Rightarrow> (go_error option \<times> 'z) option"
  m_ErrTxDone :: "go_error option"

definition ErrTxDone :: string where "ErrTxDone = ''transaction is already finished''"
definition txkit_ErrNoTx :: go_error where
  "txkit_ErrNoTx = ErrConst ''no transaction present in the current context''"

definition m_txDoneErr :: "('tx, 'z) manager \<Rightarrow> go_error" where
  "m_txDoneErr m = (case m_ErrTxDone m of Some e \<Rightarrow> e | None \<Rightarrow> ErrConst ErrTxDone)"

definition m_lookupTx :: "tmctx \<Rightarrow> nat option" where
  "m_lookupTx ctx = ctx_Value ctx ()"

text \<open>The manager's world and the native transactions' world side by side.\<close>

type_synonym ('tx, 'z) tmw = "'tx tm_world \<times> 'z"

definition tm_mark :: "nat \<Rightarrow> ('tx, 'z) tmw \<Rightarrow> ('tx, 'z) tmw" where
  "tm_mark a w =
     (let s = fst w in (s\<lparr>tm_cells := (tm_cells s)[a := (tm_cells s ! a)\<lparr>tm_done := True\<rparr>]\<rparr>, snd w))"

definition tm_do_cancel :: "nat \<Rightarrow> ('tx, 'z) tmw \<Rightarrow> ('tx, 'z) tmw" where
  "tm_do_cancel a w = (context_cancel (tm_cancel (tm_cells (fst w) ! a)) (fst w), snd w)"

definition m_BeginTx :: "('tx, 'z) manager \<Rightarrow> tmctx \<Rightarrow> (('tx, 'z) tmw, tmctx option \<times> go_error option) op" where
  "m_BeginTx m ctx w =
     (case ctx_Err (fst w) ctx of
        Some err \<Rightarrow> ((Some ctx, Some err), w)
      | None \<Rightarrow>
          (let parent = m_lookupTx ctx
           in case (case parent of
                      Some _ \<Rightarrow> (Inr None, snd w)
                    | None \<Rightarrow> (case m_Begin m ctx (snd w) of
                                (Inl err, z) \<Rightarrow> (Inl err, z) | (Inr tx, z) \<Rightarrow> (Inr (Some tx), z))) of
                (Inl err, z) \<Rightarrow> ((None, Some err), (fst w, z))
              | (Inr tx, z) \<Rightarrow>
                  (case context_WithCancel ctx (fst w) of
                     ((ctx', cancel), s) \<Rightarrow>
                       ((Some (WithValueCtx () (length (tm_cells s)) ctx'), None),
                        (s\<lparr>tm_cells := tm_cells s @
                            [\<lparr>tm_parent = parent, tm_tx = tx, tm_done = False, tm_cancel = cancel\<rparr>]\<rparr>, z)))))"

definition m_CommitTx ::
    "('tx, 'z) manager \<Rightarrow> tmctx \<Rightarrow> ('tx, 'z) tmw \<Rightarrow> (go_error option \<times> ('tx, 'z) tmw) option" where
  "m_CommitTx m ctx w =
     (case m_lookupTx ctx of
        None \<Rightarrow> Some (Some txkit_ErrNoTx, w)
      | Some a \<Rightarrow>
          if tm_done (tm_cells (fst w) ! a) then Some (Some (ErrWrapText ''CommitTx'' (m_txDoneErr m)), w)
          else
            (let w1 = tm_mark a w
             in case tm_tx (tm_cells (fst w1) ! a) of
                  None \<Rightarrow> Some (ctx_Err (fst w1) ctx, tm_do_cancel a w1)
                | Some tx \<Rightarrow>
                    (case ctx_Err (fst w1) ctx of
                       Some err \<Rightarrow>
                         (case m_Rollback m ctx tx (snd w1) of
                            None \<Rightarrow> None
                          | Some (rbErr, z) \<Rightarrow> Some (Merge [Some err, rbErr], tm_do_cancel a (fst w1, z)))
                     | None \<Rightarrow>
                         (case m_Commit m ctx tx (snd w1) of
                            (err, z) \<Rightarrow> Some (err, tm_do_cancel a (fst w1, z))))))"

text \<open>
  The loop of \<^verbatim>\<open>RollbackTx\<close> over the enclosing transactions, with the deferred cancels
  run after it, outermost first. The code never ends on a cell with neither a native transaction
  nor a parent; that is the value \<^term>\<open>None\<close>.
\<close>

partial_function (option) m_rollback_loop ::
    "('tx, 'z) manager \<Rightarrow> tmctx \<Rightarrow> nat \<Rightarrow> nat list \<Rightarrow> ('tx, 'z) tmw \<Rightarrow> (go_error option \<times> ('tx, 'z) tmw) option" where
  "m_rollback_loop m ctx a deferred w =
     (let w1 = tm_mark a w; cell = tm_cells (fst w1) ! a
      in case tm_tx cell of
           Some tx \<Rightarrow>
             (case m_Rollback m (contextkit_WithoutCancel ctx) tx (snd w1) of
                None \<Rightarrow> None
              | Some (rberr, z) \<Rightarrow>
                  Some (Merge [rberr, ctx_Err (fst w1) ctx],
                        fold tm_do_cancel (a # deferred) (fst w1, z)))
         | None \<Rightarrow> m_rollback_loop m ctx (case tm_parent cell of Some p \<Rightarrow> p | None \<Rightarrow> a) (a # deferred) w1)"

definition m_RollbackTx ::
    "('tx, 'z) manager \<Rightarrow> tmctx \<Rightarrow> ('tx, 'z) tmw \<Rightarrow> (go_error option \<times> ('tx, 'z) tmw) option" where
  "m_RollbackTx m ctx w =
     (case m_lookupTx ctx of
        None \<Rightarrow> Some (Some txkit_ErrNoTx, w)
      | Some a \<Rightarrow>
          if tm_done (tm_cells (fst w) ! a) then Some (Some (m_txDoneErr m), w)
          else m_rollback_loop m ctx a [] w)"

partial_function (option) m_root_loop :: "'tx tm_world \<Rightarrow> nat \<Rightarrow> (nat \<times> bool) option" where
  "m_root_loop s a =
     (if tm_tx (tm_cells s ! a) \<noteq> None then Some (a, True)
      else case tm_parent (tm_cells s ! a) of None \<Rightarrow> Some (a, False) | Some p \<Rightarrow> m_root_loop s p)"

definition m_lookupRootTx :: "tmctx \<Rightarrow> 'tx tm_world \<Rightarrow> (nat \<times> bool) option" where
  "m_lookupRootTx ctx s = (case m_lookupTx ctx of None \<Rightarrow> Some (0, False) | Some a \<Rightarrow> m_root_loop s a)"

definition m_LookupTx :: "tmctx \<Rightarrow> 'tx tm_world \<Rightarrow> 'tx option option" where
  "m_LookupTx ctx s =
     (case m_lookupRootTx ctx s of
        None \<Rightarrow> None
      | Some (a, ok) \<Rightarrow> Some (if ok then tm_tx (tm_cells s ! a) else None))"

text \<open>\<^verbatim>\<open>Q\<close>; a missing adapter panics.\<close>

definition m_Q ::
    "('tx \<Rightarrow> 'q) option \<Rightarrow> ('db \<Rightarrow> 'q) option \<Rightarrow> 'db \<Rightarrow> tmctx \<Rightarrow> 'tx tm_world \<Rightarrow> (go_error + 'q) option" where
  "m_Q TxAdapter DBAdapter db ctx s =
     (case TxAdapter of
        None \<Rightarrow> Some (Inl (ErrPanic ''missing TxAdapter''))
      | Some txq \<Rightarrow>
          (case m_LookupTx ctx s of
             None \<Rightarrow> None
           | Some (Some tx) \<Rightarrow> Some (Inr (txq tx))
           | Some None \<Rightarrow>
               (case DBAdapter of
                  None \<Rightarrow> Some (Inl (ErrPanic ''missing DBAdapter''))
                | Some dbq \<Rightarrow> Some (Inr (dbq db)))))"

section \<open>The context transactions of the package\<close>

record 'f context_transaction =
  ct_context :: tmctx
  ct_rollbacks :: "'f list"
  ct_done :: bool

text \<open>The native world: the context transactions' heap next to the user's state \<open>'u\<close>.\<close>

type_synonym ('f, 'u) ctw = "'f context_transaction list \<times> 'u"

definition ct_get :: "nat \<Rightarrow> ('f, 'u) ctw \<Rightarrow> 'f list" where
  "ct_get a z = ct_rollbacks (fst z ! a)"

definition ct_put :: "nat \<Rightarrow> 'f list \<Rightarrow> ('f, 'u) ctw \<Rightarrow> ('f, 'u) ctw" where
  "ct_put a fns z = ((fst z)[a := (fst z ! a)\<lparr>ct_rollbacks := fns\<rparr>], snd z)"

definition ct_mark :: "nat \<Rightarrow> ('f, 'u) ctw \<Rightarrow> ('f, 'u) ctw" where
  "ct_mark a z = ((fst z)[a := (fst z ! a)\<lparr>ct_done := True\<rparr>], snd z)"

definition ct_OnRollback :: "nat \<Rightarrow> 'f \<Rightarrow> (('f, 'u) ctw, go_error option) op" where
  "ct_OnRollback a fn z =
     (if ct_done (fst z ! a) then (Some (ErrConst ErrTxDone), z)
      else (None, td_Defer (ct_get a) (ct_put a) fn z))"

text \<open>The package's manager: \<open>exec\<close> runs a step with the context transaction's context.\<close>

definition ctx_manager :: "('f \<Rightarrow> tmctx \<Rightarrow> (('f, 'u) ctw, go_error option) op) \<Rightarrow> (nat, ('f, 'u) ctw) manager" where
  "ctx_manager exec =
     \<lparr>m_Begin = (\<lambda>ctx z. (Inr (length (fst z)),
         (fst z @ [\<lparr>ct_context = contextkit_WithoutCancel ctx, ct_rollbacks = [], ct_done = False\<rparr>], snd z))),
      m_Commit = (\<lambda>ctx tx z. (None, ct_mark tx z)),
      m_Rollback = (\<lambda>ctx tx z.
         td_Finish (ct_get tx) (ct_put tx) (\<lambda>f z. exec f (ct_context (fst z ! tx)) z) (ct_mark tx z)),
      m_ErrTxDone = Some (ErrConst ErrTxDone)\<rparr>"

definition tx_Begin ::
    "('f \<Rightarrow> tmctx \<Rightarrow> (('f, 'u) ctw, go_error option) op) \<Rightarrow> tmctx \<Rightarrow>
     ((nat, ('f, 'u) ctw) tmw, tmctx option \<times> go_error option) op" where
  "tx_Begin exec = m_BeginTx (ctx_manager exec)"

definition tx_Commit where "tx_Commit exec = m_CommitTx (ctx_manager exec)"
definition tx_Rollback where "tx_Rollback exec = m_RollbackTx (ctx_manager exec)"

definition tx_Finish where
  "tx_Finish exec returnError tx w =
     (case returnError of
        None \<Rightarrow> tx_Commit exec tx w
      | Some cause \<Rightarrow>
          (case tx_Rollback exec tx w of
             None \<Rightarrow> None
           | Some (rollbackErr, w') \<Rightarrow>
               Some (if rollbackErr = None \<or> err_Is rollbackErr ErrTxDone then Some cause
                     else Some (TxRollbackError (the rollbackErr) cause), w')))"

definition tx_OnRollback ::
    "tmctx \<Rightarrow> 'f \<Rightarrow> (nat, ('f, 'u) ctw) tmw \<Rightarrow> (go_error option \<times> (nat, ('f, 'u) ctw) tmw) option" where
  "tx_OnRollback ctx step w =
     (case m_LookupTx ctx (fst w) of
        None \<Rightarrow> None
      | Some None \<Rightarrow> Some (Some txkit_ErrNoTx, w)
      | Some (Some tx) \<Rightarrow>
          if ct_done (fst (snd w) ! tx) then Some (Some (ErrConst ErrTxDone), w)
          else (case ct_OnRollback tx step (snd w) of (err, z) \<Rightarrow> Some (err, (fst w, z))))"

section \<open>Teardown: order and termination\<close>

lemma td_run_fns_append:
  "td_run_fns exec (xs @ ys) w =
     (let (e1, w1) = td_run_fns exec xs w; (e2, w2) = td_run_fns exec ys w1 in (e1 @ e2, w2))"
  by (induction xs arbitrary: w) (simp_all add: Let_def split: prod.split option.split)

lemma td_run_fns_keeps:
  "(\<And>f w. get (snd (exec f w)) = get w) \<Longrightarrow> get (snd (td_run_fns exec fns w)) = get w"
  by (induction fns arbitrary: w) (simp_all split: prod.split, metis snd_conv)

text \<open>Functions that defer nothing are run once each, last in first out.\<close>

lemma td_Finish_once:
  assumes "\<And>f w. get (snd (exec f w)) = get w" "\<And>xs w. get (put xs w) = xs"
    and "td_run_fns exec (rev (get w)) (put [] w) = (errs, w')"
  shows "td_Finish get put exec w =
    (if get w = [] then Some (None, w) else Some (Merge (map Some errs), w'))"
proof (cases "get w = []")
  case True
  then show ?thesis by (simp add: td_Finish_def td_loop.simps td_IsEmpty_def)
next
  case False
  have "get w' = []"
    using td_run_fns_keeps [of get exec "rev (get w)" "put [] w"] assms by simp
  then have "td_loop get put exec errs w' = Some (errs, w')" by (simp add: td_loop.simps td_IsEmpty_def)
  with False assms(3) have "td_loop get put exec [] w = Some (errs, w')"
    by (subst td_loop.simps) (simp add: td_IsEmpty_def td_run_def)
  with False show ?thesis by (simp add: td_Finish_def)
qed

text \<open>Functions may defer others of a smaller rank.\<close>

definition defers_lower :: "('w \<Rightarrow> 'f list) \<Rightarrow> ('f \<Rightarrow> ('w, go_error option) op) \<Rightarrow> ('f \<Rightarrow> nat) \<Rightarrow> bool" where
  "defers_lower get exec rank \<longleftrightarrow>
     (\<forall>f w. \<exists>new. get (snd (exec f w)) = get w @ new \<and> (\<forall>g \<in> set new. rank g < rank f))"

lemma td_run_fns_lower:
  assumes "defers_lower get exec rank" "\<forall>f \<in> set fns. rank f < n"
  shows "\<exists>new. get (snd (td_run_fns exec fns w)) = get w @ new \<and> (\<forall>g \<in> set new. Suc (rank g) < n)"
  using assms(2)
proof (induction fns arbitrary: w)
  case Nil
  then show ?case by simp
next
  case (Cons f fns)
  obtain new1 where new1: "get (snd (exec f w)) = get w @ new1" "\<forall>g \<in> set new1. rank g < rank f"
    using assms(1) unfolding defers_lower_def by blast
  from Cons obtain new2 where new2: "get (snd (td_run_fns exec fns (snd (exec f w)))) = get (snd (exec f w)) @ new2"
    "\<forall>g \<in> set new2. Suc (rank g) < n" by fastforce
  have "\<forall>g \<in> set (new1 @ new2). Suc (rank g) < n" using new1(2) new2(2) Cons.prems by fastforce
  with new1(1) new2(1) show ?case
    by (cases "exec f w"; cases "td_run_fns exec fns (snd (exec f w))")
       (intro exI [of _ "new1 @ new2"], simp)
qed

lemma td_loop_terminates:
  assumes "defers_lower get exec rank" "\<forall>xs w. get (put xs w) = xs"
  shows "\<forall>f \<in> set (get w). rank f < n \<Longrightarrow> \<exists>r. td_loop get put exec errs w = Some r"
proof (induction n arbitrary: w errs)
  case 0
  then have "get w = []" by (cases "get w") auto
  then show ?case by (simp add: td_loop.simps td_IsEmpty_def)
next
  case (Suc n)
  have "\<forall>f \<in> set (rev (get w)). rank f < Suc n" using Suc.prems by simp
  from td_run_fns_lower [OF assms(1) this, of "put [] w"]
  have "\<forall>f \<in> set (get (snd (td_run get put exec w))). rank f < n"
    by (auto simp: td_run_def assms(2))
  from Suc.IH [OF this] show ?case by (subst td_loop.simps) simp
qed

section \<open>The enclosing transactions\<close>

definition tm_wf :: "'tx tm_world \<Rightarrow> bool" where
  "tm_wf s \<longleftrightarrow> list_all (\<lambda>a. case tm_parent (tm_cells s ! a) of
       Some p \<Rightarrow> p < a \<and> tm_tx (tm_cells s ! a) = None
     | None \<Rightarrow> tm_tx (tm_cells s ! a) \<noteq> None) [0..<length (tm_cells s)]"

fun tm_chain :: "'tx tm_world \<Rightarrow> nat \<Rightarrow> nat list" where
  "tm_chain s a =
     a # (case tm_parent (tm_cells s ! a) of None \<Rightarrow> [] | Some p \<Rightarrow> if p < a then tm_chain s p else [])"

declare tm_chain.simps [simp del]

lemma tm_wf_cell:
  "tm_wf s \<Longrightarrow> a < length (tm_cells s) \<Longrightarrow>
     (case tm_parent (tm_cells s ! a) of
        Some p \<Rightarrow> p < a \<and> tm_tx (tm_cells s ! a) = None | None \<Rightarrow> tm_tx (tm_cells s ! a) \<noteq> None)"
  by (simp add: tm_wf_def list_all_iff)

lemma tm_mark_simps [simp]:
  "length (tm_cells (fst (tm_mark a w))) = length (tm_cells (fst w))"
  "tm_parent (tm_cells (fst (tm_mark a w)) ! b) = tm_parent (tm_cells (fst w) ! b)"
  "tm_tx (tm_cells (fst (tm_mark a w)) ! b) = tm_tx (tm_cells (fst w) ! b)"
  "cancelled (fst (tm_mark a w)) = cancelled (fst w)" "snd (tm_mark a w) = snd w"
  by (simp_all add: tm_mark_def Let_def nth_list_update_if)

lemma tm_mark_done:
  "a < length (tm_cells (fst w)) \<Longrightarrow>
     tm_done (tm_cells (fst (tm_mark a w)) ! b) = (b = a \<or> tm_done (tm_cells (fst w) ! b))"
  by (simp add: tm_mark_def Let_def nth_list_update_if)

lemma tm_wf_mark [simp]: "tm_wf (fst (tm_mark a w)) = tm_wf (fst w)"
  unfolding tm_wf_def by (simp only: tm_mark_simps)

lemma tm_chain_mark [simp]: "tm_chain (fst (tm_mark a w)) b = tm_chain (fst w) b"
proof (induction b rule: less_induct)
  case (less b)
  then show ?case by (subst (1 2) tm_chain.simps) (simp split: option.split)
qed

lemma tm_mark_Err [simp]: "ctx_Err (fst (tm_mark a w)) c = ctx_Err (fst w) c"
  by (rule ctx_Err_cong) simp

lemma tm_do_cancel_simps [simp]:
  "tm_cells (fst (fold tm_do_cancel ds w)) = tm_cells (fst w)" "snd (fold tm_do_cancel ds w) = snd w"
  by (induction ds arbitrary: w) (simp_all add: tm_do_cancel_def context_cancel_def)

lemma tm_chain_bound: "b \<in> set (tm_chain s a) \<Longrightarrow> b \<le> a"
proof (induction a rule: less_induct)
  case (less a)
  then show ?case by (subst (asm) tm_chain.simps) (fastforce split: option.splits if_splits)
qed

text \<open>
  The rollback loop reaches the root of the chain, marks the whole chain done and calls the native
  rollback once, with the native state as it was.
\<close>

lemma m_rollback_loop_spec:
  assumes "tm_wf (fst w)" "a < length (tm_cells (fst w))"
  shows "\<exists>tx ds. tm_tx (tm_cells (fst w) ! last (tm_chain (fst w) a)) = Some tx \<and>
     m_rollback_loop m ctx a deferred w =
       map_option (\<lambda>(rberr, z). (Merge [rberr, ctx_Err (fst w) ctx],
           fold tm_do_cancel ds (fst (fold tm_mark (tm_chain (fst w) a) w), z)))
         (m_Rollback m (contextkit_WithoutCancel ctx) tx (snd w))"
  using assms
proof (induction a arbitrary: w deferred rule: less_induct)
  case (less a)
  note cell = tm_wf_cell [OF less.prems]
  show ?case
  proof (cases "tm_parent (tm_cells (fst w) ! a)")
    case None
    with cell obtain tx where "tm_tx (tm_cells (fst w) ! a) = Some tx" by auto
    then show ?thesis using None
      by (intro exI [of _ tx] exI [of _ "a # deferred"], subst m_rollback_loop.simps)
         (simp add: Let_def tm_chain.simps [of "fst w" a] split: option.split)
  next
    case (Some p)
    with cell have p: "p < a" "tm_tx (tm_cells (fst w) ! a) = None" by auto
    with less.prems have "tm_wf (fst (tm_mark a w))" "p < length (tm_cells (fst (tm_mark a w)))" by simp_all
    from less.IH [OF p(1) this, of "a # deferred"]
    have IH: "\<exists>tx ds. tm_tx (tm_cells (fst w) ! last (tm_chain (fst w) p)) = Some tx \<and>
      m_rollback_loop m ctx p (a # deferred) (tm_mark a w) =
        map_option (\<lambda>(rberr, z). (Merge [rberr, ctx_Err (fst w) ctx],
            fold tm_do_cancel ds (fst (fold tm_mark (tm_chain (fst w) p) (tm_mark a w)), z)))
          (m_Rollback m (contextkit_WithoutCancel ctx) tx (snd w))" by simp
    have ch: "tm_chain (fst w) a = a # tm_chain (fst w) p" "tm_chain (fst w) p \<noteq> []"
      using Some p(1) by (simp_all add: tm_chain.simps [of "fst w" a] tm_chain.simps [of "fst w" p])
    have st: "m_rollback_loop m ctx a deferred w = m_rollback_loop m ctx p (a # deferred) (tm_mark a w)"
      using Some p(2) by (subst m_rollback_loop.simps) (simp add: Let_def)
    show ?thesis using IH ch unfolding st by simp
  qed
qed

lemma fold_tm_mark_done:
  "\<forall>a \<in> set as. a < length (tm_cells (fst w)) \<Longrightarrow>
     tm_done (tm_cells (fst (fold tm_mark as w)) ! b) = (b \<in> set as \<or> tm_done (tm_cells (fst w) ! b))"
  by (induction as arbitrary: w) (auto simp: tm_mark_done)

section \<open>Properties\<close>

declare td_loop.simps [code] m_rollback_loop.simps [code] m_root_loop.simps [code]

text \<open>Example steps: a step \<open>n\<close> appends \<open>n\<close> to the user's trace; step 3 fails.\<close>

definition ex_exec :: "nat \<Rightarrow> tmctx \<Rightarrow> ((nat, nat list) ctw, go_error option) op" where
  "ex_exec n ctx z = ((if n = 3 then Some (ErrText ''step'') else None), (fst z, snd z @ [n]))"

definition ex_ctx1 :: tmctx where "ex_ctx1 = WithValueCtx () 0 (WithCancelCtx 0 Background)"
definition ex_ctx2 :: tmctx where "ex_ctx2 = WithValueCtx () 1 (WithCancelCtx 1 ex_ctx1)"

text \<open>An outer transaction with the rollback steps 3, 4 and a nested one inside it.\<close>

definition ex_nested :: "(nat, (nat, nat list) ctw) tmw" where
  "ex_nested =
    (\<lparr>cancelled = [], next_cancel = 2, tm_cells =
       [\<lparr>tm_parent = None, tm_tx = Some 0, tm_done = False, tm_cancel = 0\<rparr>,
        \<lparr>tm_parent = Some 0, tm_tx = None, tm_done = False, tm_cancel = 1\<rparr>]\<rparr>,
     ([\<lparr>ct_context = DetachedCtx Background, ct_rollbacks = [3, 4], ct_done = False\<rparr>], []))"

definition ex_outer :: "(nat, (nat, nat list) ctw) tmw" where
  "ex_outer = snd (tx_Begin ex_exec Background (\<lparr>cancelled = [], next_cancel = 0, tm_cells = []\<rparr>, ([], [])))"

definition ex_outer_steps :: "(nat, (nat, nat list) ctw) tmw" where
  "ex_outer_steps = snd (the (tx_OnRollback ex_ctx1 4 (snd (the (tx_OnRollback ex_ctx1 3 ex_outer)))))"

lemma ex_nested_reached: "tx_Begin ex_exec ex_ctx1 ex_outer_steps = ((Some ex_ctx2, None), ex_nested)"
  by code_simp

text \<open>Rolling back a nested transaction rolls back the whole nest. For an open transaction RollbackTx
  reaches the outermost one, calls the native rollback exactly once, on its native transaction and with a
  context that cannot be cancelled, marks every transaction on the way done and no other, and returns the
  rollback's error merged with the context's; it returns whenever the native rollback does.\<close>

theorem m_RollbackTx_nest:
  assumes "tm_wf (fst w)" "m_lookupTx ctx = Some a" "a < length (tm_cells (fst w))"
    and "\<not> tm_done (tm_cells (fst w) ! a)"
  shows "\<exists>tx. tm_tx (tm_cells (fst w) ! last (tm_chain (fst w) a)) = Some tx \<and>
    (case m_Rollback m (contextkit_WithoutCancel ctx) tx (snd w) of
       None \<Rightarrow> m_RollbackTx m ctx w = None
     | Some (rberr, z) \<Rightarrow>
         (\<exists>s'. m_RollbackTx m ctx w = Some (Merge [rberr, ctx_Err (fst w) ctx], (s', z)) \<and>
            list_all (\<lambda>b. tm_done (tm_cells s' ! b) \<longleftrightarrow>
              b \<in> set (tm_chain (fst w) a) \<or> tm_done (tm_cells (fst w) ! b)) [0..<length (tm_cells s')]))"
proof -
  obtain tx ds where L: "tm_tx (tm_cells (fst w) ! last (tm_chain (fst w) a)) = Some tx"
    "m_rollback_loop m ctx a [] w =
       map_option (\<lambda>(rberr, z). (Merge [rberr, ctx_Err (fst w) ctx],
           fold tm_do_cancel ds (fst (fold tm_mark (tm_chain (fst w) a) w), z)))
         (m_Rollback m (contextkit_WithoutCancel ctx) tx (snd w))"
    using m_rollback_loop_spec [OF assms(1,3), of m ctx "[]"] by blast
  have "\<forall>b \<in> set (tm_chain (fst w) a). b < length (tm_cells (fst w))"
    using tm_chain_bound assms(3) by fastforce
  note dn = fold_tm_mark_done [OF this]
  have R: "m_RollbackTx m ctx w = m_rollback_loop m ctx a [] w"
    using assms(2,4) by (simp add: m_RollbackTx_def)
  show ?thesis
  proof (cases "m_Rollback m (contextkit_WithoutCancel ctx) tx (snd w)")
    case None
    with L R show ?thesis by simp
  next
    case (Some q)
    obtain rberr z where q: "q = (rberr, z)" by (cases q)
    let ?w = "fold tm_do_cancel ds (fst (fold tm_mark (tm_chain (fst w) a) w), z)"
    have "m_RollbackTx m ctx w = Some (Merge [rberr, ctx_Err (fst w) ctx], (fst ?w, z))"
      using L(2) R Some q by (simp add: prod_eq_iff)
    with L(1) Some q dn show ?thesis by (intro exI [of _ tx]) (simp add: list_all_iff)
  qed
qed

lemma ex_nested_wf: "tm_wf (fst ex_nested)"
  by (simp add: ex_nested_def tm_wf_def)

text \<open>A teardown runs every deferred function once, last in first out. For functions that defer no
  others Finish returns, having run exactly the deferred functions in reverse order of their deferral, and
  fails exactly when one of them did, with all their errors merged.\<close>

theorem td_Finish_LIFO:
  assumes "\<forall>f w. get (snd (exec f w)) = get w" "\<forall>xs w. get (put xs w) = xs"
    and "td_run_fns exec (rev (get w)) (put [] w) = (errs, w')"
  shows "td_Finish get put exec w = (if get w = [] then Some (None, w) else Some (Merge (map Some errs), w')) \<and>
         (Merge (map Some errs) = None \<longleftrightarrow> errs = []) \<and>
         (\<forall>t. err_Is (Merge (map Some errs)) t \<longleftrightarrow> list_ex (\<lambda>e. errors_Is e t) errs)"
  using td_Finish_once [of get exec put w errs w'] assms
  by (auto simp: err_Is_Merge_clean Merge_None_iff)

text \<open>A teardown terminates also when its functions defer others, as long as the chain of deferrals is
  finite: if every function only pushes functions of a smaller rank, Finish returns.\<close>

theorem td_Finish_terminates:
  fixes rank :: "'f \<Rightarrow> nat"
  assumes "\<forall>f w. \<exists>new. get (snd (exec f w)) = get w @ new \<and> (\<forall>g \<in> set new. rank g < rank f)"
    and "\<forall>xs w. get (put xs w) = xs"
  shows "\<exists>r w'. td_Finish get put exec w = Some (r, w') \<and> td_IsEmpty get w'"
proof -
  have B: "\<forall>f \<in> set (get w). rank f < Suc (sum_list (map rank (get w)))"
    by (simp add: le_imp_less_Suc member_le_sum_list)
  have D: "defers_lower get exec rank" using assms(1) by (simp add: defers_lower_def)
  obtain q where q: "td_loop get put exec [] w = Some q"
    using td_loop_terminates [OF D assms(2) B] by blast
  have "td_IsEmpty get (snd q)"
  proof (rule td_loop.raw_induct [OF _ q, where P = "\<lambda>get put exec errs w r. td_IsEmpty get (snd r)"])
    fix loop get put exec errs w r
    assume "\<And>get put exec errs w r. loop get put exec errs w = Some r \<Longrightarrow> td_IsEmpty get (snd r)"
      and "(if td_IsEmpty get w then Some (errs, w)
            else loop get put exec (errs @ fst (td_run get put exec w)) (snd (td_run get put exec w))) = Some r"
    then show "td_IsEmpty get (snd r)" by (auto split: if_splits)
  qed
  with q show ?thesis by (cases q) (simp add: td_Finish_def)
qed

text \<open>Only the outermost commit reaches the native transaction. Committing an open nested transaction marks
  it done and leaves the native state alone; committing an open root calls the native commit once when the
  context is live, and rolls the native transaction back, failing, when the context is cancelled.\<close>

theorem m_CommitTx_root_only:
  assumes "tm_wf (fst w)" "m_lookupTx ctx = Some a" "a < length (tm_cells (fst w))"
    and "\<not> tm_done (tm_cells (fst w) ! a)"
  shows "case tm_tx (tm_cells (fst w) ! a) of
      None \<Rightarrow> (\<exists>s'. m_CommitTx m ctx w = Some (ctx_Err (fst w) ctx, (s', snd w)) \<and> tm_done (tm_cells s' ! a))
    | Some tx \<Rightarrow>
        (case ctx_Err (fst w) ctx of
           None \<Rightarrow> (\<exists>s'. m_CommitTx m ctx w = Some (fst (m_Commit m ctx tx (snd w)), (s', snd (m_Commit m ctx tx (snd w)))) \<and>
                      tm_done (tm_cells s' ! a))
         | Some err \<Rightarrow>
             (case m_Rollback m ctx tx (snd w) of
                None \<Rightarrow> m_CommitTx m ctx w = None
              | Some (rbErr, z) \<Rightarrow>
                  (\<exists>s'. m_CommitTx m ctx w = Some (Merge [Some err, rbErr], (s', z)) \<and> tm_done (tm_cells s' ! a))))"
proof -
  have dn: "tm_done (tm_cells (fst (tm_mark a w)) ! a)" using assms(3) by (simp add: tm_mark_done)
  show ?thesis
    using assms(2,4) dn
    by (auto simp: m_CommitTx_def Let_def tm_do_cancel_def context_cancel_def split: option.split prod.split)
qed

text \<open>A rollback can undo a committed transaction. When a nested transaction is still open after its
  enclosing context transaction was committed, rolling the nested one back runs the rollback steps of the
  committed one, and returns their errors, although nothing may follow a commit.\<close>

theorem tx_Rollback_after_commit:
  assumes "m_lookupTx ctx = Some a" "\<not> tm_done (tm_cells (fst w) ! a)" "a < length (tm_cells (fst w))"
    and "tm_tx (tm_cells (fst w) ! a) = None" "tm_parent (tm_cells (fst w) ! a) = Some p" "p < a"
    and "tm_tx (tm_cells (fst w) ! p) = Some t" "tm_done (tm_cells (fst w) ! p)"
    and "ct_done (fst (snd w) ! t)" "t < length (fst (snd w))" "ct_rollbacks (fst (snd w) ! t) \<noteq> []"
    and "\<forall>f c z. fst (snd (exec f c z)) = fst z"
    and "td_run_fns (\<lambda>f z. exec f (ct_context (fst z ! t)) z) (rev (ct_rollbacks (fst (snd w) ! t)))
           (ct_put t [] (ct_mark t (snd w))) = (errs, z')"
  shows "\<exists>s'. tx_Rollback exec ctx w = Some (Merge [Merge (map Some errs), ctx_Err (fst w) ctx], (s', z'))"
proof -
  let ?ex = "\<lambda>f z. exec f (ct_context (fst z ! t)) z" and ?z = "ct_mark t (snd w)"
  have g: "ct_get t ?z = ct_rollbacks (fst (snd w) ! t)" using assms(10) by (simp add: ct_get_def ct_mark_def)
  have len: "length (fst ?z) = length (fst (snd w))" by (simp add: ct_mark_def)
  have keeps: "length (fst (snd (td_run_fns ?ex fns z))) = length (fst z) \<and>
       ct_get t (snd (td_run_fns ?ex fns z)) = ct_get t z" for fns and z
  proof (induction fns arbitrary: z)
    case (Cons f fns)
    have "fst (snd (?ex f z)) = fst z" using assms(12) by blast
    then show ?case using Cons.IH [of "snd (?ex f z)"]
      by (cases "?ex f z"; cases "td_run_fns ?ex fns (snd (?ex f z))") (simp add: ct_get_def)
  qed simp
  have "ct_get t (ct_put t [] ?z) = []" using assms(10) len by (simp add: ct_get_def ct_put_def)
  then have e: "ct_get t z' = []" using keeps [of "rev (ct_rollbacks (fst (snd w) ! t))" "ct_put t [] ?z"] assms(13) by simp
  have "td_loop (ct_get t) (ct_put t) ?ex errs z' = Some (errs, z')" using e by (simp add: td_loop.simps td_IsEmpty_def)
  then have "td_loop (ct_get t) (ct_put t) ?ex [] ?z = Some (errs, z')"
    using assms(11,13) by (subst td_loop.simps) (simp add: td_IsEmpty_def g td_run_def)
  then have fin: "td_Finish (ct_get t) (ct_put t) ?ex ?z = Some (Merge (map Some errs), z')"
    by (simp add: td_Finish_def)
  have "m_rollback_loop (ctx_manager exec) ctx a [] w = m_rollback_loop (ctx_manager exec) ctx p [a] (tm_mark a w)"
    using assms(4,5) by (subst m_rollback_loop.simps) (simp add: Let_def)
  moreover have "\<exists>s'. m_rollback_loop (ctx_manager exec) ctx p [a] (tm_mark a w) =
      Some (Merge [Merge (map Some errs), ctx_Err (fst w) ctx], (s', z'))"
    using assms(7) fin
    by (subst m_rollback_loop.simps) (simp add: Let_def ctx_manager_def prod_eq_iff tm_do_cancel_def)
  ultimately show ?thesis using assms(1,2) by (simp add: tx_Rollback_def m_RollbackTx_def)
qed

definition ex_committed :: "(nat, (nat, nat list) ctw) tmw" where
  "ex_committed = snd (the (tx_Commit ex_exec ex_ctx1 ex_nested))"

lemma ex_committed_value: "ex_committed =
    (\<lparr>cancelled = [0], next_cancel = 2, tm_cells =
       [\<lparr>tm_parent = None, tm_tx = Some 0, tm_done = True, tm_cancel = 0\<rparr>,
        \<lparr>tm_parent = Some 0, tm_tx = None, tm_done = False, tm_cancel = 1\<rparr>]\<rparr>,
     ([\<lparr>ct_context = DetachedCtx Background, ct_rollbacks = [3, 4], ct_done = True\<rparr>], []))"
  by code_simp

end
