(* ===== verification/Mathkit.thy ===== *)
theory Mathkit imports Main "HOL-Library.Word" "HOL-Library.Signed_Division" begin

text \<open>
  \<^verbatim>\<open>pkg/mathkit/mathkit.go\<close>. A signed integer type \<^verbatim>\<open>INT\<close> is \<^typ>\<open>'a::len word\<close>, read
  with \<^term>\<open>sint\<close>; its arithmetic wraps. \<^verbatim>\<open>AInt\<close> is \<^typ>\<open>64 word\<close>. A
  \<^verbatim>\<open>*big.Int\<close> is an \<^typ>\<open>int\<close>; the standard library's \<^verbatim>\<open>Div\<close> is Euclidean.
\<close>

section \<open>Bounds and overflow checks\<close>

definition MaxInt :: "'a::len word" where
  "MaxInt = push_bit (LENGTH('a) - 1) 1 - 1"

definition MinInt :: "'a::len word" where
  "MinInt = push_bit (LENGTH('a) - 1) (- 1)"

definition CanIntSumOverflow :: "'a::len word \<Rightarrow> 'a word \<Rightarrow> bool" where
  "CanIntSumOverflow a b =
     (let (less, more) = (if sint b < sint a then (b, a) else (a, b))
      in if 0 < sint less \<and> 0 < sint more then sint (MaxInt - more) < sint less
         else if sint less < 0 \<and> sint more < 0 then sint more < sint (MinInt - less)
         else False)"

definition SumInt :: "'a::len word \<Rightarrow> 'a word \<Rightarrow> 'a word \<times> bool" where
  "SumInt a b = (if CanIntSumOverflow a b then (0, False) else (a + b, True))"

definition isMulResPositive :: "'a::len word \<Rightarrow> 'a word \<Rightarrow> bool" where
  "isMulResPositive x y =
     (if sint x < 0 \<and> 0 < sint y then False
      else if 0 < sint x \<and> sint y < 0 then False
      else True)"

type_synonym AInt = "64 word"

definition AbsInt :: "'a::len word \<Rightarrow> AInt" where
  "AbsInt n =
     (if n = MinInt then scast (n - 1) + 1
      else (let n' = (if sint n < 0 then - n else n) in scast n'))"

definition CanIntMulOverflow :: "'a::len word \<Rightarrow> 'a word \<Rightarrow> bool" where
  "CanIntMulOverflow x y =
     (if x = 0 \<or> y = 0 then False
      else (let max = (if isMulResPositive x y then AbsInt (MaxInt :: 'a word) else AbsInt (MinInt :: 'a word));
                maxMul = max div AbsInt x
            in maxMul < AbsInt y))"

section \<open>BigInt\<close>

record 'w BigInt =
  bi_i :: "int option"
  bi_n :: 'w

definition BigInt_Of :: "'a::len word \<Rightarrow> 'a word BigInt" where
  "BigInt_Of n = \<lparr>bi_i = None, bi_n = n\<rparr>"

definition BigInt_big :: "int \<Rightarrow> 'a::len word BigInt" where
  "BigInt_big z = \<lparr>bi_i = Some z, bi_n = 0\<rparr>"

definition switchToBigIntMode :: "'a::len word BigInt \<Rightarrow> 'a word BigInt" where
  "switchToBigIntMode i = (if bi_i i \<noteq> None then i else BigInt_big (sint (bi_n i)))"

definition BigInt_Compare :: "'a::len word BigInt \<Rightarrow> 'a word BigInt \<Rightarrow> int" where
  "BigInt_Compare i x =
     (if bi_i i = None \<and> bi_i x = None then
        (if sint (bi_n i) < sint (bi_n x) then - 1 else if sint (bi_n x) < sint (bi_n i) then 1 else 0)
      else (let a = the (bi_i (switchToBigIntMode i)); b = the (bi_i (switchToBigIntMode x))
            in if a < b then - 1 else if b < a then 1 else 0))"

definition tryToSwitchToIntMode :: "'a::len word BigInt \<Rightarrow> 'a word BigInt" where
  "tryToSwitchToIntMode i =
     (case bi_i i of
        None \<Rightarrow> i
      | Some z \<Rightarrow>
          (let zero = BigInt_Of 0; c = BigInt_Compare i zero; toIntMode = BigInt_Of (of_int z)
           in if c = 0 then zero
              else if c < 0 \<and> 0 \<le> BigInt_Compare i (BigInt_Of MinInt) then toIntMode
              else if 0 < c \<and> BigInt_Compare i (BigInt_Of MaxInt) \<le> 0 then toIntMode
              else i))"

definition BigInt_FromBigInt :: "int \<Rightarrow> 'a::len word BigInt" where
  "BigInt_FromBigInt z = tryToSwitchToIntMode (BigInt_big z)"

definition BigInt_ToInt :: "'a::len word BigInt \<Rightarrow> 'a word \<times> bool" where
  "BigInt_ToInt i = (let j = tryToSwitchToIntMode i in (bi_n j, bi_i j = None))"

definition BigInt_ToBigInt :: "'a::len word BigInt \<Rightarrow> int" where
  "BigInt_ToBigInt i = the (bi_i (switchToBigIntMode i))"

definition BigInt_on :: "'a::len word BigInt \<Rightarrow> 'a word BigInt \<Rightarrow> (int \<Rightarrow> int \<Rightarrow> int) \<Rightarrow> 'a word BigInt" where
  "BigInt_on x y f =
     tryToSwitchToIntMode (BigInt_big
       (f (the (bi_i (switchToBigIntMode x))) (the (bi_i (switchToBigIntMode y)))))"

definition BigInt_Abs :: "'a::len word BigInt \<Rightarrow> 'a word BigInt" where
  "BigInt_Abs i =
     (if bi_i i = None \<and> 0 \<le> sint (bi_n i) then i
      else if bi_i i = None \<and> sint (MinInt :: 'a word) < sint (bi_n i) then BigInt_Of (- bi_n i)
      else tryToSwitchToIntMode (BigInt_big \<bar>the (bi_i (switchToBigIntMode i))\<bar>))"

definition BigInt_Add :: "'a::len word BigInt \<Rightarrow> 'a word BigInt \<Rightarrow> 'a word BigInt" where
  "BigInt_Add i n =
     (if bi_i i = None \<and> bi_i n = None \<and> \<not> CanIntSumOverflow (bi_n i) (bi_n n) then BigInt_Of (bi_n i + bi_n n)
      else BigInt_on i n (\<lambda>x y. x + y))"

definition BigInt_Sub :: "'a::len word BigInt \<Rightarrow> 'a word BigInt \<Rightarrow> 'a word BigInt" where
  "BigInt_Sub i n =
     (if bi_i i = None \<and> bi_i n = None \<and> \<not> CanIntSumOverflow (bi_n i) (- bi_n n) then BigInt_Of (bi_n i - bi_n n)
      else BigInt_on i n (\<lambda>x y. x - y))"

definition BigInt_Mul :: "'a::len word BigInt \<Rightarrow> 'a word BigInt \<Rightarrow> 'a word BigInt" where
  "BigInt_Mul i n =
     (if bi_i i = None \<and> bi_i n = None \<and> \<not> CanIntMulOverflow (bi_n i) (bi_n n) then BigInt_Of (bi_n i * bi_n n)
      else BigInt_on i n (\<lambda>x y. x * y))"

text \<open>\<^verbatim>\<open>big.Int.Div\<close>: Euclidean division, with a remainder that is never negative.\<close>

definition big_Div :: "int \<Rightarrow> int \<Rightarrow> int" where
  "big_Div x y = (if y < 0 then - (x div (- y)) else x div y)"

text \<open>\<^verbatim>\<open>Div\<close>; \<^term>\<open>None\<close> is the panic on a zero divisor.\<close>

definition BigInt_Div :: "'a::len word BigInt \<Rightarrow> 'a word BigInt \<Rightarrow> 'a word BigInt option" where
  "BigInt_Div i n =
     (if bi_i i = None \<and> bi_i n = None then
        (if bi_n n = 0 then None else Some (BigInt_Of (of_int (sint (bi_n i) sdiv sint (bi_n n)))))
      else if the (bi_i (switchToBigIntMode n)) = 0 then None
      else Some (BigInt_on i n big_Div))"

definition BigInt_IsZero :: "'a::len word BigInt \<Rightarrow> bool" where
  "BigInt_IsZero i = (BigInt_Compare i (BigInt_Of 0) = 0)"

text \<open>\<^verbatim>\<open>Iter\<close>: all the values a full iteration yields.\<close>

partial_function (option) BigInt_iter_loop :: "bool \<Rightarrow> 'a::len word BigInt \<Rightarrow> 'a word list \<Rightarrow> 'a word list option" where
  "BigInt_iter_loop isNegative cursor acc =
     (let upper = switchToBigIntMode (BigInt_Of (MaxInt :: 'a word));
          format = (\<lambda>n. if isNegative then - n else n)
      in if BigInt_Compare cursor upper \<le> 0 then Some (acc @ [format (bi_n (tryToSwitchToIntMode cursor))])
         else BigInt_iter_loop isNegative (BigInt_Sub cursor upper) (acc @ [format MaxInt]))"

definition BigInt_Iter :: "'a::len word BigInt \<Rightarrow> 'a word list option" where
  "BigInt_Iter i =
     (let c = BigInt_Compare i (BigInt_Of 0)
      in if c = 0 then Some []
         else if bi_i i = None then Some [bi_n i]
         else BigInt_iter_loop (c < 0) (BigInt_Abs i) [])"

section \<open>Reading the bounds\<close>

definition half :: "'a::len itself \<Rightarrow> int" where
  "half t = 2 ^ (LENGTH('a) - 1)"

lemma half_pos: "1 \<le> half t"
  by (simp add: half_def)

lemma sint_bounds: "- half TYPE('a) \<le> sint (w :: 'a::len word)" "sint (w :: 'a::len word) < half TYPE('a)"
  unfolding half_def by (rule sint_ge, rule sint_lt)

lemma signed_fits: "- half TYPE('a::len) \<le> x \<Longrightarrow> x < half TYPE('a) \<Longrightarrow> signed_take_bit (LENGTH('a) - 1) x = x"
  unfolding half_def by (rule signed_take_bit_int_eq_self)

lemma sint_fits: "- half TYPE('a) \<le> x \<Longrightarrow> x < half TYPE('a) \<Longrightarrow> sint (word_of_int x :: 'a::len word) = x"
  by (simp only: sint_sbintrunc' signed_fits)

lemma MinInt_of_int: "(MinInt :: 'a::len word) = word_of_int (- half TYPE('a))"
  by (simp add: MinInt_def push_bit_eq_mult half_def)

lemma MaxInt_of_int: "(MaxInt :: 'a::len word) = word_of_int (half TYPE('a) - 1)"
  by (simp add: MaxInt_def push_bit_eq_mult half_def)

lemma sint_MinInt [simp]: "sint (MinInt :: 'a::len word) = - half TYPE('a)"
  unfolding MinInt_of_int by (rule sint_fits) (use half_pos [of "TYPE('a)"] in linarith)+

lemma sint_MaxInt [simp]: "sint (MaxInt :: 'a::len word) = half TYPE('a) - 1"
  unfolding MaxInt_of_int by (rule sint_fits) (use half_pos [of "TYPE('a)"] in linarith)+

lemma sint_add_fits:
  "- half TYPE('a) \<le> sint a + sint b \<Longrightarrow> sint a + sint b < half TYPE('a) \<Longrightarrow> sint (a + b :: 'a::len word) = sint a + sint b"
  by (simp only: sint_word_add signed_fits)

lemma sint_sub_fits:
  "- half TYPE('a) \<le> sint a - sint b \<Longrightarrow> sint a - sint b < half TYPE('a) \<Longrightarrow> sint (a - b :: 'a::len word) = sint a - sint b"
  by (simp only: sint_word_diff signed_fits)

lemma sint_mul_fits:
  "- half TYPE('a) \<le> sint a * sint b \<Longrightarrow> sint a * sint b < half TYPE('a) \<Longrightarrow> sint (a * b :: 'a::len word) = sint a * sint b"
  by (simp only: sint_word_mult signed_fits)

lemma sint_neg_fits: "sint a \<noteq> - half TYPE('a) \<Longrightarrow> sint (- a :: 'a::len word) = - sint a"
  unfolding sint_word_minus by (rule signed_fits) (use sint_bounds [of a] in linarith)+

lemma neg_MinInt: "- (MinInt :: 'a::len word) = MinInt"
proof -
  have "half TYPE('a) = - half TYPE('a) + 2 ^ LENGTH('a)"
    by (cases "LENGTH('a)") (simp_all add: half_def)
  then have "(of_int (half TYPE('a)) :: 'a word) = of_int (- half TYPE('a)) + of_int (2 ^ LENGTH('a))"
    by (metis of_int_add)
  moreover have "(of_int (2 ^ LENGTH('a)) :: 'a word) = 0" by simp
  ultimately show ?thesis by (simp add: MinInt_of_int)
qed

lemma eq_MinInt_iff: "(w :: 'a::len word) = MinInt \<longleftrightarrow> sint w = - half TYPE('a)"
  by (metis sint_MinInt signed_word_eqI)

lemma CanIntSumOverflow_iff:
  "CanIntSumOverflow a b \<longleftrightarrow> \<not> (- half TYPE('a) \<le> sint a + sint b \<and> sint a + sint b < half TYPE('a))"
  for a b :: "'a::len word"
proof -
  have h: "half TYPE('a) \<ge> 1" by (rule half_pos)
  define l m where "l = (if sint b < sint a then b else a)" and "m = (if sint b < sint a then a else b)"
  have lm: "sint l \<le> sint m" "sint l + sint m = sint a + sint b" by (auto simp: l_def m_def)
  note B = sint_bounds [of l] sint_bounds [of m]
  have mx: "sint (MaxInt - m) = half TYPE('a) - 1 - sint m" if "0 < sint m"
    using that B h by (subst sint_sub_fits) auto
  have mn: "sint (MinInt - l) = - half TYPE('a) - sint l" if "sint l < 0"
    using that B h by (subst sint_sub_fits) auto
  have "CanIntSumOverflow a b \<longleftrightarrow>
      (if 0 < sint l \<and> 0 < sint m then sint (MaxInt - m) < sint l
       else if sint l < 0 \<and> sint m < 0 then sint m < sint (MinInt - l) else False)"
    by (simp add: CanIntSumOverflow_def l_def m_def)
  then show ?thesis using lm B h by (auto simp: mx mn)
qed

section \<open>Products\<close>

lemma half_le_64: "LENGTH('a::len) \<le> 64 \<Longrightarrow> half TYPE('a) \<le> 2 ^ 63"
  unfolding half_def by (rule power_increasing) auto

lemma uint_scast_64:
  "0 \<le> sint w \<Longrightarrow> LENGTH('a) \<le> 64 \<Longrightarrow> uint (scast (w :: 'a::len word) :: 64 word) = sint w"
proof -
  assume nn: "0 \<le> sint w" and len: "LENGTH('a) \<le> 64"
  have "sint w < 2 ^ 63" using sint_bounds(2) [of w] half_le_64 [OF len] by linarith
  then have lt: "sint w < 2 ^ 64" by simp
  have "uint (scast w :: 64 word) = sint w mod 2 ^ LENGTH(64)" unfolding scast_eq by (rule uint_word_of_int)
  also have "\<dots> = sint w" by (rule mod_pos_pos_trivial [OF nn]) (use lt in simp)
  finally show ?thesis .
qed

lemma int_div_less_iff: "0 < (a :: int) \<Longrightarrow> M div a < b \<longleftrightarrow> M < b * a"
proof
  assume a: "0 < a" and "M div a < b"
  then have "(M div a + 1) * a \<le> b * a" by (simp add: mult_right_mono)
  moreover have "M < (M div a + 1) * a"
    using pos_mod_bound [OF a, of M] div_mult_mod_eq [of M a] by (simp only: distrib_right mult_1)
  ultimately show "M < b * a" by linarith
next
  assume a: "0 < a" and "M < b * a"
  moreover have "M div a * a \<le> M" using a pos_mod_sign [OF a, of M] div_mult_mod_eq [of M a] by linarith
  ultimately have "M div a * a < b * a" by linarith
  with a show "M div a < b" by simp
qed

lemma uint_AbsInt:
  assumes "LENGTH('a) \<le> 64"
  shows "uint (AbsInt (n :: 'a::len word)) = \<bar>sint n\<bar>"
proof (cases "n = MinInt")
  case True
  have "n - 1 = MaxInt" unfolding True MinInt_of_int MaxInt_of_int
    using neg_MinInt [where 'a = 'a] by (simp add: MinInt_of_int)
  then have "uint (scast (n - 1) :: 64 word) = half TYPE('a) - 1"
    using uint_scast_64 [of "n - 1"] assms half_pos [of "TYPE('a)"] by simp
  moreover have "half TYPE('a) \<le> 2 ^ 63" using assms by (rule half_le_64)
  ultimately have "uint (scast (n - 1) + 1 :: 64 word) = half TYPE('a)"
    using half_pos [of "TYPE('a)"] by (simp add: uint_word_ariths)
  then show ?thesis using True half_pos [of "TYPE('a)"] by (simp add: AbsInt_def)
next
  case False
  then have "sint (- n) = - sint n" by (intro sint_neg_fits) (simp add: eq_MinInt_iff)
  with False assms uint_scast_64 [of n] uint_scast_64 [of "- n"] show ?thesis by (simp add: AbsInt_def Let_def)
qed

lemma CanIntMulOverflow_iff:
  fixes x y :: "'a::len word"
  assumes "LENGTH('a) \<le> 64"
  shows "CanIntMulOverflow x y \<longleftrightarrow>
    \<not> (- half TYPE('a) \<le> sint x * sint y \<and> sint x * sint y < half TYPE('a))"
proof (cases "x = 0 \<or> y = 0")
  case True
  then show ?thesis using half_pos [of "TYPE('a)"] by (auto simp: CanIntMulOverflow_def)
next
  case False
  then have nz: "sint x \<noteq> 0" "sint y \<noteq> 0" by (metis signed_word_eqI sint_0)+
  define M where "M = (if isMulResPositive x y then half TYPE('a) - 1 else half TYPE('a))"
  have M: "uint (if isMulResPositive x y then AbsInt (MaxInt :: 'a word) else AbsInt (MinInt :: 'a word)) = M"
    using half_pos [of "TYPE('a)"] by (simp add: M_def uint_AbsInt assms)
  have "CanIntMulOverflow x y \<longleftrightarrow> M div \<bar>sint x\<bar> < \<bar>sint y\<bar>"
    using False M by (simp add: CanIntMulOverflow_def Let_def word_less_def uint_div uint_AbsInt assms)
  also have "\<dots> \<longleftrightarrow> M < \<bar>sint y\<bar> * \<bar>sint x\<bar>"
    using nz by (simp add: int_div_less_iff)
  also have "\<dots> \<longleftrightarrow> M < \<bar>sint x * sint y\<bar>" by (simp add: abs_mult mult.commute)
  finally have *: "CanIntMulOverflow x y \<longleftrightarrow> M < \<bar>sint x * sint y\<bar>" .
  show ?thesis
  proof (cases "isMulResPositive x y")
    case True
    then have "0 < sint x * sint y" using nz by (auto simp: isMulResPositive_def zero_less_mult_iff split: if_splits)
    with * True half_pos [of "TYPE('a)"] show ?thesis by (auto simp: M_def)
  next
    case neg: False
    then have "sint x * sint y < 0" by (auto simp: isMulResPositive_def mult_less_0_iff split: if_splits)
    with * neg half_pos [of "TYPE('a)"] show ?thesis by (auto simp: M_def)
  qed
qed

section \<open>The value of a BigInt\<close>

definition bi_val :: "'a::len word BigInt \<Rightarrow> int" where
  "bi_val i = (case bi_i i of None \<Rightarrow> sint (bi_n i) | Some z \<Rightarrow> z)"

text \<open>Normalised: in big mode only when the value does not fit the integer type.\<close>

definition bi_norm :: "'a::len word BigInt \<Rightarrow> bool" where
  "bi_norm i \<longleftrightarrow> bi_i i = None \<or> \<not> (- half TYPE('a) \<le> bi_val i \<and> bi_val i < half TYPE('a))"

lemma bi_val_simps [simp]:
  "bi_val (BigInt_Of n) = sint n" "bi_val (BigInt_big z) = z"
  "bi_i (BigInt_Of n) = None" "bi_n (BigInt_Of n) = n" "bi_i (BigInt_big z) = Some z"
  by (simp_all add: bi_val_def BigInt_Of_def BigInt_big_def)

lemma switchToBigIntMode_val [simp]:
  "bi_i (switchToBigIntMode i) = Some (bi_val i)" "bi_val (switchToBigIntMode i) = bi_val i"
  by (auto simp: switchToBigIntMode_def bi_val_def)

lemma BigInt_Compare_val:
  "BigInt_Compare i x = (if bi_val i < bi_val x then - 1 else if bi_val x < bi_val i then 1 else 0)"
  by (simp add: BigInt_Compare_def) (simp add: bi_val_def)

lemma tryToSwitchToIntMode_val:
  "bi_val (tryToSwitchToIntMode i) = bi_val i \<and> bi_norm (tryToSwitchToIntMode (i :: 'a::len word BigInt))"
proof (cases "bi_i i")
  case None
  then show ?thesis by (simp add: tryToSwitchToIntMode_def bi_norm_def)
next
  case (Some z)
  then have v: "bi_val i = z" by (simp add: bi_val_def)
  have "bi_val (BigInt_Of (of_int z) :: 'a word BigInt) = z" if "- half TYPE('a) \<le> z" "z < half TYPE('a)"
    using that by (simp add: sint_fits)
  with Some v half_pos [of "TYPE('a)"] show ?thesis
    by (auto simp: tryToSwitchToIntMode_def Let_def BigInt_Compare_val bi_norm_def)
qed

lemma BigInt_on_val:
  "bi_val (BigInt_on x y f) = f (bi_val x) (bi_val y) \<and> bi_norm (BigInt_on x y f)"
  using tryToSwitchToIntMode_val [of "BigInt_big (f (bi_val x) (bi_val y))"] by (simp add: BigInt_on_def)

lemma bi_val_int: "bi_i i = None \<Longrightarrow> bi_val i = sint (bi_n i)"
  by (simp add: bi_val_def)

lemma bi_norm_Of [simp]: "bi_norm (BigInt_Of n)"
  by (simp add: bi_norm_def)

lemma BigInt_Add_val: "bi_val (BigInt_Add i n) = bi_val i + bi_val n \<and> bi_norm (BigInt_Add i n)"
  by (auto simp: BigInt_Add_def BigInt_on_val CanIntSumOverflow_iff sint_add_fits bi_val_int)

lemma BigInt_Mul_val:
  "LENGTH('a) \<le> 64 \<Longrightarrow> bi_val (BigInt_Mul i n) = bi_val i * bi_val n \<and> bi_norm (BigInt_Mul i (n :: 'a::len word BigInt))"
  by (auto simp: BigInt_Mul_def BigInt_on_val CanIntMulOverflow_iff sint_mul_fits bi_val_int)

lemma BigInt_Abs_val: "bi_val (BigInt_Abs i) = \<bar>bi_val i\<bar>" for i :: "'a::len word BigInt"
proof -
  have "sint (- bi_n i) = - sint (bi_n i)" if "sint (MinInt :: 'a word) < sint (bi_n i)"
    using that by (intro sint_neg_fits) simp
  then show ?thesis
    using tryToSwitchToIntMode_val [of "BigInt_big \<bar>bi_val i\<bar> :: 'a word BigInt"]
    by (auto simp: BigInt_Abs_def bi_val_int)
qed

lemma BigInt_Sub_val:
  "bi_val (BigInt_Sub i n) =
     (if bi_i i = None \<and> bi_i n = None \<and> 0 \<le> bi_val i \<and> bi_n n = MinInt
      then sint (bi_n i - bi_n n) else bi_val i - bi_val n) \<and>
   bi_norm (BigInt_Sub i n)" for i n :: "'a::len word BigInt"
proof (cases "bi_i i = None \<and> bi_i n = None")
  case False
  then show ?thesis by (auto simp: BigInt_Sub_def BigInt_on_val)
next
  case True
  note v = bi_val_int [of i] bi_val_int [of n]
  show ?thesis
  proof (cases "bi_n n = MinInt")
    case min: True
    then show ?thesis using True v sint_bounds [of "bi_n i"] half_pos [of "TYPE('a)"]
      by (auto simp: BigInt_Sub_def BigInt_on_val CanIntSumOverflow_iff neg_MinInt)
  next
    case False
    then have "sint (- bi_n n) = - sint (bi_n n)" by (intro sint_neg_fits) (simp add: eq_MinInt_iff)
    with True False v show ?thesis
      by (auto simp: BigInt_Sub_def BigInt_on_val CanIntSumOverflow_iff sint_sub_fits)
  qed
qed

section \<open>Iter\<close>

lemma tryToSwitch_fits:
  fixes i :: "'a::len word BigInt"
  assumes "- half TYPE('a) \<le> bi_val i" "bi_val i < half TYPE('a)"
  shows "sint (bi_n (tryToSwitchToIntMode i)) = bi_val i"
  using tryToSwitchToIntMode_val [of i] assms by (auto simp: bi_norm_def bi_val_int)

lemma sint_format:
  "0 \<le> sint (n :: 'a::len word) \<Longrightarrow> sint (if neg then - n else n) = (if neg then - sint n else sint n)"
  using half_pos [of "TYPE('a)"] by (simp add: sint_neg_fits)

lemma BigInt_iter_loop_sum:
  fixes cursor :: "'a::len word BigInt"
  assumes "2 \<le> LENGTH('a)" "0 < bi_val cursor"
  shows "\<exists>xs. BigInt_iter_loop neg cursor acc = Some (acc @ xs) \<and>
     sum_list (map sint xs) = (if neg then - bi_val cursor else bi_val cursor) \<and> list_all (\<lambda>x. x \<noteq> 0) xs"
  using assms(2)
proof (induction "nat (bi_val cursor)" arbitrary: cursor acc rule: less_induct)
  case less
  let ?fmt = "\<lambda>n :: 'a word. if neg then - n else n"
  let ?upper = "switchToBigIntMode (BigInt_Of (MaxInt :: 'a word))"
  have up: "bi_val ?upper = half TYPE('a) - 1" "bi_i ?upper \<noteq> None" by simp_all
  have "(2 :: int) ^ 1 \<le> half TYPE('a)" unfolding half_def using assms(1) by (intro power_increasing) auto
  then have h: "2 \<le> half TYPE('a)" by simp
  show ?case
  proof (cases "bi_val cursor \<le> half TYPE('a) - 1")
    case True
    let ?n = "bi_n (tryToSwitchToIntMode cursor)"
    have n: "sint ?n = bi_val cursor" using True less.prems half_pos [of "TYPE('a)"] by (intro tryToSwitch_fits) auto
    have "BigInt_iter_loop neg cursor acc = Some (acc @ [?fmt ?n])"
      using True up by (subst BigInt_iter_loop.simps) (simp add: BigInt_Compare_val Let_def)
    moreover have "sint (?fmt ?n) = (if neg then - bi_val cursor else bi_val cursor)"
      using n less.prems sint_format [of ?n neg] by simp
    moreover have "?fmt ?n \<noteq> 0" using calculation(2) less.prems by (auto split: if_splits)
    ultimately show ?thesis by (intro exI [of _ "[?fmt ?n]"]) simp
  next
    case False
    let ?c = "BigInt_Sub cursor ?upper"
    have c: "bi_val ?c = bi_val cursor - (half TYPE('a) - 1)" using BigInt_Sub_val [of cursor ?upper] up by simp
    then have "nat (bi_val ?c) < nat (bi_val cursor)" "0 < bi_val ?c" using False h less.prems by linarith+
    from less.hyps [OF this, of "acc @ [?fmt MaxInt]"] obtain xs where xs:
      "BigInt_iter_loop neg ?c (acc @ [?fmt MaxInt]) = Some ((acc @ [?fmt MaxInt]) @ xs)"
      "sum_list (map sint xs) = (if neg then - bi_val ?c else bi_val ?c)" "list_all (\<lambda>x. x \<noteq> 0) xs" by blast
    have "BigInt_iter_loop neg cursor acc = BigInt_iter_loop neg ?c (acc @ [?fmt MaxInt])"
      using False up by (subst BigInt_iter_loop.simps) (simp add: BigInt_Compare_val Let_def)
    moreover have fm: "sint (?fmt MaxInt) = (if neg then - (half TYPE('a) - 1) else half TYPE('a) - 1)"
      using sint_format [of "MaxInt :: 'a word" neg] h by simp
    moreover have "sint (?fmt MaxInt) \<noteq> 0" using fm h by (cases neg) simp_all
    moreover have "?fmt MaxInt \<noteq> 0" using calculation(3) by (metis sint_0)
    ultimately show ?thesis using xs c by (intro exI [of _ "?fmt MaxInt # xs"]) (simp split: if_splits)
  qed
qed

declare BigInt_iter_loop.simps [code]

section \<open>Properties\<close>

text \<open>C8: the overflow checks are exact. For two values of an integer type of any width SumInt returns their
  sum, and the sum is the mathematical one, exactly when that fits the type; CanIntMulOverflow holds
  exactly when the mathematical product does not fit, for widths up to 64 bits.\<close>

theorem int_overflow_exact:
  fixes a b :: "'a::len word"
  shows "SumInt a b =
      (if - (2 ^ (LENGTH('a) - 1)) \<le> sint a + sint b \<and> sint a + sint b < 2 ^ (LENGTH('a) - 1)
       then (word_of_int (sint a + sint b), True) else (0, False)) \<and>
    (LENGTH('a) \<le> 64 \<longrightarrow>
      (CanIntMulOverflow a b \<longleftrightarrow>
        \<not> (- (2 ^ (LENGTH('a) - 1)) \<le> sint a * sint b \<and> sint a * sint b < 2 ^ (LENGTH('a) - 1))))"
  using CanIntMulOverflow_iff [of a b] by (auto simp: SumInt_def CanIntSumOverflow_iff half_def)

theorem int_overflow_exact_witness:
  "CanIntMulOverflow (- 128 :: 8 word) (- 1) \<and> \<not> CanIntMulOverflow (64 :: 8 word) (- 2)"
proof -
  have s: "sint (- 128 :: 8 word) = - 128" "sint (- 1 :: 8 word) = - 1" "sint (64 :: 8 word) = 64" "sint (- 2 :: 8 word) = - 2"
    by simp_all
  show ?thesis
    using int_overflow_exact [of "- 128 :: 8 word" "- 1"] int_overflow_exact [of "64 :: 8 word" "- 2"]
    unfolding s by simp
qed

text \<open>C4: BigInt arithmetic is exact and normalises. For integer types of up to 64 bits Add, Mul, Abs and
  Compare agree with the integers, whatever the modes of their arguments; so does Sub except when a
  non-negative number in integer mode is reduced by the type's minimum in integer mode; and sums, products
  and differences are in big mode only when they do not fit the type.\<close>

theorem BigInt_arith_exact:
  fixes i n :: "'a::len word BigInt"
  assumes "LENGTH('a) \<le> 64"
  shows "bi_val (BigInt_Add i n) = bi_val i + bi_val n \<and> bi_norm (BigInt_Add i n) \<and>
    bi_val (BigInt_Mul i n) = bi_val i * bi_val n \<and> bi_norm (BigInt_Mul i n) \<and>
    bi_val (BigInt_Abs i) = \<bar>bi_val i\<bar> \<and> BigInt_Compare i n = sgn (bi_val i - bi_val n) \<and>
    bi_norm (BigInt_Sub i n) \<and>
    (\<not> (bi_i i = None \<and> bi_i n = None \<and> 0 \<le> bi_val i \<and> bi_n n = MinInt) \<longrightarrow>
       bi_val (BigInt_Sub i n) = bi_val i - bi_val n)"
  using BigInt_Add_val [of i n] BigInt_Mul_val [OF assms, of i n] BigInt_Abs_val [of i] BigInt_Sub_val [of i n]
  by (auto simp: BigInt_Compare_val sgn_if)

theorem BigInt_arith_exact_witness:
  "bi_val (BigInt_Mul (BigInt_Of (100 :: 8 word)) (BigInt_Of (- 3))) = - 300 \<and>
   bi_val (BigInt_Add (BigInt_Of (100 :: 8 word)) (BigInt_Of 100)) = 200 \<and>
   bi_val (BigInt_Sub (BigInt_Of (- 100 :: 8 word)) (BigInt_Of 100)) = - 200"
proof -
  have s: "sint (100 :: 8 word) = 100" "sint (- 3 :: 8 word) = - 3" "sint (- 100 :: 8 word) = - 100" by simp_all
  show ?thesis
    using BigInt_arith_exact [of "BigInt_Of (100 :: 8 word)" "BigInt_Of (- 3)"]
      BigInt_arith_exact [of "BigInt_Of (100 :: 8 word)" "BigInt_Of 100"]
      BigInt_arith_exact [of "BigInt_Of (- 100 :: 8 word)" "BigInt_Of 100"]
    by (simp add: s)
qed

text \<open>Subtracting the type's minimum wraps. For a non-negative number in integer mode the result of Sub
  with the minimum is too small by the whole range of the type, and negative.\<close>

theorem BigInt_Sub_MinInt_wraps:
  fixes x :: "'a::len word"
  assumes "0 \<le> sint x"
  shows "bi_val (BigInt_Sub (BigInt_Of x) (BigInt_Of MinInt)) = (sint x - sint (MinInt :: 'a word)) - 2 ^ LENGTH('a) \<and>
         bi_val (BigInt_Sub (BigInt_Of x) (BigInt_Of MinInt)) < 0"
proof -
  have two: "2 ^ LENGTH('a) = 2 * half TYPE('a)" by (cases "LENGTH('a)") (simp_all add: half_def)
  have "x - MinInt = x + MinInt" by (metis diff_conv_add_uminus neg_MinInt)
  then have "sint (x - MinInt) = sint x - half TYPE('a)"
    using assms sint_bounds(2) [of x] half_pos [of "TYPE('a)"] by (simp only:) (subst sint_add_fits; simp)
  then show ?thesis
    using BigInt_Sub_val [of "BigInt_Of x" "BigInt_Of MinInt"] assms sint_bounds(2) [of x] two by simp
qed

text \<open>Iter decomposes a number into integers of the type. For types of at least two bits a full iteration
  ends, yields only non-zero values, and they add up to the number.\<close>

theorem BigInt_Iter_sum:
  fixes i :: "'a::len word BigInt"
  assumes "2 \<le> LENGTH('a)"
  shows "\<exists>xs. BigInt_Iter i = Some xs \<and> sum_list (map sint xs) = bi_val i \<and> list_all (\<lambda>x. x \<noteq> 0) xs"
proof -
  consider (zero) "bi_val i = 0" | (int) "bi_val i \<noteq> 0" "bi_i i = None" | (big) "bi_val i \<noteq> 0" "bi_i i \<noteq> None" by blast
  then show ?thesis
  proof cases
    case zero
    then show ?thesis by (simp add: BigInt_Iter_def BigInt_Compare_val)
  next
    case int
    then show ?thesis by (auto simp: BigInt_Iter_def BigInt_Compare_val bi_val_int)
  next
    case big
    have "0 < bi_val (BigInt_Abs i)" using big(1) by (simp add: BigInt_Abs_val)
    from BigInt_iter_loop_sum [OF assms this, of "bi_val i < 0" "[]"] big show ?thesis
      by (auto simp: BigInt_Iter_def BigInt_Compare_val BigInt_Abs_val Let_def split: if_splits)
  qed
qed


end
