(* ===== verification/Filemode.thy ===== *)
theory Filemode imports Main "HOL-Library.Word" begin

unbundle bit_operations_syntax

text \<open>
  \<^verbatim>\<open>port/filesystem/filemode\<close>: permissions as octal numbers. An \<^verbatim>\<open>os.FileMode\<close> is a
  \<^typ>\<open>32 word\<close>; the mode bits are the standard library's.
\<close>

type_synonym FileMode = "32 word"
type_synonym Octal = "32 word"

section \<open>Constants\<close>

definition fm_read :: Octal where "fm_read = 4"
definition fm_write :: Octal where "fm_write = 2"
definition fm_execute :: Octal where "fm_execute = 1"
definition shiftUser :: nat where "shiftUser = 6"
definition shiftGroup :: nat where "shiftGroup = 3"
definition shiftOther :: nat where "shiftOther = 0"

definition UserR :: Octal where "UserR = push_bit shiftUser fm_read"
definition UserW :: Octal where "UserW = push_bit shiftUser fm_write"
definition UserX :: Octal where "UserX = push_bit shiftUser fm_execute"
definition GroupR :: Octal where "GroupR = push_bit shiftGroup fm_read"
definition GroupW :: Octal where "GroupW = push_bit shiftGroup fm_write"
definition GroupX :: Octal where "GroupX = push_bit shiftGroup fm_execute"
definition OtherR :: Octal where "OtherR = push_bit shiftOther fm_read"
definition OtherW :: Octal where "OtherW = push_bit shiftOther fm_write"
definition OtherX :: Octal where "OtherX = push_bit shiftOther fm_execute"
definition AllRWX :: Octal where
  "AllRWX = (UserR OR GroupR OR OtherR) OR (UserW OR GroupW OR OtherW) OR (UserX OR GroupX OR OtherX)"

definition ModeDir :: FileMode where "ModeDir = push_bit 31 1"
definition ModeSymlink :: FileMode where "ModeSymlink = push_bit 27 1"
definition ModeDevice :: FileMode where "ModeDevice = push_bit 26 1"
definition ModeNamedPipe :: FileMode where "ModeNamedPipe = push_bit 25 1"
definition ModeSocket :: FileMode where "ModeSocket = push_bit 24 1"
definition ModeCharDevice :: FileMode where "ModeCharDevice = push_bit 21 1"
definition ModeIrregular :: FileMode where "ModeIrregular = push_bit 19 1"
definition ModeType :: FileMode where
  "ModeType = ModeDir OR ModeSymlink OR ModeNamedPipe OR ModeSocket OR ModeDevice OR ModeCharDevice OR ModeIrregular"
definition ModePerm :: FileMode where "ModePerm = 511"

lemmas mode_consts = fm_read_def fm_write_def fm_execute_def shiftUser_def shiftGroup_def shiftOther_def
  UserR_def UserW_def UserX_def GroupR_def GroupW_def GroupX_def OtherR_def OtherW_def OtherX_def

lemmas type_consts = ModeDir_def ModeSymlink_def ModeDevice_def ModeNamedPipe_def ModeSocket_def
  ModeCharDevice_def ModeIrregular_def

section \<open>Permissions\<close>

record Permission =
  Class :: string
  Read :: bool
  Write :: bool
  Execute :: bool

definition Permission_IsZero :: "Permission \<Rightarrow> bool" where
  "Permission_IsZero p = (p = \<lparr>Class = [], Read = False, Write = False, Execute = False\<rparr>)"

definition Permission_Contains :: "Permission \<Rightarrow> Permission \<Rightarrow> bool" where
  "Permission_Contains p x =
     (if Permission_IsZero x then True
      else if Permission_IsZero p then False
      else if Class p \<noteq> Class x then False
      else if Read x \<and> \<not> Read p then False
      else if Write x \<and> \<not> Write p then False
      else if Execute x \<and> \<not> Execute p then False
      else True)"

definition classShiftMapping :: "string \<Rightarrow> nat option" where
  "classShiftMapping = [''user'' \<mapsto> shiftUser, ''group'' \<mapsto> shiftGroup, ''other'' \<mapsto> shiftOther]"

definition Permission_Octal :: "Permission \<Rightarrow> Octal" where
  "Permission_Octal p =
     (let x0 = 0;
          x1 = (if Read p then x0 OR fm_read else x0);
          x2 = (if Write p then x1 OR fm_write else x1);
          x3 = (if Execute p then x2 OR fm_execute else x2)
      in case classShiftMapping (Class p) of Some shift \<Rightarrow> push_bit shift x3 | None \<Rightarrow> x3)"

section \<open>Octal\<close>

definition Octal_Type :: "Octal \<Rightarrow> Octal" where "Octal_Type x = x AND ModeType"
definition Octal_Perm :: "Octal \<Rightarrow> Octal" where "Octal_Perm x = x AND ModePerm"

definition hasMode :: "Octal \<Rightarrow> FileMode \<Rightarrow> bool" where
  "hasMode x has = (x AND has \<noteq> 0)"

definition Octal_User :: "Octal \<Rightarrow> Permission" where
  "Octal_User x = \<lparr>Class = ''user'', Read = hasMode x UserR, Write = hasMode x UserW, Execute = hasMode x UserX\<rparr>"

definition Octal_Group :: "Octal \<Rightarrow> Permission" where
  "Octal_Group x = \<lparr>Class = ''group'', Read = hasMode x GroupR, Write = hasMode x GroupW, Execute = hasMode x GroupX\<rparr>"

definition Octal_Other :: "Octal \<Rightarrow> Permission" where
  "Octal_Other x = \<lparr>Class = ''other'', Read = hasMode x OtherR, Write = hasMode x OtherW, Execute = hasMode x OtherX\<rparr>"

definition Octal_Contains :: "Octal \<Rightarrow> Octal \<Rightarrow> bool" where
  "Octal_Contains x oth =
     (if \<not> Permission_IsZero (Octal_User oth) \<and> \<not> Permission_Contains (Octal_User x) (Octal_User oth) then False
      else if \<not> Permission_IsZero (Octal_Group oth) \<and> \<not> Permission_Contains (Octal_Group x) (Octal_Group oth) then False
      else if \<not> Permission_IsZero (Octal_Other oth) \<and> \<not> Permission_Contains (Octal_Other x) (Octal_Other oth) then False
      else True)"

definition filemode_Contains :: "FileMode \<Rightarrow> FileMode \<Rightarrow> bool" where
  "filemode_Contains perm has = Octal_Contains perm has"

definition fileTypeChar :: "Octal \<Rightarrow> string" where
  "fileTypeChar x =
     (let mode = Octal_Type x
      in if mode AND ModeDir \<noteq> 0 then ''d''
         else if mode AND ModeSymlink \<noteq> 0 then ''l''
         else if mode AND ModeNamedPipe \<noteq> 0 then ''p''
         else if mode AND ModeSocket \<noteq> 0 then ''s''
         else if mode AND ModeDevice \<noteq> 0 then (if mode AND ModeCharDevice \<noteq> 0 then ''c'' else ''b'')
         else ''-'')"

definition formatAppend :: "bool \<Rightarrow> string \<Rightarrow> string" where
  "formatAppend has symb = (if has then symb else ''-'')"

definition SymbolicNotation :: "Octal \<Rightarrow> string" where
  "SymbolicNotation x =
     (let usr = Octal_User x; grp = Octal_Group x; oth = Octal_Other x
      in fileTypeChar x @
         formatAppend (Read usr) ''r'' @ formatAppend (Write usr) ''w'' @ formatAppend (Execute usr) ''x'' @
         formatAppend (Read grp) ''r'' @ formatAppend (Write grp) ''w'' @ formatAppend (Execute grp) ''x'' @
         formatAppend (Read oth) ''r'' @ formatAppend (Write oth) ''w'' @ formatAppend (Execute oth) ''x'')"

section \<open>Masks and bits\<close>

lemma and_push_bit_one: "(x :: 32 word) AND push_bit n 1 \<noteq> 0 \<longleftrightarrow> bit x n"
  by (simp only: bit_iff_and_push_bit_not_eq_0)

lemma word_eq32: "x = y \<longleftrightarrow> (\<forall>n. bit (x :: 32 word) n = bit y n)"
  by (metis bit_eqI)

lemma mode_bits:
  "UserR = push_bit 8 1" "UserW = push_bit 7 1" "UserX = push_bit 6 1"
  "GroupR = push_bit 5 1" "GroupW = push_bit 4 1" "GroupX = push_bit 3 1"
  "OtherR = push_bit 2 1" "OtherW = push_bit 1 1" "OtherX = push_bit 0 1"
  by (simp_all add: mode_consts)

lemma hasMode_bit [simp]:
  "hasMode x UserR = bit x 8" "hasMode x UserW = bit x 7" "hasMode x UserX = bit x 6"
  "hasMode x GroupR = bit x 5" "hasMode x GroupW = bit x 4" "hasMode x GroupX = bit x 3"
  "hasMode x OtherR = bit x 2" "hasMode x OtherW = bit x 1" "hasMode x OtherX = bit x 0"
  unfolding hasMode_def mode_bits and_push_bit_one by (rule refl)+

lemma bit_single: "k < 32 \<Longrightarrow> bit (push_bit k (1 :: 32 word)) n \<longleftrightarrow> n = k"
  unfolding bit_push_bit_iff bit_1_iff by (auto simp: possible_bit_word)

lemma bit_mode [simp]:
  "bit UserR n \<longleftrightarrow> n = 8" "bit UserW n \<longleftrightarrow> n = 7" "bit UserX n \<longleftrightarrow> n = 6"
  "bit GroupR n \<longleftrightarrow> n = 5" "bit GroupW n \<longleftrightarrow> n = 4" "bit GroupX n \<longleftrightarrow> n = 3"
  "bit OtherR n \<longleftrightarrow> n = 2" "bit OtherW n \<longleftrightarrow> n = 1" "bit OtherX n \<longleftrightarrow> n = 0"
  unfolding mode_bits by (rule bit_single, simp)+

lemma bit_511: "bit (511 :: 32 word) n \<longleftrightarrow> n < 9"
proof -
  have "(511 :: 32 word) = mask 9" by (simp add: mask_eq_exp_minus_1)
  then show ?thesis unfolding \<open>(511 :: 32 word) = mask 9\<close> bit_mask_iff by auto
qed

lemma less_9: "n < (9 :: nat) \<longleftrightarrow> n \<in> {0, 1, 2, 3, 4, 5, 6, 7, 8}"
  by auto

lemma masked_subset:
  "x AND y AND 511 = y AND (511 :: 32 word) \<longleftrightarrow> (\<forall>n \<in> {0, 1, 2, 3, 4, 5, 6, 7, 8}. bit y n \<longrightarrow> bit x n)"
  unfolding word_eq32 bit_and_iff bit_511 less_9 by blast

section \<open>Properties\<close>

lemma Octal_classes:
  "Class (Octal_User x) = ''user''" "Class (Octal_Group x) = ''group''" "Class (Octal_Other x) = ''other''"
  by (simp_all add: Octal_User_def Octal_Group_def Octal_Other_def)

lemma not_IsZero_classes [simp]:
  "\<not> Permission_IsZero (Octal_User x)" "\<not> Permission_IsZero (Octal_Group x)" "\<not> Permission_IsZero (Octal_Other x)"
  by (simp_all add: Permission_IsZero_def Octal_User_def Octal_Group_def Octal_Other_def)

lemma User_Contains: "Permission_Contains (Octal_User x) (Octal_User y) \<longleftrightarrow>
    (bit y 8 \<longrightarrow> bit x 8) \<and> (bit y 7 \<longrightarrow> bit x 7) \<and> (bit y 6 \<longrightarrow> bit x 6)"
  by (auto simp: Permission_Contains_def Octal_User_def Permission_IsZero_def)

lemma Group_Contains: "Permission_Contains (Octal_Group x) (Octal_Group y) \<longleftrightarrow>
    (bit y 5 \<longrightarrow> bit x 5) \<and> (bit y 4 \<longrightarrow> bit x 4) \<and> (bit y 3 \<longrightarrow> bit x 3)"
  by (auto simp: Permission_Contains_def Octal_Group_def Permission_IsZero_def)

lemma Other_Contains: "Permission_Contains (Octal_Other x) (Octal_Other y) \<longleftrightarrow>
    (bit y 2 \<longrightarrow> bit x 2) \<and> (bit y 1 \<longrightarrow> bit x 1) \<and> (bit y 0 \<longrightarrow> bit x 0)"
  by (auto simp: Permission_Contains_def Octal_Other_def Permission_IsZero_def)

text \<open>\<^verbatim>\<open>Contains\<close> of two modes is inclusion of their nine permission bits; the type bits of
  either mode do not matter.\<close>

theorem filemode_Contains_iff:
  "filemode_Contains x y \<longleftrightarrow> x AND y AND 511 = y AND (511 :: 32 word)"
  unfolding masked_subset filemode_Contains_def Octal_Contains_def
  by (auto simp: User_Contains Group_Contains Other_Contains)

lemma Permission_Octal_class:
  "Class p = ''user'' \<Longrightarrow> Permission_Octal p =
     (if Read p then UserR else 0) OR (if Write p then UserW else 0) OR (if Execute p then UserX else 0)"
  "Class p = ''group'' \<Longrightarrow> Permission_Octal p =
     (if Read p then GroupR else 0) OR (if Write p then GroupW else 0) OR (if Execute p then GroupX else 0)"
  "Class p = ''other'' \<Longrightarrow> Permission_Octal p =
     (if Read p then OtherR else 0) OR (if Write p then OtherW else 0) OR (if Execute p then OtherX else 0)"
  by (simp_all add: Permission_Octal_def classShiftMapping_def Let_def UserR_def UserW_def UserX_def
      GroupR_def GroupW_def GroupX_def OtherR_def OtherW_def OtherX_def push_bit_or or.assoc)

lemma bit_Permission_Octal:
  "Class p = ''user'' \<Longrightarrow> bit (Permission_Octal p) n \<longleftrightarrow>
     Read p \<and> n = 8 \<or> Write p \<and> n = 7 \<or> Execute p \<and> n = 6"
  "Class p = ''group'' \<Longrightarrow> bit (Permission_Octal p) n \<longleftrightarrow>
     Read p \<and> n = 5 \<or> Write p \<and> n = 4 \<or> Execute p \<and> n = 3"
  "Class p = ''other'' \<Longrightarrow> bit (Permission_Octal p) n \<longleftrightarrow>
     Read p \<and> n = 2 \<or> Write p \<and> n = 1 \<or> Execute p \<and> n = 0"
  by (auto simp: Permission_Octal_class bit_or_iff)

text \<open>The three permissions of a mode put together give its nine permission bits back, and the
  octal of a permission of a known class reads back as that permission.\<close>

theorem Permission_roundtrip:
  "Permission_Octal (Octal_User x) OR Permission_Octal (Octal_Group x) OR Permission_Octal (Octal_Other x) = Octal_Perm x
   \<and> Octal_User (Permission_Octal \<lparr>Class = ''user'', Read = r, Write = w, Execute = e\<rparr>)
       = \<lparr>Class = ''user'', Read = r, Write = w, Execute = e\<rparr>
   \<and> Octal_Group (Permission_Octal \<lparr>Class = ''group'', Read = r, Write = w, Execute = e\<rparr>)
       = \<lparr>Class = ''group'', Read = r, Write = w, Execute = e\<rparr>
   \<and> Octal_Other (Permission_Octal \<lparr>Class = ''other'', Read = r, Write = w, Execute = e\<rparr>)
       = \<lparr>Class = ''other'', Read = r, Write = w, Execute = e\<rparr>"
proof (intro conjI)
  have "bit (Permission_Octal (Octal_User x) OR Permission_Octal (Octal_Group x) OR Permission_Octal (Octal_Other x)) n
      \<longleftrightarrow> n < 9 \<and> bit x n" for n
    unfolding less_9 bit_or_iff bit_Permission_Octal(1)[OF Octal_classes(1)] bit_Permission_Octal(2)[OF Octal_classes(2)]
      bit_Permission_Octal(3)[OF Octal_classes(3)]
    by (simp add: Octal_User_def Octal_Group_def Octal_Other_def) blast
  then show "Permission_Octal (Octal_User x) OR Permission_Octal (Octal_Group x) OR Permission_Octal (Octal_Other x) = Octal_Perm x"
    unfolding word_eq32 Octal_Perm_def bit_and_iff ModePerm_def bit_511 by blast
qed (simp_all add: bit_Permission_Octal Octal_User_def Octal_Group_def Octal_Other_def)

lemma formatAppend_chars:
  "formatAppend b ''r'' = [if b then CHR ''r'' else CHR ''-'']"
  "formatAppend b ''w'' = [if b then CHR ''w'' else CHR ''-'']"
  "formatAppend b ''x'' = [if b then CHR ''x'' else CHR ''-'']"
  by (simp_all add: formatAppend_def)

lemma fileTypeChar_single: "\<exists>c. fileTypeChar x = [c]"
  by (simp add: fileTypeChar_def Let_def)

lemma Octal_Perm_eq_iff:
  "Octal_Perm x = Octal_Perm y \<longleftrightarrow> (\<forall>n \<in> {0, 1, 2, 3, 4, 5, 6, 7, 8}. bit x n = bit y n)"
  unfolding word_eq32 Octal_Perm_def bit_and_iff ModePerm_def bit_511 less_9 by blast

lemma if_char_eq: "c \<noteq> d \<Longrightarrow> ((if b then c else d) = (if b' then c else d)) = (b = b')"
  by simp

text \<open>The symbolic notation depends on the nine permission bits and the file type only, and
  separates modes that differ in them: it never shows the setuid, setgid and sticky bits.\<close>

theorem SymbolicNotation_eq_iff:
  "SymbolicNotation x = SymbolicNotation y \<longleftrightarrow> fileTypeChar x = fileTypeChar y \<and> Octal_Perm x = Octal_Perm y"
proof -
  obtain c d where "fileTypeChar x = [c]" "fileTypeChar y = [d]"
    using fileTypeChar_single by blast
  then show ?thesis
    unfolding Octal_Perm_eq_iff SymbolicNotation_def Let_def formatAppend_chars
    by (simp add: if_char_eq Octal_User_def Octal_Group_def Octal_Other_def) blast
qed

end
