(* ===== verification/DsPort.thy ===== *)
theory DsPort imports Prelude begin

text \<open>
  \<^verbatim>\<open>port/ds\<close>: what the appendable containers of \<^verbatim>\<open>dslist\<close> and \<^verbatim>\<open>dsset\<close> have in common. An
  \<^verbatim>\<open>Appendable\<close> whose \<^verbatim>\<open>Append\<close> is a loop over a single-value \<open>app\<close> implements the loop
  over the abstract insertion \<open>ins\<close> on the list of its values.
\<close>

locale appendable =
  fixes ok :: "'s \<Rightarrow> bool" and vals :: "'s \<Rightarrow> 'a list"
    and app :: "'s \<Rightarrow> 'b \<Rightarrow> 's" and ins :: "'a list \<Rightarrow> 'b \<Rightarrow> 'a list"
  assumes app_ok: "ok s \<Longrightarrow> ok (app s v)"
    and app_vals: "ok s \<Longrightarrow> vals (app s v) = ins (vals s) v"
begin

lemma foldl_ok: "ok s \<Longrightarrow> ok (foldl app s vs)"
  by (induction vs arbitrary: s) (simp_all add: app_ok)

lemma foldl_vals: "ok s \<Longrightarrow> vals (foldl app s vs) = foldl ins (vals s) vs"
  by (induction vs arbitrary: s) (simp_all add: app_ok app_vals)

end

lemma foldl_snoc: "foldl (\<lambda>xs v. xs @ [v]) xs vs = xs @ vs"
  by (induction vs arbitrary: xs) simp_all

text \<open>Keeping the first of equal values: the insertion of an ordered set.\<close>

definition ins_new :: "'a list \<Rightarrow> 'a \<Rightarrow> 'a list" where
  "ins_new xs v = (if v \<in> set xs then xs else xs @ [v])"

lemma set_ins_new [simp]: "set (ins_new xs v) = insert v (set xs)"
  by (auto simp: ins_new_def)

lemma distinct_ins_new [simp]: "distinct (ins_new xs v) = distinct xs"
  by (auto simp: ins_new_def)

lemma foldl_ins_new: "set (foldl ins_new xs vs) = set xs \<union> set vs"
  "distinct (foldl ins_new xs vs) = distinct xs"
  by (induction vs arbitrary: xs) auto

end
