(* ===== verification/Slicekit.thy ===== *)
theory Slicekit imports Prelude "HOL-Library.Multiset" begin

text \<open>
  \<^verbatim>\<open>pkg/slicekit/slicekit.go\<close>. A slice is a list; where the code tells nil from empty it is
  a \<^typ>\<open>'a list option\<close>. A function that may fail returns its value with an optional error of
  type \<open>'e\<close>. A function that takes a pointer to a slice returns the slice it leaves there; what it
  writes into an array that other slices share is not modelled. Indices are \<^typ>\<open>int\<close>. \<open>zero\<close>
  is the zero value of the element type, and \<open>eq\<close> stands for \<^verbatim>\<open>comp.Equal\<close>.
\<close>

section \<open>Mapping, folding, filtering\<close>

fun sk_map_loop :: "('i \<Rightarrow> 'o \<times> 'e option) \<Rightarrow> 'i list \<Rightarrow> nat \<Rightarrow> 'o list \<Rightarrow> 'o list \<times> 'e option" where
  "sk_map_loop mapper [] index out = (out, None)"
| "sk_map_loop mapper (v # vs) index out =
     (case mapper v of
        (_, Some err) \<Rightarrow> (out, Some err)
      | (x, None) \<Rightarrow> sk_map_loop mapper vs (Suc index) (out[index := x]))"

definition sk_MapErr :: "'o \<Rightarrow> 'i list option \<Rightarrow> ('i \<Rightarrow> 'o \<times> 'e option) \<Rightarrow> 'o list option \<times> 'e option" where
  "sk_MapErr zero s mapper =
     (case s of
        None \<Rightarrow> (None, None)
      | Some vs \<Rightarrow> (case sk_map_loop mapper vs 0 (replicate (length vs) zero) of (out, err) \<Rightarrow> (Some out, err)))"

definition sk_Map :: "'o \<Rightarrow> 'i list option \<Rightarrow> ('i \<Rightarrow> 'o) \<Rightarrow> 'o list option" where
  "sk_Map zero s mapper = fst (sk_MapErr zero s (\<lambda>i. (mapper i, None :: unit option)))"

fun sk_ReduceErr :: "'i list \<Rightarrow> 'o \<Rightarrow> ('o \<Rightarrow> 'i \<Rightarrow> 'o \<times> 'e option) \<Rightarrow> 'o \<times> 'e option" where
  "sk_ReduceErr [] result reducer = (result, None)"
| "sk_ReduceErr (i # s) result reducer =
     (case reducer result i of
        (_, Some err) \<Rightarrow> (result, Some err)
      | (x, None) \<Rightarrow> sk_ReduceErr s x reducer)"

definition sk_Reduce :: "'i list \<Rightarrow> 'o \<Rightarrow> ('o \<Rightarrow> 'i \<Rightarrow> 'o) \<Rightarrow> 'o" where
  "sk_Reduce s initial reducer = fst (sk_ReduceErr s initial (\<lambda>x i. (reducer x i, None :: unit option)))"

fun sk_filter_loop :: "('a \<Rightarrow> bool \<times> 'e option) \<Rightarrow> 'a list \<Rightarrow> 'a list \<Rightarrow> 'a list option \<times> 'e option" where
  "sk_filter_loop p [] out = (Some out, None)"
| "sk_filter_loop p (v # vs) out =
     (case p v of
        (_, Some err) \<Rightarrow> (None, Some err)
      | (ok, None) \<Rightarrow> sk_filter_loop p vs (if ok then out @ [v] else out))"

definition sk_FilterErr :: "'a list option \<Rightarrow> ('a \<Rightarrow> bool \<times> 'e option) \<Rightarrow> 'a list option \<times> 'e option" where
  "sk_FilterErr s p = (case s of None \<Rightarrow> (None, None) | Some vs \<Rightarrow> sk_filter_loop p vs [])"

definition sk_Filter :: "'a list option \<Rightarrow> ('a \<Rightarrow> bool) \<Rightarrow> 'a list option" where
  "sk_Filter s p = fst (sk_FilterErr s (\<lambda>v. (p v, None :: unit option)))"

definition sk_Merge :: "'a list list \<Rightarrow> 'a list" where
  "sk_Merge slices = fold (\<lambda>slice out. out @ slice) slices []"

definition sk_Clone :: "'a list option \<Rightarrow> 'a list option" where
  "sk_Clone src = (case src of None \<Rightarrow> None | Some vs \<Rightarrow> Some vs)"

section \<open>Indices\<close>

definition ResolveIndex :: "int \<Rightarrow> int \<Rightarrow> int \<times> bool" where
  "ResolveIndex len index =
     (if index < 0 then (let n = len + index in if 0 \<le> n then (n, True) else (index, False))
      else (index, index < len))"

definition sk_Lookup :: "'a \<Rightarrow> 'a list \<Rightarrow> int \<Rightarrow> 'a \<times> bool" where
  "sk_Lookup zero vs index =
     (case ResolveIndex (int (length vs)) index of
        (i, ok) \<Rightarrow> if \<not> ok then (zero, False) else (vs ! nat i, True))"

definition sk_Get :: "'a \<Rightarrow> 'a list \<Rightarrow> int \<Rightarrow> 'a" where
  "sk_Get zero vs index = fst (sk_Lookup zero vs index)"

definition sk_Set :: "'a list \<Rightarrow> int \<Rightarrow> 'a \<Rightarrow> 'a list \<times> bool" where
  "sk_Set vs index v =
     (case ResolveIndex (int (length vs)) index of
        (i, ok) \<Rightarrow> if \<not> ok then (vs, False) else (vs[nat i := v], True))"

definition sk_Delete :: "'a list \<Rightarrow> int \<Rightarrow> 'a list \<times> bool" where
  "sk_Delete vs index =
     (case ResolveIndex (int (length vs)) index of
        (i, ok) \<Rightarrow> if \<not> ok then (vs, False) else (take (nat i) vs @ drop (nat (i + 1)) vs, True))"

definition sk_Insert :: "'a list \<Rightarrow> int \<Rightarrow> 'a list \<Rightarrow> 'a list \<times> bool" where
  "sk_Insert vs index nvs =
     (if length nvs = 0 then (vs, True)
      else case ResolveIndex (int (length vs)) index of
             (i, ok) \<Rightarrow>
               if \<not> ok then (if i = int (length vs) then (vs @ nvs, True) else (vs, False))
               else if int (length vs) < i then (vs, False)
               else (take (nat i) vs @ nvs @ drop (nat i) vs, True))"

definition sk_Pop :: "'a \<Rightarrow> 'a list \<Rightarrow> ('a \<times> bool) \<times> 'a list" where
  "sk_Pop zero vs =
     (if length vs = 0 then ((zero, False), vs)
      else (let i = length vs - 1 in ((vs ! i, True), take i vs)))"

definition sk_PopAt :: "'a \<Rightarrow> 'a list \<Rightarrow> int \<Rightarrow> ('a \<times> bool) \<times> 'a list" where
  "sk_PopAt zero vs index =
     (if length vs = 0 then ((zero, False), vs)
      else case ResolveIndex (int (length vs)) index of
             (i, ok) \<Rightarrow>
               if \<not> ok then ((zero, False), vs)
               else ((vs ! nat i, True), take (nat i) vs @ drop (nat (i + 1)) vs))"

definition sk_Shift :: "'a \<Rightarrow> 'a list \<Rightarrow> ('a \<times> bool) \<times> 'a list" where
  "sk_Shift zero vs = (if length vs = 0 then ((zero, False), vs) else ((vs ! 0, True), drop 1 vs))"

definition sk_Unshift :: "'a list \<Rightarrow> 'a list \<Rightarrow> 'a list" where
  "sk_Unshift vs nvs = (if length nvs = 0 then vs else nvs @ vs)"

definition sk_First :: "'a \<Rightarrow> 'a list \<Rightarrow> 'a \<times> bool" where
  "sk_First zero vs = (if length vs = 0 then (zero, False) else (vs ! 0, True))"

definition sk_Last :: "'a \<Rightarrow> 'a list \<Rightarrow> 'a \<times> bool" where
  "sk_Last zero vs = (if length vs = 0 then (zero, False) else (vs ! (length vs - 1), True))"

section \<open>Searching and grouping\<close>

fun sk_Find :: "'a \<Rightarrow> 'a list \<Rightarrow> ('a \<Rightarrow> bool) \<Rightarrow> 'a \<times> bool" where
  "sk_Find zero [] idf = (zero, False)"
| "sk_Find zero (v # vs) idf = (if idf v then (v, True) else sk_Find zero vs idf)"

definition sk_AnyOf :: "'a \<Rightarrow> 'a list \<Rightarrow> ('a \<Rightarrow> bool) \<Rightarrow> bool" where
  "sk_AnyOf zero vs p = snd (sk_Find zero vs p)"

fun sk_unique_loop :: "('a \<Rightarrow> 'i) \<Rightarrow> 'a list \<Rightarrow> ('i, unit) gomap \<Rightarrow> 'a list \<Rightarrow> 'a list" where
  "sk_unique_loop idf [] seen out = out"
| "sk_unique_loop idf (v # vs) seen out =
     (if gm_has seen (idf v) then sk_unique_loop idf vs seen out
      else sk_unique_loop idf vs (gm_set (idf v) () seen) (out @ [v]))"

definition sk_UniqueBy :: "'a list \<Rightarrow> ('a \<Rightarrow> 'i) \<Rightarrow> 'a list" where
  "sk_UniqueBy vs idf = sk_unique_loop idf vs [] []"

definition sk_Unique :: "'a list \<Rightarrow> 'a list" where
  "sk_Unique vs = sk_UniqueBy vs (\<lambda>v. v)"

text \<open>\<^verbatim>\<open>GroupBy\<close>, with a group function that is not nil; \<^term>\<open>None\<close> is the nil map.\<close>

definition sk_GroupBy :: "'a list \<Rightarrow> ('a \<Rightarrow> 'i) \<Rightarrow> ('i, 'a list) gomap option" where
  "sk_GroupBy vs idf =
     (if length vs = 0 then None
      else Some (fold (\<lambda>v groups. gm_set (idf v) (gm_get_or [] groups (idf v) @ [v]) groups) vs []))"

definition sk_IterReverse :: "'a list \<Rightarrow> (int \<times> 'a) list" where
  "sk_IterReverse vs = map (\<lambda>i. (int i, vs ! i)) (rev [0..<length vs])"

section \<open>Batches\<close>

text \<open>
  The loop of \<^verbatim>\<open>Batch\<close>. A step of zero never ends, which is \<^term>\<open>None\<close>; a negative one
  slices out of range and panics, which is \<^term>\<open>Some None\<close>.
\<close>

partial_function (option) sk_batch_loop :: "'a list \<Rightarrow> int \<Rightarrow> int \<Rightarrow> 'a list list \<Rightarrow> 'a list list option option" where
  "sk_batch_loop vs sz i out =
     (if \<not> (i < int (length vs)) then Some (Some out)
      else (let stop = (if \<not> (i + sz < int (length vs)) then int (length vs) else i + sz)
            in if i < 0 \<or> stop < i then Some None
               else sk_batch_loop vs sz (i + sz) (out @ [take (nat (stop - i)) (drop (nat i) vs)])))"

definition sk_Batch :: "'a list \<Rightarrow> int \<Rightarrow> 'a list list option option" where
  "sk_Batch vs sz = sk_batch_loop vs sz 0 []"

declare sk_batch_loop.simps [code]

section \<open>Comparing regardless of order\<close>

fun sk_match :: "('a \<Rightarrow> 'a \<Rightarrow> bool) \<Rightarrow> 'a \<Rightarrow> (nat, unit) gomap \<Rightarrow> nat \<Rightarrow> 'a list \<Rightarrow> int" where
  "sk_match eq x matched i [] = -1"
| "sk_match eq x matched i (v # vs) =
     (if gm_has matched i then sk_match eq x matched (Suc i) vs
      else if eq v x then int i else sk_match eq x matched (Suc i) vs)"

fun sk_contains_loop :: "('a \<Rightarrow> 'a \<Rightarrow> bool) \<Rightarrow> 'a list \<Rightarrow> 'a list \<Rightarrow> (nat, unit) gomap \<Rightarrow> bool" where
  "sk_contains_loop eq vs [] matched = True"
| "sk_contains_loop eq vs (x # oth) matched =
     (let matchedIdx = sk_match eq x matched 0 vs
      in if matchedIdx < 0 then False
         else sk_contains_loop eq vs oth (gm_set (nat matchedIdx) () matched))"

definition sk_ContainsExactly :: "('a \<Rightarrow> 'a \<Rightarrow> bool) \<Rightarrow> 'a list \<Rightarrow> 'a list \<Rightarrow> bool" where
  "sk_ContainsExactly eq vs oth =
     (if length vs \<noteq> length oth then False else sk_contains_loop eq vs oth [])"

text \<open>\<^verbatim>\<open>equalContainsExactly\<close> is the same loop with the default comparison.\<close>

definition sk_equalContainsExactly :: "('a \<Rightarrow> 'a \<Rightarrow> bool) \<Rightarrow> 'a list \<Rightarrow> 'a list \<Rightarrow> bool" where
  "sk_equalContainsExactly eq vs oth =
     (if length vs \<noteq> length oth then False else sk_contains_loop eq vs oth [])"

fun sk_Contains :: "('a \<Rightarrow> 'a \<Rightarrow> bool) \<Rightarrow> 'a list \<Rightarrow> 'a \<Rightarrow> bool" where
  "sk_Contains eq [] v = False"
| "sk_Contains eq (x # vs) v = (if eq x v then True else sk_Contains eq vs v)"

text \<open>
  \<^verbatim>\<open>float64ContainsExactly\<close>: \<open>isNaN\<close> stands for \<^verbatim>\<open>math.IsNaN\<close>; other floats are
  compared as map keys, by \<^verbatim>\<open>==\<close>, which is equality of the values here.
\<close>

fun sk_count_loop :: "('a \<Rightarrow> bool) \<Rightarrow> 'a list \<Rightarrow> int \<Rightarrow> ('a, int) gomap \<Rightarrow> int \<times> ('a, int) gomap" where
  "sk_count_loop isNaN [] nan counts = (nan, counts)"
| "sk_count_loop isNaN (v # vs) nan counts =
     (if isNaN v then sk_count_loop isNaN vs (nan + 1) counts
      else sk_count_loop isNaN vs nan (gm_set v (gm_get_or 0 counts v + 1) counts))"

fun sk_uncount_loop :: "('a \<Rightarrow> bool) \<Rightarrow> 'a list \<Rightarrow> int \<Rightarrow> ('a, int) gomap \<Rightarrow> int option" where
  "sk_uncount_loop isNaN [] nan counts = Some nan"
| "sk_uncount_loop isNaN (v # oth) nan counts =
     (if isNaN v then sk_uncount_loop isNaN oth (nan + 1) counts
      else (let counts' = gm_set v (gm_get_or 0 counts v - 1) counts
            in if gm_get_or 0 counts' v < 0 then None else sk_uncount_loop isNaN oth nan counts'))"

definition sk_float64ContainsExactly :: "('a \<Rightarrow> bool) \<Rightarrow> 'a list \<Rightarrow> 'a list \<Rightarrow> bool" where
  "sk_float64ContainsExactly isNaN vs oth =
     (if length vs \<noteq> length oth then False
      else case sk_count_loop isNaN vs 0 [] of
             (vsNaN, counts) \<Rightarrow>
               (case sk_uncount_loop isNaN oth 0 counts of None \<Rightarrow> False | Some othNaN \<Rightarrow> vsNaN = othNaN))"

section \<open>Matching without order\<close>

text \<open>The elements of a slice whose positions are not marked.\<close>

fun sk_rest :: "(nat, unit) gomap \<Rightarrow> nat \<Rightarrow> 'a list \<Rightarrow> 'a list" where
  "sk_rest m i [] = []"
| "sk_rest m i (v # vs) = (if gm_has m i then sk_rest m (Suc i) vs else v # sk_rest m (Suc i) vs)"

lemma sk_rest_set_below: "j < i \<Longrightarrow> sk_rest (gm_set j () m) i vs = sk_rest m i vs"
  by (induction vs arbitrary: i) auto

lemma sk_match_spec:
  "(sk_match eq x m i vs = -1 \<and> (\<forall>v \<in> set (sk_rest m i vs). \<not> eq v x)) \<or>
   (\<exists>j w. sk_match eq x m i vs = int j \<and> i \<le> j \<and> eq w x \<and>
      mset (sk_rest m i vs) = add_mset w (mset (sk_rest (gm_set j () m) i vs)))"
proof (induction vs arbitrary: i)
  case (Cons v vs)
  show ?case
  proof (cases "gm_has m i")
    case True
    have "gm_has (gm_set j () m) i" for j using True by simp
    with True Cons.IH [of "Suc i"] show ?thesis by (auto dest: Suc_leD simp del: gm_get_set)
  next
    case free: False
    show ?thesis
    proof (cases "eq v x")
      case True
      with free have "sk_match eq x m i (v # vs) = int i"
        "mset (sk_rest m i (v # vs)) = add_mset v (mset (sk_rest (gm_set i () m) i (v # vs)))"
        by (simp_all add: sk_rest_set_below)
      with True show ?thesis by blast
    next
      case False
      have "\<not> gm_has (gm_set j () m) i" if "Suc i \<le> j" for j using free that by simp
      with free False Cons.IH [of "Suc i"] show ?thesis by (auto dest: Suc_leD simp del: gm_get_set)
    qed
  qed
qed simp

lemma sk_rest_empty [simp]: "sk_rest [] i vs = vs"
  by (induction vs arbitrary: i) simp_all

lemma sk_contains_loop_spec:
  assumes "reflp eq" "symp eq" "transp eq"
  shows "length (sk_rest m 0 vs) = length oth \<Longrightarrow>
     sk_contains_loop eq vs oth m \<longleftrightarrow>
       (\<forall>y. size (filter_mset (eq y) (mset oth)) = size (filter_mset (eq y) (mset (sk_rest m 0 vs))))"
proof (induction oth arbitrary: m)
  case (Cons x oth)
  let ?r = "sk_rest m 0 vs"
  consider (none) "sk_match eq x m 0 vs = -1" "\<forall>v \<in> set ?r. \<not> eq v x"
    | (found) j w where "sk_match eq x m 0 vs = int j" "eq w x"
        "mset ?r = add_mset w (mset (sk_rest (gm_set j () m) 0 vs))"
    using sk_match_spec [of eq x m 0 vs] by blast
  then show ?case
  proof cases
    case none
    have "filter_mset (eq x) (mset ?r) = {#}"
      using none(2) assms(2) by (subst mset_filter [symmetric]) (auto simp: filter_empty_conv dest: sympD)
    moreover have "size (filter_mset (eq x) (mset (x # oth))) > 0" using assms(1) by (simp add: reflpD)
    ultimately have "size (filter_mset (eq x) (mset (x # oth))) \<noteq> size (filter_mset (eq x) (mset ?r))"
      by (metis less_irrefl size_empty)
    then have "\<not> (\<forall>y. size (filter_mset (eq y) (mset (x # oth))) = size (filter_mset (eq y) (mset ?r)))" by blast
    moreover have "\<not> sk_contains_loop eq vs (x # oth) m" using none(1) by simp
    ultimately show ?thesis by blast
  next
    case found
    let ?r' = "sk_rest (gm_set j () m) 0 vs"
    have "size (mset ?r) = Suc (size (mset ?r'))" using found(3) by simp
    then have "length ?r' = length oth" using Cons.prems by simp
    note IH = Cons.IH [OF this]
    have "eq y x \<longleftrightarrow> eq y w" for y using found(2) assms by (metis sympD transpD)
    then show ?thesis using found(1,3) IH by simp
  qed
qed simp

section \<open>Batches\<close>

lemma sk_batch_loop_spec:
  assumes "0 < n"
  shows "\<exists>blocks. sk_batch_loop vs (int n) (int k) out = Some (Some (out @ blocks)) \<and> concat blocks = drop k vs \<and>
     list_all (\<lambda>b. 0 < length b \<and> length b \<le> n) blocks \<and> list_all (\<lambda>b. length b = n) (butlast blocks)"
proof (induction "length vs - k" arbitrary: k out rule: less_induct)
  case less
  show ?case
  proof (cases "k < length vs")
    case False
    then show ?thesis by (subst sk_batch_loop.simps) simp
  next
    case True
    let ?b = "take n (drop k vs)"
    have "length vs - (k + n) < length vs - k" using True assms by simp
    from less [OF this, of "out @ [?b]"] obtain blocks where
      B: "sk_batch_loop vs (int n) (int (k + n)) (out @ [?b]) = Some (Some ((out @ [?b]) @ blocks))"
      "concat blocks = drop (k + n) vs" "list_all (\<lambda>b. 0 < length b \<and> length b \<le> n) blocks"
      "list_all (\<lambda>b. length b = n) (butlast blocks)" by blast
    have stop: "take (nat ((if \<not> int k + int n < int (length vs) then int (length vs) else int k + int n) - int k)) (drop k vs) = ?b"
    proof (cases "k + n < length vs")
      case True
      then have "\<not> \<not> int k + int n < int (length vs)" by linarith
      then show ?thesis by simp
    next
      case False
      then have "\<not> int k + int n < int (length vs)" by linarith
      with True False show ?thesis by (simp add: nat_diff_distrib)
    qed
    have "sk_batch_loop vs (int n) (int k) out = sk_batch_loop vs (int n) (int (k + n)) (out @ [?b])"
      using True by (subst sk_batch_loop.simps) (simp add: Let_def stop)
    moreover have "concat (?b # blocks) = drop k vs"
    proof -
      have "drop k vs = ?b @ drop (k + n) vs" by (metis append_take_drop_id drop_drop add.commute)
      with B(2) show ?thesis by simp
    qed
    moreover have "length ?b = n" if "blocks \<noteq> []"
    proof -
      from that B(3) have "concat blocks \<noteq> []" by (cases blocks) auto
      with B(2) show ?thesis by simp
    qed
    ultimately show ?thesis using B True assms by (intro exI [of _ "?b # blocks"]) simp
  qed
qed

lemma sk_batch_loop_zero:
  "sk_batch_loop vs sz i out = Some r \<Longrightarrow> sz = 0 \<longrightarrow> i = 0 \<longrightarrow> vs = []"
proof (rule sk_batch_loop.raw_induct [where P = "\<lambda>vs sz i out r. sz = 0 \<longrightarrow> i = 0 \<longrightarrow> vs = []"])
  fix loop :: "'a list \<Rightarrow> int \<Rightarrow> int \<Rightarrow> 'a list list \<Rightarrow> 'a list list option option" and vs sz i out r
  assume IH: "\<And>vs sz i out r. loop vs sz i out = Some r \<Longrightarrow> sz = 0 \<longrightarrow> i = 0 \<longrightarrow> vs = []"
    and eq: "(if \<not> (i < int (length vs)) then Some (Some out)
      else (let stop = (if \<not> (i + sz < int (length vs)) then int (length vs) else i + sz)
            in if i < 0 \<or> stop < i then Some None
               else loop vs sz (i + sz) (out @ [take (nat (stop - i)) (drop (nat i) vs)]))) = Some r"
  show "sz = 0 \<longrightarrow> i = 0 \<longrightarrow> vs = []"
    using eq IH by (auto simp: Let_def split: if_splits)
qed

section \<open>Removing duplicates\<close>

lemma sk_unique_loop_spec:
  assumes "distinct (map idf out)" "\<forall>i. gm_has seen i \<longleftrightarrow> i \<in> idf ` set out"
  shows "\<exists>new. sk_unique_loop idf vs seen out = out @ new \<and> distinct (map idf (out @ new)) \<and>
     set new \<subseteq> set vs \<and> idf ` set (out @ new) = idf ` set out \<union> idf ` set vs"
  using assms
proof (induction vs arbitrary: seen out)
  case Nil
  then show ?case by simp
next
  case (Cons v vs)
  show ?case
  proof (cases "gm_has seen (idf v)")
    case True
    then have "idf v \<in> idf ` set out" using Cons.prems(2) by blast
    with True Cons.IH [OF Cons.prems] show ?thesis by (auto simp: image_Un)
  next
    case False
    then have n: "idf v \<notin> idf ` set out" using Cons.prems(2) by blast
    with Cons.prems have "distinct (map idf (out @ [v]))"
      "\<forall>i. gm_has (gm_set (idf v) () seen) i \<longleftrightarrow> i \<in> idf ` set (out @ [v])" by auto
    from Cons.IH [OF this] obtain new where
      "sk_unique_loop idf vs (gm_set (idf v) () seen) (out @ [v]) = (out @ [v]) @ new"
      "distinct (map idf ((out @ [v]) @ new))" "set new \<subseteq> set vs"
      "idf ` set ((out @ [v]) @ new) = idf ` set (out @ [v]) \<union> idf ` set vs" by blast
    with False show ?thesis by (intro exI [of _ "v # new"]) auto
  qed
qed

section \<open>Counting\<close>

lemma sk_count_loop_spec:
  "sk_count_loop isNaN vs nan counts = (nan', counts') \<Longrightarrow>
     nan' = nan + int (length (filter isNaN vs)) \<and>
     (\<forall>v. gm_get_or 0 counts' v = gm_get_or 0 counts v + int (count (mset (filter (\<lambda>v. \<not> isNaN v) vs)) v))"
proof (induction vs arbitrary: nan counts)
  case (Cons x vs)
  show ?case
  proof (cases "isNaN x")
    case True
    with Cons.IH [of "nan + 1" counts] Cons.prems show ?thesis by simp
  next
    case False
    with Cons.IH [of nan "gm_set x (gm_get_or 0 counts x + 1) counts"] Cons.prems show ?thesis
      by (auto simp: gm_get_or_set)
  qed
qed simp

lemma sk_uncount_loop_spec:
  "(\<forall>v. gm_get_or 0 counts v = int (count M v)) \<Longrightarrow>
     sk_uncount_loop isNaN oth nan counts =
       (if mset (filter (\<lambda>v. \<not> isNaN v) oth) \<subseteq># M then Some (nan + int (length (filter isNaN oth))) else None)"
proof (induction oth arbitrary: nan counts M)
  case (Cons x oth)
  show ?case
  proof (cases "isNaN x")
    case True
    with Cons.IH [OF Cons.prems, of "nan + 1"] show ?thesis by simp
  next
    case False
    let ?c = "gm_set x (gm_get_or 0 counts x - 1) counts"
    show ?thesis
    proof (cases "x \<in># M")
      case True
      then have c: "\<forall>v. gm_get_or 0 ?c v = int (count (M - {#x#}) v)"
        using Cons.prems by (simp add: gm_get_or_set of_nat_diff)
      then have "\<not> gm_get_or 0 ?c x < 0" by (metis of_nat_less_0_iff)
      then have "sk_uncount_loop isNaN (x # oth) nan counts = sk_uncount_loop isNaN oth nan ?c"
        using False by (simp add: Let_def)
      moreover have "mset (filter (\<lambda>v. \<not> isNaN v) (x # oth)) \<subseteq># M \<longleftrightarrow>
          mset (filter (\<lambda>v. \<not> isNaN v) oth) \<subseteq># M - {#x#}"
        using False True by (simp add: insert_subset_eq_iff)
      ultimately show ?thesis using Cons.IH [OF c, of nan] False by simp
    next
      case notin: False
      then have "gm_get_or 0 ?c x < 0" using Cons.prems by (simp add: gm_get_or_set not_in_iff)
      moreover have "\<not> mset (filter (\<lambda>v. \<not> isNaN v) (x # oth)) \<subseteq># M"
        using notin False by (simp add: insert_subset_eq_iff)
      ultimately show ?thesis using False by (simp add: Let_def)
    qed
  qed
qed simp

section \<open>Properties\<close>

text \<open>ContainsExactly compares multisets. For an equality that is an equivalence it holds exactly when
  both slices have, for every value, the same number of elements equal to it; so with plain equality,
  exactly when one is a permutation of the other.\<close>

theorem sk_ContainsExactly_iff:
  assumes "reflp eq" "symp eq" "transp eq"
  shows "sk_ContainsExactly eq vs oth \<longleftrightarrow>
    length vs = length oth \<and>
    (\<forall>y. size (filter_mset (eq y) (mset oth)) = size (filter_mset (eq y) (mset vs)))"
  using sk_contains_loop_spec [OF assms, of "[]" vs oth] by (auto simp: sk_ContainsExactly_def)

text \<open>Batch partitions the slice. For a positive size it returns blocks whose concatenation is the slice,
  none of them empty, all of the given size but possibly the last, which is no longer; for size zero and
  a non-empty slice it does not return.\<close>

theorem sk_Batch_partition:
  "(0 < sz \<longrightarrow> (\<exists>out. sk_Batch vs sz = Some (Some out) \<and> concat out = vs \<and>
      list_all (\<lambda>b. 0 < length b \<and> int (length b) \<le> sz) out \<and>
      list_all (\<lambda>b. int (length b) = sz) (butlast out))) \<and>
   (vs \<noteq> [] \<longrightarrow> sk_Batch vs 0 = None)"
proof (intro conjI impI)
  assume "0 < sz"
  then obtain n where n: "sz = int n" "0 < n" by (metis pos_int_cases)
  show "\<exists>out. sk_Batch vs sz = Some (Some out) \<and> concat out = vs \<and>
      list_all (\<lambda>b. 0 < length b \<and> int (length b) \<le> sz) out \<and>
      list_all (\<lambda>b. int (length b) = sz) (butlast out)"
    using sk_batch_loop_spec [OF n(2), of vs 0 "[]"] by (simp add: sk_Batch_def n)
next
  assume "vs \<noteq> []"
  then show "sk_Batch vs 0 = None"
    using sk_batch_loop_zero [of vs 0 0 "[]"] by (cases "sk_Batch vs 0") (auto simp: sk_Batch_def)
qed


text \<open>UniqueBy keeps one element per ID, and Unique removes exactly the repetitions: the result has
  pairwise different IDs, only elements of the slice, and every ID of the slice.\<close>

theorem sk_UniqueBy_spec:
  "distinct (map idf (sk_UniqueBy vs idf)) \<and> set (sk_UniqueBy vs idf) \<subseteq> set vs \<and>
   idf ` set (sk_UniqueBy vs idf) = idf ` set vs \<and>
   distinct (sk_Unique vs) \<and> set (sk_Unique vs) = set vs"
  using sk_unique_loop_spec [of idf "[]" "[]" vs] sk_unique_loop_spec [of "\<lambda>v. v" "[]" "[]" vs]
  by (auto simp: sk_UniqueBy_def sk_Unique_def)

text \<open>the float comparison treats all NaNs as one value: float64ContainsExactly holds exactly when the
  slices agree as multisets outside NaN and have the same number of NaNs.\<close>

theorem sk_float64ContainsExactly_iff:
  "sk_float64ContainsExactly isNaN vs oth \<longleftrightarrow>
     mset (filter (\<lambda>v. \<not> isNaN v) vs) = mset (filter (\<lambda>v. \<not> isNaN v) oth) \<and>
     length (filter isNaN vs) = length (filter isNaN oth)"
proof -
  let ?V = "mset (filter (\<lambda>v. \<not> isNaN v) vs)" and ?O = "mset (filter (\<lambda>v. \<not> isNaN v) oth)"
  obtain nan counts where c: "sk_count_loop isNaN vs 0 [] = (nan, counts)" by (metis prod.exhaust)
  from sk_count_loop_spec [OF c] have nan: "nan = int (length (filter isNaN vs))"
    and "\<forall>v. gm_get_or 0 counts v = int (count ?V v)" by (simp_all add: gm_get_or_def)
  note un = sk_uncount_loop_spec [OF this(2), of isNaN oth 0]
  have len: "length xs = size (mset (filter (\<lambda>v. \<not> isNaN v) xs)) + length (filter isNaN xs)" for xs
    using sum_length_filter_compl [of isNaN xs] by (simp only: size_mset)
  show ?thesis
  proof
    assume "sk_float64ContainsExactly isNaN vs oth"
    then have l: "length vs = length oth" and s: "?O \<subseteq># ?V" "nan = int (length (filter isNaN oth))"
      using c un by (auto simp: sk_float64ContainsExactly_def split: if_splits)
    then have n: "length (filter isNaN vs) = length (filter isNaN oth)" using nan by simp
    with l have "size ?V = size ?O" using len [of vs] len [of oth] by linarith
    with s(1) n show "?V = ?O \<and> length (filter isNaN vs) = length (filter isNaN oth)"
      by (metis mset_subset_size order_less_irrefl subset_mset.le_less)
  next
    assume h: "?V = ?O \<and> length (filter isNaN vs) = length (filter isNaN oth)"
    then have "length vs = length oth" using len [of vs] len [of oth] by (metis)
    with h c un nan show "sk_float64ContainsExactly isNaN vs oth" by (simp add: sk_float64ContainsExactly_def)
  qed
qed

section \<open>Sorting\<close>

text \<open>What \<^verbatim>\<open>sort.Slice\<close> documents: a permutation, sorted when \<open>less\<close> is a strict weak order.\<close>

definition strict_weak :: "('a \<Rightarrow> 'a \<Rightarrow> bool) \<Rightarrow> bool" where
  "strict_weak lt \<longleftrightarrow> (\<forall>x y. lt x y \<longrightarrow> \<not> lt y x) \<and> (\<forall>x y z. \<not> lt x y \<and> \<not> lt y z \<longrightarrow> \<not> lt x z)"

definition sort_Slice :: "(('a \<Rightarrow> 'a \<Rightarrow> bool) \<Rightarrow> 'a list \<Rightarrow> 'a list) \<Rightarrow> bool" where
  "sort_Slice srt \<longleftrightarrow>
     (\<forall>lt xs. mset (srt lt xs) = mset xs \<and> (strict_weak lt \<longrightarrow> sorted_wrt (\<lambda>x y. \<not> lt y x) (srt lt xs)))"

lemma sort_Slice_mset: "sort_Slice srt \<Longrightarrow> mset (srt lt xs) = mset xs"
  by (simp add: sort_Slice_def)

lemma sort_Slice_set: "sort_Slice srt \<Longrightarrow> set (srt lt xs) = set xs"
  using sort_Slice_mset mset_eq_setD by blast

text \<open>An insertion sort, as the library's is for short slices.\<close>

fun insert_by :: "('a \<Rightarrow> 'a \<Rightarrow> bool) \<Rightarrow> 'a \<Rightarrow> 'a list \<Rightarrow> 'a list" where
  "insert_by lt x [] = [x]"
| "insert_by lt x (y # ys) = (if lt y x then y # insert_by lt x ys else x # y # ys)"

definition insertion_sort :: "('a \<Rightarrow> 'a \<Rightarrow> bool) \<Rightarrow> 'a list \<Rightarrow> 'a list" where
  "insertion_sort lt xs = foldr (insert_by lt) xs []"

lemma mset_insert_by: "mset (insert_by lt x xs) = add_mset x (mset xs)"
  by (induction xs) auto

lemma set_insert_by: "set (insert_by lt x xs) = insert x (set xs)"
  using mset_insert_by[of lt x xs] by (metis set_mset_add_mset_insert set_mset_mset)

lemma sorted_insert_by:
  assumes "strict_weak lt"
  shows "sorted_wrt (\<lambda>x y. \<not> lt y x) xs \<Longrightarrow> sorted_wrt (\<lambda>x y. \<not> lt y x) (insert_by lt x xs)"
proof (induction xs)
  case (Cons y ys)
  show ?case
  proof (cases "lt y x")
    case True
    then have "\<not> lt x y" using assms unfolding strict_weak_def by blast
    moreover have "sorted_wrt (\<lambda>x y. \<not> lt y x) (insert_by lt x ys)" "\<forall>z \<in> set ys. \<not> lt z y" using Cons by simp_all
    ultimately show ?thesis using True by (simp add: set_insert_by)
  next
    case False
    have "\<not> lt z x" if "z \<in> set (y # ys)" for z
    proof (cases "z = y")
      case True
      with False show ?thesis by simp
    next
      case zy: False
      then have "\<not> lt z y" using that Cons.prems by simp
      with False show ?thesis using assms unfolding strict_weak_def by blast
    qed
    with False Cons.prems show ?thesis by simp
  qed
qed simp

lemma mset_insertion_sort: "mset (insertion_sort lt xs) = mset xs"
  by (induction xs) (simp_all add: insertion_sort_def mset_insert_by)

lemma sorted_insertion_sort: "strict_weak lt \<Longrightarrow> sorted_wrt (\<lambda>x y. \<not> lt y x) (insertion_sort lt xs)"
  by (induction xs) (simp_all add: insertion_sort_def sorted_insert_by)

lemma insertion_sort_Slice: "sort_Slice insertion_sort"
  by (simp add: sort_Slice_def mset_insertion_sort sorted_insertion_sort)

lemma strict_weak_on: "strict_weak lt \<Longrightarrow> strict_weak (\<lambda>x y. lt (f x) (f y))"
  unfolding strict_weak_def by blast

text \<open>\<^verbatim>\<open>SortBy\<close>, with the \<^verbatim>\<open>sort.Slice\<close> of the library as its first argument.\<close>

definition sk_SortBy :: "(('a \<Rightarrow> 'a \<Rightarrow> bool) \<Rightarrow> 'a list \<Rightarrow> 'a list) \<Rightarrow> 'a list \<Rightarrow> ('a \<Rightarrow> 'a \<Rightarrow> bool) \<Rightarrow> 'a list" where
  "sk_SortBy srt vs lt = srt lt vs"

text \<open>It need not be stable, so the result is determined only when no two elements have the same key.\<close>

lemma strict_weak_key: "strict_weak (\<lambda>a b. f a < (f b :: 'k :: linorder))"
  by (auto simp: strict_weak_def)

lemma sk_SortBy_sorted:
  fixes f :: "'a \<Rightarrow> 'k :: linorder"
  assumes "sort_Slice srt"
  shows "sorted (map f (sk_SortBy srt xs (\<lambda>a b. f a < f b)))" "mset (sk_SortBy srt xs (\<lambda>a b. f a < f b)) = mset xs"
proof -
  have "sorted_wrt (\<lambda>x y. \<not> f y < f x) (srt (\<lambda>a b. f a < f b) xs)"
    using assms strict_weak_key[of f] unfolding sort_Slice_def by blast
  then show "sorted (map f (sk_SortBy srt xs (\<lambda>a b. f a < f b)))" by (simp add: sk_SortBy_def sorted_wrt_map not_less)
qed (simp add: sk_SortBy_def sort_Slice_mset[OF assms])

lemma sk_SortBy_inj:
  fixes f :: "'a \<Rightarrow> 'k :: linorder"
  assumes "sort_Slice srt" "inj_on f (set xs)"
  shows "sk_SortBy srt xs (\<lambda>a b. f a < f b) = sort_key f xs"
  using sk_SortBy_sorted[OF assms(1), where f = f and xs = xs] assms(2)
    sort_key_inj_key_eq[of xs "sk_SortBy srt xs (\<lambda>a b. f a < f b)" f] by simp

end
