(* ===== verification/LinkedList.thy ===== *)
theory LinkedList imports DsPort Slicekit begin

text \<open>
  \<^verbatim>\<open>port/ds/dslist/dslist.go\<close>: the doubly linked list. The elements live in a heap, a list of
  cells addressed by position, to which \<^verbatim>\<open>&llElem{...}\<close> appends; nothing is ever freed. A nil
  pointer is \<^term>\<open>None\<close>. Loops that follow \<^verbatim>\<open>next\<close> may not end on a cyclic heap, so the walk
  is a \<^theory_text>\<open>partial_function\<close>; on every list the operations build it ends.
\<close>

section \<open>Cells and lists\<close>

record 'a llElem =
  ll_data :: 'a
  ll_prev :: "nat option"
  ll_next :: "nat option"

record LinkedList =
  ll_head :: "nat option"
  ll_tail :: "nat option"
  ll_length :: int

type_synonym 'a heap = "'a llElem list"
type_synonym 'a lls = "'a heap \<times> LinkedList"

definition LinkedList_zero :: LinkedList where
  "LinkedList_zero = \<lparr>ll_head = None, ll_tail = None, ll_length = 0\<rparr>"

definition set_next :: "nat \<Rightarrow> nat option \<Rightarrow> 'a heap \<Rightarrow> 'a heap" where
  "set_next p q h = h[p := (h ! p)\<lparr>ll_next := q\<rparr>]"

definition set_prev :: "nat \<Rightarrow> nat option \<Rightarrow> 'a heap \<Rightarrow> 'a heap" where
  "set_prev p q h = h[p := (h ! p)\<lparr>ll_prev := q\<rparr>]"

section \<open>Iteration\<close>

text \<open>The body of a \<^verbatim>\<open>range\<close> over \<^verbatim>\<open>Values\<close> acts on a state of its own and says whether to go on.\<close>

partial_function (option) ll_walk ::
    "'a heap \<Rightarrow> nat option \<Rightarrow> ('a \<Rightarrow> 's \<Rightarrow> 's \<times> bool) \<Rightarrow> 's \<Rightarrow> 's option" where
  "ll_walk h current yield s =
     (case current of
        None \<Rightarrow> Some s
      | Some p \<Rightarrow>
          (case yield (ll_data (h ! p)) s of
             (s', cont) \<Rightarrow> if \<not> cont then Some s' else ll_walk h (ll_next (h ! p)) yield s'))"

declare ll_walk.simps [code]

definition ll_Values :: "'a lls \<Rightarrow> ('a \<Rightarrow> 's \<Rightarrow> 's \<times> bool) \<Rightarrow> 's \<Rightarrow> 's option" where
  "ll_Values st yield s = ll_walk (fst st) (ll_head (snd st)) yield s"

definition ll_ToSlice :: "'a lls \<Rightarrow> 'a list option option" where
  "ll_ToSlice st =
     ll_Values st (\<lambda>v vs. (Some ((case vs of None \<Rightarrow> [] | Some xs \<Rightarrow> xs) @ [v]), True)) None"

section \<open>Operations\<close>

definition ll_append :: "'a lls \<Rightarrow> 'a \<Rightarrow> 'a lls" where
  "ll_append st v =
     (case st of (h, ll) \<Rightarrow>
        let newNode = length h; h1 = h @ [\<lparr>ll_data = v, ll_prev = None, ll_next = None\<rparr>];
            (h3, ll1) =
              (case ll_tail ll of
                 None \<Rightarrow> (h1, ll\<lparr>ll_head := Some newNode, ll_tail := Some newNode\<rparr>)
               | Some prevTail \<Rightarrow>
                   (let h2 = set_next prevTail (Some newNode) h1
                    in (set_prev newNode (Some prevTail) h2, ll\<lparr>ll_tail := Some newNode\<rparr>)))
        in (h3, ll1\<lparr>ll_length := ll_length ll1 + 1\<rparr>))"

definition ll_Append :: "'a lls \<Rightarrow> 'a list \<Rightarrow> 'a lls" where
  "ll_Append st vs = foldl ll_append st vs"

definition ll_prepend :: "'a lls \<Rightarrow> 'a \<Rightarrow> 'a lls" where
  "ll_prepend st v =
     (case st of (h, ll) \<Rightarrow>
        let prevHead = ll_head ll; newHead = length h;
            h1 = h @ [\<lparr>ll_data = v, ll_prev = None, ll_next = prevHead\<rparr>];
            h2 = (case prevHead of None \<Rightarrow> h1 | Some p \<Rightarrow> set_prev p (Some newHead) h1);
            ll1 = ll\<lparr>ll_head := Some newHead\<rparr>;
            ll2 = (if ll_tail ll1 = None then ll1\<lparr>ll_tail := Some newHead\<rparr> else ll1)
        in (h2, ll2\<lparr>ll_length := ll_length ll2 + 1\<rparr>))"

definition ll_Prepend :: "'a lls \<Rightarrow> 'a list \<Rightarrow> 'a lls" where
  "ll_Prepend st vs =
     (if length vs = 0 then st else foldl (\<lambda>st (_, v). ll_prepend st v) st (sk_IterReverse vs))"

definition ll_Len :: "'a lls \<Rightarrow> int" where
  "ll_Len st = ll_length (snd st)"

definition ll_Shift :: "'a \<Rightarrow> 'a lls \<Rightarrow> ('a \<times> bool) \<times> 'a lls" where
  "ll_Shift zero st =
     (case st of (h, ll) \<Rightarrow>
        (case ll_head ll of
           None \<Rightarrow> ((zero, False), st)
         | Some first \<Rightarrow>
             (let ll1 = ll\<lparr>ll_head := ll_next (h ! first)\<rparr>;
                  h1 = (case ll_head ll1 of None \<Rightarrow> h | Some p \<Rightarrow> set_prev p None h);
                  ll2 = (if ll_head ll1 = None then ll1\<lparr>ll_tail := None\<rparr> else ll1)
              in ((ll_data (h1 ! first), True), (h1, ll2\<lparr>ll_length := ll_length ll2 - 1\<rparr>)))))"

definition ll_Pop :: "'a \<Rightarrow> 'a lls \<Rightarrow> ('a \<times> bool) \<times> 'a lls" where
  "ll_Pop zero st =
     (case st of (h, ll) \<Rightarrow>
        (case ll_tail ll of
           None \<Rightarrow> ((zero, False), st)
         | Some lst \<Rightarrow>
             (let prev = ll_prev (h ! lst);
                  h1 = (case prev of None \<Rightarrow> h | Some p \<Rightarrow> set_next p None h);
                  ll1 = (if prev = None then ll\<lparr>ll_head := None\<rparr> else ll);
                  ll2 = ll1\<lparr>ll_tail := prev\<rparr>
              in ((ll_data (h1 ! lst), True), (h1, ll2\<lparr>ll_length := ll_length ll2 - 1\<rparr>)))))"

definition ll_Lookup :: "'a \<Rightarrow> 'a lls \<Rightarrow> int \<Rightarrow> ('a \<times> bool) option" where
  "ll_Lookup zero st index =
     (if index < 0 then Some (zero, False)
      else if \<not> index < ll_length (snd st) then Some (zero, False)
      else (case ll_Values st
              (\<lambda>v (i, r). if i = index then ((i, Some (v, True)), False) else ((i + 1, r), True))
              (0 :: int, None) of
              None \<Rightarrow> None
            | Some (_, Some r) \<Rightarrow> Some r
            | Some (_, None) \<Rightarrow> Some (zero, False)))"

section \<open>What a heap represents\<close>

text \<open>\<open>ll_rep st ps\<close>: the cells \<open>ps\<close>, linked both ways in this order, are the list.\<close>

definition ll_at :: "'a heap \<Rightarrow> nat list \<Rightarrow> nat \<Rightarrow> bool" where
  "ll_at h ps i \<longleftrightarrow>
     ps ! i < length h \<and>
     ll_next (h ! (ps ! i)) = (if Suc i < length ps then Some (ps ! Suc i) else None) \<and>
     ll_prev (h ! (ps ! i)) = (if i = 0 then None else Some (ps ! (i - 1)))"

definition ll_rep :: "'a lls \<Rightarrow> nat list \<Rightarrow> bool" where
  "ll_rep st ps \<longleftrightarrow>
     distinct ps \<and> (\<forall>i < length ps. ll_at (fst st) ps i) \<and>
     ll_head (snd st) = (if ps = [] then None else Some (ps ! 0)) \<and>
     ll_tail (snd st) = (if ps = [] then None else Some (ps ! (length ps - 1))) \<and>
     ll_length (snd st) = int (length ps)"

definition ll_vals :: "'a heap \<Rightarrow> nat list \<Rightarrow> 'a list" where
  "ll_vals h ps = map (\<lambda>p. ll_data (h ! p)) ps"

lemma set_next_nth [simp]:
  "p < length h \<Longrightarrow> set_next p q h ! i = (if i = p then (h ! p)\<lparr>ll_next := q\<rparr> else h ! i)"
  by (auto simp: set_next_def nth_list_update_if)

lemma set_prev_nth [simp]:
  "p < length h \<Longrightarrow> set_prev p q h ! i = (if i = p then (h ! p)\<lparr>ll_prev := q\<rparr> else h ! i)"
  by (auto simp: set_prev_def nth_list_update_if)

lemma set_next_length [simp]: "length (set_next p q h) = length h"
  by (simp add: set_next_def)

lemma set_prev_length [simp]: "length (set_prev p q h) = length h"
  by (simp add: set_prev_def)

lemma ll_at_less: "\<forall>i < length ps. ll_at h ps i \<Longrightarrow> p \<in> set ps \<Longrightarrow> p < length h"
  by (auto simp: ll_at_def in_set_conv_nth)

lemma ll_rep_zero [simp]: "ll_rep (h, LinkedList_zero) []"
  by (simp add: ll_rep_def LinkedList_zero_def)

text \<open>Walking from the \<open>i\<close>-th cell.\<close>

lemma ll_walk_from:
  assumes "\<forall>i < length ps. ll_at h ps i"
  shows "i \<le> length ps \<Longrightarrow>
    ll_walk h (if i < length ps then Some (ps ! i) else None) yield s = Some (yield_all yield (ll_vals h (drop i ps)) s)"
proof (induction "length ps - i" arbitrary: i s)
  case 0
  then show ?case by (simp add: ll_walk.simps ll_vals_def)
next
  case (Suc d)
  then have i: "i < length ps" by simp
  then have nxt: "ll_next (h ! (ps ! i)) = (if Suc i < length ps then Some (ps ! Suc i) else None)"
    using assms by (simp add: ll_at_def)
  have d: "ll_vals h (drop i ps) = ll_data (h ! (ps ! i)) # ll_vals h (drop (Suc i) ps)"
    unfolding ll_vals_def Cons_nth_drop_Suc [OF i, symmetric] by simp
  have IH: "ll_walk h (if Suc i < length ps then Some (ps ! Suc i) else None) yield s' =
      Some (yield_all yield (ll_vals h (drop (Suc i) ps)) s')" for s'
    using Suc by simp
  show ?case
    by (subst ll_walk.simps) (simp add: i d nxt IH split: prod.split)
qed

lemma ll_Values_yields: "ll_rep st ps \<Longrightarrow> ll_Values st yield s = Some (yield_all yield (ll_vals (fst st) ps) s)"
  using ll_walk_from [of ps "fst st" 0 yield s] by (auto simp: ll_rep_def ll_Values_def split: if_splits)

lemma yield_all_collect:
  "yield_all (\<lambda>v vs. (Some ((case vs of None \<Rightarrow> [] | Some xs \<Rightarrow> xs) @ [v]), True)) vs acc =
     (if vs = [] then acc else Some ((case acc of None \<Rightarrow> [] | Some xs \<Rightarrow> xs) @ vs))"
  by (induction vs arbitrary: acc) auto

lemma ll_ToSlice_rep:
  "ll_rep st ps \<Longrightarrow> ll_ToSlice st = Some (if ps = [] then None else Some (ll_vals (fst st) ps))"
  by (simp add: ll_ToSlice_def ll_Values_yields yield_all_collect) (simp add: ll_vals_def)

lemma yield_all_index:
  "yield_all (\<lambda>v (i, r). if i = index then ((i, Some (v, True)), False) else ((i + 1, r), True)) vs (i, None) =
     (if i \<le> index \<and> index < i + int (length vs) then (index, Some (vs ! nat (index - i), True))
      else (i + int (length vs), None))"
  by (induction vs arbitrary: i) (auto simp: nth_Cons' nat_diff_distrib intro!: arg_cong2 [of _ _ _ _ nth])

lemma ll_Lookup_rep:
  "ll_rep st ps \<Longrightarrow> ll_Lookup z st index =
     Some (if 0 \<le> index \<and> index < int (length ps) then (ll_vals (fst st) ps ! nat index, True) else (z, False))"
  by (auto simp: ll_Lookup_def ll_Values_yields yield_all_index ll_rep_def ll_vals_def)

section \<open>Operations on represented lists\<close>

lemma ll_at_cong:
  "\<lbrakk>ll_at h ps i; length h \<le> length h'; ll_next (h' ! (ps ! i)) = ll_next (h ! (ps ! i));
    ll_prev (h' ! (ps ! i)) = ll_prev (h ! (ps ! i))\<rbrakk> \<Longrightarrow> ll_at h' ps i"
  by (auto simp: ll_at_def)

lemma nth_eq_iff: "distinct ps \<Longrightarrow> i < length ps \<Longrightarrow> j < length ps \<Longrightarrow> (ps ! i = ps ! j) = (i = j)"
  by (simp add: nth_eq_iff_index_eq)

lemma append_rep:
  fixes h :: "'a heap" and v :: 'a
  assumes R: "ll_rep (h, ll) ps"
  defines "st \<equiv> ll_append (h, ll) v"
  shows "ll_rep st (ps @ [length h])" "ll_vals (fst st) (ps @ [length h]) = ll_vals h ps @ [v]"
    "length (fst st) = Suc (length h)" "q < length h \<Longrightarrow> q \<notin> set ps \<Longrightarrow> fst st ! q = h ! q"
proof -
  have lt: "p < length h" if "p \<in> set ps" for p
    using R that ll_at_less [of ps h] by (simp add: ll_rep_def)
  have "length h \<notin> set ps" using lt by blast
  then have ne: "ps \<noteq> [] \<Longrightarrow> ps ! 0 \<noteq> length h" "ps \<noteq> [] \<Longrightarrow> ps ! (length ps - Suc 0) \<noteq> length h"
    by (metis length_greater_0_conv nth_mem, metis diff_less length_greater_0_conv nth_mem zero_less_Suc)
  have at: "ll_at h ps i" if "i < length ps" for i using R that by (simp add: ll_rep_def)
  have dst: "distinct ps" using R by (simp add: ll_rep_def)
  have cell: "fst st ! q = (if q = length h then \<lparr>ll_data = v, ll_prev = (if ps = [] then None else Some (ps ! (length ps - 1))), ll_next = None\<rparr>
      else if ps \<noteq> [] \<and> q = ps ! (length ps - 1) then (h ! q)\<lparr>ll_next := Some (length h)\<rparr> else h ! q)"
    if "q \<le> length h" for q
    using R that lt [of "ps ! (length ps - 1)"] ne
    by (auto simp: st_def ll_append_def ll_rep_def Let_def nth_append less_Suc_eq_le)
  have head: "snd st = \<lparr>ll_head = Some ((ps @ [length h]) ! 0), ll_tail = Some (length h), ll_length = int (Suc (length ps))\<rparr>"
    using R by (cases ll) (auto simp: st_def ll_append_def ll_rep_def Let_def nth_append)
  show len: "length (fst st) = Suc (length h)"
    by (simp add: st_def ll_append_def Let_def split: option.split)
  show "q < length h \<Longrightarrow> q \<notin> set ps \<Longrightarrow> fst st ! q = h ! q"
    using cell [of q] by auto
  show "ll_vals (fst st) (ps @ [length h]) = ll_vals h ps @ [v]"
    using cell lt \<open>length h \<notin> set ps\<close> by (auto simp: ll_vals_def less_imp_le)
  have "ll_at (fst st) (ps @ [length h]) i" if "i < Suc (length ps)" for i
  proof (cases "i = length ps")
    case True
    then show ?thesis using cell [of "length h"] by (auto simp: ll_at_def len nth_append)
  next
    case False
    with that have i: "i < length ps" by simp
    then have "ps ! i < length h" using lt by simp
    then show ?thesis
      using at [OF i] i nth_eq_iff [OF dst i, of "length ps - 1"] cell [of "ps ! i"]
      by (auto simp: ll_at_def len nth_append) 
  qed
  then show "ll_rep st (ps @ [length h])"
    using dst \<open>length h \<notin> set ps\<close> by (simp add: ll_rep_def head nth_append)
qed

lemma prepend_rep:
  fixes h :: "'a heap" and v :: 'a
  assumes R: "ll_rep (h, ll) ps"
  defines "st \<equiv> ll_prepend (h, ll) v"
  shows "ll_rep st (length h # ps)" "ll_vals (fst st) (length h # ps) = v # ll_vals h ps"
    "length (fst st) = Suc (length h)" "q < length h \<Longrightarrow> q \<notin> set ps \<Longrightarrow> fst st ! q = h ! q"
proof -
  have lt: "p < length h" if "p \<in> set ps" for p
    using R that ll_at_less [of ps h] by (simp add: ll_rep_def)
  have "length h \<notin> set ps" using lt by blast
  then have ne: "ps \<noteq> [] \<Longrightarrow> ps ! 0 \<noteq> length h" "ps \<noteq> [] \<Longrightarrow> ps ! (length ps - Suc 0) \<noteq> length h"
    by (metis length_greater_0_conv nth_mem, metis diff_less length_greater_0_conv nth_mem zero_less_Suc)
  have at: "ll_at h ps i" if "i < length ps" for i using R that by (simp add: ll_rep_def)
  have dst: "distinct ps" using R by (simp add: ll_rep_def)
  have cell: "fst st ! q = (if q = length h then \<lparr>ll_data = v, ll_prev = None, ll_next = (if ps = [] then None else Some (ps ! 0))\<rparr>
      else if ps \<noteq> [] \<and> q = ps ! 0 then (h ! q)\<lparr>ll_prev := Some (length h)\<rparr> else h ! q)"
    if "q \<le> length h" for q
    using R that lt [of "ps ! 0"] ne
    by (auto simp: st_def ll_prepend_def ll_rep_def Let_def nth_append less_Suc_eq_le)
  have head: "snd st = \<lparr>ll_head = Some (length h), ll_tail = Some ((length h # ps) ! length ps), ll_length = int (Suc (length ps))\<rparr>"
    using R by (cases ll) (auto simp: st_def ll_prepend_def ll_rep_def Let_def nth_Cons')
  show len: "length (fst st) = Suc (length h)"
    by (simp add: st_def ll_prepend_def Let_def split: option.split)
  show "q < length h \<Longrightarrow> q \<notin> set ps \<Longrightarrow> fst st ! q = h ! q"
    using cell [of q] by (auto simp: in_set_conv_nth)
  show "ll_vals (fst st) (length h # ps) = v # ll_vals h ps"
    using cell lt \<open>length h \<notin> set ps\<close> by (auto simp: ll_vals_def less_imp_le)
  have "ll_at (fst st) (length h # ps) i" if "i < Suc (length ps)" for i
  proof (cases i)
    case 0
    then show ?thesis using cell [of "length h"] by (auto simp: ll_at_def len)
  next
    case (Suc j)
    with that have j: "j < length ps" by simp
    then have "ps ! j < length h" using lt by simp
    then show ?thesis
      using at [OF j] j nth_eq_iff [OF dst j, of 0] cell [of "ps ! j"] Suc
      by (cases j) (auto simp: ll_at_def len)
  qed
  then show "ll_rep st (length h # ps)"
    using dst \<open>length h \<notin> set ps\<close> by (auto simp: ll_rep_def head)
qed

lemma shift_rep:
  assumes R: "ll_rep (h, ll) (p # ps)"
  shows "\<exists>h' ll'. ll_Shift z (h, ll) = ((ll_data (h ! p), True), (h', ll')) \<and> ll_rep (h', ll') ps \<and>
    ll_vals h' ps = ll_vals h ps \<and> length h' = length h \<and> (\<forall>q. q \<notin> set ps \<longrightarrow> h' ! q = h ! q)"
proof -
  have lt: "q < length h" if "q \<in> set (p # ps)" for q
    using R that ll_at_less [of "p # ps" h] by (simp add: ll_rep_def)
  have at: "ll_at h (p # ps) i" if "i \<le> length ps" for i using R that by (simp add: ll_rep_def)
  have dst: "distinct (p # ps)" using R by (simp add: ll_rep_def)
  show ?thesis
  proof (cases ps)
    case Nil
    then show ?thesis using R at [of 0] by (simp add: ll_Shift_def ll_rep_def ll_at_def Let_def ll_vals_def)
  next
    case (Cons p2 ps2)
    let ?h = "set_prev p2 None h"
    have "p2 < length h" using lt Cons by simp
    have "ll_at ?h ps i" if "i < length ps" for i
      using at [of "Suc i"] that dst Cons \<open>p2 < length h\<close> nth_mem [of "i - 1" ps2]
      by (cases i) (auto simp: ll_at_def)
    moreover have "ll_vals ?h ps = ll_vals h ps" using \<open>p2 < length h\<close> by (simp add: ll_vals_def)
    ultimately show ?thesis
      using R at [of 0] dst Cons \<open>p2 < length h\<close>
      by (auto simp: ll_Shift_def ll_rep_def Let_def ll_at_def [of h "p # p2 # ps2" 0])
  qed
qed

lemma pop_rep:
  assumes R: "ll_rep (h, ll) (ps @ [p])"
  shows "\<exists>h' ll'. ll_Pop z (h, ll) = ((ll_data (h ! p), True), (h', ll')) \<and> ll_rep (h', ll') ps \<and>
    ll_vals h' ps = ll_vals h ps \<and> length h' = length h \<and> (\<forall>q. q \<notin> set ps \<longrightarrow> h' ! q = h ! q)"
proof -
  have lt: "q < length h" if "q \<in> set (ps @ [p])" for q
    using R that ll_at_less [of "ps @ [p]" h] by (simp add: ll_rep_def)
  have at: "ll_at h (ps @ [p]) i" if "i \<le> length ps" for i using R that by (simp add: ll_rep_def)
  have dst: "distinct (ps @ [p])" using R by (simp add: ll_rep_def)
  show ?thesis
  proof (cases ps rule: rev_cases)
    case Nil
    then show ?thesis using R at [of 0] by (simp add: ll_Pop_def ll_rep_def ll_at_def Let_def ll_vals_def)
  next
    case (snoc ps2 p2)
    let ?h = "set_next p2 None h"
    have "p2 < length h" using lt snoc by simp
    have pv: "ll_prev (h ! p) = Some p2" using at [of "length ps"] snoc by (simp add: ll_at_def nth_append)
    have "ll_at ?h ps i" if "i < length ps" for i
    proof -
      have "ps ! i = p2 \<longleftrightarrow> i = length ps - 1"
        using nth_eq_iff [of ps i "length ps - 1"] dst that snoc by (simp add: nth_append)
      then show ?thesis
        using at [of i] that \<open>p2 < length h\<close> by (auto simp: ll_at_def nth_append)
    qed
    moreover have "ll_vals ?h ps = ll_vals h ps" using \<open>p2 < length h\<close> by (simp add: ll_vals_def)
    ultimately show ?thesis
      using R at [of "length ps"] dst snoc \<open>p2 < length h\<close>
      by (auto simp: ll_Pop_def ll_rep_def Let_def pv nth_append)
  qed
qed

section \<open>The list interface\<close>

text \<open>
  A list together with the cells below \<open>n\<close> that do not belong to it: \<open>ll_ok n h0\<close> holds of
  a state whose list is represented in the cells above, while the others are as in \<open>h0\<close>.
\<close>

definition ll_cells :: "'a lls \<Rightarrow> nat list \<Rightarrow> 'a heap \<Rightarrow> bool" where
  "ll_cells st ps h0 \<longleftrightarrow> ll_rep st ps \<and> length h0 \<le> length (fst st) \<and> (\<forall>p \<in> set ps. length h0 \<le> p) \<and>
     (\<forall>q < length h0. fst st ! q = h0 ! q)"

definition ll_ok :: "'a heap \<Rightarrow> 'a lls \<Rightarrow> bool" where
  "ll_ok h0 st \<longleftrightarrow> (\<exists>ps. ll_cells st ps h0)"

definition ll_list :: "'a lls \<Rightarrow> 'a list" where
  "ll_list st = (case ll_ToSlice st of Some (Some xs) \<Rightarrow> xs | _ \<Rightarrow> [])"

lemma ll_list_rep: "ll_rep st ps \<Longrightarrow> ll_list st = ll_vals (fst st) ps"
  by (simp add: ll_list_def ll_ToSlice_rep ll_vals_def)

lemma ll_cells_list: "ll_cells st ps h0 \<Longrightarrow> ll_list st = ll_vals (fst st) ps"
  by (simp add: ll_cells_def ll_list_rep)

lemma ll_ok_zero: "ll_ok h0 (h0, LinkedList_zero)" "ll_list (h0, LinkedList_zero) = []"
  using ll_list_rep [OF ll_rep_zero, of h0] by (auto simp: ll_ok_def ll_cells_def ll_vals_def intro!: exI [of _ "[]"])

lemma ll_append_ok: "ll_ok h0 st \<Longrightarrow> ll_ok h0 (ll_append st v) \<and> ll_list (ll_append st v) = ll_list st @ [v]"
proof -
  assume "ll_ok h0 st"
  then obtain h ll ps where st: "st = (h, ll)" and c: "ll_cells (h, ll) ps h0"
    by (cases st) (auto simp: ll_ok_def)
  then have R: "ll_rep (h, ll) ps" by (simp add: ll_cells_def)
  have "q \<notin> set ps \<and> q < length h" if "q < length h0" for q using c that by (auto simp: ll_cells_def)
  with append_rep [OF R, where v = v] c have "ll_cells (ll_append st v) (ps @ [length h]) h0"
    by (auto simp: ll_cells_def st)
  with append_rep(2) [OF R, where v = v] ll_cells_list [OF c] show ?thesis
    by (auto simp: ll_ok_def ll_cells_list st)
qed

lemma ll_prepend_ok: "ll_ok h0 st \<Longrightarrow> ll_ok h0 (ll_prepend st v) \<and> ll_list (ll_prepend st v) = v # ll_list st"
proof -
  assume "ll_ok h0 st"
  then obtain h ll ps where st: "st = (h, ll)" and c: "ll_cells (h, ll) ps h0"
    by (cases st) (auto simp: ll_ok_def)
  then have R: "ll_rep (h, ll) ps" by (simp add: ll_cells_def)
  have "q \<notin> set ps \<and> q < length h" if "q < length h0" for q using c that by (auto simp: ll_cells_def)
  with prepend_rep [OF R, where v = v] c have "ll_cells (ll_prepend st v) (length h # ps) h0"
    by (auto simp: ll_cells_def st)
  with prepend_rep(2) [OF R, where v = v] ll_cells_list [OF c] show ?thesis
    by (auto simp: ll_ok_def ll_cells_list st)
qed

interpretation llapp: appendable "ll_ok h0" ll_list ll_append "\<lambda>xs v. xs @ [v]" for h0 :: "'a heap"
  by unfold_locales (simp_all add: ll_append_ok)

lemma ll_Append_ok: "ll_ok h0 st \<Longrightarrow> ll_ok h0 (ll_Append st vs) \<and> ll_list (ll_Append st vs) = ll_list st @ vs"
  using llapp.foldl_ok [of h0 st vs] llapp.foldl_vals [of h0 st vs] by (auto simp: ll_Append_def foldl_snoc)

interpretation llpre: appendable "ll_ok h0" ll_list "\<lambda>st (p :: int \<times> 'a). ll_prepend st (snd p)" "\<lambda>xs p. snd p # xs" for h0 :: "'a heap"
  by unfold_locales (simp_all add: ll_prepend_ok)

lemma foldl_cons: "foldl (\<lambda>xs p. snd p # xs) acc ps = rev (map snd ps) @ acc"
  by (induction ps arbitrary: acc) simp_all

lemma ll_Prepend_ok: "ll_ok h0 st \<Longrightarrow> ll_ok h0 (ll_Prepend st vs) \<and> ll_list (ll_Prepend st vs) = vs @ ll_list st"
proof -
  assume ok: "ll_ok h0 st"
  have "(\<lambda>st (_, v). ll_prepend st v) = (\<lambda>st (p :: int \<times> 'a). ll_prepend st (snd p))"
    by (auto simp: fun_eq_iff)
  moreover have "rev (map snd (sk_IterReverse vs)) = vs"
    by (simp add: sk_IterReverse_def comp_def rev_map [symmetric] map_nth)
  ultimately show ?thesis
    using llpre.foldl_ok [OF ok] llpre.foldl_vals [OF ok] ok by (auto simp: ll_Prepend_def foldl_cons)
qed

lemma ll_Shift_ok:
  assumes "ll_ok h0 st"
  shows "ll_ok h0 (snd (ll_Shift z st)) \<and> ll_list (snd (ll_Shift z st)) = tl (ll_list st) \<and>
    fst (ll_Shift z st) = (if ll_list st = [] then (z, False) else (hd (ll_list st), True))"
proof -
  obtain h ll ps where st: "st = (h, ll)" and c: "ll_cells (h, ll) ps h0"
    using assms by (cases st) (auto simp: ll_ok_def)
  then have R: "ll_rep (h, ll) ps" by (simp add: ll_cells_def)
  show ?thesis
  proof (cases ps)
    case Nil
    then have "ll_Shift z st = ((z, False), st)" using R by (simp add: ll_Shift_def ll_rep_def st)
    then show ?thesis using assms ll_cells_list [OF c] Nil by (simp add: st ll_vals_def)
  next
    case (Cons p ps')
    obtain h' ll' where s: "ll_Shift z (h, ll) = ((ll_data (h ! p), True), (h', ll'))" "ll_rep (h', ll') ps'"
      "ll_vals h' ps' = ll_vals h ps'" "length h' = length h" "\<forall>q. q \<notin> set ps' \<longrightarrow> h' ! q = h ! q"
      using shift_rep [of h ll p ps' z] R Cons by blast
    have "q \<notin> set ps'" if "q < length h0" for q using c Cons that by (auto simp: ll_cells_def)
    then have c': "ll_cells (h', ll') ps' h0" using c Cons s by (auto simp: ll_cells_def)
    then show ?thesis using s(1,3) ll_cells_list [OF c] ll_cells_list [OF c'] Cons
      by (auto simp: st ll_ok_def ll_vals_def)
  qed
qed

lemma ll_Pop_ok:
  assumes "ll_ok h0 st"
  shows "ll_ok h0 (snd (ll_Pop z st)) \<and> ll_list (snd (ll_Pop z st)) = butlast (ll_list st) \<and>
    fst (ll_Pop z st) = (if ll_list st = [] then (z, False) else (last (ll_list st), True))"
proof -
  obtain h ll ps where st: "st = (h, ll)" and c: "ll_cells (h, ll) ps h0"
    using assms by (cases st) (auto simp: ll_ok_def)
  then have R: "ll_rep (h, ll) ps" by (simp add: ll_cells_def)
  show ?thesis
  proof (cases ps rule: rev_cases)
    case Nil
    then have "ll_Pop z st = ((z, False), st)" using R by (simp add: ll_Pop_def ll_rep_def st)
    then show ?thesis using assms ll_cells_list [OF c] Nil by (simp add: st ll_vals_def)
  next
    case (snoc ps' p)
    obtain h' ll' where s: "ll_Pop z (h, ll) = ((ll_data (h ! p), True), (h', ll'))" "ll_rep (h', ll') ps'"
      "ll_vals h' ps' = ll_vals h ps'" "length h' = length h" "\<forall>q. q \<notin> set ps' \<longrightarrow> h' ! q = h ! q"
      using pop_rep [of h ll ps' p z] R snoc by blast
    have "q \<notin> set ps'" if "q < length h0" for q using c snoc that by (auto simp: ll_cells_def)
    then have c': "ll_cells (h', ll') ps' h0" using c snoc s by (auto simp: ll_cells_def)
    then show ?thesis using s(1,3) ll_cells_list [OF c] ll_cells_list [OF c'] snoc
      by (auto simp: st ll_ok_def ll_vals_def butlast_append)
  qed
qed

lemma ll_reads_ok:
  assumes "ll_ok h0 st"
  shows "ll_Len st = int (length (ll_list st))"
    and "ll_ToSlice st = Some (if ll_list st = [] then None else Some (ll_list st))"
    and "ll_Lookup z st i = Some (if 0 \<le> i \<and> i < int (length (ll_list st)) then (ll_list st ! nat i, True) else (z, False))"
proof -
  obtain ps where c: "ll_cells st ps h0" using assms by (auto simp: ll_ok_def)
  then have R: "ll_rep st ps" by (simp add: ll_cells_def)
  note l = ll_cells_list [OF c]
  have len: "length (ll_vals (fst st) ps) = length ps" by (simp add: ll_vals_def)
  show "ll_Len st = int (length (ll_list st))" using R by (simp add: l len ll_Len_def ll_rep_def)
  show "ll_ToSlice st = Some (if ll_list st = [] then None else Some (ll_list st))"
    using ll_ToSlice_rep [OF R] by (simp add: l ll_vals_def)
  show "ll_Lookup z st i = Some (if 0 \<le> i \<and> i < int (length (ll_list st)) then (ll_list st ! nat i, True) else (z, False))"
    using ll_Lookup_rep [OF R] by (simp add: l len)
qed

section \<open>Properties\<close>

text \<open>Any sequence of calls, run on the linked list and on a plain list.\<close>

datatype 'a ll_call = CAppend "'a list" | CPrepend "'a list" | CShift | CPop | CLookup int | CLen | CToSlice

datatype 'a ll_result = RUnit | RVal "('a \<times> bool) option" | RLen int | RSlice "'a list option option"

fun ll_exec :: "'a \<Rightarrow> 'a ll_call \<Rightarrow> 'a lls \<Rightarrow> 'a ll_result \<times> 'a lls" where
  "ll_exec z (CAppend vs) st = (RUnit, ll_Append st vs)"
| "ll_exec z (CPrepend vs) st = (RUnit, ll_Prepend st vs)"
| "ll_exec z CShift st = (case ll_Shift z st of (r, st') \<Rightarrow> (RVal (Some r), st'))"
| "ll_exec z CPop st = (case ll_Pop z st of (r, st') \<Rightarrow> (RVal (Some r), st'))"
| "ll_exec z (CLookup i) st = (RVal (ll_Lookup z st i), st)"
| "ll_exec z CLen st = (RLen (ll_Len st), st)"
| "ll_exec z CToSlice st = (RSlice (ll_ToSlice st), st)"

fun list_exec :: "'a \<Rightarrow> 'a ll_call \<Rightarrow> 'a list \<Rightarrow> 'a ll_result \<times> 'a list" where
  "list_exec z (CAppend vs) xs = (RUnit, xs @ vs)"
| "list_exec z (CPrepend vs) xs = (RUnit, vs @ xs)"
| "list_exec z CShift xs = (RVal (Some (if xs = [] then (z, False) else (hd xs, True))), tl xs)"
| "list_exec z CPop xs = (RVal (Some (if xs = [] then (z, False) else (last xs, True))), butlast xs)"
| "list_exec z (CLookup i) xs =
     (RVal (Some (if 0 \<le> i \<and> i < int (length xs) then (xs ! nat i, True) else (z, False))), xs)"
| "list_exec z CLen xs = (RLen (int (length xs)), xs)"
| "list_exec z CToSlice xs = (RSlice (Some (if xs = [] then None else Some xs)), xs)"

fun run_calls :: "('c \<Rightarrow> 's \<Rightarrow> 'r \<times> 's) \<Rightarrow> 'c list \<Rightarrow> 's \<Rightarrow> 'r list \<times> 's" where
  "run_calls ex [] s = ([], s)"
| "run_calls ex (c # cs) s = (case ex c s of (r, s') \<Rightarrow> case run_calls ex cs s' of (rs, s'') \<Rightarrow> (r # rs, s''))"

lemma ll_exec_step:
  "ll_ok h0 st \<Longrightarrow> ll_ok h0 (snd (ll_exec z c st)) \<and>
     list_exec z c (ll_list st) = (fst (ll_exec z c st), ll_list (snd (ll_exec z c st)))"
  using ll_Append_ok [of h0 st] ll_Prepend_ok [of h0 st] ll_Shift_ok [of h0 st z] ll_Pop_ok [of h0 st z] ll_reads_ok [of h0 st]
  by (cases c) (auto split: prod.split simp: prod_eq_iff)

lemma ll_run_calls:
  "ll_ok h0 st \<Longrightarrow> ll_ok h0 (snd (run_calls (ll_exec z) cs st)) \<and>
     run_calls (list_exec z) cs (ll_list st) =
       (fst (run_calls (ll_exec z) cs st), ll_list (snd (run_calls (ll_exec z) cs st)))"
proof (induction cs arbitrary: st)
  case (Cons c cs)
  then show ?case using ll_exec_step [OF Cons.prems, of z c] by (auto split: prod.split simp: prod_eq_iff)
qed simp

text \<open>C9: the doubly linked list implements a list. Whatever the sequence of calls on a new linked list, each
  call returns what it returns on the plain list, every iteration ends, and no cell that existed before (of any
  other linked list) is changed.\<close>

theorem ll_refines_list:
  "fst (run_calls (ll_exec z) cs (h, LinkedList_zero)) = fst (run_calls (list_exec z) cs []) \<and>
   ll_ToSlice (snd (run_calls (ll_exec z) cs (h, LinkedList_zero))) =
     Some (case snd (run_calls (list_exec z) cs []) of [] \<Rightarrow> None | xs \<Rightarrow> Some xs) \<and>
   take (length h) (fst (snd (run_calls (ll_exec z) cs (h, LinkedList_zero)))) = h"
proof -
  let ?r = "run_calls (ll_exec z) cs (h, LinkedList_zero)"
  have ok: "ll_ok h (snd ?r)" and eq: "run_calls (list_exec z) cs [] = (fst ?r, ll_list (snd ?r))"
    using ll_run_calls [OF ll_ok_zero(1), of h z cs] by (simp_all add: ll_ok_zero(2))
  from ok have "length h \<le> length (fst (snd ?r))" "\<forall>q < length h. fst (snd ?r) ! q = h ! q"
    by (auto simp: ll_ok_def ll_cells_def)
  then show ?thesis
    using ll_reads_ok(2) [OF ok] eq by (auto split: list.split intro: nth_equalityI)
qed

end
