(* ===== verification/Mapkit.thy ===== *)
theory Mapkit imports Prelude begin

text \<open>
  \<^verbatim>\<open>pkg/mapkit/mapkit.go\<close>. The order of an association list is the order in which the loop
  visits the map; where the code tells nil from an empty map the map is optional. Errors have
  an arbitrary type.
\<close>

section \<open>Mapping, reducing, filtering\<close>

fun mk_map_loop ::
    "('ik \<Rightarrow> 'iv \<Rightarrow> 'ok \<times> 'ov \<times> 'e option) \<Rightarrow> ('ik, 'iv) gomap \<Rightarrow> ('ok, 'ov) gomap \<Rightarrow> ('ok, 'ov) gomap \<times> 'e option" where
  "mk_map_loop mapper [] out = (out, None)"
| "mk_map_loop mapper ((ik, iv) # m) out =
     (case mapper ik iv of (k, v, err) \<Rightarrow>
        if err \<noteq> None then (out, err) else mk_map_loop mapper m (gm_set k v out))"

definition mk_MapErr ::
    "('ik, 'iv) gomap option \<Rightarrow> ('ik \<Rightarrow> 'iv \<Rightarrow> 'ok \<times> 'ov \<times> 'e option) \<Rightarrow> ('ok, 'ov) gomap option \<times> 'e option" where
  "mk_MapErr m mapper =
     (case m of None \<Rightarrow> (None, None)
      | Some kvs \<Rightarrow> (case mk_map_loop mapper kvs [] of (out, err) \<Rightarrow> (Some out, err)))"

definition mk_Map :: "('ik, 'iv) gomap option \<Rightarrow> ('ik \<Rightarrow> 'iv \<Rightarrow> 'ok \<times> 'ov) \<Rightarrow> ('ok, 'ov) gomap option" where
  "mk_Map m mapper =
     fst (mk_MapErr m (\<lambda>ik iv. case mapper ik iv of (k, v) \<Rightarrow> (k, v, None :: unit option)))"

fun mk_ReduceErr :: "('k, 'v) gomap \<Rightarrow> 'o \<Rightarrow> ('o \<Rightarrow> 'k \<Rightarrow> 'v \<Rightarrow> 'o \<times> 'e option) \<Rightarrow> 'o \<times> 'e option" where
  "mk_ReduceErr [] result reducer = (result, None)"
| "mk_ReduceErr ((k, v) # m) result reducer =
     (case reducer result k v of (x, err) \<Rightarrow>
        if err \<noteq> None then (result, err) else mk_ReduceErr m x reducer)"

definition mk_Reduce :: "('k, 'v) gomap \<Rightarrow> 'o \<Rightarrow> ('o \<Rightarrow> 'k \<Rightarrow> 'v \<Rightarrow> 'o) \<Rightarrow> 'o" where
  "mk_Reduce m initial reducer = fst (mk_ReduceErr m initial (\<lambda>x k v. (reducer x k v, None :: unit option)))"

fun mk_filter_loop ::
    "('k \<Rightarrow> 'v \<Rightarrow> bool \<times> 'e option) \<Rightarrow> ('k, 'v) gomap \<Rightarrow> ('k, 'v) gomap \<Rightarrow> ('k, 'v) gomap option \<times> 'e option" where
  "mk_filter_loop flt [] out = (Some out, None)"
| "mk_filter_loop flt ((k, v) # m) out =
     (case flt k v of (b, err) \<Rightarrow>
        if err \<noteq> None then (None, err)
        else mk_filter_loop flt m (if b then gm_set k v out else out))"

definition mk_FilterErr :: "('k, 'v) gomap \<Rightarrow> ('k \<Rightarrow> 'v \<Rightarrow> bool \<times> 'e option) \<Rightarrow> ('k, 'v) gomap option \<times> 'e option" where
  "mk_FilterErr m flt = mk_filter_loop flt m []"

definition mk_Filter :: "('k, 'v) gomap \<Rightarrow> ('k \<Rightarrow> 'v \<Rightarrow> bool) \<Rightarrow> ('k, 'v) gomap option" where
  "mk_Filter m flt = fst (mk_FilterErr m (\<lambda>k v. (flt k v, None :: unit option)))"

section \<open>Keys, values, entries\<close>

text \<open>A slice built by \<^verbatim>\<open>append\<close> from nil is nil when nothing is appended; sorting leaves nil alone.\<close>

definition mk_Keys :: "('k, 'v) gomap \<Rightarrow> ('k list \<Rightarrow> 'k list) list \<Rightarrow> 'k list option" where
  "mk_Keys m sorts = (if m = [] then None else Some (fold (\<lambda>srt ks. srt ks) sorts (map fst m)))"

definition mk_Values :: "('k, 'v) gomap \<Rightarrow> ('v list \<Rightarrow> 'v list) list \<Rightarrow> 'v list option" where
  "mk_Values m sorts = (if m = [] then None else Some (fold (\<lambda>srt vs. srt vs) sorts (map snd m)))"

record ('k, 'v) Entry =
  entry_Key :: 'k
  entry_Value :: 'v

definition mk_ToSlice :: "('k, 'v) gomap option \<Rightarrow> ('k, 'v) Entry list option" where
  "mk_ToSlice m =
     (case m of None \<Rightarrow> None
      | Some kvs \<Rightarrow>
          if length kvs = 0 then Some []
          else Some (fold (\<lambda>(k, v) entries. entries @ [\<lparr>entry_Key = k, entry_Value = v\<rparr>]) kvs []))"

definition mk_Merge :: "('k, 'v) gomap list \<Rightarrow> ('k, 'v) gomap" where
  "mk_Merge maps = fold (\<lambda>kvs out. gm_copy_into kvs out) maps []"

definition mk_Clone :: "('k, 'v) gomap \<Rightarrow> ('k, 'v) gomap" where
  "mk_Clone m = gm_copy_into m []"

definition mk_Lookup :: "'v \<Rightarrow> ('k, 'v) gomap option \<Rightarrow> 'k \<Rightarrow> 'v \<times> bool" where
  "mk_Lookup zero m k =
     (case m of None \<Rightarrow> (zero, False)
      | Some kvs \<Rightarrow> (case gm_get kvs k of None \<Rightarrow> (zero, False) | Some v \<Rightarrow> (v, True)))"

section \<open>What they compute, whatever the order of the loops\<close>

lemma mk_filter_loop_get:
  "gm_wf m \<Longrightarrow> \<exists>r. mk_filter_loop (\<lambda>k v. (p k v, None :: unit option)) m out = (Some r, None) \<and>
     map_of r = (\<lambda>k. case map_of m k of Some v \<Rightarrow> if p k v then Some v else map_of out k | None \<Rightarrow> map_of out k)"
proof (induction m arbitrary: out)
  case (Cons kv m)
  obtain k v where kv: "kv = (k, v)" by (cases kv)
  from Cons.prems have "map_of m k = None" "gm_wf m" by (simp_all add: kv gm_wf_Cons)
  then show ?case
    using Cons.IH [of "if p k v then gm_set k v out else out"] by (force simp: kv fun_eq_iff split: option.split)
qed simp

lemma mk_Filter_get:
  "gm_wf m \<Longrightarrow> \<exists>r. mk_Filter m p = Some r \<and>
     (\<forall>k. map_of r k = (case map_of m k of Some v \<Rightarrow> if p k v then Some v else None | None \<Rightarrow> None))"
  using mk_filter_loop_get [of m p "[]"] by (force simp: mk_Filter_def mk_FilterErr_def split: option.split)

lemma mk_Clone_get: "gm_wf m \<Longrightarrow> map_of (mk_Clone m) = map_of m"
  by (simp add: mk_Clone_def gm_get_copy_into)

lemma mk_Merge_get:
  "list_all gm_wf maps \<Longrightarrow> map_of (mk_Merge maps) = fold (\<lambda>m acc. acc ++ map_of m) maps Map.empty"
proof -
  have "list_all gm_wf maps \<Longrightarrow>
      map_of (fold (\<lambda>kvs out. gm_copy_into kvs out) maps out) = fold (\<lambda>m acc. acc ++ map_of m) maps (map_of out)" for out
    by (induction maps arbitrary: out) (simp_all add: gm_get_copy_into)
  from this [of "[]"] show "list_all gm_wf maps \<Longrightarrow> ?thesis" by (simp add: mk_Merge_def)
qed

lemma mk_Keys_set: "mk_Keys m [sort] = Some ks \<Longrightarrow> set ks = dom (map_of m) \<and> sorted ks \<and> (gm_wf m \<longrightarrow> distinct ks)"
  by (clarsimp simp: mk_Keys_def dom_map_of_conv_image_fst gm_wf_def split: if_splits)

end
