(* ===== verification/OrderedSet.thy ===== *)
theory OrderedSet imports DsPort Slicekit Mapkit begin

text \<open>
  \<^verbatim>\<open>port/ds/dsset/dsset.go\<close> and the map of \<^verbatim>\<open>port/ds/dsmap/dsmap.go\<close>. A nil map is the empty
  one: every write goes through \<^verbatim>\<open>init\<close> first. The pointers of \<^verbatim>\<open>OrderedSet.is\<close> are never
  written through, so the values stand for them; following a missing pointer panics, which is
  \<^term>\<open>None\<close> for the operations that can.
\<close>

section \<open>Set\<close>

type_synonym 'a dsset = "('a, unit) gomap option"

definition ds_items :: "'a dsset \<Rightarrow> ('a, unit) gomap" where
  "ds_items s = (case s of None \<Rightarrow> [] | Some m \<Rightarrow> m)"

definition Set_Append :: "'a dsset \<Rightarrow> 'a list \<Rightarrow> 'a dsset" where
  "Set_Append s vs = Some (fold (\<lambda>v m. gm_set v () m) vs (ds_items s))"

definition Set_FromSlice :: "'a dsset \<Rightarrow> 'a list \<Rightarrow> 'a dsset" where
  "Set_FromSlice s vs = Set_Append s vs"

definition Set_ToSlice :: "'a dsset option \<Rightarrow> 'a list option" where
  "Set_ToSlice s = (case s of None \<Rightarrow> None | Some m \<Rightarrow> Some (map fst (ds_items m)))"

definition Set_Len :: "'a dsset \<Rightarrow> int" where
  "Set_Len s = int (length (ds_items s))"

definition Set_Contains :: "'a dsset \<Rightarrow> 'a \<Rightarrow> bool" where
  "Set_Contains s x = (case s of None \<Rightarrow> False | Some m \<Rightarrow> gm_has m x)"

section \<open>Map\<close>

type_synonym ('k, 'v) dsmap = "('k, 'v) gomap option"

definition dm_items :: "('k, 'v) dsmap \<Rightarrow> ('k, 'v) gomap" where
  "dm_items m = (case m of None \<Rightarrow> [] | Some kvs \<Rightarrow> kvs)"

definition Map_Lookup :: "'v \<Rightarrow> ('k, 'v) dsmap \<Rightarrow> 'k \<Rightarrow> 'v \<times> bool" where
  "Map_Lookup zero m key = (case gm_get (dm_items m) key of None \<Rightarrow> (zero, False) | Some v \<Rightarrow> (v, True))"

definition Map_Get :: "'v \<Rightarrow> ('k, 'v) dsmap \<Rightarrow> 'k \<Rightarrow> 'v" where
  "Map_Get zero m key = gm_get_or zero (dm_items m) key"

definition Map_Set :: "('k, 'v) dsmap \<Rightarrow> 'k \<Rightarrow> 'v \<Rightarrow> ('k, 'v) dsmap" where
  "Map_Set m key val = Some (gm_set key val (case m of None \<Rightarrow> [] | Some kvs \<Rightarrow> kvs))"

definition Map_Delete :: "('k, 'v) dsmap \<Rightarrow> 'k \<Rightarrow> ('k, 'v) dsmap" where
  "Map_Delete m key = (case m of None \<Rightarrow> None | Some kvs \<Rightarrow> Some (gm_del key kvs))"

definition Map_Len :: "('k, 'v) dsmap \<Rightarrow> int" where
  "Map_Len m = int (length (dm_items m))"

section \<open>OrderedSet\<close>

record 'a OrderedSet =
  os_vs :: "('a, unit) gomap"
  os_is :: "(int, 'a) gomap"

definition OrderedSet_zero :: "'a OrderedSet" where
  "OrderedSet_zero = \<lparr>os_vs = [], os_is = []\<rparr>"

definition os_len :: "'a OrderedSet \<Rightarrow> int" where
  "os_len s = int (length (os_vs s))"

definition os_add :: "int \<Rightarrow> 'a \<Rightarrow> 'a OrderedSet \<Rightarrow> 'a OrderedSet" where
  "os_add index v s =
     (if gm_has (os_vs s) v then s
      else s\<lparr>os_vs := gm_set v () (os_vs s), os_is := gm_set index v (os_is s)\<rparr>)"

definition os_app1 :: "'a OrderedSet \<Rightarrow> 'a \<Rightarrow> 'a OrderedSet" where
  "os_app1 s v = os_add (os_len s) v s"

definition os_Append :: "'a OrderedSet \<Rightarrow> 'a list \<Rightarrow> 'a OrderedSet" where
  "os_Append s vs = foldl os_app1 s vs"

definition os_FromSlice :: "'a OrderedSet \<Rightarrow> 'a list \<Rightarrow> 'a OrderedSet" where
  "os_FromSlice s vs = os_Append s vs"

definition os_Lookup :: "'a \<Rightarrow> 'a OrderedSet \<Rightarrow> int \<Rightarrow> 'a \<times> bool" where
  "os_Lookup zero s index =
     (case ResolveIndex (os_len s) index of
        (_, False) \<Rightarrow> (zero, False)
      | (index, True) \<Rightarrow> (case gm_get (os_is s) index of Some k \<Rightarrow> (k, True) | None \<Rightarrow> (zero, False)))"

definition os_Set :: "'a \<Rightarrow> 'a OrderedSet \<Rightarrow> int \<Rightarrow> 'a \<Rightarrow> bool \<times> 'a OrderedSet" where
  "os_Set zero s index v =
     (case os_Lookup zero s index of
        (_, False) \<Rightarrow> (False, s)
      | (cur, True) \<Rightarrow>
          (True, os_add index v (s\<lparr>os_vs := gm_del cur (os_vs s), os_is := gm_del index (os_is s)\<rparr>)))"

definition os_indexes :: "'a OrderedSet \<Rightarrow> int list option" where
  "os_indexes s = mk_Keys (os_is s) [sort]"

fun os_offset_loop :: "int \<Rightarrow> int list \<Rightarrow> (int, 'a) gomap \<Rightarrow> (int, 'a) gomap option" where
  "os_offset_loop offset [] m = Some m"
| "os_offset_loop offset (currentIndex # idxs) m =
     (case gm_get m currentIndex of
        None \<Rightarrow> None
      | Some ptr \<Rightarrow>
          (let newIndex = currentIndex + offset; m1 = gm_del currentIndex m
           in if gm_has m1 newIndex then None
              else os_offset_loop offset idxs (gm_set newIndex ptr m1)))"

definition os_offsetIndexesBy :: "int \<Rightarrow> int \<Rightarrow> 'a OrderedSet \<Rightarrow> 'a OrderedSet option" where
  "os_offsetIndexesBy fromIndex offset s =
     (let idxs = (case sk_Filter (os_indexes s) (\<lambda>v. fromIndex \<le> v) of None \<Rightarrow> [] | Some l \<Rightarrow> l);
          idxs = (if 0 < offset then rev idxs else idxs)
      in case os_offset_loop offset idxs (os_is s) of None \<Rightarrow> None | Some m \<Rightarrow> Some (s\<lparr>os_is := m\<rparr>))"

definition os_Delete :: "'a OrderedSet \<Rightarrow> int \<Rightarrow> (bool \<times> 'a OrderedSet) option" where
  "os_Delete s index =
     (case ResolveIndex (os_len s) index of
        (_, False) \<Rightarrow> Some (False, s)
      | (index, True) \<Rightarrow>
          (case gm_get (os_is s) index of
             None \<Rightarrow> Some (False, s)
           | Some ptr \<Rightarrow>
               (case os_offsetIndexesBy (index + 1) (-1)
                       (s\<lparr>os_is := gm_del index (os_is s), os_vs := gm_del ptr (os_vs s)\<rparr>) of
                  None \<Rightarrow> None
                | Some s' \<Rightarrow> Some (True, s'))))"

fun os_add_each :: "int \<Rightarrow> 'a list \<Rightarrow> 'a OrderedSet \<Rightarrow> 'a OrderedSet" where
  "os_add_each index [] s = s"
| "os_add_each index (v # vs) s = os_add_each (index + 1) vs (os_add index v s)"

definition os_Insert :: "'a \<Rightarrow> 'a OrderedSet \<Rightarrow> int \<Rightarrow> 'a list \<Rightarrow> (bool \<times> 'a OrderedSet) option" where
  "os_Insert zero s index vs =
     (if length vs = 0 then Some (True, s)
      else case ResolveIndex (os_len s) index of (index, ok) \<Rightarrow>
        if \<not> ok \<and> index \<noteq> os_len s then Some (False, s)
        else if \<not> snd (os_Lookup zero s index) then
          (if index = os_len s then Some (True, os_Append s vs) else Some (False, s))
        else (case os_offsetIndexesBy index (int (length vs)) s of
                None \<Rightarrow> None
              | Some s' \<Rightarrow> Some (True, os_add_each index vs s')))"

definition os_Contains :: "'a OrderedSet \<Rightarrow> 'a \<Rightarrow> bool" where
  "os_Contains s v = gm_has (os_vs s) v"

text \<open>\<^verbatim>\<open>out[i] = *ptr\<close> for every entry of \<^verbatim>\<open>is\<close>; an index outside \<^verbatim>\<open>out\<close> panics.\<close>

fun os_fill :: "(int, 'a) gomap \<Rightarrow> 'a list \<Rightarrow> 'a list option" where
  "os_fill [] out = Some out"
| "os_fill ((i, v) # m) out =
     (if 0 \<le> i \<and> i < int (length out) then os_fill m (out[nat i := v]) else None)"

definition os_ToSlice :: "'a \<Rightarrow> 'a OrderedSet \<Rightarrow> 'a list option" where
  "os_ToSlice zero s = os_fill (os_is s) (replicate (length (os_is s)) zero)"

definition os_Len :: "'a OrderedSet \<Rightarrow> int" where
  "os_Len s = os_len s"

text \<open>The values yielded before the end of the iteration or its panic, and whether it panicked.\<close>

fun os_values_loop :: "(int, 'a) gomap \<Rightarrow> int list \<Rightarrow> 'a list \<times> bool" where
  "os_values_loop m [] = ([], False)"
| "os_values_loop m (i # idxs) =
     (case gm_get m i of
        None \<Rightarrow> ([], True)
      | Some v \<Rightarrow> (case os_values_loop m idxs of (vs, panicked) \<Rightarrow> (v # vs, panicked)))"

definition os_Values :: "'a OrderedSet \<Rightarrow> 'a list \<times> bool" where
  "os_Values s = os_values_loop (os_is s) (map int [0..<length (os_is s)])"

section \<open>What an ordered set represents\<close>

definition os_rep :: "'a OrderedSet \<Rightarrow> 'a list \<Rightarrow> bool" where
  "os_rep s xs \<longleftrightarrow>
     distinct xs \<and> gm_wf (os_vs s) \<and> gm_wf (os_is s) \<and> dom (map_of (os_vs s)) = set xs \<and>
     (\<forall>i. map_of (os_is s) i = (if 0 \<le> i \<and> i < int (length xs) then Some (xs ! nat i) else None))"

lemma os_rep_len: "os_rep s xs \<Longrightarrow> os_len s = int (length xs)"
  by (simp add: os_rep_def os_len_def gm_wf_length distinct_card)

lemma dom_is: "os_rep s xs \<Longrightarrow> dom (map_of (os_is s)) = {0..<int (length xs)}"
  by (auto simp: os_rep_def split: if_splits)

lemma os_rep_is_length: "os_rep s xs \<Longrightarrow> length (os_is s) = length xs"
  using dom_is [of s xs] gm_wf_length [of "os_is s"] by (simp add: os_rep_def)

lemma os_rep_has: "os_rep s xs \<Longrightarrow> (\<exists>u. map_of (os_vs s) v = Some u) \<longleftrightarrow> v \<in> set xs"
  unfolding os_rep_def by blast

lemma os_rep_zero: "os_rep OrderedSet_zero []"
  by (simp add: os_rep_def OrderedSet_zero_def)

lemma os_rep_app1: "os_rep s xs \<Longrightarrow> os_rep (os_app1 s v) (ins_new xs v)"
  using os_rep_len [of s xs] os_rep_has [of s xs v]
  by (auto simp: os_app1_def os_add_def ins_new_def os_rep_def nth_append)

text \<open>Reading the list back.\<close>

definition os_list :: "'a OrderedSet \<Rightarrow> 'a list" where
  "os_list s = fst (os_Values s)"

definition os_ok :: "'a OrderedSet \<Rightarrow> bool" where
  "os_ok s \<longleftrightarrow> os_rep s (os_list s)"

lemma os_values_loop_all:
  "\<forall>i \<in> set idxs. map_of m i = Some (f i) \<Longrightarrow> os_values_loop m idxs = (map f idxs, False)"
  by (induction idxs) auto

lemma os_Values_rep: "os_rep s xs \<Longrightarrow> os_Values s = (xs, False)"
proof -
  assume R: "os_rep s xs"
  have "os_values_loop (os_is s) (map int [0..<length xs]) = (map (\<lambda>i. xs ! nat i) (map int [0..<length xs]), False)"
    by (rule os_values_loop_all) (use R in \<open>auto simp: os_rep_def\<close>)
  then show ?thesis
    using os_rep_is_length [OF R] by (simp add: os_Values_def comp_def map_nth)
qed

lemma os_rep_list: "os_rep s xs \<Longrightarrow> os_list s = xs"
  by (simp add: os_list_def os_Values_rep)

lemma os_ok_rep: "os_rep s xs \<Longrightarrow> os_ok s"
  by (simp add: os_ok_def os_rep_list)

lemma os_app1_ok: "os_ok s \<Longrightarrow> os_ok (os_app1 s v) \<and> os_list (os_app1 s v) = ins_new (os_list s) v"
  using os_rep_app1 [of s "os_list s" v] os_ok_rep os_rep_list by (metis os_ok_def)

interpretation osapp: appendable os_ok os_list os_app1 ins_new
  by unfold_locales (simp_all add: os_app1_ok)

lemma os_Append_rep: "os_rep s xs \<Longrightarrow> os_rep (os_Append s vs) (foldl ins_new xs vs)"
  using osapp.foldl_ok [of s vs] osapp.foldl_vals [of s vs]
  by (simp add: os_Append_def os_ok_rep os_rep_list) (simp add: os_ok_def)

section \<open>Moving indexes\<close>

lemma os_offset_left:
  "\<forall>i \<in> {a..b}. map_of m i \<noteq> None \<Longrightarrow> map_of m (a - 1) = None \<Longrightarrow> gm_wf m \<Longrightarrow>
   \<exists>m'. os_offset_loop (-1) [a..b] m = Some m' \<and> gm_wf m' \<and>
     (\<forall>j. map_of m' j = (if a - 1 \<le> j \<and> j < b then map_of m (j + 1) else if a \<le> j \<and> j = b then None else map_of m j))"
proof (induction a b arbitrary: m rule: upto.induct)
  case (1 a b)
  show ?case
  proof (cases "a \<le> b")
    case False
    then show ?thesis using "1.prems" by auto
  next
    case True
    then obtain v where v: "map_of m a = Some v" using "1.prems"(1) by force
    let ?m = "gm_set (a - 1) v (gm_del a m)"
    have "\<exists>m'. os_offset_loop (-1) [a + 1..b] ?m = Some m' \<and> gm_wf m' \<and>
      (\<forall>j. map_of m' j = (if a + 1 - 1 \<le> j \<and> j < b then map_of ?m (j + 1) else if a + 1 \<le> j \<and> j = b then None else map_of ?m j))"
      using "1.prems" True by (intro "1.IH") auto
    then obtain m' where m': "os_offset_loop (-1) [a + 1..b] ?m = Some m'" "gm_wf m'"
      "\<And>j. map_of m' j = (if a + 1 - 1 \<le> j \<and> j < b then map_of ?m (j + 1) else if a + 1 \<le> j \<and> j = b then None else map_of ?m j)"
      by blast
    have "os_offset_loop (-1) [a..b] m = Some m'"
      using True v "1.prems"(2) m'(1) by (simp add: upto_rec1 Let_def)
    moreover have "map_of m' j = (if a - 1 \<le> j \<and> j < b then map_of m (j + 1) else if a \<le> j \<and> j = b then None else map_of m j)" for j
      using True v by (auto simp: m'(3))
    ultimately show ?thesis using m'(2) by blast
  qed
qed

lemma os_offset_right:
  "\<forall>i \<in> {a..b}. map_of m i \<noteq> None \<Longrightarrow> \<forall>i \<in> {b + 1..b + k}. map_of m i = None \<Longrightarrow> gm_wf m \<Longrightarrow> 0 < k \<Longrightarrow>
   \<exists>m'. os_offset_loop k (rev [a..b]) m = Some m' \<and> gm_wf m' \<and>
     (\<forall>j. map_of m' j = (if a + k \<le> j \<and> j \<le> b + k then map_of m (j - k) else if a \<le> j \<and> j \<le> b then None else map_of m j))"
proof (induction "nat (b + 1 - a)" arbitrary: b m)
  case 0
  then show ?case by auto
next
  case (Suc d)
  then have ab: "a \<le> b" by simp
  then obtain v where v: "map_of m b = Some v" using Suc.prems(1) by force
  let ?m = "gm_set (b + k) v (gm_del b m)"
  have "\<exists>m'. os_offset_loop k (rev [a..b - 1]) ?m = Some m' \<and> gm_wf m' \<and>
      (\<forall>j. map_of m' j = (if a + k \<le> j \<and> j \<le> b - 1 + k then map_of ?m (j - k) else if a \<le> j \<and> j \<le> b - 1 then None else map_of ?m j))"
    using Suc.hyps(2) Suc.prems by (intro Suc.hyps(1)) auto
  then obtain m' where m': "os_offset_loop k (rev [a..b - 1]) ?m = Some m'" "gm_wf m'"
    "\<And>j. map_of m' j = (if a + k \<le> j \<and> j \<le> b - 1 + k then map_of ?m (j - k) else if a \<le> j \<and> j \<le> b - 1 then None else map_of ?m j)"
    by blast
  have "map_of m (b + k) = None" using Suc.prems(2,4) by simp
  then have "os_offset_loop k (rev [a..b]) m = Some m'"
    using ab v m'(1) Suc.prems(4) by (simp add: upto_rec2 Let_def)
  moreover have "map_of m' j = (if a + k \<le> j \<and> j \<le> b + k then map_of m (j - k) else if a \<le> j \<and> j \<le> b then None else map_of m j)" for j
    using ab v Suc.prems(4) by (auto simp: m'(3))
  ultimately show ?case using m'(2) by blast
qed

lemma sk_Filter_list: "(case sk_Filter s p of None \<Rightarrow> [] | Some l \<Rightarrow> l) = (case s of None \<Rightarrow> [] | Some l \<Rightarrow> filter p l)"
proof -
  have "sk_filter_loop (\<lambda>v. (p v, None :: unit option)) l out = (Some (out @ filter p l), None)" for l out
    by (induction l arbitrary: out) auto
  then show ?thesis by (simp add: sk_Filter_def sk_FilterErr_def split: option.split)
qed

lemma sorted_int_set:
  "sorted (xs :: int list) \<Longrightarrow> distinct xs \<Longrightarrow> set xs = {a..b} \<Longrightarrow> xs = [a..b]"
  by (rule sorted_distinct_set_unique) simp_all

text \<open>The indexes an offset moves, when the indexes in use are an interval with at most one gap.\<close>

lemma os_indexes_from:
  assumes "gm_wf (os_is s)" "{i \<in> dom (map_of (os_is s)). a \<le> i} = {a..b}"
  shows "(case sk_Filter (os_indexes s) (\<lambda>v. a \<le> v) of None \<Rightarrow> [] | Some l \<Rightarrow> l) = [a..b]"
proof -
  have "filter (\<lambda>v. a \<le> v) (sort (map fst (os_is s))) = [a..b]"
  proof (rule sorted_int_set)
    show "set (filter (\<lambda>v. a \<le> v) (sort (map fst (os_is s)))) = {a..b}"
      using assms(2) by (auto simp: dom_gm)
    show "sorted (filter (\<lambda>v. a \<le> v) (sort (map fst (os_is s))))"
      using sorted_filter [of id] by (simp add: sorted_wrt_filter)
    show "distinct (filter (\<lambda>v. a \<le> v) (sort (map fst (os_is s))))"
      using assms(1) by (simp add: gm_wf_def)
  qed
  then show ?thesis by (auto simp: sk_Filter_list os_indexes_def mk_Keys_def split: if_splits)
qed

section \<open>Operations on represented sets\<close>

lemma os_Lookup_rep:
  assumes "os_rep s xs"
  shows "os_Lookup z s i = sk_Lookup z xs i"
  using assms by (auto simp: os_Lookup_def sk_Lookup_def os_rep_len [OF assms] ResolveIndex_def os_rep_def Let_def split: prod.split bool.split)

lemma os_Contains_rep: "os_rep s xs \<Longrightarrow> os_Contains s v \<longleftrightarrow> v \<in> set xs"
  using os_rep_has [of s xs v] by (simp add: os_Contains_def)

lemma distinct_remove_nth: "distinct xs \<Longrightarrow> n < length xs \<Longrightarrow> set (take n xs @ drop (Suc n) xs) = set xs - {xs ! n}"
proof -
  assume d: "distinct xs" and n: "n < length xs"
  have "set xs = insert (xs ! n) (set (take n xs @ drop (Suc n) xs))"
    using n by (subst id_take_nth_drop [OF n]) auto
  moreover have "xs ! n \<notin> set (take n xs @ drop (Suc n) xs)"
    using d by (subst (asm) id_take_nth_drop [OF n]) auto
  ultimately show ?thesis by auto
qed

lemma os_Delete_rep:
  assumes R: "os_rep s xs" and i: "ResolveIndex (int (length xs)) index = (i, True)" "0 \<le> i" "i < int (length xs)"
  shows "\<exists>s'. os_Delete s index = Some (True, s') \<and> os_rep s' (take (nat i) xs @ drop (Suc (nat i)) xs)"
proof -
  let ?n = "nat i" and ?ys = "take (nat i) xs @ drop (Suc (nat i)) xs"
  let ?s = "s\<lparr>os_is := gm_del i (os_is s), os_vs := gm_del (xs ! nat i) (os_vs s)\<rparr>"
  have ix: "\<And>j. map_of (os_is s) j = (if 0 \<le> j \<and> j < int (length xs) then Some (xs ! nat j) else None)"
    and wf: "gm_wf (os_is s)" "gm_wf (os_vs s)" and dst: "distinct xs" and dm: "dom (map_of (os_vs s)) = set xs"
    using R by (simp_all add: os_rep_def)
  have sel: "{j \<in> dom (map_of (os_is ?s)). i + 1 \<le> j} = {i + 1..int (length xs) - 1}"
    using i(2) by (auto simp: ix split: if_splits)
  have idx: "(case sk_Filter (os_indexes ?s) (\<lambda>v. i + 1 \<le> v) of None \<Rightarrow> [] | Some l \<Rightarrow> l) = [i + 1..int (length xs) - 1]"
    by (rule os_indexes_from [OF _ sel]) (use wf in simp)
  obtain m where m: "os_offset_loop (-1) [i + 1..int (length xs) - 1] (gm_del i (os_is s)) = Some m" "gm_wf m"
    "\<And>j. map_of m j = (if i + 1 - 1 \<le> j \<and> j < int (length xs) - 1 then map_of (gm_del i (os_is s)) (j + 1)
        else if i + 1 \<le> j \<and> j = int (length xs) - 1 then None else map_of (gm_del i (os_is s)) j)"
    using os_offset_left [of "i + 1" "int (length xs) - 1" "gm_del i (os_is s)"] i(2) wf by (auto simp: ix)
  have del: "os_Delete s index = Some (True, ?s\<lparr>os_is := m\<rparr>)"
    using i idx m(1) by (simp add: os_Delete_def os_rep_len [OF R] ix os_offsetIndexesBy_def Let_def)
  have "map_of m j = (if 0 \<le> j \<and> j < int (length ?ys) then Some (?ys ! nat j) else None)" for j
    using i(2,3) by (auto simp: m(3) ix nth_append nat_add_distrib)
  moreover have "distinct ?ys" using dst i by (subst (asm) id_take_nth_drop [of ?n]) auto
  ultimately have "os_rep (?s\<lparr>os_is := m\<rparr>) ?ys"
    using wf m(2) dm distinct_remove_nth [OF dst, of ?n] i dst
    by (auto simp: os_rep_def)
  with del show ?thesis by blast
qed

lemma map_of_add_each:
  "distinct vs \<Longrightarrow> \<forall>v \<in> set vs. map_of (os_vs s) v = None \<Longrightarrow>
   (\<forall>j. map_of (os_is (os_add_each i vs s)) j =
      (if i \<le> j \<and> j < i + int (length vs) then Some (vs ! nat (j - i)) else map_of (os_is s) j)) \<and>
   (\<forall>v. map_of (os_vs (os_add_each i vs s)) v = (if v \<in> set vs then Some () else map_of (os_vs s) v)) \<and>
   (gm_wf (os_is s) \<longrightarrow> gm_wf (os_is (os_add_each i vs s))) \<and> (gm_wf (os_vs s) \<longrightarrow> gm_wf (os_vs (os_add_each i vs s)))"
proof (induction vs arbitrary: i s)
  case (Cons v vs)
  have ne: "v \<notin> set vs" "distinct vs" using Cons.prems(1) by auto
  have a: "os_add i v s = s\<lparr>os_vs := gm_set v () (os_vs s), os_is := gm_set i v (os_is s)\<rparr>"
    using Cons.prems(2) by (simp add: os_add_def)
  have "\<forall>w \<in> set vs. map_of (os_vs (os_add i v s)) w = None" using Cons.prems ne by (auto simp: a)
  note IH = Cons.IH [OF ne(2) this, of "i + 1"]
  have idx: "nat (j - i) = Suc (nat (j - (i + 1)))" if "i < j" for j using that by simp
  show ?case
    using IH ne by (auto simp: a idx less_le)
qed auto

lemma os_Insert_rep:
  assumes R: "os_rep s xs" and i: "ResolveIndex (int (length xs)) index = (i, True)" "0 \<le> i" "i < int (length xs)"
    and vs: "vs \<noteq> []" "distinct vs" "set vs \<inter> set xs = {}"
  shows "\<exists>s'. os_Insert z s index vs = Some (True, s') \<and> os_rep s' (take (nat i) xs @ vs @ drop (nat i) xs)"
proof -
  let ?k = "int (length vs)" and ?N = "int (length xs)" and ?ys = "take (nat i) xs @ vs @ drop (nat i) xs"
  have ix: "\<And>j. map_of (os_is s) j = (if 0 \<le> j \<and> j < ?N then Some (xs ! nat j) else None)"
    and wf: "gm_wf (os_is s)" "gm_wf (os_vs s)" and dst: "distinct xs" and dm: "dom (map_of (os_vs s)) = set xs"
    using R by (simp_all add: os_rep_def)
  have sel: "{j \<in> dom (map_of (os_is s)). i \<le> j} = {i..?N - 1}"
    using i(2) by (auto simp: ix split: if_splits)
  note idx = os_indexes_from [OF wf(1) sel]
  obtain m where m: "os_offset_loop ?k (rev [i..?N - 1]) (os_is s) = Some m" "gm_wf m"
    "\<And>j. map_of m j = (if i + ?k \<le> j \<and> j \<le> ?N - 1 + ?k then map_of (os_is s) (j - ?k)
        else if i \<le> j \<and> j \<le> ?N - 1 then None else map_of (os_is s) j)"
    using os_offset_right [of i "?N - 1" "os_is s" ?k] i(2) wf vs(1) by (auto simp: ix)
  let ?s = "s\<lparr>os_is := m\<rparr>"
  let ?r = "os_add_each i vs ?s"
  have lk: "snd (os_Lookup z s i)" using i by (simp add: os_Lookup_rep [OF R] sk_Lookup_def ResolveIndex_def)
  have ins: "os_Insert z s index vs = Some (True, ?r)"
    using i idx m(1) lk vs(1) by (simp add: os_Insert_def os_rep_len [OF R] os_offsetIndexesBy_def Let_def)
  have "\<forall>v \<in> set vs. map_of (os_vs ?s) v = None" using dm vs(3) by auto
  note r = map_of_add_each [OF vs(2) this, of i]
  have "map_of (os_is ?r) j = (if 0 \<le> j \<and> j < int (length ?ys) then Some (?ys ! nat j) else None)" for j
  proof -
    consider "j < i" | "i \<le> j" "j < i + ?k" | "i + ?k \<le> j" by linarith
    then show ?thesis
      using r i m(3) by cases (auto simp: ix nth_append nat_diff_distrib' nat_less_iff)
  qed
  moreover have "set ?ys = set xs \<union> set vs" using set_append [of "take (nat i) xs" "drop (nat i) xs"] by auto
  moreover have "distinct ?ys" using dst vs(2,3) distinct_append [of "take (nat i) xs" "drop (nat i) xs"]
    by (auto dest: in_set_takeD in_set_dropD)
  moreover have vr: "map_of (os_vs ?r) = (\<lambda>v. if v \<in> set vs then Some () else map_of (os_vs s) v)"
    using conjunct1 [OF conjunct2 [OF r]] by (simp add: fun_eq_iff)
  have "dom (map_of (os_vs ?r)) = set xs \<union> set vs"
    unfolding vr dm [symmetric] by (auto simp: dom_def)
  moreover note conjunct2 [OF conjunct2 [OF r]]
  ultimately have "os_rep ?r ?ys" using wf m(2) by (simp add: os_rep_def)
  with ins show ?thesis by blast
qed

lemma os_Set_rep:
  assumes R: "os_rep s xs" and i: "0 \<le> i" "i < int (length xs)" and v: "v \<notin> set xs - {xs ! nat i}"
  shows "\<exists>s'. os_Set z s i v = (True, s') \<and> os_rep s' (xs[nat i := v])"
proof -
  let ?n = "nat i"
  have ix: "\<And>j. map_of (os_is s) j = (if 0 \<le> j \<and> j < int (length xs) then Some (xs ! nat j) else None)"
    and wf: "gm_wf (os_is s)" "gm_wf (os_vs s)" and dst: "distinct xs" and dm: "dom (map_of (os_vs s)) = set xs"
    using R by (simp_all add: os_rep_def)
  have lk: "os_Lookup z s i = (xs ! ?n, True)"
    using i by (simp add: os_Lookup_rep [OF R] sk_Lookup_def ResolveIndex_def)
  let ?s = "s\<lparr>os_vs := gm_del (xs ! ?n) (os_vs s), os_is := gm_del i (os_is s)\<rparr>"
  have n: "?n < length xs" using i by simp
  have "map_of (os_vs ?s) v = None" using v dm by auto
  then have st: "os_Set z s i v = (True, ?s\<lparr>os_vs := gm_set v () (os_vs ?s), os_is := gm_set i v (os_is ?s)\<rparr>)"
    by (simp add: os_Set_def lk os_add_def)
  have "set (xs[?n := v]) = insert v (set xs - {xs ! ?n})" by (rule set_update_distinct [OF dst n])
  moreover have "distinct (xs[?n := v])" using distinct_list_update [OF dst] v by auto
  ultimately have "os_rep (?s\<lparr>os_vs := gm_set v () (os_vs ?s), os_is := gm_set i v (os_is ?s)\<rparr>) (xs[?n := v])"
    using wf dm i by (auto simp: os_rep_def ix nth_list_update_if)
  with st show ?thesis by blast
qed

lemma os_fill_all:
  "gm_wf m \<Longrightarrow> \<forall>(i, v) \<in> set m. 0 \<le> i \<and> i < int (length out) \<Longrightarrow>
   \<exists>r. os_fill m out = Some r \<and> length r = length out \<and>
     (\<forall>j < length out. r ! j = (case map_of m (int j) of Some v \<Rightarrow> v | None \<Rightarrow> out ! j))"
proof (induction m arbitrary: out)
  case (Cons e m)
  obtain i v where e: "e = (i, v)" by (cases e)
  have "map_of m i = None" "gm_wf m" using Cons.prems(1) by (simp_all add: e gm_wf_Cons)
  then show ?case
    using Cons.IH [of "out[nat i := v]"] Cons.prems(2)
    by (auto simp: e nth_list_update_if split: option.split)
qed simp

lemma os_ToSlice_rep: "os_rep s xs \<Longrightarrow> os_ToSlice z s = Some xs"
proof -
  assume R: "os_rep s xs"
  then have wf: "gm_wf (os_is s)" and ix: "\<And>i. map_of (os_is s) i = (if 0 \<le> i \<and> i < int (length xs) then Some (xs ! nat i) else None)"
    by (simp_all add: os_rep_def)
  have "\<forall>(i, v) \<in> set (os_is s). 0 \<le> i \<and> i < int (length (replicate (length xs) z))"
    using gm_in_set [OF wf] by (auto simp: ix split: if_splits)
  from os_fill_all [OF wf this] obtain r where "os_fill (os_is s) (replicate (length xs) z) = Some r" "length r = length xs"
    "\<forall>j < length xs. r ! j = xs ! j"
    by (auto simp: ix)
  then show ?thesis
    using os_rep_is_length [OF R] nth_equalityI [of r xs] by (simp add: os_ToSlice_def)
qed

lemma ResolveIndex_bounds: "ResolveIndex n i = (j, True) \<Longrightarrow> 0 \<le> n \<Longrightarrow> 0 \<le> j \<and> j < n"
  by (auto simp: ResolveIndex_def Let_def split: if_splits)

lemma ResolveIndex_out: "ResolveIndex n i = (j, False) \<Longrightarrow> j = i"
  by (auto simp: ResolveIndex_def Let_def split: if_splits)

lemma foldl_ins_new_append: "distinct vs \<Longrightarrow> set vs \<inter> set xs = {} \<Longrightarrow> foldl ins_new xs vs = xs @ vs"
  by (induction vs arbitrary: xs) (auto simp: ins_new_def)

lemma os_fill_out: "(i, v) \<in> set m \<Longrightarrow> \<not> (0 \<le> i \<and> i < int (length out)) \<Longrightarrow> os_fill m out = None"
proof (induction m arbitrary: out)
  case (Cons e m)
  then show ?case by (cases e) auto
qed simp

section \<open>Properties\<close>

text \<open>C11: an ordered set implements a sequence without duplicates. On a set with the values \<open>xs\<close>, Delete at any
  index, Insert of new distinct values at any index, and Set of a new value at a non-negative index answer and change the sequence as the slice functions of the same name do,
  Append adds the values not yet present, and Lookup, Contains, ToSlice, Values and Len read \<open>xs\<close>; no operation
  panics.\<close>

theorem os_sequence_contract:
  assumes "os_rep s xs" "distinct vs" "set vs \<inter> set xs = {}" "v \<notin> set xs" "0 \<le> k"
  shows "(\<exists>s'. os_Delete s i = Some (snd (sk_Delete xs i), s') \<and> os_rep s' (fst (sk_Delete xs i)))
    \<and> (\<exists>s'. os_Insert z s i vs = Some (snd (sk_Insert xs i vs), s') \<and> os_rep s' (fst (sk_Insert xs i vs)))
    \<and> (\<exists>s'. os_Set z s k v = (snd (sk_Set xs k v), s') \<and> os_rep s' (fst (sk_Set xs k v)))
    \<and> os_rep (os_Append s ws) (foldl ins_new xs ws)
    \<and> os_Lookup z s i = sk_Lookup z xs i \<and> os_Contains s w = (w \<in> set xs)
    \<and> os_ToSlice z s = Some xs \<and> os_Values s = (xs, False) \<and> os_Len s = int (length xs)"
proof (intro conjI)
  note R = assms(1)
  obtain j ok where j: "ResolveIndex (int (length xs)) i = (j, ok)" by (cases "ResolveIndex (int (length xs)) i")
  show "\<exists>s'. os_Delete s i = Some (snd (sk_Delete xs i), s') \<and> os_rep s' (fst (sk_Delete xs i))"
  proof (cases ok)
    case True
    then have b: "0 \<le> j" "j < int (length xs)" using ResolveIndex_bounds j by auto
    with os_Delete_rep [OF R _ b, of i] j True show ?thesis by (auto simp: sk_Delete_def nat_add_distrib)
  qed (use j R in \<open>simp add: os_Delete_def sk_Delete_def os_rep_len [OF R]\<close>)
  show "\<exists>s'. os_Insert z s i vs = Some (snd (sk_Insert xs i vs), s') \<and> os_rep s' (fst (sk_Insert xs i vs))"
  proof (cases "ok \<and> vs \<noteq> []")
    case True
    then have b: "0 \<le> j" "j < int (length xs)" using ResolveIndex_bounds j by auto
    with os_Insert_rep [OF R _ b, of i vs z] j True assms(2,3) show ?thesis by (auto simp: sk_Insert_def)
  next
    case False
    then show ?thesis
      using j R ResolveIndex_out [of "int (length xs)" i j] os_Append_rep [OF R, of vs] foldl_ins_new_append [OF assms(2,3)]
      by (auto simp: os_Insert_def sk_Insert_def os_rep_len [OF R] os_Lookup_rep [OF R] sk_Lookup_def split: prod.split)
  qed
  show "\<exists>s'. os_Set z s k v = (snd (sk_Set xs k v), s') \<and> os_rep s' (fst (sk_Set xs k v))"
  proof (cases "k < int (length xs)")
    case True
    with os_Set_rep [OF R assms(5) True, of v z] assms(4,5) show ?thesis by (auto simp: sk_Set_def ResolveIndex_def)
  qed (use R assms(5) in \<open>simp add: os_Set_def sk_Set_def os_Lookup_rep [OF R] sk_Lookup_def ResolveIndex_def\<close>)
  show "os_Lookup z s i = sk_Lookup z xs i" by (rule os_Lookup_rep [OF R])
qed (use assms(1) in \<open>simp_all add: os_Append_rep os_Contains_rep os_ToSlice_rep os_Values_rep os_Len_def os_rep_len\<close>)

lemma os_rep_123: "os_rep (os_FromSlice OrderedSet_zero [1 :: int, 2, 3, 2]) [1, 2, 3]"
  using os_Append_rep [OF os_rep_zero, of "[1 :: int, 2, 3, 2]"] by (simp add: os_FromSlice_def ins_new_def)

theorem os_sequence_contract_witness:
  "\<exists>s'. os_Insert 0 (os_FromSlice OrderedSet_zero [1 :: int, 2, 3, 2]) (-1) [7, 8] = Some (True, s') \<and> os_rep s' [1, 2, 7, 8, 3]"
  using os_sequence_contract [OF os_rep_123, where vs = "[7, 8]" and v = 9 and k = 2 and i = "-1" and z = 0
      and w = 0 and ws = "[]"]
  by (simp add: sk_Insert_def ResolveIndex_def)

text \<open>Set with a negative index breaks the set. For an index counted from the end Set reports success, but
  the old value stays at its place while Contains denies it, and ToSlice panics from then on.\<close>

theorem os_Set_negative:
  assumes "os_rep s xs" "- int (length xs) \<le> i" "i < 0" "v \<notin> set xs"
  shows "\<exists>s'. os_Set z s i v = (True, s') \<and> os_Lookup z s' i = sk_Lookup z xs i \<and>
           \<not> os_Contains s' (fst (sk_Lookup z xs i)) \<and> os_ToSlice z s' = None"
proof -
  note R = assms(1)
  let ?n = "nat (int (length xs) + i)"
  have n: "?n < length xs" "0 \<le> int (length xs) + i" using assms(2,3) by auto
  have lk: "sk_Lookup z xs i = (xs ! ?n, True)" using n assms(3) by (simp add: sk_Lookup_def ResolveIndex_def Let_def)
  have ix: "\<And>j. map_of (os_is s) j = (if 0 \<le> j \<and> j < int (length xs) then Some (xs ! nat j) else None)"
    and wf: "gm_wf (os_is s)" "gm_wf (os_vs s)" and dst: "distinct xs" and dm: "dom (map_of (os_vs s)) = set xs"
    using R by (simp_all add: os_rep_def)
  let ?vs = "gm_set v () (gm_del (xs ! ?n) (os_vs s))" and ?is = "gm_set i v (gm_del i (os_is s))"
  have "map_of (gm_del (xs ! ?n) (os_vs s)) v = None" using dm assms(4) by auto
  then have st: "os_Set z s i v = (True, s\<lparr>os_vs := ?vs, os_is := ?is\<rparr>)"
    by (simp add: os_Set_def os_Lookup_rep [OF R] lk os_add_def)
  have "dom (map_of ?vs) = set (xs[?n := v])"
    using dm set_update_distinct [OF dst n(1), of v] by auto
  moreover have "distinct (xs[?n := v])" using distinct_list_update [OF dst] assms(4) by auto
  ultimately have len: "length ?vs = length xs"
    using gm_wf_length [of ?vs] wf by (simp add: distinct_card)
  have "map_of ?is i = Some v" by simp
  then have "(i, v) \<in> set ?is" by (rule map_of_SomeD)
  then have "os_fill ?is (replicate (length ?is) z) = None" by (rule os_fill_out) (use assms(3) in simp)
  moreover have "xs ! ?n \<noteq> v" "xs \<noteq> []" using assms(4) n(1) nth_mem by (blast, auto)
  ultimately show ?thesis
    using st n assms(3) by (simp add: lk os_Lookup_def os_len_def len ResolveIndex_def Let_def ix os_Contains_def os_ToSlice_def)
qed

end
