(* ===== verification/MemoryStore.thy ===== *)
theory MemoryStore imports Comproto begin

text \<open>
  The in-memory key-value store of \<^verbatim>\<open>adapter/memory/Repository.go\<close>: \<^verbatim>\<open>Memory\<close> (the
  tables) and \<^verbatim>\<open>MemoryTx\<close> (a transaction's uncommitted changes over its \<^verbatim>\<open>super\<close>,
  which is the memory itself or an enclosing transaction).

  Transactions are heap objects: \<^verbatim>\<open>*MemoryTx\<close> is an index into \<open>mem_txs\<close>. A
  transaction exists before any transaction that has it as super, so the super's address is
  smaller; the recursive operations test that order, which makes them total, and the invariant
  \<^verbatim>\<open>mem_wf\<close> says that the test never fails. The entries that \<^verbatim>\<open>namespace\<close> and
  \<^verbatim>\<open>getChanges\<close> create lazily are read as the empty ones they stand for. The context
  values are transaction addresses, under the memory's own namespace key.
\<close>

definition errTxDone :: go_error where
  "errTxDone = ErrConst ''transaction has already been commit or rolled back''"

definition errNoTx :: go_error where
  "errNoTx = ErrConst ''no transaction found in the given context''"

section \<open>State\<close>

type_synonym mctx = "(string, nat) ctx"

record 'v tx_changes =
  Values :: "(string, 'v) gomap"
  Deleted :: "(string, unit) gomap"

datatype memory_actions = SuperMemory | SuperTx nat

record 'v memory_tx =
  tx_done :: bool
  tx_super :: memory_actions
  tx_changes :: "(string, 'v tx_changes) gomap"
  tx_cancel :: nat

record 'v memory = ctx_world +
  mem_NS :: string
  tables :: "(string, (string, 'v) gomap) gomap"
  mem_txs :: "'v memory_tx list"

section \<open>Memory: the committed tables\<close>

definition mem_namespace :: "'v memory \<Rightarrow> string \<Rightarrow> (string, 'v) gomap" where
  "mem_namespace m name = gm_get_or [] (tables m) name"

definition mem_all :: "'v memory \<Rightarrow> string \<Rightarrow> (string, 'v) gomap" where
  "mem_all m ns = gm_copy_into (mem_namespace m ns) []"

definition mem_lookup :: "'v memory \<Rightarrow> string \<Rightarrow> string \<Rightarrow> 'v option" where
  "mem_lookup m ns key = gm_get (mem_namespace m ns) key"

definition mem_set :: "string \<Rightarrow> string \<Rightarrow> 'v \<Rightarrow> 'v memory \<Rightarrow> 'v memory" where
  "mem_set ns key value m =
     m\<lparr>tables := gm_set ns (gm_set key value (mem_namespace m ns)) (tables m)\<rparr>"

definition mem_del :: "string \<Rightarrow> string \<Rightarrow> ('v memory, bool) op" where
  "mem_del ns key m =
     (if gm_has (mem_namespace m ns) key
      then (True, m\<lparr>tables := gm_set ns (gm_del key (mem_namespace m ns)) (tables m)\<rparr>)
      else (False, m))"

definition mem_delNamespace :: "string \<Rightarrow> 'v memory \<Rightarrow> 'v memory" where
  "mem_delNamespace ns m = m\<lparr>tables := gm_del ns (tables m)\<rparr>"

section \<open>MemoryTx: a transaction's changes over its super\<close>

definition tx_getChanges :: "'v memory \<Rightarrow> nat \<Rightarrow> string \<Rightarrow> 'v tx_changes" where
  "tx_getChanges m a name =
     gm_get_or \<lparr>Values = [], Deleted = []\<rparr> (tx_changes (mem_txs m ! a)) name"

definition tx_putChanges :: "nat \<Rightarrow> string \<Rightarrow> 'v tx_changes \<Rightarrow> 'v memory \<Rightarrow> 'v memory" where
  "tx_putChanges a name ch m =
     m\<lparr>mem_txs := (mem_txs m)[a := (mem_txs m ! a)\<lparr>tx_changes := gm_set name ch (tx_changes (mem_txs m ! a))\<rparr>]\<rparr>"

fun tx_all :: "'v memory \<Rightarrow> nat \<Rightarrow> string \<Rightarrow> (string, 'v) gomap" where
  "tx_all m a ns =
     (let svs = (case tx_super (mem_txs m ! a) of
                   SuperMemory \<Rightarrow> mem_all m ns
                 | SuperTx p \<Rightarrow> if p < a then tx_all m p ns else []);
          cvs = tx_getChanges m a ns
      in gm_copy_into (Values cvs) (gm_delete_all (Deleted cvs) (gm_copy_into svs [])))"

fun tx_lookup :: "'v memory \<Rightarrow> nat \<Rightarrow> string \<Rightarrow> string \<Rightarrow> 'v option" where
  "tx_lookup m a ns key =
     (let changes = tx_getChanges m a ns
      in case gm_get (Values changes) key of
           Some v \<Rightarrow> Some v
         | None \<Rightarrow>
             if gm_has (Deleted changes) key then None
             else (case tx_super (mem_txs m ! a) of
                     SuperMemory \<Rightarrow> mem_lookup m ns key
                   | SuperTx p \<Rightarrow> if p < a then tx_lookup m p ns key else None))"

declare tx_all.simps [simp del] tx_lookup.simps [simp del]

definition tx_set :: "nat \<Rightarrow> string \<Rightarrow> string \<Rightarrow> 'v \<Rightarrow> 'v memory \<Rightarrow> 'v memory" where
  "tx_set a ns key value m =
     tx_putChanges a ns (tx_getChanges m a ns\<lparr>Values := gm_set key value (Values (tx_getChanges m a ns))\<rparr>) m"

definition tx_del :: "nat \<Rightarrow> string \<Rightarrow> string \<Rightarrow> ('v memory, bool) op" where
  "tx_del a ns key m =
     (case tx_lookup m a ns key of
        None \<Rightarrow> (False, m)
      | Some _ \<Rightarrow>
          (let changes = tx_getChanges m a ns
           in (True, tx_putChanges a ns
                       (changes\<lparr>Values := gm_del key (Values changes),
                                Deleted := gm_set key () (Deleted changes)\<rparr>) m)))"

section \<open>The memoryActions interface, by dynamic dispatch\<close>

definition act_all :: "memory_actions \<Rightarrow> 'v memory \<Rightarrow> string \<Rightarrow> (string, 'v) gomap" where
  "act_all s m ns = (case s of SuperMemory \<Rightarrow> mem_all m ns | SuperTx p \<Rightarrow> tx_all m p ns)"

definition act_lookup :: "memory_actions \<Rightarrow> 'v memory \<Rightarrow> string \<Rightarrow> string \<Rightarrow> 'v option" where
  "act_lookup s m ns key = (case s of SuperMemory \<Rightarrow> mem_lookup m ns key | SuperTx p \<Rightarrow> tx_lookup m p ns key)"

definition act_set :: "memory_actions \<Rightarrow> string \<Rightarrow> string \<Rightarrow> 'v \<Rightarrow> 'v memory \<Rightarrow> 'v memory" where
  "act_set s ns key value m = (case s of SuperMemory \<Rightarrow> mem_set ns key value m | SuperTx p \<Rightarrow> tx_set p ns key value m)"

definition act_del :: "memory_actions \<Rightarrow> string \<Rightarrow> string \<Rightarrow> ('v memory, bool) op" where
  "act_del s ns key m = (case s of SuperMemory \<Rightarrow> mem_del ns key m | SuperTx p \<Rightarrow> tx_del p ns key m)"

section \<open>Commit and rollback\<close>

definition tx_finish :: "nat \<Rightarrow> 'v memory \<Rightarrow> 'v memory" where
  "tx_finish a m =
     context_cancel (tx_cancel (mem_txs m ! a))
       (m\<lparr>mem_txs := (mem_txs m)[a := (mem_txs m ! a)\<lparr>tx_done := True\<rparr>]\<rparr>)"

definition apply_deleted :: "memory_actions \<Rightarrow> string \<Rightarrow> (string, unit) gomap \<Rightarrow> 'v memory \<Rightarrow> 'v memory" where
  "apply_deleted s ns ks m = fold (\<lambda>(key, _) m. snd (act_del s ns key m)) ks m"

definition apply_values :: "memory_actions \<Rightarrow> string \<Rightarrow> (string, 'v) gomap \<Rightarrow> 'v memory \<Rightarrow> 'v memory" where
  "apply_values s ns kvs m = fold (\<lambda>(key, value) m. act_set s ns key value m) kvs m"

definition apply_changes :: "memory_actions \<Rightarrow> (string, 'v tx_changes) gomap \<Rightarrow> 'v memory \<Rightarrow> 'v memory" where
  "apply_changes s chs m =
     fold (\<lambda>(ns, ch) m. apply_values s ns (Values ch) (apply_deleted s ns (Deleted ch) m)) chs m"

definition tx_commit :: "nat \<Rightarrow> ('v memory, go_error option) op" where
  "tx_commit a m =
     (if tx_done (mem_txs m ! a) then (Some errTxDone, m)
      else (None, apply_changes (tx_super (mem_txs m ! a)) (tx_changes (mem_txs m ! a)) (tx_finish a m)))"

fun tx_rollback :: "nat \<Rightarrow> ('v memory, go_error option) op" where
  "tx_rollback a m =
     (if tx_done (mem_txs m ! a) then (Some errTxDone, m)
      else case tx_super (mem_txs m ! a) of
             SuperMemory \<Rightarrow> (None, tx_finish a m)
           | SuperTx p \<Rightarrow> if p < a then tx_rollback p (tx_finish a m) else (None, tx_finish a m))"

declare tx_rollback.simps [simp del]

section \<open>The context-aware operations of Memory\<close>

definition mem_LookupTx :: "'v memory \<Rightarrow> mctx \<Rightarrow> nat option" where
  "mem_LookupTx m ctx = ctx_Value ctx (mem_NS m)"

definition mem_BeginTx :: "mctx \<Rightarrow> ('v memory, mctx \<times> go_error option) op" where
  "mem_BeginTx ctx m =
     (case ctx_Err m ctx of
        Some err \<Rightarrow> ((ctx, Some err), m)
      | None \<Rightarrow>
          (let super = (case mem_LookupTx m ctx of Some tx \<Rightarrow> SuperTx tx | None \<Rightarrow> SuperMemory)
           in case context_WithCancel ctx m of
                ((ctx', cancel), m') \<Rightarrow>
                  ((WithValueCtx (mem_NS m') (length (mem_txs m')) ctx', None),
                   m'\<lparr>mem_txs := mem_txs m' @
                       [\<lparr>tx_done = False, tx_super = super, tx_changes = [], tx_cancel = cancel\<rparr>]\<rparr>)))"

definition mem_CommitTx :: "mctx \<Rightarrow> ('v memory, go_error option) op" where
  "mem_CommitTx ctx m =
     (case ctx_Err m ctx of
        Some err \<Rightarrow> (Some err, m)
      | None \<Rightarrow> (case mem_LookupTx m ctx of Some tx \<Rightarrow> tx_commit tx m | None \<Rightarrow> (Some errNoTx, m)))"

definition mem_RollbackTx :: "mctx \<Rightarrow> ('v memory, go_error option) op" where
  "mem_RollbackTx ctx m =
     (case ctx_Err m ctx of
        Some err \<Rightarrow> (Some err, m)
      | None \<Rightarrow> (case mem_LookupTx m ctx of Some tx \<Rightarrow> tx_rollback tx m | None \<Rightarrow> (Some errNoTx, m)))"

definition mem_Get :: "'v memory \<Rightarrow> mctx \<Rightarrow> string \<Rightarrow> string \<Rightarrow> 'v option" where
  "mem_Get m ctx ns key =
     (case mem_LookupTx m ctx of
        Some tx \<Rightarrow> if \<not> tx_done (mem_txs m ! tx) then tx_lookup m tx ns key else mem_lookup m ns key
      | None \<Rightarrow> mem_lookup m ns key)"

definition mem_toTSlice :: "(string, 'v) gomap \<Rightarrow> 'v list" where
  "mem_toTSlice vs = map snd vs"

definition mem_All :: "'v memory \<Rightarrow> mctx \<Rightarrow> string \<Rightarrow> 'v list" where
  "mem_All m ctx ns =
     (case mem_LookupTx m ctx of
        Some tx \<Rightarrow> if \<not> tx_done (mem_txs m ! tx) then mem_toTSlice (tx_all m tx ns)
                    else mem_toTSlice (mem_all m ns)
      | None \<Rightarrow> mem_toTSlice (mem_all m ns))"

definition mem_Set :: "mctx \<Rightarrow> string \<Rightarrow> string \<Rightarrow> 'v \<Rightarrow> 'v memory \<Rightarrow> 'v memory" where
  "mem_Set ctx ns key value m =
     (case mem_LookupTx m ctx of Some tx \<Rightarrow> tx_set tx ns key value m | None \<Rightarrow> mem_set ns key value m)"

definition mem_Del :: "mctx \<Rightarrow> string \<Rightarrow> string \<Rightarrow> ('v memory, bool) op" where
  "mem_Del ctx ns key m =
     (case mem_LookupTx m ctx of Some tx \<Rightarrow> tx_del tx ns key m | None \<Rightarrow> mem_del ns key m)"

definition mem_PurgeNamespace :: "mctx \<Rightarrow> string \<Rightarrow> ('v memory, go_error option) op" where
  "mem_PurgeNamespace ctx ns m =
     (case mem_LookupTx m ctx of
        Some tx \<Rightarrow>
          if tx_done (mem_txs m ! tx) then (Some errTxDone, m)
          else (None, fold (\<lambda>key m. snd (tx_del tx ns key m)) (map fst (tx_all m tx ns)) m)
      | None \<Rightarrow> (None, m\<lparr>tables := gm_set ns [] (tables m)\<rparr>))"

definition NewMemory :: "string \<Rightarrow> 'v memory" where
  "NewMemory ns = \<lparr>cancelled = [], next_cancel = 0, mem_NS = ns, tables = [], mem_txs = []\<rparr>"


section \<open>Well-formed memories\<close>

text \<open>
  Every super is older than its transaction, and maps have distinct keys. The predicate is a
  computation over the finitely many transactions and tables.
\<close>

definition tx_ok :: "nat \<Rightarrow> 'v memory_tx \<Rightarrow> bool" where
  "tx_ok a tx \<longleftrightarrow>
     (case tx_super tx of SuperMemory \<Rightarrow> True | SuperTx p \<Rightarrow> p < a) \<and>
     gm_wf (tx_changes tx) \<and> list_all (\<lambda>(ns, ch). gm_wf (Values ch)) (tx_changes tx)"

definition mem_wf :: "'v memory \<Rightarrow> bool" where
  "mem_wf m \<longleftrightarrow>
     list_all (\<lambda>(ns, t). gm_wf t) (tables m) \<and>
     list_all (\<lambda>a. tx_ok a (mem_txs m ! a)) [0..<length (mem_txs m)]"

definition act_ok :: "memory_actions \<Rightarrow> 'v memory \<Rightarrow> bool" where
  "act_ok s m \<longleftrightarrow> mem_wf m \<and> (case s of SuperMemory \<Rightarrow> True | SuperTx p \<Rightarrow> p < length (mem_txs m))"

lemma gm_get_or_all:
  "list_all (\<lambda>(k, x). P x) m \<Longrightarrow> P z \<Longrightarrow> P (gm_get_or z m k)"
  by (auto simp: gm_get_or_def list_all_iff dest: map_of_SomeD split: option.split)

lemma list_all_gm_set:
  "list_all (\<lambda>(k, x). P x) m \<Longrightarrow> P v \<Longrightarrow> list_all (\<lambda>(k, x). P x) (gm_set k v m)"
  unfolding gm_set_def by (induction m) auto

lemma mem_wfI:
  "list_all (\<lambda>(ns, t). gm_wf t) (tables m) \<Longrightarrow>
     (\<And>a. a < length (mem_txs m) \<Longrightarrow> tx_ok a (mem_txs m ! a)) \<Longrightarrow> mem_wf m"
  by (simp add: mem_wf_def list_all_iff)

lemma mem_wf_tables: "mem_wf m \<Longrightarrow> list_all (\<lambda>(ns, t). gm_wf t) (tables m)"
  by (simp add: mem_wf_def)

lemma mem_wf_tx: "mem_wf m \<Longrightarrow> a < length (mem_txs m) \<Longrightarrow> tx_ok a (mem_txs m ! a)"
  by (simp add: mem_wf_def list_all_iff)

lemma mem_wf_namespace: "mem_wf m \<Longrightarrow> gm_wf (mem_namespace m ns)"
  unfolding mem_namespace_def by (rule gm_get_or_all [OF mem_wf_tables]) auto

lemma mem_wf_Values:
  "mem_wf m \<Longrightarrow> a < length (mem_txs m) \<Longrightarrow> gm_wf (Values (tx_getChanges m a ns))"
  unfolding tx_getChanges_def
  by (rule gm_get_or_all [where P = "\<lambda>ch. gm_wf (Values ch)"])
     (use mem_wf_tx [of m a] in \<open>auto simp: tx_ok_def\<close>)

lemma mem_wf_super:
  "mem_wf m \<Longrightarrow> a < length (mem_txs m) \<Longrightarrow> tx_super (mem_txs m ! a) = SuperTx p \<Longrightarrow> p < a"
  using mem_wf_tx [of m a] by (simp add: tx_ok_def)

lemma act_ok_super:
  "mem_wf m \<Longrightarrow> a < length (mem_txs m) \<Longrightarrow> act_ok (tx_super (mem_txs m ! a)) m"
  using mem_wf_super [of m a] by (auto simp: act_ok_def split: memory_actions.split)

section \<open>Reading through a transaction\<close>

lemma gm_wf_mem_all [simp]: "gm_wf (mem_all m ns)"
  by (simp add: mem_all_def)

lemma gm_wf_tx_all [simp]: "gm_wf (tx_all m a ns)"
  by (subst tx_all.simps) (simp add: Let_def)

lemma mem_lookup_all: "mem_wf m \<Longrightarrow> mem_lookup m ns k = map_of (mem_all m ns) k"
  by (simp add: mem_lookup_def mem_all_def gm_get_copy_into mem_wf_namespace)

lemma tx_lookup_unfold:
  "mem_wf m \<Longrightarrow> a < length (mem_txs m) \<Longrightarrow>
     tx_lookup m a ns k =
       (case gm_get (Values (tx_getChanges m a ns)) k of
          Some v \<Rightarrow> Some v
        | None \<Rightarrow> (case gm_get (Deleted (tx_getChanges m a ns)) k of
              Some _ \<Rightarrow> None
            | None \<Rightarrow> act_lookup (tx_super (mem_txs m ! a)) m ns k))"
  by (subst tx_lookup.simps)
     (auto simp: Let_def act_lookup_def split: option.split memory_actions.split dest: mem_wf_super)

lemma tx_all_unfold:
  "mem_wf m \<Longrightarrow> a < length (mem_txs m) \<Longrightarrow>
     map_of (tx_all m a ns) k =
       (case gm_get (Values (tx_getChanges m a ns)) k of
          Some v \<Rightarrow> Some v
        | None \<Rightarrow> (case gm_get (Deleted (tx_getChanges m a ns)) k of
              Some _ \<Rightarrow> None
            | None \<Rightarrow> map_of (act_all (tx_super (mem_txs m ! a)) m ns) k))"
  by (subst tx_all.simps)
     (auto simp: Let_def act_all_def gm_get_copy_into gm_get_delete_all mem_wf_Values map_add_def
       split: option.split memory_actions.split dest: mem_wf_super)

lemma tx_lookup_all:
  "mem_wf m \<Longrightarrow> a < length (mem_txs m) \<Longrightarrow> tx_lookup m a ns k = map_of (tx_all m a ns) k"
proof (induction a rule: less_induct)
  case (less a)
  have "act_lookup (tx_super (mem_txs m ! a)) m ns k = map_of (act_all (tx_super (mem_txs m ! a)) m ns) k"
  proof (cases "tx_super (mem_txs m ! a)")
    case SuperMemory
    then show ?thesis using less.prems by (simp add: act_lookup_def act_all_def mem_lookup_all)
  next
    case (SuperTx p)
    with less.prems have "p < a" by (blast dest: mem_wf_super)
    with less SuperTx show ?thesis by (simp add: act_lookup_def act_all_def)
  qed
  with less.prems show ?case by (simp add: tx_lookup_unfold tx_all_unfold split: option.split)
qed

section \<open>What a transaction's reads depend on\<close>

text \<open>The transactions a read goes through: the transaction and its enclosing ones.\<close>

fun tx_chain :: "'v memory \<Rightarrow> nat \<Rightarrow> nat list" where
  "tx_chain m a =
     a # (case tx_super (mem_txs m ! a) of
            SuperMemory \<Rightarrow> []
          | SuperTx p \<Rightarrow> if p < a then tx_chain m p else [])"

declare tx_chain.simps [simp del]

definition act_chain :: "memory_actions \<Rightarrow> 'v memory \<Rightarrow> nat list" where
  "act_chain s m = (case s of SuperMemory \<Rightarrow> [] | SuperTx p \<Rightarrow> tx_chain m p)"

lemma tx_chain_le: "b \<in> set (tx_chain m a) \<Longrightarrow> b \<le> a"
proof (induction a rule: less_induct)
  case (less a)
  then show ?case
    by (subst (asm) tx_chain.simps) (fastforce split: memory_actions.splits if_splits)
qed

lemma tx_chain_unfold:
  "mem_wf m \<Longrightarrow> a < length (mem_txs m) \<Longrightarrow>
     tx_chain m a = a # act_chain (tx_super (mem_txs m ! a)) m"
  by (subst tx_chain.simps) (auto simp: act_chain_def split: memory_actions.split dest: mem_wf_super)

lemma super_chain_not_self:
  "mem_wf m \<Longrightarrow> a < length (mem_txs m) \<Longrightarrow> a \<notin> set (act_chain (tx_super (mem_txs m ! a)) m)"
  by (cases "tx_super (mem_txs m ! a)")
     (auto simp: act_chain_def dest!: tx_chain_le dest: mem_wf_super)

definition same_tx :: "'v memory_tx \<Rightarrow> 'v memory_tx \<Rightarrow> bool" where
  "same_tx t t' \<longleftrightarrow> tx_super t = tx_super t' \<and> tx_changes t = tx_changes t'"

lemma tx_lookup_cong:
  assumes "\<And>n. mem_namespace m n = mem_namespace m' n"
    and "\<And>b. b \<in> set (tx_chain m a) \<Longrightarrow> same_tx (mem_txs m ! b) (mem_txs m' ! b)"
  shows "tx_lookup m a ns k = tx_lookup m' a ns k \<and> tx_chain m a = tx_chain m' a"
  using assms(2)
proof (induction a rule: less_induct)
  case (less a)
  have a: "same_tx (mem_txs m ! a) (mem_txs m' ! a)"
    by (rule less.prems) (simp add: tx_chain.simps [of m a])
  have IH: "tx_lookup m p ns k = tx_lookup m' p ns k \<and> tx_chain m p = tx_chain m' p"
    if "tx_super (mem_txs m ! a) = SuperTx p" "p < a" for p
    using that by (intro less.IH less.prems) (auto simp: tx_chain.simps [of m a])
  have "tx_getChanges m a ns = tx_getChanges m' a ns"
    using a by (simp add: tx_getChanges_def same_tx_def)
  with a IH assms(1) show ?case
    by (simp add: tx_lookup.simps [of m a] tx_lookup.simps [of m' a] tx_chain.simps [of m a]
        tx_chain.simps [of m' a] same_tx_def mem_lookup_def Let_def
        split: memory_actions.split option.split)
qed

lemma act_lookup_cong:
  assumes "\<And>n. mem_namespace m n = mem_namespace m' n"
    and "\<And>b. b \<in> set (act_chain s m) \<Longrightarrow> same_tx (mem_txs m ! b) (mem_txs m' ! b)"
  shows "act_lookup s m ns k = act_lookup s m' ns k"
  using assms tx_lookup_cong [of m m']
  by (cases s) (auto simp: act_lookup_def act_chain_def mem_lookup_def)

section \<open>The memoryActions contract\<close>

text \<open>
  What \<^verbatim>\<open>MemoryTx.commit\<close> relies on in its super, be it the memory or a transaction:
  writes behave like updates of a map per namespace. The locale's lemmas compute what the
  commit loops do to such a provider.
\<close>

locale kv_actions =
  fixes all :: "'m \<Rightarrow> string \<Rightarrow> (string, 'v) gomap"
    and lookup :: "'m \<Rightarrow> string \<Rightarrow> string \<Rightarrow> 'v option"
    and set :: "string \<Rightarrow> string \<Rightarrow> 'v \<Rightarrow> 'm \<Rightarrow> 'm"
    and del :: "string \<Rightarrow> string \<Rightarrow> 'm \<Rightarrow> bool \<times> 'm"
    and inv :: "'m \<Rightarrow> bool"
  assumes lookup_all: "inv m \<Longrightarrow> lookup m ns k = map_of (all m ns) k"
    and lookup_set: "inv m \<Longrightarrow>
          lookup (set ns k v m) ns' k' = (if ns' = ns \<and> k' = k then Some v else lookup m ns' k')"
    and inv_set: "inv m \<Longrightarrow> inv (set ns k v m)"
    and del_found: "inv m \<Longrightarrow> fst (del ns k m) = (lookup m ns k \<noteq> None)"
    and lookup_del: "inv m \<Longrightarrow>
          lookup (snd (del ns k m)) ns' k' = (if ns' = ns \<and> k' = k then None else lookup m ns' k')"
    and inv_del: "inv m \<Longrightarrow> inv (snd (del ns k m))"
begin

definition del_keys :: "string \<Rightarrow> (string, unit) gomap \<Rightarrow> 'm \<Rightarrow> 'm" where
  "del_keys ns ks m = fold (\<lambda>(key, _) m. snd (del ns key m)) ks m"

definition set_values :: "string \<Rightarrow> (string, 'v) gomap \<Rightarrow> 'm \<Rightarrow> 'm" where
  "set_values ns kvs m = fold (\<lambda>(key, value) m. set ns key value m) kvs m"

definition commit_all :: "(string, 'v tx_changes) gomap \<Rightarrow> 'm \<Rightarrow> 'm" where
  "commit_all chs m = fold (\<lambda>(ns, ch) m. set_values ns (Values ch) (del_keys ns (Deleted ch) m)) chs m"

lemma del_keys_spec:
  "inv m \<Longrightarrow> inv (del_keys ns ks m) \<and>
     lookup (del_keys ns ks m) ns' k =
       (if ns' = ns \<and> k \<in> fst ` List.set ks then None else lookup m ns' k)"
proof (induction ks arbitrary: m)
  case Nil
  then show ?case by (simp add: del_keys_def)
next
  case (Cons p ks)
  obtain k' u where p: "p = (k', u)" by (cases p)
  have "del_keys ns (p # ks) m = del_keys ns ks (snd (del ns k' m))"
    by (simp add: del_keys_def p)
  with Cons.IH [of "snd (del ns k' m)"] Cons.prems show ?case
    by (auto simp: p inv_del lookup_del)
qed

lemma set_values_spec:
  "inv m \<Longrightarrow> gm_wf kvs \<Longrightarrow> inv (set_values ns kvs m) \<and>
     lookup (set_values ns kvs m) ns' k =
       (if ns' = ns then (case map_of kvs k of Some v \<Rightarrow> Some v | None \<Rightarrow> lookup m ns' k)
        else lookup m ns' k)"
proof (induction kvs arbitrary: m)
  case Nil
  then show ?case by (simp add: set_values_def)
next
  case (Cons p kvs)
  obtain k' v where p: "p = (k', v)" by (cases p)
  have "set_values ns (p # kvs) m = set_values ns kvs (set ns k' v m)"
    by (simp add: set_values_def p)
  moreover have "map_of kvs k' = None" "gm_wf kvs" using Cons.prems by (simp_all add: p gm_wf_Cons)
  ultimately show ?case using Cons.IH [of "set ns k' v m"] Cons.prems
    by (auto simp: p inv_set lookup_set split: option.split)
qed

lemma commit_all_spec:
  assumes "inv m" "gm_wf chs" "list_all (\<lambda>(ns, ch). gm_wf (Values ch)) chs"
  shows "inv (commit_all chs m) \<and>
     lookup (commit_all chs m) ns k =
       (case map_of chs ns of
          None \<Rightarrow> lookup m ns k
        | Some ch \<Rightarrow>
            (case map_of (Values ch) k of
               Some v \<Rightarrow> Some v
             | None \<Rightarrow> (case map_of (Deleted ch) k of Some _ \<Rightarrow> None | None \<Rightarrow> lookup m ns k)))"
  using assms
proof (induction chs arbitrary: m)
  case Nil
  then show ?case by (simp add: commit_all_def)
next
  case (Cons p chs)
  obtain n ch where p: "p = (n, ch)" by (cases p)
  define m1 where "m1 = del_keys n (Deleted ch) m"
  define m2 where "m2 = set_values n (Values ch) m1"
  have step: "commit_all (p # chs) m = commit_all chs m2"
    by (simp add: commit_all_def p m1_def m2_def)
  have wf: "gm_wf chs" "map_of chs n = None" "gm_wf (Values ch)"
    using Cons.prems by (simp_all add: p gm_wf_Cons)
  have m1: "inv m1"
      "\<And>ns k. lookup m1 ns k = (if ns = n \<and> map_of (Deleted ch) k \<noteq> None then None else lookup m ns k)"
    using del_keys_spec [OF Cons.prems(1), of n "Deleted ch"]
    by (simp_all add: m1_def map_of_eq_None_iff)
  have m2: "inv m2"
      "\<And>ns k. lookup m2 ns k = (if ns = n then (case map_of (Values ch) k of Some v \<Rightarrow> Some v | None \<Rightarrow> lookup m1 ns k)
        else lookup m1 ns k)"
    using set_values_spec [OF m1(1) wf(3), of n] by (simp_all add: m2_def)
  have "list_all (\<lambda>(ns, ch). gm_wf (Values ch)) chs" using Cons.prems(3) by simp
  note IH = Cons.IH [OF m2(1) wf(1) this]
  show ?case unfolding step
    by (simp add: IH p m2(2) m1(2) wf(2) split: option.split)
qed

end

section \<open>Writes keep the invariant\<close>

lemma mem_namespace_tables: "tables m = tables m' \<Longrightarrow> mem_namespace m n = mem_namespace m' n"
  by (simp add: mem_namespace_def)

lemma mem_wf_set_tables:
  "mem_wf m \<Longrightarrow> gm_wf t \<Longrightarrow> mem_wf (m\<lparr>tables := gm_set ns t (tables m)\<rparr>)"
  by (simp add: mem_wf_def list_all_gm_set [where P = gm_wf])

lemma mem_wf_set: "mem_wf m \<Longrightarrow> mem_wf (mem_set ns k v m)"
  by (simp add: mem_set_def mem_wf_set_tables mem_wf_namespace)

lemma mem_wf_del: "mem_wf m \<Longrightarrow> mem_wf (snd (mem_del ns k m))"
  by (simp add: mem_del_def mem_wf_set_tables mem_wf_namespace)

lemma mem_wf_update_tx:
  "mem_wf m \<Longrightarrow> tx_ok a tx \<Longrightarrow> mem_wf (m\<lparr>mem_txs := (mem_txs m)[a := tx]\<rparr>)"
  by (rule mem_wfI) (auto simp: mem_wf_tables nth_list_update_if mem_wf_tx)

lemma mem_wf_putChanges:
  "mem_wf m \<Longrightarrow> a < length (mem_txs m) \<Longrightarrow> gm_wf (Values ch) \<Longrightarrow> mem_wf (tx_putChanges a ns ch m)"
  unfolding tx_putChanges_def
  by (rule mem_wf_update_tx)
     (use mem_wf_tx [of m a] in \<open>auto simp: tx_ok_def list_all_gm_set [where P = "\<lambda>ch. gm_wf (Values ch)"]\<close>)

lemma mem_wf_tx_set:
  "mem_wf m \<Longrightarrow> a < length (mem_txs m) \<Longrightarrow> mem_wf (tx_set a ns k v m)"
  by (simp add: tx_set_def mem_wf_putChanges mem_wf_Values)

lemma mem_wf_tx_del:
  "mem_wf m \<Longrightarrow> a < length (mem_txs m) \<Longrightarrow> mem_wf (snd (tx_del a ns k m))"
  by (simp add: tx_del_def Let_def mem_wf_putChanges mem_wf_Values split: option.split)

lemma length_putChanges [simp]: "length (mem_txs (tx_putChanges a ns ch m)) = length (mem_txs m)"
  by (simp add: tx_putChanges_def)

lemma length_tx_set [simp]: "length (mem_txs (tx_set a ns k v m)) = length (mem_txs m)"
  by (simp add: tx_set_def)

lemma length_tx_del [simp]: "length (mem_txs (snd (tx_del a ns k m))) = length (mem_txs m)"
  by (simp add: tx_del_def Let_def split: option.split)

lemma length_mem_set [simp]: "mem_txs (mem_set ns k v m) = mem_txs m"
  by (simp add: mem_set_def)

lemma length_mem_del [simp]: "mem_txs (snd (mem_del ns k m)) = mem_txs m"
  by (simp add: mem_del_def)

section \<open>The two providers satisfy the contract\<close>

lemma mem_lookup_mem_set:
  "mem_lookup (mem_set ns k v m) ns' k' = (if ns' = ns \<and> k' = k then Some v else mem_lookup m ns' k')"
  by (simp add: mem_lookup_def mem_set_def mem_namespace_def gm_get_or_set)

lemma mem_lookup_mem_del:
  "mem_lookup (snd (mem_del ns k m)) ns' k' = (if ns' = ns \<and> k' = k then None else mem_lookup m ns' k')"
  by (auto simp: mem_lookup_def mem_del_def mem_namespace_def gm_get_or_set)

text \<open>A write into a transaction's changes is invisible below the transaction.\<close>

lemma putChanges_super:
  assumes "mem_wf m" "a < length (mem_txs m)"
  shows "act_lookup (tx_super (mem_txs m ! a)) (tx_putChanges a n ch m) ns k =
         act_lookup (tx_super (mem_txs m ! a)) m ns k"
proof (rule sym, rule act_lookup_cong)
  show "mem_namespace m n' = mem_namespace (tx_putChanges a n ch m) n'" for n'
    by (rule mem_namespace_tables) (simp add: tx_putChanges_def)
  show "same_tx (mem_txs m ! b) (mem_txs (tx_putChanges a n ch m) ! b)"
    if "b \<in> set (act_chain (tx_super (mem_txs m ! a)) m)" for b
    using that super_chain_not_self [OF assms]
    by (auto simp: tx_putChanges_def same_tx_def nth_list_update_if)
qed

lemma putChanges_self:
  assumes "mem_wf m" "a < length (mem_txs m)" "gm_wf (Values ch)"
  shows "tx_lookup (tx_putChanges a n ch m) a ns k =
    (if ns = n then
       (case gm_get (Values ch) k of
          Some v \<Rightarrow> Some v
        | None \<Rightarrow> (case gm_get (Deleted ch) k of
              Some _ \<Rightarrow> None
            | None \<Rightarrow> act_lookup (tx_super (mem_txs m ! a)) m ns k))
     else tx_lookup m a ns k)"
proof -
  have "tx_getChanges (tx_putChanges a n ch m) a ns = (if ns = n then ch else tx_getChanges m a ns)"
    using assms(2) by (simp add: tx_getChanges_def tx_putChanges_def gm_get_or_set)
  moreover have "tx_super (mem_txs (tx_putChanges a n ch m) ! a) = tx_super (mem_txs m ! a)"
    using assms(2) by (simp add: tx_putChanges_def)
  ultimately show ?thesis
    using assms
    by (cases "ns = n")
       (simp_all add: tx_lookup_unfold mem_wf_putChanges putChanges_super split: option.split)
qed

lemma tx_lookup_tx_set:
  assumes "mem_wf m" "a < length (mem_txs m)"
  shows "tx_lookup (tx_set a ns k v m) a ns' k' =
    (if ns' = ns \<and> k' = k then Some v else tx_lookup m a ns' k')"
  unfolding tx_set_def
  using assms by (simp add: putChanges_self mem_wf_Values)
     (simp add: tx_lookup_unfold split: option.split)

lemma tx_lookup_tx_del:
  assumes "mem_wf m" "a < length (mem_txs m)"
  shows "tx_lookup (snd (tx_del a ns k m)) a ns' k' =
    (if ns' = ns \<and> k' = k then None else tx_lookup m a ns' k')"
proof (cases "tx_lookup m a ns k")
  case None
  then show ?thesis by (simp add: tx_del_def)
next
  case (Some v)
  then show ?thesis using assms
    by (simp add: tx_del_def Let_def putChanges_self mem_wf_Values)
       (auto simp add: tx_lookup_unfold split: option.split)
qed

lemma mem_del_found: "fst (mem_del ns k m) = (mem_lookup m ns k \<noteq> None)"
  by (simp add: mem_del_def mem_lookup_def)

lemma tx_del_found: "fst (tx_del a ns k m) = (tx_lookup m a ns k \<noteq> None)"
  by (simp add: tx_del_def Let_def split: option.split)

interpretation mem: kv_actions mem_all mem_lookup mem_set mem_del mem_wf
  by unfold_locales
     (simp_all add: mem_lookup_all [symmetric] mem_lookup_mem_set mem_wf_set mem_lookup_mem_del
        mem_wf_del mem_del_found)

interpretation memtx: kv_actions "\<lambda>m. tx_all m a" "\<lambda>m. tx_lookup m a" "tx_set a" "tx_del a"
    "\<lambda>m. mem_wf m \<and> a < length (mem_txs m)" for a
  by unfold_locales
     (simp_all add: tx_lookup_all [symmetric] tx_lookup_tx_set mem_wf_tx_set tx_lookup_tx_del mem_wf_tx_del
        tx_del_found)

interpretation act: kv_actions "act_all s" "act_lookup s" "act_set s" "act_del s" "act_ok s" for s
proof (cases s)
  case SuperMemory
  then show "kv_actions (act_all s) (act_lookup s) (act_set s) (act_del s) (act_ok s)"
    by (simp add: act_all_def [abs_def] act_lookup_def [abs_def] act_set_def [abs_def]
        act_del_def [abs_def] act_ok_def [abs_def] mem.kv_actions_axioms)
next
  case (SuperTx p)
  then show "kv_actions (act_all s) (act_lookup s) (act_set s) (act_del s) (act_ok s)"
    by (simp add: act_all_def [abs_def] act_lookup_def [abs_def] act_set_def [abs_def]
        act_del_def [abs_def] act_ok_def [abs_def] memtx.kv_actions_axioms)
qed

lemma apply_changes_commit_all: "apply_changes s chs m = act.commit_all s chs m"
  by (simp add: apply_changes_def act.commit_all_def apply_values_def apply_deleted_def
      act.set_values_def act.del_keys_def)

section \<open>What writes leave alone\<close>

text \<open>
  Everything about the transactions but their changes: who is finished, who has which super, and
  the cancel state. Writes keep it.
\<close>

definition mem_meta :: "'v memory \<Rightarrow> (bool \<times> memory_actions \<times> nat) list \<times> nat list \<times> nat \<times> string" where
  "mem_meta m = (map (\<lambda>t. (tx_done t, tx_super t, tx_cancel t)) (mem_txs m),
                 cancelled m, next_cancel m, mem_NS m)"

lemma mem_meta_putChanges [simp]: "mem_meta (tx_putChanges a n ch m) = mem_meta m"
  by (cases "a < length (mem_txs m)")
     (auto simp: mem_meta_def tx_putChanges_def list_update_beyond
       intro!: nth_equalityI simp: nth_list_update_if)

lemma mem_meta_act_set [simp]: "mem_meta (act_set s ns k v m) = mem_meta m"
  by (cases s) (simp_all add: act_set_def tx_set_def, simp add: mem_set_def mem_meta_def)

lemma mem_meta_act_del [simp]: "mem_meta (snd (act_del s ns k m)) = mem_meta m"
  by (cases s)
     (simp_all add: act_del_def tx_del_def Let_def mem_del_def split: option.split,
      simp add: mem_meta_def)

lemma fold_invariant_snd:
  "(\<And>x m. f (g x m) = f m) \<Longrightarrow> f (fold g xs m) = f m"
  by (induction xs arbitrary: m) auto

lemma mem_meta_apply_changes [simp]: "mem_meta (apply_changes s chs m) = mem_meta m"
  unfolding apply_changes_def apply_values_def apply_deleted_def
  by (rule fold_invariant_snd) (auto simp: fold_invariant_snd split: prod.split)

lemma tables_act_SuperTx:
  "tables (act_set (SuperTx p) ns k v m) = tables m"
  "tables (snd (act_del (SuperTx p) ns k m)) = tables m"
  by (auto simp: act_set_def act_del_def tx_set_def tx_del_def tx_putChanges_def Let_def
      split: option.split)

lemma tables_apply_changes_SuperTx: "tables (apply_changes (SuperTx p) chs m) = tables m"
  unfolding apply_changes_def apply_values_def apply_deleted_def
  by (rule fold_invariant_snd) (auto simp: fold_invariant_snd tables_act_SuperTx split: prod.split)

lemma mem_meta_length: "mem_meta m = mem_meta m' \<Longrightarrow> length (mem_txs m) = length (mem_txs m')"
  by (auto simp: mem_meta_def dest: map_eq_imp_length_eq)

lemma mem_meta_nth:
  assumes "mem_meta m = mem_meta m'" "a < length (mem_txs m)"
  shows "tx_done (mem_txs m ! a) = tx_done (mem_txs m' ! a) \<and>
         tx_super (mem_txs m ! a) = tx_super (mem_txs m' ! a)"
proof -
  have len: "length (mem_txs m) = length (mem_txs m')" using assms(1) by (rule mem_meta_length)
  have "map (\<lambda>t. (tx_done t, tx_super t, tx_cancel t)) (mem_txs m) ! a =
        map (\<lambda>t. (tx_done t, tx_super t, tx_cancel t)) (mem_txs m') ! a"
    using assms(1) by (simp add: mem_meta_def)
  with assms(2) len show ?thesis by simp
qed

section \<open>Commit\<close>

lemma tx_finish_simps [simp]:
  "tables (tx_finish a m) = tables m" "mem_NS (tx_finish a m) = mem_NS m"
  "length (mem_txs (tx_finish a m)) = length (mem_txs m)"
  "tx_super (mem_txs (tx_finish a m) ! b) = tx_super (mem_txs m ! b)"
  "tx_changes (mem_txs (tx_finish a m) ! b) = tx_changes (mem_txs m ! b)"
  "next_cancel (tx_finish a m) = next_cancel m"
  by (simp_all add: tx_finish_def context_cancel_def nth_list_update_if)

lemma tx_finish_done:
  "a < length (mem_txs m) \<Longrightarrow>
     tx_done (mem_txs (tx_finish a m) ! b) = (b = a \<or> tx_done (mem_txs m ! b))"
  by (simp add: tx_finish_def context_cancel_def nth_list_update_if)

lemma tx_ok_finish: "tx_ok b (mem_txs (tx_finish a m) ! b) = tx_ok b (mem_txs m ! b)"
  by (simp add: tx_ok_def)

lemma mem_wf_finish [simp]: "mem_wf (tx_finish a m) = mem_wf m"
  by (simp add: mem_wf_def tx_ok_finish list_all_iff)

lemma same_tx_finish [simp]: "same_tx (mem_txs m ! b) (mem_txs (tx_finish a m) ! b)"
  by (simp add: same_tx_def)

lemma act_lookup_finish [simp]: "act_lookup s (tx_finish a m) ns k = act_lookup s m ns k"
  by (rule sym, rule act_lookup_cong) (auto intro: mem_namespace_tables)

lemma tx_commit_spec:
  assumes wf: "mem_wf m" and a: "a < length (mem_txs m)" and nd: "\<not> tx_done (mem_txs m ! a)"
    and cm: "tx_commit a m = (r, m')"
  shows "r = None \<and> mem_wf m' \<and> mem_meta m' = mem_meta (tx_finish a m) \<and>
         act_lookup (tx_super (mem_txs m ! a)) m' ns k = tx_lookup m a ns k"
proof -
  let ?s = "tx_super (mem_txs m ! a)" and ?chs = "tx_changes (mem_txs m ! a)"
  have m': "r = None" "m' = apply_changes ?s ?chs (tx_finish a m)"
    using cm nd by (simp_all add: tx_commit_def)
  have ok: "act_ok ?s (tx_finish a m)"
    using act_ok_super [OF wf a] by (simp add: act_ok_def split: memory_actions.splits)
  have chs: "gm_wf ?chs" "list_all (\<lambda>(ns, ch). gm_wf (Values ch)) ?chs"
    using mem_wf_tx [OF wf a] by (simp_all add: tx_ok_def)
  note sp = act.commit_all_spec [OF ok chs, of ns k]
  have "act_lookup ?s m' ns k = tx_lookup m a ns k"
    using sp wf a
    by (simp add: m' apply_changes_commit_all tx_lookup_unfold tx_getChanges_def gm_get_or_def
        split: option.split)
  moreover have "mem_wf m'"
    using sp by (simp add: m' apply_changes_commit_all act_ok_def)
  ultimately show ?thesis by (simp add: m')
qed

section \<open>Rollback\<close>

lemma tx_rollback_unfold:
  "mem_wf m \<Longrightarrow> a < length (mem_txs m) \<Longrightarrow>
     tx_rollback a m =
       (if tx_done (mem_txs m ! a) then (Some errTxDone, m)
        else case tx_super (mem_txs m ! a) of
               SuperMemory \<Rightarrow> (None, tx_finish a m)
             | SuperTx p \<Rightarrow> tx_rollback p (tx_finish a m))"
  by (subst tx_rollback.simps) (auto split: memory_actions.split dest: mem_wf_super)

lemma tx_rollback_frame:
  "tx_rollback a m = (r, m') \<Longrightarrow>
     tables m' = tables m \<and> mem_NS m' = mem_NS m \<and> length (mem_txs m') = length (mem_txs m) \<and>
     next_cancel m' = next_cancel m \<and> (mem_wf m \<longrightarrow> mem_wf m') \<and>
     (\<forall>b. same_tx (mem_txs m ! b) (mem_txs m' ! b))"
proof (induction a arbitrary: m rule: less_induct)
  case (less a)
  show ?case
  proof (cases "tx_done (mem_txs m ! a)")
    case True
    with less.prems show ?thesis by (simp add: tx_rollback.simps [of a m] same_tx_def)
  next
    case nd: False
    show ?thesis
    proof (cases "\<exists>p. tx_super (mem_txs m ! a) = SuperTx p \<and> p < a")
      case True
      then obtain p where p: "tx_super (mem_txs m ! a) = SuperTx p" "p < a" by blast
      with less.prems nd have "tx_rollback p (tx_finish a m) = (r, m')"
        by (simp add: tx_rollback.simps [of a m])
      from less.IH [OF p(2) this] show ?thesis by (simp add: same_tx_def)
    next
      case False
      with less.prems nd have "m' = tx_finish a m"
        by (auto simp: tx_rollback.simps [of a m] split: memory_actions.splits if_splits)
      then show ?thesis by simp
    qed
  qed
qed

lemma tx_chain_finish: "tx_chain (tx_finish a m) b = tx_chain m b"
  using tx_lookup_cong [of m "tx_finish a m" b] by (simp add: mem_namespace_def)

text \<open>Rolling back an open transaction finishes it and every transaction that encloses it.\<close>

lemma tx_rollback_chain:
  assumes "mem_wf m" "a < length (mem_txs m)"
    and "\<forall>b \<in> set (tx_chain m a). \<not> tx_done (mem_txs m ! b)"
  shows "fst (tx_rollback a m) = None \<and>
     (\<forall>b. tx_done (mem_txs (snd (tx_rollback a m)) ! b) \<longleftrightarrow>
            b \<in> set (tx_chain m a) \<or> tx_done (mem_txs m ! b))"
  using assms
proof (induction a arbitrary: m rule: less_induct)
  case (less a)
  have ch: "tx_chain m a = a # act_chain (tx_super (mem_txs m ! a)) m"
    using less.prems by (simp add: tx_chain_unfold)
  show ?case
  proof (cases "tx_super (mem_txs m ! a)")
    case SuperMemory
    then show ?thesis using less.prems ch
      by (simp add: tx_rollback_unfold tx_finish_done act_chain_def)
  next
    case (SuperTx p)
    with less.prems have p: "p < a" by (blast dest: mem_wf_super)
    have "\<forall>b \<in> set (tx_chain (tx_finish a m) p). \<not> tx_done (mem_txs (tx_finish a m) ! b)"
      using less.prems ch SuperTx super_chain_not_self [of m a]
      by (auto simp: tx_chain_finish act_chain_def tx_finish_done)
    with less.IH [OF p, of "tx_finish a m"] less.prems p SuperTx ch show ?thesis
      by (auto simp: tx_rollback_unfold tx_chain_finish act_chain_def tx_finish_done)
  qed
qed

section \<open>Reachable memories\<close>

text \<open>
  The states that a program using the memory can reach, with the contexts it holds: it may derive
  contexts from those it has (with a cancel function, with foreign values, detached), call cancel
  functions, and call the operations of \<^verbatim>\<open>Memory\<close> with any context it holds.
\<close>

inductive mem_reach :: "'v memory \<Rightarrow> mctx set \<Rightarrow> bool" where
  start: "mem_reach (NewMemory ns) {Background}"
| derive_cancel: "mem_reach m C \<Longrightarrow> c \<in> C \<Longrightarrow> context_WithCancel c m = ((c', i), m') \<Longrightarrow>
    mem_reach m' (insert c' C)"
| derive_value: "mem_reach m C \<Longrightarrow> c \<in> C \<Longrightarrow> k \<noteq> mem_NS m \<Longrightarrow>
    mem_reach m (insert (WithValueCtx k v c) C)"
| derive_detached: "mem_reach m C \<Longrightarrow> c \<in> C \<Longrightarrow>
    mem_reach m (insert (contextkit_WithoutCancel c) C)"
| cancel: "mem_reach m C \<Longrightarrow> mem_reach (context_cancel i m) C"
| begin_tx: "mem_reach m C \<Longrightarrow> c \<in> C \<Longrightarrow> mem_BeginTx c m = ((c', e), m') \<Longrightarrow>
    mem_reach m' (insert c' C)"
| commit_tx: "mem_reach m C \<Longrightarrow> c \<in> C \<Longrightarrow> mem_CommitTx c m = (e, m') \<Longrightarrow> mem_reach m' C"
| rollback_tx: "mem_reach m C \<Longrightarrow> c \<in> C \<Longrightarrow> mem_RollbackTx c m = (e, m') \<Longrightarrow> mem_reach m' C"
| set_value: "mem_reach m C \<Longrightarrow> c \<in> C \<Longrightarrow> mem_reach (mem_Set c ns key v m) C"
| del_value: "mem_reach m C \<Longrightarrow> c \<in> C \<Longrightarrow> mem_Del c ns key m = (b, m') \<Longrightarrow> mem_reach m' C"
| purge: "mem_reach m C \<Longrightarrow> c \<in> C \<Longrightarrow> mem_PurgeNamespace c ns m = (e, m') \<Longrightarrow> mem_reach m' C"

definition ctx_ok :: "'v memory \<Rightarrow> mctx \<Rightarrow> bool" where
  "ctx_ok m c \<longleftrightarrow> (case mem_LookupTx m c of None \<Rightarrow> True | Some a \<Rightarrow> a < length (mem_txs m))"

lemma ctx_okD: "ctx_ok m c \<Longrightarrow> mem_LookupTx m c = Some a \<Longrightarrow> a < length (mem_txs m)"
  by (simp add: ctx_ok_def)

lemma ctx_ok_mono:
  "ctx_ok m c \<Longrightarrow> mem_NS m' = mem_NS m \<Longrightarrow> length (mem_txs m) \<le> length (mem_txs m') \<Longrightarrow> ctx_ok m' c"
  by (auto simp: ctx_ok_def mem_LookupTx_def split: option.splits)

lemma ctx_ok_ctx_update [simp]:
  "ctx_ok (m\<lparr>next_cancel := n\<rparr>) c = ctx_ok m c" "ctx_ok (context_cancel i m) c = ctx_ok m c"
  by (auto simp: context_cancel_def elim: ctx_ok_mono)

lemma mem_wf_NewMemory [simp]: "mem_wf (NewMemory ns)"
  by (simp add: NewMemory_def mem_wf_def)

lemma mem_wf_ctx_update [simp]:
  "mem_wf (m\<lparr>next_cancel := n\<rparr>) = mem_wf m" "mem_wf (context_cancel i m) = mem_wf m"
  by (simp_all add: mem_wf_def context_cancel_def)

lemma mem_BeginTx_ok:
  assumes "mem_wf m" "ctx_ok m c" "mem_BeginTx c m = ((c', None), m')"
  shows "mem_wf m' \<and> mem_NS m' = mem_NS m \<and> length (mem_txs m') = Suc (length (mem_txs m)) \<and>
         mem_LookupTx m' c' = Some (length (mem_txs m)) \<and>
         tx_super (mem_txs m' ! length (mem_txs m)) =
           (case mem_LookupTx m c of Some tx \<Rightarrow> SuperTx tx | None \<Rightarrow> SuperMemory) \<and>
         \<not> tx_done (mem_txs m' ! length (mem_txs m)) \<and>
         tx_changes (mem_txs m' ! length (mem_txs m)) = [] \<and>
         tables m' = tables m \<and> (\<forall>b < length (mem_txs m). mem_txs m' ! b = mem_txs m ! b)"
proof -
  from assms(3) have m': "m' = m\<lparr>next_cancel := Suc (next_cancel m), mem_txs := mem_txs m @
       [\<lparr>tx_done = False, tx_super = (case mem_LookupTx m c of Some tx \<Rightarrow> SuperTx tx | None \<Rightarrow> SuperMemory),
          tx_changes = [], tx_cancel = next_cancel m\<rparr>]\<rparr>"
    and c': "c' = WithValueCtx (mem_NS m) (length (mem_txs m)) (WithCancelCtx (next_cancel m) c)"
    by (auto simp: mem_BeginTx_def context_WithCancel_def Let_def split: option.splits)
  have "mem_wf m'"
  proof (rule mem_wfI)
    show "list_all (\<lambda>(ns, t). gm_wf t) (tables m')" by (simp add: m' mem_wf_tables assms)
    fix a assume "a < length (mem_txs m')"
    then consider "a < length (mem_txs m)" | "a = length (mem_txs m)" by (force simp: m')
    then show "tx_ok a (mem_txs m' ! a)"
    proof cases
      case 1
      then show ?thesis using assms(1) by (simp add: m' nth_append mem_wf_tx)
    next
      case 2
      then show ?thesis using assms(2) by (simp add: m' tx_ok_def ctx_ok_def split: option.splits)
    qed
  qed
  then show ?thesis by (simp add: m' c' mem_LookupTx_def nth_append)
qed

lemma mem_CommitTx_frame:
  assumes "mem_wf m" "ctx_ok m c" "mem_CommitTx c m = (e, m')"
  shows "mem_wf m' \<and> mem_NS m' = mem_NS m \<and> length (mem_txs m') = length (mem_txs m)"
proof (cases "m' = m")
  case False
  with assms(3) obtain a where a: "mem_LookupTx m c = Some a" "tx_commit a m = (e, m')"
      "\<not> tx_done (mem_txs m ! a)"
    by (auto simp: mem_CommitTx_def tx_commit_def split: option.splits if_splits)
  from tx_commit_spec [OF assms(1) ctx_okD [OF assms(2) a(1)] a(3,2)]
  have wf: "mem_wf m'" and meta: "mem_meta m' = mem_meta (tx_finish a m)" by blast+
  from meta have "mem_NS m' = mem_NS (tx_finish a m)" by (simp add: mem_meta_def)
  with wf mem_meta_length [OF meta] show ?thesis by simp
qed (use assms in simp)

lemma mem_RollbackTx_frame:
  assumes "mem_RollbackTx c m = (e, m')"
  shows "(mem_wf m \<longrightarrow> mem_wf m') \<and> mem_NS m' = mem_NS m \<and>
         length (mem_txs m') = length (mem_txs m) \<and> tables m' = tables m"
  using assms tx_rollback_frame by (auto simp: mem_RollbackTx_def split: option.splits)

lemma mem_Set_frame:
  "mem_wf m \<Longrightarrow> ctx_ok m c \<Longrightarrow>
     mem_wf (mem_Set c ns k v m) \<and> mem_NS (mem_Set c ns k v m) = mem_NS m \<and>
     length (mem_txs (mem_Set c ns k v m)) = length (mem_txs m)"
  by (auto simp: mem_Set_def ctx_ok_def mem_wf_set mem_wf_tx_set mem_set_def tx_set_def
      tx_putChanges_def split: option.split)
     (simp_all add: mem_wf_set [unfolded mem_set_def] mem_wf_tx_set [unfolded tx_set_def tx_putChanges_def])

lemma mem_NS_tx_del [simp]: "mem_NS (snd (tx_del a ns k m)) = mem_NS m"
  by (simp add: tx_del_def Let_def tx_putChanges_def split: option.split)

lemma mem_NS_mem_del [simp]: "mem_NS (snd (mem_del ns k m)) = mem_NS m"
  by (simp add: mem_del_def)

lemma mem_Del_frame:
  "mem_wf m \<Longrightarrow> ctx_ok m c \<Longrightarrow>
     mem_wf (snd (mem_Del c ns k m)) \<and> mem_NS (snd (mem_Del c ns k m)) = mem_NS m \<and>
     length (mem_txs (snd (mem_Del c ns k m))) = length (mem_txs m)"
  by (simp add: mem_Del_def ctx_ok_def mem_wf_del mem_wf_tx_del split: option.splits)

lemma fold_tx_del_frame:
  "mem_wf m \<Longrightarrow> a < length (mem_txs m) \<Longrightarrow>
     mem_wf (fold (\<lambda>key m. snd (tx_del a ns key m)) ks m) \<and>
     mem_NS (fold (\<lambda>key m. snd (tx_del a ns key m)) ks m) = mem_NS m \<and>
     length (mem_txs (fold (\<lambda>key m. snd (tx_del a ns key m)) ks m)) = length (mem_txs m)"
  by (induction ks arbitrary: m) (auto simp: mem_wf_tx_del)

lemma mem_PurgeNamespace_frame:
  "mem_wf m \<Longrightarrow> ctx_ok m c \<Longrightarrow> mem_PurgeNamespace c ns m = (e, m') \<Longrightarrow>
     mem_wf m' \<and> mem_NS m' = mem_NS m \<and> length (mem_txs m') = length (mem_txs m)"
  by (auto simp: mem_PurgeNamespace_def ctx_ok_def fold_tx_del_frame mem_wf_set_tables
      split: option.splits if_splits)

text \<open>Every reachable memory is well formed and every context in use points to a live transaction.\<close>

lemma mem_reach_inv: "mem_reach m C \<Longrightarrow> mem_wf m \<and> (\<forall>c \<in> C. ctx_ok m c)"
proof (induction rule: mem_reach.induct)
  case (start ns)
  then show ?case by (simp add: ctx_ok_def mem_LookupTx_def)
next
  case (begin_tx m C c c' e m')
  show ?case
  proof (cases e)
    case None
    with begin_tx have "mem_BeginTx c m = ((c', None), m')" "mem_wf m" "ctx_ok m c" by auto
    note ok = mem_BeginTx_ok [OF this(2,3,1)]
    then have "ctx_ok m' c'" by (simp add: ctx_ok_def)
    moreover have "\<forall>c \<in> C. ctx_ok m' c" using begin_tx ok by (auto intro: ctx_ok_mono)
    ultimately show ?thesis using ok by blast
  next
    case (Some err)
    with begin_tx have "m' = m" "c' = c"
      by (auto simp: mem_BeginTx_def context_WithCancel_def Let_def split: option.splits)
    with begin_tx show ?thesis by auto
  qed
next
  case (commit_tx m C c e m')
  then show ?case using mem_CommitTx_frame [of m c e m'] by (auto intro: ctx_ok_mono)
next
  case (rollback_tx m C c e m')
  then show ?case using mem_RollbackTx_frame [of c m e m'] by (auto intro: ctx_ok_mono)
next
  case (set_value m C c ns key v)
  then show ?case using mem_Set_frame [of m c ns key v] by (auto intro: ctx_ok_mono)
next
  case (del_value m C c ns key b m')
  then show ?case using mem_Del_frame [of m c ns key] by (auto intro: ctx_ok_mono)
next
  case (purge m C c ns e m')
  then show ?case using mem_PurgeNamespace_frame [of m c ns e m'] by (auto intro: ctx_ok_mono)
next
  case (derive_cancel m C c c' i m')
  then have "m' = m\<lparr>next_cancel := Suc (next_cancel m)\<rparr>" and "c' = WithCancelCtx (next_cancel m) c"
    by (auto simp: context_WithCancel_def)
  moreover have "ctx_ok m c'" using derive_cancel calculation by (simp add: ctx_ok_def mem_LookupTx_def)
  ultimately show ?case using derive_cancel by auto
next
  case (derive_value m C c k v)
  then show ?case by (auto simp: ctx_ok_def mem_LookupTx_def)
next
  case (derive_detached m C c)
  then show ?case by (auto simp: ctx_ok_def mem_LookupTx_def)
next
  case (cancel m C i)
  then show ?case by simp
qed

section \<open>Memory provides the one-phase commit protocol\<close>

text \<open>
  Seen from a context that is in no transaction: \<^verbatim>\<open>base\<close> is such a context, \<^verbatim>\<open>within\<close> an
  open transaction started directly over the tables. The view is what \<^verbatim>\<open>Get\<close> returns.
\<close>

definition mem_base :: "'v memory \<Rightarrow> mctx \<Rightarrow> bool" where
  "mem_base m c \<longleftrightarrow> mem_wf m \<and> mem_LookupTx m c = None"

definition mem_within :: "'v memory \<Rightarrow> mctx \<Rightarrow> mctx \<Rightarrow> bool" where
  "mem_within m c c' \<longleftrightarrow> mem_base m c \<and>
     (case mem_LookupTx m c' of None \<Rightarrow> False
      | Some a \<Rightarrow> a < length (mem_txs m) \<and> tx_super (mem_txs m ! a) = SuperMemory \<and>
                  \<not> tx_done (mem_txs m ! a))"

lemma mem_withinE:
  assumes "mem_within m c c'"
  obtains a where "mem_wf m" "mem_LookupTx m c = None" "mem_LookupTx m c' = Some a"
    "a < length (mem_txs m)" "tx_super (mem_txs m ! a) = SuperMemory" "\<not> tx_done (mem_txs m ! a)"
  using assms by (auto simp: mem_within_def mem_base_def split: option.splits)

lemma mem_Get_base: "mem_LookupTx m c = None \<Longrightarrow> mem_Get m c = mem_lookup m"
  by (simp add: mem_Get_def fun_eq_iff)

lemma mem_Get_open:
  "mem_LookupTx m c = Some a \<Longrightarrow> \<not> tx_done (mem_txs m ! a) \<Longrightarrow> mem_Get m c = tx_lookup m a"
  by (simp add: mem_Get_def fun_eq_iff)

lemma mem_lookup_tables: "tables m' = tables m \<Longrightarrow> mem_lookup m' = mem_lookup m"
  by (simp add: mem_lookup_def mem_namespace_def fun_eq_iff)

lemma mem_BeginTx_view:
  assumes "mem_wf m" "ctx_ok m c" "mem_BeginTx c m = ((c', None), m')"
  shows "act_lookup (tx_super (mem_txs m' ! length (mem_txs m))) m' = tx_lookup m' (length (mem_txs m))"
proof (intro ext)
  fix ns k
  note B = mem_BeginTx_ok [OF assms]
  then have "tx_changes (mem_txs m' ! length (mem_txs m)) = []" "mem_wf m'"
    "length (mem_txs m') = Suc (length (mem_txs m))" by blast+
  then have "tx_getChanges m' (length (mem_txs m)) ns = \<lparr>Values = [], Deleted = []\<rparr>"
    "mem_wf m'" "length (mem_txs m) < length (mem_txs m')"
    by (simp_all add: tx_getChanges_def gm_get_or_def)
  then show "act_lookup (tx_super (mem_txs m' ! length (mem_txs m))) m' ns k =
      tx_lookup m' (length (mem_txs m)) ns k"
    by (simp add: tx_lookup_unfold)
qed

lemma mem_commit_effect:
  assumes "mem_wf m" "ctx_ok m c" "ctx_Err m c = None" "mem_LookupTx m c = Some a"
    and "\<not> tx_done (mem_txs m ! a)" "mem_CommitTx c m = (r, m')"
  shows "r = None \<and> mem_wf m' \<and> mem_meta m' = mem_meta (tx_finish a m) \<and>
         act_lookup (tx_super (mem_txs m ! a)) m' = tx_lookup m a"
  using tx_commit_spec [OF assms(1) ctx_okD [OF assms(2,4)] assms(5)] assms(3,4,6)
  by (auto simp: mem_CommitTx_def fun_eq_iff)

interpretation memcommit: one_phase_commit mem_BeginTx mem_CommitTx mem_RollbackTx mem_Get mem_base mem_within
proof
  fix m m' :: "'a memory" and c c' :: mctx and e
  assume "mem_base m c" "mem_BeginTx c m = ((c', Some e), m')"
  then show "mem_Get m' c = mem_Get m c"
    by (auto simp: mem_BeginTx_def Let_def split: option.splits prod.splits)
next
  fix m m' :: "'a memory" and c c' :: mctx
  assume b: "mem_base m c" and bg: "mem_BeginTx c m = ((c', None), m')"
  then have wf: "mem_wf m" and no: "mem_LookupTx m c = None" by (simp_all add: mem_base_def)
  have ok: "ctx_ok m c" by (simp add: ctx_ok_def no)
  note B = mem_BeginTx_ok [OF wf ok bg]
  have no': "mem_LookupTx m' c = None" using no B by (simp add: mem_LookupTx_def)
  have T: "mem_lookup m' = mem_lookup m" using B by (blast intro: mem_lookup_tables)
  have "mem_Get m' c' = act_lookup SuperMemory m'"
    using mem_BeginTx_view [OF wf ok bg] B by (simp add: mem_Get_open no)
  also have "\<dots> = mem_lookup m" by (simp add: act_lookup_def fun_eq_iff T)
  finally have "mem_Get m' c' = mem_lookup m" .
  then show "mem_within m' c c' \<and> mem_Get m' c' = mem_Get m c \<and> mem_Get m' c = mem_Get m c"
    using B no no' by (simp add: mem_within_def mem_base_def mem_Get_base T)
next
  fix m m' :: "'a memory" and c c' :: mctx
  assume w: "mem_within m c c'" and cm: "mem_CommitTx c' m = (None, m')"
  from w obtain a where a: "mem_wf m" "mem_LookupTx m c = None" "mem_LookupTx m c' = Some a"
    "a < length (mem_txs m)" "tx_super (mem_txs m ! a) = SuperMemory" "\<not> tx_done (mem_txs m ! a)"
    by (rule mem_withinE)
  have "ctx_ok m c'" by (simp add: ctx_ok_def a)
  moreover have "ctx_Err m c' = None" using cm by (auto simp: mem_CommitTx_def split: option.splits)
  ultimately have E: "mem_meta m' = mem_meta (tx_finish a m)" "act_lookup SuperMemory m' = tx_lookup m a"
    using mem_commit_effect [OF a(1) _ _ a(3,6) cm] a(5) by auto
  then have "mem_LookupTx m' c = None" using a(2) by (simp add: mem_LookupTx_def mem_meta_def)
  moreover have "mem_lookup m' = tx_lookup m a" using E(2) by (auto simp: act_lookup_def fun_eq_iff)
  ultimately show "mem_Get m' c = mem_Get m c'" using a by (simp add: mem_Get_base mem_Get_open)
next
  fix m m' :: "'a memory" and c c' :: mctx and e
  assume w: "mem_within m c c'" and cm: "mem_CommitTx c' m = (Some e, m')"
  then show "mem_Get m' c = mem_Get m c"
    by (auto simp: mem_CommitTx_def tx_commit_def elim!: mem_withinE split: option.splits if_splits)
next
  fix m m' :: "'a memory" and c c' :: mctx and r
  assume w: "mem_within m c c'" and "mem_RollbackTx c' m = (r, m')"
  then have "tables m' = tables m" "mem_NS m' = mem_NS m" using mem_RollbackTx_frame by blast+
  moreover from w have "mem_LookupTx m c = None" by (auto elim: mem_withinE)
  moreover have "mem_lookup m' = mem_lookup m" using calculation by (blast intro: mem_lookup_tables)
  ultimately show "mem_Get m' c = mem_Get m c" by (simp add: mem_Get_base mem_LookupTx_def)
qed

section \<open>Isolation of open transactions\<close>

text \<open>The transactions that reads through a context go through.\<close>

definition ctx_chain :: "'v memory \<Rightarrow> mctx \<Rightarrow> nat list" where
  "ctx_chain m c = (case mem_LookupTx m c of None \<Rightarrow> [] | Some b \<Rightarrow> tx_chain m b)"

lemma putChanges_other:
  assumes "a \<notin> set (tx_chain m b)"
  shows "tx_lookup (tx_putChanges a n ch m) b ns k = tx_lookup m b ns k"
proof -
  have "tx_lookup m b ns k = tx_lookup (tx_putChanges a n ch m) b ns k"
  proof (rule conjunct1 [OF tx_lookup_cong])
    show "mem_namespace m n' = mem_namespace (tx_putChanges a n ch m) n'" for n'
      by (rule mem_namespace_tables) (simp add: tx_putChanges_def)
    show "same_tx (mem_txs m ! x) (mem_txs (tx_putChanges a n ch m) ! x)" if "x \<in> set (tx_chain m b)" for x
      using that assms by (auto simp: tx_putChanges_def same_tx_def nth_list_update_if)
  qed
  then show ?thesis by simp
qed

lemma tx_write_cases:
  "(\<exists>ch. tx_set a ns k v m = tx_putChanges a ns ch m) \<and>
   (snd (tx_del a ns k m) = m \<or> (\<exists>ch. snd (tx_del a ns k m) = tx_putChanges a ns ch m))"
  by (auto simp: tx_set_def tx_del_def Let_def split: option.split)

lemma putChanges_Get_other:
  assumes "a \<notin> set (ctx_chain m c)"
  shows "mem_Get (tx_putChanges a n ch m) c ns k = mem_Get m c ns k"
proof -
  have NS: "mem_LookupTx (tx_putChanges a n ch m) c = mem_LookupTx m c"
    by (simp add: mem_LookupTx_def tx_putChanges_def)
  have T: "mem_lookup (tx_putChanges a n ch m) = mem_lookup m"
    by (rule mem_lookup_tables) (simp add: tx_putChanges_def)
  have D: "tx_done (mem_txs (tx_putChanges a n ch m) ! b) = tx_done (mem_txs m ! b)" for b
    by (simp add: tx_putChanges_def nth_list_update_if)
  show ?thesis
  proof (cases "mem_LookupTx m c")
    case None
    then show ?thesis by (simp add: mem_Get_def NS T)
  next
    case (Some b)
    with assms have "a \<notin> set (tx_chain m b)" by (simp add: ctx_chain_def)
    with Some show ?thesis by (simp add: mem_Get_def NS T D putChanges_other)
  qed
qed

section \<open>Properties\<close>

text \<open>A small memory for the witnesses: one committed value, and an open transaction over it.\<close>

definition ex_mem :: "nat memory" where
  "ex_mem = mem_set ''ns'' ''k'' 5 (NewMemory ''M'')"

definition ex_tx :: "mctx \<times> nat memory" where
  "ex_tx = (WithValueCtx ''M'' 0 (WithCancelCtx 0 Background), snd (mem_BeginTx Background ex_mem))"

lemma ex_mem_value: "ex_mem = \<lparr>cancelled = [], next_cancel = 0, mem_NS = ''M'',
    tables = [(''ns'', [(''k'', 5)])], mem_txs = []\<rparr>"
  by (simp add: ex_mem_def mem_set_def NewMemory_def mem_namespace_def gm_get_or_def gm_set_def)

lemma ex_begin: "mem_BeginTx Background ex_mem = ((fst ex_tx, None), snd ex_tx)"
  by (simp add: ex_tx_def ex_mem_value mem_BeginTx_def mem_LookupTx_def context_WithCancel_def Let_def)

lemma ex_tx_value: "snd ex_tx = \<lparr>cancelled = [], next_cancel = 1, mem_NS = ''M'',
    tables = [(''ns'', [(''k'', 5)])],
    mem_txs = [\<lparr>tx_done = False, tx_super = SuperMemory, tx_changes = [], tx_cancel = 0\<rparr>]\<rparr>"
  by (simp add: ex_tx_def ex_mem_value mem_BeginTx_def mem_LookupTx_def context_WithCancel_def Let_def)

lemma ex_tx_ok:
  "mem_wf (snd ex_tx)" "ctx_ok (snd ex_tx) (fst ex_tx)" "ctx_Err (snd ex_tx) (fst ex_tx) = None"
  "mem_LookupTx (snd ex_tx) (fst ex_tx) = Some 0" "\<not> tx_done (mem_txs (snd ex_tx) ! 0)"
  by (simp_all add: ex_tx_value, simp_all add: mem_wf_def tx_ok_def ctx_ok_def ex_tx_def mem_LookupTx_def gm_wf_def)

text \<open>Reading inside a transaction agrees with listing it, at any nesting depth: for a context with
  an open transaction \<^verbatim>\<open>Get\<close> finds exactly the entries of \<^verbatim>\<open>all\<close>, and \<^verbatim>\<open>All\<close>
  lists exactly the values that \<^verbatim>\<open>Get\<close> finds.\<close>

theorem mem_Get_All:
  assumes "mem_wf m" "ctx_ok m c"
  shows "set (mem_All m c ns) = ran (mem_Get m c ns)"
proof -
  have rg: "set (mem_toTSlice t) = ran (map_of t)" if "gm_wf t" for t :: "(string, 'a) gomap"
    using that by (force simp: mem_toTSlice_def ran_def gm_in_set [symmetric] image_iff)
  have "mem_lookup m ns = map_of (mem_all m ns)" by (simp add: fun_eq_iff mem_lookup_all assms(1))
  moreover have "tx_lookup m a ns = map_of (tx_all m a ns)" if "mem_LookupTx m c = Some a" for a
    using that ctx_okD [OF assms(2)] by (simp add: fun_eq_iff tx_lookup_all assms(1))
  ultimately show ?thesis
    by (auto simp: mem_All_def mem_Get_def [abs_def] rg split: option.splits if_splits)
qed

text \<open>C2: read-your-writes and isolation. A \<^verbatim>\<open>Set\<close> or \<^verbatim>\<open>Del\<close> through a context with an
  open transaction is what that context reads back, and is invisible to every context whose own
  transaction is not nested in it.\<close>

theorem mem_tx_isolated:
  assumes "mem_wf m" "mem_LookupTx m c = Some a" "a < length (mem_txs m)" "\<not> tx_done (mem_txs m ! a)"
  shows "mem_Get (mem_Set c ns k v m) c ns' k' =
           (if ns' = ns \<and> k' = k then Some v else mem_Get m c ns' k') \<and>
         mem_Get (snd (mem_Del c ns k m)) c ns' k' =
           (if ns' = ns \<and> k' = k then None else mem_Get m c ns' k') \<and>
         (a \<notin> set (ctx_chain m c') \<longrightarrow>
            mem_Get (mem_Set c ns k v m) c' ns' k' = mem_Get m c' ns' k' \<and>
            mem_Get (snd (mem_Del c ns k m)) c' ns' k' = mem_Get m c' ns' k')"
proof -
  have W: "mem_Set c ns k v m = tx_set a ns k v m" "mem_Del c ns k m = tx_del a ns k m"
    using assms(2) by (simp_all add: mem_Set_def mem_Del_def)
  have S: "mem_LookupTx m2 c = Some a" "\<not> tx_done (mem_txs m2 ! a)"
    if "m2 = m \<or> (\<exists>ch. m2 = tx_putChanges a ns ch m)" for m2
    using that assms(2,4) by (auto simp: mem_LookupTx_def tx_putChanges_def nth_list_update_if split: if_splits)
  note wr = tx_write_cases [of a ns k v m]
  have Gs: "mem_Get (tx_set a ns k v m) c = tx_lookup (tx_set a ns k v m) a" using S wr by (intro mem_Get_open) auto
  have Gd: "mem_Get (snd (tx_del a ns k m)) c = tx_lookup (snd (tx_del a ns k m)) a"
    using S wr by (intro mem_Get_open) auto
  have G0: "mem_Get m c = tx_lookup m a" using S by (intro mem_Get_open) auto
  show ?thesis
    unfolding W Gs Gd G0 using wr putChanges_Get_other [of a m c']
    by (auto simp: tx_lookup_tx_set tx_lookup_tx_del assms(1,3))
qed

theorem mem_tx_isolated_witness:
  "mem_Get (mem_Set (fst ex_tx) ''ns'' ''k'' 7 (snd ex_tx)) (fst ex_tx) ''ns'' ''k'' = Some 7 \<and>
   mem_Get (mem_Set (fst ex_tx) ''ns'' ''k'' 7 (snd ex_tx)) Background ''ns'' ''k'' = Some 5"
proof -
  have "0 \<notin> set (ctx_chain (snd ex_tx) Background)" by (simp add: ctx_chain_def mem_LookupTx_def)
  moreover have "mem_Get (snd ex_tx) Background ''ns'' ''k'' = Some 5"
    by (simp add: ex_tx_value mem_Get_def mem_LookupTx_def mem_lookup_def mem_namespace_def gm_get_or_def)
  ultimately show ?thesis
    using mem_tx_isolated [OF ex_tx_ok(1,4) _ ex_tx_ok(5), of "''ns''" "''k''" 7 "''ns''" "''k''" Background]
    by (simp add: ex_tx_value)
qed

text \<open>C1: a successful commit publishes exactly what its context saw. It finishes the transaction and
  makes the super (the tables, or the enclosing transaction) agree with the transaction's reads on every
  key of every namespace; a nested commit leaves the tables untouched.\<close>

theorem mem_CommitTx_publishes:
  assumes "mem_wf m" "ctx_ok m c" "ctx_Err m c = None" "mem_LookupTx m c = Some a"
    and "\<not> tx_done (mem_txs m ! a)" "mem_CommitTx c m = (r, m')"
  shows "r = None \<and> mem_wf m' \<and> tx_done (mem_txs m' ! a) \<and>
         (case tx_super (mem_txs m ! a) of
            SuperMemory \<Rightarrow> mem_lookup m' ns k = mem_Get m c ns k
          | SuperTx p \<Rightarrow> tables m' = tables m \<and> tx_lookup m' p ns k = mem_Get m c ns k)"
proof -
  have a: "a < length (mem_txs m)" using assms(2,4) by (rule ctx_okD)
  have E: "r = None" "mem_wf m'" "mem_meta m' = mem_meta (tx_finish a m)"
    "act_lookup (tx_super (mem_txs m ! a)) m' = tx_lookup m a"
    using mem_commit_effect [OF assms] by auto
  have "tx_done (mem_txs m' ! a)"
    using mem_meta_nth [OF E(3) [symmetric], of a] a by (simp add: tx_finish_done)
  moreover have "tables m' = tables m" if "tx_super (mem_txs m ! a) = SuperTx p" for p
    using assms(3-6) that tables_apply_changes_SuperTx [of p "tx_changes (mem_txs m ! a)" "tx_finish a m"]
    by (auto simp: mem_CommitTx_def tx_commit_def)
  moreover have "act_lookup (tx_super (mem_txs m ! a)) m' ns k = mem_Get m c ns k"
    using E(4) assms(4,5) by (simp add: mem_Get_open)
  ultimately show ?thesis using E(1,2)
    by (cases "tx_super (mem_txs m ! a)") (simp_all add: act_lookup_def)
qed

theorem mem_CommitTx_publishes_witness:
  "mem_lookup (snd (mem_CommitTx (fst ex_tx) (snd ex_tx))) ''ns'' ''k'' = Some 5"
proof -
  have "mem_Get (snd ex_tx) (fst ex_tx) ''ns'' ''k'' = Some 5"
    unfolding mem_Get_def ex_tx_ok(4) by (simp add: ex_tx_value) code_simp
  moreover have "tx_super (mem_txs (snd ex_tx) ! 0) = SuperMemory" by (simp add: ex_tx_value)
  ultimately show ?thesis
    using mem_CommitTx_publishes [OF ex_tx_ok prod.collapse [symmetric], of "''ns''" "''k''"] by simp
qed

text \<open>Rolling back is recursive and leaves no trace. When the transaction of a context and all its
  enclosing ones are open, \<^verbatim>\<open>RollbackTx\<close> succeeds, finishes exactly these, changes no table, and
  the context reads the committed tables from then on.\<close>

theorem mem_RollbackTx_discards:
  assumes "mem_wf m" "ctx_ok m c" "ctx_Err m c = None" "mem_LookupTx m c = Some a"
    and "list_all (\<lambda>b. \<not> tx_done (mem_txs m ! b)) (tx_chain m a)"
    and "mem_RollbackTx c m = (r, m')"
  shows "r = None \<and> mem_wf m' \<and> tables m' = tables m \<and>
         (tx_done (mem_txs m' ! b) \<longleftrightarrow> b \<in> set (tx_chain m a) \<or> tx_done (mem_txs m ! b)) \<and>
         mem_Get m' c ns k = mem_lookup m ns k"
proof -
  have a: "a < length (mem_txs m)" using assms(2,4) by (rule ctx_okD)
  have rb: "tx_rollback a m = (r, m')" using assms(3,4,6) by (simp add: mem_RollbackTx_def)
  have fr: "tables m' = tables m" "mem_NS m' = mem_NS m" "mem_wf m'"
    using tx_rollback_frame [OF rb] assms(1) by blast+
  have ch: "r = None" "\<And>b. tx_done (mem_txs m' ! b) \<longleftrightarrow> b \<in> set (tx_chain m a) \<or> tx_done (mem_txs m ! b)"
    using tx_rollback_chain [OF assms(1) a] assms(5) by (simp_all add: rb list_all_iff)
  have "a \<in> set (tx_chain m a)" by (simp add: tx_chain.simps [of m a])
  then have "mem_Get m' c ns k = mem_lookup m' ns k"
    using assms(4) fr(2) by (simp add: mem_Get_def mem_LookupTx_def ch(2))
  also have "\<dots> = mem_lookup m ns k" by (simp add: mem_lookup_tables [OF fr(1)])
  finally show ?thesis using fr ch by simp
qed

lemma tx_done_after:
  assumes "mem_wf m" "ctx_ok m c"
    and "mem_CommitTx c m = (None, m') \<or> mem_RollbackTx c m = (None, m')"
  shows "\<exists>a. mem_LookupTx m' c = Some a \<and> tx_done (mem_txs m' ! a)"
  using assms(3)
proof
  assume cm: "mem_CommitTx c m = (None, m')"
  then obtain a where a: "ctx_Err m c = None" "mem_LookupTx m c = Some a" "\<not> tx_done (mem_txs m ! a)"
    by (auto simp: mem_CommitTx_def tx_commit_def split: option.splits if_splits)
  from mem_commit_effect [OF assms(1,2) a cm] have meta: "mem_meta m' = mem_meta (tx_finish a m)" by blast
  have "tx_done (mem_txs m' ! a)"
    using mem_meta_nth [OF meta [symmetric], of a] ctx_okD [OF assms(2) a(2)] by (simp add: tx_finish_done)
  moreover have "mem_NS m' = mem_NS (tx_finish a m)" using meta by (simp add: mem_meta_def)
  ultimately show ?thesis using a(2) by (simp add: mem_LookupTx_def)
next
  assume rb: "mem_RollbackTx c m = (None, m')"
  then obtain a where a: "mem_LookupTx m c = Some a" "tx_rollback a m = (None, m')"
    by (auto simp: mem_RollbackTx_def split: option.splits)
  then have NS: "mem_NS m' = mem_NS m" using tx_rollback_frame by blast
  have "a < length (mem_txs m)" using assms(2) a(1) by (rule ctx_okD)
  with a(2) have "tx_done (mem_txs m' ! a)"
  proof (induction a arbitrary: m rule: less_induct)
    case (less a)
    have mono: "tx_done (mem_txs x ! b) \<longrightarrow> tx_done (mem_txs (snd (tx_rollback p x)) ! b)" for p b and x :: "'a memory"
    proof (induction p arbitrary: x rule: less_induct)
      case (less p)
      have "tx_done (mem_txs x ! b) \<Longrightarrow> tx_done (mem_txs (tx_finish p x) ! b)"
        by (simp add: tx_finish_def context_cancel_def nth_list_update_if)
      with less show ?case by (subst tx_rollback.simps) (auto split: memory_actions.split)
    qed
    have "tx_done (mem_txs (tx_finish a m) ! a)" using less.prems by (simp add: tx_finish_done)
    with less.prems show ?case using mono [of "tx_finish a m" a]
      by (subst (asm) tx_rollback.simps) (auto split: if_splits memory_actions.splits, metis snd_conv)
  qed
  with NS a(1) show ?thesis by (simp add: mem_LookupTx_def)
qed

text \<open>A transaction finishes once. After a successful commit or rollback through a context, every
  further commit or rollback through it returns an error and changes nothing.\<close>

theorem mem_tx_finishes_once:
  assumes "mem_wf m" "ctx_ok m c"
    and "mem_CommitTx c m = (None, m') \<or> mem_RollbackTx c m = (None, m')"
  shows "fst (mem_CommitTx c m') \<noteq> None \<and> snd (mem_CommitTx c m') = m' \<and>
         fst (mem_RollbackTx c m') \<noteq> None \<and> snd (mem_RollbackTx c m') = m'"
  using tx_done_after [OF assms]
  by (auto simp: mem_CommitTx_def mem_RollbackTx_def tx_commit_def tx_rollback.simps errTxDone_def
      split: option.split)

end
