(* ===== verification/MemoryRepository.thy ===== *)
theory MemoryRepository imports MemoryStore Crud begin

text \<open>
  \<^verbatim>\<open>Repository[ENT, ID]\<close> and its \<^verbatim>\<open>batch\<close> of \<^verbatim>\<open>adapter/memory/Repository.go\<close>:
  CRUD over one namespace of a \<^verbatim>\<open>Memory\<close>.

  Parameters, in the record \<^verbatim>\<open>repository\<close>: the ID accessor (a get/put pair for a given
  \<^verbatim>\<open>extid.Accessor\<close>; the reflective defaults \<^verbatim>\<open>extid.Lookup\<close> and \<^verbatim>\<open>extid.Set\<close>
  are arguments), the ID generator, the zero ID, and \<^verbatim>\<open>fmt.Sprintf\<close> as the memory key of an ID.
  A pointer to an entity is the second component of the world. An iterator of values and errors is the
  list of what a full iteration yields, \<^term>\<open>Inl\<close> an error, \<^term>\<open>Inr\<close> a value.
\<close>

section \<open>The repository\<close>

definition getNamespaceFor :: "string \<Rightarrow> string \<Rightarrow> string \<Rightarrow> string" where
  "getNamespaceFor typ typeName namespace = typ @ ''/'' @ (if namespace = [] then typeName else namespace)"

record ('v, 'i) repository =
  Namespace :: string
  TypeName :: string
  IDA :: "('v, 'i) accessor"
  mkID :: "mctx \<Rightarrow> go_error + 'i"
  ExpectID :: bool
  IDToMemoryKey :: "'i \<Rightarrow> string"
  zeroID :: 'i

definition repo_ns :: "('v, 'i) repository \<Rightarrow> string" where
  "repo_ns r = getNamespaceFor ''Repository'' (TypeName r) (Namespace r)"

definition errNotFound :: go_error where
  "errNotFound = ErrorLite_F crud_ErrNotFound ''entity not found by id''"

definition repo_isDoneTx :: "('v, 'i) repository \<Rightarrow> mctx \<Rightarrow> 'v memory \<Rightarrow> go_error option" where
  "repo_isDoneTx r ctx m =
     (case mem_LookupTx m ctx of
        None \<Rightarrow> None
      | Some tx \<Rightarrow> if tx_done (mem_txs m ! tx) then Some errTxDone else None)"

definition repo_FindByID ::
    "('v, 'i) repository \<Rightarrow> mctx \<Rightarrow> 'i \<Rightarrow> 'v memory \<Rightarrow> go_error + 'v option" where
  "repo_FindByID r ctx ident m =
     (case ctx_Err m ctx of Some err \<Rightarrow> Inl err
      | None \<Rightarrow> (case repo_isDoneTx r ctx m of Some err \<Rightarrow> Inl err
      | None \<Rightarrow> Inr (mem_Get m ctx (repo_ns r) (IDToMemoryKey r ident))))"

definition repo_FindAll :: "('v, 'i) repository \<Rightarrow> mctx \<Rightarrow> 'v memory \<Rightarrow> (go_error + 'v) list" where
  "repo_FindAll r ctx m =
     (case ctx_Err m ctx of Some err \<Rightarrow> [Inl err]
      | None \<Rightarrow> (case repo_isDoneTx r ctx m of Some err \<Rightarrow> [Inl err]
      | None \<Rightarrow> map Inr (mem_All m ctx (repo_ns r)) @
                 (case ctx_Err m ctx of Some err \<Rightarrow> [Inl err] | None \<Rightarrow> [])))"

definition repo_create ::
    "('v, 'i) repository \<Rightarrow> mctx \<Rightarrow> ('v memory \<times> 'v, go_error option) op" where
  "repo_create r ctx w =
     (let ident = Accessor_Get (IDA r) (snd w);
          insert = (\<lambda>ident w.
            case ctx_Err (fst w) ctx of Some err \<Rightarrow> (Some err, w)
            | None \<Rightarrow>
              (case repo_FindByID r ctx ident (fst w) of
                 Inl err \<Rightarrow> (Some err, w)
               | Inr (Some _) \<Rightarrow>
                   (WithContext (Some (ErrorLite_F crud_ErrAlreadyExists ''already exists with id'')), w)
               | Inr None \<Rightarrow>
                   (None, (mem_Set ctx (repo_ns r) (IDToMemoryKey r ident) (snd w) (fst w), snd w))))
      in if ident = zeroID r then
           (if ExpectID r then (Some ErrMissingID, w)
            else case mkID r ctx of
                   Inl err \<Rightarrow> (Some err, w)
                 | Inr newID \<Rightarrow>
                     (case Accessor_Set (IDA r) (snd w) newID of
                        (v, Some err) \<Rightarrow> (Some err, (fst w, v))
                      | (v, None) \<Rightarrow> insert newID (fst w, v)))
         else insert ident w)"

definition repo_Create ::
    "('v, 'i) repository \<Rightarrow> mctx \<Rightarrow> ('v memory \<times> 'v option, go_error option) op" where
  "repo_Create r ctx w =
     (case snd w of
        None \<Rightarrow> (Some (Error_F ErrNilPointer ''Create called with nil''), w)
      | Some v \<Rightarrow> (case repo_create r ctx (fst w, v) of (err, (m, v')) \<Rightarrow> (err, (m, Some v'))))"

definition repo_Update ::
    "('v, 'i) repository \<Rightarrow> mctx \<Rightarrow> ('v memory \<times> 'v, go_error option) op" where
  "repo_Update r ctx w =
     (case Accessor_Lookup (IDA r) (snd w) of
        (ident, False) \<Rightarrow> (Some (ErrText ''entity doesn't have id field''), w)
      | (ident, True) \<Rightarrow>
          (case repo_FindByID r ctx ident (fst w) of
             Inl err \<Rightarrow> (Some err, w)
           | Inr None \<Rightarrow> (Some errNotFound, w)
           | Inr (Some _) \<Rightarrow>
               (None, (mem_Set ctx (repo_ns r) (IDToMemoryKey r ident) (snd w) (fst w), snd w))))"

definition repo_save_body ::
    "('v, 'i) repository \<Rightarrow> mctx \<Rightarrow> ('v memory \<times> 'v, go_error option) op" where
  "repo_save_body r ctx w =
     (case Accessor_Lookup (IDA r) (snd w) of
        (ident, False) \<Rightarrow> if ExpectID r then (Some ErrMissingID, w) else repo_create r ctx w
      | (ident, True) \<Rightarrow>
          (case repo_FindByID r ctx ident (fst w) of
             Inl err \<Rightarrow> (Some err, w)
           | Inr (Some _) \<Rightarrow> repo_Update r ctx w
           | Inr None \<Rightarrow> repo_create r ctx w))"

definition repo_Save ::
    "('v, 'i) repository \<Rightarrow> mctx \<Rightarrow> ('v memory \<times> 'v, go_error option) op" where
  "repo_Save r ctx =
     OnePhaseCommit_run (\<lambda>c. on_fst (mem_BeginTx c)) (\<lambda>c. on_fst (mem_CommitTx c))
       (\<lambda>c. on_fst (mem_RollbackTx c)) ctx (repo_save_body r)"

definition repo_DeleteByID :: "('v, 'i) repository \<Rightarrow> mctx \<Rightarrow> 'i \<Rightarrow> ('v memory, go_error option) op" where
  "repo_DeleteByID r ctx ident m =
     (case ctx_Err m ctx of Some err \<Rightarrow> (Some err, m)
      | None \<Rightarrow> (case repo_isDoneTx r ctx m of Some err \<Rightarrow> (Some err, m)
      | None \<Rightarrow> (case mem_Del ctx (repo_ns r) (IDToMemoryKey r ident) m of
                    (True, m') \<Rightarrow> (None, m')
                  | (False, m') \<Rightarrow> (Some errNotFound, m'))))"

fun repo_delete_each ::
    "('v, 'i) repository \<Rightarrow> mctx \<Rightarrow> (go_error + 'v) list \<Rightarrow> ('v memory, go_error option) op" where
  "repo_delete_each r ctx [] m = (None, m)"
| "repo_delete_each r ctx (Inl err # itr) m = (Some err, m)"
| "repo_delete_each r ctx (Inr v # itr) m =
     (case Accessor_Lookup (IDA r) v of
        (ident, False) \<Rightarrow> repo_delete_each r ctx itr m
      | (ident, True) \<Rightarrow>
          repo_delete_each r ctx itr (snd (mem_Del ctx (repo_ns r) (IDToMemoryKey r ident) m)))"

definition repo_DeleteAll :: "('v, 'i) repository \<Rightarrow> mctx \<Rightarrow> ('v memory, go_error option) op" where
  "repo_DeleteAll r ctx m = repo_delete_each r ctx (repo_FindAll r ctx m) m"

fun repo_collect ::
    "('v, 'i) repository \<Rightarrow> (string, 'v) gomap \<Rightarrow> 'i list \<Rightarrow> (string, 'v) gomap \<Rightarrow> (string, 'v) gomap option" where
  "repo_collect r all [] vs = Some vs"
| "repo_collect r all (ident # ids) vs =
     (case gm_get all (IDToMemoryKey r ident) of
        None \<Rightarrow> None
      | Some v \<Rightarrow> repo_collect r all ids (gm_set (IDToMemoryKey r ident) v vs))"

definition repo_FindByIDs :: "('v, 'i) repository \<Rightarrow> mctx \<Rightarrow> 'i list \<Rightarrow> 'v memory \<Rightarrow> (go_error + 'v) list" where
  "repo_FindByIDs r ctx ids m =
     (let s = (case mem_LookupTx m ctx of Some tx \<Rightarrow> SuperTx tx | None \<Rightarrow> SuperMemory);
          all = act_all s m (repo_ns r)
      in case repo_collect r all ids [] of
           None \<Rightarrow> [Inl errNotFound]
         | Some vs \<Rightarrow> map (\<lambda>(k, v). Inr v) vs)"

fun repo_query_one :: "('v \<Rightarrow> bool) \<Rightarrow> (go_error + 'v) list \<Rightarrow> go_error + 'v option" where
  "repo_query_one p [] = Inr None"
| "repo_query_one p (Inl err # itr) = Inl err"
| "repo_query_one p (Inr v # itr) = (if p v then Inr (Some v) else repo_query_one p itr)"

definition repo_QueryOne ::
    "('v, 'i) repository \<Rightarrow> mctx \<Rightarrow> ('v \<Rightarrow> bool) \<Rightarrow> 'v memory \<Rightarrow> go_error + 'v option" where
  "repo_QueryOne r ctx p m = repo_query_one p (repo_FindAll r ctx m)"

section \<open>Batches\<close>

record 'v batch =
  b_context :: mctx
  b_values :: "'v list"
  b_closed :: bool
  b_clserr :: "go_error option"

definition repo_Batch :: "mctx \<Rightarrow> 'v batch" where
  "repo_Batch ctx = \<lparr>b_context = ctx, b_values = [], b_closed = False, b_clserr = None\<rparr>"

definition batch_Add :: "'v \<Rightarrow> 'v memory \<Rightarrow> 'v batch \<Rightarrow> go_error option \<times> 'v batch" where
  "batch_Add v m b =
     (if b_closed b then (Some (ErrText ''batch is already closed''), b)
      else case ctx_Err m (b_context b) of
             Some err \<Rightarrow> (Some err, b)
           | None \<Rightarrow> (None, b\<lparr>b_values := b_values b @ [v]\<rparr>))"

fun batch_create_each :: "('v, 'i) repository \<Rightarrow> 'v list \<Rightarrow> mctx \<Rightarrow> ('v memory, go_error option) op" where
  "batch_create_each r [] ctx m = (None, m)"
| "batch_create_each r (v # vs) ctx m =
     (case repo_create r ctx (m, v) of
        (Some err, (m', _)) \<Rightarrow> (Some err, m')
      | (None, (m', _)) \<Rightarrow> batch_create_each r vs ctx m')"

definition batch_Close :: "('v, 'i) repository \<Rightarrow> ('v memory \<times> 'v batch, go_error option) op" where
  "batch_Close r w =
     (let m = fst w; b = snd w
      in if b_closed b then (b_clserr b, w)
         else
           (case (case ctx_Err m (b_context b) of
                    Some err \<Rightarrow> (Some err, m)
                  | None \<Rightarrow> OnePhaseCommit_run mem_BeginTx mem_CommitTx mem_RollbackTx (b_context b)
                               (batch_create_each r (b_values b)) m) of
              (rErr, m') \<Rightarrow> (rErr, (m', b\<lparr>b_closed := True, b_clserr := rErr\<rparr>))))"

section \<open>Writes through a transaction's context\<close>

definition kv_put :: "string \<Rightarrow> string \<Rightarrow> 'v \<Rightarrow> (string \<Rightarrow> string \<Rightarrow> 'v option) \<Rightarrow> string \<Rightarrow> string \<Rightarrow> 'v option" where
  "kv_put ns k v f = f(ns := (f ns)(k \<mapsto> v))"

lemma mem_Set_within:
  assumes "mem_within m c c'"
  shows "mem_within (mem_Set c' ns k v m) c c' \<and>
         mem_Get (mem_Set c' ns k v m) c = mem_Get m c \<and>
         mem_Get (mem_Set c' ns k v m) c' = kv_put ns k v (mem_Get m c')"
proof -
  from assms obtain a where a: "mem_wf m" "mem_LookupTx m c = None" "mem_LookupTx m c' = Some a"
    "a < length (mem_txs m)" "tx_super (mem_txs m ! a) = SuperMemory" "\<not> tx_done (mem_txs m ! a)"
    by (rule mem_withinE)
  define m' where "m' = mem_Set c' ns k v m"
  have m': "m' = tx_set a ns k v m" using a(3) by (simp add: m'_def mem_Set_def)
  then obtain ch where ch: "m' = tx_putChanges a ns ch m" by (auto simp: tx_set_def)
  have L: "mem_LookupTx m' d = mem_LookupTx m d" for d by (simp add: ch mem_LookupTx_def tx_putChanges_def)
  have tx: "tx_super (mem_txs m' ! a) = SuperMemory" "\<not> tx_done (mem_txs m' ! a)"
    using a by (simp_all add: ch tx_putChanges_def)
  have wf: "mem_wf m'" using a by (simp add: m' mem_wf_tx_set)
  have T: "mem_lookup m' = mem_lookup m"
    by (rule mem_lookup_tables) (simp add: ch tx_putChanges_def)
  have "mem_within m' c c'"
    using a wf tx by (simp add: mem_within_def mem_base_def L) (simp add: m')
  moreover have "mem_Get m' c = mem_Get m c" using a by (simp add: mem_Get_base L T)
  moreover have "mem_Get m' c' = kv_put ns k v (mem_Get m c')"
    using a tx by (simp add: mem_Get_open L) (simp add: m' tx_lookup_tx_set kv_put_def fun_eq_iff)
  ultimately show ?thesis by (simp add: m'_def)
qed

section \<open>What the operations do to the memory\<close>

abbreviation repo_key :: "('v, 'i) repository \<Rightarrow> 'v \<Rightarrow> string" where
  "repo_key r v \<equiv> IDToMemoryKey r (Accessor_Get (IDA r) v)"

text \<open>An operation either fails and leaves the memory alone, or stores the entity under its ID.\<close>

definition stores_entity ::
    "('v, 'i) repository \<Rightarrow> mctx \<Rightarrow> 'v memory \<Rightarrow> go_error option \<times> 'v memory \<times> 'v \<Rightarrow> bool" where
  "stores_entity r c m = (\<lambda>(e, m', v').
     (e \<noteq> None \<and> m' = m) \<or> (e = None \<and> m' = mem_Set c (repo_ns r) (repo_key r v') v' m))"

lemma repo_FindByID_Inr:
  "repo_FindByID r c i m = Inr x \<Longrightarrow> x = mem_Get m c (repo_ns r) (IDToMemoryKey r i)"
  by (auto simp: repo_FindByID_def split: option.splits)

lemma repo_create_stores:
  assumes "accessor_law (IDA r)"
  shows "stores_entity r c (fst w) (repo_create r c w)"
proof -
  have "Accessor_Get (IDA r) v' = i" if "Accessor_Set (IDA r) v i = (v', None)" for v i v'
    using assms that by (auto simp: accessor_law_def)
  then show ?thesis
    by (auto simp: repo_create_def stores_entity_def Let_def WithContext_def
        split: option.splits sum.splits prod.splits)
qed

lemma repo_Update_stores: "stores_entity r c (fst w) (repo_Update r c w)"
  by (auto simp: repo_Update_def stores_entity_def Accessor_Get_def
      split: option.splits sum.splits prod.splits bool.splits)

lemma repo_save_body_stores:
  "accessor_law (IDA r) \<Longrightarrow> stores_entity r c (fst w) (repo_save_body r c w)"
  using repo_create_stores [of r c w] repo_Update_stores [of r c w]
  by (auto simp: repo_save_body_def stores_entity_def
      split: option.splits sum.splits prod.splits bool.splits)

interpretation reposave: one_phase_commit "\<lambda>c. on_fst (mem_BeginTx c)" "\<lambda>c. on_fst (mem_CommitTx c)"
    "\<lambda>c. on_fst (mem_RollbackTx c)" "\<lambda>w. mem_Get (fst w)" "\<lambda>w. mem_base (fst w)" "\<lambda>w. mem_within (fst w)"
  by (rule one_phase_commit_on_fst) (rule memcommit.one_phase_commit_axioms)

lemma stores_entity_within:
  "stores_entity r c' m (e, m', v') \<Longrightarrow> mem_within m c c' \<Longrightarrow>
     mem_within m' c c' \<and> mem_Get m' c = mem_Get m c \<and>
     (e = None \<longrightarrow> mem_Get m' c' = kv_put (repo_ns r) (repo_key r v') v' (mem_Get m c'))"
  by (auto simp: stores_entity_def dest: mem_Set_within)

lemma repo_save_isolated: "accessor_law (IDA r) \<Longrightarrow> reposave.isolated c (repo_save_body r)"
  unfolding reposave.isolated_def
proof (intro allI impI)
  fix w :: "'a memory \<times> 'a" and c' e w'
  assume law: "accessor_law (IDA r)" and wi: "mem_within (fst w) c c'" and b: "repo_save_body r c' w = (e, w')"
  have "stores_entity r c' (fst w) (e, fst w', snd w')"
    using repo_save_body_stores [OF law, of c' w] b by simp
  from stores_entity_within [OF this wi]
  show "mem_within (fst w') c c' \<and> mem_Get (fst w') c = mem_Get (fst w) c" by simp
qed

lemma batch_create_within:
  assumes "accessor_law (IDA r)" "batch_create_each r vs c' m = (e, m')" "mem_within m c c'"
  shows "mem_within m' c c' \<and> mem_Get m' c = mem_Get m c"
  using assms(2,3)
proof (induction vs arbitrary: m)
  case (Cons v vs)
  obtain e1 m1 v1 where cr: "repo_create r c' (m, v) = (e1, m1, v1)" by (metis prod.exhaust)
  have "stores_entity r c' m (e1, m1, v1)" using repo_create_stores [OF assms(1), of c' "(m, v)"] cr by simp
  note st = stores_entity_within [OF this Cons.prems(2)]
  show ?case
  proof (cases e1)
    case None
    then show ?thesis using Cons.IH [of m1] Cons.prems cr st by simp
  next
    case (Some x)
    then show ?thesis using Cons.prems cr st by simp
  qed
qed simp

lemma batch_create_isolated:
  "accessor_law (IDA r) \<Longrightarrow> memcommit.isolated c (batch_create_each r vs)"
  unfolding memcommit.isolated_def by (blast dest: batch_create_within)

text \<open>
  The effect of a successful run of Creates on what the transaction reads: each entity, with the ID it
  was stored under, was absent and is then present.
\<close>

lemma repo_create_fresh:
  assumes "accessor_law (IDA r)" "repo_create r c w = (None, m', v')"
  shows "mem_Get (fst w) c (repo_ns r) (repo_key r v') = None"
proof -
  have "Accessor_Get (IDA r) v' = i" if "Accessor_Set (IDA r) v i = (v', None)" for v i v'
    using assms(1) that by (auto simp: accessor_law_def)
  then show ?thesis using assms(2)
    by (auto simp: repo_create_def Let_def WithContext_def dest: repo_FindByID_Inr [symmetric]
        split: option.splits sum.splits prod.splits if_splits)
qed

section \<open>Contexts that can read and write\<close>

definition mem_open :: "'v memory \<Rightarrow> mctx \<Rightarrow> bool" where
  "mem_open m c \<longleftrightarrow> mem_wf m \<and> ctx_ok m c \<and>
     (case mem_LookupTx m c of None \<Rightarrow> True | Some a \<Rightarrow> \<not> tx_done (mem_txs m ! a))"

definition ctx_actions :: "'v memory \<Rightarrow> mctx \<Rightarrow> memory_actions" where
  "ctx_actions m c = (case mem_LookupTx m c of None \<Rightarrow> SuperMemory | Some a \<Rightarrow> SuperTx a)"

lemma mem_open_actions:
  assumes "mem_open m c"
  shows "act_ok (ctx_actions m c) m" "mem_Get m c = act_lookup (ctx_actions m c) m"
    "mem_Set c ns k v m = act_set (ctx_actions m c) ns k v m"
    "mem_Del c ns k m = act_del (ctx_actions m c) ns k m"
    "act_all (ctx_actions m c) m ns = (case mem_LookupTx m c of None \<Rightarrow> mem_all m ns | Some a \<Rightarrow> tx_all m a ns)"
  using assms
  by (auto simp: mem_open_def ctx_actions_def act_ok_def ctx_ok_def mem_Get_def mem_Set_def mem_Del_def
      act_lookup_def act_set_def act_del_def act_all_def fun_eq_iff split: option.splits)

lemma mem_open_meta:
  assumes "mem_open m c" "mem_meta m' = mem_meta m" "mem_wf m'"
  shows "mem_open m' c \<and> ctx_actions m' c = ctx_actions m c \<and> ctx_Err m' c = ctx_Err m c \<and>
         repo_isDoneTx r c m' = repo_isDoneTx r c m"
proof -
  have NS: "mem_LookupTx m' c = mem_LookupTx m c" and can: "cancelled m' = cancelled m"
    using assms(2) by (simp_all add: mem_LookupTx_def mem_meta_def)
  have dn: "tx_done (mem_txs m' ! a) = tx_done (mem_txs m ! a)" if "mem_LookupTx m c = Some a" for a
    using mem_meta_nth [OF assms(2) [symmetric], of a] that assms(1)
    by (auto simp: mem_open_def dest: ctx_okD)
  show ?thesis
    using assms(1,3) dn mem_meta_length [OF assms(2)] ctx_Err_cong [OF can, of c]
    by (auto simp: mem_open_def ctx_actions_def ctx_ok_def NS repo_isDoneTx_def split: option.splits)
qed

lemma mem_open_Set:
  assumes "mem_open m c"
  shows "mem_open (mem_Set c ns k v m) c" "mem_Get (mem_Set c ns k v m) c = kv_put ns k v (mem_Get m c)"
    "ctx_Err (mem_Set c ns k v m) c = ctx_Err m c"
    "repo_isDoneTx r c (mem_Set c ns k v m) = repo_isDoneTx r c m"
proof -
  note A = mem_open_actions [OF assms]
  let ?m = "mem_Set c ns k v m"
  have "act_ok (ctx_actions m c) ?m" using act.inv_set [OF A(1)] by (simp add: A(3))
  then have wf: "mem_wf ?m" by (simp add: act_ok_def)
  have meta: "mem_meta ?m = mem_meta m" by (simp add: A(3))
  note O = mem_open_meta [OF assms meta wf, of r]
  then show "mem_open ?m c" "ctx_Err ?m c = ctx_Err m c" "repo_isDoneTx r c ?m = repo_isDoneTx r c m" by simp_all
  have "mem_Get ?m c = act_lookup (ctx_actions m c) ?m" using O mem_open_actions(2) [of ?m c] by simp
  then show "mem_Get ?m c = kv_put ns k v (mem_Get m c)"
    using act.lookup_set [OF A(1)] by (simp add: A(2,3) kv_put_def fun_eq_iff)
qed

lemma mem_open_Del:
  assumes "mem_open m c"
  shows "mem_open (snd (mem_Del c ns k m)) c"
    "mem_Get (snd (mem_Del c ns k m)) c = (mem_Get m c)(ns := (mem_Get m c ns)(k := None))"
    "ctx_Err (snd (mem_Del c ns k m)) c = ctx_Err m c"
    "repo_isDoneTx r c (snd (mem_Del c ns k m)) = repo_isDoneTx r c m"
    "fst (mem_Del c ns k m) = (mem_Get m c ns k \<noteq> None)"
proof -
  note A = mem_open_actions [OF assms]
  let ?m = "snd (mem_Del c ns k m)"
  have "act_ok (ctx_actions m c) ?m" using act.inv_del [OF A(1)] by (simp add: A(4))
  then have wf: "mem_wf ?m" by (simp add: act_ok_def)
  have meta: "mem_meta ?m = mem_meta m" by (simp add: A(4))
  note O = mem_open_meta [OF assms meta wf, of r]
  then show "mem_open ?m c" "ctx_Err ?m c = ctx_Err m c" "repo_isDoneTx r c ?m = repo_isDoneTx r c m" by simp_all
  have "mem_Get ?m c = act_lookup (ctx_actions m c) ?m" using O mem_open_actions(2) [of ?m c] by simp
  then show "mem_Get ?m c = (mem_Get m c)(ns := (mem_Get m c ns)(k := None))"
    using act.lookup_del [OF A(1)] by (simp add: A(2,4) fun_eq_iff)
  show "fst (mem_Del c ns k m) = (mem_Get m c ns k \<noteq> None)"
    using act.del_found [OF A(1)] by (simp add: A(2,4))
qed

lemma mem_open_isDone: "mem_open m c \<Longrightarrow> repo_isDoneTx r c m = None"
  by (auto simp: mem_open_def repo_isDoneTx_def split: option.split)

lemma repo_FindByID_open:
  "mem_open m c \<Longrightarrow> ctx_Err m c = None \<Longrightarrow>
     repo_FindByID r c i m = Inr (mem_Get m c (repo_ns r) (IDToMemoryKey r i))"
  by (simp add: repo_FindByID_def mem_open_isDone)

lemma repo_FindAll_open:
  "mem_open m c \<Longrightarrow> ctx_Err m c = None \<Longrightarrow> repo_FindAll r c m = map Inr (mem_All m c (repo_ns r))"
  by (simp add: repo_FindAll_def mem_open_isDone)

lemma repo_delete_each_spec:
  assumes "mem_open m c" "ctx_Err m c = None"
    and "\<And>v. v \<in> set vs \<Longrightarrow> Accessor_Lookup (IDA r) v = (Accessor_Get (IDA r) v, True)"
    and "repo_delete_each r c (map Inr vs) m = (e, m')"
  shows "e = None \<and> mem_open m' c \<and> ctx_Err m' c = None \<and>
         mem_Get m' c = (mem_Get m c)(repo_ns r :=
           (\<lambda>k. if k \<in> repo_key r ` set vs then None else mem_Get m c (repo_ns r) k))"
  using assms
proof (induction vs arbitrary: m)
  case (Cons v vs)
  let ?m = "snd (mem_Del c (repo_ns r) (repo_key r v) m)"
  note D = mem_open_Del(1,2,3) [OF Cons.prems(1), of "repo_ns r" "repo_key r v"]
  have "repo_delete_each r c (map Inr vs) ?m = (e, m')"
    using Cons.prems(3) [of v] Cons.prems(4) by simp
  from Cons.IH [OF D(1) _ _ this] Cons.prems(2,3) D(3)
  have IH: "e = None" "mem_open m' c" "ctx_Err m' c = None"
    "mem_Get m' c = (mem_Get ?m c)(repo_ns r :=
       (\<lambda>k. if k \<in> repo_key r ` set vs then None else mem_Get ?m c (repo_ns r) k))" by auto
  have "mem_Get m' c n k = ((mem_Get m c)(repo_ns r :=
       (\<lambda>k. if k \<in> repo_key r ` set (v # vs) then None else mem_Get m c (repo_ns r) k))) n k" for n k
    unfolding IH(4) D(2) by simp
  then show ?case using IH(1-3) by (intro conjI ext) simp_all
qed simp

lemma repo_collect_spec:
  "repo_collect r all ids vs =
     (if list_all (\<lambda>i. gm_has all (IDToMemoryKey r i)) ids
      then Some (fold (\<lambda>i vs. gm_set (IDToMemoryKey r i) (the (gm_get all (IDToMemoryKey r i))) vs) ids vs)
      else None)"
  by (induction ids arbitrary: vs) (auto split: option.split)

lemma gm_collect_fold:
  "map_of (fold (\<lambda>i vs. gm_set (key i) (f (key i)) vs) ids vs) =
     (\<lambda>k. if k \<in> key ` set ids then Some (f k) else map_of vs k) \<and>
   (gm_wf vs \<longrightarrow> gm_wf (fold (\<lambda>i vs. gm_set (key i) (f (key i)) vs) ids vs))"
  by (induction ids arbitrary: vs) (auto simp: fun_eq_iff)

section \<open>Properties\<close>

text \<open>A repository of entities that are pairs of an ID and a payload, for the witnesses.\<close>

definition ex_repo :: "(nat \<times> nat, nat) repository" where
  "ex_repo = \<lparr>Namespace = ''users'', TypeName = ''User'',
     IDA = \<lparr>acc_fn = Some (fst, \<lambda>i v. (i, snd v)), ext_Lookup = \<lambda>v. (0, False), ext_Set = \<lambda>v i. (v, None)\<rparr>,
     mkID = \<lambda>_. Inr 3, ExpectID = False, IDToMemoryKey = \<lambda>i. replicate i (CHR ''x''), zeroID = 0\<rparr>"

lemma ex_repo_law: "accessor_law (IDA ex_repo)"
  by (auto simp: accessor_law_def ex_repo_def Accessor_Set_def Accessor_Get_def Accessor_Lookup_def)

lemma ex_repo_base: "mem_base (NewMemory ''M'') Background"
  by (simp add: mem_base_def mem_LookupTx_def)

lemma ex_repo_open: "mem_open (NewMemory ''M'') Background"
  by (simp add: mem_open_def mem_LookupTx_def ctx_ok_def)

text \<open>C3: Save is all or nothing. From a context that is in no transaction, a failing Save leaves every
  read through the context as it was; a succeeding one makes the context read the saved entity under the
  entity's ID (generated when it was zero), and changes no other key or namespace.\<close>

theorem repo_Save_atomic:
  assumes "accessor_law (IDA r)" "mem_base m c" "repo_Save r c (m, v) = (e, m', v')"
  shows "mem_Get m' c = (if e = None then kv_put (repo_ns r) (repo_key r v') v' (mem_Get m c) else mem_Get m c)"
proof -
  have "OnePhaseCommit_run (\<lambda>c. on_fst (mem_BeginTx c)) (\<lambda>c. on_fst (mem_CommitTx c))
     (\<lambda>c. on_fst (mem_RollbackTx c)) c (repo_save_body r) (m, v) = (e, m', v')"
    using assms(3) by (simp add: repo_Save_def)
  from reposave.run_atomic [OF _ repo_save_isolated [OF assms(1)] this] assms(2)
  consider (fail) "e \<noteq> None" "mem_Get m' c = mem_Get m c"
    | (ok) tx w1 w2 where "e = None" "mem_within (fst w1) c tx" "mem_Get (fst w1) tx = mem_Get m c"
        "repo_save_body r tx w1 = (None, w2)" "on_fst (mem_CommitTx tx) w2 = (None, m', v')"
        "mem_Get m' c = mem_Get (fst w2) tx" by auto
  then show ?thesis
  proof cases
    case ok
    have "stores_entity r tx (fst w1) (None, fst w2, v')"
      using repo_save_body_stores [OF assms(1), of tx w1] ok(4,5) by (simp add: on_fst_eq)
    from stores_entity_within [OF this ok(2)] ok show ?thesis by simp
  next
    case fail
    then show ?thesis by auto
  qed
qed

lemma ex_repo_save:
  "\<exists>m'. repo_Save ex_repo Background (NewMemory ''M'', (0, 7)) = (None, m', (3, 7))"
proof -
  have "fst (repo_Save ex_repo Background (NewMemory ''M'', (0, 7))) = None \<and>
        snd (snd (repo_Save ex_repo Background (NewMemory ''M'', (0, 7)))) = (3, 7)" by code_simp
  then show ?thesis by (metis prod.collapse)
qed

theorem repo_Save_atomic_witness:
  "\<exists>m'. repo_Save ex_repo Background (NewMemory ''M'', (0, 7)) = (None, m', (3, 7)) \<and>
     mem_Get m' Background (repo_ns ex_repo) ''xxx'' = Some (3, 7)"
proof -
  obtain m' where m': "repo_Save ex_repo Background (NewMemory ''M'', (0, 7)) = (None, m', (3, 7))"
    using ex_repo_save by blast
  moreover have "repo_key ex_repo (3, 7) = ''xxx''"
    by (simp add: ex_repo_def Accessor_Get_def Accessor_Lookup_def numeral_3_eq_3)
  ultimately show ?thesis
    using repo_Save_atomic [OF ex_repo_law ex_repo_base m'] by (simp add: kv_put_def)
qed


text \<open>What a run of Creates leaves in the transaction that it runs in.\<close>

lemma batch_create_stored:
  assumes "accessor_law (IDA r)" "batch_create_each r vs c' m = (None, m')" "mem_within m c c'"
  shows "\<exists>vs'. length vs' = length vs \<and>
           list_all2 (\<lambda>v v'. Accessor_Get (IDA r) v \<noteq> zeroID r \<longrightarrow> v' = v) vs vs' \<and>
           mem_Get m' c' = fold (\<lambda>v. kv_put (repo_ns r) (repo_key r v) v) vs' (mem_Get m c')"
  using assms(2,3)
proof (induction vs arbitrary: m)
  case (Cons v vs)
  obtain e1 m1 v1 where cr: "repo_create r c' (m, v) = (e1, m1, v1)" by (metis prod.exhaust)
  with Cons.prems have e1: "e1 = None" and rest: "batch_create_each r vs c' m1 = (None, m')"
    by (auto split: option.splits)
  have "stores_entity r c' m (e1, m1, v1)" using repo_create_stores [OF assms(1), of c' "(m, v)"] cr by simp
  note st = stores_entity_within [OF this Cons.prems(2)]
  have same: "Accessor_Get (IDA r) v \<noteq> zeroID r \<Longrightarrow> v1 = v"
    using cr e1 by (auto simp: repo_create_def Let_def split: option.splits sum.splits)
  from Cons.IH [OF rest] st obtain vs' where
    "length vs' = length vs" "list_all2 (\<lambda>v v'. Accessor_Get (IDA r) v \<noteq> zeroID r \<longrightarrow> v' = v) vs vs'"
    "mem_Get m' c' = fold (\<lambda>v. kv_put (repo_ns r) (repo_key r v) v) vs' (mem_Get m1 c')" by auto
  with st e1 same show ?case by (intro exI [of _ "v1 # vs'"]) simp
qed simp

text \<open>A batch is all or nothing. Closing an open batch whose context is in no transaction either fails
  and leaves every read of the context as it was, or stores every added entity, in order, each with its
  own ID or with a generated one; the batch is closed and remembers the result.\<close>

theorem batch_Close_atomic:
  assumes "accessor_law (IDA r)" "mem_base m (b_context b)" "\<not> b_closed b"
    and "batch_Close r (m, b) = (e, m', b')"
  shows "b_closed b' \<and> b_clserr b' = e \<and> batch_Close r (m', b') = (e, m', b') \<and>
         (if e = None then
            (\<exists>vs'. length vs' = length (b_values b) \<and>
               list_all2 (\<lambda>v v'. Accessor_Get (IDA r) v \<noteq> zeroID r \<longrightarrow> v' = v) (b_values b) vs' \<and>
               mem_Get m' (b_context b) =
                 fold (\<lambda>v. kv_put (repo_ns r) (repo_key r v) v) vs' (mem_Get m (b_context b)))
          else mem_Get m' (b_context b) = mem_Get m (b_context b))"
proof -
  let ?c = "b_context b"
  have b': "b' = b\<lparr>b_closed := True, b_clserr := e\<rparr>"
    using assms(3,4) by (auto simp: batch_Close_def Let_def split: option.splits prod.splits)
  show ?thesis
  proof (cases "ctx_Err m ?c")
    case (Some x)
    with assms(3,4) show ?thesis by (auto simp: batch_Close_def b')
  next
    case None
    with assms(3,4) have run: "OnePhaseCommit_run mem_BeginTx mem_CommitTx mem_RollbackTx ?c
        (batch_create_each r (b_values b)) m = (e, m')"
      by (auto simp: batch_Close_def Let_def split: prod.splits)
    from memcommit.run_atomic [OF assms(2) batch_create_isolated [OF assms(1)] run]
    consider (fail) "e \<noteq> None" "mem_Get m' ?c = mem_Get m ?c"
      | (ok) tx w1 w2 where "e = None" "mem_within w1 ?c tx" "mem_Get w1 tx = mem_Get m ?c"
          "batch_create_each r (b_values b) tx w1 = (None, w2)" "mem_Get m' ?c = mem_Get w2 tx" by auto
    then show ?thesis
    proof cases
      case fail
      then show ?thesis by (auto simp: b' batch_Close_def)
    next
      case ok
      with batch_create_stored [OF assms(1) ok(4,2)] show ?thesis by (simp add: b' batch_Close_def)
    qed
  qed
qed

text \<open>
  Why a call on a context is refused: the context is cancelled, or its transaction has ended. And the ID
  under which Create stores an entity: its own one, or a new one when it is zero, unless that fails.
\<close>

definition repo_refusal :: "('v, 'i) repository \<Rightarrow> mctx \<Rightarrow> 'v memory \<Rightarrow> go_error option" where
  "repo_refusal r c m = (case ctx_Err m c of Some err \<Rightarrow> Some err | None \<Rightarrow> repo_isDoneTx r c m)"

definition repo_assign_id :: "('v, 'i) repository \<Rightarrow> mctx \<Rightarrow> 'v \<Rightarrow> (go_error option + 'i) \<times> 'v" where
  "repo_assign_id r c v =
     (if Accessor_Get (IDA r) v \<noteq> zeroID r then (Inr (Accessor_Get (IDA r) v), v)
      else if ExpectID r then (Inl (Some ErrMissingID), v)
      else case mkID r c of
             Inl err \<Rightarrow> (Inl (Some err), v)
           | Inr i \<Rightarrow> (case Accessor_Set (IDA r) v i of (v', err) \<Rightarrow> (if err = None then Inr i else Inl err, v')))"

lemma repo_refusal_open:
  assumes "mem_wf m" "ctx_ok m c" "repo_refusal r c m = None"
  shows "mem_open m c" "ctx_Err m c = None"
  using assms by (auto simp: repo_refusal_def repo_isDoneTx_def mem_open_def split: option.splits if_splits)

lemma repo_FindByID_refusal:
  "repo_FindByID r c i m = (case repo_refusal r c m of
     Some err \<Rightarrow> Inl err | None \<Rightarrow> Inr (mem_Get m c (repo_ns r) (IDToMemoryKey r i)))"
  by (simp add: repo_FindByID_def repo_refusal_def split: option.split)

text \<open>The three operations by their branches; a Create that got an ID, an Update and a DeleteByID.\<close>

lemma repo_create_branches:
  "repo_create r c (m, v) = (case repo_assign_id r c v of
     (Inl err, v') \<Rightarrow> (err, m, v')
   | (Inr i, v') \<Rightarrow> (case repo_refusal r c m of Some err \<Rightarrow> (Some err, m, v')
     | None \<Rightarrow> (case mem_Get m c (repo_ns r) (IDToMemoryKey r i) of
         Some _ \<Rightarrow> (WithContext (Some (ErrorLite_F crud_ErrAlreadyExists ''already exists with id'')), m, v')
       | None \<Rightarrow> (None, mem_Set c (repo_ns r) (IDToMemoryKey r i) v' m, v'))))"
  by (auto simp: repo_create_def repo_assign_id_def Let_def repo_FindByID_def repo_refusal_def
      split: option.splits sum.splits prod.splits)

lemma repo_Update_branches:
  "repo_Update r c (m, v) = (case Accessor_Lookup (IDA r) v of
     (i, False) \<Rightarrow> (Some (ErrText ''entity doesn't have id field''), m, v)
   | (i, True) \<Rightarrow> (case repo_refusal r c m of Some err \<Rightarrow> (Some err, m, v)
     | None \<Rightarrow> (case mem_Get m c (repo_ns r) (IDToMemoryKey r i) of
         None \<Rightarrow> (Some errNotFound, m, v)
       | Some _ \<Rightarrow> (None, mem_Set c (repo_ns r) (IDToMemoryKey r i) v m, v))))"
  by (simp add: repo_Update_def repo_FindByID_refusal split: option.split prod.split bool.split)

lemma repo_DeleteByID_branches:
  assumes "mem_wf m" "ctx_ok m c"
  shows "repo_DeleteByID r c i m = (case repo_refusal r c m of Some err \<Rightarrow> (Some err, m)
     | None \<Rightarrow> (if mem_Get m c (repo_ns r) (IDToMemoryKey r i) = None then Some errNotFound else None,
                snd (mem_Del c (repo_ns r) (IDToMemoryKey r i) m)))"
proof (cases "repo_refusal r c m")
  case None
  note o = repo_refusal_open [OF assms None]
  show ?thesis using o(2) None mem_open_Del(5) [OF o(1), of "repo_ns r" "IDToMemoryKey r i"]
    by (cases "mem_Del c (repo_ns r) (IDToMemoryKey r i) m")
       (auto simp: repo_DeleteByID_def mem_open_isDone [OF o(1)] split: bool.split)
next
  case (Some err)
  then show ?thesis by (simp add: repo_DeleteByID_def repo_refusal_def split: option.splits)
qed

text \<open>C5: the contract of the single-entity operations, on every branch, from any well-formed memory and
  context. A Create that gets no ID (the ID is expected but zero, the ID cannot be made or not be set)
  returns that error; on a cancelled context, or in a transaction that has ended, Create, Update and
  DeleteByID return the error of the context or of the transaction; Update refuses an entity without an
  ID field; otherwise Create fails with ErrAlreadyExists exactly when the ID is taken, Update and
  DeleteByID with ErrNotFound exactly when it is free. A failing Create or Update leaves the memory as
  it was, a failing DeleteByID everything the context reads. After a succeeding one FindByID sees the
  entity (or its absence), and every other key is untouched.\<close>

theorem repo_crud_contract:
  assumes "mem_wf m" "ctx_ok m c"
  shows "let no = repo_refusal r c m;
             found = (\<lambda>i. mem_Get m c (repo_ns r) (IDToMemoryKey r i) \<noteq> None);
             put = (\<lambda>i v. kv_put (repo_ns r) (IDToMemoryKey r i) v (mem_Get m c))
         in (case repo_create r c (m, v) of (e, m', v') \<Rightarrow>
               v' = snd (repo_assign_id r c v) \<and>
               (case fst (repo_assign_id r c v) of
                  Inl err \<Rightarrow> e = err \<and> e \<noteq> None \<and> m' = m
                | Inr i \<Rightarrow>
                    if no \<noteq> None then e = no \<and> m' = m
                    else if found i then err_Is e crud_ErrAlreadyExists \<and> m' = m
                    else e = None \<and> mem_Get m' c = put i v' \<and> repo_FindByID r c i m' = Inr (Some v'))) \<and>
            (case repo_Update r c (m, v) of (e, m', v') \<Rightarrow>
               v' = v \<and>
               (case Accessor_Lookup (IDA r) v of (i, ok) \<Rightarrow>
                  if \<not> ok then e \<noteq> None \<and> m' = m
                  else if no \<noteq> None then e = no \<and> m' = m
                  else if found i then e = None \<and> mem_Get m' c = put i v \<and> repo_FindByID r c i m' = Inr (Some v)
                  else err_Is e crud_ErrNotFound \<and> m' = m)) \<and>
            (case repo_DeleteByID r c i m of (e, m') \<Rightarrow>
               if no \<noteq> None then e = no \<and> m' = m
               else (if found i then e = None \<and> repo_FindByID r c i m' = Inr None
                     else err_Is e crud_ErrNotFound) \<and>
                    mem_Get m' c = (mem_Get m c)(repo_ns r := (mem_Get m c (repo_ns r))(IDToMemoryKey r i := None)))"
proof (cases "repo_refusal r c m")
  case None
  note o = repo_refusal_open [OF assms None]
  have FS: "repo_FindByID r c i (mem_Set c (repo_ns r) (IDToMemoryKey r i) v m) = Inr (Some v)" for i v
    using repo_FindByID_open [OF mem_open_Set(1) [OF o(1)], where r = r and i = i] o(2)
    by (simp add: mem_open_Set(2,3) [OF o(1)] kv_put_def)
  have FD: "repo_FindByID r c i (snd (mem_Del c (repo_ns r) (IDToMemoryKey r i) m)) = Inr None"
    using repo_FindByID_open [OF mem_open_Del(1) [OF o(1)], where r = r and i = i] o(2)
    by (simp add: mem_open_Del(2,3,5) [OF o(1)])
  note simps = None Let_def FS FD mem_open_Set(2) [OF o(1)] mem_open_Del(2) [OF o(1)] errNotFound_def
  show ?thesis
    unfolding repo_create_branches repo_Update_branches repo_DeleteByID_branches [OF assms]
    by (auto simp: simps repo_assign_id_def split: option.split prod.split sum.split bool.split)
next
  case (Some err)
  show ?thesis
    unfolding repo_create_branches repo_Update_branches repo_DeleteByID_branches [OF assms]
    by (auto simp: Some Let_def repo_assign_id_def split: prod.split sum.split bool.split)
qed

theorem repo_crud_contract_witness:
  "repo_create ex_repo Background (NewMemory ''M'', (2, 5)) =
     (None, mem_Set Background (repo_ns ex_repo) ''xx'' (2, 5) (NewMemory ''M''), (2, 5)) \<and>
   repo_FindByID ex_repo Background 2
     (mem_Set Background (repo_ns ex_repo) ''xx'' (2, 5) (NewMemory ''M'')) = Inr (Some (2, 5))"
proof -
  have o: "mem_wf (NewMemory ''M'' :: (nat \<times> nat) memory)" "ctx_ok (NewMemory ''M'' :: (nat \<times> nat) memory) Background"
    by (simp_all add: ctx_ok_def mem_LookupTx_def)
  have i: "repo_assign_id ex_repo Background (2, 5) = (Inr 2, (2, 5))" by code_simp
  have n: "repo_refusal ex_repo Background (NewMemory ''M'' :: (nat \<times> nat) memory) = None"
    "mem_Get (NewMemory ''M'' :: (nat \<times> nat) memory) Background (repo_ns ex_repo) (IDToMemoryKey ex_repo 2) = None"
    by (simp_all add: repo_refusal_def repo_isDoneTx_def mem_Get_def mem_LookupTx_def mem_lookup_def mem_namespace_def
        NewMemory_def gm_get_or_def)
  have c: "repo_create ex_repo Background (NewMemory ''M'', (2, 5)) =
     (None, mem_Set Background (repo_ns ex_repo) ''xx'' (2, 5) (NewMemory ''M''), (2, 5))" by code_simp
  show ?thesis using repo_crud_contract [OF o, of ex_repo "(2, 5)"] n unfolding c i by (simp add: Let_def)
qed


text \<open>A memory agrees with a repository when every entity in its namespace is stored under its own ID.\<close>

definition repo_keyed :: "('v, 'i) repository \<Rightarrow> mctx \<Rightarrow> 'v memory \<Rightarrow> bool" where
  "repo_keyed r c m \<longleftrightarrow>
     (\<forall>k v. mem_Get m c (repo_ns r) k = Some v \<longrightarrow>
        Accessor_Lookup (IDA r) v = (Accessor_Get (IDA r) v, True) \<and> repo_key r v = k)"

lemma mem_All_open: "mem_open m c \<Longrightarrow> set (mem_All m c ns) = ran (mem_Get m c ns)"
proof -
  assume o: "mem_open m c"
  let ?s = "ctx_actions m c"
  have all: "mem_All m c ns = map snd (act_all ?s m ns)"
    using o by (auto simp: mem_open_def mem_All_def mem_toTSlice_def ctx_actions_def act_all_def split: option.splits)
  have "gm_wf (act_all ?s m ns)" by (simp add: act_all_def split: memory_actions.split)
  then have "set (map snd (act_all ?s m ns)) = ran (map_of (act_all ?s m ns))"
    by (force simp: ran_def gm_in_set [symmetric])
  moreover have "mem_Get m c ns = map_of (act_all ?s m ns)"
    using mem_open_actions(1,2) [OF o] act.lookup_all by (auto simp: fun_eq_iff)
  ultimately show ?thesis by (simp add: all)
qed

text \<open>DeleteAll empties the namespace. On a live context whose namespace holds every entity under its
  own ID, DeleteAll succeeds, the context then finds no entity of the repository, and reads of every
  other namespace are unchanged.\<close>

theorem repo_DeleteAll_empties:
  assumes "mem_open m c" "ctx_Err m c = None" "repo_keyed r c m" "repo_DeleteAll r c m = (e, m')"
  shows "e = None \<and> mem_Get m' c = (mem_Get m c)(repo_ns r := Map.empty) \<and> repo_FindAll r c m' = []"
proof -
  let ?vs = "mem_All m c (repo_ns r)"
  have vs: "set ?vs = ran (mem_Get m c (repo_ns r))" by (rule mem_All_open [OF assms(1)])
  have acc: "\<And>v. v \<in> set ?vs \<Longrightarrow> Accessor_Lookup (IDA r) v = (Accessor_Get (IDA r) v, True)"
    using assms(3) by (auto simp: vs repo_keyed_def ran_def)
  have "repo_delete_each r c (map Inr ?vs) m = (e, m')"
    using assms(4) by (simp add: repo_DeleteAll_def repo_FindAll_open [OF assms(1,2)])
  note D = repo_delete_each_spec [OF assms(1,2) acc this]
  have "mem_Get m c (repo_ns r) k = None" if "k \<notin> repo_key r ` set ?vs" for k
    using that assms(3) by (cases "mem_Get m c (repo_ns r) k") (auto simp: repo_keyed_def vs ran_def)
  then have G: "mem_Get m' c = (mem_Get m c)(repo_ns r := Map.empty)"
    using D by (auto simp: fun_eq_iff)
  have "mem_Get m' c (repo_ns r) = Map.empty" by (simp only: G fun_upd_same)
  with D have "set (mem_All m' c (repo_ns r)) = {}" by (metis mem_All_open ran_empty)
  with D G repo_FindAll_open [of m' c r] show ?thesis by simp
qed

text \<open>FindByIDs returns each requested entity once, or nothing but an error. On a live context it
  yields a single not-found error as soon as one of the IDs has no entity; otherwise it yields, without
  an error and without repetition of a key, exactly the entities of the requested IDs.\<close>

theorem repo_FindByIDs_spec:
  assumes "mem_open m c"
  shows "if list_all (\<lambda>i. mem_Get m c (repo_ns r) (IDToMemoryKey r i) \<noteq> None) ids
         then (\<exists>vs. repo_FindByIDs r c ids m = map Inr vs \<and>
                 length vs = card (IDToMemoryKey r ` set ids) \<and>
                 Some ` set vs = (\<lambda>i. mem_Get m c (repo_ns r) (IDToMemoryKey r i)) ` set ids)
         else repo_FindByIDs r c ids m = [Inl errNotFound]"
proof -
  let ?all = "act_all (ctx_actions m c) m (repo_ns r)" and ?key = "IDToMemoryKey r"
  have G: "mem_Get m c (repo_ns r) = map_of ?all"
    using mem_open_actions(1,2) [OF assms] act.lookup_all by (auto simp: fun_eq_iff)
  have F: "repo_FindByIDs r c ids m = (case repo_collect r ?all ids [] of
      None \<Rightarrow> [Inl errNotFound] | Some vs \<Rightarrow> map (\<lambda>(k, v). Inr v) vs)"
    by (simp add: repo_FindByIDs_def ctx_actions_def Let_def)
  show ?thesis
  proof (cases "list_all (\<lambda>i. gm_has ?all (?key i)) ids")
    case False
    then show ?thesis by (simp add: F G repo_collect_spec)
  next
    case True
    define t where "t = fold (\<lambda>i vs. gm_set (?key i) (the (gm_get ?all (?key i))) vs) ids []"
    have t: "map_of t k = (if k \<in> ?key ` set ids then Some (the (gm_get ?all k)) else None)" "gm_wf t" for k
      using gm_collect_fold [of ?key "\<lambda>k. the (gm_get ?all k)" ids "[]"] by (simp_all add: t_def)
    then have "dom (map_of t) = ?key ` set ids" by (auto split: if_splits)
    then have len: "length (map snd t) = card (?key ` set ids)" using gm_wf_length [OF t(2)] by simp
    have "Some ` set (map snd t) = {Some v |v. \<exists>k. map_of t k = Some v}"
      using t(2) by (force simp: gm_in_set [symmetric])
    also have "\<dots> = (\<lambda>i. gm_get ?all (?key i)) ` set ids"
    proof (intro set_eqI iffI)
      fix x assume "x \<in> {Some v |v. \<exists>k. map_of t k = Some v}"
      then obtain i where "i \<in> set ids" "x = Some (the (gm_get ?all (?key i)))"
        by (auto simp: t(1) split: if_splits)
      with True show "x \<in> (\<lambda>i. gm_get ?all (?key i)) ` set ids" by (force simp: list_all_iff)
    next
      fix x assume "x \<in> (\<lambda>i. gm_get ?all (?key i)) ` set ids"
      with True obtain i v where "i \<in> set ids" "gm_get ?all (?key i) = Some v" "x = Some v"
        by (fastforce simp: list_all_iff)
      then show "x \<in> {Some v |v. \<exists>k. map_of t k = Some v}" by (auto simp: t(1) intro!: exI [of _ "?key i"])
    qed
    finally have st: "Some ` set (map snd t) = (\<lambda>i. gm_get ?all (?key i)) ` set ids" .
    have "repo_FindByIDs r c ids m = map Inr (map snd t)"
      using True by (simp add: F repo_collect_spec t_def [symmetric] split_def)
    then have "\<exists>vs. repo_FindByIDs r c ids m = map Inr vs \<and> length vs = card (?key ` set ids) \<and>
        Some ` set vs = (\<lambda>i. gm_get ?all (?key i)) ` set ids" using len st by blast
    with True show ?thesis unfolding G by simp
  qed
qed

end
