(* ===== verification/Migration.thy ===== *)
theory Migration imports MemoryRepository "HOL-Library.Char_ord" "HOL-Library.List_Lexorder" begin

text \<open>
  \<^verbatim>\<open>port/migration\<close>: the migrator, over a state repository and a resource given by their
  operations on a world (they may share it). Versions are strings in byte order. Transactions of
  both follow the one-phase commit protocol; the deferred Finish of the resource runs before the
  one of the state repository. The contract of a state repository is the locale
  \<^verbatim>\<open>state_repository\<close>, interpreted on the in-memory repository.
\<close>

section \<open>State, repository, steps\<close>

record StateID =
  sid_Namespace :: string
  sid_Version :: string

record State =
  st_ID :: StateID
  st_Dirty :: bool

record ('w, 'c) state_repo =
  sr_BeginTx :: "'c \<Rightarrow> ('w, 'c \<times> go_error option) op"
  sr_CommitTx :: "'c \<Rightarrow> ('w, go_error option) op"
  sr_RollbackTx :: "'c \<Rightarrow> ('w, go_error option) op"
  sr_FindByID :: "'c \<Rightarrow> StateID \<Rightarrow> ('w, go_error + State option) op"
  sr_Create :: "'c \<Rightarrow> State \<Rightarrow> ('w, go_error option) op"
  sr_DeleteByID :: "'c \<Rightarrow> StateID \<Rightarrow> ('w, go_error option) op"

record ('w, 'c) resource =
  rs_BeginTx :: "'c \<Rightarrow> ('w, 'c \<times> go_error option) op"
  rs_CommitTx :: "'c \<Rightarrow> ('w, go_error option) op"
  rs_RollbackTx :: "'c \<Rightarrow> ('w, go_error option) op"

record ('w, 'c) step =
  MigrateUp :: "'c \<Rightarrow> ('w, go_error option) op"
  step_MigrateDown :: "'c \<Rightarrow> ('w, go_error option) op"

record ('w, 'c) Migrator =
  mg_Resource :: "('w, 'c) resource"
  mg_Namespace :: string
  mg_Steps :: "(string, ('w, 'c) step) gomap"
  mg_StateRepository :: "('w, 'c) state_repo option"
  mg_EnsureStateRepository :: "('c \<Rightarrow> ('w, go_error option) op) option"

definition mg_stages :: "(string, ('w, 'c) step) gomap \<Rightarrow> (string \<times> ('w, 'c) step) list" where
  "mg_stages s = sort_key fst s"

section \<open>Validation\<close>

definition zero_State :: State where
  "zero_State = \<lparr>st_ID = \<lparr>sid_Namespace = [], sid_Version = []\<rparr>, st_Dirty = False\<rparr>"

definition mg_missing_error :: "State \<Rightarrow> State \<Rightarrow> go_error" where
  "mg_missing_error prev state =
     ErrText (''['' @ sid_Namespace (st_ID prev) @ ''] migration step is missing: '' @ sid_Version (st_ID prev) @
       ''. This step should exist because the following migration step has already been completed: '' @
       sid_Version (st_ID state))"

fun mg_validate_loop ::
    "('w, 'c) state_repo \<Rightarrow> string \<Rightarrow> 'c \<Rightarrow> nat \<Rightarrow> bool \<Rightarrow> State \<Rightarrow> (string \<times> ('w, 'c) step) list \<Rightarrow>
     ('w, go_error option) op" where
  "mg_validate_loop sr ns ctx i isPrevOK prev [] w = (None, w)"
| "mg_validate_loop sr ns ctx i isPrevOK prev ((version, _) # stages) w =
     (case sr_FindByID sr ctx \<lparr>sid_Namespace = ns, sid_Version = version\<rparr> w of
        (Inl err, w1) \<Rightarrow> (Some err, w1)
      | (Inr found, w1) \<Rightarrow>
          (let ok = (found \<noteq> None); state = (case found of Some s \<Rightarrow> s | None \<Rightarrow> zero_State)
           in if ok \<and> \<not> isPrevOK \<and> i \<noteq> 0 then (Some (mg_missing_error prev state), w1)
              else mg_validate_loop sr ns ctx (Suc i) ok state stages w1))"

definition mg_validate :: "('w, 'c) Migrator \<Rightarrow> 'c \<Rightarrow> ('w, go_error option) op" where
  "mg_validate m ctx w =
     (if mg_Namespace m = [] then (Some (ErrText ''missing namespace''), w)
      else case mg_StateRepository m of
             None \<Rightarrow> (Some (ErrText ''Migrator.StateRepository is not supplied''), w)
           | Some sr \<Rightarrow> mg_validate_loop sr (mg_Namespace m) ctx 0 False zero_State (mg_stages (mg_Steps m)) w)"

section \<open>One step up, one step down\<close>

definition mg_dirty_error :: "StateID \<Rightarrow> go_error" where
  "mg_dirty_error stateID =
     ErrText (''namespace:'' @ sid_Namespace stateID @ '' / version:'' @ sid_Version stateID @ '' is in a dirty state'')"

definition mg_up ::
    "('w, 'c) state_repo \<Rightarrow> string \<Rightarrow> 'c \<Rightarrow> 'c \<Rightarrow> string \<Rightarrow> ('w, 'c) step \<Rightarrow> ('w, go_error option) op" where
  "mg_up sr ns schemaTx stepTx version step w =
     (let stateID = \<lparr>sid_Namespace = ns, sid_Version = version\<rparr>
      in case sr_FindByID sr schemaTx stateID w of
           (Inl err, w1) \<Rightarrow> (Some err, w1)
         | (Inr None, w1) \<Rightarrow>
             (case MigrateUp step stepTx w1 of
                (Some err, w2) \<Rightarrow> (Some (ErrWrapText (''error with MigrateUp '' @ ns @ ''/'' @ version) err), w2)
              | (None, w2) \<Rightarrow> sr_Create sr schemaTx \<lparr>st_ID = stateID, st_Dirty = False\<rparr> w2)
         | (Inr (Some state), w1) \<Rightarrow> if st_Dirty state then (Some (mg_dirty_error stateID), w1) else (None, w1))"

definition mg_down ::
    "('w, 'c) state_repo \<Rightarrow> string \<Rightarrow> 'c \<Rightarrow> 'c \<Rightarrow> string \<Rightarrow> ('w, 'c) step \<Rightarrow> ('w, go_error option) op" where
  "mg_down sr ns schemaTx stepTx version step w =
     (let stateID = \<lparr>sid_Namespace = ns, sid_Version = version\<rparr>
      in case sr_FindByID sr schemaTx stateID w of
           (Inl err, w1) \<Rightarrow> (Some err, w1)
         | (Inr None, w1) \<Rightarrow> (None, w1)
         | (Inr (Some state), w1) \<Rightarrow>
             if st_Dirty state then (Some (mg_dirty_error stateID), w1)
             else (case step_MigrateDown step stepTx w1 of
                     (Some err, w2) \<Rightarrow> (Some (ErrWrapText (''error with MigrateDown '' @ ns @ ''/'' @ version) err), w2)
                   | (None, w2) \<Rightarrow> sr_DeleteByID sr schemaTx stateID w2))"

fun mg_ups ::
    "('w, 'c) state_repo \<Rightarrow> string \<Rightarrow> 'c \<Rightarrow> 'c \<Rightarrow> (string \<times> ('w, 'c) step) list \<Rightarrow> ('w, go_error option) op" where
  "mg_ups sr ns schemaCTX stepCTX [] w = (None, w)"
| "mg_ups sr ns schemaCTX stepCTX ((version, step) # stages) w =
     (case mg_up sr ns schemaCTX stepCTX version step w of
        (Some err, w1) \<Rightarrow> (Some err, w1)
      | (None, w1) \<Rightarrow> mg_ups sr ns schemaCTX stepCTX stages w1)"

text \<open>The loop from the last stage down to the target, over the stages in reverse.\<close>

fun mg_downs ::
    "('w, 'c) state_repo \<Rightarrow> string \<Rightarrow> string \<Rightarrow> 'c \<Rightarrow> 'c \<Rightarrow> (string \<times> ('w, 'c) step) list \<Rightarrow> ('w, go_error option) op" where
  "mg_downs sr ns targetVersion schemaCTX stepCTX [] w = (None, w)"
| "mg_downs sr ns targetVersion schemaCTX stepCTX ((version, step) # rstages) w =
     (if version \<le> targetVersion then (None, w)
      else case mg_down sr ns schemaCTX stepCTX version step w of
             (Some err, w1) \<Rightarrow> (Some err, w1)
           | (None, w1) \<Rightarrow> mg_downs sr ns targetVersion schemaCTX stepCTX rstages w1)"

section \<open>The migrator\<close>

definition mg_in_txs ::
    "('w, 'c) state_repo \<Rightarrow> ('w, 'c) resource \<Rightarrow> 'c \<Rightarrow> ('c \<Rightarrow> 'c \<Rightarrow> ('w, go_error option) op) \<Rightarrow> ('w, go_error option) op" where
  "mg_in_txs sr rs ctx body =
     OnePhaseCommit_run (sr_BeginTx sr) (sr_CommitTx sr) (sr_RollbackTx sr) ctx
       (\<lambda>schemaCTX. OnePhaseCommit_run (rs_BeginTx rs) (rs_CommitTx rs) (rs_RollbackTx rs) ctx
          (\<lambda>stepCTX. body schemaCTX stepCTX))"

definition mg_prepare :: "('w, 'c) Migrator \<Rightarrow> 'c \<Rightarrow> ('w, go_error option) op" where
  "mg_prepare m ctx w =
     (case (case mg_EnsureStateRepository m of None \<Rightarrow> (None, w) | Some ensure \<Rightarrow> ensure ctx w) of
        (Some err, w1) \<Rightarrow> (Some err, w1)
      | (None, w1) \<Rightarrow> mg_validate m ctx w1)"

definition mg_Migrate :: "('w, 'c) Migrator \<Rightarrow> 'c \<Rightarrow> ('w, go_error option) op" where
  "mg_Migrate m ctx w =
     (case mg_prepare m ctx w of
        (Some err, w1) \<Rightarrow> (Some err, w1)
      | (None, w1) \<Rightarrow>
          mg_in_txs (the (mg_StateRepository m)) (mg_Resource m) ctx
            (\<lambda>schemaCTX stepCTX.
               mg_ups (the (mg_StateRepository m)) (mg_Namespace m) schemaCTX stepCTX (mg_stages (mg_Steps m))) w1)"

definition mg_MigrateDown :: "('w, 'c) Migrator \<Rightarrow> 'c \<Rightarrow> string \<Rightarrow> ('w, go_error option) op" where
  "mg_MigrateDown m ctx targetVersion w =
     (if targetVersion \<noteq> [] \<and> \<not> gm_has (mg_Steps m) targetVersion
      then (Some (ErrText (''the target version '' @ targetVersion @ '' does not exist among the migration steps'')), w)
      else case mg_prepare m ctx w of
             (Some err, w1) \<Rightarrow> (Some err, w1)
           | (None, w1) \<Rightarrow>
               mg_in_txs (the (mg_StateRepository m)) (mg_Resource m) ctx
                 (\<lambda>schemaCTX stepCTX.
                    mg_downs (the (mg_StateRepository m)) (mg_Namespace m) targetVersion schemaCTX stepCTX
                      (rev (mg_stages (mg_Steps m)))) w1)"

section \<open>The contract of a state repository\<close>

text \<open>
  A state repository on a world of its own: a provider of one-phase commit whose view of a context
  is the map from IDs to states, with the single-entity operations acting on that map.
\<close>

locale state_repository =
  one_phase_commit "sr_BeginTx sr" "sr_CommitTx sr" "sr_RollbackTx sr" view base within
  for sr :: "('w, 'c) state_repo" and view :: "'w \<Rightarrow> 'c \<Rightarrow> StateID \<Rightarrow> State option"
    and base :: "'w \<Rightarrow> 'c \<Rightarrow> bool" and within :: "'w \<Rightarrow> 'c \<Rightarrow> 'c \<Rightarrow> bool" +
  assumes find: "sr_FindByID sr c i w = (r, w') \<Longrightarrow> w' = w \<and> (\<forall>s. r = Inr s \<longrightarrow> s = view w c i)"
    and create: "within w c c' \<Longrightarrow> sid_Namespace (st_ID s) \<noteq> [] \<Longrightarrow> sr_Create sr c' s w = (e, w') \<Longrightarrow>
          within w' c c' \<and> view w' c = view w c \<and> (e = None \<longrightarrow> view w' c' = (view w c')(st_ID s \<mapsto> s))"
    and delete: "within w c c' \<Longrightarrow> sr_DeleteByID sr c' i w = (e, w') \<Longrightarrow>
          within w' c c' \<and> view w' c = view w c \<and> (e = None \<longrightarrow> view w' c' = (view w c')(i := None))"

text \<open>The repository beside a resource with a world of its own.\<close>

definition sr_beside :: "('w, 'c) state_repo \<Rightarrow> ('w \<times> 'z, 'c) state_repo" where
  "sr_beside sr = \<lparr>sr_BeginTx = \<lambda>c. on_fst (sr_BeginTx sr c), sr_CommitTx = \<lambda>c. on_fst (sr_CommitTx sr c),
     sr_RollbackTx = \<lambda>c. on_fst (sr_RollbackTx sr c), sr_FindByID = \<lambda>c i. on_fst (sr_FindByID sr c i),
     sr_Create = \<lambda>c s. on_fst (sr_Create sr c s), sr_DeleteByID = \<lambda>c i. on_fst (sr_DeleteByID sr c i)\<rparr>"

definition keeps_fst :: "('w \<times> 'z, 'r) op \<Rightarrow> bool" where
  "keeps_fst f \<longleftrightarrow> (\<forall>w. fst (snd (f w)) = fst w)"

lemma keeps_fstD: "keeps_fst f \<Longrightarrow> f w = (r, w') \<Longrightarrow> fst w' = fst w"
  unfolding keeps_fst_def by (metis snd_conv)

definition keeps_resource :: "('w \<times> 'z, 'c) resource \<Rightarrow> bool" where
  "keeps_resource rs \<longleftrightarrow>
     (\<forall>c. keeps_fst (rs_BeginTx rs c) \<and> keeps_fst (rs_CommitTx rs c) \<and> keeps_fst (rs_RollbackTx rs c))"

definition keeps_step :: "('w \<times> 'z, 'c) step \<Rightarrow> bool" where
  "keeps_step s \<longleftrightarrow> (\<forall>c. keeps_fst (MigrateUp s c) \<and> keeps_fst (step_MigrateDown s c))"

text \<open>A migrator whose resource, steps and ensuring do not touch the state repository.\<close>

definition mg_beside :: "('w, 'c) state_repo \<Rightarrow> ('w \<times> 'z, 'c) Migrator \<Rightarrow> bool" where
  "mg_beside sr m \<longleftrightarrow> mg_StateRepository m = Some (sr_beside sr) \<and> keeps_resource (mg_Resource m) \<and>
     (\<forall>(v, s) \<in> set (mg_Steps m). keeps_step s) \<and>
     (case mg_EnsureStateRepository m of None \<Rightarrow> True | Some f \<Rightarrow> \<forall>c. keeps_fst (f c))"

definition all_keep :: "(string \<times> ('w \<times> 'z, 'c) step) list \<Rightarrow> bool" where
  "all_keep stages \<longleftrightarrow> (\<forall>(v, s) \<in> set stages. keeps_step s)"

lemma all_keep_Cons: "all_keep ((v, s) # stages) \<longleftrightarrow> keeps_step s \<and> all_keep stages"
  by (simp add: all_keep_def)

lemma run_keeps:
  assumes "keeps_resource rs"
    and "OnePhaseCommit_run (rs_BeginTx rs) (rs_CommitTx rs) (rs_RollbackTx rs) c body w = (e, w')"
  shows "(e \<noteq> None \<and> fst w' = fst w) \<or>
    (\<exists>tc w1 e1 w2. fst w1 = fst w \<and> body tc w1 = (e1, w2) \<and> fst w' = fst w2 \<and> (e = None \<longrightarrow> e1 = None))"
proof -
  obtain tc be w1 where b: "rs_BeginTx rs c w = ((tc, be), w1)" by (metis prod.exhaust)
  have k: "keeps_fst (rs_BeginTx rs c)" "\<And>c. keeps_fst (rs_CommitTx rs c)" "\<And>c. keeps_fst (rs_RollbackTx rs c)"
    using assms(1) by (auto simp: keeps_resource_def)
  have w1: "fst w1 = fst w" using keeps_fstD [OF k(1) b] .
  show ?thesis
  proof (cases be)
    case (Some x)
    with assms(2) b w1 show ?thesis by (auto simp: OnePhaseCommit_run_def)
  next
    case None
    obtain e1 w2 where bd: "body tc w1 = (e1, w2)" by (cases "body tc w1")
    have fin: "FinishTx e1 (rs_CommitTx rs tc) (rs_RollbackTx rs tc) w2 = (e, w')"
      using assms(2) b None bd by (simp add: OnePhaseCommit_run_def FinishOnePhaseCommit_def)
    have "fst w' = fst w2 \<and> (e = None \<longrightarrow> e1 = None)"
    proof (cases e1)
      case None
      with fin show ?thesis using keeps_fstD [OF k(2)] by auto
    next
      case (Some x)
      with fin have "e \<noteq> None" by (auto simp: Merge_None_iff)
      moreover have "fst w' = fst w2"
        using fin Some keeps_fstD [OF k(3), of tc w2] by (metis FinishTx_rollback prod.collapse snd_conv)
      ultimately show ?thesis by blast
    qed
    with w1 bd show ?thesis by blast
  qed
qed

section \<open>What the loops do to the recorded states\<close>

definition ups_states :: "string \<Rightarrow> string set \<Rightarrow> (StateID \<Rightarrow> State option) \<Rightarrow> StateID \<Rightarrow> State option" where
  "ups_states ns vs d i =
     (if d i = None \<and> sid_Namespace i = ns \<and> sid_Version i \<in> vs then Some \<lparr>st_ID = i, st_Dirty = False\<rparr> else d i)"

definition downs_states :: "string \<Rightarrow> string set \<Rightarrow> (StateID \<Rightarrow> State option) \<Rightarrow> StateID \<Rightarrow> State option" where
  "downs_states ns vs d i = (if sid_Namespace i = ns \<and> sid_Version i \<in> vs then None else d i)"

definition mg_removed :: "string \<Rightarrow> (string \<times> 's) list \<Rightarrow> string set" where
  "mg_removed targetVersion rstages = fst ` set (takeWhile (\<lambda>(v, _). \<not> v \<le> targetVersion) rstages)"

lemma sid_eta [simp]: "\<lparr>sid_Namespace = sid_Namespace i, sid_Version = sid_Version i\<rparr> = i"
  by (cases i) simp

context state_repository
begin

lemma beside_find: "sr_FindByID (sr_beside sr) c i w = (r, w') \<Longrightarrow> w' = w \<and> (\<forall>s. r = Inr s \<longrightarrow> s = view (fst w) c i)"
  using find by (cases w; cases w') (auto simp: sr_beside_def on_fst_eq)

lemma beside_create:
  "within (fst w) c c' \<Longrightarrow> sid_Namespace (st_ID s) \<noteq> [] \<Longrightarrow> sr_Create (sr_beside sr) c' s w = (e, w') \<Longrightarrow>
     within (fst w') c c' \<and> view (fst w') c = view (fst w) c \<and>
     (e = None \<longrightarrow> view (fst w') c' = (view (fst w) c')(st_ID s \<mapsto> s))"
  using create by (auto simp: sr_beside_def on_fst_eq)

lemma beside_delete:
  "within (fst w) c c' \<Longrightarrow> sr_DeleteByID (sr_beside sr) c' i w = (e, w') \<Longrightarrow>
     within (fst w') c c' \<and> view (fst w') c = view (fst w) c \<and>
     (e = None \<longrightarrow> view (fst w') c' = (view (fst w) c')(i := None))"
  using delete by (auto simp: sr_beside_def on_fst_eq)

lemma up_step:
  assumes "mg_up (sr_beside sr) ns sc tc v step w = (e, w')" "within (fst w) c sc" "ns \<noteq> []" "keeps_step step"
  shows "within (fst w') c sc \<and> view (fst w') c = view (fst w) c \<and>
    (e = None \<longrightarrow> view (fst w') sc = ups_states ns {v} (view (fst w) sc))"
proof -
  let ?i = "\<lparr>sid_Namespace = ns, sid_Version = v\<rparr>"
  obtain r w1 where f: "sr_FindByID (sr_beside sr) sc ?i w = (r, w1)" by (metis prod.exhaust)
  note F = beside_find [OF f]
  consider (err) x where "r = Inl x" | (absent) "r = Inr None" | (found) s where "r = Inr (Some s)"
    by (metis sumE not_None_eq)
  then show ?thesis
  proof cases
    case err
    with assms(1,2) f F show ?thesis by (auto simp: mg_up_def)
  next
    case found
    then have "view (fst w) sc ?i = Some s" using F by auto
    then have "ups_states ns {v} (view (fst w) sc) = view (fst w) sc"
      by (auto simp: ups_states_def fun_eq_iff)
    with assms(1,2) f F found show ?thesis by (auto simp: mg_up_def Let_def split: if_splits)
  next
    case absent
    then have n: "view (fst w) sc ?i = None" using F by auto
    obtain ue w2 where u: "MigrateUp step tc w = (ue, w2)" by (metis prod.exhaust)
    have w2: "fst w2 = fst w" using assms(4) keeps_fstD [of "MigrateUp step tc" w ue w2] u by (simp add: keeps_step_def)
    have up: "(view (fst w) sc)(?i \<mapsto> \<lparr>st_ID = ?i, st_Dirty = False\<rparr>) = ups_states ns {v} (view (fst w) sc)"
      using n by (auto simp: ups_states_def fun_eq_iff)
    show ?thesis
    proof (cases ue)
      case (Some x)
      then show ?thesis using assms(1,2) f F absent u w2 by (auto simp: mg_up_def)
    next
      case None
      then have "sr_Create (sr_beside sr) sc \<lparr>st_ID = ?i, st_Dirty = False\<rparr> w2 = (e, w')"
        using assms(1) f F absent u by (simp add: mg_up_def)
      from beside_create [OF _ _ this, of c] assms(2,3) up show ?thesis by (auto simp: w2)
    qed
  qed
qed

lemma down_step:
  assumes "mg_down (sr_beside sr) ns sc tc v step w = (e, w')" "within (fst w) c sc" "keeps_step step"
  shows "within (fst w') c sc \<and> view (fst w') c = view (fst w) c \<and>
    (e = None \<longrightarrow> view (fst w') sc = downs_states ns {v} (view (fst w) sc))"
proof -
  let ?i = "\<lparr>sid_Namespace = ns, sid_Version = v\<rparr>"
  obtain r w1 where f: "sr_FindByID (sr_beside sr) sc ?i w = (r, w1)" by (metis prod.exhaust)
  note F = beside_find [OF f]
  have dn: "downs_states ns {v} (view (fst w) sc) = (view (fst w) sc)(?i := None)"
    by (auto simp: downs_states_def fun_eq_iff)
  consider (err) x where "r = Inl x" | (absent) "r = Inr None" | (found) s where "r = Inr (Some s)"
    by (metis sumE not_None_eq)
  then show ?thesis
  proof cases
    case err
    with assms(1,2) f F show ?thesis by (auto simp: mg_down_def)
  next
    case absent
    then have "view (fst w) sc ?i = None" using F by auto
    then have "downs_states ns {v} (view (fst w) sc) = view (fst w) sc" by (simp add: dn fun_upd_idem)
    with assms(1,2) f F absent show ?thesis by (auto simp: mg_down_def)
  next
    case found
    obtain ue w2 where u: "step_MigrateDown step tc w = (ue, w2)" by (metis prod.exhaust)
    have w2: "fst w2 = fst w" using assms(3) keeps_fstD [of "step_MigrateDown step tc" w ue w2] u by (simp add: keeps_step_def)
    show ?thesis
    proof (cases "st_Dirty s \<or> ue \<noteq> None")
      case True
      then show ?thesis using assms(1,2) f F found u w2 by (auto simp: mg_down_def Let_def split: if_splits)
    next
      case False
      then have "sr_DeleteByID (sr_beside sr) sc ?i w2 = (e, w')"
        using assms(1) f F found u by (simp add: mg_down_def)
      from beside_delete [OF _ this, of c] assms(2) dn show ?thesis by (auto simp: w2)
    qed
  qed
qed

end

lemma ups_states_Cons: "ups_states ns (insert v vs) d = ups_states ns vs (ups_states ns {v} d)"
  by (auto simp: ups_states_def fun_eq_iff)

lemma downs_states_Cons: "downs_states ns (insert v vs) d = downs_states ns vs (downs_states ns {v} d)"
  by (auto simp: downs_states_def fun_eq_iff)

lemma states_empty [simp]: "ups_states ns {} d = d" "downs_states ns {} d = d"
  by (auto simp: ups_states_def downs_states_def fun_eq_iff)

context state_repository
begin

lemma ups_loop:
  "mg_ups (sr_beside sr) ns sc tc stages w = (e, w') \<Longrightarrow> within (fst w) c sc \<Longrightarrow> ns \<noteq> [] \<Longrightarrow> all_keep stages \<Longrightarrow>
   within (fst w') c sc \<and> view (fst w') c = view (fst w) c \<and>
   (e = None \<longrightarrow> view (fst w') sc = ups_states ns (fst ` set stages) (view (fst w) sc))"
proof (induction stages arbitrary: w)
  case (Cons st stages)
  obtain v s where st: "st = (v, s)" by (cases st)
  obtain e1 w1 where u: "mg_up (sr_beside sr) ns sc tc v s w = (e1, w1)" by (metis prod.exhaust)
  have k: "keeps_step s" "all_keep stages" using Cons.prems(4) by (simp_all add: st all_keep_Cons)
  note U = up_step [OF u Cons.prems(2,3) k(1)]
  show ?case
  proof (cases e1)
    case (Some x)
    with Cons.prems(1) u U show ?thesis by (auto simp: st)
  next
    case None
    then have "mg_ups (sr_beside sr) ns sc tc stages w1 = (e, w')" using Cons.prems(1) u by (simp add: st)
    from Cons.IH [OF this _ Cons.prems(3) k(2)] U None show ?thesis
      by (simp add: st ups_states_Cons [of ns v "fst ` set stages"])
  qed
qed simp

lemma downs_loop:
  "mg_downs (sr_beside sr) ns t sc tc stages w = (e, w') \<Longrightarrow> within (fst w) c sc \<Longrightarrow> all_keep stages \<Longrightarrow>
   within (fst w') c sc \<and> view (fst w') c = view (fst w) c \<and>
   (e = None \<longrightarrow> view (fst w') sc = downs_states ns (mg_removed t stages) (view (fst w) sc))"
proof (induction stages arbitrary: w)
  case Nil
  then show ?case by (simp add: mg_removed_def)
next
  case (Cons st stages)
  obtain v s where st: "st = (v, s)" by (cases st)
  show ?case
  proof (cases "v \<le> t")
    case True
    with Cons.prems show ?thesis by (simp add: st mg_removed_def)
  next
    case False
    obtain e1 w1 where u: "mg_down (sr_beside sr) ns sc tc v s w = (e1, w1)" by (metis prod.exhaust)
    have k: "keeps_step s" "all_keep stages" using Cons.prems(3) by (simp_all add: st all_keep_Cons)
    note U = down_step [OF u Cons.prems(2) k(1)]
    show ?thesis
    proof (cases e1)
      case (Some x)
      with Cons.prems(1) u U False show ?thesis by (auto simp: st)
    next
      case None
      then have "mg_downs (sr_beside sr) ns t sc tc stages w1 = (e, w')"
        using Cons.prems(1) u False by (simp add: st)
      from Cons.IH [OF this _ k(2)] U None False show ?thesis
        by (simp add: st mg_removed_def downs_states_Cons [of ns v "fst ` set (takeWhile (\<lambda>(v, _). \<not> v \<le> t) stages)"])
    qed
  qed
qed

text \<open>The two nested transactions, for a body that acts within the state repository's.\<close>

lemma in_txs:
  assumes run: "mg_in_txs (sr_beside sr) rs c body w = (e, w')" and b: "base (fst w) c" and k: "keeps_resource rs"
    and body: "\<And>sc tc w e w'. body sc tc w = (e, w') \<Longrightarrow> within (fst w) c sc \<Longrightarrow>
      within (fst w') c sc \<and> view (fst w') c = view (fst w) c \<and> (e = None \<longrightarrow> view (fst w') sc = F (view (fst w) sc))"
  shows "view (fst w') c = (if e = None then F (view (fst w) c) else view (fst w) c)"
proof -
  have opc: "one_phase_commit (sr_BeginTx (sr_beside sr)) (sr_CommitTx (sr_beside sr)) (sr_RollbackTx (sr_beside sr))
      (\<lambda>w. view (fst w)) (\<lambda>w. base (fst w)) (\<lambda>w. within (fst w))"
    using one_phase_commit_on_fst [OF one_phase_commit_axioms] by (simp add: sr_beside_def)
  let ?body = "\<lambda>sc. OnePhaseCommit_run (rs_BeginTx rs) (rs_CommitTx rs) (rs_RollbackTx rs) c (\<lambda>tc. body sc tc)"
  have inner: "within (fst w') c sc \<and> view (fst w') c = view (fst w) c \<and> (e = None \<longrightarrow> view (fst w') sc = F (view (fst w) sc))"
    if "?body sc w = (e, w')" "within (fst w) c sc" for sc w e w'
    using run_keeps [OF k that(1)]
  proof
    assume "e \<noteq> None \<and> fst w' = fst w"
    then show ?thesis using that(2) by auto
  next
    assume "\<exists>tc w1 e1 w2. fst w1 = fst w \<and> body sc tc w1 = (e1, w2) \<and> fst w' = fst w2 \<and> (e = None \<longrightarrow> e1 = None)"
    then obtain tc w1 e1 w2 where "fst w1 = fst w" "body sc tc w1 = (e1, w2)" "fst w' = fst w2" "e = None \<longrightarrow> e1 = None"
      by blast
    with body [of sc tc w1 e1 w2] that(2) show ?thesis by simp
  qed
  have iso: "one_phase_commit.isolated (\<lambda>w. view (fst w)) (\<lambda>w. within (fst w)) c ?body"
    unfolding one_phase_commit.isolated_def [OF opc] using inner by blast
  from one_phase_commit.run_atomic [OF opc b iso run [unfolded mg_in_txs_def]] show ?thesis
    using inner by auto
qed

end

section \<open>Preparing\<close>

lemma mg_validate_keeps:
  "keeps_fst (mg_validate_loop sr ns c i ok p stages)" if "\<And>i. keeps_fst (sr_FindByID sr c i)"
proof -
  have "mg_validate_loop sr ns c i ok p stages w = (e, w') \<Longrightarrow> fst w' = fst w" for w e w'
  proof (induction stages arbitrary: i ok p w)
    case (Cons st stages)
    obtain v s where st: "st = (v, s)" by (cases st)
    obtain r w1 where f: "sr_FindByID sr c \<lparr>sid_Namespace = ns, sid_Version = v\<rparr> w = (r, w1)" by (metis prod.exhaust)
    then have "fst w1 = fst w" using keeps_fstD [OF that] by blast
    with Cons f show ?case
      by (auto simp: st Let_def split: sum.splits if_splits option.splits)
  qed simp
  then show ?thesis unfolding keeps_fst_def by (metis prod.collapse)
qed

lemma mg_stages_set [simp]: "set (mg_stages m) = set m"
  by (simp add: mg_stages_def)

lemma mg_prepare_keeps:
  assumes "state_repository sr view base within" "mg_beside sr m"
  shows "keeps_fst (mg_prepare m c)" "mg_prepare m c w = (None, w') \<Longrightarrow> mg_Namespace m \<noteq> []"
proof -
  have "keeps_fst (sr_FindByID (sr_beside sr) c i)" for i
    using state_repository.beside_find [OF assms(1)] unfolding keeps_fst_def by (metis prod.collapse)
  then have v: "keeps_fst (mg_validate m c)"
    using mg_validate_keeps [of "sr_beside sr" c "mg_Namespace m" 0 False zero_State "mg_stages (mg_Steps m)"] assms(2)
    by (auto simp: mg_beside_def mg_validate_def keeps_fst_def)
  show "keeps_fst (mg_prepare m c)"
    unfolding keeps_fst_def
  proof
    fix w
    obtain e1 w1 where en: "(case mg_EnsureStateRepository m of None \<Rightarrow> (None, w) | Some ensure \<Rightarrow> ensure c w) = (e1, w1)"
      by (metis prod.exhaust)
    have "fst w1 = fst w" using en assms(2) by (auto simp: mg_beside_def split: option.splits dest: keeps_fstD)
    moreover have "fst (snd (mg_validate m c w1)) = fst w1" using v by (simp add: keeps_fst_def del: split_paired_All)
    ultimately show "fst (snd (mg_prepare m c w)) = fst w"
      using en by (auto simp: mg_prepare_def split: option.split)
  qed
  show "mg_prepare m c w = (None, w') \<Longrightarrow> mg_Namespace m \<noteq> []"
    by (auto simp: mg_prepare_def mg_validate_def split: prod.splits option.splits if_splits)
qed

context state_repository
begin

lemma Migrate_states:
  assumes "mg_beside sr m" "base (fst w) c" "mg_Migrate m c w = (e, w')"
  shows "view (fst w') c = (if e = None then ups_states (mg_Namespace m) (fst ` set (mg_Steps m)) (view (fst w) c) else view (fst w) c)"
proof -
  obtain pe w1 where p: "mg_prepare m c w = (pe, w1)" by (metis prod.exhaust)
  note K = mg_prepare_keeps [OF state_repository_axioms assms(1), of c]
  have w1: "fst w1 = fst w" using keeps_fstD [OF K(1) p] .
  have sr: "mg_StateRepository m = Some (sr_beside sr)" and rs: "keeps_resource (mg_Resource m)"
    and st: "all_keep (mg_stages (mg_Steps m))"
    using assms(1) by (auto simp: mg_beside_def all_keep_def)
  show ?thesis
  proof (cases pe)
    case (Some x)
    with assms(3) p w1 show ?thesis by (auto simp: mg_Migrate_def)
  next
    case None
    then have ns: "mg_Namespace m \<noteq> []" using K(2) p by blast
    have "mg_in_txs (sr_beside sr) (mg_Resource m) c
        (\<lambda>sc tc. mg_ups (sr_beside sr) (mg_Namespace m) sc tc (mg_stages (mg_Steps m))) w1 = (e, w')"
      using assms(3) p None by (simp add: mg_Migrate_def sr)
    from in_txs [OF this _ rs ups_loop [OF _ _ ns st]] assms(2) show ?thesis by (simp add: w1)
  qed
qed

lemma MigrateDown_states:
  assumes "mg_beside sr m" "base (fst w) c" "mg_MigrateDown m c t w = (e, w')"
  shows "view (fst w') c =
    (if e = None then downs_states (mg_Namespace m) (mg_removed t (rev (mg_stages (mg_Steps m)))) (view (fst w) c) else view (fst w) c)"
proof (cases "t \<noteq> [] \<and> \<not> gm_has (mg_Steps m) t")
  case True
  then show ?thesis using assms(3) by (auto simp: mg_MigrateDown_def)
next
  case known: False
  obtain pe w1 where p: "mg_prepare m c w = (pe, w1)" by (metis prod.exhaust)
  note K = mg_prepare_keeps [OF state_repository_axioms assms(1), of c]
  have w1: "fst w1 = fst w" using keeps_fstD [OF K(1) p] .
  have sr: "mg_StateRepository m = Some (sr_beside sr)" and rs: "keeps_resource (mg_Resource m)"
    and st: "all_keep (rev (mg_stages (mg_Steps m)))"
    using assms(1) by (auto simp: mg_beside_def all_keep_def)
  show ?thesis
  proof (cases pe)
    case (Some x)
    with assms(3) p w1 known show ?thesis by (auto simp: mg_MigrateDown_def)
  next
    case None
    have "mg_in_txs (sr_beside sr) (mg_Resource m) c
        (\<lambda>sc tc. mg_downs (sr_beside sr) (mg_Namespace m) t sc tc (rev (mg_stages (mg_Steps m)))) w1 = (e, w')"
      using assms(3) p None known by (auto simp: mg_MigrateDown_def sr)
    from in_txs [OF this _ rs downs_loop [OF _ _ st]] assms(2) show ?thesis by (simp add: w1)
  qed
qed

end

section \<open>The in-memory repository as a state repository\<close>

text \<open>
  \<^verbatim>\<open>memory.Repository[State, StateID]\<close>: the tag \<^verbatim>\<open>ext:"id"\<close> makes \<^verbatim>\<open>State.ID\<close> the ID.
  The memory key of an ID is its \<^verbatim>\<open>%#v\<close> format, a parameter that tells IDs apart;
  \<open>state_key\<close> is that format for printable IDs.
\<close>

definition state_accessor :: "(State, StateID) accessor" where
  "state_accessor = \<lparr>acc_fn = None, ext_Lookup = (\<lambda>s. (st_ID s, st_ID s \<noteq> st_ID zero_State)),
     ext_Set = (\<lambda>s i. (s\<lparr>st_ID := i\<rparr>, None))\<rparr>"

definition mem_states :: "string \<Rightarrow> (mctx \<Rightarrow> go_error + StateID) \<Rightarrow> (StateID \<Rightarrow> string) \<Rightarrow> (State, StateID) repository" where
  "mem_states ns mk key = \<lparr>Namespace = ns, TypeName = ''migration.State'', IDA = state_accessor, mkID = mk, ExpectID = False,
     IDToMemoryKey = key, zeroID = st_ID zero_State\<rparr>"

definition mem_state_repo :: "(State, StateID) repository \<Rightarrow> (State memory, mctx) state_repo" where
  "mem_state_repo r = \<lparr>sr_BeginTx = mem_BeginTx, sr_CommitTx = mem_CommitTx, sr_RollbackTx = mem_RollbackTx,
     sr_FindByID = (\<lambda>c i m. (repo_FindByID r c i m, m)),
     sr_Create = (\<lambda>c s m. case repo_create r c (m, s) of (e, m', _) \<Rightarrow> (e, m')),
     sr_DeleteByID = (\<lambda>c i m. repo_DeleteByID r c i m)\<rparr>"

definition mem_states_view :: "(State, StateID) repository \<Rightarrow> State memory \<Rightarrow> mctx \<Rightarrow> StateID \<Rightarrow> State option" where
  "mem_states_view r m c i = mem_Get m c (repo_ns r) (IDToMemoryKey r i)"

fun go_quoted :: "string \<Rightarrow> string" where
  "go_quoted [] = []"
| "go_quoted (c # s) =
     (if c = CHR 0x22 \<or> c = CHR 0x5C then CHR 0x5C # c # go_quoted s else c # go_quoted s)"

definition state_key :: "StateID \<Rightarrow> string" where
  "state_key i = ''migration.StateID{Namespace:'' @ CHR 0x22 # go_quoted (sid_Namespace i) @ CHR 0x22 #
     '', Version:'' @ CHR 0x22 # go_quoted (sid_Version i) @ CHR 0x22 # ''}''"

lemma go_quoted_end:
  "go_quoted s @ CHR 0x22 # r = go_quoted s' @ CHR 0x22 # r' \<Longrightarrow> s = s' \<and> r = r'"
proof (induction s arbitrary: s')
  case Nil
  then show ?case by (cases s') (auto split: if_splits)
next
  case (Cons c s)
  then show ?case by (cases s') (auto split: if_splits)
qed

lemma inj_state_key: "inj state_key"
proof (rule injI)
  fix i j assume "state_key i = state_key j"
  then have *: "go_quoted (sid_Namespace i) @ CHR 0x22 # '', Version:'' @ CHR 0x22 # go_quoted (sid_Version i) @ CHR 0x22 # ''}'' =
      go_quoted (sid_Namespace j) @ CHR 0x22 # '', Version:'' @ CHR 0x22 # go_quoted (sid_Version j) @ CHR 0x22 # ''}''"
    by (simp add: state_key_def)
  note A = go_quoted_end [OF *]
  then have "go_quoted (sid_Version i) @ CHR 0x22 # ''}'' = go_quoted (sid_Version j) @ CHR 0x22 # ''}''" by simp
  from go_quoted_end [OF this] A show "i = j" by simp
qed

lemma one_phase_commit_view:
  assumes "one_phase_commit B C R view base within"
  shows "one_phase_commit B C R (\<lambda>w c. f (view w c)) base within"
  using one_phase_commit.begin_err [OF assms] one_phase_commit.begin_ok [OF assms] one_phase_commit.commit_ok [OF assms]
    one_phase_commit.commit_err [OF assms] one_phase_commit.rollback [OF assms]
  by (intro one_phase_commit.intro) metis+

lemma mem_within_open: "mem_within m c c' \<Longrightarrow> mem_open m c'"
  by (auto simp: mem_open_def ctx_ok_def elim!: mem_withinE)

lemma mem_Del_within:
  assumes "mem_within m c c'"
  shows "mem_within (snd (mem_Del c' ns k m)) c c' \<and> mem_Get (snd (mem_Del c' ns k m)) c = mem_Get m c \<and>
    mem_Get (snd (mem_Del c' ns k m)) c' = (mem_Get m c')(ns := (mem_Get m c' ns)(k := None))"
proof -
  from assms obtain a where a: "mem_wf m" "mem_LookupTx m c = None" "mem_LookupTx m c' = Some a"
    "a < length (mem_txs m)" "tx_super (mem_txs m ! a) = SuperMemory" "\<not> tx_done (mem_txs m ! a)"
    by (rule mem_withinE)
  let ?m = "snd (mem_Del c' ns k m)"
  have td: "?m = snd (tx_del a ns k m)" using a(3) by (simp add: mem_Del_def)
  then have "?m = m \<or> (\<exists>ch. ?m = tx_putChanges a ns ch m)"
    by (auto simp: tx_del_def Let_def split: option.split)
  then have L: "mem_LookupTx ?m d = mem_LookupTx m d" and tx: "tx_super (mem_txs ?m ! a) = SuperMemory" "\<not> tx_done (mem_txs ?m ! a)"
    and tb: "tables ?m = tables m" for d
    using a by (auto simp: mem_LookupTx_def tx_putChanges_def)
  have "mem_wf ?m" using a mem_wf_tx_del by (simp add: td)
  then have "mem_within ?m c c'"
    using a tx by (simp add: mem_within_def mem_base_def L) (simp add: td)
  moreover have "mem_Get ?m c = mem_Get m c"
    using a mem_lookup_tables [OF tb] by (simp add: mem_Get_base L)
  moreover have "mem_Get ?m c' = (mem_Get m c')(ns := (mem_Get m c' ns)(k := None))"
    using a tx by (simp add: mem_Get_open L) (simp add: td tx_lookup_tx_del fun_eq_iff)
  ultimately show ?thesis by simp
qed

lemma state_repository_mem:
  assumes "inj key"
  shows "state_repository (mem_state_repo (mem_states ns mk key)) (mem_states_view (mem_states ns mk key)) mem_base mem_within"
proof -
  let ?r = "mem_states ns mk key" and ?sr = "mem_state_repo (mem_states ns mk key)"
  have opc: "one_phase_commit (sr_BeginTx ?sr) (sr_CommitTx ?sr) (sr_RollbackTx ?sr) (mem_states_view ?r) mem_base mem_within"
    using one_phase_commit_view [OF memcommit.one_phase_commit_axioms, of "\<lambda>f i. f (repo_ns ?r) (key i)"]
    by (simp add: mem_state_repo_def mem_states_view_def [abs_def] mem_states_def)
  have law: "accessor_law (IDA ?r)"
    by (auto simp: accessor_law_def mem_states_def state_accessor_def Accessor_Set_def Accessor_Get_def Accessor_Lookup_def)
  have key: "IDToMemoryKey ?r = key" by (simp add: mem_states_def)
  have eq: "key i = key j \<longleftrightarrow> i = j" for i j using assms by (simp add: inj_eq)
  show ?thesis
  proof (rule state_repository.intro [OF opc], unfold_locales)
    fix c i m r m'
    assume "sr_FindByID ?sr c i m = (r, m')"
    then show "m' = m \<and> (\<forall>s. r = Inr s \<longrightarrow> s = mem_states_view ?r m c i)"
      by (auto simp: mem_state_repo_def mem_states_view_def dest: repo_FindByID_Inr)
  next
    fix m c c' s e m'
    assume wi: "mem_within m c c'" and ns: "sid_Namespace (st_ID s) \<noteq> []" and cr: "sr_Create ?sr c' s m = (e, m')"
    obtain v' where v': "repo_create ?r c' (m, s) = (e, m', v')"
      using cr by (auto simp: mem_state_repo_def split: prod.splits)
    have "st_ID s \<noteq> zeroID ?r" using ns by (auto simp: mem_states_def zero_State_def)
    then have same: "v' = s" if "e = None"
      using v' that by (auto simp: repo_create_def Let_def mem_states_def state_accessor_def Accessor_Get_def
          Accessor_Lookup_def split: option.splits sum.splits)
    have st: "stores_entity ?r c' m (e, m', v')" using repo_create_stores [OF law, of c' "(m, s)"] v' by simp
    have acc: "Accessor_Get (IDA ?r) s = st_ID s"
      by (simp add: mem_states_def state_accessor_def Accessor_Get_def Accessor_Lookup_def)
    from stores_entity_within [OF st wi] same acc
    show "mem_within m' c c' \<and> mem_states_view ?r m' c = mem_states_view ?r m c \<and>
        (e = None \<longrightarrow> mem_states_view ?r m' c' = (mem_states_view ?r m c')(st_ID s \<mapsto> s))"
      by (auto simp: mem_states_view_def fun_eq_iff kv_put_def key eq)
  next
    fix m c c' i e m'
    assume wi: "mem_within m c c'" and de: "sr_DeleteByID ?sr c' i m = (e, m')"
    have "m' = m \<and> e \<noteq> None \<or> m' = snd (mem_Del c' (repo_ns ?r) (key i) m)"
      using de by (auto simp: mem_state_repo_def repo_DeleteByID_def key split: option.splits prod.splits bool.splits) metis+
    then show "mem_within m' c c' \<and> mem_states_view ?r m' c = mem_states_view ?r m c \<and>
        (e = None \<longrightarrow> mem_states_view ?r m' c' = (mem_states_view ?r m c')(i := None))"
      using wi mem_Del_within [OF wi, of "repo_ns ?r" "key i"]
      by (auto simp: mem_states_view_def fun_eq_iff key eq)
  qed
qed

interpretation memstates: state_repository "mem_state_repo (mem_states ns mk state_key)" "mem_states_view (mem_states ns mk state_key)"
    mem_base mem_within for ns mk
  by (rule state_repository_mem [OF inj_state_key])

section \<open>Sorted stages\<close>

lemma mg_stages_sorted: "sorted (map fst (mg_stages s))"
  by (simp add: mg_stages_def)

lemma takeWhile_greater:
  "sorted (rev (map fst ps)) \<Longrightarrow> fst ` set (takeWhile (\<lambda>(v, _). \<not> v \<le> t) ps) = {v \<in> fst ` set ps. t < (v :: string)}"
proof (induction ps)
  case (Cons p ps)
  obtain v s where p: "p = (v, s)" by (cases p)
  have le: "\<forall>u \<in> fst ` set ps. u \<le> v" and srt: "sorted (rev (map fst ps))"
    using Cons.prems by (auto simp: p sorted_append)
  show ?case
  proof (cases "v \<le> t")
    case True
    then show ?thesis using le by (auto simp: p dest: order_trans leD)
  next
    case False
    then have "t < v" by simp
    with Cons.IH [OF srt] False show ?thesis by (auto simp: p)
  qed
qed simp

lemma mg_removed_greater: "mg_removed t (rev (mg_stages s)) = {v \<in> fst ` set s. t < v}"
  using takeWhile_greater [of "rev (mg_stages s)" t] mg_stages_sorted [of s]
  by (simp add: mg_removed_def rev_map [symmetric])

section \<open>Validation finds every gap\<close>

lemma validate_loop_gap:
  assumes find: "\<And>v w. sr_FindByID sr c \<lparr>sid_Namespace = ns, sid_Version = v\<rparr> w = (Inr (st v), w)"
  shows "fst (mg_validate_loop sr ns c i ok prev stages w) = None \<longleftrightarrow>
    (\<forall>j. Suc j < length stages \<longrightarrow> st (fst (stages ! Suc j)) \<noteq> None \<longrightarrow> st (fst (stages ! j)) \<noteq> None) \<and>
    (i \<noteq> 0 \<longrightarrow> stages \<noteq> [] \<longrightarrow> st (fst (stages ! 0)) \<noteq> None \<longrightarrow> ok)"
proof (induction stages arbitrary: i ok prev w)
  case (Cons s stages)
  obtain v x where s: "s = (v, x)" by (cases s)
  have all: "(\<forall>j. Suc j < length (s # stages) \<longrightarrow> P ((s # stages) ! Suc j) \<longrightarrow> P ((s # stages) ! j)) \<longleftrightarrow>
      (\<forall>j. Suc j < length stages \<longrightarrow> P (stages ! Suc j) \<longrightarrow> P (stages ! j)) \<and> (stages \<noteq> [] \<longrightarrow> P (stages ! 0) \<longrightarrow> P s)" for P
    by (auto simp: nth_Cons split: nat.splits) 
  show ?case
    unfolding all [of "\<lambda>p. st (fst p) \<noteq> None"]
    by (cases "st v") (auto simp: s find Cons.IH Let_def)
qed simp

lemma gap_free_sorted:
  fixes stages :: "(string \<times> 's) list"
  assumes "sorted (map fst stages)"
  shows "(\<forall>j. Suc j < length stages \<longrightarrow> P (fst (stages ! Suc j)) \<longrightarrow> P (fst (stages ! j))) \<longleftrightarrow>
    (\<forall>u \<in> fst ` set stages. \<forall>v \<in> fst ` set stages. u < v \<longrightarrow> P v \<longrightarrow> P u)" (is "?adj \<longleftrightarrow> ?all")
proof
  assume adj: ?adj
  have down: "k < length stages \<Longrightarrow> P (fst (stages ! k)) \<Longrightarrow> j \<le> k \<Longrightarrow> P (fst (stages ! j))" for j k
  proof (induction k)
    case (Suc k)
    then show ?case using adj by (cases "j = Suc k") auto
  qed simp
  show ?all
  proof (intro ballI impI)
    fix u v assume u: "u \<in> fst ` set stages" and v: "v \<in> fst ` set stages" and lt: "u < v" and P: "P v"
    obtain j k where j: "j < length stages" "u = fst (stages ! j)" and k: "k < length stages" "v = fst (stages ! k)"
      using u v by (auto simp: in_set_conv_nth)
    have "j \<le> k"
    proof (rule ccontr)
      assume "\<not> j \<le> k"
      then have "fst (stages ! k) \<le> fst (stages ! j)"
        using sorted_nth_mono [OF assms, of k j] j k by simp
      with lt j k show False by simp
    qed
    with down [OF k(1)] P j k show "P u" by simp
  qed
next
  assume all: ?all
  show ?adj
  proof (intro allI impI)
    fix j assume j: "Suc j < length stages" and P: "P (fst (stages ! Suc j))"
    have "fst (stages ! j) \<le> fst (stages ! Suc j)" using sorted_nth_mono [OF assms, of j "Suc j"] j by simp
    moreover have "fst (stages ! j) \<in> fst ` set stages" "fst (stages ! Suc j) \<in> fst ` set stages" using j by auto
    ultimately show "P (fst (stages ! j))" using all P by (metis order.not_eq_order_implies_strict)
  qed
qed

lemma validate_loop_error:
  assumes find: "\<And>v w. sr_FindByID sr c \<lparr>sid_Namespace = ns, sid_Version = v\<rparr> w = (Inr (st v), w)"
  shows "(\<not> ok \<longrightarrow> prev = zero_State) \<Longrightarrow> fst (mg_validate_loop sr ns c i ok prev stages w) = Some e \<Longrightarrow>
    \<exists>s. e = mg_missing_error zero_State s"
proof (induction stages arbitrary: i ok prev w)
  case (Cons s stages)
  obtain v x where s: "s = (v, x)" by (cases s)
  show ?case
  proof (cases "st v = None")
    case True
    then have "fst (mg_validate_loop sr ns c (Suc i) False zero_State stages w) = Some e"
      using Cons.prems(2) by (simp add: s find)
    from Cons.IH [OF _ this] show ?thesis by simp
  next
    case False
    then obtain y where y: "st v = Some y" by blast
    show ?thesis
    proof (cases "\<not> ok \<and> i \<noteq> 0")
      case True
      with Cons.prems y show ?thesis by (auto simp: s find)
    next
      case False
      then have "fst (mg_validate_loop sr ns c (Suc i) True y stages w) = Some e"
        using Cons.prems(2) y by (auto simp: s find Let_def)
      from Cons.IH [OF _ this] show ?thesis by simp
    qed
  qed
qed simp

section \<open>Properties\<close>

text \<open>Two steps that log their runs in the resource.\<close>

definition ex_step :: "string \<Rightarrow> (State memory \<times> string list, mctx) step" where
  "ex_step v = \<lparr>MigrateUp = (\<lambda>c w. (None, (fst w, snd w @ [v @ '' up'']))),
     step_MigrateDown = (\<lambda>c w. (None, (fst w, snd w @ [v @ '' down''])))\<rparr>"

definition ex_resource :: "(State memory \<times> string list, mctx) resource" where
  "ex_resource = \<lparr>rs_BeginTx = (\<lambda>c w. ((c, None), w)), rs_CommitTx = (\<lambda>c w. (None, w)), rs_RollbackTx = (\<lambda>c w. (None, w))\<rparr>"

definition ex_migrator :: "(State memory \<times> string list, mctx) Migrator" where
  "ex_migrator = \<lparr>mg_Resource = ex_resource, mg_Namespace = ''app'', mg_Steps = [(''2'', ex_step ''2''), (''1'', ex_step ''1'')],
     mg_StateRepository = Some (sr_beside (mem_state_repo (mem_states ''st'' (\<lambda>_. Inl ErrMissingID) state_key))),
     mg_EnsureStateRepository = None\<rparr>"

lemma ex_migrator_beside: "mg_beside (mem_state_repo (mem_states ''st'' (\<lambda>_. Inl ErrMissingID) state_key)) ex_migrator"
  by (simp add: mg_beside_def ex_migrator_def keeps_resource_def keeps_step_def keeps_fst_def ex_resource_def ex_step_def)

definition ex_migrated :: "State memory \<times> string list" where
  "ex_migrated = snd (mg_Migrate ex_migrator Background (NewMemory ''M'', []))"

lemma ex_migrate_runs:
  "fst (mg_Migrate ex_migrator Background (NewMemory ''M'', [])) = None \<and> snd ex_migrated = [''1 up'', ''2 up'']"
  by code_simp

lemma ex_migrate_down_runs:
  "fst (mg_MigrateDown ex_migrator Background ''1'' ex_migrated) = None \<and>
   snd (snd (mg_MigrateDown ex_migrator Background ''1'' ex_migrated)) = [''1 up'', ''2 up'', ''2 down'']"
  by code_simp

lemma ex_migrated_base: "mem_base (fst ex_migrated) Background"
  by code_simp

text \<open>A repository in which only version 2 is recorded.\<close>

definition ex_gap_repo :: "(State memory \<times> string list, mctx) state_repo" where
  "ex_gap_repo = (sr_beside (mem_state_repo (mem_states ''st'' (\<lambda>_. Inl ErrMissingID) state_key)))
     \<lparr>sr_FindByID := \<lambda>c i w. (Inr (if sid_Version i = ''2'' then Some zero_State else None), w)\<rparr>"

text \<open>Validation accepts the recorded states exactly when they leave no gap. With lookups that succeed,
  validate returns nil if and only if every step before a completed step is completed; the error it returns
  otherwise reports the zero state in place of the missing step.\<close>

theorem mg_validate_gap:
  assumes "mg_StateRepository m = Some sr" "mg_Namespace m \<noteq> []"
    and "\<forall>v w. sr_FindByID sr c \<lparr>sid_Namespace = mg_Namespace m, sid_Version = v\<rparr> w = (Inr (st v), w)"
  shows "(fst (mg_validate m c w) = None \<longleftrightarrow>
      (\<forall>u \<in> fst ` set (mg_Steps m). \<forall>v \<in> fst ` set (mg_Steps m). u < v \<longrightarrow> st v \<noteq> None \<longrightarrow> st u \<noteq> None)) \<and>
    (\<forall>e. fst (mg_validate m c w) = Some e \<longrightarrow> (\<exists>s. e = mg_missing_error zero_State s))"
proof -
  let ?st = "mg_stages (mg_Steps m)" and ?w = "mg_validate_loop sr (mg_Namespace m) c 0 False zero_State (mg_stages (mg_Steps m)) w"
  have f: "\<And>v w. sr_FindByID sr c \<lparr>sid_Namespace = mg_Namespace m, sid_Version = v\<rparr> w = (Inr (st v), w)"
    using assms(3) by blast
  have v: "mg_validate m c w = ?w" using assms(1,2) by (simp add: mg_validate_def)
  have "fst ?w = None \<longleftrightarrow> (\<forall>j. Suc j < length ?st \<longrightarrow> st (fst (?st ! Suc j)) \<noteq> None \<longrightarrow> st (fst (?st ! j)) \<noteq> None)"
    using validate_loop_gap [OF f, where stages = ?st and i = 0 and ok = False and prev = zero_State] by simp
  then show ?thesis
    using gap_free_sorted [OF mg_stages_sorted [of "mg_Steps m"], where P = "\<lambda>v. st v \<noteq> None"] validate_loop_error [OF f, where ok = False and prev = zero_State and i = 0 and stages = ?st and w = w]
    by (simp add: v)
qed

text \<open>C10: a migration records all of its steps or none. Over the in-memory state repository and a resource
  beside it, Migrate from a context in no transaction either succeeds, and then every step of the migrator is
  recorded (the missing ones clean, the others as they were) and nothing else is, or fails and the recorded
  states are as before, whichever step, commit or rollback failed.\<close>

theorem mg_Migrate_atomic:
  assumes "inj key" "mg_beside (mem_state_repo (mem_states ns mk key)) m" "mem_base (fst w) c"
    and "mg_Migrate m c w = (e, w')"
  shows "mem_states_view (mem_states ns mk key) (fst w') c =
    (\<lambda>i. if e = None \<and> mem_states_view (mem_states ns mk key) (fst w) c i = None \<and>
             sid_Namespace i = mg_Namespace m \<and> sid_Version i \<in> fst ` set (mg_Steps m)
         then Some \<lparr>st_ID = i, st_Dirty = False\<rparr> else mem_states_view (mem_states ns mk key) (fst w) c i)"
  using state_repository.Migrate_states [OF state_repository_mem [OF assms(1)] assms(2-4)]
  by (auto simp: ups_states_def fun_eq_iff)

theorem mg_Migrate_atomic_witness:
  "mem_states_view (mem_states ''st'' (\<lambda>_. Inl ErrMissingID) state_key) (fst ex_migrated) Background
     \<lparr>sid_Namespace = ''app'', sid_Version = ''2''\<rparr> =
   Some \<lparr>st_ID = \<lparr>sid_Namespace = ''app'', sid_Version = ''2''\<rparr>, st_Dirty = False\<rparr>"
proof -
  have run: "mg_Migrate ex_migrator Background (NewMemory ''M'', []) = (None, ex_migrated)"
    using ex_migrate_runs by (simp add: ex_migrated_def prod_eq_iff)
  have base: "mem_base (fst (NewMemory ''M'' :: State memory, [] :: string list)) Background"
    by (simp add: mem_base_def mem_LookupTx_def)
  have "mem_states_view (mem_states ''st'' (\<lambda>_. Inl ErrMissingID) state_key) (NewMemory ''M'') Background
     \<lparr>sid_Namespace = ''app'', sid_Version = ''2''\<rparr> = None" by code_simp
  then show ?thesis
    using mg_Migrate_atomic [OF inj_state_key ex_migrator_beside base run] by (simp add: ex_migrator_def)
qed

text \<open>MigrateDown forgets exactly the steps after the target. Under the same conditions it either succeeds,
  and then the states of the migrator's steps with a greater version are gone and all others are kept, or fails
  and changes no recorded state; a step whose version is the empty string is never rolled back.\<close>

theorem mg_MigrateDown_atomic:
  assumes "inj key" "mg_beside (mem_state_repo (mem_states ns mk key)) m" "mem_base (fst w) c"
    and "mg_MigrateDown m c t w = (e, w')"
  shows "mem_states_view (mem_states ns mk key) (fst w') c =
    (\<lambda>i. if e = None \<and> sid_Namespace i = mg_Namespace m \<and> sid_Version i \<in> fst ` set (mg_Steps m) \<and> t < sid_Version i
         then None else mem_states_view (mem_states ns mk key) (fst w) c i)"
  using state_repository.MigrateDown_states [OF state_repository_mem [OF assms(1)] assms(2-4)]
  by (auto simp: downs_states_def fun_eq_iff mg_removed_greater)

end
