(* ===== verification/Iterkit.thy ===== *)
theory Iterkit imports Errorkit Mathkit begin

text \<open>
  \<^verbatim>\<open>pkg/iterkit/iterkit.go\<close>: iterators as the functions they are. An \<^verbatim>\<open>iter.Seq\<close> takes the body
  of a \<^verbatim>\<open>range\<close> loop, which acts on a state and says whether to go on, and returns the last
  state; \<^term>\<open>None\<close> is an iteration that never returns. Local variables of a loop are part of
  the state that it passes to its source. \<^verbatim>\<open>iter.Seq2\<close> and \<^verbatim>\<open>SeqE\<close> iterate pairs, and \<^verbatim>\<open>KV\<close>
  is a pair.

  A pull iterator is a function on a state of its own; where the code calls \<^verbatim>\<open>iter.Pull\<close>, the
  definition takes the pulled source. The channel loop of \<^verbatim>\<open>asyncBatch\<close> runs over the sequence of
  events it receives. A body is assumed not to be called again after it asked to stop; iterators
  shared between goroutines (\<^verbatim>\<open>Sync\<close>, \<^verbatim>\<open>ToChan\<close>, \<^verbatim>\<open>OnSeqEValue\<close>) are not modelled.
\<close>

type_synonym ('a, 's) seq = "('a \<Rightarrow> 's \<Rightarrow> 's \<times> bool) \<Rightarrow> 's \<Rightarrow> 's option"
type_synonym ('a, 's) seqE = "('a \<times> go_error option, 's) seq"
type_synonym ('a, 'p) pull = "'p \<Rightarrow> 'a option \<times> 'p"

text \<open>An argument that may be an \<^verbatim>\<open>iter.Seq\<close> or a \<^verbatim>\<open>SeqE\<close>.\<close>

datatype ('a, 's) i1 = ISeq "('a, 's) seq" | ISeqE "('a, 's) seqE"

section \<open>Sources\<close>

definition it_From ::
    "'a \<Rightarrow> (('a \<Rightarrow> 's \<times> bool \<Rightarrow> ('s \<times> bool) \<times> bool) \<Rightarrow> 's \<times> bool \<Rightarrow> ('s \<times> bool) \<times> go_error option) \<Rightarrow> ('a, 's) seqE" where
  "it_From zero fn yield s =
     (case fn (\<lambda>v (s, done).
                 let (s1, done1) = (if \<not> done then (case yield (v, None) s of (s', cont) \<Rightarrow> (s', \<not> cont)) else (s, done))
                 in ((s1, done1), \<not> done1)) (s, False) of
        ((s', done), err) \<Rightarrow> if err \<noteq> None \<and> \<not> done then Some (fst (yield (zero, err) s')) else Some s')"

fun it_FromSlice :: "'a list \<Rightarrow> ('a, 's) seq" where
  "it_FromSlice [] yield s = Some s"
| "it_FromSlice (v # vs) yield s = (case yield v s of (s', cont) \<Rightarrow> if \<not> cont then Some s' else it_FromSlice vs yield s')"

fun it_FromSliceE :: "'a list \<Rightarrow> ('a, 's) seqE" where
  "it_FromSliceE [] yield s = Some s"
| "it_FromSliceE (v # vs) yield s =
     (case yield (v, None) s of (s', cont) \<Rightarrow> if \<not> cont then Some s' else it_FromSliceE vs yield s')"

fun it_FromKV :: "('k \<times> 'v) list \<Rightarrow> ('k \<times> 'v, 's) seq" where
  "it_FromKV [] yield s = Some s"
| "it_FromKV ((k, v) # kvs) yield s =
     (case yield (k, v) s of (s', cont) \<Rightarrow> if \<not> cont then Some s' else it_FromKV kvs yield s')"

definition NoMore :: string where "NoMore = ''no more page to iterate''"

fun it_page :: "('a \<times> go_error option \<Rightarrow> 's \<Rightarrow> 's \<times> bool) \<Rightarrow> 'a list \<Rightarrow> 's \<Rightarrow> 's \<times> bool" where
  "it_page yield [] s = (s, True)"
| "it_page yield (v # vs) s = (case yield (v, None) s of (s', cont) \<Rightarrow> if \<not> cont then (s', False) else it_page yield vs s')"

partial_function (option) it_pages_loop ::
    "'a \<Rightarrow> (int \<Rightarrow> 's \<Rightarrow> ('a list \<times> go_error option) \<times> 's) \<Rightarrow> ('a \<times> go_error option \<Rightarrow> 's \<Rightarrow> 's \<times> bool) \<Rightarrow>
     int \<Rightarrow> bool \<Rightarrow> 's \<Rightarrow> 's option" where
  "it_pages_loop zero next yield offset hasMore s =
     (if \<not> hasMore then Some s
      else (case next offset s of
              ((vs, err), s1) \<Rightarrow>
                if err \<noteq> None \<and> \<not> err_Is err NoMore then Some (fst (yield (zero, err) s1))
                else if length vs = 0 then Some s1
                else (case it_page yield vs s1 of
                        (s2, cont) \<Rightarrow>
                          if \<not> cont then Some s2
                          else it_pages_loop zero next yield (offset + int (length vs)) (err = None) s2)))"

declare it_pages_loop.simps [code]

definition it_FromPages :: "'a \<Rightarrow> (int \<Rightarrow> 's \<Rightarrow> ('a list \<times> go_error option) \<times> 's) \<Rightarrow> ('a, 's) seqE" where
  "it_FromPages zero next yield s = it_pages_loop zero next yield 0 True s"

text \<open>The loop over a pull iterator that acts on the state of the body, and the deferred stops, last first.\<close>

partial_function (option) it_pull_loop :: "('a, 's) pull \<Rightarrow> ('a \<Rightarrow> 's \<Rightarrow> 's \<times> bool) \<Rightarrow> 's \<Rightarrow> 's option" where
  "it_pull_loop next yield s =
     (case next s of
        (None, s1) \<Rightarrow> Some s1
      | (Some v, s1) \<Rightarrow> (case yield v s1 of (s2, cont) \<Rightarrow> if \<not> cont then Some s2 else it_pull_loop next yield s2))"

declare it_pull_loop.simps [code]

definition it_run_stops :: "('s \<Rightarrow> 's) list \<Rightarrow> 's \<Rightarrow> 's" where
  "it_run_stops stops s = fold (\<lambda>stop s. stop s) (rev stops) s"

definition it_FromPull :: "('a, 's) pull \<Rightarrow> ('s \<Rightarrow> 's) list \<Rightarrow> ('a, 's) seq" where
  "it_FromPull next stops yield s = map_option (it_run_stops stops) (it_pull_loop next yield s)"

definition it_FromPull2 :: "('k \<times> 'v, 's) pull \<Rightarrow> ('s \<Rightarrow> 's) list \<Rightarrow> ('k \<times> 'v, 's) seq" where
  "it_FromPull2 next stops yield s = map_option (it_run_stops stops) (it_pull_loop next yield s)"

definition it_FromPullE :: "('a \<times> go_error option, 's) pull \<Rightarrow> ('s \<Rightarrow> 's) list \<Rightarrow> ('a, 's) seqE" where
  "it_FromPullE next stops = it_FromPull2 next stops"

definition it_Empty :: "('a, 's) seq" where "it_Empty yield s = Some s"
definition it_EmptyE :: "('a, 's) seqE" where "it_EmptyE yield s = Some s"
definition it_Empty2 :: "('k \<times> 'v, 's) seq" where "it_Empty2 yield s = Some s"

definition it_Of :: "'a \<Rightarrow> ('a, 's) seq" where "it_Of v yield s = Some (fst (yield v s))"
definition it_Of2 :: "'k \<Rightarrow> 'v \<Rightarrow> ('k \<times> 'v, 's) seq" where "it_Of2 k v yield s = Some (fst (yield (k, v) s))"
definition it_OfE :: "'a \<Rightarrow> ('a, 's) seqE" where "it_OfE v yield s = Some (fst (yield (v, None) s))"

definition it_Error :: "'a \<Rightarrow> go_error \<Rightarrow> ('a, 's) seqE" where
  "it_Error zero err yield s = Some (fst (yield (zero, Some err) s))"

text \<open>The loop of \<^verbatim>\<open>IntRange\<close> and \<^verbatim>\<open>CharRange\<close> at their integer width: \<^verbatim>\<open>begin+i < end+1\<close> wraps.\<close>

partial_function (option) it_range_loop ::
    "'w::len word \<Rightarrow> 'w word \<Rightarrow> 'w word \<Rightarrow> ('w word \<Rightarrow> 's \<Rightarrow> 's \<times> bool) \<Rightarrow> 's \<Rightarrow> 's option" where
  "it_range_loop beg fin i yield s =
     (if \<not> (beg + i <s fin + 1) then Some s
      else (case yield (beg + i) s of (s', cont) \<Rightarrow> if \<not> cont then Some s' else it_range_loop beg fin (i + 1) yield s'))"

declare it_range_loop.simps [code]

definition it_IntRange :: "64 word \<Rightarrow> 64 word \<Rightarrow> (64 word, 's) seq" where
  "it_IntRange beg fin yield s = it_range_loop beg fin 0 yield s"

definition it_IntRangeE :: "64 word \<Rightarrow> 64 word \<Rightarrow> (64 word, 's) seqE" where
  "it_IntRangeE beg fin yield s = it_IntRange beg fin (\<lambda>i. yield (i, None)) s"

definition it_CharRange :: "32 word \<Rightarrow> 32 word \<Rightarrow> (32 word, 's) seq" where
  "it_CharRange beg fin yield s = it_range_loop beg fin 0 yield s"

definition it_CharRangeE :: "32 word \<Rightarrow> 32 word \<Rightarrow> (32 word, 's) seqE" where
  "it_CharRangeE beg fin yield s = it_CharRange beg fin (\<lambda>c. yield (c, None)) s"

section \<open>Conversions\<close>

definition it_AsSeqE :: "('a, 's) seq \<Rightarrow> ('a, 's) seqE" where
  "it_AsSeqE i yield s = i (\<lambda>v s. yield (v, None) s) s"

fun it_castToSeqE :: "('a, 's) i1 \<Rightarrow> ('a, 's) seqE" where
  "it_castToSeqE (ISeqE i) yield s = i yield s"
| "it_castToSeqE (ISeq i) yield s = i (\<lambda>v s. yield (v, None) s) s"

text \<open>\<^verbatim>\<open>SplitSeqE\<close>: the errors are a variable beside the state of the body.\<close>

definition it_SplitSeqE :: "('a, go_error list \<times> 's) seqE \<Rightarrow> ('a, go_error list \<times> 's) seq" where
  "it_SplitSeqE i yield w =
     i (\<lambda>(v, err) (errs, s).
          (case err of
             Some e \<Rightarrow> ((errs @ [e], s), True)
           | None \<Rightarrow> yield v (errs, s))) ([], snd w)"

definition it_SplitSeqE_err :: "go_error list \<times> 's \<Rightarrow> go_error option" where
  "it_SplitSeqE_err w = Merge (map Some (fst w))"

definition it_ToK :: "('k \<times> 'v, 's) seq \<Rightarrow> ('k, 's) seq" where
  "it_ToK i yield s = i (\<lambda>(k, _) s. yield k s) s"

definition it_ToV :: "('k \<times> 'v, 's) seq \<Rightarrow> ('v, 's) seq" where
  "it_ToV i yield s = i (\<lambda>(_, v) s. yield v s) s"

text \<open>\<^verbatim>\<open>Once\<close>: the flag is part of the state; a second iteration yields nothing.\<close>

definition it_Once :: "('a, bool \<times> 's) seq \<Rightarrow> ('a, bool \<times> 's) seq" where
  "it_Once i yield w = (if fst w then Some w else i yield (True, snd w))"

definition it_Once2 :: "('k \<times> 'v, bool \<times> 's) seq \<Rightarrow> ('k \<times> 'v, bool \<times> 's) seq" where
  "it_Once2 i yield w = (if fst w then Some w else i yield (True, snd w))"

definition it_OnceE :: "('a, bool \<times> 's) seqE \<Rightarrow> ('a, bool \<times> 's) seqE" where
  "it_OnceE i = it_Once2 i"

section \<open>Consumers\<close>

definition it_Reduce :: "('a, 'r \<times> go_error option) i1 \<Rightarrow> 'r \<Rightarrow> ('r \<Rightarrow> 'a \<Rightarrow> 'r) \<Rightarrow> ('r \<times> go_error option) option" where
  "it_Reduce i initial fn =
     it_castToSeqE i (\<lambda>(c, err) (v, _). if err \<noteq> None then ((v, err), False) else ((fn v c, None), True)) (initial, None)"

definition it_ReduceE :: "('a, 'r \<times> go_error option) seqE \<Rightarrow> 'r \<Rightarrow> ('r \<Rightarrow> 'a \<Rightarrow> 'r) \<Rightarrow> ('r \<times> go_error option) option" where
  "it_ReduceE i initial fn = it_Reduce (ISeqE i) initial fn"

definition it_ReduceErr ::
    "('a, 'r \<times> go_error option) i1 \<Rightarrow> 'r \<Rightarrow> ('r \<Rightarrow> 'a \<Rightarrow> 'r \<times> go_error option) \<Rightarrow> ('r \<times> go_error option) option" where
  "it_ReduceErr i initial fn =
     it_castToSeqE i
       (\<lambda>(c, err) (v, _). if err \<noteq> None then ((v, err), False)
          else (case fn v c of (v1, err1) \<Rightarrow> ((v1, err1), err1 = None))) (initial, None)"

definition it_ReduceEErr ::
    "('a, 'r \<times> go_error option) seqE \<Rightarrow> 'r \<Rightarrow> ('r \<Rightarrow> 'a \<Rightarrow> 'r \<times> go_error option) \<Rightarrow> ('r \<times> go_error option) option" where
  "it_ReduceEErr i initial fn = it_ReduceErr (ISeqE i) initial fn"

definition it_Reduce1 :: "('a, 'r) seq \<Rightarrow> 'r \<Rightarrow> ('r \<Rightarrow> 'a \<Rightarrow> 'r) \<Rightarrow> 'r option" where
  "it_Reduce1 i initial fn = i (\<lambda>c v. (fn v c, True)) initial"

definition it_Reduce2 :: "('a, 'r) seq \<Rightarrow> 'r \<Rightarrow> ('r \<Rightarrow> 'a \<Rightarrow> 'r) \<Rightarrow> 'r option" where
  "it_Reduce2 i initial fn = i (\<lambda>c v. (fn v c, True)) initial"

text \<open>A slice result is nil (\<^term>\<open>None\<close> inside) or a list; the outer option is that of the iteration.\<close>

definition it_CollectE :: "('a, 'a list \<times> go_error list) seqE option \<Rightarrow> ('a list option \<times> go_error option) option" where
  "it_CollectE i =
     (case i of
        None \<Rightarrow> Some (None, None)
      | Some itr \<Rightarrow>
          map_option (\<lambda>(vs, errs). (Some vs, Merge (map Some errs)))
            (itr (\<lambda>(v, err) (vs, errs). ((case err of None \<Rightarrow> (vs @ [v], errs) | Some e \<Rightarrow> (vs, errs @ [e])), True)) ([], [])))"

definition it_Collect :: "('a, 'a list) seq option \<Rightarrow> 'a list option option" where
  "it_Collect i =
     (case i of None \<Rightarrow> Some None | Some itr \<Rightarrow> map_option Some (itr (\<lambda>v vs. (vs @ [v], True)) []))"

definition it_Collect2 :: "('k \<times> 'v, 'e list) seq option \<Rightarrow> ('k \<Rightarrow> 'v \<Rightarrow> 'e) \<Rightarrow> 'e list option" where
  "it_Collect2 i m = (case i of None \<Rightarrow> Some [] | Some itr \<Rightarrow> itr (\<lambda>(k, v) es. (es @ [m k v], True)) [])"

definition it_Collect2KV :: "('k \<times> 'v, ('k \<times> 'v) list) seq option \<Rightarrow> ('k \<times> 'v) list option" where
  "it_Collect2KV i = it_Collect2 i (\<lambda>k v. (k, v))"

definition it_Collect2Map :: "('k \<times> 'v, ('k, 'v) gomap) seq option \<Rightarrow> ('k, 'v) gomap option option" where
  "it_Collect2Map i =
     (case i of None \<Rightarrow> Some None | Some itr \<Rightarrow> map_option Some (itr (\<lambda>(k, v) out. (gm_set k v out, True)) []))"

definition it_CountE :: "('a, int \<times> go_error list) seqE \<Rightarrow> (int \<times> go_error option) option" where
  "it_CountE i =
     map_option (\<lambda>(total, errs). (total, Merge (map Some errs)))
       (i (\<lambda>(_, err) (total, errs). ((total + 1, case err of None \<Rightarrow> errs | Some e \<Rightarrow> errs @ [e]), True)) (0, []))"

definition it_Count :: "('a, int) seq \<Rightarrow> int option" where
  "it_Count i = i (\<lambda>_ total. (total + 1, True)) 0"

definition it_Count2 :: "('k \<times> 'v, int) seq \<Rightarrow> int option" where
  "it_Count2 i = i (\<lambda>_ total. (total + 1, True)) 0"

definition it_First :: "'a \<Rightarrow> ('a, 'a \<times> bool) seq \<Rightarrow> ('a \<times> bool) option" where
  "it_First zero i = i (\<lambda>v _. ((v, True), False)) (zero, False)"

definition it_First2 :: "'k \<Rightarrow> 'v \<Rightarrow> ('k \<times> 'v, 'k \<times> 'v \<times> bool) seq \<Rightarrow> ('k \<times> 'v \<times> bool) option" where
  "it_First2 zeroK zeroV i = i (\<lambda>(k, v) _. ((k, v, True), False)) (zeroK, zeroV, False)"

definition it_FirstE :: "'a \<Rightarrow> ('a, 'a \<times> bool \<times> go_error option) seqE \<Rightarrow> ('a \<times> bool \<times> go_error option) option" where
  "it_FirstE zero i = i (\<lambda>(v, err) _. ((v, True, err), False)) (zero, False, None)"

definition it_LastE :: "'a \<Rightarrow> ('a, 'a \<times> bool \<times> go_error option) seqE \<Rightarrow> ('a \<times> bool \<times> go_error option) option" where
  "it_LastE zero i =
     i (\<lambda>(v, err) _. if err \<noteq> None then ((v, False, err), False) else ((v, True, None), True)) (zero, False, None)"

definition it_Last :: "'a \<Rightarrow> ('a, 'a \<times> bool) seq \<Rightarrow> ('a \<times> bool) option" where
  "it_Last zero i = i (\<lambda>v _. ((v, True), True)) (zero, False)"

definition it_Last2 :: "'k \<Rightarrow> 'v \<Rightarrow> ('k \<times> 'v, 'k \<times> 'v \<times> bool) seq \<Rightarrow> ('k \<times> 'v \<times> bool) option" where
  "it_Last2 zeroK zeroV i = i (\<lambda>(k, v) _. ((k, v, True), True)) (zeroK, zeroV, False)"

definition it_Find :: "'a \<Rightarrow> ('a, 'a \<times> bool) seq \<Rightarrow> ('a \<Rightarrow> bool) \<Rightarrow> ('a \<times> bool) option" where
  "it_Find zero i p = i (\<lambda>v s. if p v then ((v, True), False) else (s, True)) (zero, False)"

section \<open>Taking from a pull iterator\<close>

text \<open>For an error the pull iterator returns the value, the error and whether there was one.\<close>

fun it_Take :: "('a, 'p) pull \<Rightarrow> nat \<Rightarrow> 'p \<Rightarrow> 'a list \<times> 'p" where
  "it_Take next 0 p = ([], p)"
| "it_Take next (Suc n) p =
     (case next p of (None, p1) \<Rightarrow> ([], p1) | (Some v, p1) \<Rightarrow> (case it_Take next n p1 of (vs, p2) \<Rightarrow> (v # vs, p2)))"

fun it_Take2 :: "('k \<times> 'v, 'p) pull \<Rightarrow> nat \<Rightarrow> ('k \<Rightarrow> 'v \<Rightarrow> 'e) \<Rightarrow> 'p \<Rightarrow> 'e list \<times> 'p" where
  "it_Take2 next 0 m p = ([], p)"
| "it_Take2 next (Suc n) m p =
     (case next p of
        (None, p1) \<Rightarrow> ([], p1)
      | (Some (k, v), p1) \<Rightarrow> (case it_Take2 next n m p1 of (kvs, p2) \<Rightarrow> (m k v # kvs, p2)))"

type_synonym ('a, 'p) pullE = "'p \<Rightarrow> ('a \<times> go_error option \<times> bool) \<times> 'p"

fun it_TakeE :: "('a, 'p) pullE \<Rightarrow> nat \<Rightarrow> 'p \<Rightarrow> ('a list \<times> go_error option) \<times> 'p" where
  "it_TakeE next 0 p = (([], None), p)"
| "it_TakeE next (Suc n) p =
     (case next p of
        ((v, err, ok), p1) \<Rightarrow>
          if err \<noteq> None then (([], err), p1)
          else if \<not> ok then (([], None), p1)
          else (case it_TakeE next n p1 of ((vs, e), p2) \<Rightarrow> ((v # vs, e), p2)))"

partial_function (option) it_take_all :: "('a, 'p) pull \<Rightarrow> 'a list \<Rightarrow> 'p \<Rightarrow> ('a list \<times> 'p) option" where
  "it_take_all next vs p =
     (case next p of (None, p1) \<Rightarrow> Some (vs, p1) | (Some v, p1) \<Rightarrow> it_take_all next (vs @ [v]) p1)"

declare it_take_all.simps [code]

definition it_TakeAll :: "('a, 'p) pull \<Rightarrow> 'p \<Rightarrow> ('a list \<times> 'p) option" where
  "it_TakeAll next p = it_take_all next [] p"

partial_function (option) it_take_all2 :: "('k \<times> 'v, 'p) pull \<Rightarrow> ('k \<Rightarrow> 'v \<Rightarrow> 'e) \<Rightarrow> 'e list \<Rightarrow> 'p \<Rightarrow> ('e list \<times> 'p) option" where
  "it_take_all2 next m kvs p =
     (case next p of (None, p1) \<Rightarrow> Some (kvs, p1) | (Some (k, v), p1) \<Rightarrow> it_take_all2 next m (kvs @ [m k v]) p1)"

declare it_take_all2.simps [code]

definition it_TakeAll2 :: "('k \<times> 'v, 'p) pull \<Rightarrow> ('k \<Rightarrow> 'v \<Rightarrow> 'e) \<Rightarrow> 'p \<Rightarrow> ('e list \<times> 'p) option" where
  "it_TakeAll2 next m p = it_take_all2 next m [] p"

definition it_TakeAll2KV :: "('k \<times> 'v, 'p) pull \<Rightarrow> 'p \<Rightarrow> (('k \<times> 'v) list \<times> 'p) option" where
  "it_TakeAll2KV next p = it_TakeAll2 next (\<lambda>k v. (k, v)) p"

partial_function (option) it_take_allE :: "('a, 'p) pullE \<Rightarrow> 'a list \<Rightarrow> 'p \<Rightarrow> (('a list \<times> go_error option) \<times> 'p) option" where
  "it_take_allE next vs p =
     (case next p of
        ((v, err, ok), p1) \<Rightarrow>
          if err \<noteq> None then Some ((vs, err), p1)
          else if \<not> ok then Some ((vs, None), p1) else it_take_allE next (vs @ [v]) p1)"

declare it_take_allE.simps [code]

definition it_TakeAllE :: "('a, 'p) pullE \<Rightarrow> 'p \<Rightarrow> (('a list \<times> go_error option) \<times> 'p) option" where
  "it_TakeAllE next p = it_take_allE next [] p"

partial_function (option) it_collectE_loop ::
    "('a, 'p) pullE \<Rightarrow> 'a list \<Rightarrow> go_error list \<Rightarrow> 'p \<Rightarrow> (('a list \<times> go_error list) \<times> 'p) option" where
  "it_collectE_loop next vs errs p =
     (case next p of
        ((v, err, ok), p1) \<Rightarrow>
          if \<not> ok then Some ((vs, errs), p1)
          else (case err of
                  Some e \<Rightarrow> it_collectE_loop next vs (errs @ [e]) p1
                | None \<Rightarrow> it_collectE_loop next (vs @ [v]) errs p1))"

declare it_collectE_loop.simps [code]

definition it_CollectEPull :: "('a, 'p) pullE \<Rightarrow> ('p \<Rightarrow> 'p) list \<Rightarrow> 'p \<Rightarrow> (('a list \<times> go_error option) \<times> 'p) option" where
  "it_CollectEPull next stops p =
     map_option (\<lambda>((vs, errs), p1). ((vs, Merge (map Some errs)), it_run_stops stops p1)) (it_collectE_loop next [] [] p)"

section \<open>Pipelines\<close>

definition it_Map :: "('a, 's) seq \<Rightarrow> ('a \<Rightarrow> 'b) \<Rightarrow> ('b, 's) seq" where
  "it_Map i transform yield s = i (\<lambda>v s. yield (transform v) s) s"

definition it_Map2 :: "('k \<times> 'v, 's) seq \<Rightarrow> ('k \<Rightarrow> 'v \<Rightarrow> 'k2 \<times> 'v2) \<Rightarrow> ('k2 \<times> 'v2, 's) seq" where
  "it_Map2 i transform yield s = i (\<lambda>(k, v) s. yield (transform k v) s) s"

definition it_MapE :: "'b \<Rightarrow> ('a, 's) i1 \<Rightarrow> ('a \<Rightarrow> 'b \<times> go_error option) \<Rightarrow> ('b, 's) seqE" where
  "it_MapE zero i transform yield s =
     it_castToSeqE i (\<lambda>(v, err) s. if err \<noteq> None then yield (zero, err) s else yield (transform v) s) s"

definition it_Map2ToSeq :: "('k \<times> 'v, 's) seq \<Rightarrow> ('k \<Rightarrow> 'v \<Rightarrow> 'b) \<Rightarrow> ('b, 's) seq" where
  "it_Map2ToSeq i fn yield s = i (\<lambda>(k, v) s. yield (fn k v) s) s"

definition it_MapToSeq2 :: "('a, 's) seq \<Rightarrow> ('a \<Rightarrow> 'k \<times> 'v) \<Rightarrow> ('k \<times> 'v, 's) seq" where
  "it_MapToSeq2 i fn yield s = i (\<lambda>t s. yield (fn t) s) s"

definition it_Filter :: "'a \<Rightarrow> ('a, 's) i1 option \<Rightarrow> ('a \<Rightarrow> bool) \<Rightarrow> ('a, 's) i1 option" where
  "it_Filter zero i flt =
     (case i of
        None \<Rightarrow> None
      | Some (ISeq itr) \<Rightarrow> Some (ISeq (\<lambda>yield s. itr (\<lambda>v s. if flt v then yield v s else (s, True)) s))
      | Some (ISeqE itr) \<Rightarrow>
          Some (ISeqE (\<lambda>yield s. itr (\<lambda>(v, err) s. if err \<noteq> None then yield (zero, err) s
                                            else if flt v then yield (v, None) s else (s, True)) s)))"

definition it_Filter2 :: "('k \<times> 'v, 's) seq \<Rightarrow> ('k \<Rightarrow> 'v \<Rightarrow> bool) \<Rightarrow> ('k \<times> 'v, 's) seq" where
  "it_Filter2 i flt yield s = i (\<lambda>(k, v) s. if flt k v then yield (k, v) s else (s, True)) s"

text \<open>Merging: the state carries whether the body asked to stop, which ends the outer loop as well.\<close>

fun it_merge_loop :: "('a, 's \<times> bool) seq list \<Rightarrow> ('a \<Rightarrow> 's \<Rightarrow> 's \<times> bool) \<Rightarrow> 's \<Rightarrow> 's option" where
  "it_merge_loop [] yield s = Some s"
| "it_merge_loop (i # seqs) yield s =
     (case i (\<lambda>v (s, _). case yield v s of (s', cont) \<Rightarrow> ((s', cont), cont)) (s, True) of
        None \<Rightarrow> None
      | Some (s', cont) \<Rightarrow> if \<not> cont then Some s' else it_merge_loop seqs yield s')"

definition it_Merge :: "('a, 's \<times> bool) seq list \<Rightarrow> ('a, 's) seq" where
  "it_Merge seqs yield s = (if length seqs = 0 then it_Empty yield s else it_merge_loop seqs yield s)"

definition it_Merge2 :: "('k \<times> 'v, 's \<times> bool) seq list \<Rightarrow> ('k \<times> 'v, 's) seq" where
  "it_Merge2 seqs yield s = (if length seqs = 0 then it_Empty2 yield s else it_merge_loop seqs yield s)"

definition it_MergeE :: "('a \<times> go_error option, 's \<times> bool) seq list \<Rightarrow> ('a, 's) seqE" where
  "it_MergeE seqs = it_Merge2 seqs"

fun it_head_loop :: "('a, 'p) pull \<Rightarrow> nat \<Rightarrow> 'p \<Rightarrow> ('a \<Rightarrow> 's \<Rightarrow> 's \<times> bool) \<Rightarrow> 's \<Rightarrow> 's option" where
  "it_head_loop next 0 p yield s = Some s"
| "it_head_loop next (Suc n) p yield s =
     (case next p of
        (None, p1) \<Rightarrow> Some s
      | (Some v, p1) \<Rightarrow> (case yield v s of (s', cont) \<Rightarrow> if \<not> cont then Some s' else it_head_loop next n p1 yield s'))"

definition it_Head :: "('a, 'p) pull \<Rightarrow> 'p \<Rightarrow> int \<Rightarrow> ('a, 's) seq" where
  "it_Head next p n yield s = (if n \<le> 0 then Some s else it_head_loop next (nat n) p yield s)"

definition it_Head2 :: "('k \<times> 'v, 'p) pull \<Rightarrow> 'p \<Rightarrow> int \<Rightarrow> ('k \<times> 'v, 's) seq" where
  "it_Head2 next p n yield s = (if n \<le> 0 then Some s else it_head_loop next (nat n) p yield s)"

definition it_HeadE :: "('a \<times> go_error option, 'p) pull \<Rightarrow> 'p \<Rightarrow> int \<Rightarrow> ('a, 's) seqE" where
  "it_HeadE next p n = it_Head2 next p n"

definition it_Limit :: "('a, 'p) pull \<Rightarrow> 'p \<Rightarrow> int \<Rightarrow> ('a, 's) seq" where "it_Limit = it_Head"
definition it_Limit2 :: "('k \<times> 'v, 'p) pull \<Rightarrow> 'p \<Rightarrow> int \<Rightarrow> ('k \<times> 'v, 's) seq" where "it_Limit2 = it_Head2"
definition it_LimitE :: "('a \<times> go_error option, 'p) pull \<Rightarrow> 'p \<Rightarrow> int \<Rightarrow> ('a, 's) seqE" where "it_LimitE = it_HeadE"

text \<open>Disposing of the first values: the pulled source after them, or nothing when it ended.\<close>

fun it_dispose :: "('a, 'p) pull \<Rightarrow> nat \<Rightarrow> 'p \<Rightarrow> 'p option" where
  "it_dispose next 0 p = Some p"
| "it_dispose next (Suc n) p = (case next p of (None, _) \<Rightarrow> None | (Some _, p1) \<Rightarrow> it_dispose next n p1)"

partial_function (option) it_rest_loop :: "('a, 'p) pull \<Rightarrow> 'p \<Rightarrow> ('a \<Rightarrow> 's \<Rightarrow> 's \<times> bool) \<Rightarrow> 's \<Rightarrow> 's option" where
  "it_rest_loop next p yield s =
     (case next p of
        (None, _) \<Rightarrow> Some s
      | (Some v, p1) \<Rightarrow> (case yield v s of (s', cont) \<Rightarrow> if \<not> cont then Some s' else it_rest_loop next p1 yield s'))"

declare it_rest_loop.simps [code]

definition it_Offset :: "('a, 'p) pull \<Rightarrow> 'p \<Rightarrow> int \<Rightarrow> ('a, 's) seq" where
  "it_Offset next p offset yield s =
     (case it_dispose next (nat offset) p of None \<Rightarrow> Some s | Some p1 \<Rightarrow> it_rest_loop next p1 yield s)"

definition it_Offset2 :: "('k \<times> 'v, 'p) pull \<Rightarrow> 'p \<Rightarrow> int \<Rightarrow> ('k \<times> 'v, 's) seq" where
  "it_Offset2 next p offset yield s =
     (case it_dispose next (nat offset) p of None \<Rightarrow> Some s | Some p1 \<Rightarrow> it_rest_loop next p1 yield s)"

definition it_OffsetE :: "('a \<times> go_error option, 'p) pull \<Rightarrow> 'p \<Rightarrow> int \<Rightarrow> ('a, 's) seqE" where
  "it_OffsetE next p offset = it_Offset2 next p offset"

text \<open>The source of a reversal is collected first, with the list of values as its state.\<close>

definition it_Reverse :: "('a, 'a list) seq \<Rightarrow> ('a, 's) seq" where
  "it_Reverse i yield s =
     (case it_Collect (Some i) of Some (Some vs) \<Rightarrow> it_FromSlice (rev vs) yield s | _ \<Rightarrow> None)"

definition it_Reverse2 :: "('k \<times> 'v, ('k \<times> 'v) list) seq \<Rightarrow> ('k \<times> 'v, 's) seq" where
  "it_Reverse2 i yield s = (case it_Collect2KV (Some i) of Some kvs \<Rightarrow> it_FromKV (rev kvs) yield s | None \<Rightarrow> None)"

definition it_ReverseE :: "('a \<times> go_error option, ('a \<times> go_error option) list) seq \<Rightarrow> ('a, 's) seqE" where
  "it_ReverseE i = it_Reverse2 i"

section \<open>Batches\<close>

record BatchConfig =
  bc_Size :: int
  bc_WaitLimit :: int

definition bc_getSize :: "BatchConfig \<Rightarrow> int" where
  "bc_getSize c = (if bc_Size c \<le> 0 then 64 else bc_Size c)"

definition bc_Configure :: "BatchConfig \<Rightarrow> BatchConfig \<Rightarrow> BatchConfig" where
  "bc_Configure c t =
     (let t1 = (if bc_Size c \<noteq> 0 then t\<lparr>bc_Size := bc_Size c\<rparr> else t)
      in if bc_WaitLimit c \<noteq> 0 then t1\<lparr>bc_WaitLimit := bc_WaitLimit c\<rparr> else t1)"

definition it_BatchWaitLimit :: "int \<Rightarrow> BatchConfig \<Rightarrow> BatchConfig" where
  "it_BatchWaitLimit d c = c\<lparr>bc_WaitLimit := d\<rparr>"

definition it_BatchSize :: "int \<Rightarrow> BatchConfig \<Rightarrow> BatchConfig" where
  "it_BatchSize n c = (let c1 = c\<lparr>bc_Size := n\<rparr> in c1\<lparr>bc_Size := bc_getSize c1\<rparr>)"

text \<open>\<^verbatim>\<open>flush\<close> yields the collected values, if there are any; it returns them emptied.\<close>

definition it_flush :: "('a list \<Rightarrow> 's \<Rightarrow> 's \<times> bool) \<Rightarrow> 'a list \<Rightarrow> 's \<Rightarrow> 's \<times> bool" where
  "it_flush yield kvs s = (if 0 < length kvs then yield kvs s else (s, True))"

partial_function (option) it_batch_loop ::
    "('a, 'p) pull \<Rightarrow> int \<Rightarrow> 'a list \<Rightarrow> 'p \<Rightarrow> ('a list \<Rightarrow> 's \<Rightarrow> 's \<times> bool) \<Rightarrow> 's \<Rightarrow> 's option" where
  "it_batch_loop next bsize kvs p yield s =
     (case next p of
        (None, _) \<Rightarrow> Some (fst (it_flush yield kvs s))
      | (Some kv, p1) \<Rightarrow>
          if bsize \<le> int (length (kvs @ [kv])) then
            (case it_flush yield (kvs @ [kv]) s of
               (s', cont) \<Rightarrow> if \<not> cont then Some s' else it_batch_loop next bsize [] p1 yield s')
          else it_batch_loop next bsize (kvs @ [kv]) p1 yield s)"

declare it_batch_loop.simps [code]

definition it_syncBatch :: "BatchConfig \<Rightarrow> ('a, 'p) pull \<Rightarrow> 'p \<Rightarrow> ('a list, 's) seq" where
  "it_syncBatch c next p yield s = it_batch_loop next (bc_getSize c) [] p yield s"

text \<open>
  \<^verbatim>\<open>asyncBatch\<close>: the select loop over what it receives, in the order it receives it: values
  from the feed, the closing of the feed, ticks of the timer. With no more events the loop waits
  forever. A wait limit that is not positive panics.
\<close>

datatype 'a batch_event = Feed 'a | Closed | Tick

fun it_async_loop :: "int \<Rightarrow> 'a list \<Rightarrow> 'a batch_event list \<Rightarrow> ('a list \<Rightarrow> 's \<Rightarrow> 's \<times> bool) \<Rightarrow> 's \<Rightarrow> 's option" where
  "it_async_loop bsize kvs [] yield s = None"
| "it_async_loop bsize kvs (Closed # evs) yield s =
     (case it_flush yield kvs s of (s', cont) \<Rightarrow> Some s')"
| "it_async_loop bsize kvs (Feed v # evs) yield s =
     (if bsize \<le> int (length (kvs @ [v])) then
        (case it_flush yield (kvs @ [v]) s of
           (s', cont) \<Rightarrow> if \<not> cont then Some s' else it_async_loop bsize [] evs yield s')
      else it_async_loop bsize (kvs @ [v]) evs yield s)"
| "it_async_loop bsize kvs (Tick # evs) yield s =
     (if length kvs = 0 then it_async_loop bsize kvs evs yield s
      else (case it_flush yield kvs s of
              (s', cont) \<Rightarrow> if \<not> cont then Some s' else it_async_loop bsize [] evs yield s'))"

definition it_asyncBatch :: "BatchConfig \<Rightarrow> 'a batch_event list \<Rightarrow> ('a list, 's) seq" where
  "it_asyncBatch c evs yield s =
     (if bc_WaitLimit c \<le> 0 then None else it_async_loop (bc_getSize c) [] evs yield s)"

text \<open>The batched source: by size alone, or with the events of the asynchronous loop.\<close>

definition it_batched :: "BatchConfig \<Rightarrow> ('a, 'p) pull \<Rightarrow> 'p \<Rightarrow> 'a batch_event list \<Rightarrow> ('a list, 's) seq" where
  "it_batched c next p evs yield s =
     (if 0 < bc_WaitLimit c then it_asyncBatch c evs yield s else it_syncBatch c next p yield s)"

definition it_Batch :: "BatchConfig \<Rightarrow> ('a, 'p) pull \<Rightarrow> 'p \<Rightarrow> 'a batch_event list \<Rightarrow> ('a list, 's) seq" where
  "it_Batch c next p evs yield s = it_batched c next p evs (\<lambda>kvs s. yield kvs s) s"

fun it_batchE_body ::
    "('a list \<times> go_error option \<Rightarrow> 's \<Rightarrow> 's \<times> bool) \<Rightarrow> 'a list \<Rightarrow> ('a \<times> go_error option) list \<Rightarrow> 's \<Rightarrow> 's \<times> bool" where
  "it_batchE_body yield vs [] s = yield (vs, None) s"
| "it_batchE_body yield vs ((k, err) # kvs) s =
     (if err \<noteq> None then (case yield ([k], err) s of (s', cont) \<Rightarrow> if \<not> cont then (s', False) else it_batchE_body yield vs kvs s')
      else it_batchE_body yield (vs @ [k]) kvs s)"

definition it_BatchE ::
    "BatchConfig \<Rightarrow> ('a \<times> go_error option, 'p) pull \<Rightarrow> 'p \<Rightarrow> ('a \<times> go_error option) batch_event list \<Rightarrow> ('a list, 's) seqE" where
  "it_BatchE c next p evs yield s = it_batched c next p evs (\<lambda>kvs s. it_batchE_body yield [] kvs s) s"

section \<open>Iterations over lists\<close>

text \<open>The pull iterator of a list.\<close>

fun pull_list :: "('a, 'a list) pull" where
  "pull_list [] = (None, [])"
| "pull_list (x # xs) = (Some x, xs)"

function it_chunks :: "nat \<Rightarrow> 'a list \<Rightarrow> 'a list list" where
  "it_chunks n xs = (if n = 0 \<or> xs = [] then [] else take n xs # it_chunks n (drop n xs))"
  by pat_completeness auto
termination by (relation "measure (\<lambda>(n, xs). length xs)") auto

declare it_chunks.simps [simp del]

lemma it_chunks_Nil [simp]: "it_chunks n [] = []"
  by (simp add: it_chunks.simps)

lemma it_chunks_full: "0 < length ks \<Longrightarrow> it_chunks (length ks) (ks @ xs) = ks # it_chunks (length ks) xs"
  by (subst it_chunks.simps) simp

lemma it_chunks_short: "ks \<noteq> [] \<Longrightarrow> length ks < n \<Longrightarrow> it_chunks n ks = [ks]"
  by (subst it_chunks.simps) simp

lemma concat_chunks: "0 < n \<Longrightarrow> concat (it_chunks n xs) = xs"
  by (induction n xs rule: it_chunks.induct) (subst it_chunks.simps, simp)

lemma FromSlice_all: "it_FromSlice xs yield s = Some (yield_all yield xs s)"
  by (induction xs arbitrary: s) (auto split: prod.split)

lemma yield_all_map: "yield_all (\<lambda>v. yield (f v)) xs s = yield_all yield (map f xs) s"
  by (induction xs arbitrary: s) (auto split: prod.split)

lemma yield_all_filter: "yield_all (\<lambda>v s. if p v then yield v s else (s, True)) xs s = yield_all yield (filter p xs) s"
  by (induction xs arbitrary: s) (auto split: prod.split)

lemma yield_all_snoc: "yield_all (\<lambda>v vs. (vs @ [v], True)) xs acc = acc @ xs"
  by (induction xs arbitrary: acc) auto

lemma yield_all_flag:
  "yield_all (\<lambda>v (s, _). case yield v s of (s', cont) \<Rightarrow> ((s', cont), cont)) xs (s, True) = (s', cont) \<Longrightarrow>
   yield_all yield (xs @ ys) s = (if cont then yield_all yield ys s' else s')"
proof (induction xs arbitrary: s)
  case (Cons x xs)
  obtain t c where y: "yield x s = (t, c)" by (cases "yield x s")
  show ?case using Cons by (cases c) (auto simp: y)
qed simp

lemma merge_loop_list: "it_merge_loop (map it_FromSlice xss) yield s = Some (yield_all yield (concat xss) s)"
proof (induction xss arbitrary: s)
  case (Cons xs xss)
  obtain s' cont where f: "yield_all (\<lambda>v (s, _). case yield v s of (s', cont) \<Rightarrow> ((s', cont), cont)) xs (s, True) = (s', cont)"
    by (rule prod.exhaust)
  show ?case using yield_all_flag [OF f, of "concat xss"] Cons.IH f by (simp add: FromSlice_all)
qed simp

lemma head_loop_list: "it_head_loop pull_list n xs yield s = Some (yield_all yield (take n xs) s)"
proof (induction n arbitrary: xs s)
  case (Suc n)
  then show ?case by (cases xs) (auto split: prod.split)
qed simp

lemma rest_loop_list: "it_rest_loop pull_list xs yield s = Some (yield_all yield xs s)"
proof (induction xs arbitrary: s)
  case Nil
  show ?case by (subst it_rest_loop.simps) simp
next
  case (Cons x xs)
  show ?case by (subst it_rest_loop.simps) (simp add: Cons.IH split: prod.split)
qed

lemma dispose_list: "it_dispose pull_list n xs = (if n \<le> length xs then Some (drop n xs) else None)"
proof (induction n arbitrary: xs)
  case (Suc n)
  then show ?case by (cases xs) auto
qed simp

lemma batch_loop_list:
  "0 < n \<Longrightarrow> length kvs < n \<Longrightarrow>
   it_batch_loop pull_list (int n) kvs xs yield s = Some (yield_all yield (it_chunks n (kvs @ xs)) s)"
proof (induction xs arbitrary: kvs s)
  case Nil
  then show ?case
    by (subst it_batch_loop.simps) (auto simp: it_flush_def it_chunks_short split: prod.split)
next
  case (Cons x xs)
  show ?case
  proof (cases "length kvs + 1 = n")
    case True
    have c: "it_chunks n (kvs @ x # xs) = (kvs @ [x]) # it_chunks n xs"
      using it_chunks_full [of "kvs @ [x]" xs] True by simp
    show ?thesis
      using True Cons.IH [of "[]"] Cons.prems
      by (subst it_batch_loop.simps) (auto simp: it_flush_def c split: prod.split)
  next
    case False
    then have "\<not> int n \<le> int (length (kvs @ [x]))" using Cons.prems by simp
    then show ?thesis
      using Cons.IH [of "kvs @ [x]"] Cons.prems False by (subst it_batch_loop.simps) simp
  qed
qed

section \<open>Batches under any interleaving\<close>

text \<open>The values fed before the feed is closed.\<close>

fun fed_values :: "'a batch_event list \<Rightarrow> 'a list" where
  "fed_values [] = []"
| "fed_values (Closed # evs) = []"
| "fed_values (Feed v # evs) = v # fed_values evs"
| "fed_values (Tick # evs) = fed_values evs"

lemma async_loop_batches:
  "Closed \<in> set evs \<Longrightarrow> 0 < n \<Longrightarrow> length kvs < n \<Longrightarrow>
   \<exists>bs. it_async_loop (int n) kvs evs (\<lambda>b acc. (acc @ [b], True)) acc = Some (acc @ bs) \<and>
        concat bs = kvs @ fed_values evs \<and> list_all (\<lambda>b. b \<noteq> [] \<and> length b \<le> n) bs"
proof (induction evs arbitrary: kvs acc)
  case (Cons e evs)
  show ?case
  proof (cases e)
    case Closed
    then show ?thesis using Cons.prems
      by (cases "kvs = []") (auto simp: it_flush_def intro: exI [of _ "[kvs]"] exI [of _ "[]"])
  next
    case (Feed v)
    show ?thesis
    proof (cases "n \<le> length kvs + 1")
      case True
      obtain bs where "it_async_loop (int n) [] evs (\<lambda>b acc. (acc @ [b], True)) (acc @ [kvs @ [v]]) = Some ((acc @ [kvs @ [v]]) @ bs)"
        "concat bs = fed_values evs" "list_all (\<lambda>b. b \<noteq> [] \<and> length b \<le> n) bs"
        using Cons.IH [of "[]" "acc @ [kvs @ [v]]"] Cons.prems Feed by auto
      with True Feed Cons.prems(3) show ?thesis
        by (intro exI [of _ "(kvs @ [v]) # bs"]) (auto simp: it_flush_def)
    next
      case False
      then show ?thesis using Cons.IH [of "kvs @ [v]" acc] Cons.prems Feed by (auto simp: it_flush_def)
    qed
  next
    case Tick
    show ?thesis
    proof (cases "kvs = []")
      case True
      then show ?thesis using Cons.IH [of kvs acc] Cons.prems Tick by auto
    next
      case False
      obtain bs where "it_async_loop (int n) [] evs (\<lambda>b acc. (acc @ [b], True)) (acc @ [kvs]) = Some ((acc @ [kvs]) @ bs)"
        "concat bs = fed_values evs" "list_all (\<lambda>b. b \<noteq> [] \<and> length b \<le> n) bs"
        using Cons.IH [of "[]" "acc @ [kvs]"] Cons.prems Tick by auto
      with False Tick Cons.prems(3) show ?thesis
        by (intro exI [of _ "kvs # bs"]) (auto simp: it_flush_def)
    qed
  qed
qed simp

section \<open>Pages\<close>

lemma it_page_all: "it_page yield vs s = (s', cont) \<Longrightarrow>
  yield_all yield (map (\<lambda>v. (v, None)) vs @ ys) s = (if cont then yield_all yield ys s' else s')"
proof (induction vs arbitrary: s)
  case (Cons v vs)
  obtain t c where y: "yield (v, None) s = (t, c)" by (cases "yield (v, None) s")
  show ?case using Cons by (cases c) (auto simp: y)
qed simp

definition page_end :: "'a \<Rightarrow> 'a list \<Rightarrow> go_error option \<Rightarrow> ('a \<times> go_error option) list" where
  "page_end zero vs err =
     (if err \<noteq> None \<and> \<not> err_Is err NoMore then [(zero, err)] else map (\<lambda>v. (v, None)) vs)"

lemma pages_loop_list:
  assumes "\<forall>s. next (int (length (concat (ps @ qs)))) s = ((vs, err), s)" "err = None \<longrightarrow> vs = []"
  shows "[] \<notin> set qs \<Longrightarrow>
    (\<And>as p bs. qs = as @ p # bs \<Longrightarrow> \<forall>s. next (int (length (concat (ps @ as)))) s = ((p, None), s)) \<Longrightarrow>
    it_pages_loop zero next yield (int (length (concat ps))) True s =
      Some (yield_all yield (map (\<lambda>v. (v, None)) (concat qs) @ page_end zero vs err) s)"
  using assms
proof (induction qs arbitrary: ps s)
  case Nil
  obtain s' c where pg: "it_page yield vs s = (s', c)" by (cases "it_page yield vs s")
  have stop: "it_pages_loop zero next yield off False t = Some t" for off t
    by (subst it_pages_loop.simps) simp
  show ?case
    using Nil.prems(3,4) it_page_all [OF pg, of "[]"] pg
    by (subst it_pages_loop.simps) (auto simp: page_end_def stop split: prod.split)
next
  case (Cons q qs)
  have q: "\<forall>s. next (int (length (concat ps))) s = ((q, None), s)" using Cons.prems(2) [of "[]" q qs] by simp
  obtain s' c where pg: "it_page yield q s = (s', c)" by (cases "it_page yield q s")
  have step: "it_pages_loop zero next yield (int (length (concat (ps @ [q])))) True s' =
      Some (yield_all yield (map (\<lambda>v. (v, None)) (concat qs) @ page_end zero vs err) s')"
  proof (rule Cons.IH)
    fix as p bs assume "qs = as @ p # bs"
    then show "\<forall>s. next (int (length (concat ((ps @ [q]) @ as)))) s = ((p, None), s)"
      using Cons.prems(2) [of "q # as" p bs] by simp
  qed (use Cons.prems in simp_all)
  show ?case
    using q pg step Cons.prems(1) it_page_all [OF pg, of "map (\<lambda>v. (v, None)) (concat qs) @ page_end zero vs err"]
    by (subst it_pages_loop.simps) auto
qed

section \<open>Ranges at the integer width\<close>

lemma sint_succ: "sint w < half TYPE('w) - 1 \<Longrightarrow> sint (w + 1 :: 'w::len word) = sint w + 1"
proof -
  assume a: "sint w < half TYPE('w) - 1"
  have "w + 1 = word_of_int (sint w + 1)" by simp
  moreover have "sint (word_of_int (sint w + 1) :: 'w word) = sint w + 1"
    by (rule sint_fits) (use a sint_bounds(1) [of w] in linarith)+
  ultimately show ?thesis by (simp only:)
qed

lemma max_succ: "sint w = half TYPE('w) - 1 \<Longrightarrow> (w + 1 :: 'w::len word) = MinInt"
proof -
  assume "sint w = half TYPE('w) - 1"
  then have "w = MaxInt" by (metis sint_MaxInt signed_word_eqI)
  then have "w + 1 = - MinInt" by (simp add: MaxInt_of_int MinInt_of_int)
  then show ?thesis by (simp only: neg_MinInt)
qed

lemma range_loop_upto:
  fixes beg fin i :: "'w::len word"
  assumes "sint fin < half TYPE('w) - 1"
  shows "it_range_loop beg fin i yield s = Some (yield_all yield (map word_of_int [sint (beg + i)..sint fin]) s)"
proof (induction "nat (sint fin + 1 - sint (beg + i))" arbitrary: i s)
  case 0
  then have "\<not> (beg + i <s fin + 1)" "sint fin < sint (beg + i)"
    by (simp_all add: word_sless_alt sint_succ [OF assms])
  then show ?case by (subst it_range_loop.simps) simp
next
  case (Suc d)
  then have le: "sint (beg + i) \<le> sint fin" by simp
  then have go: "beg + i <s fin + 1" by (simp add: word_sless_alt sint_succ [OF assms])
  have nxt: "sint (beg + (i + 1)) = sint (beg + i) + 1"
    using sint_succ [of "beg + i"] le assms by (simp add: add.assoc)
  have "[sint (beg + i)..sint fin] = sint (beg + i) # [sint (beg + i) + 1..sint fin]"
    using le by (rule upto_rec1)
  then show ?case
    using Suc.hyps(1) [of "i + 1"] Suc.hyps(2) nxt
    by (subst it_range_loop.simps) (auto simp: go split: prod.split)
qed

lemma range_loop_max:
  fixes beg fin i :: "'w::len word"
  assumes "sint fin = half TYPE('w) - 1"
  shows "it_range_loop beg fin i yield s = Some s"
proof -
  have "\<not> (beg + i <s fin + 1)"
    using sint_bounds(1) [of "beg + i"] by (simp add: word_sless_alt max_succ [OF assms])
  then show ?thesis by (subst it_range_loop.simps) simp
qed

section \<open>Properties\<close>

text \<open>C12: the iterator combinators compute what the list functions of the same name do. On a source that yields
  the values of a list, for every body, also one that stops early, Map, Filter, Merge, Head, Offset, Reverse and
  the synchronous Batch iterate exactly the mapped, filtered, concatenated, truncated, shortened, reversed list
  or its chunks, and Collect returns the list; every one of these iterations ends.\<close>

theorem it_combinators_list:
  "it_Map (it_FromSlice xs) f yield s = it_FromSlice (map f xs) yield s
   \<and> it_Filter z (Some (ISeq (it_FromSlice xs))) p = Some (ISeq (it_FromSlice (filter p xs) :: ('a, 's) seq))
   \<and> it_Merge (map it_FromSlice xss) yield2 s = it_FromSlice (concat xss) yield2 s
   \<and> it_Head pull_list xs n yield2 s = it_FromSlice (take (nat n) xs) yield2 s
   \<and> it_Offset pull_list xs n yield2 s = it_FromSlice (drop (nat n) xs) yield2 s
   \<and> it_Reverse (it_FromSlice xs) yield2 s = it_FromSlice (rev xs) yield2 s
   \<and> it_syncBatch c pull_list xs yield3 s = it_FromSlice (it_chunks (nat (bc_getSize c)) xs) yield3 s
   \<and> it_Collect (Some (it_FromSlice xs)) = Some (Some (xs :: 'a list))"
proof (intro conjI)
  show "it_Map (it_FromSlice xs) f yield s = it_FromSlice (map f xs) yield s"
    by (simp add: it_Map_def FromSlice_all yield_all_map)
  show "it_Filter z (Some (ISeq (it_FromSlice xs))) p = Some (ISeq (it_FromSlice (filter p xs) :: ('a, 's) seq))"
    by (simp add: it_Filter_def FromSlice_all fun_eq_iff yield_all_filter)
  show "it_Merge (map it_FromSlice xss) yield2 s = it_FromSlice (concat xss) yield2 s"
    by (simp add: it_Merge_def it_Empty_def FromSlice_all merge_loop_list)
  show "it_Head pull_list xs n yield2 s = it_FromSlice (take (nat n) xs) yield2 s"
    by (simp add: it_Head_def FromSlice_all head_loop_list)
  show "it_Offset pull_list xs n yield2 s = it_FromSlice (drop (nat n) xs) yield2 s"
    by (simp add: it_Offset_def FromSlice_all dispose_list rest_loop_list)
  show "it_Reverse (it_FromSlice xs) yield2 s = it_FromSlice (rev xs) yield2 s"
    by (simp add: it_Reverse_def it_Collect_def FromSlice_all yield_all_snoc)
  have "0 < bc_getSize c" by (simp add: bc_getSize_def)
  then show "it_syncBatch c pull_list xs yield3 s = it_FromSlice (it_chunks (nat (bc_getSize c)) xs) yield3 s"
    using batch_loop_list [of "nat (bc_getSize c)" "[]" xs yield3 s] by (simp add: it_syncBatch_def FromSlice_all)
  show "it_Collect (Some (it_FromSlice xs)) = Some (Some xs)"
    by (simp add: it_Collect_def FromSlice_all yield_all_snoc)
qed

text \<open>C13: an asynchronous batch ends and loses nothing. Whatever the interleaving of fed values and timer ticks,
  once the feed is closed the loop returns, and the batches it yielded are never empty, never larger than the
  size, and concatenate to the values fed, in order.\<close>

theorem it_asyncBatch_complete:
  assumes "0 < bc_WaitLimit c" "Closed \<in> set evs"
  shows "\<exists>bs. it_asyncBatch c evs (\<lambda>b acc. (acc @ [b], True)) [] = Some bs \<and> concat bs = fed_values evs \<and>
    list_all (\<lambda>b. b \<noteq> [] \<and> int (length b) \<le> bc_getSize c) bs"
proof -
  have pos: "0 < bc_getSize c" by (simp add: bc_getSize_def)
  then obtain bs where "it_async_loop (int (nat (bc_getSize c))) [] evs (\<lambda>b acc. (acc @ [b], True)) [] = Some ([] @ bs)"
    "concat bs = [] @ fed_values evs" "list_all (\<lambda>b. b \<noteq> [] \<and> length b \<le> nat (bc_getSize c)) bs"
    using async_loop_batches [OF assms(2), of "nat (bc_getSize c)" "[]" "[]"] by auto
  with assms(1) pos show ?thesis by (intro exI [of _ bs]) (auto simp: it_asyncBatch_def list_all_iff)
qed

theorem it_asyncBatch_complete_witness:
  "\<exists>bs. it_asyncBatch \<lparr>bc_Size = 2, bc_WaitLimit = 5\<rparr> [Feed (7 :: int), Tick, Tick, Feed 8, Feed 9, Feed 10, Closed]
      (\<lambda>b acc. (acc @ [b], True)) [] = Some bs \<and> concat bs = [7, 8, 9, 10]"
proof -
  have h: "0 < bc_WaitLimit \<lparr>bc_Size = 2, bc_WaitLimit = 5\<rparr>"
    "Closed \<in> set [Feed (7 :: int), Tick, Tick, Feed 8, Feed 9, Feed 10, Closed]" by simp_all
  from it_asyncBatch_complete [OF h] show ?thesis by simp blast
qed

text \<open>FromPages yields the pages until the last. When the pages at the running offsets are non-empty and the
  last request returns an empty page, a last page with NoMore, or another error, the iteration ends, and it
  yields the values of all pages in order, then those of the last page, or the error once in their place.\<close>

theorem it_FromPages_all:
  assumes "[] \<notin> set pages"
    and "\<forall>before p after s. pages = before @ p # after \<longrightarrow> next_page (int (length (concat before))) s = ((p, None), s)"
    and "\<forall>s. next_page (int (length (concat pages))) s = ((vs, err), s)" "err = None \<longrightarrow> vs = []"
  shows "it_FromPages zero next_page yield s =
    it_FromSlice (map (\<lambda>v. (v, None)) (concat pages) @
      (if err \<noteq> None \<and> \<not> err_Is err NoMore then [(zero, err)] else map (\<lambda>v. (v, None)) vs)) yield s"
  using pages_loop_list [of next_page "[]" pages vs err zero yield s] assms
  by (simp add: it_FromPages_def FromSlice_all page_end_def)

definition ex_pages :: "int \<Rightarrow> 's \<Rightarrow> (int list \<times> go_error option) \<times> 's" where
  "ex_pages off s = ((if off = 0 then [5, 6] else if off = 2 then [7] else [8, 9],
     if off = 3 then Some (ErrConst NoMore) else None), s)"

text \<open>IntRange and CharRange iterate the closed interval, except up to the maximal integer. For an end below
  the maximal value the loop ends after yielding every integer from begin to end once, in order; with the maximal
  value as the end it yields nothing, because end+1 wraps around.\<close>

theorem it_ranges:
  "it_IntRange beg fin yield s =
     (if sint fin = 2 ^ 63 - 1 then Some s else it_FromSlice (map word_of_int [sint beg..sint fin]) yield s) \<and>
   it_CharRange cbeg cfin cyield s =
     (if sint cfin = 2 ^ 31 - 1 then Some s else it_FromSlice (map word_of_int [sint cbeg..sint cfin]) cyield s)"
proof -
  have h: "half TYPE(64) = 2 ^ 63" "half TYPE(32) = 2 ^ 31" by (simp_all add: half_def)
  have "sint fin \<noteq> 2 ^ 63 - 1 \<Longrightarrow> sint fin < half TYPE(64) - 1" "sint cfin \<noteq> 2 ^ 31 - 1 \<Longrightarrow> sint cfin < half TYPE(32) - 1"
    using sint_bounds(2) [of fin] sint_bounds(2) [of cfin] unfolding h by linarith+
  then show ?thesis
    using range_loop_upto [of fin beg 0 yield s] range_loop_upto [of cfin cbeg 0 cyield s]
      range_loop_max [of fin beg 0 yield s] range_loop_max [of cfin cbeg 0 cyield s]
    unfolding it_IntRange_def it_CharRange_def FromSlice_all h by simp
qed

end
