(* ===== verification/Jsontoken.thy ===== *)
theory Jsontoken imports Errorkit begin

text \<open>
  \<^verbatim>\<open>pkg/jsonkit/jsontoken\<close>: the streaming JSON scanner with path selectors.

  A rune is its code point. The input is the list of the runes that can still be read; once it is
  exhausted, \<^verbatim>\<open>ReadRune\<close> gives the error \<open>rerr\<close> of the reader (\<^verbatim>\<open>io.EOF\<close> at the end of a
  stream). Reading and unreading a rune is looking at it. What a scan function writes to its output
  is part of its result; the byte buffers of the code hold the UTF-8 encoding of that text. Writing
  to a buffer or to the discarding writer does not fail. The selectors' \<^verbatim>\<open>Func\<close> are arbitrary
  operations on a world \<open>'w\<close>; their \<^verbatim>\<open>On\<close> variant (a goroutine that reads from a pipe) and the
  panic of a nil receiver are left out. \<^verbatim>\<open>json.Valid\<close>, which decides whether a run of number
  characters is a number, is a parameter. Error messages keep their fixed part.
\<close>

type_synonym rune = nat
type_synonym runes = "rune list"

definition arrayOpenToken :: rune where "arrayOpenToken = 91"
definition arrayCloseToken :: rune where "arrayCloseToken = 93"
definition valueSepToken :: rune where "valueSepToken = 44"
definition objectOpenToken :: rune where "objectOpenToken = 123"
definition objectCloseToken :: rune where "objectCloseToken = 125"
definition nameSepToken :: rune where "nameSepToken = 58"
definition quoteToken :: rune where "quoteToken = 34"
definition stringEscapesToken :: rune where "stringEscapesToken = 92"

definition nullTokenUTF8 :: runes where "nullTokenUTF8 = [110, 117, 108, 108]"
definition trueTokenUTF8 :: runes where "trueTokenUTF8 = [116, 114, 117, 101]"
definition falseTokenUTF8 :: runes where "falseTokenUTF8 = [102, 97, 108, 115, 101]"

text \<open>Space, line feed, carriage return, tab; the digits, point, minus, plus, e and E.\<close>

definition whitespaceChars :: "rune list" where "whitespaceChars = [32, 10, 13, 9]"
definition numberChars :: "rune list" where
  "numberChars = [48, 49, 50, 51, 52, 53, 54, 55, 56, 57, 46, 45, 43, 101, 69]"

section \<open>Kinds and paths\<close>

datatype Kind =
    StrKind string
  | KindElement "int option"
  | KindValue "runes option"

definition KindString :: Kind where "KindString = StrKind ''string''"
definition KindNumber :: Kind where "KindNumber = StrKind ''number''"
definition KindBoolean :: Kind where "KindBoolean = StrKind ''boolean''"
definition KindNull :: Kind where "KindNull = StrKind ''null''"
definition KindArray :: Kind where "KindArray = StrKind ''array''"
definition KindObject :: Kind where "KindObject = StrKind ''object''"
definition KindName :: Kind where "KindName = StrKind ''name''"

fun Kind_Match :: "Kind \<Rightarrow> Kind \<Rightarrow> bool" where
  "Kind_Match (StrKind sk) oth = (case oth of StrKind osk \<Rightarrow> sk = osk | _ \<Rightarrow> False)"
| "Kind_Match (KindElement e) oth =
     (case oth of
        KindElement oe \<Rightarrow> (case (e, oe) of (Some i, Some j) \<Rightarrow> i = j | _ \<Rightarrow> True)
      | _ \<Rightarrow> False)"
| "Kind_Match (KindValue v) oth =
     (case oth of
        KindValue ov \<Rightarrow> (case (v, ov) of (Some n, Some m) \<Rightarrow> n = m | _ \<Rightarrow> True)
      | _ \<Rightarrow> False)"

type_synonym Path = "Kind list"

definition Path_With :: "Path \<Rightarrow> Kind \<Rightarrow> Path" where
  "Path_With p k = p @ [k]"

fun Path_contains_loop :: "Path \<Rightarrow> Path \<Rightarrow> bool" where
  "Path_contains_loop [] oth = True"
| "Path_contains_loop (k # p) (o1 # oth) = (if \<not> Kind_Match k o1 then False else Path_contains_loop p oth)"
| "Path_contains_loop (k # p) [] = False"

definition Path_Contains :: "Path \<Rightarrow> Path \<Rightarrow> bool" where
  "Path_Contains p oth =
     (if length p = 0 then True else if length oth < length p then False else Path_contains_loop p oth)"

definition Path_Equal :: "Path \<Rightarrow> Path \<Rightarrow> bool" where
  "Path_Equal p oth \<longleftrightarrow> length p = length oth \<and> Path_Contains p oth"

definition Path_Match :: "Path \<Rightarrow> Path \<Rightarrow> bool" where
  "Path_Match p oth =
     (if Path_Equal p oth then True
      else if length p < 2 \<or> length oth \<noteq> length p + 1 then False
      else if \<not> Path_Contains p oth then False
      else (case last p of
              KindElement _ \<Rightarrow> True
            | KindValue _ \<Rightarrow> True
            | StrKind sk \<Rightarrow> Kind_Match (StrKind sk) KindName))"

section \<open>Errors\<close>

definition jt_ErrMalformed :: string where
  "jt_ErrMalformed = ''[ErrMalformed] malformed JSON''"

definition io_EOF :: string where
  "io_EOF = ''EOF''"

datatype jt_error =
    JErr go_error                          \<comment> \<open>of the reader or of a selector\<close>
  | LexingError string Path
  | Malformed string "jt_error option"     \<comment> \<open>ErrMalformed.F with the error it wraps\<close>
  | JWrap string jt_error                  \<comment> \<open>fmt.Errorf with a wrapped error\<close>
  | JMerge jt_error jt_error

fun jt_Is :: "jt_error \<Rightarrow> string \<Rightarrow> bool" where
  "jt_Is (JErr e) t = errors_Is e t"
| "jt_Is (LexingError m p) t = False"
| "jt_Is (Malformed m e) t = (t = jt_ErrMalformed \<or> (case e of None \<Rightarrow> False | Some x \<Rightarrow> jt_Is x t))"
| "jt_Is (JWrap m e) t = jt_Is e t"
| "jt_Is (JMerge a b) t = (jt_Is a t \<or> jt_Is b t)"

text \<open>\<^verbatim>\<open>errors.As(err, &LexingError{})\<close>\<close>

fun jt_AsLexing :: "jt_error \<Rightarrow> bool" where
  "jt_AsLexing (JErr e) = False"
| "jt_AsLexing (LexingError m p) = True"
| "jt_AsLexing (Malformed m e) = (case e of None \<Rightarrow> False | Some x \<Rightarrow> jt_AsLexing x)"
| "jt_AsLexing (JWrap m e) = jt_AsLexing e"
| "jt_AsLexing (JMerge a b) = (jt_AsLexing a \<or> jt_AsLexing b)"

definition asLexingError :: "jt_error \<Rightarrow> Path \<Rightarrow> jt_error" where
  "asLexingError err path = (if jt_AsLexing err then err else JMerge err (LexingError '''' path))"

definition isScanError :: "jt_error \<Rightarrow> Path \<Rightarrow> jt_error option" where
  "isScanError err path =
     (if jt_AsLexing err then Some err
      else if jt_Is err jt_ErrMalformed then Some (asLexingError err path)
      else None)"

definition malformedF :: "Path \<Rightarrow> string \<Rightarrow> jt_error option \<Rightarrow> jt_error" where
  "malformedF path fmt wrapped = asLexingError (Malformed fmt wrapped) path"

section \<open>The scanner\<close>

record 'w Selector =
  sel_Path :: Path
  sel_Func :: "(runes \<Rightarrow> 'w \<Rightarrow> go_error option \<times> 'w) option"

text \<open>The scanner with what it is given from outside: the reader's error and \<^verbatim>\<open>json.Valid\<close>.\<close>

record 'w Scanner =
  Selectors :: "'w Selector list"
  rerr :: go_error
  json_Valid :: "runes \<Rightarrow> bool"

text \<open>What a scan function leaves: its error or the text it wrote, the rest of the input, and the world.\<close>

type_synonym 'w scanned = "(jt_error + runes) \<times> runes \<times> 'w"

definition tokenStartKind :: "rune \<Rightarrow> Kind option" where
  "tokenStartKind char =
     (if char \<in> set numberChars then Some KindNumber
      else if char \<in> set whitespaceChars then None
      else if char = 91 then Some KindArray
      else if char = 123 then Some KindObject
      else if char = 34 then Some KindString
      else if char = 110 then Some KindNull
      else if char = 116 \<or> char = 102 then Some KindBoolean
      else None)"

fun selectorsForPath :: "'w Selector list \<Rightarrow> Path \<Rightarrow> (runes \<Rightarrow> 'w \<Rightarrow> go_error option \<times> 'w) list" where
  "selectorsForPath [] path = []"
| "selectorsForPath (selector # sels) path =
     (if \<not> Path_Match (sel_Path selector) path then selectorsForPath sels path
      else (case sel_Func selector of
              None \<Rightarrow> selectorsForPath sels path
            | Some fn \<Rightarrow> fn # selectorsForPath sels path))"

fun run_fns :: "(runes \<Rightarrow> 'w \<Rightarrow> go_error option \<times> 'w) list \<Rightarrow> runes \<Rightarrow> 'w \<Rightarrow> go_error option \<times> 'w" where
  "run_fns [] data w = (None, w)"
| "run_fns (fn # fns) data w =
     (case fn data w of (Some err, w') \<Rightarrow> (Some err, w') | (None, w') \<Rightarrow> run_fns fns data w')"

text \<open>\<^verbatim>\<open>with\<close>: what happens after its block has run; the local buffer holds what the block wrote.\<close>

definition scan_with :: "'w Scanner \<Rightarrow> Path \<Rightarrow> 'w scanned \<Rightarrow> 'w scanned" where
  "scan_with s path blk =
     (let fns = selectorsForPath (Selectors s) path
      in if length fns = 0 then blk
         else (case blk of
                 (Inl err, inp, w) \<Rightarrow> (Inl err, inp, w)
               | (Inr local, inp, w) \<Rightarrow>
                   (case run_fns fns local w of
                      (Some err, w') \<Rightarrow> (Inl (JErr err), inp, w')
                    | (None, w') \<Rightarrow> (Inr local, inp, w'))))"

definition scan_after :: "runes \<Rightarrow> 'w scanned \<Rightarrow> 'w scanned" where
  "scan_after t r = (case r of (Inl err, inp, w) \<Rightarrow> (Inl err, inp, w) | (Inr u, inp, w) \<Rightarrow> (Inr (t @ u), inp, w))"

text \<open>
  The loops that move runes from the input to the output: white space, the characters of a number,
  and a string up to its closing quote.
\<close>

fun trimSpace :: "go_error \<Rightarrow> runes \<Rightarrow> (jt_error + runes) \<times> runes" where
  "trimSpace e [] = (Inl (JErr e), [])"
| "trimSpace e (char # inp) =
     (if char \<notin> set whitespaceChars then (Inr [], char # inp)
      else (case trimSpace e inp of
              (Inl err, rest) \<Rightarrow> (Inl err, rest)
            | (Inr t, rest) \<Rightarrow> (Inr (char # t), rest)))"

fun scan_digits :: "go_error \<Rightarrow> runes \<Rightarrow> (jt_error + runes) \<times> runes" where
  "scan_digits e [] = (Inl (JErr e), [])"
| "scan_digits e (digit # inp) =
     (if digit \<notin> set numberChars then (Inr [], digit # inp)
      else (case scan_digits e inp of
              (Inl err, rest) \<Rightarrow> (Inl err, rest)
            | (Inr t, rest) \<Rightarrow> (Inr (digit # t), rest)))"

definition string_read_error :: "go_error \<Rightarrow> Path \<Rightarrow> jt_error" where
  "string_read_error e path =
     (if errors_Is e io_EOF then malformedF path ''unexpected %w during incomplete string token'' (Some (JErr e))
      else malformedF path ''unexpected error during string scanning: %w'' (Some (JErr e)))"

fun scan_string_loop :: "go_error \<Rightarrow> Path \<Rightarrow> bool \<Rightarrow> runes \<Rightarrow> (jt_error + runes) \<times> runes" where
  "scan_string_loop e path inEscape [] = (Inl (string_read_error e path), [])"
| "scan_string_loop e path inEscape (char # inp) =
     (if char = stringEscapesToken then
        (case scan_string_loop e path (\<not> inEscape) inp of
           (Inl err, rest) \<Rightarrow> (Inl err, rest) | (Inr t, rest) \<Rightarrow> (Inr (char # t), rest))
      else if char = quoteToken \<and> \<not> inEscape then (Inr [char], inp)
      else
        (case scan_string_loop e path False inp of
           (Inl err, rest) \<Rightarrow> (Inl err, rest) | (Inr t, rest) \<Rightarrow> (Inr (char # t), rest)))"

fun scan_token_loop :: "go_error \<Rightarrow> Path \<Rightarrow> runes \<Rightarrow> runes \<Rightarrow> (jt_error + runes) \<times> runes" where
  "scan_token_loop e path [] inp = (Inr [], inp)"
| "scan_token_loop e path (t # token) [] = (Inl (LexingError ''error while reading from input: '' path), [])"
| "scan_token_loop e path (t # token) (char # inp) =
     (if char \<noteq> t then (Inl (LexingError ''error parsing %q token: expected %q but got %c'' path), inp)
      else (case scan_token_loop e path token inp of
              (Inl err, rest) \<Rightarrow> (Inl err, rest) | (Inr u, rest) \<Rightarrow> (Inr (char # u), rest)))"

definition scanNumber :: "'w Scanner \<Rightarrow> Path \<Rightarrow> runes \<Rightarrow> 'w \<Rightarrow> 'w scanned" where
  "scanNumber s path0 inp w =
     (let path = Path_With path0 KindNumber
      in scan_with s path
           (case scan_digits (rerr s) inp of
              (Inl err, rest) \<Rightarrow> (Inl err, rest, w)
            | (Inr number, rest) \<Rightarrow>
                if \<not> json_Valid s number then (Inl (malformedF path ''not a valid number: %s'' None), rest, w)
                else (Inr number, rest, w)))"

definition scanToken :: "'w Scanner \<Rightarrow> Path \<Rightarrow> runes \<Rightarrow> runes \<Rightarrow> 'w \<Rightarrow> 'w scanned" where
  "scanToken s path token inp w =
     scan_with s path (case scan_token_loop (rerr s) path token inp of (r, rest) \<Rightarrow> (r, rest, w))"

definition scanNull :: "'w Scanner \<Rightarrow> Path \<Rightarrow> runes \<Rightarrow> 'w \<Rightarrow> 'w scanned" where
  "scanNull s path inp w = scanToken s (Path_With path KindNull) nullTokenUTF8 inp w"

definition scanBoolean :: "'w Scanner \<Rightarrow> Path \<Rightarrow> runes \<Rightarrow> 'w \<Rightarrow> 'w scanned" where
  "scanBoolean s path0 inp w =
     (let path = Path_With path0 KindBoolean
      in case trimSpace (rerr s) inp of
           (Inl err, rest) \<Rightarrow> (Inl err, rest, w)
         | (Inr ws, rest) \<Rightarrow>
             (case rest of
                [] \<Rightarrow> (Inl (JErr (rerr s)), [], w)
              | char # _ \<Rightarrow>
                  if char = 116 then scan_after ws (scanToken s path trueTokenUTF8 rest w)
                  else if char = 102 then scan_after ws (scanToken s path falseTokenUTF8 rest w)
                  else (Inl (LexingError ''unexpected boolean first character: %c'' path), rest, w)))"

definition scanString :: "'w Scanner \<Rightarrow> Path \<Rightarrow> runes \<Rightarrow> 'w \<Rightarrow> 'w scanned" where
  "scanString s path0 inp w =
     (let path = Path_With path0 KindString
      in scan_with s path
           (case trimSpace (rerr s) inp of
              (Inl err, rest) \<Rightarrow> (Inl err, rest, w)
            | (Inr ws, rest) \<Rightarrow>
                (case rest of
                   [] \<Rightarrow> (Inl (JErr (rerr s)), [], w)
                 | char # rest1 \<Rightarrow>
                     if char \<noteq> quoteToken then
                       (Inl (LexingError ''unexpected string starting token, expected quote but got %c'' path), rest1, w)
                     else
                       (case scan_string_loop (rerr s) path False rest1 of
                          (Inl err, rest2) \<Rightarrow> (Inl err, rest2, w)
                        | (Inr t, rest2) \<Rightarrow> (Inr (ws @ char # t), rest2, w)))))"

text \<open>
  \<^verbatim>\<open>scan\<close>, \<^verbatim>\<open>scanArray\<close>, \<^verbatim>\<open>scanObject\<close> and the loops of the last two. The error of an array
  element is passed on when it is a scan error, and reported as malformed when the input ended.
\<close>

definition element_error :: "jt_error \<Rightarrow> Path \<Rightarrow> jt_error" where
  "element_error err path =
     (case isScanError err path of
        Some err' \<Rightarrow> err'
      | None \<Rightarrow>
          if jt_Is err io_EOF then malformedF path ''unexpected %w during array value token scanning'' (Some err)
          else err)"

definition object_value_name :: "runes \<Rightarrow> runes" where
  "object_value_name rawName = (if 2 \<le> length rawName then butlast (tl rawName) else rawName)"

function scan :: "'w Scanner \<Rightarrow> Path \<Rightarrow> runes \<Rightarrow> 'w \<Rightarrow> 'w scanned"
  and scanArray :: "'w Scanner \<Rightarrow> Path \<Rightarrow> runes \<Rightarrow> 'w \<Rightarrow> 'w scanned"
  and scan_values :: "'w Scanner \<Rightarrow> Path \<Rightarrow> int \<Rightarrow> runes \<Rightarrow> 'w \<Rightarrow> 'w scanned"
  and scanObject :: "'w Scanner \<Rightarrow> Path \<Rightarrow> runes \<Rightarrow> 'w \<Rightarrow> 'w scanned"
  and scan_members :: "'w Scanner \<Rightarrow> Path \<Rightarrow> runes \<Rightarrow> 'w \<Rightarrow> 'w scanned" where
  "scan s path inp w =
     (case trimSpace (rerr s) inp of
        (Inl err, rest) \<Rightarrow> (Inl err, rest, w)
      | (Inr ws, rest) \<Rightarrow>
          (case rest of
             [] \<Rightarrow> (Inl (JErr (rerr s)), [], w)
           | char # _ \<Rightarrow>
               scan_after ws
                 (case tokenStartKind char of
                    None \<Rightarrow> (Inl (LexingError ''unexpected character: %q'' path), rest, w)
                  | Some kind \<Rightarrow>
                      if kind = KindNull then scanNull s path rest w
                      else if kind = KindBoolean then scanBoolean s path rest w
                      else if kind = KindString then scanString s path rest w
                      else if kind = KindNumber then scanNumber s path rest w
                      else if kind = KindArray then scanArray s path rest w
                      else scanObject s path rest w)))"
| "scanArray s path0 inp w =
     (let path = Path_With path0 KindArray
      in scan_with s path
           (case trimSpace (rerr s) inp of
              (Inl err, rest) \<Rightarrow> (Inl err, rest, w)
            | (Inr ws, rest) \<Rightarrow>
                (case rest of
                   [] \<Rightarrow> (Inl (JErr (rerr s)), [], w)
                 | firstChar # rest1 \<Rightarrow>
                     if firstChar \<noteq> arrayOpenToken then
                       (Inl (LexingError ''unexpected array open token, expected [ but got %c'' path), rest1, w)
                     else
                       (case rest1 of
                          [] \<Rightarrow> (Inl (JErr (rerr s)), [], w)
                        | secondChar # rest2 \<Rightarrow>
                            if secondChar = arrayCloseToken then (Inr (ws @ [firstChar, secondChar]), rest2, w)
                            else
                              (case trimSpace (rerr s) rest1 of
                                 (Inl err, rest3) \<Rightarrow> (Inl err, rest3, w)
                               | (Inr ws1, rest3) \<Rightarrow>
                                   (case rest3 of
                                      [] \<Rightarrow> (Inl (JErr (rerr s)), [], w)
                                    | nextChar # rest4 \<Rightarrow>
                                        if nextChar = arrayCloseToken then
                                          (Inr (ws @ firstChar # ws1 @ [nextChar]), rest4, w)
                                        else scan_after (ws @ firstChar # ws1) (scan_values s path 0 rest3 w)))))))"
| "scan_values s path i inp w =
     (case trimSpace (rerr s) inp of
        (Inl err, rest) \<Rightarrow> (Inl err, rest, w)
      | (Inr ws, rest) \<Rightarrow>
          (case scan s (Path_With path (KindElement (Some i))) rest w of
             (Inl err, rest1, w1) \<Rightarrow> (Inl (element_error err path), rest1, w1)
           | (Inr v, rest1, w1) \<Rightarrow>
               (case trimSpace (rerr s) rest1 of
                  (Inl err, rest2) \<Rightarrow> (Inl err, rest2, w1)
                | (Inr ws1, rest2) \<Rightarrow>
                    (case rest2 of
                       [] \<Rightarrow> (Inl (JErr (rerr s)), [], w1)
                     | nxt # rest3 \<Rightarrow>
                         if nxt = valueSepToken then
                           scan_after (ws @ v @ ws1 @ [nxt]) (scan_values s path (i + 1) rest3 w1)
                         else if nxt = arrayCloseToken then (Inr (ws @ v @ ws1 @ [nxt]), rest3, w1)
                         else (Inl (LexingError ''unexpected array token: %c'' path), rest3, w1)))))"
| "scanObject s path0 inp w =
     (let path = Path_With path0 KindObject
      in scan_with s path
           (case trimSpace (rerr s) inp of
              (Inl err, rest) \<Rightarrow> (Inl err, rest, w)
            | (Inr ws, rest) \<Rightarrow>
                (case rest of
                   [] \<Rightarrow> (Inl (JErr (rerr s)), [], w)
                 | firstChar # rest1 \<Rightarrow>
                     if firstChar \<noteq> objectOpenToken then
                       (Inl (LexingError ''unexpected object open token, expected { but got %c'' path), rest1, w)
                     else
                       (case trimSpace (rerr s) rest1 of
                          (Inl err, rest2) \<Rightarrow> (Inl err, rest2, w)
                        | (Inr ws1, rest2) \<Rightarrow>
                            (case rest2 of
                               [] \<Rightarrow> (Inl (JErr (rerr s)), [], w)
                             | secondChar # rest3 \<Rightarrow>
                                 if secondChar = objectCloseToken then
                                   (Inr (ws @ firstChar # ws1 @ [secondChar]), rest3, w)
                                 else scan_after (ws @ firstChar # ws1) (scan_members s path rest2 w))))))"
| "scan_members s path inp w =
     (case trimSpace (rerr s) inp of
        (Inl err, rest) \<Rightarrow> (Inl err, rest, w)
      | (Inr ws, rest) \<Rightarrow>
          (case scanString s (Path_With path KindName) rest w of
             (Inl err, rest1, w1) \<Rightarrow> (Inl (JWrap ''(object key) %w'' err), rest1, w1)
           | (Inr name, rest1, w1) \<Rightarrow>
               (case trimSpace (rerr s) rest1 of
                  (Inl err, rest2) \<Rightarrow> (Inl err, rest2, w1)
                | (Inr ws1, rest2) \<Rightarrow>
                    (case rest2 of
                       [] \<Rightarrow> (Inl (JErr (rerr s)), [], w1)
                     | sep # rest3 \<Rightarrow>
                         if sep \<noteq> nameSepToken then
                           (Inl (LexingError ''unexpected object key-value separator, expected : but got %c'' path), rest3, w1)
                         else
                           (case trimSpace (rerr s) rest3 of
                              (Inl err, rest4) \<Rightarrow> (Inl err, rest4, w1)
                            | (Inr ws2, rest4) \<Rightarrow>
                                (case scan s (Path_With path (KindValue (Some (object_value_name name)))) rest4 w1 of
                                   (Inl err, rest5, w2) \<Rightarrow> (Inl err, rest5, w2)
                                 | (Inr v, rest5, w2) \<Rightarrow>
                                     (case trimSpace (rerr s) rest5 of
                                        (Inl err, rest6) \<Rightarrow> (Inl err, rest6, w2)
                                      | (Inr ws3, rest6) \<Rightarrow>
                                          (case rest6 of
                                             [] \<Rightarrow> (Inl (JErr (rerr s)), [], w2)
                                           | nxt # rest7 \<Rightarrow>
                                               if nxt = objectCloseToken then
                                                 (Inr (ws @ name @ ws1 @ sep # ws2 @ v @ ws3 @ [nxt]), rest7, w2)
                                               else if nxt = valueSepToken then
                                                 scan_after (ws @ name @ ws1 @ sep # ws2 @ v @ ws3 @ [nxt])
                                                   (scan_members s path rest7 w2)
                                               else
                                                 (Inl (LexingError ''unexpected character in object, expected , or } but got %c'' path), rest7, w2)))))))))"
  by pat_completeness auto

subsection \<open>What the loops consume\<close>

lemma cons_result:
  "(case X of (Inl err, rest) \<Rightarrow> (Inl err, rest) | (Inr u, rest) \<Rightarrow> (Inr (c # u), rest)) = (Inr t, r) \<longleftrightarrow>
     (\<exists>u. t = c # u \<and> X = (Inr u, r))"
  by (cases X; cases "fst X") auto

lemma trimSpace_Inr:
  "trimSpace e inp = (Inr t, r) \<longleftrightarrow>
     inp = t @ r \<and> set t \<subseteq> set whitespaceChars \<and> r \<noteq> [] \<and> hd r \<notin> set whitespaceChars"
proof (induction e inp arbitrary: t rule: trimSpace.induct)
  case (2 e char inp)
  then show ?case
    by (cases "char \<in> set whitespaceChars") (auto simp: cons_result Cons_eq_append_conv)
qed simp

lemma scan_digits_Inr:
  "scan_digits e inp = (Inr t, r) \<longleftrightarrow>
     inp = t @ r \<and> set t \<subseteq> set numberChars \<and> r \<noteq> [] \<and> hd r \<notin> set numberChars"
proof (induction e inp arbitrary: t rule: scan_digits.induct)
  case (2 e char inp)
  then show ?case
    by (cases "char \<in> set numberChars") (auto simp: cons_result Cons_eq_append_conv)
qed simp

lemma scan_token_Inr: "scan_token_loop e path token inp = (Inr t, r) \<longleftrightarrow> t = token \<and> inp = token @ r"
  by (induction e path token inp arbitrary: t rule: scan_token_loop.induct) (auto simp: cons_result)

text \<open>The body of a string: backslashes pair up with the rune they escape, and no quote is left unescaped.\<close>

fun string_body :: "bool \<Rightarrow> runes \<Rightarrow> bool" where
  "string_body esc [] = (\<not> esc)"
| "string_body esc (c # cs) =
     (if c = stringEscapesToken then string_body (\<not> esc) cs
      else if c = quoteToken \<and> \<not> esc then False
      else string_body False cs)"

lemma ex_list_iff: "(\<exists>u. Q u) \<longleftrightarrow> Q [] \<or> (\<exists>c u. Q (c # u))"
  by (metis neq_Nil_conv)

lemma string_body_Cons_iff:
  "(\<exists>v. t = c # v \<and> (\<exists>u. v = u @ [quoteToken] \<and> P u \<and> inp = v @ r)) \<longleftrightarrow>
     (\<exists>u. t = (c # u) @ [quoteToken] \<and> P u \<and> c # inp = t @ r)"
  by auto

lemma scan_string_Inr:
  "scan_string_loop e path esc inp = (Inr t, r) \<longleftrightarrow>
     (\<exists>u. t = u @ [quoteToken] \<and> string_body esc u \<and> inp = t @ r)"
proof (induction e path esc inp arbitrary: t rule: scan_string_loop.induct)
  case (2 e path esc char inp)
  have tok: "quoteToken \<noteq> stringEscapesToken" by (simp add: quoteToken_def stringEscapesToken_def)
  have split_body: "(\<exists>u. t = u @ [quoteToken] \<and> string_body esc u \<and> char # inp = t @ r) \<longleftrightarrow>
      t = [quoteToken] \<and> \<not> esc \<and> char = quoteToken \<and> inp = r \<or>
      (\<exists>u. t = (char # u) @ [quoteToken] \<and> string_body esc (char # u) \<and> char # inp = t @ r)" for t
    by (subst ex_list_iff) (auto simp del: string_body.simps(2))
  show ?case
  proof (cases "char = stringEscapesToken")
    case True
    have "scan_string_loop e path esc (char # inp) = (Inr t, r) \<longleftrightarrow>
        (\<exists>u. t = (char # u) @ [quoteToken] \<and> string_body (\<not> esc) u \<and> char # inp = t @ r)"
      using 2(1)[OF True] True by (simp only: scan_string_loop.simps if_True cons_result string_body_Cons_iff simp_thms)
    with True tok show ?thesis
      unfolding split_body by auto
  next
    case no_escape: False
    show ?thesis
    proof (cases "char = quoteToken \<and> \<not> esc")
      case True
      with no_escape show ?thesis unfolding split_body by auto
    next
      case not_quote: False
      have "scan_string_loop e path esc (char # inp) = (Inr t, r) \<longleftrightarrow>
          (\<exists>u. t = (char # u) @ [quoteToken] \<and> string_body False u \<and> char # inp = t @ r)"
        using 2(2)[OF no_escape not_quote] no_escape not_quote
        by (simp only: scan_string_loop.simps if_False cons_result string_body_Cons_iff simp_thms)
      with no_escape not_quote show ?thesis
        unfolding split_body by auto
    qed
  qed
qed simp

lemma trimSpace_length: "trimSpace e inp = (res, r) \<Longrightarrow> length r \<le> length inp"
  by (induction e inp arbitrary: res rule: trimSpace.induct) (auto split: if_splits prod.splits sum.splits)

lemma scan_with_Inr:
  "scan_with s path blk = (Inr t, r, w') \<longleftrightarrow>
     (\<exists>w. blk = (Inr t, r, w) \<and> run_fns (selectorsForPath (Selectors s) path) t w = (None, w'))"
  by (cases blk rule: prod_cases3) (auto simp: scan_with_def Let_def split: sum.splits option.splits prod.splits)

lemma scan_after_Inr: "scan_after t res = (Inr u, r, w) \<longleftrightarrow> (\<exists>v. u = t @ v \<and> res = (Inr v, r, w))"
  by (cases res rule: prod_cases3) (auto simp: scan_after_def split: sum.splits)

lemma scanString_shorter: "scanString s path inp w = (Inr t, r, w') \<Longrightarrow> length r < length inp"
  by (auto simp: scanString_def Let_def scan_with_Inr scan_string_Inr trimSpace_Inr
      split: prod.splits sum.splits list.splits if_splits)

lemma scanNull_shorter: "scanNull s path inp w = (Inr t, r, w') \<Longrightarrow> length r < length inp"
  by (auto simp: scanNull_def scanToken_def scan_with_Inr scan_token_Inr nullTokenUTF8_def split: prod.splits)

lemma scanBoolean_shorter: "scanBoolean s path inp w = (Inr t, r, w') \<Longrightarrow> length r < length inp"
  by (auto simp: scanBoolean_def Let_def scanToken_def scan_with_Inr scan_after_Inr scan_token_Inr trimSpace_Inr
      trueTokenUTF8_def falseTokenUTF8_def split: prod.splits sum.splits list.splits if_splits)

lemma scanNumber_le: "scanNumber s path inp w = (Inr t, r, w') \<Longrightarrow> length r \<le> length inp"
  by (auto simp: scanNumber_def Let_def scan_with_Inr scan_digits_Inr split: prod.splits sum.splits if_splits)

declare trimSpace.simps [simp del] scan_digits.simps [simp del] scan_string_loop.simps [simp del]

subsection \<open>Reading success backwards\<close>

named_theorems scan_inv \<open>what a successful scan step must have done\<close>

lemma scan_inv_pair [scan_inv]:
  "(case X of (Inl err, rest) \<Rightarrow> (Inl (E err rest), A err rest, B err rest) | (Inr u, rest) \<Rightarrow> F u rest) = (Inr t, r, w') \<longleftrightarrow>
     (\<exists>u rest. X = (Inr u, rest) \<and> F u rest = (Inr t, r, w'))"
  by (cases X; cases "fst X") auto

lemma scan_inv_triple [scan_inv]:
  "(case X of (Inl err, rest, w) \<Rightarrow> (Inl (E err rest w), A err rest w, B err rest w) | (Inr u, rest, w) \<Rightarrow> F u rest w) =
     (Inr t, r, w') \<longleftrightarrow> (\<exists>u rest w. X = (Inr u, rest, w) \<and> F u rest w = (Inr t, r, w'))"
  by (cases X rule: prod_cases3; cases "fst X") auto

lemma scan_inv_list [scan_inv]:
  "(case xs of [] \<Rightarrow> (Inl e, a) | c # cs \<Rightarrow> F c cs) = (Inr t, y) \<longleftrightarrow> (\<exists>c cs. xs = c # cs \<and> F c cs = (Inr t, y))"
  by (cases xs) auto

lemma scan_inv_option [scan_inv]:
  "(case x of None \<Rightarrow> (Inl e, a) | Some k \<Rightarrow> F k) = (Inr t, y) \<longleftrightarrow> (\<exists>k. x = Some k \<and> F k = (Inr t, y))"
  by (cases x) auto

lemma scan_inv_if [scan_inv]:
  "(if b then X else Y) = (Inr t, y) \<longleftrightarrow> b \<and> X = (Inr t, y) \<or> \<not> b \<and> Y = (Inr t, y)"
  by auto

declare scan_with_Inr [scan_inv] scan_after_Inr [scan_inv]

subsection \<open>Termination\<close>

abbreviation scan_dom where
  "scan_dom \<equiv> scan_scanArray_scan_values_scanObject_scan_members_dom"

lemmas scan_pinduct = scan_scanArray_scan_values_scanObject_scan_members.pinduct

lemma scan_partial_le:
  "scan_dom (Inl (Inl (s, path, inp, w))) \<Longrightarrow> \<forall>t r w'. scan s path inp w = (Inr t, r, w') \<longrightarrow> length r \<le> length inp"
  "scan_dom (Inl (Inr (s, path, inp, w))) \<Longrightarrow> \<forall>t r w'. scanArray s path inp w = (Inr t, r, w') \<longrightarrow> length r \<le> length inp"
  "scan_dom (Inr (Inl (s, path, i, inp, w))) \<Longrightarrow> \<forall>t r w'. scan_values s path i inp w = (Inr t, r, w') \<longrightarrow> length r \<le> length inp"
  "scan_dom (Inr (Inr (Inl (s, path, inp, w)))) \<Longrightarrow> \<forall>t r w'. scanObject s path inp w = (Inr t, r, w') \<longrightarrow> length r \<le> length inp"
  "scan_dom (Inr (Inr (Inr (s, path, inp, w)))) \<Longrightarrow> \<forall>t r w'. scan_members s path inp w = (Inr t, r, w') \<longrightarrow> length r \<le> length inp"
proof (induction s path inp w and s path inp w and s path i inp w and s path inp w and s path inp w rule: scan_pinduct)
  case (1 s path inp w)
  then show ?case
    by (fastforce simp: scan.psimps scan_inv split: if_splits
        dest: trimSpace_length scanString_shorter scanNull_shorter scanBoolean_shorter scanNumber_le)
next
  case (2 s path inp w)
  have rest_le: "length r \<le> length (c2 # rest4)"
    if "trimSpace (rerr s) inp = (Inr ws, arrayOpenToken # c1 # rest2)" "c1 \<noteq> arrayCloseToken"
      "trimSpace (rerr s) (c1 # rest2) = (Inr ws1, c2 # rest4)" "c2 \<noteq> arrayCloseToken"
      "scan_values s (Path_With path KindArray) 0 (c2 # rest4) w = (Inr v, r, w1)"
    for ws c1 rest2 ws1 c2 rest4 v r w1
    using 2(2)[OF refl that(1)[symmetric] refl refl _ refl that(2) that(3)[symmetric] refl refl that(4)] that(5)
    by simp
  show ?case
    apply (intro allI impI)
    apply (simp add: scanArray.psimps[OF 2(1)] Let_def scan_inv)
    apply (elim exE conjE disjE; simp only: prod.inject)
    subgoal by (auto dest!: trimSpace_length)
    subgoal by (auto dest!: trimSpace_length)
    subgoal premises p for t r w' w2 ws rest rest1 c1 rest2 ws1 rest3 c2 rest4 v
      using rest_le[OF p(2) p(5) p(6) p(8) p(10)] trimSpace_length[OF p(2)] trimSpace_length[OF p(6)] by simp
    done
next
  case (3 s path i inp w)
  have scan_le: "length r \<le> length y"
    if "trimSpace (rerr s) inp = (Inr ws, y)" "scan s (Path_With path (KindElement (Some i))) y w = (Inr v, r, w1)"
    for ws y v r w1
    using 3(2)[OF that(1)[symmetric] refl] that(2) by simp
  have rest_le: "length r' \<le> length x"
    if "trimSpace (rerr s) inp = (Inr ws, y)" "scan s (Path_With path (KindElement (Some i))) y w = (Inr v, r, w1)"
      "trimSpace (rerr s) r = (Inr ws1, valueSepToken # x)" "scan_values s path (i + 1) x w1 = (Inr u, r', w2)"
    for ws y v r w1 ws1 x u r' w2
    using 3(3)[OF that(1)[symmetric] refl that(2)[symmetric] refl refl that(3)[symmetric] refl refl refl] that(4)
    by simp
  show ?case
    apply (intro allI impI)
    apply (simp add: scan_values.psimps[OF 3(1)] scan_inv)
    apply (elim exE conjE disjE)
    subgoal premises p
      using trimSpace_length[OF p(1)] trimSpace_length[OF p(3)] scan_le[OF p(1,2)]
        rest_le[OF p(1,2) p(3)[unfolded p(4) p(5)] p(7)] p(4) by simp
    subgoal premises p
      using trimSpace_length[OF p(1)] trimSpace_length[OF p(3)] scan_le[OF p(1,2)] p(3-) by simp
    done
next
  case (4 s path inp w)
  have rest_le: "length r \<le> length (c1 # rest2)"
    if "trimSpace (rerr s) inp = (Inr ws, objectOpenToken # rest1)"
      "trimSpace (rerr s) rest1 = (Inr ws1, c1 # rest2)" "c1 \<noteq> objectCloseToken"
      "scan_members s (Path_With path KindObject) (c1 # rest2) w = (Inr v, r, w1)"
    for ws rest1 ws1 c1 rest2 v r w1
    using 4(2)[OF refl that(1)[symmetric] refl refl _ that(2)[symmetric] refl refl that(3)] that(4)
    by simp
  show ?case
    apply (intro allI impI)
    apply (simp add: scanObject.psimps[OF 4(1)] Let_def scan_inv)
    apply (elim exE conjE disjE; simp only: prod.inject)
    subgoal by (auto dest!: trimSpace_length)
    subgoal premises p
      using rest_le[OF p(2) p(4) p(6) p(8)] trimSpace_length[OF p(2)] trimSpace_length[OF p(4)] by simp
    done
next
  case (5 s path inp w)
  have scan_le: "length r1 \<le> length z"
    if "trimSpace (rerr s) inp = (Inr ws, y)" "scanString s (Path_With path KindName) y w = (Inr nm, r, w1)"
      "trimSpace (rerr s) r = (Inr ws1, nameSepToken # x)" "trimSpace (rerr s) x = (Inr ws2, z)"
      "scan s (Path_With path (KindValue (Some (object_value_name nm)))) z w1 = (Inr v, r1, w2)"
    for ws y nm r w1 ws1 x ws2 z v r1 w2
    using 5(2)[OF that(1)[symmetric] refl that(2)[symmetric] refl refl that(3)[symmetric] refl refl _
        that(4)[symmetric] refl] that(5) by simp
  have rest_le: "length r' \<le> length x2"
    if "trimSpace (rerr s) inp = (Inr ws, y)" "scanString s (Path_With path KindName) y w = (Inr nm, r, w1)"
      "trimSpace (rerr s) r = (Inr ws1, nameSepToken # x)" "trimSpace (rerr s) x = (Inr ws2, z)"
      "scan s (Path_With path (KindValue (Some (object_value_name nm)))) z w1 = (Inr v, r1, w2)"
      "trimSpace (rerr s) r1 = (Inr ws3, c # x2)" "c \<noteq> objectCloseToken" "c = valueSepToken"
      "scan_members s path x2 w2 = (Inr u, r', w3)"
    for ws y nm r w1 ws1 x ws2 z v r1 w2 ws3 x2 c u r' w3
    using 5(3)[OF that(1)[symmetric] refl that(2)[symmetric] refl refl that(3)[symmetric] refl refl _
        that(4)[symmetric] refl that(5)[symmetric] refl refl that(6)[symmetric] refl refl that(7,8)] that(9)
    by simp
  show ?case
    apply (intro allI impI)
    apply (simp add: scan_members.psimps[OF 5(1)] scan_inv)
    apply (elim exE conjE disjE; simp only: prod.inject)
    subgoal premises p
      using scan_le[OF p(1,2,3,5,6)] trimSpace_length[OF p(1)] scanString_shorter[OF p(2)] trimSpace_length[OF p(3)]
        trimSpace_length[OF p(5)] trimSpace_length[OF p(7)] by simp
    subgoal premises p
      using scan_le[OF p(1,2,3,5,6)] rest_le[OF p(1,2,3,5,6,7,9) refl p(12)] trimSpace_length[OF p(1)]
        scanString_shorter[OF p(2)] trimSpace_length[OF p(3)] trimSpace_length[OF p(5)] trimSpace_length[OF p(7)]
      by simp
    done
qed

lemma scan_partial_dest:
  "(Inr t, r, w') = scan s path inp w \<Longrightarrow> scan_dom (Inl (Inl (s, path, inp, w))) \<Longrightarrow> length r \<le> length inp"
  using scan_partial_le(1) by metis

termination scan
  apply (relation "measure (\<lambda>x. case x of
      Inl (Inl (s, p, inp, w)) \<Rightarrow> 3 * length inp + 1
    | Inl (Inr (s, p, inp, w)) \<Rightarrow> 3 * length inp
    | Inr (Inl (s, p, i, inp, w)) \<Rightarrow> 3 * length inp + 2
    | Inr (Inr (Inl (s, p, inp, w))) \<Rightarrow> 3 * length inp
    | Inr (Inr (Inr (s, p, inp, w))) \<Rightarrow> 3 * length inp + 2)")
  by (auto dest!: trimSpace_length[OF sym] scanString_shorter[OF sym] scan_partial_dest)

declare scan.simps [simp del] scanArray.simps [simp del] scan_values.simps [simp del]
  scanObject.simps [simp del] scan_members.simps [simp del]

section \<open>Documents\<close>

text \<open>
  The documents the scanner is for, with their layout: a value, and the elements or members of a
  non-empty container with the white space before and after each part.
\<close>

datatype jdoc =
    JNull
  | JTrue
  | JFalse
  | JNumber runes
  | JString runes
  | JEmptyArray runes
  | JArray jelems
  | JEmptyObject runes
  | JObject jmembers
and jelems =
    ELast runes jdoc runes
  | EMore runes jdoc runes jelems
and jmembers =
    MLast runes runes runes runes jdoc runes
  | MMore runes runes runes runes jdoc runes jmembers

definition quoted :: "runes \<Rightarrow> runes" where
  "quoted str = quoteToken # str @ [quoteToken]"

primrec jtext :: "jdoc \<Rightarrow> runes"
  and etext :: "jelems \<Rightarrow> runes"
  and mtext :: "jmembers \<Rightarrow> runes" where
  "jtext JNull = nullTokenUTF8"
| "jtext JTrue = trueTokenUTF8"
| "jtext JFalse = falseTokenUTF8"
| "jtext (JNumber ds) = ds"
| "jtext (JString str) = quoted str"
| "jtext (JEmptyArray ws) = arrayOpenToken # ws @ [arrayCloseToken]"
| "jtext (JArray es) = arrayOpenToken # etext es"
| "jtext (JEmptyObject ws) = objectOpenToken # ws @ [objectCloseToken]"
| "jtext (JObject ms) = objectOpenToken # mtext ms"
| "etext (ELast ws d ws1) = ws @ jtext d @ ws1 @ [arrayCloseToken]"
| "etext (EMore ws d ws1 es) = ws @ jtext d @ ws1 @ valueSepToken # etext es"
| "mtext (MLast ws key ws1 ws2 d ws3) = ws @ quoted key @ ws1 @ nameSepToken # ws2 @ jtext d @ ws3 @ [objectCloseToken]"
| "mtext (MMore ws key ws1 ws2 d ws3 ms) =
     ws @ quoted key @ ws1 @ nameSepToken # ws2 @ jtext d @ ws3 @ valueSepToken # mtext ms"

definition white :: "runes \<Rightarrow> bool" where
  "white ws \<longleftrightarrow> list_all (\<lambda>c. c \<in> set whitespaceChars) ws"

primrec jok :: "(runes \<Rightarrow> bool) \<Rightarrow> jdoc \<Rightarrow> bool"
  and eok :: "(runes \<Rightarrow> bool) \<Rightarrow> jelems \<Rightarrow> bool"
  and mok :: "(runes \<Rightarrow> bool) \<Rightarrow> jmembers \<Rightarrow> bool" where
  "jok valid JNull = True"
| "jok valid JTrue = True"
| "jok valid JFalse = True"
| "jok valid (JNumber ds) = (ds \<noteq> [] \<and> list_all (\<lambda>c. c \<in> set numberChars) ds \<and> valid ds)"
| "jok valid (JString str) = string_body False str"
| "jok valid (JEmptyArray ws) = white ws"
| "jok valid (JArray es) = eok valid es"
| "jok valid (JEmptyObject ws) = white ws"
| "jok valid (JObject ms) = mok valid ms"
| "eok valid (ELast ws d ws1) = (white ws \<and> jok valid d \<and> white ws1)"
| "eok valid (EMore ws d ws1 es) = (white ws \<and> jok valid d \<and> white ws1 \<and> eok valid es)"
| "mok valid (MLast ws key ws1 ws2 d ws3) =
     (white ws \<and> string_body False key \<and> white ws1 \<and> white ws2 \<and> jok valid d \<and> white ws3)"
| "mok valid (MMore ws key ws1 ws2 d ws3 ms) =
     (white ws \<and> string_body False key \<and> white ws1 \<and> white ws2 \<and> jok valid d \<and> white ws3 \<and> mok valid ms)"

text \<open>What follows a number must end it; every other value shows its own end.\<close>

definition jends :: "jdoc \<Rightarrow> runes \<Rightarrow> bool" where
  "jends d rest = (case d of JNumber _ \<Rightarrow> (case rest of [] \<Rightarrow> False | c # _ \<Rightarrow> c \<notin> set numberChars) | _ \<Rightarrow> True)"

text \<open>The calls of selectors a document at a path causes: a value's own calls follow those of its parts.\<close>

definition calls_at :: "'w Selector list \<Rightarrow> Path \<Rightarrow> runes \<Rightarrow> ((runes \<Rightarrow> 'w \<Rightarrow> go_error option \<times> 'w) \<times> runes) list" where
  "calls_at sels path text = map (\<lambda>fn. (fn, text)) (selectorsForPath sels path)"

primrec jcalls :: "'w Selector list \<Rightarrow> Path \<Rightarrow> jdoc \<Rightarrow> ((runes \<Rightarrow> 'w \<Rightarrow> go_error option \<times> 'w) \<times> runes) list"
  and ecalls :: "'w Selector list \<Rightarrow> Path \<Rightarrow> int \<Rightarrow> jelems \<Rightarrow> ((runes \<Rightarrow> 'w \<Rightarrow> go_error option \<times> 'w) \<times> runes) list"
  and mcalls :: "'w Selector list \<Rightarrow> Path \<Rightarrow> jmembers \<Rightarrow> ((runes \<Rightarrow> 'w \<Rightarrow> go_error option \<times> 'w) \<times> runes) list" where
  "jcalls sels p JNull = calls_at sels (p @ [KindNull]) (jtext JNull)"
| "jcalls sels p JTrue = calls_at sels (p @ [KindBoolean]) (jtext JTrue)"
| "jcalls sels p JFalse = calls_at sels (p @ [KindBoolean]) (jtext JFalse)"
| "jcalls sels p (JNumber ds) = calls_at sels (p @ [KindNumber]) ds"
| "jcalls sels p (JString str) = calls_at sels (p @ [KindString]) (quoted str)"
| "jcalls sels p (JEmptyArray ws) = calls_at sels (p @ [KindArray]) (jtext (JEmptyArray ws))"
| "jcalls sels p (JArray es) = ecalls sels (p @ [KindArray]) 0 es @ calls_at sels (p @ [KindArray]) (jtext (JArray es))"
| "jcalls sels p (JEmptyObject ws) = calls_at sels (p @ [KindObject]) (jtext (JEmptyObject ws))"
| "jcalls sels p (JObject ms) = mcalls sels (p @ [KindObject]) ms @ calls_at sels (p @ [KindObject]) (jtext (JObject ms))"
| "ecalls sels p i (ELast ws d ws1) = jcalls sels (p @ [KindElement (Some i)]) d"
| "ecalls sels p i (EMore ws d ws1 es) = jcalls sels (p @ [KindElement (Some i)]) d @ ecalls sels p (i + 1) es"
| "mcalls sels p (MLast ws key ws1 ws2 d ws3) =
     calls_at sels (p @ [KindName, KindString]) (quoted key) @ jcalls sels (p @ [KindValue (Some key)]) d"
| "mcalls sels p (MMore ws key ws1 ws2 d ws3 ms) =
     calls_at sels (p @ [KindName, KindString]) (quoted key) @ jcalls sels (p @ [KindValue (Some key)]) d @ mcalls sels p ms"

fun run_calls :: "((runes \<Rightarrow> 'w \<Rightarrow> go_error option \<times> 'w) \<times> runes) list \<Rightarrow> 'w \<Rightarrow> go_error option \<times> 'w" where
  "run_calls [] w = (None, w)"
| "run_calls ((fn, data) # cs) w =
     (case fn data w of (Some err, w') \<Rightarrow> (Some err, w') | (None, w') \<Rightarrow> run_calls cs w')"

lemma run_calls_append:
  "run_calls (as @ bs) w = (None, w') \<longleftrightarrow> (\<exists>w1. run_calls as w = (None, w1) \<and> run_calls bs w1 = (None, w'))"
  by (induction as w rule: run_calls.induct) (auto split: prod.splits option.splits)

lemma run_fns_calls: "run_fns (selectorsForPath sels path) t w = run_calls (calls_at sels path t) w"
proof -
  have "run_fns fns t w = run_calls (map (\<lambda>fn. (fn, t)) fns) w" for fns :: "(runes \<Rightarrow> 'a \<Rightarrow> go_error option \<times> 'a) list"
    by (induction fns t w rule: run_fns.induct) (auto split: prod.splits option.splits)
  then show ?thesis by (simp add: calls_at_def)
qed

lemma white_subset: "white ws \<longleftrightarrow> set ws \<subseteq> set whitespaceChars"
  by (auto simp: white_def list_all_iff)

lemma white_simps [simp]: "white []" "white (c # cs) \<longleftrightarrow> c \<in> set whitespaceChars \<and> white cs" "white (xs @ ys) \<longleftrightarrow> white xs \<and> white ys"
  by (simp_all add: white_def)

section \<open>The scanner reads documents\<close>

declare scan_token_loop.simps [simp del]

lemma scanToken_iff:
  "scanToken s p token inp w = (Inr t, r, w') \<longleftrightarrow>
     t = token \<and> inp = t @ r \<and> run_calls (calls_at (Selectors s) p t) w = (None, w')"
proof -
  have "(case X of (res, rest) \<Rightarrow> (res, rest, w)) = (Inr t, r, w1) \<longleftrightarrow> X = (Inr t, r) \<and> w1 = w"
    for X :: "(jt_error + runes) \<times> runes" and w1
    by (cases X) auto
  then show ?thesis
    by (auto simp: scanToken_def scan_with_Inr scan_token_Inr run_fns_calls)
qed

lemma scan_leaf_iff:
  "scanNull s p inp w = (Inr t, r, w') \<longleftrightarrow>
     t = nullTokenUTF8 \<and> inp = t @ r \<and> run_calls (calls_at (Selectors s) (p @ [KindNull]) t) w = (None, w')"
  "scanNumber s p inp w = (Inr t, r, w') \<longleftrightarrow>
     list_all (\<lambda>c. c \<in> set numberChars) t \<and> r \<noteq> [] \<and> hd r \<notin> set numberChars \<and> json_Valid s t \<and> inp = t @ r \<and>
     run_calls (calls_at (Selectors s) (p @ [KindNumber]) t) w = (None, w')"
  "scanString s p inp w = (Inr t, r, w') \<longleftrightarrow>
     (\<exists>ws str. white ws \<and> string_body False str \<and> t = ws @ quoted str \<and> inp = t @ r \<and>
        run_calls (calls_at (Selectors s) (p @ [KindString]) t) w = (None, w'))"
proof -
  show "scanNull s p inp w = (Inr t, r, w') \<longleftrightarrow>
     t = nullTokenUTF8 \<and> inp = t @ r \<and> run_calls (calls_at (Selectors s) (p @ [KindNull]) t) w = (None, w')"
    by (simp add: scanNull_def scanToken_iff Path_With_def)
  show "scanNumber s p inp w = (Inr t, r, w') \<longleftrightarrow>
     list_all (\<lambda>c. c \<in> set numberChars) t \<and> r \<noteq> [] \<and> hd r \<notin> set numberChars \<and> json_Valid s t \<and> inp = t @ r \<and>
     run_calls (calls_at (Selectors s) (p @ [KindNumber]) t) w = (None, w')"
    by (auto simp: scanNumber_def Let_def Path_With_def scan_inv scan_digits_Inr run_fns_calls list_all_iff)
  have quote: "quoteToken \<notin> set whitespaceChars"
    by (simp add: quoteToken_def whitespaceChars_def)
  show "scanString s p inp w = (Inr t, r, w') \<longleftrightarrow>
     (\<exists>ws str. white ws \<and> string_body False str \<and> t = ws @ quoted str \<and> inp = t @ r \<and>
        run_calls (calls_at (Selectors s) (p @ [KindString]) t) w = (None, w'))" (is "?L \<longleftrightarrow> ?R")
  proof
    assume ?L
    then show ?R
      by (auto simp: scanString_def Let_def Path_With_def scan_inv trimSpace_Inr scan_string_Inr run_fns_calls
          white_subset quoted_def)
  next
    assume ?R
    then obtain ws str where "white ws" "string_body False str" "t = ws @ quoted str" "inp = t @ r"
      and "run_calls (calls_at (Selectors s) (p @ [KindString]) t) w = (None, w')" by blast
    moreover from this quote have "trimSpace (rerr s) inp = (Inr ws, quoteToken # str @ quoteToken # r)"
      by (simp add: trimSpace_Inr white_subset quoted_def)
    moreover from calculation have "scan_string_loop (rerr s) (p @ [KindString]) False (str @ quoteToken # r) = (Inr (str @ [quoteToken]), r)"
      by (simp add: scan_string_Inr)
    ultimately show ?L
      by (simp add: scanString_def Let_def Path_With_def scan_with_Inr run_fns_calls quoted_def)
  qed
qed

lemma scanBoolean_iff:
  assumes "inp \<noteq> []" "hd inp \<notin> set whitespaceChars"
  shows "scanBoolean s p inp w = (Inr t, r, w') \<longleftrightarrow>
     (t = trueTokenUTF8 \<or> t = falseTokenUTF8) \<and> inp = t @ r \<and>
     run_calls (calls_at (Selectors s) (p @ [KindBoolean]) t) w = (None, w')"
proof -
  have "trimSpace (rerr s) inp = (Inr [], inp)" using assms by (simp add: trimSpace_Inr)
  with assms show ?thesis
    by (auto simp: scanBoolean_def scanToken_iff Let_def Path_With_def scan_inv trueTokenUTF8_def falseTokenUTF8_def)
qed

lemma trim_idem: "trimSpace e y = (Inr ws, z) \<Longrightarrow> trimSpace e z = (Inr [], z)"
  by (simp add: trimSpace_Inr)

lemma scan_after_simps [simp]:
  "scan_after [] x = x" "scan_after ws (scan_after us x) = scan_after (ws @ us) x"
  "scan_after ws (Inl err, y) = (Inl err, y)" "scan_after ws (Inr u, y) = (Inr (ws @ u), y)"
  by (cases x rule: prod_cases3; cases "fst x"; cases y; simp add: scan_after_def)+

lemma scan_absorb:
  assumes "trimSpace (rerr s) y = (Inr ws, z)"
  shows "scan_after ws (scan s p z w) = scan s p y w"
    "scan_after ws (scan_values s p i z w) = scan_values s p i y w"
    "scan_after ws (scan_members s p z w) = scan_members s p y w"
  using assms trim_idem[OF assms]
  by (auto simp: scan.simps scan_values.simps scan_members.simps split: prod.splits sum.splits list.splits)

lemmas scan_char_defs = whitespaceChars_def numberChars_def arrayOpenToken_def arrayCloseToken_def valueSepToken_def
  objectOpenToken_def objectCloseToken_def nameSepToken_def quoteToken_def

lemma trimSpace_exact: "c \<notin> set whitespaceChars \<Longrightarrow> trimSpace e (c # z) = (Inr [], c # z)"
  by (simp add: trimSpace_Inr)

lemma ex_rest_iff:
  "(\<exists>rest. X = (u, rest) \<and> (\<exists>c cs. rest = c # cs \<and> F c cs)) \<longleftrightarrow> (\<exists>c cs. X = (u, c # cs) \<and> F c cs)"
  "(\<exists>rest. X = (u, rest) \<and> (\<exists>cs. rest = k # cs \<and> G cs)) \<longleftrightarrow> (\<exists>cs. X = (u, k # cs) \<and> G cs)"
  by auto

lemma scan_values_iff:
  "scan_values s p i inp w = (Inr t, r, w') \<longleftrightarrow>
     (\<exists>ws y v r1 w1 ws1 c r2. trimSpace (rerr s) inp = (Inr ws, y) \<and>
        scan s (p @ [KindElement (Some i)]) y w = (Inr v, r1, w1) \<and> trimSpace (rerr s) r1 = (Inr ws1, c # r2) \<and>
        (c = valueSepToken \<and> (\<exists>u. t = ws @ v @ ws1 @ c # u \<and> scan_values s p (i + 1) r2 w1 = (Inr u, r, w')) \<or>
         c = arrayCloseToken \<and> t = ws @ v @ ws1 @ [c] \<and> r = r2 \<and> w' = w1))"
proof -
  have "arrayCloseToken \<noteq> valueSepToken" by (simp add: scan_char_defs)
  then show ?thesis
    by (subst scan_values.simps, simp add: scan_inv Path_With_def ex_rest_iff)
      (intro ex_cong1 conj_cong refl; auto)
qed

lemma scan_members_iff:
  "scan_members s p inp w = (Inr t, r, w') \<longleftrightarrow>
     (\<exists>ws y nm r1 w1 ws1 x ws2 z v r2 w2 ws3 c r3. trimSpace (rerr s) inp = (Inr ws, y) \<and>
        scanString s (p @ [KindName]) y w = (Inr nm, r1, w1) \<and> trimSpace (rerr s) r1 = (Inr ws1, nameSepToken # x) \<and>
        trimSpace (rerr s) x = (Inr ws2, z) \<and>
        scan s (p @ [KindValue (Some (object_value_name nm))]) z w1 = (Inr v, r2, w2) \<and>
        trimSpace (rerr s) r2 = (Inr ws3, c # r3) \<and>
        (c = valueSepToken \<and> (\<exists>u. t = ws @ nm @ ws1 @ nameSepToken # ws2 @ v @ ws3 @ c # u \<and>
             scan_members s p r3 w2 = (Inr u, r, w')) \<or>
         c = objectCloseToken \<and> t = ws @ nm @ ws1 @ nameSepToken # ws2 @ v @ ws3 @ [c] \<and> r = r3 \<and> w' = w2))"
proof -
  have "objectCloseToken \<noteq> valueSepToken" by (simp add: scan_char_defs)
  then show ?thesis
    by (subst scan_members.simps, simp add: scan_inv Path_With_def ex_rest_iff)
      (intro ex_cong1 conj_cong refl; auto)
qed

lemma scan_values_no_close: "scan_values s p i inp w = (Inr t, r, w') \<Longrightarrow> trimSpace (rerr s) inp \<noteq> (Inr ws, arrayCloseToken # z)"
proof
  assume ok: "scan_values s p i inp w = (Inr t, r, w')" and "trimSpace (rerr s) inp = (Inr ws, arrayCloseToken # z)"
  with iffD1[OF scan_values_iff ok] obtain v r1 w1 where "scan s (p @ [KindElement (Some i)]) (arrayCloseToken # z) w = (Inr v, r1, w1)"
    by auto
  then show False
    by (simp add: scan.simps trimSpace_exact tokenStartKind_def scan_char_defs)
qed

lemma scan_members_no_close: "scan_members s p inp w = (Inr t, r, w') \<Longrightarrow> trimSpace (rerr s) inp \<noteq> (Inr ws, objectCloseToken # z)"
proof
  assume ok: "scan_members s p inp w = (Inr t, r, w')" and "trimSpace (rerr s) inp = (Inr ws, objectCloseToken # z)"
  with iffD1[OF scan_members_iff ok] obtain nm r1 w1 where "scanString s (p @ [KindName]) (objectCloseToken # z) w = (Inr nm, r1, w1)"
    by auto
  then show False
    by (auto simp: scan_leaf_iff Cons_eq_append_conv white_def quoted_def scan_char_defs)
qed

lemma scan_after_Cons: "scan_after (c # ws) x = scan_after [c] (scan_after ws x)"
  by simp

lemma scanArray_eq:
  assumes "c \<notin> set whitespaceChars"
  shows "scanArray s p (c # inp) w = scan_with s (p @ [KindArray])
    (if c \<noteq> arrayOpenToken then
       (Inl (LexingError ''unexpected array open token, expected [ but got %c'' (p @ [KindArray])), inp, w)
     else (case trimSpace (rerr s) inp of
             (Inl err, rest) \<Rightarrow> (Inl err, rest, w)
           | (Inr ws, rest) \<Rightarrow>
               if rest \<noteq> [] \<and> hd rest = arrayCloseToken then (Inr (c # ws @ [arrayCloseToken]), tl rest, w)
               else scan_after [c] (scan_values s (p @ [KindArray]) 0 inp w)))"
proof -
  have close: "arrayCloseToken \<notin> set whitespaceChars" by (simp add: scan_char_defs)
  show ?thesis
  proof (cases inp)
    case Nil
    with assms show ?thesis by (simp add: scanArray.simps trimSpace_exact Let_def Path_With_def trimSpace.simps)
  next
    case (Cons c1 inp1)
    obtain res rest where trim: "trimSpace (rerr s) inp = (res, rest)" by force
    show ?thesis
    proof (cases res)
      case (Inl err)
      with trim Cons assms close show ?thesis
        by (auto simp: scanArray.simps trimSpace_exact Let_def Path_With_def)
    next
      case (Inr ws)
      with trim have "rest \<noteq> []" by (simp add: trimSpace_Inr)
      moreover have "scan_after (k # ws) (scan_values s (p @ [KindArray]) 0 rest w) =
          scan_after [k] (scan_values s (p @ [KindArray]) 0 inp w)" for k
        using trim Inr scan_absorb(2)[of s inp ws rest] by (simp only: scan_after_Cons[of _ ws])
      ultimately show ?thesis
        using trim Inr Cons assms close
        by (auto simp: scanArray.simps trimSpace_exact Let_def Path_With_def split: list.splits)
    qed
  qed
qed

lemma scanObject_eq:
  assumes "c \<notin> set whitespaceChars"
  shows "scanObject s p (c # inp) w = scan_with s (p @ [KindObject])
    (if c \<noteq> objectOpenToken then
       (Inl (LexingError ''unexpected object open token, expected { but got %c'' (p @ [KindObject])), inp, w)
     else (case trimSpace (rerr s) inp of
             (Inl err, rest) \<Rightarrow> (Inl err, rest, w)
           | (Inr ws, rest) \<Rightarrow>
               if rest \<noteq> [] \<and> hd rest = objectCloseToken then (Inr (c # ws @ [objectCloseToken]), tl rest, w)
               else scan_after [c] (scan_members s (p @ [KindObject]) inp w)))"
proof -
  obtain res rest where trim: "trimSpace (rerr s) inp = (res, rest)" by force
  show ?thesis
  proof (cases res)
    case (Inl err)
    with trim assms show ?thesis
      by (auto simp: scanObject.simps trimSpace_exact Let_def Path_With_def)
  next
    case (Inr ws)
    with trim have "rest \<noteq> []" by (simp add: trimSpace_Inr)
    moreover have "scan_after (k # ws) (scan_members s (p @ [KindObject]) rest w) =
        scan_after [k] (scan_members s (p @ [KindObject]) inp w)" for k
      using trim Inr scan_absorb(3)[of s inp ws rest] by (simp only: scan_after_Cons[of _ ws])
    ultimately show ?thesis
      using trim Inr assms
      by (auto simp: scanObject.simps trimSpace_exact Let_def Path_With_def split: list.splits)
  qed
qed

text \<open>What a container holds after its opening token: nothing but white space, or its contents.\<close>

lemma container_Inr:
  assumes "close \<notin> set whitespaceChars"
    and "\<And>u r w1 ws z. body = (Inr u, r, w1) \<Longrightarrow> trimSpace e inp \<noteq> (Inr ws, close # z)"
    and "(\<exists>ws err. trimSpace e inp = (Inl err, ws)) \<Longrightarrow> fst body \<notin> range Inr"
  shows "(case trimSpace e inp of
      (Inl err, rest) \<Rightarrow> (Inl err, rest, w)
    | (Inr ws, rest) \<Rightarrow>
        if rest \<noteq> [] \<and> hd rest = close then (Inr (c # ws @ [close]), tl rest, w) else scan_after [c] body) = (Inr t, r, w1) \<longleftrightarrow>
    (\<exists>u. t = c # u \<and> ((\<exists>ws. white ws \<and> u = ws @ [close] \<and> inp = u @ r \<and> w1 = w) \<or> body = (Inr u, r, w1)))"
    (is "?L \<longleftrightarrow> ?R")
proof -
  obtain res rest where trim: "trimSpace e inp = (res, rest)" by force
  have empty: "(\<exists>ws. white ws \<and> u = ws @ [close] \<and> inp = u @ r \<and> w1 = w) \<longleftrightarrow>
      (\<exists>ws. u = ws @ [close] \<and> trimSpace e inp = (Inr ws, close # r) \<and> w1 = w)" for u
    using assms(1) by (auto simp: trimSpace_Inr white_subset)
  show ?thesis
  proof (cases res)
    case (Inl err)
    with trim assms(3) have "fst body \<notin> range Inr" by blast
    with trim Inl show ?thesis unfolding empty by force
  next
    case (Inr ws)
    show ?thesis
    proof (cases "rest \<noteq> [] \<and> hd rest = close")
      case True
      then obtain z where rest: "rest = close # z" by (cases rest) auto
      with trim Inr assms(2) have "body \<noteq> (Inr u, r, w1)" for u by metis
      with trim Inr rest show ?thesis unfolding empty by auto
    next
      case False
      with trim Inr show ?thesis unfolding empty by (auto simp: scan_after_Inr)
    qed
  qed
qed

lemma scanArray_iff:
  assumes "c \<notin> set whitespaceChars"
  shows "scanArray s p (c # inp) w = (Inr t, r, w') \<longleftrightarrow> c = arrayOpenToken \<and>
    (\<exists>u w1. t = c # u \<and> run_calls (calls_at (Selectors s) (p @ [KindArray]) t) w1 = (None, w') \<and>
       ((\<exists>ws. white ws \<and> u = ws @ [arrayCloseToken] \<and> inp = u @ r \<and> w1 = w) \<or>
        scan_values s (p @ [KindArray]) 0 inp w = (Inr u, r, w1)))"
proof -
  have body: "(case trimSpace (rerr s) inp of
      (Inl err, rest) \<Rightarrow> (Inl err, rest, w)
    | (Inr ws, rest) \<Rightarrow>
        if rest \<noteq> [] \<and> hd rest = arrayCloseToken then (Inr (c # ws @ [arrayCloseToken]), tl rest, w)
        else scan_after [c] (scan_values s (p @ [KindArray]) 0 inp w)) = (Inr t, r, w1) \<longleftrightarrow>
    (\<exists>u. t = c # u \<and> ((\<exists>ws. white ws \<and> u = ws @ [arrayCloseToken] \<and> inp = u @ r \<and> w1 = w) \<or>
       scan_values s (p @ [KindArray]) 0 inp w = (Inr u, r, w1)))" for w1
  proof (rule container_Inr)
    show "arrayCloseToken \<notin> set whitespaceChars" by (simp add: scan_char_defs)
    show "fst (scan_values s (p @ [KindArray]) 0 inp w) \<notin> range Inr"
      if "\<exists>ws err. trimSpace (rerr s) inp = (Inl err, ws)"
      using that by (auto simp: scan_values.simps)
  qed (rule scan_values_no_close)
  show ?thesis
  proof (cases "c = arrayOpenToken")
    case True
    show ?thesis
      unfolding scanArray_eq[OF assms] scan_with_Inr run_fns_calls using True
      by (simp only: True not_True_eq_False if_False simp_thms body[unfolded True]) blast
  next
    case False
    then show ?thesis by (simp add: scanArray_eq[OF assms] scan_with_Inr)
  qed
qed

lemma scanObject_iff:
  assumes "c \<notin> set whitespaceChars"
  shows "scanObject s p (c # inp) w = (Inr t, r, w') \<longleftrightarrow> c = objectOpenToken \<and>
    (\<exists>u w1. t = c # u \<and> run_calls (calls_at (Selectors s) (p @ [KindObject]) t) w1 = (None, w') \<and>
       ((\<exists>ws. white ws \<and> u = ws @ [objectCloseToken] \<and> inp = u @ r \<and> w1 = w) \<or>
        scan_members s (p @ [KindObject]) inp w = (Inr u, r, w1)))"
proof -
  have body: "(case trimSpace (rerr s) inp of
      (Inl err, rest) \<Rightarrow> (Inl err, rest, w)
    | (Inr ws, rest) \<Rightarrow>
        if rest \<noteq> [] \<and> hd rest = objectCloseToken then (Inr (c # ws @ [objectCloseToken]), tl rest, w)
        else scan_after [c] (scan_members s (p @ [KindObject]) inp w)) = (Inr t, r, w1) \<longleftrightarrow>
    (\<exists>u. t = c # u \<and> ((\<exists>ws. white ws \<and> u = ws @ [objectCloseToken] \<and> inp = u @ r \<and> w1 = w) \<or>
       scan_members s (p @ [KindObject]) inp w = (Inr u, r, w1)))" for w1
  proof (rule container_Inr)
    show "objectCloseToken \<notin> set whitespaceChars" by (simp add: scan_char_defs)
    show "fst (scan_members s (p @ [KindObject]) inp w) \<notin> range Inr"
      if "\<exists>ws err. trimSpace (rerr s) inp = (Inl err, ws)"
      using that by (auto simp: scan_members.simps)
  qed (rule scan_members_no_close)
  show ?thesis
  proof (cases "c = objectOpenToken")
    case True
    show ?thesis
      unfolding scanObject_eq[OF assms] scan_with_Inr run_fns_calls using True
      by (simp only: True not_True_eq_False if_False simp_thms body[unfolded True]) blast
  next
    case False
    then show ?thesis by (simp add: scanObject_eq[OF assms] scan_with_Inr)
  qed
qed

lemma tokenStartKind_simps:
  "tokenStartKind c = Some KindNull \<longleftrightarrow> c = 110"
  "tokenStartKind c = Some KindBoolean \<longleftrightarrow> c = 116 \<or> c = 102"
  "tokenStartKind c = Some KindString \<longleftrightarrow> c = 34"
  "tokenStartKind c = Some KindNumber \<longleftrightarrow> c \<in> set numberChars"
  "tokenStartKind c = Some KindArray \<longleftrightarrow> c = 91"
  "tokenStartKind c = Some k \<and> k \<notin> {KindNull, KindBoolean, KindString, KindNumber, KindArray} \<longleftrightarrow> c = 123 \<and> k = KindObject"
  by (auto simp: tokenStartKind_def numberChars_def whitespaceChars_def KindNull_def KindBoolean_def KindString_def
      KindNumber_def KindArray_def KindObject_def)

lemma scan_iff:
  "scan s p inp w = (Inr t, r, w') \<longleftrightarrow>
     (\<exists>ws c z u. trimSpace (rerr s) inp = (Inr ws, c # z) \<and> t = ws @ u \<and>
        (c = 110 \<and> scanNull s p (c # z) w = (Inr u, r, w') \<or>
         (c = 116 \<or> c = 102) \<and> scanBoolean s p (c # z) w = (Inr u, r, w') \<or>
         c = 34 \<and> scanString s p (c # z) w = (Inr u, r, w') \<or>
         c \<in> set numberChars \<and> scanNumber s p (c # z) w = (Inr u, r, w') \<or>
         c = 91 \<and> scanArray s p (c # z) w = (Inr u, r, w') \<or>
         c = 123 \<and> scanObject s p (c # z) w = (Inr u, r, w')))"
proof -
  have kinds: "distinct [KindNull, KindBoolean, KindString, KindNumber, KindArray, KindObject]"
    "distinct [KindObject, KindArray, KindNumber, KindString, KindBoolean, KindNull]"
    by (simp_all add: KindNull_def KindBoolean_def KindString_def KindNumber_def KindArray_def KindObject_def)
  have dispatch: "(\<exists>k. tokenStartKind c = Some k \<and>
      (if k = KindNull then A else if k = KindBoolean then B else if k = KindString then C
       else if k = KindNumber then D else if k = KindArray then E else F) = x) \<longleftrightarrow>
      c = 110 \<and> A = x \<or> (c = 116 \<or> c = 102) \<and> B = x \<or> c = 34 \<and> C = x \<or>
      c \<in> set numberChars \<and> D = x \<or> c = 91 \<and> E = x \<or> c = 123 \<and> F = x"
    for c :: rune and A B C D E F x :: "'a scanned"
  proof (cases "tokenStartKind c")
    case None
    have "c \<noteq> 123" using None by (auto simp: tokenStartKind_def whitespaceChars_def split: if_splits)
    with None show ?thesis unfolding tokenStartKind_simps(1-5)[symmetric] by simp
  next
    case (Some k)
    have "k \<in> {KindNull, KindBoolean, KindString, KindNumber, KindArray} \<or> c = 123 \<and> k = KindObject"
      using Some tokenStartKind_simps(6)[of c k] by blast
    moreover have "c = 123 \<longleftrightarrow> k = KindObject"
    proof
      assume "c = 123"
      moreover have "tokenStartKind 123 = Some KindObject"
        by (simp add: tokenStartKind_def numberChars_def whitespaceChars_def)
      ultimately show "k = KindObject" using Some by simp
    qed (use Some kinds tokenStartKind_simps(6)[of c k] in auto)
    ultimately show ?thesis using Some kinds
      unfolding tokenStartKind_simps(1-5)[symmetric] by (elim disjE insertE; simp)
  qed
  show ?thesis
    by (subst scan.simps)
      (simp only: scan_inv_pair scan_inv_list scan_after_Inr scan_inv_option ex_rest_iff dispatch; blast)
qed

definition jreads :: "'w Scanner \<Rightarrow> Path \<Rightarrow> runes \<Rightarrow> 'w \<Rightarrow> runes \<Rightarrow> runes \<Rightarrow> 'w \<Rightarrow> bool" where
  "jreads s p inp w t r w' \<longleftrightarrow>
     (\<exists>ws d. white ws \<and> jok (json_Valid s) d \<and> jends d r \<and> t = ws @ jtext d \<and> inp = t @ r \<and>
        run_calls (jcalls (Selectors s) p d) w = (None, w'))"

lemma jreadsI:
  "white ws \<Longrightarrow> jok (json_Valid s) d \<Longrightarrow> jends d r \<Longrightarrow> t = ws @ jtext d \<Longrightarrow> inp = t @ r \<Longrightarrow>
     run_calls (jcalls (Selectors s) p d) w = (None, w') \<Longrightarrow> jreads s p inp w t r w'"
  unfolding jreads_def by blast

lemma trimSpace_white: "trimSpace e inp = (Inr ws, z) \<Longrightarrow> white ws \<and> inp = ws @ z"
  by (simp add: trimSpace_Inr white_subset)

lemma scan_values_sound:
  assumes scan_sound: "\<And>p inp' w t r w'. length inp' \<le> n \<Longrightarrow> scan s p inp' w = (Inr t, r, w') \<Longrightarrow> jreads s p inp' w t r w'"
  shows "length inp \<le> n \<Longrightarrow> scan_values s p i inp w = (Inr t, r, w') \<Longrightarrow>
    \<exists>es. eok (json_Valid s) es \<and> t = etext es \<and> inp = t @ r \<and> run_calls (ecalls (Selectors s) p i es) w = (None, w')"
proof (induction inp arbitrary: i w t rule: length_induct)
  case (1 inp)
  obtain ws y v r1 w1 ws1 c r2 where trim: "trimSpace (rerr s) inp = (Inr ws, y)"
    and scan: "scan s (p @ [KindElement (Some i)]) y w = (Inr v, r1, w1)"
    and trim1: "trimSpace (rerr s) r1 = (Inr ws1, c # r2)"
    and rest: "c = valueSepToken \<and> (\<exists>u. t = ws @ v @ ws1 @ c # u \<and> scan_values s p (i + 1) r2 w1 = (Inr u, r, w')) \<or>
         c = arrayCloseToken \<and> t = ws @ v @ ws1 @ [c] \<and> r = r2 \<and> w' = w1"
    using iffD1[OF scan_values_iff 1(3)] by blast
  have y: "white ws" "inp = ws @ y" and r1: "white ws1" "r1 = ws1 @ c # r2"
    using trimSpace_white[OF trim] trimSpace_white[OF trim1] by auto
  with 1(2) have "length y \<le> n" by simp
  then obtain us d where d: "white us" "jok (json_Valid s) d" "v = us @ jtext d" "y = v @ r1"
    and calls: "run_calls (jcalls (Selectors s) (p @ [KindElement (Some i)]) d) w = (None, w1)"
    using scan_sound[OF _ scan] unfolding jreads_def by blast
  from rest show ?case
  proof (elim disjE conjE exE)
    assume c: "c = arrayCloseToken" and "t = ws @ v @ ws1 @ [c]" "r = r2" "w' = w1"
    then show ?thesis using y r1 d calls
      by (intro exI[of _ "ELast (ws @ us) d ws1"]) simp
  next
    fix u assume c: "c = valueSepToken" and t: "t = ws @ v @ ws1 @ c # u"
      and more: "scan_values s p (i + 1) r2 w1 = (Inr u, r, w')"
    have "length r2 < length inp" using y r1 d by simp
    then obtain es where "eok (json_Valid s) es" "u = etext es" "r2 = u @ r"
      "run_calls (ecalls (Selectors s) p (i + 1) es) w1 = (None, w')"
      using 1(1) 1(2) more by (meson le_trans less_imp_le)
    then show ?thesis using c t y r1 d calls
      by (intro exI[of _ "EMore (ws @ us) d ws1 es"]) (auto simp: run_calls_append)
  qed
qed

lemma scan_members_sound:
  assumes scan_sound: "\<And>p inp' w t r w'. length inp' \<le> n \<Longrightarrow> scan s p inp' w = (Inr t, r, w') \<Longrightarrow> jreads s p inp' w t r w'"
  shows "length inp \<le> n \<Longrightarrow> scan_members s p inp w = (Inr t, r, w') \<Longrightarrow>
    \<exists>ms. mok (json_Valid s) ms \<and> t = mtext ms \<and> inp = t @ r \<and> run_calls (mcalls (Selectors s) p ms) w = (None, w')"
proof (induction inp arbitrary: w t rule: length_induct)
  case (1 inp)
  obtain ws y nm r1 w1 ws1 x ws2 z v r2 w2 ws3 c r3 where trim: "trimSpace (rerr s) inp = (Inr ws, y)"
    and name: "scanString s (p @ [KindName]) y w = (Inr nm, r1, w1)"
    and trim1: "trimSpace (rerr s) r1 = (Inr ws1, nameSepToken # x)" "trimSpace (rerr s) x = (Inr ws2, z)"
    and scan: "scan s (p @ [KindValue (Some (object_value_name nm))]) z w1 = (Inr v, r2, w2)"
    and trim2: "trimSpace (rerr s) r2 = (Inr ws3, c # r3)"
    and rest: "c = valueSepToken \<and> (\<exists>u. t = ws @ nm @ ws1 @ nameSepToken # ws2 @ v @ ws3 @ c # u \<and>
             scan_members s p r3 w2 = (Inr u, r, w')) \<or>
         c = objectCloseToken \<and> t = ws @ nm @ ws1 @ nameSepToken # ws2 @ v @ ws3 @ [c] \<and> r = r3 \<and> w' = w2"
    using iffD1[OF scan_members_iff 1(3)] by blast
  have y: "white ws" "inp = ws @ y" "trimSpace (rerr s) y = (Inr [], y)"
    and r1: "white ws1" "r1 = ws1 @ nameSepToken # x" and x: "white ws2" "x = ws2 @ z"
    and r2: "white ws3" "r2 = ws3 @ c # r3"
    using trimSpace_white[OF trim] trim_idem[OF trim] trimSpace_white[OF trim1(1)] trimSpace_white[OF trim1(2)]
      trimSpace_white[OF trim2] by auto
  obtain ks key where key: "white ks" "string_body False key" "nm = ks @ quoted key" "y = nm @ r1"
    and name_calls: "run_calls (calls_at (Selectors s) (p @ [KindName, KindString]) nm) w = (None, w1)"
    using iffD1[OF scan_leaf_iff(3) name] by auto
  have nm: "nm = quoted key"
    using y(3) key by (cases ks) (auto simp: trimSpace_Inr)
  then have nm_key: "object_value_name nm = key"
    by (simp add: object_value_name_def quoted_def)
  have "length z \<le> n" using 1(2) y key r1 x by simp
  then obtain us d where d: "white us" "jok (json_Valid s) d" "v = us @ jtext d" "z = v @ r2"
    and calls: "run_calls (jcalls (Selectors s) (p @ [KindValue (Some key)]) d) w1 = (None, w2)"
    using scan_sound[OF _ scan] unfolding jreads_def nm_key by blast
  from rest show ?case
  proof (elim disjE conjE exE)
    assume c: "c = objectCloseToken" and "t = ws @ nm @ ws1 @ nameSepToken # ws2 @ v @ ws3 @ [c]" "r = r3" "w' = w2"
    then show ?thesis using y r1 x r2 d key nm calls name_calls
      by (intro exI[of _ "MLast ws key ws1 (ws2 @ us) d ws3"]) (auto simp: run_calls_append)
  next
    fix u assume c: "c = valueSepToken" and t: "t = ws @ nm @ ws1 @ nameSepToken # ws2 @ v @ ws3 @ c # u"
      and more: "scan_members s p r3 w2 = (Inr u, r, w')"
    have "length r3 < length inp" using y r1 x r2 d key by simp
    then obtain ms where "mok (json_Valid s) ms" "u = mtext ms" "r3 = u @ r"
      "run_calls (mcalls (Selectors s) p ms) w2 = (None, w')"
      using 1(1) 1(2) more by (meson le_trans less_imp_le)
    then show ?thesis using c t y r1 x r2 d key nm calls name_calls
      by (intro exI[of _ "MMore ws key ws1 (ws2 @ us) d ws3 ms"]) (auto simp: run_calls_append)
  qed
qed

theorem scan_sound: "scan s p inp w = (Inr t, r, w') \<Longrightarrow> jreads s p inp w t r w'"
proof (induction inp arbitrary: p w t r w' rule: length_induct)
  case (1 inp)
  obtain ws c z u where trim: "trimSpace (rerr s) inp = (Inr ws, c # z)" and t: "t = ws @ u"
    and leaf: "c = 110 \<and> scanNull s p (c # z) w = (Inr u, r, w') \<or>
         (c = 116 \<or> c = 102) \<and> scanBoolean s p (c # z) w = (Inr u, r, w') \<or>
         c = 34 \<and> scanString s p (c # z) w = (Inr u, r, w') \<or>
         c \<in> set numberChars \<and> scanNumber s p (c # z) w = (Inr u, r, w') \<or>
         c = 91 \<and> scanArray s p (c # z) w = (Inr u, r, w') \<or>
         c = 123 \<and> scanObject s p (c # z) w = (Inr u, r, w')"
    using iffD1[OF scan_iff 1(2)] by blast
  have ws: "white ws" "inp = ws @ c # z" and c: "c \<notin> set whitespaceChars"
    using trim by (auto simp: trimSpace_Inr white_subset)
  have shorter: "length z < length inp" using ws by simp
  have smaller: "jreads s p' inp' v t' r' v'"
    if "length inp' \<le> length z" "scan s p' inp' v = (Inr t', r', v')" for p' inp' v t' r' v'
    using 1(1) that shorter by simp
  have ends: "jends d r" if "\<And>ds. d \<noteq> JNumber ds" for d
    using that by (cases d) (auto simp: jends_def)
  consider "scanNull s p (c # z) w = (Inr u, r, w')" | "scanBoolean s p (c # z) w = (Inr u, r, w')"
    | "scanString s p (c # z) w = (Inr u, r, w')"
    | "c \<in> set numberChars" "scanNumber s p (c # z) w = (Inr u, r, w')"
    | "scanArray s p (c # z) w = (Inr u, r, w')" | "scanObject s p (c # z) w = (Inr u, r, w')"
    using leaf by blast
  then show ?case
  proof cases
    case 1
    with t ws ends show ?thesis
      by (intro jreadsI[of ws _ JNull]) (auto simp: scan_leaf_iff)
  next
    case 2
    then have "u = trueTokenUTF8 \<or> u = falseTokenUTF8" "c # z = u @ r"
      "run_calls (calls_at (Selectors s) (p @ [KindBoolean]) u) w = (None, w')"
      using c by (simp_all add: scanBoolean_iff)
    with t ws ends jreadsI[of ws s JTrue r t inp p w w'] jreadsI[of ws s JFalse r t inp p w w'] show ?thesis
      by auto
  next
    case 3
    then obtain us str where "white us" "string_body False str" "u = us @ quoted str" "c # z = u @ r"
      "run_calls (calls_at (Selectors s) (p @ [KindString]) u) w = (None, w')"
      by (auto simp: scan_leaf_iff)
    moreover from this c have "us = []" by (cases us) auto
    ultimately show ?thesis using t ws ends
      by (intro jreadsI[of ws _ "JString str"]) auto
  next
    case 4
    then have "u \<noteq> []" by (auto simp: scan_leaf_iff)
    with 4 t ws show ?thesis
      by (intro jreadsI[of ws _ "JNumber u"]) (auto simp: scan_leaf_iff jends_def split: list.splits)
  next
    case 5
    then obtain v w1 where op: "c = arrayOpenToken" and u: "u = c # v"
      and calls: "run_calls (calls_at (Selectors s) (p @ [KindArray]) u) w1 = (None, w')"
      and "(\<exists>us. white us \<and> v = us @ [arrayCloseToken] \<and> z = v @ r \<and> w1 = w) \<or>
        scan_values s (p @ [KindArray]) 0 z w = (Inr v, r, w1)"
      unfolding scanArray_iff[OF c] by blast
    then consider us where "white us" "v = us @ [arrayCloseToken]" "z = v @ r" "w1 = w"
      | es where "eok (json_Valid s) es" "v = etext es" "z = v @ r"
        "run_calls (ecalls (Selectors s) (p @ [KindArray]) 0 es) w = (None, w1)"
      using scan_values_sound[OF smaller order_refl] by blast
    then show ?thesis
    proof cases
      case (1 us)
      with op u calls t ws ends show ?thesis by (intro jreadsI[of ws _ "JEmptyArray us"]) auto
    next
      case (2 es)
      with op u calls t ws ends show ?thesis
        by (intro jreadsI[of ws _ "JArray es"]) (auto simp: run_calls_append)
    qed
  next
    case 6
    then obtain v w1 where op: "c = objectOpenToken" and u: "u = c # v"
      and calls: "run_calls (calls_at (Selectors s) (p @ [KindObject]) u) w1 = (None, w')"
      and "(\<exists>us. white us \<and> v = us @ [objectCloseToken] \<and> z = v @ r \<and> w1 = w) \<or>
        scan_members s (p @ [KindObject]) z w = (Inr v, r, w1)"
      unfolding scanObject_iff[OF c] by blast
    then consider us where "white us" "v = us @ [objectCloseToken]" "z = v @ r" "w1 = w"
      | ms where "mok (json_Valid s) ms" "v = mtext ms" "z = v @ r"
        "run_calls (mcalls (Selectors s) (p @ [KindObject]) ms) w = (None, w1)"
      using scan_members_sound[OF smaller order_refl] by blast
    then show ?thesis
    proof cases
      case (1 us)
      with op u calls t ws ends show ?thesis by (intro jreadsI[of ws _ "JEmptyObject us"]) auto
    next
      case (2 ms)
      with op u calls t ws ends show ?thesis
        by (intro jreadsI[of ws _ "JObject ms"]) (auto simp: run_calls_append)
    qed
  qed
qed

lemma jtext_start:
  assumes "jok v d"
  obtains c z where "jtext d = c # z" "c \<notin> set whitespaceChars"
proof (cases d)
  case (JNumber ds)
  with assms obtain c z where "ds = c # z" "c \<in> set numberChars" by (cases ds) auto
  with JNumber that show thesis by (auto simp: numberChars_def whitespaceChars_def)
qed (use that in \<open>auto simp: nullTokenUTF8_def trueTokenUTF8_def falseTokenUTF8_def quoted_def scan_char_defs\<close>)

lemma jends_part: "white ws \<Longrightarrow> c \<in> {valueSepToken, arrayCloseToken, objectCloseToken} \<Longrightarrow> jends d (ws @ c # x)"
  by (cases d; cases ws) (auto simp: jends_def white_def scan_char_defs)

lemma trim_prefix: "white ws \<Longrightarrow> c \<notin> set whitespaceChars \<Longrightarrow> trimSpace e (ws @ c # z) = (Inr ws, c # z)"
  by (simp add: trimSpace_Inr white_subset)

lemma trim_doc:
  assumes "white ws" "jok v d"
  shows "trimSpace e (ws @ jtext d @ z) = (Inr ws, jtext d @ z)"
  using jtext_start[OF assms(2)] trim_prefix[OF assms(1)] by (metis append_Cons)

lemma closers: "valueSepToken \<notin> set whitespaceChars" "arrayCloseToken \<notin> set whitespaceChars"
  "objectCloseToken \<notin> set whitespaceChars" "nameSepToken \<notin> set whitespaceChars"
  "quoteToken \<notin> set whitespaceChars" "arrayOpenToken \<notin> set whitespaceChars" "objectOpenToken \<notin> set whitespaceChars"
  by (simp_all add: scan_char_defs)

lemma scanI:
  assumes "inp = c # z" "c \<notin> set whitespaceChars"
    and "c = 110 \<and> scanNull s p (c # z) w = (Inr u, r, w') \<or>
         (c = 116 \<or> c = 102) \<and> scanBoolean s p (c # z) w = (Inr u, r, w') \<or>
         c = 34 \<and> scanString s p (c # z) w = (Inr u, r, w') \<or>
         c \<in> set numberChars \<and> scanNumber s p (c # z) w = (Inr u, r, w') \<or>
         c = 91 \<and> scanArray s p (c # z) w = (Inr u, r, w') \<or>
         c = 123 \<and> scanObject s p (c # z) w = (Inr u, r, w')"
  shows "scan s p inp w = (Inr u, r, w')"
  unfolding scan_iff using assms trimSpace_exact[OF assms(2)]
  by (intro exI[of _ "[]"] exI[of _ c] exI[of _ z] exI[of _ u]) simp

lemma member_key:
  assumes "string_body False key" "run_calls (calls_at (Selectors s) (p @ [KindName, KindString]) (quoted key)) w = (None, w1)"
  shows "scanString s (p @ [KindName]) (quoted key @ z) w = (Inr (quoted key), z, w1)"
  using assms by (auto simp: scan_leaf_iff intro: exI[of _ "[]"])

lemma object_value_name_quoted [simp]: "object_value_name (quoted key) = key"
  by (simp add: object_value_name_def quoted_def)

lemma trim_key: "white ws \<Longrightarrow> trimSpace e (ws @ quoted key @ z) = (Inr ws, quoted key @ z)"
  by (simp add: quoted_def trim_prefix closers)

text \<open>One member, up to what follows its value.\<close>

lemma scan_members_step:
  assumes "white ws" "string_body False key" "white ws1" "white ws2" "jok (json_Valid s) d" "white ws3"
    and c: "c \<in> {valueSepToken, objectCloseToken}"
    and "run_calls (calls_at (Selectors s) (p @ [KindName, KindString]) (quoted key)) w = (None, w1)"
    and "scan s (p @ [KindValue (Some key)]) (jtext d @ ws3 @ c # z) w1 = (Inr (jtext d), ws3 @ c # z, w2)"
    and "c = objectCloseToken \<Longrightarrow> u = [] \<and> r = z \<and> w' = w2"
    and "c = valueSepToken \<Longrightarrow> scan_members s p z w2 = (Inr u, r, w')"
  shows "scan_members s p (ws @ quoted key @ ws1 @ nameSepToken # ws2 @ jtext d @ ws3 @ c # z) w =
    (Inr (ws @ quoted key @ ws1 @ nameSepToken # ws2 @ jtext d @ ws3 @ c # u), r, w')"
proof -
  let ?v = "jtext d @ ws3 @ c # z"
  let ?y = "quoted key @ ws1 @ nameSepToken # ws2 @ ?v"
  have c_white: "c \<notin> set whitespaceChars" using c closers by auto
  have trims: "trimSpace (rerr s) (ws @ ?y) = (Inr ws, ?y)"
    "trimSpace (rerr s) (ws1 @ nameSepToken # ws2 @ ?v) = (Inr ws1, nameSepToken # ws2 @ ?v)"
    "trimSpace (rerr s) (ws2 @ ?v) = (Inr ws2, ?v)"
    "trimSpace (rerr s) (ws3 @ c # z) = (Inr ws3, c # z)"
    using assms(1,3,4,5,6) trim_key[of ws] trim_prefix[of ws1] trim_doc[of ws2 "json_Valid s" d] trim_prefix[of ws3]
      closers c_white by auto
  have name: "scanString s (p @ [KindName]) ?y w = (Inr (quoted key), ws1 @ nameSepToken # ws2 @ ?v, w1)"
    using assms(2,8) by (rule member_key)
  show ?thesis
    apply (rule iffD2[OF scan_members_iff], intro exI conjI)
          apply (rule trims(1))
         apply (rule name)
        apply (rule trims(2))
       apply (rule trims(3))
      apply (simp add: assms(9))
     apply (rule trims(4))
    using assms(10,11) c by auto
qed

lemma scan_complete:
  "jok (json_Valid s) d \<Longrightarrow> jends d r \<Longrightarrow> run_calls (jcalls (Selectors s) p d) w = (None, w') \<Longrightarrow>
     scan s p (jtext d @ r) w = (Inr (jtext d), r, w')"
  "eok (json_Valid s) es \<Longrightarrow> run_calls (ecalls (Selectors s) p i es) w = (None, w') \<Longrightarrow>
     scan_values s p i (etext es @ r) w = (Inr (etext es), r, w')"
  "mok (json_Valid s) ms \<Longrightarrow> run_calls (mcalls (Selectors s) p ms) w = (None, w') \<Longrightarrow>
     scan_members s p (mtext ms @ r) w = (Inr (mtext ms), r, w')"
proof (induction d and es and ms arbitrary: p r w w' and p i r w w' and p r w w')
  case JNull
  then show ?case
    by (intro scanI[of _ 110]) (auto simp: nullTokenUTF8_def whitespaceChars_def scan_leaf_iff)
next
  case JTrue
  then show ?case
    by (intro scanI[of _ 116]) (auto simp: trueTokenUTF8_def whitespaceChars_def scanBoolean_iff)
next
  case JFalse
  then show ?case
    by (intro scanI[of _ 102]) (auto simp: falseTokenUTF8_def whitespaceChars_def scanBoolean_iff)
next
  case (JNumber ds)
  then obtain c z where ds: "ds = c # z" "c \<in> set numberChars" by (cases ds) auto
  have "c \<notin> set whitespaceChars" using ds(2) by (auto simp: numberChars_def whitespaceChars_def)
  moreover have "scanNumber s p (ds @ r) w = (Inr ds, r, w')"
    using JNumber by (auto simp: scan_leaf_iff jends_def split: list.splits)
  ultimately show ?case
    using ds by (intro scanI[of _ c "z @ r"]) auto
next
  case (JString str)
  then have "scanString s p (quoted str @ r) w = (Inr (quoted str), r, w')"
    by (auto simp: scan_leaf_iff intro: exI[of _ "[]"])
  then show ?case
    by (intro scanI[of _ 34 "str @ quoteToken # r"]) (auto simp: quoted_def scan_char_defs)
next
  case (JEmptyArray ws)
  then have "scanArray s p (arrayOpenToken # ws @ arrayCloseToken # r) w = (Inr (jtext (JEmptyArray ws)), r, w')"
    by (simp add: scanArray_iff closers) blast
  then show ?case
    by (intro scanI[of _ arrayOpenToken "ws @ arrayCloseToken # r"]) (auto simp: arrayOpenToken_def whitespaceChars_def)
next
  case (JArray es)
  then obtain w1 where "run_calls (ecalls (Selectors s) (p @ [KindArray]) 0 es) w = (None, w1)"
    and "run_calls (calls_at (Selectors s) (p @ [KindArray]) (arrayOpenToken # etext es)) w1 = (None, w')"
    by (auto simp: run_calls_append)
  with JArray have "scanArray s p (arrayOpenToken # etext es @ r) w = (Inr (arrayOpenToken # etext es), r, w')"
    by (auto simp: scanArray_iff closers)
  then show ?case
    by (intro scanI[of _ arrayOpenToken "etext es @ r"]) (auto simp: arrayOpenToken_def whitespaceChars_def)
next
  case (JEmptyObject ws)
  then have "scanObject s p (objectOpenToken # ws @ objectCloseToken # r) w = (Inr (jtext (JEmptyObject ws)), r, w')"
    by (simp add: scanObject_iff closers) blast
  then show ?case
    by (intro scanI[of _ objectOpenToken "ws @ objectCloseToken # r"]) (auto simp: objectOpenToken_def whitespaceChars_def)
next
  case (JObject ms)
  then obtain w1 where "run_calls (mcalls (Selectors s) (p @ [KindObject]) ms) w = (None, w1)"
    and "run_calls (calls_at (Selectors s) (p @ [KindObject]) (objectOpenToken # mtext ms)) w1 = (None, w')"
    by (auto simp: run_calls_append)
  with JObject have "scanObject s p (objectOpenToken # mtext ms @ r) w = (Inr (objectOpenToken # mtext ms), r, w')"
    by (auto simp: scanObject_iff closers)
  then show ?case
    by (intro scanI[of _ objectOpenToken "mtext ms @ r"]) (auto simp: objectOpenToken_def whitespaceChars_def)
next
  case (ELast ws d ws1)
  let ?y = "jtext d @ ws1 @ arrayCloseToken # r"
  have "scan s (p @ [KindElement (Some i)]) ?y w = (Inr (jtext d), ws1 @ arrayCloseToken # r, w')"
    using ELast by (simp add: jends_part)
  moreover have "trimSpace (rerr s) (ws @ ?y) = (Inr ws, ?y)" "trimSpace (rerr s) (ws1 @ arrayCloseToken # r) = (Inr ws1, arrayCloseToken # r)"
    using ELast trim_doc[of ws "json_Valid s" d] trim_prefix[of ws1] closers by auto
  ultimately show ?case by (subst scan_values_iff) fastforce
next
  case (EMore ws d ws1 es)
  then obtain w1 where calls: "run_calls (jcalls (Selectors s) (p @ [KindElement (Some i)]) d) w = (None, w1)"
    and more: "run_calls (ecalls (Selectors s) p (i + 1) es) w1 = (None, w')"
    by (auto simp: run_calls_append)
  let ?z = "etext es @ r"
  let ?y = "jtext d @ ws1 @ valueSepToken # ?z"
  have "scan s (p @ [KindElement (Some i)]) ?y w = (Inr (jtext d), ws1 @ valueSepToken # ?z, w1)"
    using EMore calls by (simp add: jends_part)
  moreover have "scan_values s p (i + 1) ?z w1 = (Inr (etext es), r, w')" using EMore more by simp
  moreover have "trimSpace (rerr s) (ws @ ?y) = (Inr ws, ?y)" "trimSpace (rerr s) (ws1 @ valueSepToken # ?z) = (Inr ws1, valueSepToken # ?z)"
    using EMore trim_doc[of ws "json_Valid s" d] trim_prefix[of ws1] closers by auto
  ultimately show ?case by (subst scan_values_iff) fastforce
next
  case (MLast ws key ws1 ws2 d ws3)
  then obtain w1 where "run_calls (calls_at (Selectors s) (p @ [KindName, KindString]) (quoted key)) w = (None, w1)"
    and "run_calls (jcalls (Selectors s) (p @ [KindValue (Some key)]) d) w1 = (None, w')"
    by (auto simp: run_calls_append)
  with MLast have "scan_members s p (ws @ quoted key @ ws1 @ nameSepToken # ws2 @ jtext d @ ws3 @ objectCloseToken # r) w =
      (Inr (ws @ quoted key @ ws1 @ nameSepToken # ws2 @ jtext d @ ws3 @ objectCloseToken # []), r, w')"
    by (intro scan_members_step) (auto simp: jends_part scan_char_defs)
  then show ?case by simp
next
  case (MMore ws key ws1 ws2 d ws3 ms)
  then obtain w1 w2 where "run_calls (calls_at (Selectors s) (p @ [KindName, KindString]) (quoted key)) w = (None, w1)"
    and "run_calls (jcalls (Selectors s) (p @ [KindValue (Some key)]) d) w1 = (None, w2)"
    and "run_calls (mcalls (Selectors s) p ms) w2 = (None, w')"
    by (auto simp: run_calls_append)
  with MMore have "scan_members s p (ws @ quoted key @ ws1 @ nameSepToken # ws2 @ jtext d @ ws3 @ valueSepToken # mtext ms @ r) w =
      (Inr (ws @ quoted key @ ws1 @ nameSepToken # ws2 @ jtext d @ ws3 @ valueSepToken # mtext ms), r, w')"
    by (intro scan_members_step) (auto simp: jends_part scan_char_defs)
  then show ?case by simp
qed

definition Scanner_Scan :: "'w Scanner \<Rightarrow> runes \<Rightarrow> 'w \<Rightarrow> jt_error option \<times> runes \<times> 'w" where
  "Scanner_Scan s inp w =
     (let path = []
      in case scan_with s path (scan s path inp w) of
           (Inr _, rest, w') \<Rightarrow> (None, rest, w')
         | (Inl err, rest, w') \<Rightarrow>
             (case isScanError err path of
                Some err' \<Rightarrow> (Some err', rest, w')
              | None \<Rightarrow> if jt_Is err io_EOF then (None, rest, w') else (Some (asLexingError err path), rest, w')))"

text \<open>C14: A scan of a value succeeds exactly on the documents of the grammar (up to white space before
  them, and a number must be followed by something that ends it). Then it has written and consumed
  exactly that text, and has called exactly the selectors the document's values have, with the text
  of the value, inner values first.
\<close>
theorem jt_scan_exact:
  "scan s p inp w = (Inr t, r, w') \<longleftrightarrow>
     (\<exists>ws d. white ws \<and> jok (json_Valid s) d \<and> jends d r \<and> t = ws @ jtext d \<and> inp = t @ r \<and>
        run_calls (jcalls (Selectors s) p d) w = (None, w'))"
proof
  assume "scan s p inp w = (Inr t, r, w')"
  then show "\<exists>ws d. white ws \<and> jok (json_Valid s) d \<and> jends d r \<and> t = ws @ jtext d \<and> inp = t @ r \<and>
      run_calls (jcalls (Selectors s) p d) w = (None, w')"
    by (rule scan_sound[unfolded jreads_def])
next
  assume "\<exists>ws d. white ws \<and> jok (json_Valid s) d \<and> jends d r \<and> t = ws @ jtext d \<and> inp = t @ r \<and>
      run_calls (jcalls (Selectors s) p d) w = (None, w')"
  then obtain ws d where ws: "white ws" and d: "jok (json_Valid s) d" "jends d r" "t = ws @ jtext d" "inp = t @ r"
    "run_calls (jcalls (Selectors s) p d) w = (None, w')" by blast
  then have "trimSpace (rerr s) inp = (Inr ws, jtext d @ r)"
    using trim_doc[of ws "json_Valid s" d] by simp
  from scan_absorb(1)[OF this, of p w] d show "scan s p inp w = (Inr t, r, w')"
    by (simp add: scan_complete(1))
qed

text \<open>C15: Printing a document and scanning it gives its values back, when the document ends by itself (a bare
  number only when a character that belongs to no number follows it) and no selector fails:
  \<^verbatim>\<open>Scan\<close> returns no error, leaves what follows the document in the input, and hands every selector the
  text of the values it selects, the whole document last.
\<close>
theorem jt_Scan_document:
  assumes "white ws" "jok (json_Valid s) d" "jends d r"
    and "run_calls (jcalls (Selectors s) [] d @ calls_at (Selectors s) [] (ws @ jtext d)) w = (None, w')"
  shows "Scanner_Scan s (ws @ jtext d @ r) w = (None, r, w')"
proof -
  obtain w1 where calls: "run_calls (jcalls (Selectors s) [] d) w = (None, w1)"
    and own: "run_calls (calls_at (Selectors s) [] (ws @ jtext d)) w1 = (None, w')"
    using assms(4) by (auto simp: run_calls_append)
  have trim: "trimSpace (rerr s) (ws @ jtext d @ r) = (Inr ws, jtext d @ r)"
    using assms trim_doc[of ws "json_Valid s" d] by simp
  have "scan s [] (ws @ jtext d @ r) w = (Inr (ws @ jtext d), r, w1)"
    using scan_absorb(1)[OF trim, of "[]" w] scan_complete(1)[OF assms(2,3) calls] by simp
  then have "scan_with s [] (scan s [] (ws @ jtext d @ r) w) = (Inr (ws @ jtext d), r, w')"
    using own by (simp add: scan_with_Inr run_fns_calls)
  then show ?thesis by (simp add: Scanner_Scan_def)
qed

definition collect_all :: "runes \<Rightarrow> runes list \<Rightarrow> go_error option \<times> runes list" where
  "collect_all data acc = (None, acc @ [data])"

definition jt_example :: "runes list Scanner" where
  "jt_example =
     \<lparr>Selectors = [\<lparr>sel_Path = [KindArray, KindElement None, KindNull], sel_Func = Some collect_all\<rparr>,
                   \<lparr>sel_Path = [], sel_Func = Some collect_all\<rparr>],
      rerr = ErrConst io_EOF, json_Valid = (\<lambda>_. True)\<rparr>"

lemma jt_Scan_document_witness:
  "Scanner_Scan jt_example ([32] @ jtext (JArray (EMore [] JNull [] (ELast [32] JTrue []))) @ [10]) [] =
     (None, [10], [[110, 117, 108, 108], [32, 91, 110, 117, 108, 108, 44, 32, 116, 114, 117, 101, 93]])"
  by (rule jt_Scan_document)
    (simp_all add: jt_example_def jends_def whitespaceChars_def calls_at_def Path_Match_def Path_Equal_def Path_Contains_def
      collect_all_def KindArray_def KindNull_def KindBoolean_def nullTokenUTF8_def trueTokenUTF8_def
      arrayOpenToken_def arrayCloseToken_def valueSepToken_def)

lemma isScanError_JErr: "isScanError (JErr (ErrConst io_EOF)) path = None"
  by (simp add: isScanError_def io_EOF_def jt_ErrMalformed_def)

lemma trimSpace_white_end: "white ws \<Longrightarrow> trimSpace e ws = (Inl (JErr e), [])"
  by (induction ws) (auto simp: trimSpace.simps)

lemma scan_digits_end: "set ds \<subseteq> set numberChars \<Longrightarrow> scan_digits e ds = (Inl (JErr e), [])"
  by (induction ds) (auto simp: scan_digits.simps)

lemma scan_with_Inl: "scan_with s path (Inl err, y) = (Inl err, y)"
  by (cases y) (simp add: scan_with_def Let_def)

text \<open>C16: Two kinds of cut-off input are accepted. When the input ends after the comma that follows the first
  element of a top-level array, \<^verbatim>\<open>Scan\<close> returns no error, having called the selectors of that element
  only; and when the whole input is made of number characters, it is neither validated nor given to any
  selector.
\<close>
theorem jt_Scan_truncated:
  assumes "rerr s = ErrConst io_EOF" "white ws" "jok (json_Valid s) d"
    and "run_calls (jcalls (Selectors s) [KindArray, KindElement (Some 0)] d) w = (None, w')"
    and "set (c # ds) \<subseteq> set numberChars"
  shows "Scanner_Scan s (arrayOpenToken # jtext d @ valueSepToken # ws) w = (None, [], w')
    \<and> Scanner_Scan s (c # ds) w = (None, [], w)"
proof
  let ?v = "jtext d @ valueSepToken # ws"
  have trim: "trimSpace (rerr s) ?v = (Inr [], ?v)"
    using trim_doc[of "[]" "json_Valid s" d] assms(3) by simp
  have elem: "scan s [KindArray, KindElement (Some 0)] ?v w = (Inr (jtext d), valueSepToken # ws, w')"
    using assms(3,4) jends_part[of "[]" valueSepToken d ws] by (simp add: scan_complete(1))
  have "scan_values s [KindArray] 0 ?v w = (Inl (JErr (ErrConst io_EOF)), [], w')"
    by (subst scan_values.simps, simp only: trim, simp add: Path_With_def elem trimSpace_exact closers)
      (simp add: scan_values.simps trimSpace_white_end assms)
  moreover obtain k z where "jtext d = k # z" "k \<notin> set whitespaceChars" "k \<noteq> arrayCloseToken"
  proof -
    obtain k z where k: "jtext d = k # z" "k \<notin> set whitespaceChars" using assms(3) jtext_start by blast
    have "k \<noteq> arrayCloseToken"
    proof
      assume "k = arrayCloseToken"
      with k elem show False
        by (simp add: scan.simps trimSpace_exact tokenStartKind_def scan_char_defs)
    qed
    with k that show thesis by blast
  qed
  ultimately have "scanArray s [] (arrayOpenToken # ?v) w = (Inl (JErr (ErrConst io_EOF)), [], w')"
    by (simp add: scanArray_eq closers trimSpace_exact scan_with_Inl)
  moreover have "tokenStartKind arrayOpenToken = Some KindArray"
    by (simp add: tokenStartKind_def scan_char_defs)
  ultimately have "scan s [] (arrayOpenToken # ?v) w = (Inl (JErr (ErrConst io_EOF)), [], w')"
    by (subst scan.simps) (simp add: trimSpace_exact closers KindArray_def KindNull_def KindBoolean_def KindString_def KindNumber_def)
  then show "Scanner_Scan s (arrayOpenToken # ?v) w = (None, [], w')"
    by (simp add: Scanner_Scan_def scan_with_Inl isScanError_JErr)
next
  have c: "c \<in> set numberChars" "c \<notin> set whitespaceChars"
    using assms(5) by (auto simp: numberChars_def whitespaceChars_def)
  have "scanNumber s [] (c # ds) w = (Inl (JErr (ErrConst io_EOF)), [], w)"
    using assms by (simp add: scanNumber_def scan_digits_end scan_with_Inl Let_def)
  with c have "scan s [] (c # ds) w = (Inl (JErr (ErrConst io_EOF)), [], w)"
    by (subst scan.simps) (simp add: trimSpace_exact tokenStartKind_def KindNumber_def KindNull_def KindBoolean_def KindString_def)
  then show "Scanner_Scan s (c # ds) w = (None, [], w)"
    by (simp add: Scanner_Scan_def scan_with_Inl isScanError_JErr)
qed

lemma jt_Scan_truncated_witness:
  "Scanner_Scan jt_example (arrayOpenToken # jtext JNull @ valueSepToken # []) [] = (None, [], [[110, 117, 108, 108]])
    \<and> Scanner_Scan jt_example [52, 50] [] = (None, [], [])"
  by (rule jt_Scan_truncated)
    (simp_all add: jt_example_def calls_at_def Path_Match_def Path_Equal_def Path_Contains_def collect_all_def
      KindArray_def KindNull_def nullTokenUTF8_def numberChars_def)

section \<open>TrimSpace\<close>

text \<open>The labelled loops of \<^verbatim>\<open>TrimSpace\<close>: skipping white space, and moving runes up to the next one.\<close>

function trim_loop :: "runes \<Rightarrow> runes \<Rightarrow> runes" and move_loop :: "runes \<Rightarrow> runes \<Rightarrow> runes" where
  "trim_loop inp out =
     (case trimSpace (ErrConst io_EOF) inp of (Inl _, _) \<Rightarrow> out | (Inr _, rest) \<Rightarrow> move_loop rest out)"
| "move_loop inp out =
     (case inp of
        [] \<Rightarrow> out
      | char # rest \<Rightarrow>
          (case rest of
             [] \<Rightarrow> out @ [char]
           | nxt # _ \<Rightarrow> if nxt \<in> set whitespaceChars then trim_loop rest (out @ [char]) else move_loop rest (out @ [char])))"
  by pat_completeness auto
termination trim_loop
  by (relation "measure (\<lambda>x. case x of Inl (inp, out) \<Rightarrow> 2 * length inp + 1 | Inr (inp, out) \<Rightarrow> 2 * length inp)")
    (auto dest: trimSpace_length[OF sym])

definition jt_TrimSpace :: "runes \<Rightarrow> runes" where
  "jt_TrimSpace data = trim_loop data []"

declare trim_loop.simps [simp del] move_loop.simps [simp del]

lemma trimSpace_Inl: "trimSpace e inp = (Inl err, r) \<Longrightarrow> set inp \<subseteq> set whitespaceChars"
  by (induction e inp rule: trimSpace.induct) (auto simp: trimSpace.simps split: if_splits prod.splits sum.splits)

lemma trim_loops:
  "trim_loop inp out = out @ filter (\<lambda>c. c \<notin> set whitespaceChars) inp"
  "(case inp of [] \<Rightarrow> True | c # _ \<Rightarrow> c \<notin> set whitespaceChars) \<Longrightarrow>
     move_loop inp out = out @ filter (\<lambda>c. c \<notin> set whitespaceChars) inp"
proof (induction inp out and inp out rule: trim_loop_move_loop.induct)
  case (1 inp out)
  obtain res rest where trim: "trimSpace (ErrConst io_EOF) inp = (res, rest)" by force
  show ?case
  proof (cases res)
    case (Inl err)
    with trim have "set inp \<subseteq> set whitespaceChars" by (simp add: trimSpace_Inl)
    then have "filter (\<lambda>c. c \<notin> set whitespaceChars) inp = []" by (auto simp: filter_empty_conv)
    with trim Inl show ?thesis by (simp add: trim_loop.simps)
  next
    case (Inr ws)
    then have inp: "inp = ws @ rest" "set ws \<subseteq> set whitespaceChars" "rest \<noteq> []" "hd rest \<notin> set whitespaceChars"
      using trim by (simp_all add: trimSpace_Inr)
    then have "filter (\<lambda>c. c \<notin> set whitespaceChars) ws = []" by (auto simp: filter_empty_conv)
    with inp 1[OF trim[symmetric] Inr] trim Inr show ?thesis by (cases rest) (auto simp: trim_loop.simps)
  qed
next
  case (2 inp out)
  show ?case
  proof (cases inp)
    case (Cons c rest)
    with 2 show ?thesis by (cases rest) (auto simp: move_loop.simps[of "c # xs" for xs])
  qed (simp add: move_loop.simps)
qed

text \<open>White space is removed everywhere, inside strings too.\<close>

lemma jt_TrimSpace_filter: "jt_TrimSpace data = filter (\<lambda>c. c \<notin> set whitespaceChars) data"
  by (simp add: jt_TrimSpace_def trim_loops(1))

section \<open>Query\<close>

text \<open>
  \<^verbatim>\<open>Query\<close> scans in a goroutine whose selector offers each value on an unbuffered channel, or gives
  up when the context is done; the iterator takes them from there. Its deferred calls run in reverse:
  first \<^verbatim>\<open>g.Wait\<close>, then the \<^verbatim>\<open>cancel\<close> of that context. The values offered, and the error in the
  end, are those of the scan with a selector that only collects.
\<close>

definition query_scan :: "go_error \<Rightarrow> (runes \<Rightarrow> bool) \<Rightarrow> Path \<Rightarrow> runes \<Rightarrow> jt_error option \<times> runes list" where
  "query_scan e valid path inp =
     (case Scanner_Scan \<lparr>Selectors = [\<lparr>sel_Path = path, sel_Func = Some collect_all\<rparr>], rerr = e, json_Valid = valid\<rparr> inp [] of
        (err, _, offers) \<Rightarrow> (err, offers))"

definition QueryMany :: "go_error \<Rightarrow> (runes \<Rightarrow> bool) \<Rightarrow> 'w Selector list \<Rightarrow> runes \<Rightarrow> 'w \<Rightarrow> jt_error option \<times> runes \<times> 'w" where
  "QueryMany e valid sels inp w =
     (if length sels = 0 then (None, inp, w)
      else Scanner_Scan \<lparr>Selectors = sels, rerr = e, json_Valid = valid\<rparr> inp w)"

datatype q_phase = Ranging | Waiting | Returned

record 's q_state =
  q_offers :: "runes list"
  q_scan_err :: "jt_error option"
  q_scanned :: bool
  q_main :: q_phase
  q_body :: 's

type_synonym 's q_yield = "runes \<times> jt_error option \<Rightarrow> 's \<Rightarrow> 's \<times> bool"

definition q_start :: "jt_error option \<times> runes list \<Rightarrow> 's \<Rightarrow> 's q_state" where
  "q_start sc s = \<lparr>q_offers = snd sc, q_scan_err = fst sc, q_scanned = False, q_main = Ranging, q_body = s\<rparr>"

inductive q_step :: "'s q_yield \<Rightarrow> 's q_state \<Rightarrow> 's q_state \<Rightarrow> bool" for yield where
  handoff: "q_main q = Ranging \<Longrightarrow> q_offers q = data # offers \<Longrightarrow> yield (data, None) (q_body q) = (s', cont) \<Longrightarrow>
     q_step yield q (q\<lparr>q_offers := offers, q_body := s', q_main := if \<not> cont then Waiting else Ranging\<rparr>)"
| scan_ends: "q_offers q = [] \<Longrightarrow> \<not> q_scanned q \<Longrightarrow> q_step yield q (q\<lparr>q_scanned := True\<rparr>)"
| range_ends: "q_main q = Ranging \<Longrightarrow> q_scanned q \<Longrightarrow>
     q_step yield q (q\<lparr>q_main := Waiting,
       q_body := (case q_scan_err q of None \<Rightarrow> q_body q | Some err \<Rightarrow> fst (yield ([], Some err) (q_body q)))\<rparr>)"
| wait_returns: "q_main q = Waiting \<Longrightarrow> q_scanned q \<Longrightarrow> q_step yield q (q\<lparr>q_main := Returned\<rparr>)"
| cancelled: "q_main q = Returned \<Longrightarrow> q_offers q \<noteq> [] \<Longrightarrow> q_step yield q (q\<lparr>q_offers := []\<rparr>)"

inductive_cases q_stepE: "q_step yield q q'"

text \<open>The loop body stops before the last value.\<close>

fun q_stops_early :: "'s q_yield \<Rightarrow> runes list \<Rightarrow> 's \<Rightarrow> bool" where
  "q_stops_early yield [] s = False"
| "q_stops_early yield (v # vs) s =
     (case yield (v, None) s of (s', cont) \<Rightarrow> if cont then q_stops_early yield vs s' else vs \<noteq> [])"

definition q_inv :: "'s q_yield \<Rightarrow> bool \<Rightarrow> 's q_state \<Rightarrow> bool" where
  "q_inv yield early q \<longleftrightarrow>
     (q_scanned q \<longrightarrow> q_offers q = []) \<and>
     (case q_main q of
        Ranging \<Rightarrow> q_stops_early yield (q_offers q) (q_body q) = early
      | Waiting \<Rightarrow> (q_offers q \<noteq> []) = early
      | Returned \<Rightarrow> \<not> early)"

lemma q_inv_step:
  assumes "q_step yield q q'" "q_inv yield early q"
  shows "q_inv yield early q'"
  using assms by (cases rule: q_step.cases) (auto simp: q_inv_def split: q_phase.splits)

lemma q_inv_steps: "(q_step yield)\<^sup>*\<^sup>* q q' \<Longrightarrow> q_inv yield early q \<Longrightarrow> q_inv yield early q'"
  by (induction rule: rtranclp_induct) (auto intro: q_inv_step)

lemma q_end_returns:
  assumes "q_offers q = []" "q_main q \<noteq> Returned"
  shows "\<exists>q'. (q_step yield)\<^sup>*\<^sup>* q q' \<and> q_main q' = Returned"
proof -
  define q1 where "q1 = (if q_scanned q then q else q\<lparr>q_scanned := True\<rparr>)"
  have q1: "(q_step yield)\<^sup>*\<^sup>* q q1" "q_scanned q1" "q_main q1 = q_main q"
    using assms(1) by (auto simp: q1_def intro: q_step.scan_ends)
  obtain q2 where q2: "(q_step yield)\<^sup>*\<^sup>* q1 q2" "q_scanned q2" "q_main q2 = Waiting"
  proof (cases "q_main q1")
    case Ranging
    show ?thesis
      by (rule that, rule r_into_rtranclp, rule q_step.range_ends[OF Ranging q1(2)]) (use q1(2) in simp_all)
  next
    case Waiting
    with q1(2) show ?thesis by (intro that[of q1]) auto
  qed (use assms q1 in simp)
  from q_step.wait_returns[OF q2(3,2), of yield] q1(1) q2(1) show ?thesis
    by (intro exI[of _ "q2\<lparr>q_main := Returned\<rparr>"]) auto
qed

lemma q_ranging_returns:
  "q_main q = Ranging \<Longrightarrow> \<not> q_stops_early yield (q_offers q) (q_body q) \<Longrightarrow>
     \<exists>q'. (q_step yield)\<^sup>*\<^sup>* q q' \<and> q_main q' = Returned"
proof (induction "q_offers q" arbitrary: q)
  case Nil
  then show ?case using q_end_returns[of q yield] by simp
next
  case (Cons v vs)
  obtain s' cont where y: "yield (v, None) (q_body q) = (s', cont)" by force
  let ?q = "q\<lparr>q_offers := vs, q_body := s', q_main := if \<not> cont then Waiting else Ranging\<rparr>"
  have step: "q_step yield q ?q" using Cons.prems(1) Cons.hyps(2)[symmetric] y by (rule q_step.handoff)
  have "\<exists>q'. (q_step yield)\<^sup>*\<^sup>* ?q q' \<and> q_main q' = Returned"
  proof (cases cont)
    case True
    with Cons.prems(2) Cons.hyps(2)[symmetric] y have "\<not> q_stops_early yield (q_offers ?q) (q_body ?q)" by simp
    with True Cons.hyps(1)[of ?q] show ?thesis by simp
  next
    case False
    with Cons.prems(2) Cons.hyps(2)[symmetric] y have "vs = []" by simp
    with False q_end_returns[of ?q yield] show ?thesis by simp
  qed
  with step show ?case by (meson converse_rtranclp_into_rtranclp)
qed

text \<open>C17: \<^verbatim>\<open>Query\<close> can return only when the loop over it does not stop before the last value. When the
  body breaks out earlier, every execution hangs: the deferred \<^verbatim>\<open>g.Wait\<close> waits for the scanning
  goroutine, which waits for a reader of its channel or for the context whose cancel is deferred
  until after the wait.
\<close>
theorem jt_Query_returns_iff:
  "(\<exists>q. (q_step yield)\<^sup>*\<^sup>* (q_start (query_scan e valid path inp) s) q \<and> q_main q = Returned) \<longleftrightarrow>
     \<not> q_stops_early yield (snd (query_scan e valid path inp)) s"
    (is "?L \<longleftrightarrow> ?R")
proof
  let ?q = "q_start (query_scan e valid path inp) s"
  assume ?L
  then obtain q where q: "(q_step yield)\<^sup>*\<^sup>* ?q q" "q_main q = Returned" by blast
  have "q_inv yield (q_stops_early yield (snd (query_scan e valid path inp)) s) ?q"
    by (simp add: q_inv_def q_start_def)
  from q_inv_steps[OF q(1) this] q(2) show ?R by (simp add: q_inv_def)
next
  assume ?R
  then show ?L by (intro q_ranging_returns) (simp_all add: q_start_def)
qed

end
