(* ===== verification/Cache.thy ===== *)
theory Cache imports Comproto Crud begin

text \<open>
  \<^verbatim>\<open>pkg/cache/cache.go\<close>: \<^verbatim>\<open>Cache\<close> (read and write through a source, with cached queries) and
  \<^verbatim>\<open>RefreshCache\<close>.

  The record \<^verbatim>\<open>Cache\<close> holds the interfaces the cache is given: the source, whose optional
  methods are the type assertions of the code, and the cache repository with its transactions. All
  act on one world \<open>'w\<close> (the source may be the same store). An iterator is the list of what ranging
  over it yields, computed when it is ranged over; the hit's time stamp comes from a clock.
  A refresh in the background is a job: \<^verbatim>\<open>run_job\<close> is what the goroutine does to the world, and the
  parameter \<open>go\<close> is the scheduler that runs it. Logging is left out.
\<close>

record 'i Hit =
  hit_ID :: string
  EntityIDs :: "'i list"
  Timestamp :: int

record ('v, 'i) Invalidator =
  CheckEntity :: "('v \<Rightarrow> string list) option"
  CheckHit :: "('i Hit \<Rightarrow> bool) option"

type_synonym 'v itr = "('v \<times> go_error option) list"

record ('v, 'i, 'c, 'w) Cache =
  src_FindByID :: "'c \<Rightarrow> 'i \<Rightarrow> ('w, go_error + 'v option) op"
  src_FindAll :: "('c \<Rightarrow> ('w, 'v itr) op) option"
  src_Create :: "('c \<Rightarrow> 'v \<Rightarrow> ('w, go_error option \<times> 'v) op) option"
  src_Save :: "('c \<Rightarrow> 'v \<Rightarrow> ('w, go_error option \<times> 'v) op) option"
  src_Update :: "('c \<Rightarrow> 'v \<Rightarrow> ('w, go_error option \<times> 'v) op) option"
  src_DeleteByID :: "('c \<Rightarrow> 'i \<Rightarrow> ('w, go_error option) op) option"
  src_DeleteAll :: "('c \<Rightarrow> ('w, go_error option) op) option"
  c_BeginTx :: "'c \<Rightarrow> ('w, 'c \<times> go_error option) op"
  c_CommitTx :: "'c \<Rightarrow> ('w, go_error option) op"
  c_RollbackTx :: "'c \<Rightarrow> ('w, go_error option) op"
  ents_FindByID :: "'c \<Rightarrow> 'i \<Rightarrow> ('w, go_error + 'v option) op"
  ents_FindAll :: "'c \<Rightarrow> ('w, 'v itr) op"
  ents_FindByIDs :: "'c \<Rightarrow> 'i list \<Rightarrow> ('w, 'v itr) op"
  ents_Create :: "'c \<Rightarrow> 'v \<Rightarrow> ('w, go_error option \<times> 'v) op"
  ents_Save :: "'c \<Rightarrow> 'v \<Rightarrow> ('w, go_error option \<times> 'v) op"
  ents_DeleteByID :: "'c \<Rightarrow> 'i \<Rightarrow> ('w, go_error option) op"
  ents_DeleteAll :: "'c \<Rightarrow> ('w, go_error option) op"
  hits_FindByID :: "'c \<Rightarrow> string \<Rightarrow> ('w, go_error + 'i Hit option) op"
  hits_FindAll :: "'c \<Rightarrow> ('w, 'i Hit itr) op"
  hits_Save :: "'c \<Rightarrow> 'i Hit \<Rightarrow> ('w, go_error option) op"
  hits_DeleteByID :: "'c \<Rightarrow> string \<Rightarrow> ('w, go_error option) op"
  hits_DeleteAll :: "'c \<Rightarrow> ('w, go_error option) op"
  c_IDA :: "('v, 'i) accessor"
  Invalidators :: "('v, 'i) Invalidator list"
  RefreshBehind :: bool
  ctxErr :: "'c \<Rightarrow> 'w \<Rightarrow> go_error option"
  withoutCancel :: "'c \<Rightarrow> 'c"
  clock_now :: "'w \<Rightarrow> int"
  sprint_ID :: "'i \<Rightarrow> string"
  zero_ent :: 'v

definition ErrNotImplementedBySource :: string where
  "ErrNotImplementedBySource = ''the method is not implemented by the cache source''"

definition not_implemented :: "string \<Rightarrow> go_error" where
  "not_implemented name = ErrWrapText (name @ '': %w'') (ErrConst ErrNotImplementedBySource)"

section \<open>Hit IDs\<close>

text \<open>\<^verbatim>\<open>fmt\<close> prints the arguments as \<open>map[name:value ...]\<close>, sorted by name; the prefix is trimmed.\<close>

definition Query_HitID :: "string \<Rightarrow> string \<Rightarrow> (string \<times> string) list \<Rightarrow> string" where
  "Query_HitID version name args =
     (let ident = version @ '':'' @ name
      in if args = [] then ident
         else ident @ '':['' @ concat (map (\<lambda>(k, v). k @ '':'' @ v) args) @ '']'')"

definition HitIDFindByID :: "('v, 'i, 'c, 'w) Cache \<Rightarrow> 'i \<Rightarrow> string" where
  "HitIDFindByID m ident = Query_HitID ''0'' ''FindByID'' [(''id'', sprint_ID m ident)]"

definition HitIDFindAll :: string where
  "HitIDFindAll = Query_HitID ''0'' ''FindAll'' []"

section \<open>Invalidation\<close>

definition invalidateCachedQueryWithoutCascadeEffect ::
    "('v, 'i, 'c, 'w) Cache \<Rightarrow> 'c \<Rightarrow> string \<Rightarrow> ('w, 'i Hit option \<times> go_error option) op" where
  "invalidateCachedQueryWithoutCascadeEffect m ctx hitID w =
     (case hits_FindByID m ctx hitID w of
        (Inl err, w1) \<Rightarrow> ((None, Some err), w1)
      | (Inr None, w1) \<Rightarrow> ((None, None), w1)
      | (Inr (Some hit), w1) \<Rightarrow>
          (case hits_DeleteByID m ctx hitID w1 of (err, w2) \<Rightarrow> ((Some hit, err), w2)))"

text \<open>The entity from the cache, deleted there, or else from the source.\<close>

definition inv_lookup :: "('v, 'i, 'c, 'w) Cache \<Rightarrow> 'c \<Rightarrow> 'i \<Rightarrow> ('w, go_error + 'v option) op" where
  "inv_lookup m ctx ident w =
     (case ents_FindByID m ctx ident w of
        (Inl err, w1) \<Rightarrow> (Inl err, w1)
      | (Inr (Some ent), w1) \<Rightarrow>
          (case ents_DeleteByID m ctx ident w1 of
             (Some err, w2) \<Rightarrow> (Inl err, w2)
           | (None, w2) \<Rightarrow> (Inr (Some ent), w2))
      | (Inr None, w1) \<Rightarrow> src_FindByID m ctx ident w1)"

definition inv_entity_hits :: "('v, 'i, 'c, 'w) Cache \<Rightarrow> 'v \<Rightarrow> string list" where
  "inv_entity_hits m ent =
     concat (map (\<lambda>inv. case CheckEntity inv of None \<Rightarrow> [] | Some check \<Rightarrow> check ent) (Invalidators m))"

definition refers_to :: "('v, 'i, 'c, 'w) Cache \<Rightarrow> 'i \<Rightarrow> 'i Hit \<Rightarrow> bool" where
  "refers_to m ident h \<longleftrightarrow>
     list_ex (\<lambda>gotID. gotID = ident) (EntityIDs h) \<or>
     list_ex (\<lambda>inv. case CheckHit inv of None \<Rightarrow> False | Some check \<Rightarrow> check h) (Invalidators m)"

fun collect_hits :: "('i Hit \<Rightarrow> bool) \<Rightarrow> 'i Hit itr \<Rightarrow> go_error + 'i Hit list" where
  "collect_hits p [] = Inr []"
| "collect_hits p ((h, Some err) # hs) = Inl err"
| "collect_hits p ((h, None) # hs) =
     (case collect_hits p hs of Inl err \<Rightarrow> Inl err | Inr l \<Rightarrow> Inr (if p h then h # l else l))"

fun drop_hits :: "('v, 'i, 'c, 'w) Cache \<Rightarrow> 'c \<Rightarrow> 'i Hit list \<Rightarrow> ('w, go_error option list) op" where
  "drop_hits m ctx [] w = ([], w)"
| "drop_hits m ctx (h # hs) w =
     (case invalidateCachedQueryWithoutCascadeEffect m ctx (hit_ID h) w of
        ((_, err), w1) \<Rightarrow> (case drop_hits m ctx hs w1 of (errs, w2) \<Rightarrow> (err # errs, w2)))"

definition inv_referring_hits :: "('v, 'i, 'c, 'w) Cache \<Rightarrow> 'c \<Rightarrow> 'i \<Rightarrow> ('w, go_error option) op" where
  "inv_referring_hits m ctx ident w =
     (case hits_FindAll m ctx w of
        (itr, w1) \<Rightarrow>
          (case collect_hits (refers_to m ident) itr of
             Inl err \<Rightarrow> (Some err, w1)
           | Inr hitIDs \<Rightarrow> (case drop_hits m ctx hitIDs w1 of (errs, w2) \<Rightarrow> (Merge errs, w2))))"

text \<open>
  \<^verbatim>\<open>InvalidateByID\<close> and \<^verbatim>\<open>InvalidateCachedQuery\<close> call each other; nothing in the code bounds the
  recursion, so their common model may have no value. The loops over hits and over entities are
  calls of their own.
\<close>

datatype 'i inv_call =
    InvalidateByID 'i
  | InvalidateCachedQuery string
  | EachHit "string list"
  | EachEntity "'i list"

partial_function (option) invalidate ::
    "('v, 'i, 'c, 'w) Cache \<Rightarrow> 'i inv_call \<Rightarrow> 'c \<Rightarrow> 'w \<Rightarrow> (go_error option \<times> 'w) option" where
  "invalidate m call ctx w =
     (case call of
        InvalidateByID ident \<Rightarrow>
          (case c_BeginTx m ctx w of
             ((_, Some err), w1) \<Rightarrow> Some (Some err, w1)
           | ((tx, None), w1) \<Rightarrow>
               Option.bind
                 (case inv_lookup m tx ident w1 of
                    (Inl err, w2) \<Rightarrow> Some (Some err, w2)
                  | (Inr found, w2) \<Rightarrow>
                      Option.bind
                        (case found of
                           None \<Rightarrow> Some (None, w2)
                         | Some ent \<Rightarrow> invalidate m (EachHit (inv_entity_hits m ent)) tx w2)
                        (\<lambda>(err, w3).
                           if err \<noteq> None then Some (err, w3)
                           else Option.bind (invalidate m (InvalidateCachedQuery (HitIDFindByID m ident)) tx w3)
                             (\<lambda>(err, w4). if err \<noteq> None then Some (err, w4)
                                          else Some (inv_referring_hits m tx ident w4))))
                 (\<lambda>(rErr, w5). Some (FinishOnePhaseCommit rErr (c_CommitTx m) (c_RollbackTx m) tx w5)))
      | InvalidateCachedQuery hitID \<Rightarrow>
          (case c_BeginTx m ctx w of
             ((_, Some err), w1) \<Rightarrow> Some (Some err, w1)
           | ((tx, None), w1) \<Rightarrow>
               Option.bind
                 (case invalidateCachedQueryWithoutCascadeEffect m tx hitID w1 of
                    ((_, Some err), w2) \<Rightarrow> Some (Some err, w2)
                  | ((None, None), w2) \<Rightarrow> Some (None, w2)
                  | ((Some hit, None), w2) \<Rightarrow> invalidate m (EachEntity (EntityIDs hit)) tx w2)
                 (\<lambda>(rErr, w5). Some (FinishOnePhaseCommit rErr (c_CommitTx m) (c_RollbackTx m) tx w5)))
      | EachHit hits \<Rightarrow>
          (case hits of
             [] \<Rightarrow> Some (None, w)
           | hit # rest \<Rightarrow>
               Option.bind (invalidate m (InvalidateCachedQuery hit) ctx w)
                 (\<lambda>(err, w1). if err \<noteq> None then Some (err, w1) else invalidate m (EachHit rest) ctx w1))
      | EachEntity idents \<Rightarrow>
          (case idents of
             [] \<Rightarrow> Some (None, w)
           | ident # rest \<Rightarrow>
               Option.bind (invalidate m (InvalidateByID ident) ctx w)
                 (\<lambda>(err, w1). if err \<noteq> None then Some (err, w1) else invalidate m (EachEntity rest) ctx w1)))"

definition DropCachedValues :: "('v, 'i, 'c, 'w) Cache \<Rightarrow> 'c \<Rightarrow> ('w, go_error option) op" where
  "DropCachedValues m ctx =
     OnePhaseCommit_run (c_BeginTx m) (c_CommitTx m) (c_RollbackTx m) ctx
       (\<lambda>tx w. case hits_DeleteAll m tx w of
                 (e1, w1) \<Rightarrow> (case ents_DeleteAll m tx w1 of (e2, w2) \<Rightarrow> (Merge [e1, e2], w2)))"

section \<open>Cached queries\<close>

type_synonym ('v, 'c, 'w) query_many = "'c \<Rightarrow> ('w, 'v itr) op"
type_synonym ('v, 'c, 'w) query_one = "'c \<Rightarrow> ('w, go_error + 'v option) op"
type_synonym ('v, 'w, 's) ranged = "('v \<times> go_error option \<Rightarrow> 'w \<times> 's \<Rightarrow> ('w \<times> 's) \<times> bool) \<Rightarrow> 'w \<times> 's \<Rightarrow> 'w \<times> 's"

definition range_query :: "('v, 'c, 'w) query_many \<Rightarrow> 'c \<Rightarrow> ('v, 'w, 's) ranged" where
  "range_query query ctx yield ws = (case query ctx (fst ws) of (itr, w) \<Rightarrow> yield_all yield itr (w, snd ws))"

fun cache_each :: "('v, 'i, 'c, 'w) Cache \<Rightarrow> 'c \<Rightarrow> 'i list \<Rightarrow> 'v itr \<Rightarrow> ('w, go_error + 'i list) op" where
  "cache_each m ctx ids [] w = (Inr ids, w)"
| "cache_each m ctx ids ((v, Some err) # itr) w = (Inl err, w)"
| "cache_each m ctx ids ((v, None) # itr) w =
     (case ents_Save m ctx v w of
        ((Some err, _), w1) \<Rightarrow> (Inl (ErrText ''cache Repository.Entities().Save had an error''), w1)
      | ((None, _), w1) \<Rightarrow> cache_each m ctx (ids @ [fst (Accessor_Lookup (c_IDA m) v)]) itr w1)"

definition cacheQuery ::
    "('v, 'i, 'c, 'w) Cache \<Rightarrow> 'c \<Rightarrow> string \<Rightarrow> ('v, 'c, 'w) query_many \<Rightarrow> ('w, go_error + 'i list) op" where
  "cacheQuery m ctx hitID query w =
     (case query ctx w of
        (itr, w1) \<Rightarrow>
          (case cache_each m ctx [] itr w1 of
             (Inl err, w2) \<Rightarrow> (Inl err, w2)
           | (Inr ids, w2) \<Rightarrow>
               (case hits_Save m ctx \<lparr>hit_ID = hitID, EntityIDs = ids, Timestamp = clock_now m w2\<rparr> w2 of
                  (Some err, w3) \<Rightarrow> (Inl (ErrText ''cache Repository.Hits().Save had an error''), w3)
                | (None, w3) \<Rightarrow> (Inr ids, w3))))"

definition mapQueryOneToQueryMany :: "('v, 'i, 'c, 'w) Cache \<Rightarrow> ('v, 'c, 'w) query_one \<Rightarrow> ('v, 'c, 'w) query_many" where
  "mapQueryOneToQueryMany m q ctx w =
     (case q ctx w of
        (Inl err, w1) \<Rightarrow> ([(zero_ent m, Some err)], w1)
      | (Inr None, w1) \<Rightarrow> ([], w1)
      | (Inr (Some ent), w1) \<Rightarrow> ([(ent, None)], w1))"

text \<open>
  The background refresh. How the scheduler runs a job, and the lock of the query it runs under, is
  the parameter \<open>go\<close>.
\<close>

type_synonym 'w background = "string \<Rightarrow> ('w \<Rightarrow> 'w) \<Rightarrow> 'w \<Rightarrow> 'w"

definition run_job :: "('v, 'i, 'c, 'w) Cache \<Rightarrow> 'c \<Rightarrow> string \<Rightarrow> ('v, 'c, 'w) query_many \<Rightarrow> 'w \<Rightarrow> 'w" where
  "run_job m ctx hitID query w = snd (cacheQuery m ctx hitID query w)"

definition doRefreshBehind ::
    "('v, 'i, 'c, 'w) Cache \<Rightarrow> 'w background \<Rightarrow> 'c \<Rightarrow> string \<Rightarrow> ('v, 'c, 'w) query_many \<Rightarrow> 'w \<Rightarrow> 'w" where
  "doRefreshBehind m go ctx hitID query w =
     (if \<not> RefreshBehind m then w else go hitID (run_job m (withoutCancel m ctx) hitID query) w)"

text \<open>Ranging over the cached entities of a hit: errors are skipped, and a missing entity drops the hit.\<close>

fun range_hit ::
    "('v, 'i, 'c, 'w) Cache \<Rightarrow> 'c \<Rightarrow> string \<Rightarrow> bool \<Rightarrow> 'v itr \<Rightarrow>
     ('v \<times> go_error option \<Rightarrow> 'w \<times> 's \<Rightarrow> ('w \<times> 's) \<times> bool) \<Rightarrow> 'w \<times> 's \<Rightarrow> ('w \<times> 's) \<times> bool \<times> bool" where
  "range_hit m ctx hitID ok [] yield ws = (ws, ok, False)"
| "range_hit m ctx hitID ok ((ent, Some err) # itr) yield ws =
     range_hit m ctx hitID ok itr yield
       (if errors_Is err crud_ErrNotFound then (snd (hits_DeleteByID m ctx hitID (fst ws)), snd ws) else ws)"
| "range_hit m ctx hitID ok ((ent, None) # itr) yield ws =
     (case yield (ent, None) ws of
        (ws', cont) \<Rightarrow> if \<not> cont then (ws', True, True) else range_hit m ctx hitID True itr yield ws')"

fun range_saved ::
    "bool \<Rightarrow> 'v itr \<Rightarrow> ('v \<times> go_error option \<Rightarrow> 'w \<times> 's \<Rightarrow> ('w \<times> 's) \<times> bool) \<Rightarrow> 'w \<times> 's \<Rightarrow> ('w \<times> 's) \<times> bool \<times> bool" where
  "range_saved ok [] yield ws = (ws, ok, False)"
| "range_saved ok ((v, Some err) # itr) yield ws = range_saved ok itr yield ws"
| "range_saved ok ((v, None) # itr) yield ws =
     (case yield (v, None) ws of
        (ws', cont) \<Rightarrow> if \<not> cont then (ws', True, True) else range_saved True itr yield ws')"

definition range_or_query ::
    "('w \<times> 's) \<times> bool \<times> bool \<Rightarrow> ('v, 'c, 'w) query_many \<Rightarrow> 'c \<Rightarrow>
     ('v \<times> go_error option \<Rightarrow> 'w \<times> 's \<Rightarrow> ('w \<times> 's) \<times> bool) \<Rightarrow> 'w \<times> 's" where
  "range_or_query r query ctx yield =
     (case r of (ws, ok, stopped) \<Rightarrow> if stopped \<or> ok then ws else range_query query ctx yield ws)"

definition CachedQueryMany ::
    "('v, 'i, 'c, 'w) Cache \<Rightarrow> 'w background \<Rightarrow> 'c \<Rightarrow> string \<Rightarrow> ('v, 'c, 'w) query_many \<Rightarrow>
     ('w, ('v, 'w, 's) ranged) op" where
  "CachedQueryMany m go ctx hitID query w =
     (case ctxErr m ctx w of
        Some err \<Rightarrow> (\<lambda>yield ws. yield_all yield [(zero_ent m, Some err)] ws, w)
      | None \<Rightarrow>
          (case hits_FindByID m ctx hitID w of
             (Inl err, w1) \<Rightarrow> (range_query query ctx, w1)
           | (Inr (Some hit), w1) \<Rightarrow>
               if length (EntityIDs hit) = 0 then (\<lambda>yield ws. ws, w1)
               else
                 (\<lambda>yield ws. case ents_FindByIDs m ctx (EntityIDs hit) (fst ws) of
                    (itr, w2) \<Rightarrow>
                      range_or_query (range_hit m ctx (hit_ID hit) False itr yield (w2, snd ws)) query ctx yield,
                  doRefreshBehind m go ctx hitID query w1)
           | (Inr None, w1) \<Rightarrow>
               (case cacheQuery m ctx hitID query w1 of
                  (Inl err, w2) \<Rightarrow> (range_query query ctx, w2)
                | (Inr ids, w2) \<Rightarrow>
                    (\<lambda>yield ws. case ents_FindByIDs m ctx ids (fst ws) of
                       (itr, w3) \<Rightarrow> range_or_query (range_saved False itr yield (w3, snd ws)) query ctx yield,
                     w2))))"

definition CachedQueryOne ::
    "('v, 'i, 'c, 'w) Cache \<Rightarrow> 'w background \<Rightarrow> 'c \<Rightarrow> string \<Rightarrow> ('v, 'c, 'w) query_one \<Rightarrow> ('w, go_error + 'v option) op" where
  "CachedQueryOne m go ctx hitID query w =
     (case CachedQueryMany m go ctx hitID (mapQueryOneToQueryMany m query) w of
        (vs, w1) \<Rightarrow>
          (case vs (\<lambda>x (w, _). ((w, Some x), False)) (w1, None) of
             (w2, Some (ent, Some err)) \<Rightarrow> (Inl err, w2)
           | (w2, Some (ent, None)) \<Rightarrow> (Inr (Some ent), w2)
           | (w2, None) \<Rightarrow> (Inr None, w2)))"

section \<open>Refreshing\<close>

definition RefreshQueryMany ::
    "('v, 'i, 'c, 'w) Cache \<Rightarrow> 'c \<Rightarrow> string \<Rightarrow> ('v, 'c, 'w) query_many \<Rightarrow> ('w, go_error option) op" where
  "RefreshQueryMany m ctx hitID query w =
     (case cacheQuery m ctx hitID query w of (Inl err, w1) \<Rightarrow> (Some err, w1) | (Inr _, w1) \<Rightarrow> (None, w1))"

definition RefreshQueryOne ::
    "('v, 'i, 'c, 'w) Cache \<Rightarrow> 'c \<Rightarrow> string \<Rightarrow> ('v, 'c, 'w) query_one \<Rightarrow> ('w, go_error option) op" where
  "RefreshQueryOne m ctx hitID query = RefreshQueryMany m ctx hitID (mapQueryOneToQueryMany m query)"

definition RefreshByID :: "('v, 'i, 'c, 'w) Cache \<Rightarrow> 'c \<Rightarrow> 'i \<Rightarrow> ('w, go_error option) op" where
  "RefreshByID m ctx ident = RefreshQueryOne m ctx (HitIDFindByID m ident) (\<lambda>c. src_FindByID m c ident)"

fun refresh_each :: "('v, 'i, 'c, 'w) Cache \<Rightarrow> 'c \<Rightarrow> go_error list \<Rightarrow> 'v itr \<Rightarrow> ('w, go_error option) op" where
  "refresh_each m ctx errs [] w = (Merge (map Some errs), w)"
| "refresh_each m ctx errs ((v, Some err) # itr) w = (Some err, w)"
| "refresh_each m ctx errs ((v, None) # itr) w =
     (case Accessor_Lookup (c_IDA m) v of
        (ident, False) \<Rightarrow> refresh_each m ctx errs itr w
      | (ident, True) \<Rightarrow>
          (case RefreshByID m ctx ident w of
             (Some err, w1) \<Rightarrow> refresh_each m ctx (errs @ [err]) itr w1
           | (None, w1) \<Rightarrow> refresh_each m ctx errs itr w1))"

definition Refresh :: "('v, 'i, 'c, 'w) Cache \<Rightarrow> 'c \<Rightarrow> ('w, go_error option) op" where
  "Refresh m ctx w =
     (case src_FindAll m of
        Some findAll \<Rightarrow> RefreshQueryMany m ctx HitIDFindAll findAll w
      | None \<Rightarrow> (case ents_FindAll m ctx w of (itr, w1) \<Rightarrow> refresh_each m ctx [] itr w1))"

section \<open>The repository methods\<close>

definition cache_Create :: "('v, 'i, 'c, 'w) Cache \<Rightarrow> 'c \<Rightarrow> 'v \<Rightarrow> ('w, go_error option \<times> 'v) op" where
  "cache_Create m ctx v w =
     (case src_Create m of
        None \<Rightarrow> ((Some (not_implemented ''Create''), v), w)
      | Some create \<Rightarrow>
          (case create ctx v w of
             ((Some err, v1), w1) \<Rightarrow> ((Some err, v1), w1)
           | ((None, v1), w1) \<Rightarrow> (case ents_Create m ctx v1 w1 of ((_, v2), w2) \<Rightarrow> ((None, v2), w2))))"

definition shouldUpdateRefreshByPtr :: "('v, 'i, 'c, 'w) Cache \<Rightarrow> 'c \<Rightarrow> 'v \<Rightarrow> 'w \<Rightarrow> ('v \<times> 'w) option" where
  "shouldUpdateRefreshByPtr m ctx v w =
     (if ctxErr m ctx w \<noteq> None then Some (v, w)
      else case ents_Save m ctx v w of
        ((None, v1), w1) \<Rightarrow> Some (v1, w1)
      | ((Some err, v1), w1) \<Rightarrow>
          (case Accessor_Lookup (c_IDA m) v1 of
             (ident, False) \<Rightarrow> Some (v1, w1)
           | (ident, True) \<Rightarrow>
               (case RefreshByID m ctx ident w1 of
                  (None, w2) \<Rightarrow> Some (v1, w2)
                | (Some _, w2) \<Rightarrow> map_option (\<lambda>(_, w3). (v1, w3)) (invalidate m (InvalidateByID ident) ctx w2))))"

definition cache_write_through ::
    "('v, 'i, 'c, 'w) Cache \<Rightarrow> string \<Rightarrow> ('c \<Rightarrow> 'v \<Rightarrow> ('w, go_error option \<times> 'v) op) option \<Rightarrow> 'c \<Rightarrow> 'v \<Rightarrow> 'w \<Rightarrow>
     ((go_error option \<times> 'v) \<times> 'w) option" where
  "cache_write_through m name src ctx v w =
     (case src of
        None \<Rightarrow> Some ((Some (not_implemented name), v), w)
      | Some write \<Rightarrow>
          (case write ctx v w of
             ((Some err, v1), w1) \<Rightarrow> Some ((Some err, v1), w1)
           | ((None, v1), w1) \<Rightarrow> map_option (\<lambda>(v2, w2). ((None, v2), w2)) (shouldUpdateRefreshByPtr m ctx v1 w1)))"

definition cache_Save :: "('v, 'i, 'c, 'w) Cache \<Rightarrow> 'c \<Rightarrow> 'v \<Rightarrow> 'w \<Rightarrow> ((go_error option \<times> 'v) \<times> 'w) option" where
  "cache_Save m = cache_write_through m ''Save'' (src_Save m)"

definition cache_Update :: "('v, 'i, 'c, 'w) Cache \<Rightarrow> 'c \<Rightarrow> 'v \<Rightarrow> 'w \<Rightarrow> ((go_error option \<times> 'v) \<times> 'w) option" where
  "cache_Update m = cache_write_through m ''Update'' (src_Update m)"

definition cache_FindByID :: "('v, 'i, 'c, 'w) Cache \<Rightarrow> 'w background \<Rightarrow> 'c \<Rightarrow> 'i \<Rightarrow> ('w, go_error + 'v option) op" where
  "cache_FindByID m go ctx ident w =
     (let hitID = HitIDFindByID m ident; query = (\<lambda>c. src_FindByID m c ident)
      in case ents_FindByID m ctx ident w of
           (Inl err, w1) \<Rightarrow> src_FindByID m ctx ident w1
         | (Inr (Some ent), w1) \<Rightarrow>
             (Inr (Some ent), doRefreshBehind m go ctx hitID (mapQueryOneToQueryMany m query) w1)
         | (Inr None, w1) \<Rightarrow> CachedQueryOne m go ctx hitID query w1)"

definition cache_FindAll :: "('v, 'i, 'c, 'w) Cache \<Rightarrow> 'w background \<Rightarrow> 'c \<Rightarrow> ('w, ('v, 'w, 's) ranged) op" where
  "cache_FindAll m go ctx w =
     (case src_FindAll m of
        None \<Rightarrow> (\<lambda>yield ws. yield_all yield [(zero_ent m, Some (not_implemented ''FindAll''))] ws, w)
      | Some findAll \<Rightarrow> CachedQueryMany m go ctx HitIDFindAll findAll w)"

definition cache_DeleteByID :: "('v, 'i, 'c, 'w) Cache \<Rightarrow> 'c \<Rightarrow> 'i \<Rightarrow> 'w \<Rightarrow> (go_error option \<times> 'w) option" where
  "cache_DeleteByID m ctx ident w =
     (case src_DeleteByID m of
        None \<Rightarrow> Some (Some (not_implemented ''DeleteByID''), w)
      | Some del \<Rightarrow>
          (case del ctx ident w of
             (Some err, w1) \<Rightarrow> Some (Some err, w1)
           | (None, w1) \<Rightarrow> invalidate m (InvalidateByID ident) ctx w1))"

definition cache_DeleteAll :: "('v, 'i, 'c, 'w) Cache \<Rightarrow> 'c \<Rightarrow> ('w, go_error option) op" where
  "cache_DeleteAll m ctx w =
     (case src_DeleteAll m of
        None \<Rightarrow> (Some (not_implemented ''DeleteAll''), w)
      | Some delAll \<Rightarrow>
          (case delAll ctx w of (Some err, w1) \<Rightarrow> (Some err, w1) | (None, w1) \<Rightarrow> DropCachedValues m ctx w1))"

section \<open>RefreshCache\<close>

record ('v, 'c, 'w) RefreshCache =
  rc_Refresh :: "('c \<Rightarrow> ('w, go_error + 'v) op) option"
  rc_IsExpired :: "('c \<Rightarrow> 'v \<Rightarrow> ('w, bool \<times> go_error option) op) option"
  rc_TimeToLive :: int
  rc_now :: "('w, int) op"

record 'v rc_state =
  rc_ptr :: "'v option"
  rc_at :: "int option"

definition rc_isExpired :: "('v, 'c, 'w) RefreshCache \<Rightarrow> 'v rc_state \<Rightarrow> 'c \<Rightarrow> ('w, bool \<times> go_error option) op" where
  "rc_isExpired m st ctx w =
     (case rc_ptr st of
        None \<Rightarrow> ((True, None), w)
      | Some v \<Rightarrow>
          (case (if 0 < rc_TimeToLive m then
                   (case rc_at st of
                      None \<Rightarrow> (True, w)
                    | Some at \<Rightarrow>
                        (case rc_now m w of
                           (now, w1) \<Rightarrow> let lived = now - at; left = rc_TimeToLive m - lived in (left \<le> 0, w1)))
                 else (False, w)) of
             (True, w1) \<Rightarrow> ((True, None), w1)
           | (False, w1) \<Rightarrow>
               (case rc_IsExpired m of
                  None \<Rightarrow> ((False, None), w1)
                | Some isExpired \<Rightarrow>
                    (case isExpired ctx v w1 of
                       ((_, Some err), w2) \<Rightarrow> ((False, Some err), w2)
                     | ((b, None), w2) \<Rightarrow> ((b, None), w2)))))"

definition rc_unsafeLookup :: "('v, 'c, 'w) RefreshCache \<Rightarrow> 'v rc_state \<Rightarrow> 'c \<Rightarrow> ('w, go_error + 'v option) op" where
  "rc_unsafeLookup m st ctx w =
     (case rc_ptr st of
        None \<Rightarrow> (Inr None, w)
      | Some v \<Rightarrow>
          (case rc_isExpired m st ctx w of
             ((_, Some err), w1) \<Rightarrow> (Inl err, w1)
           | ((True, None), w1) \<Rightarrow> (Inr None, w1)
           | ((False, None), w1) \<Rightarrow> (Inr (Some v), w1)))"

definition rc_refresh :: "('v, 'c, 'w) RefreshCache \<Rightarrow> 'c \<Rightarrow> ('v rc_state \<times> 'w, go_error option) op" where
  "rc_refresh m ctx s =
     (case s of (st, w) \<Rightarrow>
        (case rc_unsafeLookup m st ctx w of
           (Inl err, w1) \<Rightarrow> (Some err, (st, w1))
         | (Inr (Some _), w1) \<Rightarrow> (None, (st, w1))
         | (Inr None, w1) \<Rightarrow>
             (case rc_Refresh m of
                None \<Rightarrow> (Some (ErrPanic ''%T.Refresh func is missing''), (st, w1))
              | Some refresh \<Rightarrow>
                  (case refresh ctx w1 of
                     (Inl err, w2) \<Rightarrow> (Some err, (st, w2))
                   | (Inr v, w2) \<Rightarrow>
                       (case rc_now m w2 of
                          (now, w3) \<Rightarrow> (None, (st\<lparr>rc_ptr := Some v, rc_at := Some now\<rparr>, w3)))))))"

partial_function (option) rc_Load ::
    "('v, 'c, 'w) RefreshCache \<Rightarrow> 'c \<Rightarrow> 'v rc_state \<times> 'w \<Rightarrow> ((go_error + 'v) \<times> 'v rc_state \<times> 'w) option" where
  "rc_Load m ctx s =
     (case rc_unsafeLookup m (fst s) ctx (snd s) of
        (Inl err, w1) \<Rightarrow> Some (Inl err, (fst s, w1))
      | (Inr (Some v), w1) \<Rightarrow> Some (Inr v, (fst s, w1))
      | (Inr None, w1) \<Rightarrow>
          (case rc_refresh m ctx (fst s, w1) of
             (Some err, s2) \<Rightarrow> Some (Inl err, s2)
           | (None, s2) \<Rightarrow> rc_Load m ctx s2))"

section \<open>What the cache needs of its repository\<close>

text \<open>
  The contract of a cache repository whose operations do not fail: a stack of open contexts,
  innermost first, each seeing entities and hits; a transaction starts with its parent's view and
  its commit hands the view to the parent. Looking up an entity in the source neither fails nor changes the world.
\<close>

locale cache_store =
  fixes m :: "('v, 'i, 'c, 'w) Cache"
    and stack :: "'w \<Rightarrow> 'c list \<Rightarrow> bool"
    and ents :: "'w \<Rightarrow> 'c \<Rightarrow> 'i \<Rightarrow> 'v option"
    and hits :: "'w \<Rightarrow> 'c \<Rightarrow> string \<Rightarrow> 'i Hit option"
  assumes begin_tx: "stack w (c # cs) \<Longrightarrow> \<exists>c' w'. c_BeginTx m c w = ((c', None), w') \<and> stack w' (c' # c # cs) \<and>
      ents w' c' = ents w c \<and> hits w' c' = hits w c"
    and commit_tx: "stack w (c' # c # cs) \<Longrightarrow> \<exists>w'. c_CommitTx m c' w = (None, w') \<and> stack w' (c # cs) \<and>
      ents w' c = ents w c' \<and> hits w' c = hits w c'"
    and find_ent: "stack w (c # cs) \<Longrightarrow> ents_FindByID m c i w = (Inr (ents w c i), w)"
    and del_ent: "stack w (c # cs) \<Longrightarrow> ents w c i \<noteq> None \<Longrightarrow>
      \<exists>w'. ents_DeleteByID m c i w = (None, w') \<and> stack w' (c # cs) \<and>
        ents w' c = (ents w c)(i := None) \<and> hits w' c = hits w c"
    and find_hit: "stack w (c # cs) \<Longrightarrow> hits_FindByID m c k w = (Inr (hits w c k), w)"
    and del_hit: "stack w (c # cs) \<Longrightarrow> hits w c k \<noteq> None \<Longrightarrow>
      \<exists>w'. hits_DeleteByID m c k w = (None, w') \<and> stack w' (c # cs) \<and>
        ents w' c = ents w c \<and> hits w' c = (hits w c)(k := None)"
    and all_hits: "stack w (c # cs) \<Longrightarrow>
      \<exists>hs. hits_FindAll m c w = (map (\<lambda>h. (h, None)) hs, w) \<and> set hs = ran (hits w c)"
    and hit_keys: "stack w (c # cs) \<Longrightarrow> hits w c k = Some h \<Longrightarrow> hit_ID h = k"
    and hits_finite: "stack w (c # cs) \<Longrightarrow> finite (dom (hits w c))"
    and find_src: "stack w (c # cs) \<Longrightarrow> \<exists>r. src_FindByID m c i w = (Inr r, w)"
begin

definition shrunk :: "'c \<Rightarrow> 'c list \<Rightarrow> 'w \<Rightarrow> 'w \<Rightarrow> bool" where
  "shrunk c cs w w' \<longleftrightarrow> stack w' (c # cs) \<and> ents w' c \<subseteq>\<^sub>m ents w c \<and> hits w' c \<subseteq>\<^sub>m hits w c"

lemma shrunk_refl: "stack w (c # cs) \<Longrightarrow> shrunk c cs w w"
  by (simp add: shrunk_def)

lemma shrunk_trans: "shrunk c cs w w1 \<Longrightarrow> shrunk c cs w1 w2 \<Longrightarrow> shrunk c cs w w2"
  unfolding shrunk_def by (meson map_le_trans)

lemma shrunkD: "shrunk c cs w w' \<Longrightarrow> stack w' (c # cs)"
  by (simp add: shrunk_def)

lemma map_le_None: "f \<subseteq>\<^sub>m g \<Longrightarrow> g x = None \<Longrightarrow> f x = None"
  by (metis domIff map_le_def)

lemma shrunk_None:
  "shrunk c cs w w' \<Longrightarrow> ents w c i = None \<Longrightarrow> ents w' c i = None"
  "shrunk c cs w w' \<Longrightarrow> hits w c k = None \<Longrightarrow> hits w' c k = None"
  "shrunk c cs w w' \<Longrightarrow> hits w' c k = Some h \<Longrightarrow> hits w c k = Some h"
  unfolding shrunk_def by (auto simp: map_le_def dom_def dest: map_le_None)

lemma shrunk_card: "shrunk c cs w w' \<Longrightarrow> stack w (c # cs) \<Longrightarrow> card (dom (hits w' c)) \<le> card (dom (hits w c))"
  unfolding shrunk_def by (meson card_mono hits_finite map_le_implies_dom_le)

text \<open>What each kind of call leaves behind.\<close>

definition gone :: "'i \<Rightarrow> 'c \<Rightarrow> 'w \<Rightarrow> bool" where
  "gone i c w \<longleftrightarrow> ents w c i = None \<and> hits w c (HitIDFindByID m i) = None \<and>
     (\<forall>k h. hits w c k = Some h \<longrightarrow> \<not> refers_to m i h)"

lemma gone_shrunk: "gone i c w \<Longrightarrow> shrunk c cs w w' \<Longrightarrow> gone i c w'"
  unfolding gone_def using shrunk_None by metis

fun leaves :: "'i inv_call \<Rightarrow> 'c \<Rightarrow> 'w \<Rightarrow> bool" where
  "leaves (InvalidateByID i) c w = gone i c w"
| "leaves (InvalidateCachedQuery k) c w = (hits w c k = None)"
| "leaves (EachHit ks) c w = True"
| "leaves (EachEntity is) c w = True"

definition works :: "'i inv_call \<Rightarrow> 'c \<Rightarrow> 'c list \<Rightarrow> 'w \<Rightarrow> bool" where
  "works call c cs w \<longleftrightarrow> (\<exists>w'. invalidate m call c w = Some (None, w') \<and> shrunk c cs w w' \<and> leaves call c w')"

lemma worksE:
  assumes "works call c cs w"
  obtains w' where "invalidate m call c w = Some (None, w')" "shrunk c cs w w'" "leaves call c w'"
  using assms by (auto simp: works_def)

lemma drop_one:
  assumes "stack w (c # cs)"
  shows "\<exists>w'. invalidateCachedQueryWithoutCascadeEffect m c k w = ((hits w c k, None), w') \<and> shrunk c cs w w' \<and>
    hits w' c = (hits w c)(k := None)"
proof (cases "hits w c k")
  case None
  then have "hits w c = (hits w c)(k := None)" by auto
  with None assms show ?thesis
    by (auto simp: invalidateCachedQueryWithoutCascadeEffect_def find_hit intro!: shrunk_refl)
next
  case (Some h)
  with assms del_hit[of w c cs k] obtain w' where "hits_DeleteByID m c k w = (None, w')" "stack w' (c # cs)"
    "ents w' c = ents w c" "hits w' c = (hits w c)(k := None)" by blast
  with Some assms show ?thesis
    by (auto simp: invalidateCachedQueryWithoutCascadeEffect_def find_hit shrunk_def map_le_def dom_def)
qed

lemma drop_hits_ok:
  "stack w (c # cs) \<Longrightarrow> \<exists>w'. drop_hits m c hs w = (map (\<lambda>_. None) hs, w') \<and> shrunk c cs w w' \<and>
     (\<forall>h \<in> set hs. hits w' c (hit_ID h) = None)"
proof (induction hs arbitrary: w)
  case (Cons h hs)
  obtain w1 where w1: "invalidateCachedQueryWithoutCascadeEffect m c (hit_ID h) w = ((hits w c (hit_ID h), None), w1)"
    "shrunk c cs w w1" "hits w1 c = (hits w c)(hit_ID h := None)"
    using drop_one[OF Cons.prems] by blast
  from Cons.IH[OF shrunkD[OF w1(2)]] obtain w2 where "drop_hits m c hs w1 = (map (\<lambda>_. None) hs, w2)"
    "shrunk c cs w1 w2" "\<forall>h \<in> set hs. hits w2 c (hit_ID h) = None" by blast
  with w1 show ?case
    by (auto intro: shrunk_trans shrunk_None(2)[of c cs w1 w2])
qed (auto intro: shrunk_refl)

lemma collect_hits_ok: "collect_hits p (map (\<lambda>h. (h, None)) hs) = Inr (filter p hs)"
  by (induction hs) auto

lemma inv_referring_ok:
  assumes "stack w (c # cs)"
  shows "\<exists>w'. inv_referring_hits m c i w = (None, w') \<and> shrunk c cs w w' \<and>
    (\<forall>k h. hits w' c k = Some h \<longrightarrow> \<not> refers_to m i h)"
proof -
  obtain hs where hs: "hits_FindAll m c w = (map (\<lambda>h. (h, None)) hs, w)" "set hs = ran (hits w c)"
    using all_hits[OF assms] by blast
  obtain w' where w': "drop_hits m c (filter (refers_to m i) hs) w = (map (\<lambda>_. None) (filter (refers_to m i) hs), w')"
    "shrunk c cs w w'" "\<forall>h \<in> set (filter (refers_to m i) hs). hits w' c (hit_ID h) = None"
    using drop_hits_ok[OF assms] by blast
  have "\<not> refers_to m i h" if h: "hits w' c k = Some h" for k h
  proof
    assume "refers_to m i h"
    moreover have "hits w c k = Some h" using w'(2) h by (rule shrunk_None(3))
    moreover from this have "hit_ID h = k" using hit_keys[OF assms] by blast
    ultimately show False using w'(3) hs(2) h by (auto simp: ran_def)
  qed
  moreover have "Merge (map (\<lambda>_. None) xs) = None" for xs :: "'i Hit list"
    by (simp add: Merge_None_iff)
  ultimately show ?thesis using hs w' by (auto simp: inv_referring_hits_def collect_hits_ok)
qed

lemma inv_lookup_ok:
  assumes "stack w (c # cs)"
  shows "\<exists>found w'. inv_lookup m c i w = (Inr found, w') \<and> shrunk c cs w w' \<and> ents w' c i = None"
proof (cases "ents w c i")
  case None
  with assms find_src[OF assms, of i] show ?thesis by (auto simp: inv_lookup_def find_ent intro: shrunk_refl)
next
  case (Some v)
  with assms del_ent[of w c cs i] obtain w' where "ents_DeleteByID m c i w = (None, w')" "stack w' (c # cs)"
    "ents w' c = (ents w c)(i := None)" "hits w' c = hits w c" by blast
  with Some assms show ?thesis
    by (auto simp: inv_lookup_def find_ent shrunk_def map_le_def dom_def)
qed

text \<open>A body that works in a transaction works around it.\<close>

lemma in_tx:
  assumes "stack w (c # cs)"
    and body: "\<And>tx w1. c_BeginTx m c w = ((tx, None), w1) \<Longrightarrow> stack w1 (tx # c # cs) \<Longrightarrow> ents w1 tx = ents w c \<Longrightarrow>
      hits w1 tx = hits w c \<Longrightarrow> \<exists>w2. F tx w1 = Some (None, w2) \<and> shrunk tx (c # cs) w1 w2 \<and> Q (ents w2 tx) (hits w2 tx)"
  shows "\<exists>w'. (case c_BeginTx m c w of
      ((_, Some err), w1) \<Rightarrow> Some (Some err, w1)
    | ((tx, None), w1) \<Rightarrow> Option.bind (F tx w1)
        (\<lambda>(rErr, w5). Some (FinishOnePhaseCommit rErr (c_CommitTx m) (c_RollbackTx m) tx w5))) = Some (None, w') \<and>
    shrunk c cs w w' \<and> Q (ents w' c) (hits w' c)"
proof -
  obtain tx w1 where b: "c_BeginTx m c w = ((tx, None), w1)" "stack w1 (tx # c # cs)" "ents w1 tx = ents w c" "hits w1 tx = hits w c"
    using begin_tx[OF assms(1)] by blast
  obtain w2 where w2: "F tx w1 = Some (None, w2)" "shrunk tx (c # cs) w1 w2" "Q (ents w2 tx) (hits w2 tx)"
    using body[OF b] by blast
  obtain w3 where "c_CommitTx m tx w2 = (None, w3)" "stack w3 (c # cs)" "ents w3 c = ents w2 tx" "hits w3 c = hits w2 tx"
    using commit_tx[OF shrunkD[OF w2(2)]] by blast
  with b w2 show ?thesis by (auto simp: FinishOnePhaseCommit_def shrunk_def)
qed

end

context cache_store
begin

lemma query_works:
  assumes w: "stack w (c # cs)"
    and smaller: "\<And>is c cs w'. stack w' (c # cs) \<Longrightarrow> card (dom (hits w' c)) < card (dom (hits w c0)) \<Longrightarrow>
      works (EachEntity is) c cs w'"
    and c0: "c0 = c"
  shows "works (InvalidateCachedQuery k) c cs w"
proof -
  have "\<exists>w'. (case c_BeginTx m c w of
      ((_, Some err), w1) \<Rightarrow> Some (Some err, w1)
    | ((tx, None), w1) \<Rightarrow> Option.bind
        (case invalidateCachedQueryWithoutCascadeEffect m tx k w1 of
           ((_, Some err), w2) \<Rightarrow> Some (Some err, w2)
         | ((None, None), w2) \<Rightarrow> Some (None, w2)
         | ((Some hit, None), w2) \<Rightarrow> invalidate m (EachEntity (EntityIDs hit)) tx w2)
        (\<lambda>(rErr, w5). Some (FinishOnePhaseCommit rErr (c_CommitTx m) (c_RollbackTx m) tx w5))) = Some (None, w') \<and>
    shrunk c cs w w' \<and> hits w' c k = None"
  proof (rule in_tx[OF w, where Q = "\<lambda>e h. h k = None"])
    fix tx w1
    assume w1: "stack w1 (tx # c # cs)" "hits w1 tx = hits w c"
    obtain w2 where w2: "invalidateCachedQueryWithoutCascadeEffect m tx k w1 = ((hits w1 tx k, None), w2)"
      "shrunk tx (c # cs) w1 w2" "hits w2 tx = (hits w1 tx)(k := None)"
      using drop_one[OF w1(1)] by blast
    show "\<exists>w2. (case invalidateCachedQueryWithoutCascadeEffect m tx k w1 of
        ((_, Some err), w2) \<Rightarrow> Some (Some err, w2)
      | ((None, None), w2) \<Rightarrow> Some (None, w2)
      | ((Some hit, None), w2) \<Rightarrow> invalidate m (EachEntity (EntityIDs hit)) tx w2) = Some (None, w2) \<and>
      shrunk tx (c # cs) w1 w2 \<and> hits w2 tx k = None"
    proof (cases "hits w1 tx k")
      case None
      with w2 show ?thesis by auto
    next
      case (Some h)
      then have "k \<in> dom (hits w c)" using w1 by auto
      moreover have "dom (hits w2 tx) = dom (hits w c) - {k}" using w2(3) w1(2) by auto
      ultimately have "card (dom (hits w2 tx)) < card (dom (hits w c0))"
        using card_Diff1_less[OF hits_finite[OF w]] c0 by metis
      from smaller[OF shrunkD[OF w2(2)] this] obtain w3 where
        "invalidate m (EachEntity (EntityIDs h)) tx w2 = Some (None, w3)" "shrunk tx (c # cs) w2 w3"
        by (rule worksE)
      with w2 Some show ?thesis
        by (auto intro: shrunk_trans shrunk_None(2)[of tx "c # cs" w2 w3])
    qed
  qed
  then show ?thesis by (simp add: works_def invalidate.simps)
qed

lemma each_hit_works:
  assumes "\<And>k w'. shrunk c cs w w' \<Longrightarrow> works (InvalidateCachedQuery k) c cs w'" "stack w (c # cs)"
  shows "works (EachHit ks) c cs w"
proof -
  have "works (EachHit ks) c cs w'" if "shrunk c cs w w'" for w'
    using that
  proof (induction ks arbitrary: w')
    case Nil
    then show ?case by (auto simp: works_def invalidate.simps intro: shrunk_refl shrunkD)
  next
    case (Cons k ks)
    obtain w1 where w1: "invalidate m (InvalidateCachedQuery k) c w' = Some (None, w1)" "shrunk c cs w' w1"
      using assms(1)[OF Cons.prems] by (rule worksE)
    obtain w2 where "invalidate m (EachHit ks) c w1 = Some (None, w2)" "shrunk c cs w1 w2"
      using Cons.IH[OF shrunk_trans[OF Cons.prems w1(2)]] by (rule worksE)
    with w1 show ?case
      by (subst works_def, subst invalidate.simps) (auto intro: shrunk_trans)
  qed
  then show ?thesis using assms(2) shrunk_refl by blast
qed

lemma by_id_works:
  assumes w: "stack w (c # cs)"
    and query: "\<And>k c cs w'. stack w' (c # cs) \<Longrightarrow> card (dom (hits w' c)) \<le> card (dom (hits w c0)) \<Longrightarrow>
      works (InvalidateCachedQuery k) c cs w'"
    and c0: "c0 = c"
  shows "works (InvalidateByID i) c cs w"
proof -
  let ?body = "\<lambda>tx w1. case inv_lookup m tx i w1 of
      (Inl err, w2) \<Rightarrow> Some (Some err, w2)
    | (Inr found, w2) \<Rightarrow>
        Option.bind
          (case found of None \<Rightarrow> Some (None, w2) | Some ent \<Rightarrow> invalidate m (EachHit (inv_entity_hits m ent)) tx w2)
          (\<lambda>(err, w3).
             if err \<noteq> None then Some (err, w3)
             else Option.bind (invalidate m (InvalidateCachedQuery (HitIDFindByID m i)) tx w3)
               (\<lambda>(err, w4). if err \<noteq> None then Some (err, w4) else Some (inv_referring_hits m tx i w4)))"
  let ?Q = "\<lambda>e h. e i = None \<and> h (HitIDFindByID m i) = None \<and> (\<forall>k hit. h k = Some hit \<longrightarrow> \<not> refers_to m i hit)"
  have "\<exists>w'. (case c_BeginTx m c w of
      ((_, Some err), w1) \<Rightarrow> Some (Some err, w1)
    | ((tx, None), w1) \<Rightarrow> Option.bind (?body tx w1)
        (\<lambda>(rErr, w5). Some (FinishOnePhaseCommit rErr (c_CommitTx m) (c_RollbackTx m) tx w5))) = Some (None, w') \<and>
    shrunk c cs w w' \<and> ?Q (ents w' c) (hits w' c)"
  proof (rule in_tx[OF w, where Q = ?Q])
    fix tx w1
    assume w1: "stack w1 (tx # c # cs)" "hits w1 tx = hits w c"
    have works_in: "works (InvalidateCachedQuery k) tx (c # cs) w'" if "shrunk tx (c # cs) w1 w'" for k w'
      using query[OF shrunkD[OF that], of k] shrunk_card[OF that w1(1)] w1(2) c0 by simp
    obtain found w2 where w2: "inv_lookup m tx i w1 = (Inr found, w2)" "shrunk tx (c # cs) w1 w2" "ents w2 tx i = None"
      using inv_lookup_ok[OF w1(1)] by blast
    have each_hit: "works (EachHit ks) tx (c # cs) w2" for ks
      using works_in shrunk_trans[OF w2(2)] shrunkD[OF w2(2)] by (intro each_hit_works) auto
    obtain w3 where w3: "(case found of None \<Rightarrow> Some (None, w2)
        | Some ent \<Rightarrow> invalidate m (EachHit (inv_entity_hits m ent)) tx w2) = Some (None, w3)" "shrunk tx (c # cs) w2 w3"
    proof (cases found)
      case None
      with shrunk_refl[OF shrunkD[OF w2(2)]] show ?thesis by (intro that[of w2]) simp_all
    next
      case (Some ent)
      obtain w3 where "invalidate m (EachHit (inv_entity_hits m ent)) tx w2 = Some (None, w3)" "shrunk tx (c # cs) w2 w3"
        using each_hit by (rule worksE)
      with Some show ?thesis by (intro that[of w3]) simp_all
    qed
    have to_w3: "shrunk tx (c # cs) w1 w3" using w2(2) w3(2) by (rule shrunk_trans)
    obtain w4 where w4: "invalidate m (InvalidateCachedQuery (HitIDFindByID m i)) tx w3 = Some (None, w4)"
      "shrunk tx (c # cs) w3 w4" "hits w4 tx (HitIDFindByID m i) = None"
      using works_in[OF to_w3, of "HitIDFindByID m i"] by (auto elim: worksE)
    obtain w5 where w5: "inv_referring_hits m tx i w4 = (None, w5)" "shrunk tx (c # cs) w4 w5"
      "\<forall>k h. hits w5 tx k = Some h \<longrightarrow> \<not> refers_to m i h"
      using inv_referring_ok[OF shrunkD[OF w4(2)]] by blast
    have "ents w5 tx i = None" "hits w5 tx (HitIDFindByID m i) = None"
      using shrunk_None(1)[OF shrunk_trans[OF w3(2) shrunk_trans[OF w4(2) w5(2)]] w2(3)] shrunk_None(2)[OF w5(2) w4(3)]
      by auto
    moreover have "?body tx w1 = Some (None, w5)" using w2 w3 w4 w5 by simp
    moreover have "shrunk tx (c # cs) w1 w5"
      using to_w3 w4(2) w5(2) shrunk_trans by blast
    ultimately show "\<exists>w2. ?body tx w1 = Some (None, w2) \<and> shrunk tx (c # cs) w1 w2 \<and> ?Q (ents w2 tx) (hits w2 tx)"
      using w5(3) by blast
  qed
  then show ?thesis by (simp add: works_def invalidate.simps gone_def)
qed

lemma each_entity_works:
  assumes "\<And>i w'. shrunk c cs w w' \<Longrightarrow> works (InvalidateByID i) c cs w'" "stack w (c # cs)"
  shows "works (EachEntity is) c cs w"
proof -
  have "works (EachEntity is) c cs w'" if "shrunk c cs w w'" for w'
    using that
  proof (induction "is" arbitrary: w')
    case Nil
    then show ?case by (auto simp: works_def invalidate.simps intro: shrunk_refl shrunkD)
  next
    case (Cons k ks)
    obtain w1 where w1: "invalidate m (InvalidateByID k) c w' = Some (None, w1)" "shrunk c cs w' w1"
      using assms(1)[OF Cons.prems] by (rule worksE)
    obtain w2 where "invalidate m (EachEntity ks) c w1 = Some (None, w2)" "shrunk c cs w1 w2"
      using Cons.IH[OF shrunk_trans[OF Cons.prems w1(2)]] by (rule worksE)
    with w1 show ?case
      by (subst works_def, subst invalidate.simps) (auto intro: shrunk_trans)
  qed
  then show ?thesis using assms(2) shrunk_refl by blast
qed

text \<open>
  Every invalidation ends: a query that goes on to its entities has first deleted its own hit.
\<close>

lemma invalidations_work:
  "stack w (c # cs) \<Longrightarrow> card (dom (hits w c)) = n \<Longrightarrow>
     works (InvalidateCachedQuery k) c cs w \<and> works (InvalidateByID i) c cs w \<and> works (EachEntity is) c cs w"
proof (induction n arbitrary: w c cs k i "is" rule: less_induct)
  case (less n)
  have query: "works (InvalidateCachedQuery k) c' cs' w'"
    if "stack w' (c' # cs')" "card (dom (hits w' c')) \<le> n" for k c' cs' w'
  proof (rule query_works[OF that(1) _ refl])
    fix "is" c2 cs2 w2 assume "stack w2 (c2 # cs2)" "card (dom (hits w2 c2)) < card (dom (hits w' c'))"
    then show "works (EachEntity is) c2 cs2 w2"
      using less.IH[OF _ _ refl, of w2 c2] that(2) by simp
  qed
  have by_id: "works (InvalidateByID i) c' cs' w'"
    if "stack w' (c' # cs')" "card (dom (hits w' c')) \<le> n" for i c' cs' w'
    using query that(2) by (intro by_id_works[OF that(1) _ refl]) auto
  have "works (EachEntity is) c cs w"
    using by_id less.prems shrunk_card[OF _ less.prems(1)] shrunkD by (intro each_entity_works) auto
  with query by_id less.prems show ?case by auto
qed

lemma invalidate_by_id:
  assumes "stack w (c # cs)"
  shows "\<exists>w'. invalidate m (InvalidateByID i) c w = Some (None, w') \<and> stack w' (c # cs) \<and> gone i c w' \<and>
    ents w' c \<subseteq>\<^sub>m ents w c \<and> hits w' c \<subseteq>\<^sub>m hits w c"
  using invalidations_work[OF assms refl, of k i "is"] unfolding works_def shrunk_def by auto

end

section \<open>Properties of RefreshCache\<close>

text \<open>The readings of the clock that one call makes follow each other, less than the time to live apart.\<close>

definition clock_steps :: "('v, 'c, 'w) RefreshCache \<Rightarrow> bool" where
  "clock_steps m \<longleftrightarrow>
     (\<forall>w now w' now' w''. rc_now m w = (now, w') \<longrightarrow> rc_now m w' = (now', w'') \<longrightarrow>
        now \<le> now' \<and> now' - now < rc_TimeToLive m)"

lemma rc_unsafeLookup_ttl:
  assumes "rc_IsExpired m = None"
  shows "rc_unsafeLookup m st ctx w =
    (case rc_ptr st of None \<Rightarrow> (Inr None, w)
     | Some v \<Rightarrow>
         if rc_TimeToLive m \<le> 0 then (Inr (Some v), w)
         else (case rc_at st of None \<Rightarrow> (Inr None, w)
               | Some t \<Rightarrow> (if rc_TimeToLive m \<le> fst (rc_now m w) - t then Inr None else Inr (Some v), snd (rc_now m w))))"
  using assms
  by (auto simp: rc_unsafeLookup_def rc_isExpired_def Let_def split: option.splits prod.splits)

lemma rc_unsafeLookup_again:
  assumes "rc_IsExpired m = None" "0 < rc_TimeToLive m \<Longrightarrow> clock_steps m" "rc_unsafeLookup m st ctx w = (Inr None, w1)"
  shows "fst (rc_unsafeLookup m st ctx w1) = Inr None"
proof -
  have "fst (rc_now m w) \<le> fst (rc_now m (snd (rc_now m w)))" if "0 < rc_TimeToLive m"
    using assms(2)[OF that] unfolding clock_steps_def by (metis prod.collapse)
  with assms(3) show ?thesis
    by (auto simp: rc_unsafeLookup_ttl[OF assms(1)] split: option.splits if_splits)
qed

lemma rc_unsafeLookup_fresh:
  assumes "rc_IsExpired m = None" "0 < rc_TimeToLive m \<Longrightarrow> clock_steps m" "rc_now m w = (now, w1)"
  shows "\<exists>w2. rc_unsafeLookup m (st\<lparr>rc_ptr := Some v, rc_at := Some now\<rparr>) ctx w1 = (Inr (Some v), w2)"
proof -
  have "fst (rc_now m w1) - now < rc_TimeToLive m" if "0 < rc_TimeToLive m"
    using assms(2)[OF that] assms(3) unfolding clock_steps_def by (metis prod.collapse)
  then have "\<not> rc_TimeToLive m \<le> fst (rc_now m w1) - now" if "0 < rc_TimeToLive m"
    using that by fastforce
  then show ?thesis by (auto simp: rc_unsafeLookup_ttl[OF assms(1)] not_le)
qed

text \<open>Load refreshes at most once and returns. Without an IsExpired function, and with a clock whose
  successive readings are less than the time to live apart, Load ends on every state: with the kept value
  when that is fresh, or else after exactly one Refresh, with its error and the state unchanged, or with its
  value, which is kept with the time of the refresh.\<close>

theorem rc_Load_refreshes_once:
  assumes "rc_IsExpired m = None" "0 < rc_TimeToLive m \<Longrightarrow> clock_steps m" "rc_Refresh m = Some refresh"
  shows "case rc_unsafeLookup m st ctx w of
      (Inl err, w1) \<Rightarrow> False
    | (Inr (Some v), w1) \<Rightarrow> rc_Load m ctx (st, w) = Some (Inr v, (st, w1))
    | (Inr None, w1) \<Rightarrow>
        (case refresh ctx (snd (rc_unsafeLookup m st ctx w1)) of
           (Inl err, w2) \<Rightarrow> rc_Load m ctx (st, w) = Some (Inl err, (st, w2))
         | (Inr v, w2) \<Rightarrow> \<exists>w3. rc_Load m ctx (st, w) =
             Some (Inr v, (st\<lparr>rc_ptr := Some v, rc_at := Some (fst (rc_now m w2))\<rparr>, w3)))"
proof -
  obtain r w1 where l: "rc_unsafeLookup m st ctx w = (Inr r, w1)"
    by (cases "fst (rc_unsafeLookup m st ctx w)")
       (auto simp: rc_unsafeLookup_ttl[OF assms(1)] split: option.splits if_splits)
  show ?thesis
  proof (cases r)
    case (Some v)
    with l show ?thesis by (simp add: rc_Load.simps)
  next
    case None
    then obtain w2 where l2: "rc_unsafeLookup m st ctx w1 = (Inr None, w2)"
      using rc_unsafeLookup_again[OF assms(1,2)] l by (metis prod.collapse)
    show ?thesis
    proof (cases "refresh ctx w2")
      case (Pair x w3)
      show ?thesis
      proof (cases x)
        case (Inl err)
        with l l2 None Pair assms(3) show ?thesis by (simp add: rc_Load.simps rc_refresh_def)
      next
        case (Inr v)
        obtain now w4 where n: "rc_now m w3 = (now, w4)" by force
        let ?st = "st\<lparr>rc_ptr := Some v, rc_at := Some now\<rparr>"
        obtain w5 where "rc_unsafeLookup m ?st ctx w4 = (Inr (Some v), w5)"
          using rc_unsafeLookup_fresh[OF assms(1,2) n] by blast
        then have "rc_Load m ctx (?st, w4) = Some (Inr v, (?st, w5))" by (simp add: rc_Load.simps)
        with l l2 None Pair Inr assms(3) n show ?thesis
          by (subst rc_Load.simps) (simp add: rc_refresh_def, subst rc_Load.simps, simp add: rc_refresh_def)
      qed
    qed
  qed
qed

definition ex_refresh :: "(nat, unit, int) RefreshCache" where
  "ex_refresh = \<lparr>rc_Refresh = Some (\<lambda>ctx w. (Inr 7, w + 1)), rc_IsExpired = None, rc_TimeToLive = 5, rc_now = (\<lambda>w. (w, w + 1))\<rparr>"

text \<open>Load may loop for ever. When IsExpired calls every value expired, as it may for a value that the
  source already hands out stale, and Refresh never fails, Load returns on no state, whether its context is
  cancelled or not: the loop does not look at the context.\<close>

theorem rc_Load_always_expired:
  assumes "rc_IsExpired m = Some isExpired" "\<And>v w. fst (isExpired ctx v w) = (True, None)"
    and "rc_Refresh m = Some refresh" "\<And>w. \<exists>v w'. refresh ctx w = (Inr v, w')"
  shows "rc_Load m ctx s = None"
proof -
  have look: "\<exists>w'. rc_unsafeLookup m st ctx w = (Inr None, w')" for st w
  proof (cases "rc_ptr st")
    case (Some v)
    have "\<exists>w'. isExpired ctx v w = ((True, None), w')" for w
      using assms(2)[of v w] by (metis prod.collapse)
    then have "\<exists>w'. rc_isExpired m st ctx w = ((True, None), w')"
      unfolding rc_isExpired_def Some assms(1) Let_def
      by (smt (verit) case_prod_conv option.case option.exhaust prod.exhaust bool.case_eq_if)
    with Some show ?thesis by (auto simp: rc_unsafeLookup_def)
  qed (simp add: rc_unsafeLookup_def)
  have step: "\<exists>w1 s2. rc_unsafeLookup m (fst s) ctx (snd s) = (Inr None, w1) \<and> rc_refresh m ctx (fst s, w1) = (None, s2)" for s
  proof -
    obtain w1 where w1: "rc_unsafeLookup m (fst s) ctx (snd s) = (Inr None, w1)" using look by blast
    obtain w2 where w2: "rc_unsafeLookup m (fst s) ctx w1 = (Inr None, w2)" using look by blast
    obtain v w3 where "refresh ctx w2 = (Inr v, w3)" using assms(4) by blast
    with w1 w2 show ?thesis by (cases "rc_now m w3") (simp add: rc_refresh_def assms(3))
  qed
  have never: "\<not> (m' = m \<and> c = ctx)" if "rc_Load m' c s = Some y" for m' c s y
  proof (rule rc_Load.raw_induct[where P = "\<lambda>m' c s y. \<not> (m' = m \<and> c = ctx)", OF _ that], rule notI, elim conjE, goal_cases)
    case (1 f m' c s y)
    obtain w1 s2 where "rc_unsafeLookup m (fst s) ctx (snd s) = (Inr None, w1)" "rc_refresh m ctx (fst s, w1) = (None, s2)"
      using step[of s] by blast
    with 1 have "f m ctx s2 = Some y" by simp
    then show False using 1(1)[of m ctx s2 y] by simp
  qed
  show ?thesis using never[of m ctx s] by (cases "rc_Load m ctx s") auto
qed

end
