(* ===== verification/MemoryStack.thy ===== *)
theory MemoryStack imports MemoryRepository begin

text \<open>
  Nested transactions of the in-memory store as a stack of contexts, as a running operation holds them:
  what \<^verbatim>\<open>BeginTx\<close>, \<^verbatim>\<open>CommitTx\<close> and a write through the innermost context do to
  the view of each. The repositories built on the store interpret their clients' interfaces with it.
\<close>

section \<open>Stacks of open transactions\<close>

text \<open>
  The contexts of a running operation, innermost first: each but the last is in an open transaction
  started from the next, whose cancel function no outer context listens to.
\<close>

definition tx_above :: "'v memory \<Rightarrow> mctx \<Rightarrow> mctx list \<Rightarrow> bool" where
  "tx_above m c cs \<longleftrightarrow>
     (cs \<noteq> [] \<longrightarrow>
        (case mem_LookupTx m c of None \<Rightarrow> False
         | Some a \<Rightarrow> tx_super (mem_txs m ! a) = ctx_actions m (hd cs) \<and> tx_cancel (mem_txs m ! a) < next_cancel m \<and>
             list_all (\<lambda>d. tx_cancel (mem_txs m ! a) \<notin> ctx_cancels d \<and> mem_LookupTx m d \<noteq> Some a) cs))"

fun mem_stack :: "'v memory \<Rightarrow> mctx list \<Rightarrow> bool" where
  "mem_stack m [] = True"
| "mem_stack m (c # cs) =
     (mem_open m c \<and> ctx_Err m c = None \<and> ctx_fresh_below m c \<and> tx_above m c cs \<and> mem_stack m cs)"

lemma mem_stack_wf: "mem_stack m (c # cs) \<Longrightarrow> mem_wf m"
  by (simp add: mem_open_def)

lemma mem_meta_cancel:
  "mem_meta m = mem_meta m' \<Longrightarrow> a < length (mem_txs m) \<Longrightarrow> tx_cancel (mem_txs m ! a) = tx_cancel (mem_txs m' ! a)"
  using mem_meta_length[of m m']
  by (auto simp: mem_meta_def dest: map_eq_imp_length_eq arg_cong[where f = "\<lambda>l. l ! a"])

text \<open>Whether a list of contexts is a stack depends on the shape of the transactions only.\<close>

lemma mem_stack_meta:
  fixes m m' :: "'v memory"
  assumes "mem_meta m' = mem_meta m" "mem_wf m'" "mem_stack m cs"
  shows "mem_stack m' cs"
  using assms(3)
proof (induction cs)
  case (Cons c cs)
  have L: "mem_LookupTx m' d = mem_LookupTx m d" for d
    using assms(1) by (simp add: mem_LookupTx_def mem_meta_def)
  have A: "ctx_actions m' d = ctx_actions m d" for d by (simp add: ctx_actions_def L)
  have o: "mem_open m' c" "ctx_Err m' c = ctx_Err m c"
    using mem_open_meta[OF _ assms(1,2), of c] Cons.prems by auto
  have "ctx_fresh_below m' c" using Cons.prems assms(1) by (simp add: ctx_fresh_below_def mem_meta_def)
  moreover have "tx_above m' c cs"
    using Cons.prems mem_meta_nth[OF assms(1)[symmetric]] mem_meta_cancel[OF assms(1)[symmetric]]
    using assms(1) by (auto simp: tx_above_def L A mem_open_def ctx_ok_def mem_meta_def split: option.splits)
  ultimately show ?case using Cons o by simp
qed simp

lemma ctx_Err_mem_txs: "ctx_Err (m\<lparr>mem_txs := x\<rparr>) d = ctx_Err m d"
  by (rule ctx_Err_cong) simp

lemma mem_stack_fresh:
  "mem_stack m cs \<Longrightarrow> d \<in> set cs \<Longrightarrow>
     ctx_fresh_below m d \<and> mem_open m d \<and> ctx_Err m d = None"
  by (induction cs) auto

lemma ctx_fresh_next: "ctx_fresh_below m d \<Longrightarrow> next_cancel m \<notin> ctx_cancels d"
  by (auto simp: ctx_fresh_below_def)

lemma mem_stack_append_tx:
  assumes "mem_wf m'" "mem_stack m cs"
    and "mem_txs m' = mem_txs m @ [t]" "mem_NS m' = mem_NS m" "cancelled m' = cancelled m" "next_cancel m' = Suc (next_cancel m)"
  shows "mem_stack m' cs"
  using assms(2)
proof (induction cs)
  case (Cons c cs)
  have L: "mem_LookupTx m' d = mem_LookupTx m d" for d
    using assms by (simp add: mem_LookupTx_def)
  have A: "ctx_actions m' d = ctx_actions m d" for d by (simp add: ctx_actions_def L)
  have old: "mem_txs m' ! a = mem_txs m ! a" if "a < length (mem_txs m)" for a
    using that assms(3) by (simp add: nth_append)
  have "ctx_Err m' c = ctx_Err m c" using assms(5) by (rule ctx_Err_cong)
  moreover have "ctx_fresh_below m' c"
    using Cons.prems assms(5,6) by (auto simp: ctx_fresh_below_def less_Suc_eq)
  moreover have "mem_open m' c"
    using Cons.prems assms(1,3) by (auto simp: mem_open_def ctx_ok_def L nth_append less_SucI split: option.splits)
  moreover have "tx_above m' c cs"
    using Cons.prems assms(6) by (auto simp: tx_above_def L A old mem_open_def ctx_ok_def split: option.splits)
  ultimately show ?case using Cons by simp
qed simp

lemma mem_stack_BeginTx:
  assumes "mem_stack m (c # cs)"
  obtains c' m' where "mem_BeginTx c m = ((c', None), m')" "mem_stack m' (c' # c # cs)" "mem_Get m' c' = mem_Get m c"
proof -
  have c: "mem_open m c" "ctx_Err m c = None" "ctx_fresh_below m c" using assms by auto
  then have ok: "mem_wf m" "ctx_ok m c" by (simp_all add: mem_open_def)
  let ?n = "length (mem_txs m)" and ?i = "next_cancel m"
  define t where "t = \<lparr>tx_done = False,
      tx_super = (case mem_LookupTx m c of Some tx \<Rightarrow> SuperTx tx | None \<Rightarrow> SuperMemory), tx_changes = ([] :: (string, 'a tx_changes) gomap),
      tx_cancel = ?i\<rparr>"
  define m' where "m' = m\<lparr>next_cancel := Suc ?i, mem_txs := mem_txs m @ [t]\<rparr>"
  define c' where "c' = WithValueCtx (mem_NS m) ?n (WithCancelCtx ?i c)"
  have b: "mem_BeginTx c m = ((c', None), m')"
    using c(2) by (simp add: mem_BeginTx_def context_WithCancel_def Let_def m'_def c'_def t_def)
  note B = mem_BeginTx_ok[OF ok b]
  have rest: "mem_stack m' (c # cs)"
    using B assms by (intro mem_stack_append_tx[of m' m "c # cs" t]) (auto simp: m'_def)
  have "ctx_Err m' c' = None"
    using c ctx_Err_cong[of m' m c] by (auto simp: c'_def m'_def ctx_fresh_below_def)
  moreover have "ctx_fresh_below m' c'"
    using c(3) by (auto simp: ctx_fresh_below_def c'_def m'_def less_Suc_eq)
  moreover have L: "mem_LookupTx m' c' = Some ?n" using B by simp
  moreover have "mem_open m' c'" using B L by (simp add: mem_open_def ctx_ok_def)
  moreover have "tx_above m' c' (c # cs)"
  proof -
    have "ctx_actions m' c = tx_super t" by (simp add: ctx_actions_def t_def m'_def mem_LookupTx_def)
    moreover have "?i \<notin> ctx_cancels d \<and> mem_LookupTx m' d \<noteq> Some ?n" if "d \<in> set (c # cs)" for d
      using mem_stack_fresh[OF assms that] ctx_fresh_next[of m d]
      by (auto simp: mem_open_def ctx_ok_def mem_LookupTx_def m'_def)
    ultimately show ?thesis
      by (simp add: tx_above_def L list_all_iff) (simp add: m'_def t_def)
  qed
  ultimately have st: "mem_stack m' (c' # c # cs)" using rest by simp
  have "mem_Get m' c' = act_lookup (tx_super t) m'"
    using mem_BeginTx_view[OF ok b] B L by (simp add: mem_Get_open) (simp add: m'_def)
  also have "\<dots> = mem_Get m' c" using mem_open_actions(2)[of m' c] rest by (simp add: ctx_actions_def t_def m'_def mem_LookupTx_def)
  finally have "mem_Get m' c' = mem_Get m' c" .
  moreover have "mem_Get m' c = mem_Get m c"
  proof -
    have "mem_open m' c" using rest by simp
    moreover have "ctx_actions m' c = ctx_actions m c" by (simp add: ctx_actions_def mem_LookupTx_def m'_def)
    moreover have "act_lookup (ctx_actions m c) m = act_lookup (ctx_actions m c) m'"
    proof (intro ext act_lookup_cong)
      fix b assume "b \<in> set (act_chain (ctx_actions m c) m)"
      then have "b < length (mem_txs m)"
        using ok(2) by (auto simp: act_chain_def ctx_actions_def ctx_ok_def dest!: tx_chain_le split: option.splits)
      then show "same_tx (mem_txs m ! b) (mem_txs m' ! b)" by (simp add: same_tx_def m'_def nth_append)
    qed (simp add: mem_namespace_def m'_def)
    ultimately show ?thesis using c(1) mem_open_actions(2) by metis
  qed
  ultimately show ?thesis using that[OF b st] by simp
qed

lemma mem_stack_CommitTx:
  assumes "mem_stack m (c' # c # cs)"
  obtains m' where "mem_CommitTx c' m = (None, m')" "mem_stack m' (c # cs)" "mem_Get m' c = mem_Get m c'"
proof -
  obtain a where a: "mem_LookupTx m c' = Some a" "tx_super (mem_txs m ! a) = ctx_actions m c"
    "\<forall>d \<in> set (c # cs). tx_cancel (mem_txs m ! a) \<notin> ctx_cancels d \<and> mem_LookupTx m d \<noteq> Some a"
    "tx_cancel (mem_txs m ! a) < next_cancel m"
    using assms by (auto simp: tx_above_def list_all_iff split: option.splits)
  have o: "mem_wf m" "ctx_ok m c'" "ctx_Err m c' = None" "\<not> tx_done (mem_txs m ! a)" "mem_open m c'"
    using assms a(1) by (auto simp: mem_open_def)
  obtain r m' where cm: "mem_CommitTx c' m = (r, m')" by force
  note E = mem_commit_effect[OF o(1-3) a(1) o(4) cm]
  have fin: "mem_stack (tx_finish a m) ds" if "mem_stack m ds" "set ds \<subseteq> set (c # cs)" for ds
    using that
  proof (induction ds)
    case (Cons d ds)
    have L: "mem_LookupTx (tx_finish a m) x = mem_LookupTx m x" for x by (simp add: mem_LookupTx_def)
    have A: "ctx_actions (tx_finish a m) x = ctx_actions m x" for x by (simp add: ctx_actions_def L)
    have alt: "a < length (mem_txs m)" using o(2) a(1) by (rule ctx_okD)
    have can: "tx_cancel (mem_txs (tx_finish a m) ! b) = tx_cancel (mem_txs m ! b)" for b
      by (simp add: tx_finish_def context_cancel_def nth_list_update_if)
    have d: "tx_cancel (mem_txs m ! a) \<notin> ctx_cancels d" "mem_LookupTx m d \<noteq> Some a" using Cons.prems a(3) by auto
    have "ctx_Err (tx_finish a m) d = None"
      using Cons.prems by (simp add: tx_finish_def context_cancel_other[OF d(1)] ctx_Err_mem_txs)
    moreover have "mem_open (tx_finish a m) d"
      using Cons.prems d(2) alt by (auto simp: mem_open_def ctx_ok_def L tx_finish_done split: option.splits)
    moreover have "ctx_fresh_below (tx_finish a m) d"
      using Cons.prems a(4) by (auto simp: ctx_fresh_below_def tx_finish_def context_cancel_def)
    moreover have "tx_above (tx_finish a m) d ds"
      using Cons.prems by (auto simp: tx_above_def L A can split: option.splits)
    ultimately show ?case using Cons by simp
  qed simp
  have "mem_stack m' (c # cs)"
    using mem_stack_meta[of m' "tx_finish a m" "c # cs"] fin[of "c # cs"] E assms by simp
  moreover have "ctx_actions m' c = ctx_actions m c"
    using E by (simp add: ctx_actions_def mem_LookupTx_def mem_meta_def)
  ultimately show ?thesis
    using that[of m'] cm E mem_open_actions(2)[of m' c] mem_Get_open[OF a(1) o(4)] a(2) by simp
qed

lemma finite_mem_Get: "mem_open m c \<Longrightarrow> finite (dom (mem_Get m c ns))"
  using mem_open_actions(1,2)[of m c] act.lookup_all[of "ctx_actions m c" m ns]
  by (metis dom_map_of_conv_image_fst ext finite_imageI List.finite_set)

lemma mem_stack_Set:
  assumes "mem_stack m (c # cs)"
  shows "mem_stack (mem_Set c ns k v m) (c # cs)" "mem_Get (mem_Set c ns k v m) c = kv_put ns k v (mem_Get m c)"
proof -
  have o: "mem_open m c" using assms by simp
  note S = mem_open_Set(1,2)[OF o, of ns k v]
  show "mem_Get (mem_Set c ns k v m) c = kv_put ns k v (mem_Get m c)" by (rule S(2))
  show "mem_stack (mem_Set c ns k v m) (c # cs)"
    using mem_stack_meta[OF _ _ assms, of "mem_Set c ns k v m"] S(1)
    by (simp add: mem_open_actions(3)[OF o] mem_open_def)
qed

section \<open>What a namespace may hold\<close>

text \<open>
  Every value that the committed table of a namespace, or the change set of a transaction for it, keeps
  under a key is allowed there. No operation but a write brings a value in, so what writes respect holds of
  every read.
\<close>

definition changes_hold :: "string \<Rightarrow> (string \<Rightarrow> 'v \<Rightarrow> bool) \<Rightarrow> (string, 'v tx_changes) gomap \<Rightarrow> bool" where
  "changes_hold ns P chs \<longleftrightarrow> (\<forall>(n, ch) \<in> set chs. n = ns \<longrightarrow> (\<forall>(k, v) \<in> set (Values ch). P k v))"

definition mem_holds :: "string \<Rightarrow> (string \<Rightarrow> 'v \<Rightarrow> bool) \<Rightarrow> 'v memory \<Rightarrow> bool" where
  "mem_holds ns P m \<longleftrightarrow>
     (\<forall>(n, t) \<in> set (tables m). n = ns \<longrightarrow> (\<forall>(k, v) \<in> set t. P k v)) \<and>
     (\<forall>tx \<in> set (mem_txs m). changes_hold ns P (tx_changes tx))"

lemma set_gm_set: "(k', v') \<in> set (gm_set k v m) \<Longrightarrow> (k', v') = (k, v) \<or> (k', v') \<in> set m"
  unfolding gm_set_def by (induction m) (auto split: if_splits)

lemma set_gm_del: "x \<in> set (gm_del k m) \<Longrightarrow> x \<in> set m"
  by (auto simp: gm_del_def AList.delete_eq)

lemma gm_get_or_cases: "gm_get_or z m k = z \<or> (k, gm_get_or z m k) \<in> set m"
  by (auto simp: gm_get_or_def dest: map_of_SomeD split: option.split)

lemma mem_holds_namespace: "mem_holds ns P m \<Longrightarrow> (k, v) \<in> set (mem_namespace m ns) \<Longrightarrow> P k v"
  using gm_get_or_cases[of "[]" "tables m" ns] by (fastforce simp: mem_holds_def mem_namespace_def)

lemma mem_holds_tx: "mem_holds ns P m \<Longrightarrow> a < length (mem_txs m) \<Longrightarrow> changes_hold ns P (tx_changes (mem_txs m ! a))"
  by (simp add: mem_holds_def)

lemma mem_holds_changes:
  "mem_holds ns P m \<Longrightarrow> a < length (mem_txs m) \<Longrightarrow> (k, v) \<in> set (Values (tx_getChanges m a ns)) \<Longrightarrow> P k v"
  using gm_get_or_cases[of "\<lparr>Values = [], Deleted = []\<rparr>" "tx_changes (mem_txs m ! a)" ns] mem_holds_tx[of ns P m a]
  by (fastforce simp: changes_hold_def tx_getChanges_def)

lemma mem_holds_NewMemory: "mem_holds ns P (NewMemory n)"
  by (simp add: mem_holds_def NewMemory_def)

lemma mem_holds_ctx [simp]:
  "mem_holds ns P (m\<lparr>next_cancel := i\<rparr>) = mem_holds ns P m" "mem_holds ns P (context_cancel i m) = mem_holds ns P m"
  by (simp_all add: mem_holds_def context_cancel_def)

lemma mem_holds_set_table:
  "mem_holds ns P m \<Longrightarrow> (n = ns \<Longrightarrow> \<forall>(k, v) \<in> set t. P k v) \<Longrightarrow> mem_holds ns P (m\<lparr>tables := gm_set n t (tables m)\<rparr>)"
  by (fastforce simp: mem_holds_def dest: set_gm_set)

lemma mem_holds_set_tx:
  assumes "mem_holds ns P m" "a < length (mem_txs m) \<Longrightarrow> changes_hold ns P (tx_changes t)"
  shows "mem_holds ns P (m\<lparr>mem_txs := (mem_txs m)[a := t]\<rparr>)"
proof (cases "a < length (mem_txs m)")
  case True
  have "tx = t \<or> tx \<in> set (mem_txs m)" if "tx \<in> set ((mem_txs m)[a := t])" for tx
    using that set_update_subset_insert by fast
  then show ?thesis using assms(1) assms(2)[OF True] by (auto simp: mem_holds_def)
qed (use assms(1) in \<open>simp add: list_update_beyond\<close>)

lemma changes_hold_set:
  "changes_hold ns P chs \<Longrightarrow> (n = ns \<Longrightarrow> \<forall>(k, v) \<in> set (Values ch). P k v) \<Longrightarrow> changes_hold ns P (gm_set n ch chs)"
  by (fastforce simp: changes_hold_def dest: set_gm_set)

lemma mem_holds_putChanges:
  "mem_holds ns P m \<Longrightarrow> (n = ns \<Longrightarrow> \<forall>(k, v) \<in> set (Values ch). P k v) \<Longrightarrow> mem_holds ns P (tx_putChanges a n ch m)"
  unfolding tx_putChanges_def by (simp add: mem_holds_set_tx changes_hold_set mem_holds_tx)

definition act_in :: "memory_actions \<Rightarrow> nat \<Rightarrow> bool" where
  "act_in s n \<longleftrightarrow> (case s of SuperMemory \<Rightarrow> True | SuperTx p \<Rightarrow> p < n)"

lemma mem_holds_act_set:
  assumes "mem_holds ns P m" "act_in s (length (mem_txs m))" "n = ns \<Longrightarrow> P k v"
  shows "mem_holds ns P (act_set s n k v m)"
  using assms mem_holds_namespace[of ns P m] mem_holds_changes[of ns P m]
  by (auto simp: act_in_def act_set_def mem_set_def tx_set_def split: memory_actions.splits
      intro!: mem_holds_set_table mem_holds_putChanges dest!: set_gm_set)

lemma mem_holds_act_del:
  assumes "mem_holds ns P m" "act_in s (length (mem_txs m))"
  shows "mem_holds ns P (snd (act_del s n k m))"
  using assms mem_holds_namespace[of ns P m] mem_holds_changes[of ns P m]
  by (auto simp: act_in_def act_del_def mem_del_def tx_del_def Let_def split: memory_actions.splits option.split
      intro!: mem_holds_set_table mem_holds_putChanges dest!: set_gm_del)

lemma length_act_txs [simp]:
  "length (mem_txs (act_set s n k v m)) = length (mem_txs m)" "length (mem_txs (snd (act_del s n k m))) = length (mem_txs m)"
  by (auto simp: act_set_def act_del_def mem_set_def mem_del_def tx_set_def tx_del_def tx_putChanges_def Let_def
      split: memory_actions.split option.split)

lemma mem_holds_apply_deleted:
  assumes "mem_holds ns P m" "act_in s (length (mem_txs m))"
  shows "mem_holds ns P (apply_deleted s n ks m) \<and> length (mem_txs (apply_deleted s n ks m)) = length (mem_txs m)"
  using assms unfolding apply_deleted_def
proof (induction ks arbitrary: m)
  case (Cons x ks)
  then show ?case
    using Cons.IH[of "snd (act_del s n (fst x) m)"] mem_holds_act_del[OF Cons.prems] by (cases x) simp
qed simp

lemma mem_holds_apply_values:
  assumes "mem_holds ns P m" "act_in s (length (mem_txs m))"
    "n = ns \<Longrightarrow> \<forall>(k, v) \<in> set kvs. P k v"
  shows "mem_holds ns P (apply_values s n kvs m) \<and> length (mem_txs (apply_values s n kvs m)) = length (mem_txs m)"
  using assms unfolding apply_values_def
proof (induction kvs arbitrary: m)
  case (Cons x kvs)
  obtain k v where x: "x = (k, v)" by force
  have "mem_holds ns P (act_set s n k v m)" using Cons.prems x by (intro mem_holds_act_set) auto
  then show ?case using Cons.IH[of "act_set s n k v m"] Cons.prems x by simp
qed simp

lemma mem_holds_apply_changes:
  assumes "mem_holds ns P m" "act_in s (length (mem_txs m))"
    "changes_hold ns P chs"
  shows "mem_holds ns P (apply_changes s chs m)"
  using assms unfolding apply_changes_def
proof (induction chs arbitrary: m)
  case (Cons x chs)
  obtain n ch where x: "x = (n, ch)" by force
  let ?m1 = "apply_deleted s n (Deleted ch) m"
  have d: "mem_holds ns P ?m1" "length (mem_txs ?m1) = length (mem_txs m)"
    using mem_holds_apply_deleted[OF Cons.prems(1,2)] by blast+
  have "mem_holds ns P (apply_values s n (Values ch) ?m1) \<and>
      length (mem_txs (apply_values s n (Values ch) ?m1)) = length (mem_txs ?m1)"
    using Cons.prems(2,3) x d by (intro mem_holds_apply_values) (auto simp: changes_hold_def)
  then show ?case using Cons.IH[of "apply_values s n (Values ch) ?m1"] Cons.prems x d(2) by (simp add: changes_hold_def)
qed simp

lemma mem_holds_finish: "mem_holds ns P m \<Longrightarrow> mem_holds ns P (tx_finish a m)"
  using mem_holds_tx[of ns P m a] by (simp add: tx_finish_def mem_holds_set_tx)

lemma mem_holds_rollback: "mem_holds ns P m \<Longrightarrow> mem_holds ns P (snd (tx_rollback a m))"
proof (induction a arbitrary: m rule: less_induct)
  case (less a)
  then show ?case
    by (subst tx_rollback.simps) (auto simp: mem_holds_finish split: memory_actions.split)
qed

text \<open>The operations of a memory preserve it, writes of allowed values included.\<close>

lemma mem_holds_steps:
  assumes "mem_holds ns P m" "mem_wf m" "ctx_ok m c"
  shows "(n = ns \<Longrightarrow> P k v) \<Longrightarrow> mem_holds ns P (mem_Set c n k v m)"
    and "mem_holds ns P (snd (mem_Del c n k m))"
    and "mem_holds ns P (snd (mem_BeginTx c m))"
    and "mem_holds ns P (snd (mem_CommitTx c m))"
    and "mem_holds ns P (snd (mem_RollbackTx c m))"
proof -
  show "(n = ns \<Longrightarrow> P k v) \<Longrightarrow> mem_holds ns P (mem_Set c n k v m)"
    using assms mem_holds_act_set[of ns P m "ctx_actions m c" n k v]
    by (auto simp: act_in_def mem_Set_def ctx_actions_def act_set_def ctx_ok_def split: option.splits)
  show "mem_holds ns P (snd (mem_Del c n k m))"
    using assms mem_holds_act_del[of ns P m "ctx_actions m c" n k]
    by (auto simp: act_in_def mem_Del_def ctx_actions_def act_del_def ctx_ok_def split: option.splits)
  show "mem_holds ns P (snd (mem_BeginTx c m))"
    using assms(1) by (auto simp: mem_BeginTx_def context_WithCancel_def Let_def mem_holds_def changes_hold_def split: option.split)
  show "mem_holds ns P (snd (mem_RollbackTx c m))"
    using assms(1) by (auto simp: mem_RollbackTx_def mem_holds_rollback split: option.split)
  have "mem_holds ns P (snd (tx_commit a m))" if "a < length (mem_txs m)" for a
  proof -
    note mem_holds_tx[OF assms(1) that]
    moreover have "act_in (tx_super (mem_txs m ! a)) (length (mem_txs (tx_finish a m)))"
      using that mem_wf_super[OF assms(2) that] by (auto simp: act_in_def tx_finish_def context_cancel_def split: memory_actions.split)
    ultimately show ?thesis
      using mem_holds_apply_changes[OF mem_holds_finish[OF assms(1)]] assms(1) by (simp add: tx_commit_def)
  qed
  then show "mem_holds ns P (snd (mem_CommitTx c m))"
    using assms(1,3) by (auto simp: mem_CommitTx_def ctx_ok_def split: option.split)
qed

text \<open>So every read finds an allowed value.\<close>

lemma mem_holds_Get:
  assumes "mem_holds ns P m" "mem_wf m" "ctx_ok m c" "mem_Get m c ns k = Some v"
  shows "P k v"
proof -
  have base: "mem_lookup m ns k = Some v \<Longrightarrow> P k v" for v
    using mem_holds_namespace[OF assms(1)] by (auto simp: mem_lookup_def dest: map_of_SomeD)
  have "a < length (mem_txs m) \<Longrightarrow> tx_lookup m a ns k = Some v \<Longrightarrow> P k v" for a
  proof (induction a rule: less_induct)
    case (less a)
    have sup: "tx_super (mem_txs m ! a) = SuperTx p \<Longrightarrow> p < a" for p using mem_wf_super[OF assms(2) less.prems(1)] .
    show ?case using less mem_holds_changes[OF assms(1) less.prems(1), of k v] base sup
      by (auto simp: tx_lookup_unfold[OF assms(2)] act_lookup_def dest: map_of_SomeD
          split: option.splits memory_actions.splits)
  qed
  then show ?thesis using assms(3,4) base by (auto simp: mem_Get_def ctx_ok_def split: option.splits if_splits)
qed

end
