(* ===== verification/CacheRepository.thy ===== *)
theory CacheRepository imports Cache MemoryStack begin

text \<open>
  \<^verbatim>\<open>adapter/memory/cache.go\<close>: the in-memory \<^verbatim>\<open>CacheRepository\<close>, two \<^verbatim>\<open>Repository\<close>s over one \<^verbatim>\<open>Memory\<close>,
  and the caches of \<^verbatim>\<open>pkg/cache\<close> built on it.

  The memory holds values of any type; here they are the two that the cache stores. The
  parameters \<open>re\<close> and \<open>rh\<close> are the plain repositories of entities and of hits, whose defaults (the
  reflective ID accessor, the printed keys, the ID generator) the code takes; \<open>idt\<close> is the printed
  name of the ID type. The world is the memory and a state of the source. The interface
  \<^verbatim>\<open>cache_store\<close> is interpreted on stacks of nested transactions of the memory.
\<close>

section \<open>The repositories\<close>

datatype ('v, 'i) cached = CachedEnt 'v | CachedHit "'i Hit"

definition cached_ent :: "'v \<Rightarrow> ('v, 'i) cached \<Rightarrow> 'v" where
  "cached_ent z x = (case x of CachedEnt v \<Rightarrow> v | CachedHit _ \<Rightarrow> z)"

definition zero_hit :: "'i Hit" where
  "zero_hit = \<lparr>hit_ID = [], EntityIDs = [], Timestamp = 0\<rparr>"

definition cached_hit :: "('v, 'i) cached \<Rightarrow> 'i Hit" where
  "cached_hit x = (case x of CachedHit h \<Rightarrow> h | CachedEnt _ \<Rightarrow> zero_hit)"

text \<open>A repository of \<open>'a\<close> over a memory of \<open>'b\<close>, in a namespace of its own.\<close>

definition repo_over ::
    "('a \<Rightarrow> 'b) \<Rightarrow> ('b \<Rightarrow> 'a) \<Rightarrow> string \<Rightarrow> ('a, 'i) repository \<Rightarrow> ('b, 'i) repository" where
  "repo_over f g ns r =
     \<lparr>Namespace = ns, TypeName = TypeName r,
      IDA = \<lparr>acc_fn = None,
             ext_Lookup = (\<lambda>x. Accessor_Lookup (IDA r) (g x)),
             ext_Set = (\<lambda>x i. case Accessor_Set (IDA r) (g x) i of (v, err) \<Rightarrow> (f v, err))\<rparr>,
      mkID = mkID r, ExpectID = ExpectID r, IDToMemoryKey = IDToMemoryKey r, zeroID = zeroID r\<rparr>"

definition Entities :: "('v, 'i) repository \<Rightarrow> string \<Rightarrow> 'v \<Rightarrow> (('v, 'i) cached, 'i) repository" where
  "Entities re idt z =
     repo_over CachedEnt (cached_ent z) (''cache.EntityRepository['' @ TypeName re @ '', '' @ idt @ '']'') re"

definition Hits :: "('i Hit, string) repository \<Rightarrow> string \<Rightarrow> (('v, 'i) cached, string) repository" where
  "Hits rh idt = repo_over CachedHit cached_hit (''cache.HitRepository['' @ idt @ '']'') rh"

section \<open>A cache over the memory\<close>

definition found_as :: "('b \<Rightarrow> 'a) \<Rightarrow> go_error + 'b option \<Rightarrow> go_error + 'a option" where
  "found_as g = map_sum (\<lambda>err. err) (map_option g)"

definition itr_as :: "('b \<Rightarrow> 'a) \<Rightarrow> 'a \<Rightarrow> (go_error + 'b) list \<Rightarrow> 'a itr" where
  "itr_as g z = map (\<lambda>x. case x of Inl err \<Rightarrow> (z, Some err) | Inr v \<Rightarrow> (g v, None))"

definition write_as ::
    "('a \<Rightarrow> 'b) \<Rightarrow> ('b \<Rightarrow> 'a) \<Rightarrow> ('m \<times> 'b, go_error option) op \<Rightarrow> 'a \<Rightarrow> ('m \<times> 's, go_error option \<times> 'a) op" where
  "write_as f g write v w = (case write (fst w, f v) of (err, (m, x)) \<Rightarrow> ((err, g x), (m, snd w)))"

definition NewCacheRepository ::
    "('v, 'i) repository \<Rightarrow> ('i Hit, string) repository \<Rightarrow> string \<Rightarrow>
     ('v, 'i, mctx, ('v, 'i) cached memory \<times> 's) Cache \<Rightarrow> ('v, 'i, mctx, ('v, 'i) cached memory \<times> 's) Cache" where
  "NewCacheRepository re rh idt m =
     (let z = zero_ent m; es = Entities re idt z; hs = Hits rh idt
      in m\<lparr>c_BeginTx := \<lambda>ctx. on_fst (mem_BeginTx ctx),
           c_CommitTx := \<lambda>ctx. on_fst (mem_CommitTx ctx),
           c_RollbackTx := \<lambda>ctx. on_fst (mem_RollbackTx ctx),
           ents_FindByID := \<lambda>ctx i w. (found_as (cached_ent z) (repo_FindByID es ctx i (fst w)), w),
           ents_FindAll := \<lambda>ctx w. (itr_as (cached_ent z) z (repo_FindAll es ctx (fst w)), w),
           ents_FindByIDs := \<lambda>ctx is w. (itr_as (cached_ent z) z (repo_FindByIDs es ctx is (fst w)), w),
           ents_Create := \<lambda>ctx. write_as CachedEnt (cached_ent z) (repo_create es ctx),
           ents_Save := \<lambda>ctx. write_as CachedEnt (cached_ent z) (repo_Save es ctx),
           ents_DeleteByID := \<lambda>ctx i. on_fst (repo_DeleteByID es ctx i),
           ents_DeleteAll := \<lambda>ctx. on_fst (repo_DeleteAll es ctx),
           hits_FindByID := \<lambda>ctx k w. (found_as cached_hit (repo_FindByID hs ctx k (fst w)), w),
           hits_FindAll := \<lambda>ctx w. (itr_as cached_hit zero_hit (repo_FindAll hs ctx (fst w)), w),
           hits_Save := \<lambda>ctx h w. (case write_as CachedHit cached_hit (repo_Save hs ctx) h w of ((err, _), w1) \<Rightarrow> (err, w1)),
           hits_DeleteByID := \<lambda>ctx k. on_fst (repo_DeleteByID hs ctx k),
           hits_DeleteAll := \<lambda>ctx. on_fst (repo_DeleteAll hs ctx),
           ctxErr := \<lambda>ctx w. ctx_Err (fst w) ctx\<rparr>)"

lemmas cache_repo_simps = NewCacheRepository_def Let_def

section \<open>The cache repository provides the interface of the cache\<close>

definition view_ent ::
    "('v, 'i) repository \<Rightarrow> string \<Rightarrow> 'v \<Rightarrow> ('v, 'i) cached memory \<times> 's \<Rightarrow> mctx \<Rightarrow> 'i \<Rightarrow> 'v option" where
  "view_ent re idt z w c i =
     map_option (cached_ent z) (mem_Get (fst w) c (repo_ns (Entities re idt z)) (IDToMemoryKey re i))"

definition view_hit ::
    "('i Hit, string) repository \<Rightarrow> string \<Rightarrow> ('v, 'i) cached memory \<times> 's \<Rightarrow> mctx \<Rightarrow> string \<Rightarrow> 'i Hit option" where
  "view_hit rh idt w c k =
     map_option cached_hit (mem_Get (fst w) c (repo_ns (Hits rh idt :: (('v, 'i) cached, string) repository)) (IDToMemoryKey rh k))"

text \<open>
  The state of a cache at rest or inside an operation: a stack of contexts; distinct IDs are printed
  differently; every stored hit is under its own key; and looking up an entity in the source neither
  fails nor changes the world.
\<close>

definition hits_keyed :: "('i Hit, string) repository \<Rightarrow> (string \<Rightarrow> ('v, 'i) cached option) \<Rightarrow> bool" where
  "hits_keyed rh t \<longleftrightarrow> (\<forall>k x. t k = Some x \<longrightarrow> (\<exists>h. x = CachedHit h \<and> k = IDToMemoryKey rh (hit_ID h)))"

definition source_reads :: "('v, 'i, 'c, 'w) Cache \<Rightarrow> bool" where
  "source_reads m \<longleftrightarrow> (\<forall>c i w. \<exists>r. src_FindByID m c i w = (Inr r, w))"

definition cache_stack ::
    "('v, 'i) repository \<Rightarrow> ('i Hit, string) repository \<Rightarrow> string \<Rightarrow>
     ('v, 'i, mctx, ('v, 'i) cached memory \<times> 's) Cache \<Rightarrow> ('v, 'i) cached memory \<times> 's \<Rightarrow> mctx list \<Rightarrow> bool" where
  "cache_stack re rh idt m w cs \<longleftrightarrow>
     mem_stack (fst w) cs \<and> inj (IDToMemoryKey re) \<and> inj (IDToMemoryKey rh) \<and> source_reads m \<and>
     (cs \<noteq> [] \<longrightarrow> hits_keyed rh (mem_Get (fst w) (hd cs) (repo_ns (Hits rh idt :: (('v, 'i) cached, string) repository))))"

lemma repo_over_simps [simp]:
  "IDToMemoryKey (repo_over f g ns r) = IDToMemoryKey r"
  "IDToMemoryKey (Entities re idt z) = IDToMemoryKey re"
  "IDToMemoryKey (Hits rh idt) = IDToMemoryKey rh"
  by (simp_all add: repo_over_def Entities_def Hits_def)

lemma cache_ns_neq:
  "repo_ns (Entities re idt z) \<noteq> repo_ns (Hits rh idt')" "repo_ns (Hits rh idt') \<noteq> repo_ns (Entities re idt z)"
  by (simp_all add: repo_ns_def getNamespaceFor_def Entities_def Hits_def repo_over_def)

lemma hits_keyed_del: "hits_keyed rh t \<Longrightarrow> hits_keyed rh (t(k := None))"
  by (auto simp: hits_keyed_def)

text \<open>A delete through the innermost context of a stack.\<close>

lemma mem_stack_Del:
  assumes "mem_stack m (c # cs)" "mem_Get m c (repo_ns r) (IDToMemoryKey r i) \<noteq> None"
  obtains m' where "repo_DeleteByID r c i m = (None, m')" "mem_stack m' (c # cs)"
    "mem_Get m' c = (mem_Get m c)(repo_ns r := (mem_Get m c (repo_ns r))(IDToMemoryKey r i := None))"
proof -
  have o: "mem_open m c" "ctx_Err m c = None" using assms(1) by auto
  let ?m = "snd (mem_Del c (repo_ns r) (IDToMemoryKey r i) m)"
  note D = mem_open_Del(1,2,5)[OF o(1), of "repo_ns r" "IDToMemoryKey r i"]
  have "repo_DeleteByID r c i m = (None, ?m)"
    using o assms(2) D(3) by (cases "mem_Del c (repo_ns r) (IDToMemoryKey r i) m")
      (auto simp: repo_DeleteByID_def mem_open_isDone split: bool.split)
  moreover have "mem_stack ?m (c # cs)"
    using mem_stack_meta[OF _ _ assms(1), of ?m] D(1) by (simp add: mem_open_actions(4)[OF o(1)] mem_open_def)
  ultimately show ?thesis using D(2) that by blast
qed

interpretation memcache: cache_store "NewCacheRepository re rh idt m" "cache_stack re rh idt m"
    "view_ent re idt (zero_ent m)" "view_hit rh idt"
proof
  fix w :: "('a, 'b) cached memory \<times> 'c" and c cs
  assume st: "cache_stack re rh idt m w (c # cs)"
  then have ms: "mem_stack (fst w) (c # cs)" by (simp add: cache_stack_def)
  obtain c' m' where b: "mem_BeginTx c (fst w) = ((c', None), m')" "mem_stack m' (c' # c # cs)"
    "mem_Get m' c' = mem_Get (fst w) c" using mem_stack_BeginTx[OF ms] by blast
  then show "\<exists>c' w'. c_BeginTx (NewCacheRepository re rh idt m) c w = ((c', None), w') \<and>
      cache_stack re rh idt m w' (c' # c # cs) \<and> view_ent re idt (zero_ent m) w' c' = view_ent re idt (zero_ent m) w c \<and>
      view_hit rh idt w' c' = view_hit rh idt w c"
    using st by (intro exI[of _ c'] exI[of _ "(m', snd w)"])
      (simp add: cache_repo_simps on_fst_def cache_stack_def view_ent_def[abs_def] view_hit_def[abs_def])
next
  fix w :: "('a, 'b) cached memory \<times> 'c" and c' c cs
  assume st: "cache_stack re rh idt m w (c' # c # cs)"
  then have ms: "mem_stack (fst w) (c' # c # cs)" by (simp add: cache_stack_def)
  obtain m' where b: "mem_CommitTx c' (fst w) = (None, m')" "mem_stack m' (c # cs)"
    "mem_Get m' c = mem_Get (fst w) c'" using mem_stack_CommitTx[OF ms] by blast
  then show "\<exists>w'. c_CommitTx (NewCacheRepository re rh idt m) c' w = (None, w') \<and>
      cache_stack re rh idt m w' (c # cs) \<and> view_ent re idt (zero_ent m) w' c = view_ent re idt (zero_ent m) w c' \<and>
      view_hit rh idt w' c = view_hit rh idt w c'"
    using st by (intro exI[of _ "(m', snd w)"])
      (simp add: cache_repo_simps on_fst_def cache_stack_def view_ent_def[abs_def] view_hit_def[abs_def])
next
  fix w :: "('a, 'b) cached memory \<times> 'c" and c cs i
  assume "cache_stack re rh idt m w (c # cs)"
  then show "ents_FindByID (NewCacheRepository re rh idt m) c i w = (Inr (view_ent re idt (zero_ent m) w c i), w)"
    by (simp add: cache_stack_def cache_repo_simps repo_FindByID_open found_as_def view_ent_def)
next
  fix w :: "('a, 'b) cached memory \<times> 'c" and c cs i
  assume st: "cache_stack re rh idt m w (c # cs)" and f: "view_ent re idt (zero_ent m) w c i \<noteq> None"
  let ?r = "Entities re idt (zero_ent m)"
  have ms: "mem_stack (fst w) (c # cs)" "inj (IDToMemoryKey re)" using st by (simp_all add: cache_stack_def)
  obtain m' where "repo_DeleteByID ?r c i (fst w) = (None, m')" "mem_stack m' (c # cs)"
    "mem_Get m' c = (mem_Get (fst w) c)(repo_ns ?r := (mem_Get (fst w) c (repo_ns ?r))(IDToMemoryKey ?r i := None))"
    using mem_stack_Del[OF ms(1), of ?r i] f by (auto simp: view_ent_def)
  then show "\<exists>w'. ents_DeleteByID (NewCacheRepository re rh idt m) c i w = (None, w') \<and> cache_stack re rh idt m w' (c # cs) \<and>
      view_ent re idt (zero_ent m) w' c = (view_ent re idt (zero_ent m) w c)(i := None) \<and> view_hit rh idt w' c = view_hit rh idt w c"
    using st by (intro exI[of _ "(m', snd w)"])
      (auto simp: cache_repo_simps on_fst_def cache_stack_def cache_ns_neq view_ent_def[abs_def] view_hit_def[abs_def]
        injD[OF ms(2)] intro!: ext)
next
  fix w :: "('a, 'b) cached memory \<times> 'c" and c cs k
  assume "cache_stack re rh idt m w (c # cs)"
  then show "hits_FindByID (NewCacheRepository re rh idt m) c k w = (Inr (view_hit rh idt w c k), w)"
    by (simp add: cache_stack_def cache_repo_simps repo_FindByID_open found_as_def view_hit_def)
next
  fix w :: "('a, 'b) cached memory \<times> 'c" and c cs k
  assume st: "cache_stack re rh idt m w (c # cs)" and f: "view_hit rh idt w c k \<noteq> None"
  let ?r = "Hits rh idt :: (('a, 'b) cached, string) repository"
  have ms: "mem_stack (fst w) (c # cs)" "inj (IDToMemoryKey rh)" using st by (simp_all add: cache_stack_def)
  obtain m' where "repo_DeleteByID ?r c k (fst w) = (None, m')" "mem_stack m' (c # cs)"
    "mem_Get m' c = (mem_Get (fst w) c)(repo_ns ?r := (mem_Get (fst w) c (repo_ns ?r))(IDToMemoryKey ?r k := None))"
    using mem_stack_Del[OF ms(1), of ?r k] f by (auto simp: view_hit_def)
  then show "\<exists>w'. hits_DeleteByID (NewCacheRepository re rh idt m) c k w = (None, w') \<and> cache_stack re rh idt m w' (c # cs) \<and>
      view_ent re idt (zero_ent m) w' c = view_ent re idt (zero_ent m) w c \<and> view_hit rh idt w' c = (view_hit rh idt w c)(k := None)"
    using st by (intro exI[of _ "(m', snd w)"])
      (auto simp: cache_repo_simps on_fst_def cache_stack_def cache_ns_neq view_ent_def[abs_def] view_hit_def[abs_def]
        injD[OF ms(2)] hits_keyed_del intro!: ext)
next
  fix w :: "('a, 'b) cached memory \<times> 'c" and c cs
  assume st: "cache_stack re rh idt m w (c # cs)"
  let ?ns = "repo_ns (Hits rh idt :: (('a, 'b) cached, string) repository)"
  have o: "mem_open (fst w) c" "ctx_Err (fst w) c = None" "hits_keyed rh (mem_Get (fst w) c ?ns)"
    using st by (auto simp: cache_stack_def)
  let ?hs = "map cached_hit (mem_All (fst w) c ?ns)"
  have "set ?hs = ran (view_hit rh idt w c)"
    using o(3) by (force simp: mem_All_open[OF o(1)] view_hit_def ran_def hits_keyed_def cached_hit_def)
  then show "\<exists>hs. hits_FindAll (NewCacheRepository re rh idt m) c w = (map (\<lambda>h. (h, None)) hs, w) \<and>
      set hs = ran (view_hit rh idt w c)"
    by (intro exI[of _ ?hs]) (simp add: cache_repo_simps repo_FindAll_open[OF o(1,2)] itr_as_def)
next
  fix w :: "('a, 'b) cached memory \<times> 'c" and c cs k h
  assume st: "cache_stack re rh idt m w (c # cs)" and "view_hit rh idt w c k = Some h"
  with st obtain h' where "h = h'" "IDToMemoryKey rh k = IDToMemoryKey rh (hit_ID h')"
    by (fastforce simp: cache_stack_def view_hit_def hits_keyed_def cached_hit_def)
  with st show "hit_ID h = k" by (simp add: cache_stack_def inj_eq)
next
  fix w :: "('a, 'b) cached memory \<times> 'c" and c cs
  assume st: "cache_stack re rh idt m w (c # cs)"
  let ?ns = "repo_ns (Hits rh idt :: (('a, 'b) cached, string) repository)"
  have o: "mem_open (fst w) c" "inj (IDToMemoryKey rh)" using st by (auto simp: cache_stack_def)
  have "dom (view_hit rh idt w c) = IDToMemoryKey rh -` dom (mem_Get (fst w) c ?ns)"
    by (auto simp: view_hit_def)
  then show "finite (dom (view_hit rh idt w c))"
    using finite_vimageI[OF finite_mem_Get[OF o(1)] o(2)] by simp
next
  fix w :: "('a, 'b) cached memory \<times> 'c" and c cs i
  assume "cache_stack re rh idt m w (c # cs)"
  then show "\<exists>r. src_FindByID (NewCacheRepository re rh idt m) c i w = (Inr r, w)"
    by (simp add: cache_stack_def cache_repo_simps source_reads_def del: split_paired_All)
qed

section \<open>Writing through a stack\<close>

lemma save_body_with_ID:
  assumes "mem_open m c" "ctx_Err m c = None" "Accessor_Lookup (IDA r) v = (i, True)" "i \<noteq> zeroID r"
  shows "repo_save_body r c (m, v) = (None, (mem_Set c (repo_ns r) (IDToMemoryKey r i) v m, v))"
proof -
  have F: "repo_FindByID r c i m = Inr (mem_Get m c (repo_ns r) (IDToMemoryKey r i))"
    using assms(1,2) by (rule repo_FindByID_open)
  have "repo_create r c (m, v) = (None, (mem_Set c (repo_ns r) (IDToMemoryKey r i) v m, v))"
    if "mem_Get m c (repo_ns r) (IDToMemoryKey r i) = None"
    using that assms F by (simp add: repo_create_def Accessor_Get_def Let_def)
  moreover have "repo_Update r c (m, v) = (None, (mem_Set c (repo_ns r) (IDToMemoryKey r i) v m, v))"
    if "mem_Get m c (repo_ns r) (IDToMemoryKey r i) \<noteq> None"
    using that assms F by (auto simp: repo_Update_def)
  ultimately show ?thesis
    using assms(3) F by (auto simp: repo_save_body_def split: option.split)
qed

lemma mem_stack_Save:
  assumes "mem_stack m (c # cs)" "Accessor_Lookup (IDA r) v = (i, True)" "i \<noteq> zeroID r"
  obtains m' where "repo_Save r c (m, v) = (None, (m', v))" "mem_stack m' (c # cs)"
    "mem_Get m' c = kv_put (repo_ns r) (IDToMemoryKey r i) v (mem_Get m c)"
proof -
  obtain c' m1 where b: "mem_BeginTx c m = ((c', None), m1)" "mem_stack m1 (c' # c # cs)" "mem_Get m1 c' = mem_Get m c"
    using mem_stack_BeginTx[OF assms(1)] by blast
  let ?m2 = "mem_Set c' (repo_ns r) (IDToMemoryKey r i) v m1"
  have body: "repo_save_body r c' (m1, v) = (None, (?m2, v))"
    using b(2) assms(2,3) by (intro save_body_with_ID) auto
  obtain m3 where "mem_CommitTx c' ?m2 = (None, m3)" "mem_stack m3 (c # cs)" "mem_Get m3 c = mem_Get ?m2 c'"
    using mem_stack_CommitTx[OF mem_stack_Set(1)[OF b(2)]] by blast
  with b body mem_stack_Set(2)[OF b(2)] show ?thesis
    by (intro that[of m3])
      (simp_all add: repo_Save_def OnePhaseCommit_run_def FinishOnePhaseCommit_def on_fst_def)
qed

lemma repo_FindByIDs_one:
  assumes "mem_open m c" "mem_Get m c (repo_ns r) (IDToMemoryKey r i) = Some v"
  shows "repo_FindByIDs r c [i] m = [Inr v]"
proof -
  have "map_of (act_all (ctx_actions m c) m (repo_ns r)) (IDToMemoryKey r i) = Some v"
    using assms mem_open_actions(1,2)[OF assms(1)] act.lookup_all by metis
  then show ?thesis
    by (simp add: repo_FindByIDs_def ctx_actions_def Let_def gm_set_def)
qed

section \<open>Properties\<close>

text \<open>
  The IDs: the cache and its entity repository read an entity's ID in the same way, and the field
  \<^verbatim>\<open>ID\<close> is the ID of a hit.
\<close>

definition cache_ids :: "('v, 'i) repository \<Rightarrow> ('i Hit, string) repository \<Rightarrow> ('v, 'i, 'c, 'w) Cache \<Rightarrow> bool" where
  "cache_ids re rh m \<longleftrightarrow> c_IDA m = IDA re \<and> zeroID rh = [] \<and> (\<forall>h. hit_ID h \<noteq> [] \<longrightarrow> Accessor_Lookup (IDA rh) h = (hit_ID h, True))"

lemma cached_simps [simp]:
  "cached_ent z (CachedEnt v) = v" "cached_hit (CachedHit h) = h"
  "Accessor_Lookup (IDA (repo_over f g ns r)) x = Accessor_Lookup (IDA r) (g x)" "zeroID (repo_over f g ns r) = zeroID r"
  by (simp_all add: cached_ent_def cached_hit_def repo_over_def Accessor_Lookup_def)

lemma hits_keyed_put: "hits_keyed rh t \<Longrightarrow> hits_keyed rh (t(IDToMemoryKey rh (hit_ID h) \<mapsto> CachedHit h))"
  by (auto simp: hits_keyed_def)

lemma cache_ents_Save:
  assumes "cache_stack re rh idt m w (c # cs)" "Accessor_Lookup (IDA re) v = (i, True)" "i \<noteq> zeroID re"
  obtains w' where "ents_Save (NewCacheRepository re rh idt m) c v w = ((None, v), w')"
    "cache_stack re rh idt m w' (c # cs)" "snd w' = snd w"
    "view_ent re idt (zero_ent m) w' c = (view_ent re idt (zero_ent m) w c)(i \<mapsto> v)" "view_hit rh idt w' c = view_hit rh idt w c"
proof -
  let ?r = "Entities re idt (zero_ent m)"
  have st: "mem_stack (fst w) (c # cs)" "inj (IDToMemoryKey re)" using assms(1) by (simp_all add: cache_stack_def)
  have L: "Accessor_Lookup (IDA ?r) (CachedEnt v) = (i, True)" "i \<noteq> zeroID ?r"
    using assms(2,3) by (simp_all add: Entities_def)
  obtain m' where m': "repo_Save ?r c (fst w, CachedEnt v) = (None, (m', CachedEnt v))" "mem_stack m' (c # cs)"
    "mem_Get m' c = kv_put (repo_ns ?r) (IDToMemoryKey ?r i) (CachedEnt v) (mem_Get (fst w) c)"
    by (rule mem_stack_Save[OF st(1) L])
  show ?thesis
  proof (rule that[of "(m', snd w)"])
    show "view_ent re idt (zero_ent m) (m', snd w) c = (view_ent re idt (zero_ent m) w c)(i \<mapsto> v)"
      by (rule ext) (auto simp: view_ent_def m'(3) kv_put_def dest: injD[OF st(2)])
  qed (use assms(1) m' in \<open>simp_all add: cache_repo_simps write_as_def cache_stack_def view_hit_def[abs_def]
        kv_put_def cache_ns_neq\<close>)
qed

lemma cache_hits_Save:
  assumes "cache_stack re rh idt m w (c # cs)" "cache_ids re rh m" "hit_ID h \<noteq> []"
  obtains w' where "hits_Save (NewCacheRepository re rh idt m) c h w = (None, w')"
    "cache_stack re rh idt m w' (c # cs)" "snd w' = snd w"
    "view_hit rh idt w' c = (view_hit rh idt w c)(hit_ID h \<mapsto> h)" "view_ent re idt (zero_ent m) w' c = view_ent re idt (zero_ent m) w c"
proof -
  let ?r = "Hits rh idt :: (('a, 'b) cached, string) repository"
  have st: "mem_stack (fst w) (c # cs)" "inj (IDToMemoryKey rh)" using assms(1) by (simp_all add: cache_stack_def)
  have L: "Accessor_Lookup (IDA ?r) (CachedHit h) = (hit_ID h, True)" "hit_ID h \<noteq> zeroID ?r"
    using assms(2,3) by (simp_all add: Hits_def cache_ids_def)
  obtain m' where m': "repo_Save ?r c (fst w, CachedHit h) = (None, (m', CachedHit h))" "mem_stack m' (c # cs)"
    "mem_Get m' c = kv_put (repo_ns ?r) (IDToMemoryKey ?r (hit_ID h)) (CachedHit h) (mem_Get (fst w) c)"
    by (rule mem_stack_Save[OF st(1) L])
  show ?thesis
  proof (rule that[of "(m', snd w)"])
    show "view_hit rh idt (m', snd w) c = (view_hit rh idt w c)(hit_ID h \<mapsto> h)"
      by (rule ext) (auto simp: view_hit_def m'(3) kv_put_def dest: injD[OF st(2)])
    show "cache_stack re rh idt m (m', snd w) (c # cs)"
      using assms(1) m'(2) by (simp add: cache_stack_def m'(3) kv_put_def hits_keyed_put)
  qed (use m' in \<open>simp_all add: cache_repo_simps write_as_def view_ent_def[abs_def] kv_put_def cache_ns_neq\<close>)
qed

lemma cache_same_memory:
  "cache_stack re rh idt m w cs \<Longrightarrow> cache_stack re rh idt m (fst w, s) cs"
  "view_ent re idt z (fst w, s) = view_ent re idt z w" "view_hit rh idt (fst w, s) = view_hit rh idt w"
  by (simp_all add: cache_stack_def view_ent_def[abs_def] view_hit_def[abs_def])

lemma cache_fields:
  "src_FindByID (NewCacheRepository re rh idt m) = src_FindByID m"
  "HitIDFindByID (NewCacheRepository re rh idt m) = HitIDFindByID m"
  "refers_to (NewCacheRepository re rh idt m) = refers_to m"
  "c_IDA (NewCacheRepository re rh idt m) = c_IDA m" "clock_now (NewCacheRepository re rh idt m) = clock_now m"
  "src_DeleteByID (NewCacheRepository re rh idt m) = src_DeleteByID m"
  by (simp_all add: cache_repo_simps HitIDFindByID_def refers_to_def fun_eq_iff)

lemma cache_ctxErr: "cache_stack re rh idt m w (c # cs) \<Longrightarrow> ctxErr (NewCacheRepository re rh idt m) c w = None"
  by (simp add: cache_repo_simps cache_stack_def)

lemma HitIDFindByID_not_empty: "HitIDFindByID m i \<noteq> []"
  by (simp add: HitIDFindByID_def Query_HitID_def Let_def)

lemma cache_FindByIDs_one:
  assumes "cache_stack re rh idt m w (c # cs)" "view_ent re idt (zero_ent m) w c i = Some v"
  shows "ents_FindByIDs (NewCacheRepository re rh idt m) c [i] w = ([(v, None)], w)"
proof -
  let ?r = "Entities re idt (zero_ent m)"
  obtain x where x: "mem_Get (fst w) c (repo_ns ?r) (IDToMemoryKey ?r i) = Some x" "v = cached_ent (zero_ent m) x"
    using assms(2) by (auto simp: view_ent_def)
  have "mem_open (fst w) c" using assms(1) by (simp add: cache_stack_def)
  from repo_FindByIDs_one[OF this x(1)] show ?thesis by (simp add: cache_repo_simps itr_as_def x(2))
qed

lemma cache_FindByIDs_none: "ents_FindByIDs (NewCacheRepository re rh idt m) c [] w = ([], w)"
  by (simp add: cache_repo_simps repo_FindByIDs_def itr_as_def)

text \<open>A miss asks the source, stores its answer, and stores the hit.\<close>

lemma cache_query_one:
  assumes st: "cache_stack re rh idt m w (c # cs)" and ids: "cache_ids re rh m" and i: "i \<noteq> zeroID re" and k: "k \<noteq> []"
    and src: "src_FindByID m c i w = (Inr r, w)" and v: "\<And>v. r = Some v \<Longrightarrow> Accessor_Lookup (IDA re) v = (i, True)"
  obtains w' h where
    "cacheQuery (NewCacheRepository re rh idt m) c k
       (mapQueryOneToQueryMany (NewCacheRepository re rh idt m) (\<lambda>c. src_FindByID m c i)) w = (Inr (EntityIDs h), w')"
    "cache_stack re rh idt m w' (c # cs)" "snd w' = snd w" "EntityIDs h = (case r of None \<Rightarrow> [] | Some _ \<Rightarrow> [i])"
    "view_ent re idt (zero_ent m) w' c = (case r of None \<Rightarrow> view_ent re idt (zero_ent m) w c
                                          | Some v \<Rightarrow> (view_ent re idt (zero_ent m) w c)(i \<mapsto> v))"
    "view_hit rh idt w' c = (view_hit rh idt w c)(k \<mapsto> h)"
proof -
  let ?M = "NewCacheRepository re rh idt m"
  define es where "es = (case r of None \<Rightarrow> [] | Some _ \<Rightarrow> [i])"
  obtain w1 where w1: "cache_each ?M c [] (case r of None \<Rightarrow> [] | Some v \<Rightarrow> [(v, None)]) w = (Inr es, w1)"
    "cache_stack re rh idt m w1 (c # cs)" "snd w1 = snd w"
    "view_ent re idt (zero_ent m) w1 c = (case r of None \<Rightarrow> view_ent re idt (zero_ent m) w c
                                          | Some v \<Rightarrow> (view_ent re idt (zero_ent m) w c)(i \<mapsto> v))"
    "view_hit rh idt w1 c = view_hit rh idt w c"
  proof (cases r)
    case None
    with st show ?thesis by (intro that[of w]) (simp_all add: es_def)
  next
    case (Some x)
    note l = v[OF Some]
    obtain w1 where "ents_Save ?M c x w = ((None, x), w1)" "cache_stack re rh idt m w1 (c # cs)" "snd w1 = snd w"
      "view_ent re idt (zero_ent m) w1 c = (view_ent re idt (zero_ent m) w c)(i \<mapsto> x)" "view_hit rh idt w1 c = view_hit rh idt w c"
      by (rule cache_ents_Save[OF st l i])
    with Some l ids show ?thesis
      by (intro that[of w1]) (simp_all add: es_def cache_fields cache_ids_def)
  qed
  define h where "h = \<lparr>hit_ID = k, EntityIDs = es, Timestamp = clock_now m w1\<rparr>"
  have hk: "hit_ID h \<noteq> []" using k by (simp add: h_def)
  obtain w' where w': "hits_Save ?M c h w1 = (None, w')" "cache_stack re rh idt m w' (c # cs)" "snd w' = snd w1"
    "view_hit rh idt w' c = (view_hit rh idt w1 c)(hit_ID h \<mapsto> h)" "view_ent re idt (zero_ent m) w' c = view_ent re idt (zero_ent m) w1 c"
    by (rule cache_hits_Save[OF w1(2) ids hk])
  have q: "mapQueryOneToQueryMany ?M (\<lambda>c. src_FindByID m c i) c w = (case r of None \<Rightarrow> [] | Some v \<Rightarrow> [(v, None)], w)"
    by (simp add: mapQueryOneToQueryMany_def src split: option.split)
  show ?thesis
  proof (rule that[of h w'])
    show "cacheQuery ?M c k (mapQueryOneToQueryMany ?M (\<lambda>c. src_FindByID m c i)) w = (Inr (EntityIDs h), w')"
      using w1(1) w'(1) by (simp add: cacheQuery_def q cache_fields h_def)
  qed (use w1 w' in \<open>simp_all add: h_def es_def\<close>)
qed

lemma cache_hit_answers:
  assumes st: "cache_stack re rh idt m w (c # cs)"
    and "case r of Some v \<Rightarrow> view_ent re idt (zero_ent m) w c i = Some v
         | None \<Rightarrow> view_ent re idt (zero_ent m) w c i = None \<and>
             (\<exists>h. view_hit rh idt w c (HitIDFindByID m i) = Some h \<and> EntityIDs h = [])"
  shows "fst (cache_FindByID (NewCacheRepository re rh idt m) go c i w) = Inr r"
  using assms memcache.find_ent[OF st, of i] memcache.find_hit[OF st, of "HitIDFindByID m i"] cache_ctxErr[OF st]
  by (auto simp: cache_FindByID_def CachedQueryOne_def CachedQueryMany_def cache_fields Let_def split: option.splits)

text \<open>C19: FindByID reads through. On an entity that the in-memory cache does not hold and has no hit for, with a
  source that answers, FindByID returns the source's answer, found or not, keeps that answer and a hit that
  lists it, changes no other entity, and answers the same from the cache afterwards whatever the state of
  the source has become.\<close>

theorem cache_FindByID_reads_through:
  assumes st: "cache_stack re rh idt m w (c # cs)" and ids: "cache_ids re rh m" and i: "i \<noteq> zeroID re"
    and miss: "view_ent re idt (zero_ent m) w c i = None" "view_hit rh idt w c (HitIDFindByID m i) = None"
    and src: "\<And>w'. snd w' = snd w \<Longrightarrow> src_FindByID m c i w' = (Inr r, w')"
    and v: "\<And>v. r = Some v \<Longrightarrow> Accessor_Lookup (IDA re) v = (i, True)"
  shows "\<exists>w'. cache_FindByID (NewCacheRepository re rh idt m) go c i w = (Inr r, w') \<and>
     cache_stack re rh idt m w' (c # cs) \<and>
     view_ent re idt (zero_ent m) w' c = (view_ent re idt (zero_ent m) w c)(i := r) \<and>
     (\<exists>h. view_hit rh idt w' c = (view_hit rh idt w c)(HitIDFindByID m i \<mapsto> h) \<and>
        EntityIDs h = (case r of None \<Rightarrow> [] | Some _ \<Rightarrow> [i])) \<and>
     (\<forall>s. fst (cache_FindByID (NewCacheRepository re rh idt m) go c i (fst w', s)) = Inr r)"
proof -
  let ?M = "NewCacheRepository re rh idt m" and ?k = "HitIDFindByID m i"
  let ?q = "mapQueryOneToQueryMany ?M (\<lambda>c. src_FindByID m c i)"
  obtain w' h where q: "cacheQuery ?M c ?k ?q w = (Inr (EntityIDs h), w')"
    and w': "cache_stack re rh idt m w' (c # cs)" "snd w' = snd w" "EntityIDs h = (case r of None \<Rightarrow> [] | Some _ \<Rightarrow> [i])"
    "view_ent re idt (zero_ent m) w' c = (case r of None \<Rightarrow> view_ent re idt (zero_ent m) w c
                                          | Some v \<Rightarrow> (view_ent re idt (zero_ent m) w c)(i \<mapsto> v))"
    "view_hit rh idt w' c = (view_hit rh idt w c)(?k \<mapsto> h)"
    by (rule cache_query_one[OF st ids i HitIDFindByID_not_empty src[OF refl] v])
  have e: "view_ent re idt (zero_ent m) w' c = (view_ent re idt (zero_ent m) w c)(i := r)"
    using w'(4) miss(1) by (cases r) auto
  have "cache_FindByID ?M go c i w = (Inr r, w')"
    using memcache.find_ent[OF st, of i] memcache.find_hit[OF st, of ?k] miss q cache_ctxErr[OF st] w'(3) e
      src[OF w'(2)] cache_FindByIDs_one[OF w'(1), of i]
    by (cases r) (simp_all add: cache_FindByID_def CachedQueryOne_def CachedQueryMany_def cache_fields Let_def
        cache_FindByIDs_none range_or_query_def range_query_def mapQueryOneToQueryMany_def)
  moreover have "fst (cache_FindByID ?M go c i (fst w', s)) = Inr r" for s
    using w'(3,5) fun_cong[OF e, of i] by (intro cache_hit_answers[OF cache_same_memory(1)[OF w'(1)]])
      (simp add: cache_same_memory split: option.split)
  ultimately show ?thesis using w' e by blast
qed

text \<open>C18: InvalidateByID ends and clears. On the in-memory cache repository, inside any nesting of open
  transactions, it returns without an error although it and InvalidateCachedQuery call each other through the
  transaction of the other; afterwards the entity, the hit of its FindByID and every hit that
  refers to it, by ID or by an invalidator, are gone, nothing was added, and the caller's transactions are
  all still open.\<close>

theorem cache_InvalidateByID_clears:
  assumes "cache_stack re rh idt m w (c # cs)"
  shows "\<exists>w'. invalidate (NewCacheRepository re rh idt m) (InvalidateByID i) c w = Some (None, w') \<and>
     cache_stack re rh idt m w' (c # cs) \<and>
     view_ent re idt (zero_ent m) w' c i = None \<and> view_hit rh idt w' c (HitIDFindByID m i) = None \<and>
     (\<forall>k h. view_hit rh idt w' c k = Some h \<longrightarrow> \<not> refers_to m i h) \<and>
     view_ent re idt (zero_ent m) w' c \<subseteq>\<^sub>m view_ent re idt (zero_ent m) w c \<and>
     view_hit rh idt w' c \<subseteq>\<^sub>m view_hit rh idt w c"
  using memcache.invalidate_by_id[OF assms, of i] by (auto simp: memcache.gone_def cache_fields)

section \<open>Witnesses\<close>

text \<open>A source that is a list of payloads by ID, and a cache over it.\<close>

definition ex_hits :: "(nat Hit, string) repository" where
  "ex_hits = \<lparr>Namespace = [], TypeName = ''cache.Hit'',
     IDA = \<lparr>acc_fn = Some (hit_ID, \<lambda>i h. h\<lparr>hit_ID := i\<rparr>), ext_Lookup = \<lambda>h. (hit_ID h, True), ext_Set = \<lambda>h i. (h, None)\<rparr>,
     mkID = \<lambda>_. Inr ''h'', ExpectID = True, IDToMemoryKey = \<lambda>k. k, zeroID = []\<rparr>"

type_synonym ex_world = "(nat \<times> nat, nat) cached memory \<times> (nat \<times> nat) list"

definition ex_cache :: "(nat \<times> nat, nat, mctx, ex_world) Cache" where
  "ex_cache =
     \<lparr>src_FindByID = \<lambda>c i w. (Inr (map_option (\<lambda>p. (i, p)) (map_of (snd w) i)), w),
      src_FindAll = None, src_Create = None, src_Save = None, src_Update = None,
      src_DeleteByID = Some (\<lambda>c i w. (None, (fst w, AList.delete i (snd w)))), src_DeleteAll = None,
      c_BeginTx = \<lambda>c w. ((c, None), w), c_CommitTx = \<lambda>c w. (None, w), c_RollbackTx = \<lambda>c w. (None, w),
      ents_FindByID = \<lambda>c i w. (Inr None, w), ents_FindAll = \<lambda>c w. ([], w), ents_FindByIDs = \<lambda>c is w. ([], w),
      ents_Create = \<lambda>c v w. ((None, v), w), ents_Save = \<lambda>c v w. ((None, v), w), ents_DeleteByID = \<lambda>c i w. (None, w),
      ents_DeleteAll = \<lambda>c w. (None, w),
      hits_FindByID = \<lambda>c k w. (Inr None, w), hits_FindAll = \<lambda>c w. ([], w), hits_Save = \<lambda>c h w. (None, w),
      hits_DeleteByID = \<lambda>c k w. (None, w), hits_DeleteAll = \<lambda>c w. (None, w),
      c_IDA = IDA ex_repo, Invalidators = [], RefreshBehind = False,
      ctxErr = \<lambda>c w. None, withoutCancel = contextkit_WithoutCancel, clock_now = \<lambda>w. 0,
      sprint_ID = \<lambda>i. replicate i (CHR ''1''), zero_ent = (0, 0)\<rparr>"

definition ex_cache_world :: ex_world where
  "ex_cache_world = (NewMemory ''M'', [(2, 5)])"

lemma ex_cache_stack: "cache_stack ex_repo ex_hits ''int'' ex_cache ex_cache_world [Background]"
proof -
  have "mem_Get (NewMemory ''M'' :: (nat \<times> nat, nat) cached memory) Background ns = Map.empty" for ns
    by (simp add: fun_eq_iff mem_Get_def mem_LookupTx_def mem_lookup_def mem_namespace_def gm_get_or_def NewMemory_def)
  moreover have "inj (IDToMemoryKey ex_repo)" "inj (IDToMemoryKey ex_hits)"
    by (auto simp: inj_def ex_repo_def ex_hits_def dest: replicate_eq_replicate[THEN iffD1])
  ultimately show ?thesis
    by (simp add: cache_stack_def ex_cache_world_def ex_repo_open source_reads_def hits_keyed_def tx_above_def ctx_fresh_below_def
        ex_cache_def) (simp add: NewMemory_def)
qed

lemma ex_cache_ids: "cache_ids ex_repo ex_hits ex_cache"
  by (simp add: cache_ids_def ex_cache_def ex_hits_def Accessor_Lookup_def)

theorem cache_FindByID_reads_through_witness:
  "\<exists>w'. cache_FindByID (NewCacheRepository ex_repo ex_hits ''int'' ex_cache) (\<lambda>k job w. w) Background 2 ex_cache_world =
       (Inr (Some (2, 5)), w') \<and> view_ent ex_repo ''int'' (0, 0) w' Background 2 = Some (2, 5) \<and>
     fst (cache_FindByID (NewCacheRepository ex_repo ex_hits ''int'' ex_cache) (\<lambda>k job w. w) Background 2 (fst w', [])) =
       Inr (Some (2, 5))"
proof -
  have z: "zero_ent ex_cache = (0, 0)" by (simp add: ex_cache_def)
  have i: "(2 :: nat) \<noteq> zeroID ex_repo" by (simp add: ex_repo_def)
  have miss: "view_ent ex_repo ''int'' (zero_ent ex_cache) ex_cache_world Background 2 = None"
    "view_hit ex_hits ''int'' ex_cache_world Background (HitIDFindByID ex_cache 2) = None"
    by (simp_all add: view_ent_def view_hit_def ex_cache_world_def mem_Get_def mem_LookupTx_def mem_lookup_def
        mem_namespace_def gm_get_or_def NewMemory_def)
  have src: "src_FindByID ex_cache Background 2 w' = (Inr (Some (2, 5)), w')" if "snd w' = snd ex_cache_world" for w'
    using that by (simp add: ex_cache_def ex_cache_world_def)
  have v: "Accessor_Lookup (IDA ex_repo) v = (2, True)" if "Some (2, 5) = Some v" for v
    using that by (auto simp: ex_repo_def Accessor_Lookup_def)
  show ?thesis
    using cache_FindByID_reads_through[OF ex_cache_stack ex_cache_ids i miss src v, of "\<lambda>k job w. w"]
    unfolding z by fastforce
qed

theorem cache_InvalidateByID_clears_witness:
  "\<exists>w w'. view_ent ex_repo ''int'' (0, 0) w Background 2 = Some (2, 5) \<and> view_hit ex_hits ''int'' w Background ''q'' \<noteq> None \<and>
     invalidate (NewCacheRepository ex_repo ex_hits ''int'' ex_cache) (InvalidateByID 2) Background w = Some (None, w') \<and>
     view_ent ex_repo ''int'' (0, 0) w' Background 2 = None \<and> view_hit ex_hits ''int'' w' Background ''q'' = None"
proof -
  have z: "zero_ent ex_cache = (0, 0)" by (simp add: ex_cache_def)
  have i: "(2 :: nat) \<noteq> zeroID ex_repo" by (simp add: ex_repo_def)
  have q: "''q'' \<noteq> []" by simp
  have src: "src_FindByID ex_cache Background 2 ex_cache_world = (Inr (Some (2, 5)), ex_cache_world)"
    by (simp add: ex_cache_def ex_cache_world_def)
  have v: "Accessor_Lookup (IDA ex_repo) v = (2, True)" if "Some (2, 5) = Some v" for v
    using that by (auto simp: ex_repo_def Accessor_Lookup_def)
  obtain w h where w: "cache_stack ex_repo ex_hits ''int'' ex_cache w [Background]" "EntityIDs h = [2]"
    "view_ent ex_repo ''int'' (0, 0) w Background 2 = Some (2, 5)" "view_hit ex_hits ''int'' w Background ''q'' = Some h"
    by (rule cache_query_one[OF ex_cache_stack ex_cache_ids i q src v]) (simp_all add: z)
  obtain w' where w': "invalidate (NewCacheRepository ex_repo ex_hits ''int'' ex_cache) (InvalidateByID 2) Background w = Some (None, w')"
    "view_ent ex_repo ''int'' (0, 0) w' Background 2 = None"
    "\<forall>k h. view_hit ex_hits ''int'' w' Background k = Some h \<longrightarrow> \<not> refers_to ex_cache 2 h"
    "view_hit ex_hits ''int'' w' Background \<subseteq>\<^sub>m view_hit ex_hits ''int'' w Background"
    using cache_InvalidateByID_clears[OF w(1), of 2] unfolding z by blast
  have "view_hit ex_hits ''int'' w' Background ''q'' = None"
  proof (cases "view_hit ex_hits ''int'' w' Background ''q''")
    case (Some h')
    then have "h' = h" using w'(4) w(4) by (force simp: map_le_def dom_def)
    then have "refers_to ex_cache 2 h'" using w(2) by (simp add: refers_to_def)
    with w'(3) Some show ?thesis by blast
  qed
  with w w' show ?thesis by blast
qed

end
