(* ===== verification/WorkflowVars.thy ===== *)
theory WorkflowVars imports Comproto Slicekit "HOL-Library.List_Lexorder" "HOL-Library.Char_ord" begin

text \<open>
  The data of \<^verbatim>\<open>pkg/workflow\<close> (definitions, events, errors, contexts) and its variables
  (\<^verbatim>\<open>vars.go\<close>, \<^verbatim>\<open>path.go\<close>).

  A process has no state but its events: variables are folds over them. Values of type
  \<^verbatim>\<open>any\<close> are of a type \<open>'v\<close>, compared by equality. UUIDs are numbers, the zero UUID is 0; time stamps
  are numbers. A path is a list of names (\<^verbatim>\<open>pathNode\<close> is that list linked from its end), nil and
  empty are one. The event repository and the generator of IDs and the clock are parameters that act
  on a world \<open>'w\<close>; an iterator is the list of what it yields. Beside them stands \<open>sort_Events\<close>, the \<^verbatim>\<open>sort.Slice\<close> of
  the library on events, which need not be stable.
\<close>

section \<open>Definitions, events, errors\<close>

type_synonym Path = "string list"
type_synonym ProcessID = nat
type_synonym EventID = nat

text \<open>
  A condition is one of the runtime's, called by its ID, or decides on the variables alone
  (\<^verbatim>\<open>wftemplate.Condition\<close> with its template engine as a function). The collection of
  \<^verbatim>\<open>Join\<close>'s mapping is only tested for being empty.
\<close>

datatype 'v wf_cond =
    ExecuteCondition string "string list"
  | TemplateCondition "(string \<times> 'v) list \<Rightarrow> go_error + bool"

datatype 'v wf_def =
    Sequence "'v wf_def list"
  | IfDef "'v wf_cond option" "'v wf_def option" "'v wf_def option"
  | Sleep "'v wf_cond option" "'v wf_cond option"
  | ExecuteParticipant string "string list" "string list"
  | ConditionDef string "string list"
  | SetVar string 'v bool
  | DeleteVar string
  | Spawn string "'v wf_def option" "(string \<times> string) list"
  | Join string "(string \<times> string) list"
  | ForEach string string string

datatype 'v wf_event =
    EventUseDefinition (GetEventID: EventID) (GetProcessID: ProcessID) (GetTimestamp: nat) "'v wf_def"
  | EventCompleted (GetEventID: EventID) (GetProcessID: ProcessID) (GetTimestamp: nat)
  | EventParticipant (GetEventID: EventID) (GetProcessID: ProcessID) (GetTimestamp: nat)
      string Path "'v list" "'v list" "'v wf_def option"
  | EventCondition (GetEventID: EventID) (GetProcessID: ProcessID) (GetTimestamp: nat) string Path "'v list" bool
  | EventSetVar (GetEventID: EventID) (GetProcessID: ProcessID) (GetTimestamp: nat) Path string 'v Path
  | EventDeleteVar (GetEventID: EventID) (GetProcessID: ProcessID) (GetTimestamp: nat) Path string Path
  | EventSpawn (GetEventID: EventID) (GetProcessID: ProcessID) (GetTimestamp: nat) ProcessID string
  | EventJoin (GetEventID: EventID) (GetProcessID: ProcessID) (GetTimestamp: nat) "ProcessID list" Path

text \<open>
  An error is an ordinary one, one of the runtime's signals, a definition that a participant returned
  as its error, or several errors merged.
\<close>

datatype 'v wf_error =
    GoErr go_error
  | ErrParticipantNotFound string
  | ErrConditionNotFound string
  | Suspend
  | Complete ProcessID
  | Replace "'v wf_def"
  | DefinitionErr "'v wf_def"
  | WfMulti "'v wf_error list"

definition ErrFatal :: string where
  "ErrFatal = ''WORKFLOW_FATAL_ERROR''"

definition ErrInvalidDefinition :: string where
  "ErrInvalidDefinition = ''ErrInvalidDefinition''"

definition ErrInvalidParticipantFunc :: string where
  "ErrInvalidParticipantFunc = ''Invalid workflow.Participant#Func signature''"

definition ErrInvalidConditionFunc :: string where
  "ErrInvalidConditionFunc = ''Invalid workflow.Condition#Func signature''"

definition ErrParticipantFuncMappingMismatch :: string where
  "ErrParticipantFuncMappingMismatch = ''ErrParticipantFuncMappingMismatch''"

definition ErrAlreadyRunningProcess :: string where
  "ErrAlreadyRunningProcess = ''The given workflow process is already in execution''"

definition ErrNoProcessDefinition :: string where
  "ErrNoProcessDefinition = ''The given workflow process doesn't have a workflow definition''"

definition ErrNoContextRuntime :: string where
  "ErrNoContextRuntime = ''current context doesn't have workflow.Runtime in it''"

definition ErrZeroProcessID :: string where
  "ErrZeroProcessID = ''workflow.Runtime requires a non-zero ProcessID''"


definition fatal :: "string \<Rightarrow> 'v wf_error" where
  "fatal text = GoErr (ErrorLite_F ErrFatal text)"

fun wf_Is :: "'v wf_error \<Rightarrow> string \<Rightarrow> bool" where
  "wf_Is (GoErr e) t = errors_Is e t"
| "wf_Is (WfMulti es) t = list_ex (\<lambda>e. wf_Is e t) es"
| "wf_Is _ t = False"

fun wf_not_found :: "'v wf_error \<Rightarrow> bool" where
  "wf_not_found (ErrParticipantNotFound i) = True"
| "wf_not_found (ErrConditionNotFound i) = True"
| "wf_not_found (WfMulti es) = list_ex wf_not_found es"
| "wf_not_found _ = False"

definition ErrIsFatal :: "'v wf_error \<Rightarrow> bool" where
  "ErrIsFatal err \<longleftrightarrow>
     wf_Is err ErrInvalidDefinition \<or> wf_Is err ErrInvalidParticipantFunc \<or> wf_Is err ErrInvalidConditionFunc \<or>
     wf_not_found err \<or> wf_Is err ErrNoContextRuntime \<or> wf_Is err ErrNoProcessDefinition \<or> wf_Is err ErrFatal"

text \<open>\<^verbatim>\<open>errorkitlite.Merge\<close> and \<^verbatim>\<open>comproto.FinishOnePhaseCommit\<close> at this error type.\<close>

definition wf_Merge :: "'v wf_error option list \<Rightarrow> 'v wf_error option" where
  "wf_Merge errs = (case List.map_filter (\<lambda>e. e) errs of [] \<Rightarrow> None | [e] \<Rightarrow> Some e | es \<Rightarrow> Some (WfMulti es))"

section \<open>The interfaces\<close>

record ('v, 'c, 'w) EventRepository =
  er_BeginTx :: "'c \<Rightarrow> ('w, 'c \<times> go_error option) op"
  er_CommitTx :: "'c \<Rightarrow> ('w, go_error option) op"
  er_RollbackTx :: "'c \<Rightarrow> ('w, go_error option) op"
  er_Create :: "'c \<Rightarrow> 'v wf_event \<Rightarrow> ('w, go_error option) op"
  er_FindByProcessID :: "'c \<Rightarrow> ProcessID \<Rightarrow> ('w, ('v wf_event \<times> go_error option) list) op"
  MakeEventID :: "('w, go_error + EventID) op"
  clock_Now :: "('w, nat) op"
  sort_Events :: "('v wf_event \<Rightarrow> 'v wf_event \<Rightarrow> bool) \<Rightarrow> 'v wf_event list \<Rightarrow> 'v wf_event list"

record 'c wctx =
  ctx_tx :: 'c
  CurrentPath :: Path
  VarScope :: Path

definition WithName :: "'c wctx \<Rightarrow> string \<Rightarrow> 'c wctx" where
  "WithName ctx name = ctx\<lparr>CurrentPath := CurrentPath ctx @ [name]\<rparr>"

definition WithVarScope :: "'c wctx \<Rightarrow> string \<Rightarrow> 'c wctx" where
  "WithVarScope ctx name = ctx\<lparr>VarScope := VarScope ctx @ [name]\<rparr>"

definition MatchPrefix :: "Path \<Rightarrow> Path \<Rightarrow> bool" where
  "MatchPrefix p prefix =
     (if length p < length prefix then False
      else list_all (\<lambda>i. p ! i = prefix ! i) [0..<length prefix])"

definition wf_Finish ::
    "('v, 'c, 'w) EventRepository \<Rightarrow> 'c \<Rightarrow> 'v wf_error option \<Rightarrow> ('w, 'v wf_error option) op" where
  "wf_Finish er tx errp w =
     (case errp of
        Some e \<Rightarrow> (case er_RollbackTx er tx w of (err, w') \<Rightarrow> (wf_Merge [Some e, map_option GoErr err], w'))
      | None \<Rightarrow> (case er_CommitTx er tx w of (err, w') \<Rightarrow> (map_option GoErr err, w')))"

section \<open>Variables\<close>

fun collectE :: "('a \<times> go_error option) list \<Rightarrow> go_error + 'a list" where
  "collectE [] = Inr []"
| "collectE ((x, Some err) # itr) = Inl err"
| "collectE ((x, None) # itr) = (case collectE itr of Inl err \<Rightarrow> Inl err | Inr xs \<Rightarrow> Inr (x # xs))"

definition Vars_history ::
    "('v, 'c, 'w) EventRepository \<Rightarrow> 'c wctx \<Rightarrow> ProcessID \<Rightarrow> ('w, go_error + 'v wf_event list) op" where
  "Vars_history er ctx pid w = (case er_FindByProcessID er (ctx_tx ctx) pid w of (itr, w') \<Rightarrow> (collectE itr, w'))"

text \<open>The scope found so far, and the value: a variable is found when it has one.\<close>

definition lookup_event ::
    "Path \<Rightarrow> string \<Rightarrow> 'v wf_event \<Rightarrow> Path \<times> 'v option \<Rightarrow> Path \<times> 'v option" where
  "lookup_event currentScope name e = (\<lambda>(scope, value).
     case e of
       EventSetVar _ _ _ _ eName v eScope \<Rightarrow>
         if eName \<noteq> name then (scope, value)
         else if \<not> MatchPrefix currentScope eScope then (scope, value)
         else (if eScope = [] then scope else eScope, Some v)
     | EventDeleteVar _ _ _ _ eName eScope \<Rightarrow>
         if eName \<noteq> name then (scope, value)
         else if \<not> MatchPrefix currentScope eScope then (scope, value)
         else (scope, None)
     | _ \<Rightarrow> (scope, value))"

definition lookupVariable :: "'c wctx \<Rightarrow> 'v wf_event list \<Rightarrow> string \<Rightarrow> Path \<times> 'v option" where
  "lookupVariable ctx events name = fold (lookup_event (VarScope ctx) name) events ([], None)"

definition Vars_Lookup ::
    "('v, 'c, 'w) EventRepository \<Rightarrow> 'c wctx \<Rightarrow> ProcessID \<Rightarrow> string \<Rightarrow> ('w, go_error + 'v option) op" where
  "Vars_Lookup er ctx pid name w =
     (case Vars_history er ctx pid w of
        (Inl err, w') \<Rightarrow> (Inl err, w')
      | (Inr events, w') \<Rightarrow> (Inr (snd (lookupVariable ctx events name)), w'))"

text \<open>\<^verbatim>\<open>Vars.set\<close>: the ID and the time stamp are made just before the event is stored.\<close>

definition record_event ::
    "('v, 'c, 'w) EventRepository \<Rightarrow> 'c \<Rightarrow> (EventID \<Rightarrow> nat \<Rightarrow> 'v wf_event) \<Rightarrow> ('w, go_error option) op" where
  "record_event er tx mk w =
     (case MakeEventID er w of
        (Inl err, w1) \<Rightarrow> (Some err, w1)
      | (Inr eventID, w1) \<Rightarrow> (case clock_Now er w1 of (now, w2) \<Rightarrow> er_Create er tx (mk eventID now) w2))"

definition Vars_set ::
    "('v, 'c, 'w) EventRepository \<Rightarrow> 'c wctx \<Rightarrow> ProcessID \<Rightarrow> 'v wf_event list \<Rightarrow> string \<Rightarrow> 'v \<Rightarrow> ('w, go_error option) op" where
  "Vars_set er ctx pid events name val w =
     (case lookupVariable ctx events name of
        (scope, value) \<Rightarrow>
          if value = Some val then (None, w)
          else let scope = (if value = None then VarScope ctx else scope)
               in record_event er (ctx_tx ctx)
                    (\<lambda>eventID now. EventSetVar eventID pid now (CurrentPath ctx) name val scope) w)"

definition Vars_Set ::
    "('v, 'c, 'w) EventRepository \<Rightarrow> 'c wctx \<Rightarrow> ProcessID \<Rightarrow> string \<Rightarrow> 'v \<Rightarrow> ('w, go_error option) op" where
  "Vars_Set er ctx pid name val w =
     (case Vars_history er ctx pid w of
        (Inl err, w') \<Rightarrow> (Some err, w')
      | (Inr events, w') \<Rightarrow> Vars_set er ctx pid events name val w')"

datatype mutation = SetMutation | DeleteMutation

definition varMutationDone :: "'v wf_event list \<Rightarrow> mutation \<Rightarrow> Path \<Rightarrow> string \<Rightarrow> Path \<Rightarrow> bool" where
  "varMutationDone events typ path name scope =
     list_ex (\<lambda>e. case e of
         EventSetVar _ _ _ ePath eName _ eScope \<Rightarrow> typ = SetMutation \<and> eName = name \<and> ePath = path \<and> eScope = scope
       | EventDeleteVar _ _ _ ePath eName eScope \<Rightarrow> typ = DeleteMutation \<and> eName = name \<and> ePath = path \<and> eScope = scope
       | _ \<Rightarrow> False) events"

definition Vars_setOnce ::
    "('v, 'c, 'w) EventRepository \<Rightarrow> 'c wctx \<Rightarrow> ProcessID \<Rightarrow> string \<Rightarrow> 'v \<Rightarrow> ('w, go_error option) op" where
  "Vars_setOnce er ctx pid name val w =
     (case Vars_history er ctx pid w of
        (Inl err, w') \<Rightarrow> (Some err, w')
      | (Inr events, w') \<Rightarrow>
          (case lookupVariable ctx events name of
             (scope, value) \<Rightarrow>
               let scope = (if value = None then VarScope ctx else scope)
               in if varMutationDone events SetMutation (CurrentPath ctx) name scope then (None, w')
                  else Vars_set er ctx pid events name val w'))"

definition Vars_delete ::
    "('v, 'c, 'w) EventRepository \<Rightarrow> 'c wctx \<Rightarrow> ProcessID \<Rightarrow> 'v wf_event list \<Rightarrow> string \<Rightarrow> ('w, go_error option) op" where
  "Vars_delete er ctx pid events name w =
     (case lookupVariable ctx events name of
        (_, None) \<Rightarrow> (None, w)
      | (scope, Some _) \<Rightarrow>
          record_event er (ctx_tx ctx) (\<lambda>eventID now. EventDeleteVar eventID pid now (CurrentPath ctx) name scope) w)"

definition Vars_Delete ::
    "('v, 'c, 'w) EventRepository \<Rightarrow> 'c wctx \<Rightarrow> ProcessID \<Rightarrow> string \<Rightarrow> ('w, go_error option) op" where
  "Vars_Delete er ctx pid name w =
     (case Vars_history er ctx pid w of
        (Inl err, w') \<Rightarrow> (Some err, w')
      | (Inr events, w') \<Rightarrow> Vars_delete er ctx pid events name w')"

definition Vars_deleteOnce ::
    "('v, 'c, 'w) EventRepository \<Rightarrow> 'c wctx \<Rightarrow> ProcessID \<Rightarrow> string \<Rightarrow> ('w, go_error option) op" where
  "Vars_deleteOnce er ctx pid name w =
     (case Vars_history er ctx pid w of
        (Inl err, w') \<Rightarrow> (Some err, w')
      | (Inr events, w') \<Rightarrow>
          (case lookupVariable ctx events name of
             (_, None) \<Rightarrow> (None, w')
           | (scope, Some _) \<Rightarrow>
               if varMutationDone events DeleteMutation (CurrentPath ctx) name scope then (None, w')
               else Vars_delete er ctx pid events name w'))"

section \<open>All variables\<close>

text \<open>The bindings, sorted by name; the names are different, so this order is determined.\<close>

record 'v VarBinding =
  b_Value :: 'v
  b_Scope :: Path

definition binding_event ::
    "Path \<Rightarrow> 'v wf_event \<Rightarrow> (string, 'v VarBinding) gomap \<Rightarrow> (string, 'v VarBinding) gomap" where
  "binding_event currentVarScope e m =
     (case e of
        EventSetVar _ _ _ _ name v scope \<Rightarrow>
          if \<not> MatchPrefix currentVarScope scope then m else gm_set name \<lparr>b_Value = v, b_Scope = scope\<rparr> m
      | EventDeleteVar _ _ _ _ name scope \<Rightarrow>
          if \<not> MatchPrefix currentVarScope scope then m else gm_del name m
      | _ \<Rightarrow> m)"

type_synonym 'v event_sort = "('v wf_event \<Rightarrow> 'v wf_event \<Rightarrow> bool) \<Rightarrow> 'v wf_event list \<Rightarrow> 'v wf_event list"

abbreviation event_Before :: "'v wf_event \<Rightarrow> 'v wf_event \<Rightarrow> bool" where
  "event_Before a b \<equiv> GetTimestamp a < GetTimestamp b"

definition eventsToVarBindings :: "'v event_sort \<Rightarrow> 'c wctx \<Rightarrow> 'v wf_event list \<Rightarrow> (string \<times> 'v VarBinding) list" where
  "eventsToVarBindings srt ctx events =
     sort_key fst (fold (binding_event (VarScope ctx)) (sk_SortBy srt events event_Before) [])"

definition eventsToVarBindingsE ::
    "'v event_sort \<Rightarrow> 'c wctx \<Rightarrow> ('v wf_event \<times> go_error option) list \<Rightarrow> ProcessID \<Rightarrow> go_error + (string \<times> 'v VarBinding) list" where
  "eventsToVarBindingsE srt ctx events pid =
     (case collectE (filter (\<lambda>(e, err). err \<noteq> None \<or> GetProcessID e = pid) events) of
        Inl err \<Rightarrow> Inl err
      | Inr eventsVS \<Rightarrow> Inr (eventsToVarBindings srt ctx eventsVS))"

definition variablesToMap :: "'v event_sort \<Rightarrow> 'c wctx \<Rightarrow> 'v wf_event list \<Rightarrow> (string \<times> 'v) list" where
  "variablesToMap srt ctx events = map (\<lambda>(name, b). (name, b_Value b)) (eventsToVarBindings srt ctx events)"

definition Vars_ToMap ::
    "('v, 'c, 'w) EventRepository \<Rightarrow> 'c wctx \<Rightarrow> ProcessID \<Rightarrow> ('w, go_error + (string \<times> 'v) list) op" where
  "Vars_ToMap er ctx pid w =
     (case Vars_history er ctx pid w of
        (Inl err, w') \<Rightarrow> (Inl err, w') | (Inr events, w') \<Rightarrow> (Inr (variablesToMap (sort_Events er) ctx events), w'))"

definition Vars_All ::
    "('v, 'c, 'w) EventRepository \<Rightarrow> 'c wctx \<Rightarrow> ProcessID \<Rightarrow> ('w, go_error + (string \<times> 'v VarBinding) list) op" where
  "Vars_All er ctx pid w =
     (case er_FindByProcessID er (ctx_tx ctx) pid w of (itr, w') \<Rightarrow> (eventsToVarBindingsE (sort_Events er) ctx itr pid, w'))"

end
