(* ===== verification/Workflow.thy ===== *)
theory Workflow imports WorkflowVars begin

text \<open>
  The engine of \<^verbatim>\<open>pkg/workflow\<close>: participants and conditions run once per logical step
  (\<^verbatim>\<open>idempotent.go\<close>, \<^verbatim>\<open>participant.go\<close>, \<^verbatim>\<open>condition.go\<close>), the definitions
  (\<^verbatim>\<open>definition.go\<close>, \<^verbatim>\<open>spawn.go\<close>, \<^verbatim>\<open>vars.go\<close>, \<^verbatim>\<open>loop.go\<close>) and the runtime
  (\<^verbatim>\<open>runtime.go\<close>, \<^verbatim>\<open>schedule.go\<close>, \<^verbatim>\<open>replace.go\<close>).

  The record \<^verbatim>\<open>Runtime\<close> holds what the runtime is given, and the two registries that its
  context carries. A participant is what reflection reads of its function (whether its
  signature is valid, how many arguments and results it has) and the call. What may not return
  (a participant can return a definition, a signal starts the definition again, a retry strategy may
  retry for ever) is a partial function: \<^const>\<open>None\<close> is divergence.
\<close>

section \<open>The runtime\<close>

record ('v, 'c, 'w) participant =
  p_rFunc :: "go_error option"
  p_NumIn :: nat
  p_NumOut :: nat
  p_call :: "'c wctx \<Rightarrow> 'v list \<Rightarrow> ('w, 'v list \<times> 'v wf_error option) op"

record ('v, 'c, 'w) condition_fn =
  cf_rfn :: "go_error option"
  cf_call :: "'c wctx \<Rightarrow> 'v list \<Rightarrow> ('w, bool \<times> 'v wf_error option) op"

type_synonym ('a, 'w) by_id = "string \<Rightarrow> ('w, go_error + 'a option) op"

record ProcessExecution =
  pe_ProcessID :: ProcessID
  StartTime :: "nat option"
  CreatedAt :: "nat option"
  FailureCount :: nat

record ('v, 'c, 'w) Runtime =
  rt_Events :: "('v, 'c, 'w) EventRepository option"
  ctx_participants :: "(('v, 'c, 'w) participant, 'w) by_id list option"
  ctx_conditions :: "(('v, 'c, 'w) condition_fn, 'w) by_id list option"
  TryLock :: "(ProcessID \<Rightarrow> 'c \<Rightarrow> ('w, go_error + 'c option) op) option"
  Unlock :: "'c \<Rightarrow> ('w, go_error option) op"
  QueuePublish :: "('c \<Rightarrow> ProcessExecution \<Rightarrow> ('w, go_error option) op) option"
  BroadcastStart :: "('c \<Rightarrow> ProcessID \<Rightarrow> ('w, go_error option) op) option"
  validateValue :: "('w, go_error option) op"
  ShouldTry :: "'c \<Rightarrow> nat \<Rightarrow> ('w, bool) op"
  WaitTime :: int
  BindGracePeriod :: int
  any_bool :: "bool \<Rightarrow> 'v"
  bool_any :: "'v \<Rightarrow> bool option"
  MakeProcessID :: "('w, go_error + ProcessID) op"
  rt_Now :: "('w, nat) op"

definition LookupEventsRepository :: "('v, 'c, 'w) Runtime \<Rightarrow> 'v wf_error + ('v, 'c, 'w) EventRepository" where
  "LookupEventsRepository rt =
     (case rt_Events rt of None \<Rightarrow> Inl (fatal ''missing EventsRepository in context'') | Some er \<Rightarrow> Inr er)"

text \<open>The first repository that knows the ID, or that fails.\<close>

fun find_first :: "('a, 'w) by_id list \<Rightarrow> ('a, 'w) by_id" where
  "find_first [] i w = (Inr None, w)"
| "find_first (r # rs) i w =
     (case r i w of
        (Inl err, w1) \<Rightarrow> (Inl err, w1) | (Inr (Some x), w1) \<Rightarrow> (Inr (Some x), w1) | (Inr None, w1) \<Rightarrow> find_first rs i w1)"

section \<open>One logical step\<close>

record 'v executionEvent =
  ee_ID :: string
  ee_Path :: Path
  ee_Input :: "'v list"
  ee_Output :: "'v list"
  ee_Result :: "'v list"

record ('v, 'c, 'w) idempotentExecutor =
  ie_ID :: string
  ie_Do :: "'c wctx \<Rightarrow> 'v list \<Rightarrow> ('w, 'v list \<times> 'v wf_error option) op"
  ie_Input :: "string list"
  ie_Output :: "string list"
  ie_CastEvent :: "'v wf_event \<Rightarrow> 'v executionEvent option"
  ie_MakeEvent :: "Path \<Rightarrow> 'v list \<Rightarrow> 'v list \<Rightarrow> 'v wf_def option \<Rightarrow> ('w, 'v wf_error + 'v wf_event) op"

text \<open>The first event of the step, with the history up to and including it.\<close>

fun ie_scan ::
    "('v wf_event \<Rightarrow> 'v executionEvent option) \<Rightarrow> string \<Rightarrow> Path \<Rightarrow> 'v wf_event list \<Rightarrow>
     ('v wf_event \<times> go_error option) list \<Rightarrow> go_error + ('v wf_event list \<times> 'v executionEvent) option" where
  "ie_scan cast ident path events [] = Inr None"
| "ie_scan cast ident path events ((e, Some err) # itr) = Inl err"
| "ie_scan cast ident path events ((e, None) # itr) =
     (case cast e of
        None \<Rightarrow> ie_scan cast ident path (events @ [e]) itr
      | Some ee \<Rightarrow> if ee_ID ee = ident \<and> ee_Path ee = path then Inr (Some (events @ [e], ee))
                   else ie_scan cast ident path (events @ [e]) itr)"

definition ie_valid ::
    "('v, 'c, 'w) idempotentExecutor \<Rightarrow> 'c wctx \<Rightarrow> 'v wf_event list \<Rightarrow> 'v executionEvent \<Rightarrow> bool" where
  "ie_valid ie ctx mEvents ee \<longleftrightarrow>
     length (ie_Input ie) = length (ee_Input ee) \<and>
     list_all2 (\<lambda>key v. snd (lookupVariable ctx mEvents key) = Some v) (ie_Input ie) (ee_Input ee) \<and>
     length (ie_Output ie) = length (ee_Output ee)"

fun ie_inputs ::
    "('v, 'c, 'w) EventRepository \<Rightarrow> 'c wctx \<Rightarrow> ProcessID \<Rightarrow> string list \<Rightarrow> ('w, 'v wf_error + 'v list) op" where
  "ie_inputs er ctx pid [] w = (Inr [], w)"
| "ie_inputs er ctx pid (key # keys) w =
     (case Vars_Lookup er ctx pid key w of
        (Inl err, w1) \<Rightarrow> (Inl (GoErr err), w1)
      | (Inr None, w1) \<Rightarrow> (Inl (fatal ''missing input argument''), w1)
      | (Inr (Some v), w1) \<Rightarrow>
          (case ie_inputs er ctx pid keys w1 of (Inl err, w2) \<Rightarrow> (Inl err, w2) | (Inr vs, w2) \<Rightarrow> (Inr (v # vs), w2)))"

text \<open>The output variables; more names than results would be an index out of range.\<close>

fun ie_outputs ::
    "('v, 'c, 'w) EventRepository \<Rightarrow> 'c wctx \<Rightarrow> ProcessID \<Rightarrow> string list \<Rightarrow> 'v list \<Rightarrow> ('w, 'v wf_error option) op" where
  "ie_outputs er ctx pid [] output w = (None, w)"
| "ie_outputs er ctx pid (key # keys) [] w = (Some (GoErr (ErrPanic ''index out of range'')), w)"
| "ie_outputs er ctx pid (key # keys) (v # output) w =
     (case Vars_Set er ctx pid key v w of
        (Some err, w1) \<Rightarrow> (Some (GoErr err), w1) | (None, w1) \<Rightarrow> ie_outputs er ctx pid keys output w1)"

text \<open>
  A deferred finish sees the error that is being returned; while a panic unwinds there is none, so it
  commits, and the panic goes on.
\<close>

definition finish_deferred ::
    "('v, 'c, 'w) EventRepository \<Rightarrow> 'c \<Rightarrow> 'v wf_error option \<Rightarrow> ('w, 'v wf_error option) op" where
  "finish_deferred er tx rErr w =
     (case rErr of
        Some (GoErr (ErrPanic text)) \<Rightarrow> (case wf_Finish er tx None w of (_, w') \<Rightarrow> (rErr, w'))
      | _ \<Rightarrow> wf_Finish er tx rErr w)"

text \<open>A step returns, or goes on with a definition that its function returned.\<close>

datatype 'v ie_result = IEDone "'v wf_error + 'v list" | IERun "'v wf_def"

definition handleResultDefinition ::
    "('v, 'c, 'w) EventRepository \<Rightarrow> ('v, 'c, 'w) idempotentExecutor \<Rightarrow> 'c wctx \<Rightarrow> ProcessID \<Rightarrow> Path \<Rightarrow> 'v list \<Rightarrow> 'v wf_def \<Rightarrow>
     ('w, 'v ie_result) op" where
  "handleResultDefinition er ie ctx pid path input def w =
     (case ie_MakeEvent ie path input [] (Some def) w of
        (Inl err, w1) \<Rightarrow> (IEDone (Inl err), w1)
      | (Inr event, w1) \<Rightarrow>
          if GetProcessID event \<noteq> pid then (IEDone (Inl (GoErr (ErrText ''process id mismatch''))), w1)
          else (case er_Create er (ctx_tx ctx) event w1 of
                  (Some err, w2) \<Rightarrow> (IEDone (Inl (GoErr err)), w2)
                | (None, w2) \<Rightarrow> (IERun def, w2)))"

definition ie_record ::
    "('v, 'c, 'w) EventRepository \<Rightarrow> ('v, 'c, 'w) idempotentExecutor \<Rightarrow> 'c wctx \<Rightarrow> ProcessID \<Rightarrow> Path \<Rightarrow> 'v list \<Rightarrow> 'v list \<Rightarrow>
     ('w, 'v ie_result) op" where
  "ie_record er ie ctx pid path input output w =
     (case ie_MakeEvent ie path input output None w of
        (Inl err, w1) \<Rightarrow> (IEDone (Inl err), w1)
      | (Inr event, w1) \<Rightarrow>
          if GetProcessID event \<noteq> pid then (IEDone (Inl (GoErr (ErrText ''process id mismatch''))), w1)
          else (case er_Create er (ctx_tx ctx) event w1 of
                  (Some err, w2) \<Rightarrow> (IEDone (Inl (GoErr err)), w2)
                | (None, w2) \<Rightarrow>
                    (case er_BeginTx er (ctx_tx ctx) w2 of
                       ((_, Some err), w3) \<Rightarrow> (IEDone (Inl (GoErr err)), w3)
                     | ((tx, None), w3) \<Rightarrow>
                         (case ie_outputs er (ctx\<lparr>ctx_tx := tx\<rparr>) pid (ie_Output ie) output w3 of
                            (rErr, w4) \<Rightarrow>
                              (case finish_deferred er tx rErr w4 of
                                 (Some err, w5) \<Rightarrow> (IEDone (Inl err), w5)
                               | (None, w5) \<Rightarrow> (IEDone (Inr output), w5))))))"

definition ie_step ::
    "('v, 'c, 'w) EventRepository \<Rightarrow> ('v, 'c, 'w) idempotentExecutor \<Rightarrow> 'c wctx \<Rightarrow> ProcessID \<Rightarrow> ('w, 'v ie_result) op" where
  "ie_step er ie ctx pid w =
     (let path = CurrentPath ctx
      in case er_FindByProcessID er (ctx_tx ctx) pid w of
           (itr, w1) \<Rightarrow>
             (case ie_scan (ie_CastEvent ie) (ie_ID ie) path [] itr of
                Inl err \<Rightarrow> (IEDone (Inl (GoErr err)), w1)
              | Inr found \<Rightarrow>
                  (case (case found of Some (mEvents, ee) \<Rightarrow> if ie_valid ie ctx mEvents ee then Some ee else None | None \<Rightarrow> None) of
                     Some ee \<Rightarrow> (IEDone (Inr (ee_Result ee)), w1)
                   | None \<Rightarrow>
                       (case ie_inputs er ctx pid (ie_Input ie) w1 of
                          (Inl err, w2) \<Rightarrow> (IEDone (Inl err), w2)
                        | (Inr input, w2) \<Rightarrow>
                            (case ie_Do ie ctx input w2 of
                               ((_, Some (DefinitionErr def)), w3) \<Rightarrow> handleResultDefinition er ie ctx pid path input def w3
                             | ((_, Some err), w3) \<Rightarrow> (IEDone (Inl err), w3)
                             | ((output, None), w3) \<Rightarrow> ie_record er ie ctx pid path input output w3)))))"

text \<open>The deferred finish of the step's transaction.\<close>

definition ie_finish ::
    "('v, 'c, 'w) EventRepository \<Rightarrow> 'c \<Rightarrow> 'v wf_error + 'v list \<Rightarrow> ('w, 'v wf_error + 'v list) op" where
  "ie_finish er tx r w =
     (case finish_deferred er tx (case r of Inl err \<Rightarrow> Some err | Inr _ \<Rightarrow> None) w of
        (Some err, w') \<Rightarrow> (Inl err, w') | (None, w') \<Rightarrow> (r, w'))"

section \<open>Participants\<close>

text \<open>A reflected call gets the context and the inputs; its last result is its error.\<close>

definition participant_execute ::
    "('v, 'c, 'w) Runtime \<Rightarrow> string \<Rightarrow> string list \<Rightarrow> 'c wctx \<Rightarrow> 'v list \<Rightarrow> ('w, 'v list \<times> 'v wf_error option) op" where
  "participant_execute rt ident Output ctx input w =
     (case ctx_participants rt of
        None \<Rightarrow> (([], Some (fatal ''missing participant mapping from workflow runtime'')), w)
      | Some prs \<Rightarrow>
          (case find_first prs ident w of
             (Inl err, w1) \<Rightarrow> (([], Some (GoErr err)), w1)
           | (Inr None, w1) \<Rightarrow> (([], Some (ErrParticipantNotFound ident)), w1)
           | (Inr (Some p), w1) \<Rightarrow>
               (case p_rFunc p of
                  Some err \<Rightarrow> (([], Some (GoErr err)), w1)
                | None \<Rightarrow>
                    if Suc (length input) \<noteq> p_NumIn p then
                      (([], Some (GoErr (ErrorLite_F ErrParticipantFuncMappingMismatch ''arguments''))), w1)
                    else if length Output \<noteq> p_NumOut p - 1 then
                      (([], Some (GoErr (ErrorLite_F ErrParticipantFuncMappingMismatch ''results''))), w1)
                    else p_call p ctx input w1)))"

definition participant_MakeEvent ::
    "('v, 'c, 'w) EventRepository \<Rightarrow> ProcessID \<Rightarrow> string \<Rightarrow> Path \<Rightarrow> 'v list \<Rightarrow> 'v list \<Rightarrow> 'v wf_def option \<Rightarrow> ('w, 'v wf_error + 'v wf_event) op" where
  "participant_MakeEvent er pid ident path input output def w =
     (case MakeEventID er w of
        (Inl err, w1) \<Rightarrow> (Inl (GoErr err), w1)
      | (Inr eventID, w1) \<Rightarrow>
          (case clock_Now er w1 of (now, w2) \<Rightarrow> (Inr (EventParticipant eventID pid now ident path input output def), w2)))"

definition participant_executor ::
    "('v, 'c, 'w) Runtime \<Rightarrow> ('v, 'c, 'w) EventRepository \<Rightarrow> ProcessID \<Rightarrow> string \<Rightarrow> string list \<Rightarrow> string list \<Rightarrow> ('v, 'c, 'w) idempotentExecutor" where
  "participant_executor rt er pid ident Input Output =
     \<lparr>ie_ID = ident, ie_Do = participant_execute rt ident Output, ie_Input = Input, ie_Output = Output,
      ie_CastEvent = (\<lambda>e. case e of
          EventParticipant _ _ _ i path input output _ \<Rightarrow>
            Some \<lparr>ee_ID = i, ee_Path = path, ee_Input = input, ee_Output = output, ee_Result = []\<rparr>
        | _ \<Rightarrow> None),
      ie_MakeEvent = participant_MakeEvent er pid ident\<rparr>"

section \<open>Conditions\<close>

definition condition_evaluate ::
    "('v, 'c, 'w) Runtime \<Rightarrow> string \<Rightarrow> 'c wctx \<Rightarrow> 'v list \<Rightarrow> ('w, 'v list \<times> 'v wf_error option) op" where
  "condition_evaluate rt ident ctx input w =
     (case ctx_conditions rt of
        None \<Rightarrow> (([any_bool rt False], Some (fatal ''missing condition mapping from workflow runtime'')), w)
      | Some crs \<Rightarrow>
          (case find_first crs ident w of
             (Inl err, w1) \<Rightarrow> (([any_bool rt False], Some (GoErr err)), w1)
           | (Inr None, w1) \<Rightarrow> (([any_bool rt False], Some (ErrConditionNotFound ident)), w1)
           | (Inr (Some c), w1) \<Rightarrow>
               (case cf_rfn c of
                  Some err \<Rightarrow> (([any_bool rt False], Some (GoErr err)), w1)
                | None \<Rightarrow> (case cf_call c ctx input w1 of ((b, err), w2) \<Rightarrow> (([any_bool rt b], err), w2)))))"

text \<open>The event stores \<^verbatim>\<open>output[0].(bool)\<close>, which panics without an output.\<close>

definition condition_MakeEvent ::
    "('v, 'c, 'w) Runtime \<Rightarrow> ('v, 'c, 'w) EventRepository \<Rightarrow> ProcessID \<Rightarrow> string \<Rightarrow> Path \<Rightarrow> 'v list \<Rightarrow> 'v list \<Rightarrow> 'v wf_def option \<Rightarrow>
     ('w, 'v wf_error + 'v wf_event) op" where
  "condition_MakeEvent rt er pid ident path input output def w =
     (case MakeEventID er w of
        (Inl err, w1) \<Rightarrow> (Inl (GoErr err), w1)
      | (Inr eventID, w1) \<Rightarrow>
          (case output of
             [] \<Rightarrow> (Inl (GoErr (ErrPanic ''index out of range'')), w1)
           | v # _ \<Rightarrow>
               (case bool_any rt v of
                  None \<Rightarrow> (Inl (GoErr (ErrPanic ''interface conversion'')), w1)
                | Some b \<Rightarrow> (case clock_Now er w1 of (now, w2) \<Rightarrow> (Inr (EventCondition eventID pid now ident path input b), w2)))))"

definition condition_executor ::
    "('v, 'c, 'w) Runtime \<Rightarrow> ('v, 'c, 'w) EventRepository \<Rightarrow> ProcessID \<Rightarrow> string \<Rightarrow> string list \<Rightarrow> ('v, 'c, 'w) idempotentExecutor" where
  "condition_executor rt er pid ident Input =
     \<lparr>ie_ID = ident, ie_Do = condition_evaluate rt ident, ie_Input = Input, ie_Output = [],
      ie_CastEvent = (\<lambda>e. case e of
          EventCondition _ _ _ i path input answer \<Rightarrow>
            Some \<lparr>ee_ID = i, ee_Path = path, ee_Input = input, ee_Output = [], ee_Result = [any_bool rt answer]\<rparr>
        | _ \<Rightarrow> None),
      ie_MakeEvent = condition_MakeEvent rt er pid ident\<rparr>"

definition condition_cachedExecute ::
    "('v, 'c, 'w) Runtime \<Rightarrow> string \<Rightarrow> string list \<Rightarrow> 'c wctx \<Rightarrow> ProcessID \<Rightarrow> ('w, 'v wf_error + bool) op" where
  "condition_cachedExecute rt ident Input ctx0 pid w =
     (let ctx = WithName ctx0 ident
      in case LookupEventsRepository rt of
           Inl err \<Rightarrow> (Inl err, w)
         | Inr er \<Rightarrow>
             (case er_BeginTx er (ctx_tx ctx) w of
                ((_, Some err), w1) \<Rightarrow> (Inl (GoErr err), w1)
              | ((tx, None), w1) \<Rightarrow>
                  (case ie_step er (condition_executor rt er pid ident Input) (ctx\<lparr>ctx_tx := tx\<rparr>) pid w1 of
                     (IERun _, w2) \<Rightarrow> (Inl (GoErr (ErrPanic ''unreachable'')), w2)
                   | (IEDone r, w2) \<Rightarrow>
                       (case ie_finish er tx r w2 of
                          (Inl err, w3) \<Rightarrow> (Inl err, w3)
                        | (Inr outs, w3) \<Rightarrow>
                            (case outs of
                               [v] \<Rightarrow> (case bool_any rt v of Some b \<Rightarrow> (Inr b, w3)
                                        | None \<Rightarrow> (Inl (GoErr (ErrText ''incorrect condition caching implementation'')), w3))
                             | _ \<Rightarrow> (Inl (GoErr (ErrText ''incorrect condition caching implementation'')), w3))))))"

fun Evaluate :: "('v, 'c, 'w) Runtime \<Rightarrow> 'v wf_cond \<Rightarrow> 'c wctx \<Rightarrow> ProcessID \<Rightarrow> ('w, 'v wf_error + bool) op" where
  "Evaluate rt (ExecuteCondition ident Input) ctx pid w = condition_cachedExecute rt ident Input ctx pid w"
| "Evaluate rt (TemplateCondition tpl) ctx pid w =
     (case LookupEventsRepository rt of
        Inl err \<Rightarrow> (Inl err, w)
      | Inr er \<Rightarrow>
          (case Vars_ToMap er ctx pid w of
             (Inl err, w1) \<Rightarrow> (Inl (GoErr err), w1)
           | (Inr vs, w1) \<Rightarrow> (case tpl vs of Inl err \<Rightarrow> (Inl (GoErr err), w1) | Inr b \<Rightarrow> (Inr b, w1))))"

definition Sleep_Execute ::
    "('v, 'c, 'w) Runtime \<Rightarrow> 'v wf_cond option \<Rightarrow> 'v wf_cond option \<Rightarrow> 'c wctx \<Rightarrow> ProcessID \<Rightarrow> ('w, 'v wf_error option) op" where
  "Sleep_Execute rt While Until ctx0 pid w =
     (let ctx = WithName ctx0 ''sleep''
      in case While of
           Some c \<Rightarrow>
             (case Evaluate rt c ctx pid w of
                (Inl err, w1) \<Rightarrow> (Some err, w1)
              | (Inr ok, w1) \<Rightarrow> (if \<not> ok then None else Some Suspend, w1))
         | None \<Rightarrow>
             (case Until of
                Some c \<Rightarrow>
                  (case Evaluate rt c ctx pid w of
                     (Inl err, w1) \<Rightarrow> (Some err, w1)
                   | (Inr ok, w1) \<Rightarrow> (if ok then None else Some Suspend, w1))
              | None \<Rightarrow> (Some Suspend, w)))"

section \<open>Retrying, binding, scheduling\<close>

text \<open>
  The range over \<^verbatim>\<open>resilience.Retries\<close>, which asks the strategy twice for each attempt; it ends with the
  last error, and with none when the strategy allows no attempt at all.
\<close>

definition stops_retry :: "'v wf_error \<Rightarrow> bool" where
  "stops_retry err \<longleftrightarrow>
     ErrIsFatal err \<or> wf_Is err ErrFatal \<or> wf_Is err ErrAlreadyRunningProcess \<or>
     wf_Is err ErrNoProcessDefinition \<or> wf_Is err ErrZeroProcessID"

text \<open>A panic is not an error that the loop sees: it leaves the loop.\<close>

definition wf_panicked :: "'v wf_error \<Rightarrow> bool" where
  "wf_panicked err \<longleftrightarrow> (case err of GoErr (ErrPanic _) \<Rightarrow> True | _ \<Rightarrow> False)"

partial_function (option) retry_loop ::
    "(nat \<Rightarrow> ('w, bool) op) \<Rightarrow> ('w \<Rightarrow> ('v wf_error option \<times> 'w) option) \<Rightarrow> nat \<Rightarrow> 'v wf_error option \<Rightarrow> 'w \<Rightarrow>
     ('v wf_error option \<times> 'w) option" where
  "retry_loop try body n err w =
     (case try n w of
        (ok, w1) \<Rightarrow>
          if \<not> ok then Some (err, w1)
          else (case try n w1 of
            (ok, w2) \<Rightarrow>
              if \<not> ok then Some (err, w2)
              else Option.bind (body w2)
                     (\<lambda>(r, w3). case r of
                        None \<Rightarrow> Some (None, w3)
                      | Some e \<Rightarrow> if wf_panicked e \<or> stops_retry e then Some (Some e, w3) else retry_loop try body (Suc n) (Some e) w3)))"

definition withRetry ::
    "('v, 'c, 'w) Runtime \<Rightarrow> 'c \<Rightarrow> ('w \<Rightarrow> ('v wf_error option \<times> 'w) option) \<Rightarrow> 'w \<Rightarrow> ('v wf_error option \<times> 'w) option" where
  "withRetry rt tx body w = retry_loop (ShouldTry rt tx) body 0 None w"

fun has_definition :: "('v wf_event \<times> go_error option) list \<Rightarrow> go_error + bool" where
  "has_definition [] = Inr False"
| "has_definition ((e, Some err) # itr) = Inl err"
| "has_definition ((e, None) # itr) =
     (case e of EventUseDefinition _ _ _ _ \<Rightarrow> Inr True | _ \<Rightarrow> has_definition itr)"

definition rt_bind :: "('v, 'c, 'w) Runtime \<Rightarrow> 'c \<Rightarrow> ProcessID \<Rightarrow> 'v wf_def \<Rightarrow> ('w, 'v wf_error option) op" where
  "rt_bind rt tx pid def w =
     (if pid = 0 then (Some (GoErr (ErrConst ErrZeroProcessID)), w)
      else case rt_Events rt of
        None \<Rightarrow> (Some (fatal ''missing workflow.Runtime#EventsRepository''), w)
      | Some er \<Rightarrow>
          (case er_FindByProcessID er tx pid w of
             (itr, w1) \<Rightarrow>
               (case has_definition itr of
                  Inl err \<Rightarrow> (Some (GoErr err), w1)
                | Inr True \<Rightarrow> (None, w1)
                | Inr False \<Rightarrow>
                    (case record_event er tx (\<lambda>eventID now. EventUseDefinition eventID pid now def) w1 of
                       (err, w2) \<Rightarrow> (map_option GoErr err, w2)))))"

definition rt_Bind ::
    "('v, 'c, 'w) Runtime \<Rightarrow> 'c \<Rightarrow> ProcessID \<Rightarrow> 'v wf_def \<Rightarrow> 'w \<Rightarrow> ('v wf_error option \<times> 'w) option" where
  "rt_Bind rt tx pid def = withRetry rt tx (\<lambda>w. Some (rt_bind rt tx pid def w))"

definition rt_Validate :: "('v, 'c, 'w) Runtime \<Rightarrow> ('w, go_error option) op" where
  "rt_Validate rt w =
     (if rt_Events rt = None then (Some (ErrText ''missing EventsRepository''), w)
      else if QueuePublish rt = None then (Some (ErrText ''missing ProcessQueue''), w)
      else if BroadcastStart rt = None then (Some (ErrText ''missing ProcessQueueChangeBroadcast''), w)
      else validateValue rt w)"

definition rt_schedule ::
    "('v, 'c, 'w) Runtime \<Rightarrow> 'c \<Rightarrow> ProcessID \<Rightarrow> (ProcessExecution \<Rightarrow> ProcessExecution) list \<Rightarrow> ('w, 'v wf_error option) op" where
  "rt_schedule rt tx pid opts w =
     (case rt_Validate rt w of
        (Some err, w1) \<Rightarrow> (Some (GoErr err), w1)
      | (None, w1) \<Rightarrow>
          if pid = 0 then (Some (GoErr (ErrorLite_F ErrZeroProcessID ''Scheduling requires a non-zero processID'')), w1)
          else let sch = fold (\<lambda>opt sch. opt sch) opts \<lparr>pe_ProcessID = 0, StartTime = None, CreatedAt = None, FailureCount = 0\<rparr>
            in case rt_Now rt w1 of
              (now, w2) \<Rightarrow>
                (case (case StartTime sch of Some t \<Rightarrow> (t, w2) | None \<Rightarrow> rt_Now rt w2) of
                   (start, w3) \<Rightarrow>
                     (case the (QueuePublish rt) tx (sch\<lparr>pe_ProcessID := pid, CreatedAt := Some now, StartTime := Some start\<rparr>) w3 of
                        (Some err, w4) \<Rightarrow> (Some (GoErr err), w4)
                      | (None, w4) \<Rightarrow>
                          (case the (BroadcastStart rt) tx pid w4 of (err, w5) \<Rightarrow> (map_option GoErr err, w5)))))"

definition rt_Schedule ::
    "('v, 'c, 'w) Runtime \<Rightarrow> 'c \<Rightarrow> ProcessID \<Rightarrow> (ProcessExecution \<Rightarrow> ProcessExecution) list \<Rightarrow> 'w \<Rightarrow> ('v wf_error option \<times> 'w) option" where
  "rt_Schedule rt tx pid opts = withRetry rt tx (\<lambda>w. Some (rt_schedule rt tx pid opts w))"

text \<open>Without lockers there is no lock: the context stays and unlocking does nothing.\<close>

definition rt_tryLock ::
    "('v, 'c, 'w) Runtime \<Rightarrow> 'c \<Rightarrow> ProcessID \<Rightarrow> ('w, go_error + ('c \<times> ('w, go_error option) op) option) op" where
  "rt_tryLock rt tx pid w =
     (case TryLock rt of
        None \<Rightarrow> (Inr (Some (tx, \<lambda>w. (None, w))), w)
      | Some try \<Rightarrow>
          (case try pid tx w of
             (Inl err, w1) \<Rightarrow> (Inl err, w1)
           | (Inr None, w1) \<Rightarrow> (Inr None, w1)
           | (Inr (Some tx'), w1) \<Rightarrow> (Inr (Some (tx', Unlock rt tx')), w1)))"

section \<open>Completion\<close>

fun is_completed :: "ProcessID \<Rightarrow> ('v wf_event \<times> go_error option) list \<Rightarrow> go_error + bool" where
  "is_completed pid [] = Inr False"
| "is_completed pid ((e, Some err) # itr) = Inl err"
| "is_completed pid ((e, None) # itr) =
     (case e of EventCompleted _ p _ \<Rightarrow> if p = pid then Inr True else is_completed pid itr | _ \<Rightarrow> is_completed pid itr)"

definition Complete_IsCompleted ::
    "('v, 'c, 'w) EventRepository \<Rightarrow> 'c \<Rightarrow> ProcessID \<Rightarrow> ('w, go_error + bool) op" where
  "Complete_IsCompleted er tx pid w =
     (case er_FindByProcessID er tx pid w of (itr, w1) \<Rightarrow> (is_completed pid itr, w1))"

definition Complete_Execute :: "('v, 'c, 'w) EventRepository \<Rightarrow> 'c \<Rightarrow> ProcessID \<Rightarrow> ('w, go_error option) op" where
  "Complete_Execute er tx pid w =
     (case er_FindByProcessID er tx pid w of
        (itr, w1) \<Rightarrow>
          (case is_completed pid itr of
             Inl err \<Rightarrow> (Some err, w1)
           | Inr True \<Rightarrow> (None, w1)
           | Inr False \<Rightarrow> record_event er tx (\<lambda>eventID now. EventCompleted eventID pid now) w1))"

definition Replace_Execute :: "('v, 'c, 'w) EventRepository \<Rightarrow> 'c \<Rightarrow> ProcessID \<Rightarrow> 'v wf_def \<Rightarrow> ('w, go_error option) op" where
  "Replace_Execute er tx pid def = record_event er tx (\<lambda>eventID now. EventUseDefinition eventID pid now def)"

section \<open>Spawning\<close>

text \<open>A definition validates itself when it can: spawns and joins can.\<close>

fun wf_Validate :: "'v wf_def \<Rightarrow> go_error option" where
  "wf_Validate (Spawn name def vars) =
     (if name = [] then Some (ErrText ''missing Spawn#Name'')
      else case def of None \<Rightarrow> Some (ErrText ''missing Spawn#Definition'') | Some d \<Rightarrow> wf_Validate d)"
| "wf_Validate (Join name collect) =
     (if collect \<noteq> [] \<and> name = [] then Some (ErrText ''workflow.Join#Collect only works if the SpawnName is provided'') else None)"
| "wf_Validate _ = None"

fun find_spawn :: "string \<Rightarrow> ('v wf_event \<times> go_error option) list \<Rightarrow> go_error + ('v wf_event \<times> ProcessID) option" where
  "find_spawn name [] = Inr None"
| "find_spawn name ((e, Some err) # itr) = Inl err"
| "find_spawn name ((e, None) # itr) =
     (case e of
        EventSpawn _ _ _ child eName \<Rightarrow> if name = eName then Inr (Some (e, child)) else find_spawn name itr
      | _ \<Rightarrow> find_spawn name itr)"

definition ensureSpawnEvent ::
    "('v, 'c, 'w) Runtime \<Rightarrow> ('v, 'c, 'w) EventRepository \<Rightarrow> 'c \<Rightarrow> ProcessID \<Rightarrow> string \<Rightarrow> ('w, go_error + ProcessID) op" where
  "ensureSpawnEvent rt er tx parentID name w =
     (case er_FindByProcessID er tx parentID w of
        (itr, w1) \<Rightarrow>
          (case find_spawn name itr of
             Inl err \<Rightarrow> (Inl err, w1)
           | Inr (Some (e, child)) \<Rightarrow> (Inr child, w1)
           | Inr None \<Rightarrow>
               (case MakeEventID er w1 of
                  (Inl err, w2) \<Rightarrow> (Inl err, w2)
                | (Inr eventID, w2) \<Rightarrow>
                    (case MakeProcessID rt w2 of
                       (Inl err, w3) \<Rightarrow> (Inl err, w3)
                     | (Inr child, w3) \<Rightarrow>
                         (case clock_Now er w3 of
                            (now, w4) \<Rightarrow>
                              (case er_Create er tx (EventSpawn eventID parentID now child name) w4 of
                                 (Some err, w5) \<Rightarrow> (Inl err, w5) | (None, w5) \<Rightarrow> (Inr child, w5)))))))"

fun forwardVars ::
    "('v, 'c, 'w) EventRepository \<Rightarrow> 'c wctx \<Rightarrow> ProcessID \<Rightarrow> ProcessID \<Rightarrow> (string \<times> string) list \<Rightarrow> ('w, go_error option) op" where
  "forwardVars er ctx parentID childID [] w = (None, w)"
| "forwardVars er ctx parentID childID ((parentKey, childKey) # vars) w =
     (case Vars_Lookup er ctx parentID parentKey w of
        (Inl err, w1) \<Rightarrow> (Some err, w1)
      | (Inr None, w1) \<Rightarrow> forwardVars er ctx parentID childID vars w1
      | (Inr (Some v), w1) \<Rightarrow>
          (case Vars_Set er ctx childID childKey v w1 of
             (Some err, w2) \<Rightarrow> (Some err, w2) | (None, w2) \<Rightarrow> forwardVars er ctx parentID childID vars w2))"

text \<open>
  The deferred finish is given the function's variable \<open>err\<close>, not its result: the errors of the loop, of
  \<^verbatim>\<open>Bind\<close> and of \<^verbatim>\<open>forwardVars\<close> are other variables of that name, so the transaction is committed, and
  the finish's own error is lost.
\<close>

definition Spawn_ensureEvents ::
    "('v, 'c, 'w) Runtime \<Rightarrow> ('v, 'c, 'w) EventRepository \<Rightarrow> 'c wctx \<Rightarrow> ProcessID \<Rightarrow> string \<Rightarrow> 'v wf_def \<Rightarrow>
     (string \<times> string) list \<Rightarrow> 'w \<Rightarrow> (('v wf_error + ProcessID) \<times> 'w) option" where
  "Spawn_ensureEvents rt er ctx0 parentID name def vars w =
     (case er_BeginTx er (ctx_tx ctx0) w of
        ((_, Some err), w1) \<Rightarrow> Some (Inl (GoErr err), w1)
      | ((tx, None), w1) \<Rightarrow>
          (let ctx = ctx0\<lparr>ctx_tx := tx\<rparr>
           in case ensureSpawnEvent rt er tx parentID name w1 of
                (Inl err, w2) \<Rightarrow> (case wf_Finish er tx (Some (GoErr err)) w2 of (_, w3) \<Rightarrow> Some (Inl (GoErr err), w3))
              | (Inr child, w2) \<Rightarrow>
                  Option.bind
                    (case er_FindByProcessID er tx child w2 of
                       ((e, Some err) # itr, w3) \<Rightarrow> Some (Inl (GoErr err), w3)
                     | ((e, None) # itr, w3) \<Rightarrow> Some (Inr child, w3)
                     | ([], w3) \<Rightarrow>
                         Option.bind (rt_Bind rt tx child def w3)
                           (\<lambda>(err, w4). case err of
                              Some e \<Rightarrow> Some (Inl e, w4)
                            | None \<Rightarrow>
                                (case forwardVars er ctx parentID child vars w4 of
                                   (Some e, w5) \<Rightarrow> Some (Inl (GoErr e), w5)
                                 | (None, w5) \<Rightarrow> Some (Inr child, w5))))
                    (\<lambda>(r, w6). case wf_Finish er tx None w6 of (_, w7) \<Rightarrow> Some (r, w7))))"

definition Spawn_scheduleChild ::
    "('v, 'c, 'w) Runtime \<Rightarrow> ('v, 'c, 'w) EventRepository \<Rightarrow> 'c \<Rightarrow> ProcessID \<Rightarrow> 'w \<Rightarrow> ('v wf_error option \<times> 'w) option" where
  "Spawn_scheduleChild rt er tx child w =
     (case rt_tryLock rt tx child w of
        (Inl err, w1) \<Rightarrow> Some (Some (GoErr err), w1)
      | (Inr None, w1) \<Rightarrow> Some (None, w1)
      | (Inr (Some (_, unlock)), w1) \<Rightarrow>
          (case unlock w1 of
             (Some err, w2) \<Rightarrow> Some (Some (GoErr err), w2)
           | (None, w2) \<Rightarrow>
               (case Complete_IsCompleted er tx child w2 of
                  (Inl err, w3) \<Rightarrow> Some (Some (GoErr err), w3)
                | (Inr True, w3) \<Rightarrow> Some (None, w3)
                | (Inr False, w3) \<Rightarrow> rt_Schedule rt tx child [] w3)))"

definition Spawn_Execute ::
    "('v, 'c, 'w) Runtime \<Rightarrow> string \<Rightarrow> 'v wf_def option \<Rightarrow> (string \<times> string) list \<Rightarrow> 'c wctx \<Rightarrow> ProcessID \<Rightarrow> 'w \<Rightarrow>
     ('v wf_error option \<times> 'w) option" where
  "Spawn_Execute rt name def vars ctx0 pid w =
     (case wf_Validate (Spawn name def vars) of
        Some err \<Rightarrow> Some (Some (GoErr err), w)
      | None \<Rightarrow>
          (let ctx = WithName (WithName ctx0 ''spawn'') name
           in case rt_Validate rt w of
                (Some err, w1) \<Rightarrow> Some (Some (GoErr err), w1)
              | (None, w1) \<Rightarrow>
                  (let er = the (rt_Events rt)
                   in Option.bind (Spawn_ensureEvents rt er ctx pid name (the def) vars w1)
                        (\<lambda>(r, w2). case r of
                           Inl err \<Rightarrow> Some (Some err, w2)
                         | Inr child \<Rightarrow> Spawn_scheduleChild rt er (ctx_tx ctx) child w2))))"

section \<open>Joining\<close>

text \<open>
  The scan stops at the first join event with \<^emph>\<open>another\<close> path and reports the join as done; the
  last spawn event of the name before that is the child.
\<close>

fun join_scan ::
    "(string \<Rightarrow> bool) \<Rightarrow> Path \<Rightarrow> ProcessID list \<Rightarrow> ('v wf_event \<times> go_error option) list \<Rightarrow> go_error + (ProcessID list \<times> bool)" where
  "join_scan p path children [] = Inr (children, False)"
| "join_scan p path children ((e, Some err) # itr) = Inl err"
| "join_scan p path children ((e, None) # itr) =
     (case e of
        EventSpawn _ _ _ child name \<Rightarrow> join_scan p path (if p name then children @ [child] else children) itr
      | EventJoin _ _ _ _ ePath \<Rightarrow> if ePath \<noteq> path then Inr (children, True) else join_scan p path children itr
      | _ \<Rightarrow> join_scan p path children itr)"

definition joinChild ::
    "('v, 'c, 'w) Runtime \<Rightarrow> string \<Rightarrow> 'c wctx \<Rightarrow> ProcessID \<Rightarrow> ('w, 'v wf_error option) op" where
  "joinChild rt name ctx0 parentID w =
     (let ctx = WithName ctx0 name
      in case LookupEventsRepository rt of
           Inl err \<Rightarrow> (Some err, w)
         | Inr er \<Rightarrow>
             (case er_FindByProcessID er (ctx_tx ctx) parentID w of
                (itr, w1) \<Rightarrow>
                  (case join_scan (\<lambda>n. n = name) (CurrentPath ctx) [] itr of
                     Inl err \<Rightarrow> (Some (GoErr err), w1)
                   | Inr (children, True) \<Rightarrow> (None, w1)
                   | Inr ([], False) \<Rightarrow> (Some (GoErr (ErrText ''missing spawn child'')), w1)
                   | Inr (c # cs, False) \<Rightarrow>
                       (let child = last (c # cs)
                        in case Complete_IsCompleted er (ctx_tx ctx) child w1 of
                             (Inl err, w2) \<Rightarrow> (Some (GoErr err), w2)
                           | (Inr False, w2) \<Rightarrow> (Some Suspend, w2)
                           | (Inr True, w2) \<Rightarrow>
                               (case record_event er (ctx_tx ctx)
                                       (\<lambda>eventID now. EventJoin eventID parentID now [child] (CurrentPath ctx)) w2 of
                                  (err, w3) \<Rightarrow> (map_option GoErr err, w3))))))"

fun join_all_done ::
    "('v, 'c, 'w) EventRepository \<Rightarrow> 'c \<Rightarrow> ProcessID list \<Rightarrow> ('w, 'v wf_error option) op" where
  "join_all_done er tx [] w = (None, w)"
| "join_all_done er tx (child # children) w =
     (case Complete_IsCompleted er tx child w of
        (Inl err, w1) \<Rightarrow> (Some (GoErr err), w1)
      | (Inr False, w1) \<Rightarrow> (Some Suspend, w1)
      | (Inr True, w1) \<Rightarrow> join_all_done er tx children w1)"

definition joinAll :: "('v, 'c, 'w) Runtime \<Rightarrow> 'c wctx \<Rightarrow> ProcessID \<Rightarrow> ('w, 'v wf_error option) op" where
  "joinAll rt ctx parentID w =
     (case LookupEventsRepository rt of
        Inl err \<Rightarrow> (Some err, w)
      | Inr er \<Rightarrow>
          (case er_FindByProcessID er (ctx_tx ctx) parentID w of
             (itr, w1) \<Rightarrow>
               (case join_scan (\<lambda>n. True) (CurrentPath ctx) [] itr of
                  Inl err \<Rightarrow> (Some (GoErr err), w1)
                | Inr (children, _) \<Rightarrow>
                    (case join_all_done er (ctx_tx ctx) children w1 of
                       (Some err, w2) \<Rightarrow> (Some err, w2)
                     | (None, w2) \<Rightarrow>
                         (case record_event er (ctx_tx ctx)
                                 (\<lambda>eventID now. EventJoin eventID parentID now children (CurrentPath ctx)) w2 of
                            (err, w3) \<Rightarrow> (map_option GoErr err, w3))))))"

definition Join_Execute ::
    "('v, 'c, 'w) Runtime \<Rightarrow> string \<Rightarrow> (string \<times> string) list \<Rightarrow> 'c wctx \<Rightarrow> ProcessID \<Rightarrow> ('w, 'v wf_error option) op" where
  "Join_Execute rt name collect ctx0 pid w =
     (let ctx = WithName ctx0 ''join''
      in case wf_Validate (Join name collect :: 'v wf_def) of
           Some err \<Rightarrow> (Some (GoErr err), w)
         | None \<Rightarrow> if name = [] then joinAll rt ctx pid w else joinChild rt name ctx pid w)"

section \<open>Executing definitions\<close>

definition SetVar_Execute :: "('v, 'c, 'w) Runtime \<Rightarrow> string \<Rightarrow> 'v \<Rightarrow> 'c wctx \<Rightarrow> ProcessID \<Rightarrow> ('w, 'v wf_error option) op" where
  "SetVar_Execute rt name val ctx pid w =
     (case LookupEventsRepository rt of
        Inl err \<Rightarrow> (Some err, w)
      | Inr er \<Rightarrow> (case Vars_setOnce er (WithName ctx ''set-var'') pid name val w of (err, w1) \<Rightarrow> (map_option GoErr err, w1)))"

definition DeleteVar_Execute :: "('v, 'c, 'w) Runtime \<Rightarrow> string \<Rightarrow> 'c wctx \<Rightarrow> ProcessID \<Rightarrow> ('w, 'v wf_error option) op" where
  "DeleteVar_Execute rt name ctx pid w =
     (case LookupEventsRepository rt of
        Inl err \<Rightarrow> (Some err, w)
      | Inr er \<Rightarrow> (case Vars_deleteOnce er (WithName ctx ''delete-var'') pid name w of (err, w1) \<Rightarrow> (map_option GoErr err, w1)))"

text \<open>\<^verbatim>\<open>ForEach\<close> looks its collection up and does nothing with it.\<close>

definition ForEach_Execute :: "('v, 'c, 'w) Runtime \<Rightarrow> string \<Rightarrow> 'c wctx \<Rightarrow> ProcessID \<Rightarrow> ('w, 'v wf_error option) op" where
  "ForEach_Execute rt coll ctx pid w =
     (case LookupEventsRepository rt of
        Inl err \<Rightarrow> (Some err, w)
      | Inr er \<Rightarrow> (case Vars_Lookup er ctx pid coll w of (Inl err, w1) \<Rightarrow> (Some (GoErr err), w1) | (Inr _, w1) \<Rightarrow> (None, w1)))"

definition ConditionDef_Execute :: "('v, 'c, 'w) Runtime \<Rightarrow> string \<Rightarrow> string list \<Rightarrow> 'c wctx \<Rightarrow> ProcessID \<Rightarrow> ('w, 'v wf_error option) op" where
  "ConditionDef_Execute rt ident Input ctx pid w =
     (case condition_cachedExecute rt ident Input (WithName ctx ''condition'') pid w of
        (Inl err, w1) \<Rightarrow> (Some err, w1) | (Inr _, w1) \<Rightarrow> (None, w1))"

fun itoa :: "nat \<Rightarrow> string" where
  "itoa n = (if n < 10 then [char_of (48 + n)] else itoa (n div 10) @ [char_of (48 + n mod 10)])"

declare itoa.simps [simp del]

definition seq_name :: "nat \<Rightarrow> string" where
  "seq_name i = ''['' @ itoa i @ '']''"

datatype 'v exec_call = Exec "'v wf_def" | ExecSeq nat "'v wf_def list"

text \<open>The step of a participant, around a definition that its function may return.\<close>

definition participant_begin ::
    "('v, 'c, 'w) Runtime \<Rightarrow> string \<Rightarrow> string list \<Rightarrow> string list \<Rightarrow> 'c wctx \<Rightarrow> ProcessID \<Rightarrow>
     ('w, 'v wf_error + ('c wctx \<times> 'v ie_result)) op" where
  "participant_begin rt ident Input Output ctx0 pid w =
     (let ctx = WithName (WithName ctx0 ''participant'') ident
      in case LookupEventsRepository rt of
           Inl err \<Rightarrow> (Inl err, w)
         | Inr er \<Rightarrow>
             (case er_BeginTx er (ctx_tx ctx) w of
                ((_, Some err), w1) \<Rightarrow> (Inl (GoErr err), w1)
              | ((tx, None), w1) \<Rightarrow>
                  (case ie_step er (participant_executor rt er pid ident Input Output) (ctx\<lparr>ctx_tx := tx\<rparr>) pid w1 of
                     (r, w2) \<Rightarrow> (Inr (ctx\<lparr>ctx_tx := tx\<rparr>, r), w2))))"

definition participant_end ::
    "('v, 'c, 'w) Runtime \<Rightarrow> 'c wctx \<Rightarrow> 'v wf_error + 'v list \<Rightarrow> ('w, 'v wf_error option) op" where
  "participant_end rt ctx r w =
     (case ie_finish (the (rt_Events rt)) (ctx_tx ctx) r w of
        (Inl err, w1) \<Rightarrow> (Some err, w1) | (Inr _, w1) \<Rightarrow> (None, w1))"

partial_function (option) wf_exec ::
    "('v, 'c, 'w) Runtime \<Rightarrow> 'v exec_call \<Rightarrow> 'c wctx \<Rightarrow> ProcessID \<Rightarrow> 'w \<Rightarrow> ('v wf_error option \<times> 'w) option" where
  "wf_exec rt call ctx pid w =
     (case call of
        ExecSeq i ds \<Rightarrow>
          (case ds of
             [] \<Rightarrow> Some (None, w)
           | d # rest \<Rightarrow>
               Option.bind (wf_exec rt (Exec d) (WithName ctx (seq_name i)) pid w)
                 (\<lambda>(err, w1). if err \<noteq> None then Some (err, w1) else wf_exec rt (ExecSeq (Suc i) rest) ctx pid w1))
      | Exec d \<Rightarrow>
          (case d of
             Sequence ds \<Rightarrow> wf_exec rt (ExecSeq 0 ds) (WithName ctx ''sequence'') pid w
           | IfDef Cond Then Else \<Rightarrow>
               (case Cond of
                  None \<Rightarrow> Some (Some (fatal ''missing condition''), w)
                | Some c \<Rightarrow>
                    (case Evaluate rt c (WithName ctx ''if'') pid w of
                       (Inl err, w1) \<Rightarrow> Some (Some err, w1)
                     | (Inr ok, w1) \<Rightarrow>
                         (case (if ok then Then else Else) of
                            None \<Rightarrow> Some (None, w1)
                          | Some branch \<Rightarrow>
                              wf_exec rt (Exec branch) (WithName (WithName ctx ''if'') (if ok then ''then'' else ''else'')) pid w1)))
           | Sleep While Until \<Rightarrow> Some (Sleep_Execute rt While Until ctx pid w)
           | ExecuteParticipant ident Input Output \<Rightarrow>
               (case participant_begin rt ident Input Output ctx pid w of
                  (Inl err, w1) \<Rightarrow> Some (Some err, w1)
                | (Inr (ctx', r), w1) \<Rightarrow>
                    (case r of
                       IEDone r \<Rightarrow> Some (participant_end rt ctx' r w1)
                     | IERun def \<Rightarrow>
                         Option.bind (wf_exec rt (Exec def) ctx' pid w1)
                           (\<lambda>(err, w2). Some (participant_end rt ctx' (case err of None \<Rightarrow> Inr [] | Some e \<Rightarrow> Inl e) w2))))
           | ConditionDef ident Input \<Rightarrow> Some (ConditionDef_Execute rt ident Input ctx pid w)
           | SetVar name val global \<Rightarrow> Some (SetVar_Execute rt name val ctx pid w)
           | DeleteVar name \<Rightarrow> Some (DeleteVar_Execute rt name ctx pid w)
           | Spawn name def vars \<Rightarrow> Spawn_Execute rt name def vars ctx pid w
           | Join name collect \<Rightarrow> Some (Join_Execute rt name collect ctx pid w)
           | ForEach coll key value \<Rightarrow> Some (ForEach_Execute rt coll ctx pid w)))"

section \<open>The runtime's Execute\<close>

fun use_definitions :: "('v wf_event \<times> go_error option) list \<Rightarrow> go_error + ('v wf_event \<times> 'v wf_def) list" where
  "use_definitions [] = Inr []"
| "use_definitions ((e, Some err) # itr) = Inl err"
| "use_definitions ((e, None) # itr) =
     (case use_definitions itr of
        Inl err \<Rightarrow> Inl err
      | Inr ds \<Rightarrow> Inr (case e of EventUseDefinition _ _ _ d \<Rightarrow> (e, d) # ds | _ \<Rightarrow> ds))"

text \<open>The definition that was bound last.\<close>

definition current_definition ::
    "'v event_sort \<Rightarrow> ('v wf_event \<times> 'v wf_def) list \<Rightarrow> ('v wf_event \<times> 'v wf_def) option" where
  "current_definition srt ds =
     (if ds = [] then None
      else (let e = last (sk_SortBy srt (map fst ds) event_Before) in map_option (Pair e) (map_of ds e)))"

text \<open>The signals, which start the processing again when they succeed.\<close>

definition signal_Execute ::
    "('v, 'c, 'w) EventRepository \<Rightarrow> 'c \<Rightarrow> ProcessID \<Rightarrow> 'v wf_error \<Rightarrow> 'w \<Rightarrow> ('v wf_error option \<times> 'w) option" where
  "signal_Execute er tx pid err w =
     (case err of
        Suspend \<Rightarrow> Some (Some Suspend, w)
      | Complete p \<Rightarrow> (case Complete_Execute er tx p w of (e, w1) \<Rightarrow> Some (map_option GoErr e, w1))
      | Replace def \<Rightarrow> (case Replace_Execute er tx pid def w of (e, w1) \<Rightarrow> Some (map_option GoErr e, w1))
      | _ \<Rightarrow> None)"

text \<open>The path starts with the printed ID of the event that bound the definition.\<close>

partial_function (option) rt_processing ::
    "('v, 'c, 'w) Runtime \<Rightarrow> ('v, 'c, 'w) EventRepository \<Rightarrow> 'c wctx \<Rightarrow> ProcessID \<Rightarrow> 'w \<Rightarrow> ('v wf_error option \<times> 'w) option" where
  "rt_processing rt er ctx pid w =
     (case er_FindByProcessID er (ctx_tx ctx) pid w of
        (itr, w1) \<Rightarrow>
          (case use_definitions itr of
             Inl err \<Rightarrow> Some (Some (GoErr err), w1)
           | Inr ds \<Rightarrow>
               (case current_definition (sort_Events er) ds of
                  None \<Rightarrow> Some (Some (GoErr (ErrorLite_F ErrNoProcessDefinition ''process-id'')), w1)
                | Some (e, def) \<Rightarrow>
                    Option.bind (wf_exec rt (Exec def) (WithName ctx (itoa (GetEventID e))) pid w1)
                      (\<lambda>(r, w2). case r of
                         None \<Rightarrow> (case Complete_Execute er (ctx_tx ctx) pid w2 of (err, w3) \<Rightarrow> Some (map_option GoErr err, w3))
                       | Some err \<Rightarrow>
                           (case signal_Execute er (ctx_tx ctx) pid err w2 of
                              None \<Rightarrow> Some (Some err, w2)
                            | Some (err', w3) \<Rightarrow>
                                if err' \<noteq> None then Some (err', w3) else rt_processing rt er ctx pid w3)))))"

declare retry_loop.simps [code] wf_exec.simps [code] rt_processing.simps [code]

definition rt_execute ::
    "('v, 'c, 'w) Runtime \<Rightarrow> 'c wctx \<Rightarrow> ProcessID \<Rightarrow> 'w \<Rightarrow> ('v wf_error option \<times> 'w) option" where
  "rt_execute rt ctx pid w =
     (case rt_Events rt of
        None \<Rightarrow> Some (Some (fatal ''the workflow.Runtime has no EventsRepository configured''), w)
      | Some er \<Rightarrow>
          if pid = 0 then Some (Some (GoErr (ErrorLite_F ErrZeroProcessID ''workflow.Runtime#Execute'')), w)
          else case rt_tryLock rt (ctx_tx ctx) pid w of
            (Inl err, w1) \<Rightarrow> Some (Some (GoErr err), w1)
          | (Inr None, w1) \<Rightarrow> Some (Some (GoErr (ErrorLite_F ErrAlreadyRunningProcess ''process'')), w1)
          | (Inr (Some (tx, unlock)), w1) \<Rightarrow>
              Option.bind (rt_processing rt er (ctx\<lparr>ctx_tx := tx\<rparr>) pid w1)
                (\<lambda>(err, w2). case unlock w2 of (e, w3) \<Rightarrow> Some (wf_Merge [err, map_option GoErr e], w3)))"

definition rt_Execute ::
    "('v, 'c, 'w) Runtime \<Rightarrow> 'c wctx \<Rightarrow> ProcessID \<Rightarrow> 'w \<Rightarrow> ('v wf_error option \<times> 'w) option" where
  "rt_Execute rt ctx pid = withRetry rt (ctx_tx ctx) (rt_execute rt ctx pid)"

definition rt_Spawn ::
    "('v, 'c, 'w) Runtime \<Rightarrow> 'c wctx \<Rightarrow> ProcessID \<Rightarrow> 'v wf_def \<Rightarrow> 'w \<Rightarrow> ('v wf_error option \<times> 'w) option" where
  "rt_Spawn rt ctx pid def w =
     Option.bind (rt_Bind rt (ctx_tx ctx) pid def w)
       (\<lambda>(err, w1). if err \<noteq> None then Some (err, w1) else rt_Execute rt ctx pid w1)"

section \<open>Serving the queue\<close>

text \<open>
  One message of the execution queue. Durations are in seconds. Waiting for the start time either lets
  the message through or is cut short, by the context or by a change of the schedule; which of the two
  is the parameter \<open>early\<close>.
\<close>

record ('c, 'w) message =
  msg_ctx :: "'c wctx"
  msg_data :: ProcessExecution
  msg_ACK :: "('w, go_error option) op"
  msg_NACK :: "('w, go_error option) op"

definition isBindGracePeriodExpired :: "('v, 'c, 'w) Runtime \<Rightarrow> ProcessExecution \<Rightarrow> ('w, bool) op" where
  "isBindGracePeriodExpired rt sch w =
     (case CreatedAt sch of
        None \<Rightarrow> (False, w)
      | Some t \<Rightarrow>
          (case rt_Now rt w of
             (now, w1) \<Rightarrow> ((if BindGracePeriod rt \<le> 0 then 60 else BindGracePeriod rt) < int now - int t, w1)))"

definition backoffStartTime :: "('v, 'c, 'w) Runtime \<Rightarrow> ('w, nat) op" where
  "backoffStartTime rt w =
     (case rt_Now rt w of (now, w1) \<Rightarrow> (now + nat (if WaitTime rt \<le> 0 then 30 else WaitTime rt), w1))"

definition guardAgainstEarlyExecution :: "('v, 'c, 'w) Runtime \<Rightarrow> ProcessExecution \<Rightarrow> ('w, bool) op \<Rightarrow> ('w, bool) op" where
  "guardAgainstEarlyExecution rt sch early w =
     (case StartTime sch of
        None \<Rightarrow> (True, w)
      | Some t \<Rightarrow> (case rt_Now rt w of (now, w1) \<Rightarrow> if t < now then (True, w1) else early w1))"

fun wf_has_suspend :: "'v wf_error \<Rightarrow> bool" where
  "wf_has_suspend Suspend = True"
| "wf_has_suspend (WfMulti es) = list_ex wf_has_suspend es"
| "wf_has_suspend _ = False"

definition republish ::
    "('v, 'c, 'w) Runtime \<Rightarrow> 'c \<Rightarrow> ProcessExecution \<Rightarrow> nat \<Rightarrow> ('w, go_error option) op" where
  "republish rt tx sch failures w =
     (case backoffStartTime rt w of
        (start, w1) \<Rightarrow>
          the (QueuePublish rt) tx
            \<lparr>pe_ProcessID = pe_ProcessID sch, StartTime = Some start, CreatedAt = CreatedAt sch, FailureCount = failures\<rparr> w1)"

definition handle_result ::
    "('v, 'c, 'w) Runtime \<Rightarrow> 'c \<Rightarrow> ProcessExecution \<Rightarrow> 'v wf_error option \<Rightarrow> ('w, go_error option) op" where
  "handle_result rt tx sch r w =
     (case r of
        None \<Rightarrow> (None, w)
      | Some err \<Rightarrow>
          if wf_Is err ErrAlreadyRunningProcess then (None, w)
          else if wf_Is err ErrNoProcessDefinition then
            (case isBindGracePeriodExpired rt sch w of
               (expired, w1) \<Rightarrow> if expired then (None, w1) else republish rt tx sch (FailureCount sch) w1)
          else if wf_has_suspend err then republish rt tx sch (FailureCount sch) w
          else republish rt tx sch (FailureCount sch + 1) w)"

definition runSignalHandler ::
    "('v, 'c, 'w) Runtime \<Rightarrow> ('c, 'w) message \<Rightarrow> ('w, bool) op \<Rightarrow> 'w \<Rightarrow> (go_error option \<times> 'w) option" where
  "runSignalHandler rt msg early w =
     (case guardAgainstEarlyExecution rt (msg_data msg) early w of
        (ok, w1) \<Rightarrow>
          if \<not> ok then Some (msg_NACK msg w1)
          else Option.bind (rt_Execute rt (msg_ctx msg) (pe_ProcessID (msg_data msg)) w1)
            (\<lambda>(r, w2). case handle_result rt (ctx_tx (msg_ctx msg)) (msg_data msg) r w2 of
               (rErr, w3) \<Rightarrow> Some (FinishTx rErr (msg_ACK msg) (msg_NACK msg) w3)))"

text \<open>A positive number of subscribers is replaced by the default, four for each processor.\<close>

definition getNumQueueSubscriber :: "nat \<Rightarrow> int \<Rightarrow> int" where
  "getNumQueueSubscriber numCPU n = (if 0 \<le> n then int numCPU * 4 else n)"

end
