(* ===== verification/WorkflowReplay.thy ===== *)
theory WorkflowReplay imports Workflow "HOL-Library.Sublist" begin

text \<open>
  Replaying a workflow: what the engine needs of its event repository, and that a definition that ran to
  its end does nothing when it is executed again.

  The locale \<^verbatim>\<open>event_store\<close> is the contract of an event repository whose operations do not
  fail: a stack of nested open transactions, each seeing a list of events; an event that is recorded
  with a fresh ID and the current time comes last; what the rest of the world is, \<open>obs\<close>, the
  repository leaves alone. \<^verbatim>\<open>all_done\<close> says that every step on the way through a definition is
  in a history.
\<close>

section \<open>Steps in a history\<close>

fun step_path :: "'v wf_event \<Rightarrow> Path option" where
  "step_path (EventParticipant _ _ _ _ path _ _ _) = Some path"
| "step_path (EventCondition _ _ _ _ path _ _) = Some path"
| "step_path _ = None"

text \<open>What a run of a definition records: no definition and no completion.\<close>

fun plain_event :: "'v wf_event \<Rightarrow> bool" where
  "plain_event (EventUseDefinition _ _ _ _) = False"
| "plain_event (EventCompleted _ _ _) = False"
| "plain_event _ = True"

lemma step_path_plain: "step_path e = Some q \<Longrightarrow> plain_event e"
  by (cases e) auto

text \<open>No step below a path is in the history; all steps of a history are at or below a path, or at it.\<close>

definition untouched :: "Path \<Rightarrow> 'v wf_event list \<Rightarrow> bool" where
  "untouched p es \<longleftrightarrow> (\<forall>e \<in> set es. \<forall>q. step_path e = Some q \<longrightarrow> \<not> strict_prefix p q)"

definition below :: "Path \<Rightarrow> 'v wf_event list \<Rightarrow> bool" where
  "below p es \<longleftrightarrow> (\<forall>e \<in> set es. plain_event e \<and> (\<forall>q. step_path e = Some q \<longrightarrow> prefix p q))"

definition placed :: "Path \<Rightarrow> 'v wf_event list \<Rightarrow> bool" where
  "placed p es \<longleftrightarrow> (\<forall>e \<in> set es. plain_event e \<and> (\<forall>q. step_path e = Some q \<longrightarrow> q = p))"

lemma untouched_simps [simp]:
  "untouched p []" "untouched p (es @ fs) \<longleftrightarrow> untouched p es \<and> untouched p fs"
  "below p []" "below p (es @ fs) \<longleftrightarrow> below p es \<and> below p fs"
  "placed p []" "placed p (es @ fs) \<longleftrightarrow> placed p es \<and> placed p fs"
  by (auto simp: untouched_def below_def placed_def)

lemma untouched_longer: "untouched p es \<Longrightarrow> untouched (p @ q) es"
  unfolding untouched_def by (metis append_prefixD prefix_order.dual_order.strict_trans2 prefix_order.less_le prefixI)

lemma below_shorter: "below (p @ q) es \<Longrightarrow> below p es"
  by (auto simp: below_def dest: append_prefixD)

lemma strict_prefix_append [simp]: "strict_prefix p (p @ x) \<longleftrightarrow> x \<noteq> []"
  by (auto simp: strict_prefix_def)

lemma placed_below: "placed (p @ q) es \<Longrightarrow> below p es"
  by (auto simp: placed_def below_def)

lemma placed_other: "placed (p @ x) es \<Longrightarrow> length x \<le> length y \<Longrightarrow> untouched (p @ y) es"
  by (fastforce simp: placed_def untouched_def dest: prefix_length_less)

lemma below_other: "below (p @ [a] @ q) es \<Longrightarrow> a \<noteq> b \<Longrightarrow> untouched (p @ [b] @ r) es"
  unfolding below_def untouched_def
  by (metis (no_types) append_Cons append_Nil append_assoc same_prefix_prefix Cons_prefix_Cons prefix_def prefix_order.less_le)

abbreviation no_errors :: "'a list \<Rightarrow> ('a \<times> go_error option) list" where
  "no_errors es \<equiv> map (\<lambda>e. (e, None)) es"

lemma collectE_no_errors [simp]: "collectE (no_errors es) = Inr es"
  by (induction es) auto

lemma ie_scan_None:
  "ie_scan cast i path acc (no_errors es) = Inr None \<longleftrightarrow>
     (\<forall>e \<in> set es. \<forall>ee. cast e = Some ee \<longrightarrow> \<not> (ee_ID ee = i \<and> ee_Path ee = path))"
  by (induction es arbitrary: acc) (auto split: option.split)

lemma ie_scan_append:
  "ie_scan cast i path acc (no_errors es) = Inr (Some r) \<Longrightarrow> ie_scan cast i path acc (no_errors (es @ fs)) = Inr (Some r)"
  by (induction es arbitrary: acc) (auto split: option.splits if_splits)

lemma ie_scan_here:
  "ie_scan cast i path acc (no_errors es) = Inr None \<Longrightarrow> cast e = Some ee \<Longrightarrow> ee_ID ee = i \<Longrightarrow> ee_Path ee = path \<Longrightarrow>
     ie_scan cast i path acc (no_errors (es @ e # fs)) = Inr (Some (acc @ es @ [e], ee))"
  by (induction es arbitrary: acc) (auto split: option.splits if_splits)

definition step_done ::
    "('v, 'c, 'w) idempotentExecutor \<Rightarrow> 'c wctx \<Rightarrow> 'v wf_event list \<Rightarrow> 'v list \<Rightarrow> bool" where
  "step_done ie ctx h res \<longleftrightarrow>
     (\<exists>mEvents ee. ie_scan (ie_CastEvent ie) (ie_ID ie) (CurrentPath ctx) [] (no_errors h) = Inr (Some (mEvents, ee)) \<and>
        ie_valid ie ctx mEvents ee \<and> ee_Result ee = res)"

lemma step_done_append: "step_done ie ctx h res \<Longrightarrow> step_done ie ctx (h @ fs) res"
  unfolding step_done_def by (blast intro: ie_scan_append)

lemma lookupVariable_tx [simp]: "lookupVariable (ctx\<lparr>ctx_tx := tx\<rparr>) es = lookupVariable ctx es"
  by (simp add: lookupVariable_def fun_eq_iff)

lemma step_done_tx [simp]: "step_done ie (ctx\<lparr>ctx_tx := tx\<rparr>) h res = step_done ie ctx h res"
  by (simp add: step_done_def ie_valid_def)

lemma WithName_simps [simp]:
  "CurrentPath (WithName ctx n) = CurrentPath ctx @ [n]" "ctx_tx (WithName ctx n) = ctx_tx ctx"
  "VarScope (WithName ctx n) = VarScope ctx"
  by (simp_all add: WithName_def)

section \<open>The names of a sequence's elements\<close>

lemma digit_inj: "m < 10 \<Longrightarrow> n < 10 \<Longrightarrow> (char_of (48 + m) :: char) = char_of (48 + n) \<longleftrightarrow> m = (n :: nat)"
proof -
  assume "m < 10" "n < 10"
  then have "(of_char (char_of (48 + m) :: char) :: nat) = 48 + m" "(of_char (char_of (48 + n) :: char) :: nat) = 48 + n"
    by (simp_all add: of_char_of)
  then show ?thesis by (metis add_left_cancel)
qed

lemma itoa_not_empty: "itoa n \<noteq> []"
  by (subst itoa.simps) simp

lemma itoa_inj: "itoa m = itoa n \<Longrightarrow> m = n"
proof (induction m arbitrary: n rule: less_induct)
  case (less m)
  show ?case
  proof (cases "m < 10 \<or> n < 10")
    case True
    then have "m < 10 \<and> n < 10"
      using less.prems
      by (auto simp: itoa.simps[of m] itoa.simps[of n] itoa_not_empty itoa_not_empty[symmetric] split: if_splits)
    then show ?thesis using less.prems by (simp add: itoa.simps[of m] itoa.simps[of n] digit_inj)
  next
    case False
    then have "itoa (m div 10) = itoa (n div 10)" "m mod 10 = n mod 10"
      using less.prems digit_inj[of "m mod 10" "n mod 10"] by (simp_all add: itoa.simps[of m] itoa.simps[of n])
    moreover from this less.IH[of "m div 10" "n div 10"] False have "m div 10 = n div 10" by simp
    ultimately show ?thesis by (metis div_mult_mod_eq)
  qed
qed

lemma seq_name_inj [simp]: "seq_name m = seq_name n \<longleftrightarrow> m = n"
  by (auto simp: seq_name_def dest: itoa_inj)

section \<open>Definitions that can be replayed\<close>

text \<open>Sequences, branches on recorded conditions, participants and conditions; \<open>ctx\<close> is the step's own.\<close>

definition participant_ctx :: "'c wctx \<Rightarrow> string \<Rightarrow> 'c wctx" where
  "participant_ctx ctx ident = WithName (WithName ctx ''participant'') ident"

fun replayable :: "'v wf_def \<Rightarrow> bool" where
  "replayable (Sequence ds) = (\<forall>d \<in> set ds. replayable d)"
| "replayable (IfDef (Some (ExecuteCondition i inp)) t e) =
     ((case t of None \<Rightarrow> True | Some d \<Rightarrow> replayable d) \<and> (case e of None \<Rightarrow> True | Some d \<Rightarrow> replayable d))"
| "replayable (ExecuteParticipant i inp out) = True"
| "replayable (ConditionDef i inp) = True"
| "replayable _ = False"

definition cond_done ::
    "('v, 'c, 'w) Runtime \<Rightarrow> ('v, 'c, 'w) EventRepository \<Rightarrow> ProcessID \<Rightarrow> string \<Rightarrow> string list \<Rightarrow> 'c wctx \<Rightarrow> 'v wf_event list \<Rightarrow> bool \<Rightarrow> bool" where
  "cond_done rt er pid i inp ctx h b =
     step_done (condition_executor rt er pid i inp) (WithName ctx i) h [any_bool rt b]"

lemma size_nth [termination_simp]: "i < length ds \<Longrightarrow> size (ds ! i) < Suc (size_list size ds)"
  using size_list_estimation'[OF nth_mem, of i ds "size (ds ! i)" size] by simp

fun all_done ::
    "('v, 'c, 'w) Runtime \<Rightarrow> ('v, 'c, 'w) EventRepository \<Rightarrow> ProcessID \<Rightarrow> 'v wf_def \<Rightarrow> 'c wctx \<Rightarrow> 'v wf_event list \<Rightarrow> bool" where
  "all_done rt er pid (Sequence ds) ctx h =
     (\<forall>i < length ds. all_done rt er pid (ds ! i) (WithName (WithName ctx ''sequence'') (seq_name i)) h)"
| "all_done rt er pid (IfDef (Some (ExecuteCondition i inp)) t e) ctx h =
     ((cond_done rt er pid i inp (WithName ctx ''if'') h True \<and>
        (case t of None \<Rightarrow> True | Some d \<Rightarrow> all_done rt er pid d (WithName (WithName ctx ''if'') ''then'') h)) \<or>
      (cond_done rt er pid i inp (WithName ctx ''if'') h False \<and>
        (case e of None \<Rightarrow> True | Some d \<Rightarrow> all_done rt er pid d (WithName (WithName ctx ''if'') ''else'') h)))"
| "all_done rt er pid (ExecuteParticipant i inp out) ctx h =
     step_done (participant_executor rt er pid i inp out) (participant_ctx ctx i) h []"
| "all_done rt er pid (ConditionDef i inp) ctx h = (\<exists>b. cond_done rt er pid i inp (WithName ctx ''condition'') h b)"
| "all_done rt er pid _ ctx h = False"

lemma WithName_tx: "WithName (ctx\<lparr>ctx_tx := tx\<rparr>) n = (WithName ctx n)\<lparr>ctx_tx := tx\<rparr>"
  by (simp add: WithName_def)

lemma cond_done_tx: "cond_done rt er pid i inp (ctx\<lparr>ctx_tx := tx\<rparr>) h = cond_done rt er pid i inp ctx h"
  by (simp add: cond_done_def WithName_tx fun_eq_iff)

lemma all_done_tx: "all_done rt er pid d (ctx\<lparr>ctx_tx := tx\<rparr>) h = all_done rt er pid d ctx h"
  by (induction rt er pid d ctx h rule: all_done.induct)
     (simp_all add: WithName_tx cond_done_tx participant_ctx_def split: option.split)

lemma cond_done_append: "cond_done rt er pid i inp ctx h b \<Longrightarrow> cond_done rt er pid i inp ctx (h @ fs) b"
  unfolding cond_done_def by (rule step_done_append)

lemma all_done_append: "all_done rt er pid d ctx h \<Longrightarrow> all_done rt er pid d ctx (h @ fs)"
  by (induction rt er pid d ctx h rule: all_done.induct)
     (auto intro: step_done_append cond_done_append split: option.splits)

section \<open>The contract of the event repository\<close>

locale event_store =
  fixes er :: "('v, 'c, 'w) EventRepository"
    and stack :: "'w \<Rightarrow> 'c list \<Rightarrow> bool"
    and hist :: "'w \<Rightarrow> 'c \<Rightarrow> 'v wf_event list"
    and obs :: "'w \<Rightarrow> 's"
  assumes begin_tx: "stack w (c # cs) \<Longrightarrow> \<exists>c' w'. er_BeginTx er c w = ((c', None), w') \<and> stack w' (c' # c # cs) \<and>
      hist w' c' = hist w c \<and> obs w' = obs w"
    and commit_tx: "stack w (c' # c # cs) \<Longrightarrow> \<exists>w'. er_CommitTx er c' w = (None, w') \<and> stack w' (c # cs) \<and>
      hist w' c = hist w c' \<and> obs w' = obs w"
    and find: "stack w (c # cs) \<Longrightarrow>
      er_FindByProcessID er c pid w = (no_errors (filter (\<lambda>e. GetProcessID e = pid) (hist w c)), w)"
    and recorded: "stack w (c # cs) \<Longrightarrow> \<exists>i t w1 w2. MakeEventID er w = (Inr i, w1) \<and> clock_Now er w1 = (t, w2) \<and>
      (\<forall>e. GetEventID e = i \<longrightarrow> GetTimestamp e = t \<longrightarrow> GetProcessID e \<noteq> 0 \<longrightarrow>
         (\<exists>w3. er_Create er c e w2 = (None, w3) \<and> stack w3 (c # cs) \<and> hist w3 c = hist w c @ [e] \<and> obs w3 = obs w))"
begin

abbreviation phist :: "ProcessID \<Rightarrow> 'w \<Rightarrow> 'c \<Rightarrow> 'v wf_event list" where
  "phist pid w c \<equiv> filter (\<lambda>e. GetProcessID e = pid) (hist w c)"

lemma record_event_ok:
  assumes "stack w (c # cs)" "\<And>i t. GetEventID (mk i t) = i \<and> GetTimestamp (mk i t) = t \<and> GetProcessID (mk i t) \<noteq> 0"
  obtains i t w' where "record_event er c mk w = (None, w')" "stack w' (c # cs)" "hist w' c = hist w c @ [mk i t]" "obs w' = obs w"
proof -
  obtain i t w1 w2 where r: "MakeEventID er w = (Inr i, w1)" "clock_Now er w1 = (t, w2)"
    "\<forall>e. GetEventID e = i \<longrightarrow> GetTimestamp e = t \<longrightarrow> GetProcessID e \<noteq> 0 \<longrightarrow>
         (\<exists>w3. er_Create er c e w2 = (None, w3) \<and> stack w3 (c # cs) \<and> hist w3 c = hist w c @ [e] \<and> obs w3 = obs w)"
    using recorded[OF assms(1)] by blast
  then obtain w3 where "er_Create er c (mk i t) w2 = (None, w3)" "stack w3 (c # cs)" "hist w3 c = hist w c @ [mk i t]" "obs w3 = obs w"
    using assms(2) by blast
  with r show ?thesis by (intro that[of w3 i t]) (simp_all add: record_event_def)
qed

lemma history_ok: "stack w (ctx_tx ctx # cs) \<Longrightarrow> Vars_history er ctx pid w = (Inr (phist pid w (ctx_tx ctx)), w)"
  by (simp add: Vars_history_def find)

lemma Vars_Lookup_ok:
  "stack w (ctx_tx ctx # cs) \<Longrightarrow>
     Vars_Lookup er ctx pid key w = (Inr (snd (lookupVariable ctx (phist pid w (ctx_tx ctx)) key)), w)"
  by (simp add: Vars_Lookup_def history_ok)

text \<open>Setting a variable adds no step.\<close>

lemma Vars_Set_ok:
  assumes "stack w (ctx_tx ctx # cs)" "pid \<noteq> 0"
  obtains w' es where "Vars_Set er ctx pid key v w = (None, w')" "stack w' (ctx_tx ctx # cs)"
    "hist w' (ctx_tx ctx) = hist w (ctx_tx ctx) @ es" "placed p es" "obs w' = obs w"
proof -
  let ?h = "phist pid w (ctx_tx ctx)"
  obtain scope cur where l: "lookupVariable ctx ?h key = (scope, cur)" by force
  show ?thesis
  proof (cases "cur = Some v")
    case True
    with assms l show ?thesis
      by (intro that[of w "[]"]) (simp_all add: Vars_Set_def history_ok Vars_set_def)
  next
    case False
    let ?mk = "\<lambda>i t. EventSetVar i pid t (CurrentPath ctx) key v (if cur = None then VarScope ctx else scope)"
    obtain i t w' where "record_event er (ctx_tx ctx) ?mk w = (None, w')" "stack w' (ctx_tx ctx # cs)"
      "hist w' (ctx_tx ctx) = hist w (ctx_tx ctx) @ [?mk i t]" "obs w' = obs w"
      by (rule record_event_ok[OF assms(1), of ?mk]) (use assms(2) in simp_all)
    with assms l False show ?thesis
      by (intro that[of w' "[?mk i t]"]) (simp_all add: Vars_Set_def history_ok Vars_set_def placed_def)
  qed
qed

lemma ie_outputs_ok:
  assumes "stack w (ctx_tx ctx # cs)" "pid \<noteq> 0" "length keys \<le> length vs"
  obtains w' es where "ie_outputs er ctx pid keys vs w = (None, w')" "stack w' (ctx_tx ctx # cs)"
    "hist w' (ctx_tx ctx) = hist w (ctx_tx ctx) @ es" "placed p es" "obs w' = obs w"
  using assms(1,3)
proof (induction keys arbitrary: vs w thesis)
  case Nil
  then show ?case by (metis append_Nil2 ie_outputs.simps(1) untouched_simps(5))
next
  case (Cons key keys)
  obtain v vs' where vs: "vs = v # vs'" "length keys \<le> length vs'" using Cons.prems(3) by (cases vs) auto
  obtain w1 es where w1: "Vars_Set er ctx pid key v w = (None, w1)" "stack w1 (ctx_tx ctx # cs)"
    "hist w1 (ctx_tx ctx) = hist w (ctx_tx ctx) @ es" "placed p es" "obs w1 = obs w"
    using Vars_Set_ok[OF Cons.prems(2) assms(2)] by blast
  obtain w2 fs where "ie_outputs er ctx pid keys vs' w1 = (None, w2)" "stack w2 (ctx_tx ctx # cs)"
    "hist w2 (ctx_tx ctx) = hist w1 (ctx_tx ctx) @ fs" "placed p fs" "obs w2 = obs w1"
    using Cons.IH[OF _ w1(2) vs(2)] by blast
  with w1 vs show ?case by (intro Cons.prems(1)[of w2 "es @ fs"]) simp_all
qed

lemma ie_inputs_ok:
  assumes "stack w (ctx_tx ctx # cs)" "ie_inputs er ctx pid keys w = (Inr vs, w')"
  shows "w' = w \<and> length keys = length vs \<and>
    list_all2 (\<lambda>key v. snd (lookupVariable ctx (phist pid w (ctx_tx ctx)) key) = Some v) keys vs"
  using assms(2)
proof (induction keys arbitrary: vs)
  case (Cons key keys)
  then show ?case
    by (auto simp: Vars_Lookup_ok[OF assms(1)] split: option.splits sum.splits prod.splits)
qed simp

lemma ie_inputs_same: "stack w (ctx_tx ctx # cs) \<Longrightarrow> snd (ie_inputs er ctx pid keys w) = w"
  by (induction keys) (auto simp: Vars_Lookup_ok split: option.splits sum.splits prod.splits)

text \<open>A step that is in the history does nothing.\<close>

lemma ie_step_done:
  assumes "stack w (ctx_tx ctx # cs)" "step_done ie ctx (phist pid w (ctx_tx ctx)) res"
  shows "ie_step er ie ctx pid w = (IEDone (Inr res), w)"
  using assms by (auto simp: ie_step_def find step_done_def Let_def)

end

section \<open>The first run of a step\<close>

context event_store
begin

text \<open>What a step needs of its function: it leaves the event repository alone and returns no definition.\<close>

definition quiet :: "('w, 'r) op \<Rightarrow> bool" where
  "quiet f \<longleftrightarrow> (\<forall>w c cs. stack w (c # cs) \<longrightarrow> stack (snd (f w)) (c # cs) \<and> hist (snd (f w)) c = hist w c)"

lemma quietD: "quiet f \<Longrightarrow> stack w (c # cs) \<Longrightarrow> f w = (r, w') \<Longrightarrow> stack w' (c # cs) \<and> hist w' c = hist w c"
  unfolding quiet_def by (metis snd_conv)

definition good_ie :: "('v, 'c, 'w) idempotentExecutor \<Rightarrow> ProcessID \<Rightarrow> bool" where
  "good_ie ie pid \<longleftrightarrow>
     (\<forall>ctx inp. quiet (ie_Do ie ctx inp)) \<and>
     (\<forall>ctx inp w def. snd (fst (ie_Do ie ctx inp w)) \<noteq> Some (DefinitionErr def)) \<and>
     (\<forall>ctx inp w0 out w0' w c cs path. ie_Do ie ctx inp w0 = ((out, None), w0') \<longrightarrow> stack w (c # cs) \<longrightarrow>
        length (ie_Output ie) \<le> length out \<and>
        (\<exists>e w1 w2 eo res. ie_MakeEvent ie path inp out None w = (Inr e, w1) \<and> GetProcessID e = pid \<and>
           er_Create er c e w1 = (None, w2) \<and> stack w2 (c # cs) \<and> hist w2 c = hist w c @ [e] \<and>
           ie_CastEvent ie e = Some \<lparr>ee_ID = ie_ID ie, ee_Path = path, ee_Input = inp, ee_Output = eo, ee_Result = res\<rparr> \<and>
           length eo = length (ie_Output ie) \<and> step_path e = Some path \<and> res \<in> {[], out}))"

lemma ie_record_ok:
  assumes st: "stack w (ctx_tx ctx # cs)" and pid: "pid \<noteq> 0" and good: "good_ie ie pid"
    and out: "ie_Do ie ctx0 input w0 = ((output, None), w0')"
  obtains e eo res w' es where "ie_record er ie ctx pid path input output w = (IEDone (Inr output), w')"
    "stack w' (ctx_tx ctx # cs)" "hist w' (ctx_tx ctx) = hist w (ctx_tx ctx) @ e # es" "placed p es" "GetProcessID e = pid"
    "ie_CastEvent ie e = Some \<lparr>ee_ID = ie_ID ie, ee_Path = path, ee_Input = input, ee_Output = eo, ee_Result = res\<rparr>"
    "length eo = length (ie_Output ie)" "step_path e = Some path" "res \<in> {[], output}"
proof -
  from good out st have len: "length (ie_Output ie) \<le> length output" and
    "\<exists>e w1 w2 eo res. ie_MakeEvent ie path input output None w = (Inr e, w1) \<and> GetProcessID e = pid \<and>
       er_Create er (ctx_tx ctx) e w1 = (None, w2) \<and> stack w2 (ctx_tx ctx # cs) \<and>
       hist w2 (ctx_tx ctx) = hist w (ctx_tx ctx) @ [e] \<and>
       ie_CastEvent ie e = Some \<lparr>ee_ID = ie_ID ie, ee_Path = path, ee_Input = input, ee_Output = eo, ee_Result = res\<rparr> \<and>
       length eo = length (ie_Output ie) \<and> step_path e = Some path \<and> res \<in> {[], output}"
    unfolding good_ie_def by blast+
  then obtain e w1 w2 eo res where e: "ie_MakeEvent ie path input output None w = (Inr e, w1)" "GetProcessID e = pid"
       "er_Create er (ctx_tx ctx) e w1 = (None, w2)" "stack w2 (ctx_tx ctx # cs)"
       "hist w2 (ctx_tx ctx) = hist w (ctx_tx ctx) @ [e]"
       "ie_CastEvent ie e = Some \<lparr>ee_ID = ie_ID ie, ee_Path = path, ee_Input = input, ee_Output = eo, ee_Result = res\<rparr>"
       "length eo = length (ie_Output ie)" "step_path e = Some path" "res \<in> {[], output}" by blast
  obtain tx w3 where b: "er_BeginTx er (ctx_tx ctx) w2 = ((tx, None), w3)" "stack w3 (tx # ctx_tx ctx # cs)"
    "hist w3 tx = hist w2 (ctx_tx ctx)" using begin_tx[OF e(4)] by blast
  let ?ctx = "ctx\<lparr>ctx_tx := tx\<rparr>"
  have "stack w3 (ctx_tx ?ctx # ctx_tx ctx # cs)" using b(2) by simp
  then obtain w4 es where o: "ie_outputs er ?ctx pid (ie_Output ie) output w3 = (None, w4)" "stack w4 (tx # ctx_tx ctx # cs)"
    "hist w4 tx = hist w3 tx @ es" "placed p es" using ie_outputs_ok[OF _ pid len] by (metis wctx.select_convs(1) wctx.surjective wctx.update_convs(1))
  obtain w5 where "er_CommitTx er tx w4 = (None, w5)" "stack w5 (ctx_tx ctx # cs)" "hist w5 (ctx_tx ctx) = hist w4 tx"
    using commit_tx[OF o(2)] by blast
  with e b o show ?thesis
    by (intro that[of w5 e es eo res]) (simp_all add: ie_record_def finish_deferred_def wf_Finish_def)
qed

text \<open>
  A step that is not in the history and succeeds is in the history afterwards, with whatever is
  recorded later.
\<close>

lemma ie_step_first:
  assumes st: "stack w (ctx_tx ctx # cs)" and pid: "pid \<noteq> 0" and good: "good_ie ie pid"
    and new: "ie_scan (ie_CastEvent ie) (ie_ID ie) (CurrentPath ctx) [] (no_errors (phist pid w (ctx_tx ctx))) = Inr None"
    and step: "ie_step er ie ctx pid w = (r, w')" "\<forall>err. r \<noteq> IEDone (Inl err)"
  shows "\<exists>out res es. r = IEDone (Inr out) \<and> stack w' (ctx_tx ctx # cs) \<and>
    hist w' (ctx_tx ctx) = hist w (ctx_tx ctx) @ es \<and> placed (CurrentPath ctx) es \<and>
    step_done ie ctx (phist pid w' (ctx_tx ctx)) res \<and> res \<in> {[], out} \<and>
    (\<exists>inp w1 w2. ie_Do ie ctx inp w1 = ((out, None), w2))"
proof -
  let ?h = "phist pid w (ctx_tx ctx)"
  obtain inp where inp: "ie_inputs er ctx pid (ie_Input ie) w = (Inr inp, w)"
    using step new ie_inputs_same[OF st, of pid "ie_Input ie"]
    by (cases "ie_inputs er ctx pid (ie_Input ie) w"; cases "fst (ie_inputs er ctx pid (ie_Input ie) w)")
       (auto simp: ie_step_def find[OF st] Let_def)
  note vals = ie_inputs_ok[OF st inp]
  obtain out err w3 where d: "ie_Do ie ctx inp w = ((out, err), w3)" by (metis prod.exhaust)
  have nodef: "err \<noteq> Some (DefinitionErr def)" for def
    using good d unfolding good_ie_def by (metis fst_conv snd_conv)
  have err: "err = None"
    using step d nodef new inp
    by (cases err) (auto simp: ie_step_def find[OF st] Let_def split: wf_error.splits)
  have "quiet (ie_Do ie ctx inp)" using good by (simp add: good_ie_def)
  from quietD[OF this st d] have w3: "stack w3 (ctx_tx ctx # cs)" "hist w3 (ctx_tx ctx) = hist w (ctx_tx ctx)" by auto
  have "ie_record er ie ctx pid (CurrentPath ctx) inp out w3 = (r, w')"
    using step(1) new inp d err by (simp add: ie_step_def find[OF st] Let_def)
  moreover obtain e eo res w5 es where r: "ie_record er ie ctx pid (CurrentPath ctx) inp out w3 = (IEDone (Inr out), w5)"
    "stack w5 (ctx_tx ctx # cs)" "hist w5 (ctx_tx ctx) = hist w3 (ctx_tx ctx) @ e # es" "placed (CurrentPath ctx) es" "GetProcessID e = pid"
    "ie_CastEvent ie e = Some \<lparr>ee_ID = ie_ID ie, ee_Path = CurrentPath ctx, ee_Input = inp, ee_Output = eo, ee_Result = res\<rparr>"
    "length eo = length (ie_Output ie)" "step_path e = Some (CurrentPath ctx)" "res \<in> {[], out}"
    by (rule ie_record_ok[OF w3(1) pid good d[unfolded err]])
  ultimately have eq: "r = IEDone (Inr out)" "w' = w5" by auto
  have h: "phist pid w5 (ctx_tx ctx) = ?h @ e # filter (\<lambda>e. GetProcessID e = pid) es"
    using r(3,5) w3(2) by simp
  have scan: "ie_scan (ie_CastEvent ie) (ie_ID ie) (CurrentPath ctx) [] (no_errors (phist pid w5 (ctx_tx ctx))) =
      Inr (Some (?h @ [e], \<lparr>ee_ID = ie_ID ie, ee_Path = CurrentPath ctx, ee_Input = inp, ee_Output = eo, ee_Result = res\<rparr>))"
    unfolding h by (subst ie_scan_here[OF new r(6)]) simp_all
  have "snd (lookupVariable ctx (?h @ [e]) key) = snd (lookupVariable ctx ?h key)" for key
    using r(8) by (cases e) (auto simp: lookupVariable_def lookup_event_def split_def)
  then have "ie_valid ie ctx (?h @ [e]) \<lparr>ee_ID = ie_ID ie, ee_Path = CurrentPath ctx, ee_Input = inp, ee_Output = eo, ee_Result = res\<rparr>"
    using vals r(7) by (simp add: ie_valid_def)
  with scan have "step_done ie ctx (phist pid w5 (ctx_tx ctx)) res" by (auto simp: step_done_def)
  moreover have "placed (CurrentPath ctx) (e # es)" using r(4,8) step_path_plain[OF r(8)] by (auto simp: placed_def)
  moreover have "ie_Do ie ctx inp w = ((out, None), w3)" using d err by simp
  moreover have "hist w' (ctx_tx ctx) = hist w (ctx_tx ctx) @ (e # es)" using eq r(3) w3(2) by simp
  ultimately show ?thesis using eq r(2,9) by blast
qed

end

section \<open>Participants and conditions that can be replayed\<close>

context event_store
begin

text \<open>
  The functions of the registries act outside the event repository and return no definition; the call
  of a participant returns as many values as its signature says.
\<close>

definition quiet_registry :: "('a, 'w) by_id list option \<Rightarrow> ('a \<Rightarrow> bool) \<Rightarrow> bool" where
  "quiet_registry rs P \<longleftrightarrow>
     (\<forall>xs r i. rs = Some xs \<longrightarrow> r \<in> set xs \<longrightarrow> quiet (r i) \<and> (\<forall>w x w'. r i w = (Inr (Some x), w') \<longrightarrow> P x))"

definition quiet_participant :: "('v, 'c, 'w) participant \<Rightarrow> bool" where
  "quiet_participant p \<longleftrightarrow>
     (\<forall>ctx inp. quiet (p_call p ctx inp) \<and>
        (\<forall>w out err w'. p_call p ctx inp w = ((out, err), w') \<longrightarrow>
           (\<forall>def. err \<noteq> Some (DefinitionErr def)) \<and> (err = None \<longrightarrow> length out = p_NumOut p - 1)))"

definition quiet_condition :: "('v, 'c, 'w) condition_fn \<Rightarrow> bool" where
  "quiet_condition c \<longleftrightarrow>
     (\<forall>ctx inp. quiet (cf_call c ctx inp) \<and>
        (\<forall>w b err w'. cf_call c ctx inp w = ((b, err), w') \<longrightarrow> (\<forall>def. err \<noteq> Some (DefinitionErr def))))"

definition quiet_rt :: "('v, 'c, 'w) Runtime \<Rightarrow> bool" where
  "quiet_rt rt \<longleftrightarrow>
     rt_Events rt = Some er \<and> (\<forall>b. bool_any rt (any_bool rt b) = Some b) \<and>
     quiet_registry (ctx_participants rt) quiet_participant \<and> quiet_registry (ctx_conditions rt) quiet_condition"

lemma quietI: "(\<And>w c cs. stack w (c # cs) \<Longrightarrow> stack (snd (f w)) (c # cs) \<and> hist (snd (f w)) c = hist w c) \<Longrightarrow> quiet f"
  by (simp add: quiet_def)

lemma find_first_quiet:
  assumes "\<And>r. r \<in> set rs \<Longrightarrow> quiet (r i)"
  shows "quiet (find_first rs i)"
  using assms
proof (induction rs)
  case (Cons r rs)
  then have r: "quiet (r i)" and rs: "quiet (find_first rs i)" by auto
  show ?case
  proof (rule quietI)
    fix w c cs assume st: "stack w (c # cs)"
    obtain a w1 where a: "r i w = (a, w1)" by force
    with quietD[OF r st] have "stack w1 (c # cs) \<and> hist w1 c = hist w c" by simp
    with quietD[OF rs, of w1 c cs] a
    show "stack (snd (find_first (r # rs) i w)) (c # cs) \<and> hist (snd (find_first (r # rs) i w)) c = hist w c"
      by (cases "find_first rs i w1") (auto split: sum.split option.split)
  qed
qed (simp add: quiet_def)

lemma find_first_Some:
  "find_first rs i w = (Inr (Some x), w') \<Longrightarrow> \<exists>r \<in> set rs. \<exists>w1. r i w1 = (Inr (Some x), w')"
  by (induction rs arbitrary: w) (auto split: prod.splits sum.splits option.splits)

lemma registryD:
  assumes "quiet_registry (Some rs) P"
  shows "quiet (find_first rs i)" "find_first rs i w = (Inr (Some x), w') \<Longrightarrow> P x"
  using assms find_first_quiet[of rs i] find_first_Some[of rs i w x w'] unfolding quiet_registry_def by blast+

lemma participant_execute_quiet:
  assumes "quiet_rt rt"
  shows "quiet (participant_execute rt ident Output ctx input)"
    and "participant_execute rt ident Output ctx input w = ((out, err), w') \<Longrightarrow>
      (\<forall>def. err \<noteq> Some (DefinitionErr def)) \<and> (err = None \<longrightarrow> length out = length Output)"
proof -
  show "quiet (participant_execute rt ident Output ctx input)"
  proof (rule quietI)
    fix w c cs assume st: "stack w (c # cs)"
    show "stack (snd (participant_execute rt ident Output ctx input w)) (c # cs) \<and>
      hist (snd (participant_execute rt ident Output ctx input w)) c = hist w c"
    proof (cases "ctx_participants rt")
      case (Some rs)
      then have reg: "quiet_registry (Some rs) quiet_participant" using assms by (simp add: quiet_rt_def)
      obtain a w1 where a: "find_first rs ident w = (a, w1)" by force
      from quietD[OF registryD(1)[OF reg] st a] have w1: "stack w1 (c # cs)" "hist w1 c = hist w c" by auto
      show ?thesis
      proof (cases "\<exists>p. a = Inr (Some p)")
        case True
        then obtain p where p: "a = Inr (Some p)" ..
        then have "quiet (p_call p ctx input)" using registryD(2)[OF reg] a by (auto simp: quiet_participant_def)
        then show ?thesis using Some a p w1 unfolding quiet_def
          by (simp add: participant_execute_def split: option.split)
      qed (use Some a w1 in \<open>auto simp: participant_execute_def split: sum.split option.split\<close>)
    qed (simp add: participant_execute_def st)
  qed
  assume "participant_execute rt ident Output ctx input w = ((out, err), w')"
  then show "(\<forall>def. err \<noteq> Some (DefinitionErr def)) \<and> (err = None \<longrightarrow> length out = length Output)"
    using assms registryD(2)[of _ quiet_participant ident w]
    by (fastforce simp: participant_execute_def quiet_rt_def quiet_participant_def fatal_def
        split: option.splits sum.splits prod.splits if_splits)
qed

lemma condition_evaluate_quiet:
  assumes "quiet_rt rt"
  shows "quiet (condition_evaluate rt ident ctx input)"
    and "condition_evaluate rt ident ctx input w = ((out, err), w') \<Longrightarrow>
      (\<forall>def. err \<noteq> Some (DefinitionErr def)) \<and> (\<exists>b. out = [any_bool rt b])"
proof -
  show "quiet (condition_evaluate rt ident ctx input)"
  proof (rule quietI)
    fix w c cs assume st: "stack w (c # cs)"
    show "stack (snd (condition_evaluate rt ident ctx input w)) (c # cs) \<and>
      hist (snd (condition_evaluate rt ident ctx input w)) c = hist w c"
    proof (cases "ctx_conditions rt")
      case (Some rs)
      then have reg: "quiet_registry (Some rs) quiet_condition" using assms by (simp add: quiet_rt_def)
      obtain a w1 where a: "find_first rs ident w = (a, w1)" by force
      from quietD[OF registryD(1)[OF reg] st a] have w1: "stack w1 (c # cs)" "hist w1 c = hist w c" by auto
      show ?thesis
      proof (cases "\<exists>p. a = Inr (Some p)")
        case True
        then obtain p where p: "a = Inr (Some p)" ..
        then have q: "quiet (cf_call p ctx input)" using registryD(2)[OF reg] a by (auto simp: quiet_condition_def)
        obtain b err w2 where "cf_call p ctx input w1 = ((b, err), w2)" by (metis prod.exhaust)
        with quietD[OF q w1(1)] show ?thesis using Some a p w1
          by (simp add: condition_evaluate_def split: option.split)
      qed (use Some a w1 in \<open>auto simp: condition_evaluate_def split: sum.split option.split\<close>)
    qed (simp add: condition_evaluate_def st)
  qed
  assume "condition_evaluate rt ident ctx input w = ((out, err), w')"
  then show "(\<forall>def. err \<noteq> Some (DefinitionErr def)) \<and> (\<exists>b. out = [any_bool rt b])"
    using assms registryD(2)[of _ quiet_condition ident w]
    by (fastforce simp: condition_evaluate_def quiet_rt_def quiet_condition_def fatal_def
        split: option.splits sum.splits prod.splits if_splits)
qed

lemma good_participant:
  assumes "quiet_rt rt" "pid \<noteq> 0"
  shows "good_ie (participant_executor rt er pid ident inp out) pid"
proof -
  have ev: "\<exists>e w1 w2 eo res. participant_MakeEvent er pid ident path input vals None w = (Inr e, w1) \<and> GetProcessID e = pid \<and>
      er_Create er c e w1 = (None, w2) \<and> stack w2 (c # cs) \<and> hist w2 c = hist w c @ [e] \<and>
      ie_CastEvent (participant_executor rt er pid ident inp out) e =
        Some \<lparr>ee_ID = ident, ee_Path = path, ee_Input = input, ee_Output = eo, ee_Result = res\<rparr> \<and>
      length eo = length out \<and> step_path e = Some path \<and> res \<in> {[], vals}"
    if A: "stack w (c # cs)" "length vals = length out" for w c cs path input vals
  proof -
    obtain i t w1 w2 where r: "MakeEventID er w = (Inr i, w1)" "clock_Now er w1 = (t, w2)"
      "\<forall>e. GetEventID e = i \<longrightarrow> GetTimestamp e = t \<longrightarrow> GetProcessID e \<noteq> 0 \<longrightarrow>
         (\<exists>w3. er_Create er c e w2 = (None, w3) \<and> stack w3 (c # cs) \<and> hist w3 c = hist w c @ [e] \<and> obs w3 = obs w)"
      using recorded[OF A(1)] by blast
    from r(3)[rule_format, of "EventParticipant i pid t ident path input vals None"] assms(2)
    obtain w3 where "er_Create er c (EventParticipant i pid t ident path input vals None) w2 = (None, w3)" "stack w3 (c # cs)"
      "hist w3 c = hist w c @ [EventParticipant i pid t ident path input vals None]" by auto
    with r(1,2) A(2) show ?thesis
      by (intro exI[of _ "EventParticipant i pid t ident path input vals None"] exI[of _ w2] exI[of _ w3] exI[of _ vals] exI[of _ "[]"])
        (simp add: participant_MakeEvent_def participant_executor_def)
  qed
  have ids: "ie_ID (participant_executor rt er pid ident inp out) = ident"
    "ie_Do (participant_executor rt er pid ident inp out) = participant_execute rt ident out"
    "ie_Output (participant_executor rt er pid ident inp out) = out"
    "ie_MakeEvent (participant_executor rt er pid ident inp out) = participant_MakeEvent er pid ident"
    by (simp_all add: participant_executor_def)
  have def: "snd (fst (participant_execute rt ident out ctx input w)) \<noteq> Some (DefinitionErr def)" for ctx input w def
    using participant_execute_quiet(2)[OF assms(1), of ident out ctx input w]
    by (metis prod.collapse)
  show ?thesis
    unfolding good_ie_def ids using participant_execute_quiet[OF assms(1)] ev def by (metis order_refl)
qed

lemma good_condition:
  assumes "quiet_rt rt" "pid \<noteq> 0"
  shows "good_ie (condition_executor rt er pid ident inp) pid"
proof -
  have ev: "\<exists>e w1 w2 eo res. condition_MakeEvent rt er pid ident path input vals None w = (Inr e, w1) \<and> GetProcessID e = pid \<and>
      er_Create er c e w1 = (None, w2) \<and> stack w2 (c # cs) \<and> hist w2 c = hist w c @ [e] \<and>
      ie_CastEvent (condition_executor rt er pid ident inp) e =
        Some \<lparr>ee_ID = ident, ee_Path = path, ee_Input = input, ee_Output = eo, ee_Result = res\<rparr> \<and>
      length eo = length [] \<and> step_path e = Some path \<and> res \<in> {[], vals}"
    if A: "stack w (c # cs)" "vals = [any_bool rt b]" for w c cs path input vals b
  proof -
    obtain i t w1 w2 where r: "MakeEventID er w = (Inr i, w1)" "clock_Now er w1 = (t, w2)"
      "\<forall>e. GetEventID e = i \<longrightarrow> GetTimestamp e = t \<longrightarrow> GetProcessID e \<noteq> 0 \<longrightarrow>
         (\<exists>w3. er_Create er c e w2 = (None, w3) \<and> stack w3 (c # cs) \<and> hist w3 c = hist w c @ [e] \<and> obs w3 = obs w)"
      using recorded[OF A(1)] by blast
    from r(3)[rule_format, of "EventCondition i pid t ident path input b"] assms(2)
    obtain w3 where "er_Create er c (EventCondition i pid t ident path input b) w2 = (None, w3)" "stack w3 (c # cs)"
      "hist w3 c = hist w c @ [EventCondition i pid t ident path input b]" by auto
    with r(1,2) A(2) assms(1) show ?thesis
      by (intro exI[of _ "EventCondition i pid t ident path input b"] exI[of _ w2] exI[of _ w3] exI[of _ "[]"] exI[of _ vals])
        (simp add: condition_MakeEvent_def condition_executor_def quiet_rt_def)
  qed
  have ids: "ie_ID (condition_executor rt er pid ident inp) = ident"
    "ie_Do (condition_executor rt er pid ident inp) = condition_evaluate rt ident"
    "ie_Output (condition_executor rt er pid ident inp) = []"
    "ie_MakeEvent (condition_executor rt er pid ident inp) = condition_MakeEvent rt er pid ident"
    by (simp_all add: condition_executor_def)
  have def: "snd (fst (condition_evaluate rt ident ctx input w)) \<noteq> Some (DefinitionErr def)" for ctx input w def
    using condition_evaluate_quiet(2)[OF assms(1), of ident ctx input w]
    by (metis prod.collapse)
  show ?thesis
    unfolding good_ie_def ids using condition_evaluate_quiet[OF assms(1)] ev def
    by (metis bot_nat_0.extremum list.size(3))
qed

end

section \<open>The first run of a definition, and the next\<close>

lemma untouched_filter: "untouched p es \<Longrightarrow> untouched p (filter P es)"
  by (auto simp: untouched_def)

lemma untouched_cast:
  "untouched p h \<Longrightarrow> x \<noteq> [] \<Longrightarrow>
     ie_scan (ie_CastEvent (participant_executor rt er pid i inp out)) i (p @ x) [] (no_errors h) = Inr None"
  "untouched p h \<Longrightarrow> x \<noteq> [] \<Longrightarrow>
     ie_scan (ie_CastEvent (condition_executor rt er pid i inp)) i (p @ x) [] (no_errors h) = Inr None"
  unfolding ie_scan_None
  by (auto simp: untouched_def participant_executor_def condition_executor_def dest!: bspec split: wf_event.splits)

lemma participant_executor_ID [simp]: "ie_ID (participant_executor rt er pid i inp out) = i"
  by (simp add: participant_executor_def)

lemma condition_executor_ID [simp]: "ie_ID (condition_executor rt er pid i inp) = i"
  by (simp add: condition_executor_def)

lemma ie_scan_cast: "ie_scan cast i path acc itr = Inr (Some (m, ee)) \<Longrightarrow> \<exists>e. cast e = Some ee"
  by (induction cast i path acc itr rule: ie_scan.induct) (auto split: option.splits if_splits)

lemma condition_result: "step_done (condition_executor rt er pid i inp) ctx h res \<Longrightarrow> res \<noteq> []"
  by (auto simp: step_done_def condition_executor_def dest!: ie_scan_cast split: wf_event.splits)

context event_store
begin

lemma ie_finish_ok:
  assumes "stack w (c' # c # cs)"
  obtains w' where "ie_finish er c' (Inr r) w = (Inr r, w')" "stack w' (c # cs)" "hist w' c = hist w c'" "obs w' = obs w"
  using commit_tx[OF assms] by (auto simp: ie_finish_def finish_deferred_def wf_Finish_def)

lemma ie_finish_Inr: "ie_finish er c x w = (Inr r, w') \<Longrightarrow> x = Inr r"
  by (cases x)
    (auto simp: ie_finish_def finish_deferred_def wf_Finish_def wf_Merge_def List.map_filter_def
      split: wf_error.splits go_error.splits prod.splits option.splits list.splits)

text \<open>A condition: the first evaluation is recorded, and read from then on.\<close>

lemma condition_first:
  assumes rt: "quiet_rt rt" "pid \<noteq> 0" and st: "stack w (ctx_tx ctx # cs)"
    and new: "untouched (CurrentPath ctx) (hist w (ctx_tx ctx))"
    and run: "condition_cachedExecute rt i inp ctx pid w = (Inr b, w')"
  obtains es where "stack w' (ctx_tx ctx # cs)" "hist w' (ctx_tx ctx) = hist w (ctx_tx ctx) @ es"
    "placed (CurrentPath ctx @ [i]) es" "cond_done rt er pid i inp ctx (phist pid w' (ctx_tx ctx)) b"
proof -
  let ?ie = "condition_executor rt er pid i inp"
  obtain tx w1 where b: "er_BeginTx er (ctx_tx ctx) w = ((tx, None), w1)" "stack w1 (tx # ctx_tx ctx # cs)"
    "hist w1 tx = hist w (ctx_tx ctx)" using begin_tx[OF st] by blast
  let ?ctx = "(WithName ctx i)\<lparr>ctx_tx := tx\<rparr>"
  have er: "rt_Events rt = Some er" using rt by (simp add: quiet_rt_def)
  obtain r w2 where step: "ie_step er ?ie ?ctx pid w1 = (r, w2)" by force
  have "\<exists>vs. r = IEDone (Inr vs)"
    using run b er step
    by (auto dest!: ie_finish_Inr simp: condition_cachedExecute_def LookupEventsRepository_def Let_def split: ie_result.splits sum.splits prod.splits)
  then obtain vs where vs: "r = IEDone (Inr vs)" ..
  have scan: "ie_scan (ie_CastEvent ?ie) (ie_ID ?ie) (CurrentPath ?ctx) [] (no_errors (phist pid w1 (ctx_tx ?ctx))) = Inr None"
  proof -
    have "untouched (CurrentPath ctx) (phist pid w1 (ctx_tx ?ctx))" using untouched_filter[OF new] b(3) by simp
    then show ?thesis by (simp add: untouched_cast(2))
  qed
  have st1: "stack w1 (ctx_tx ?ctx # ctx_tx ctx # cs)" using b(2) by simp
  have "\<forall>err. r \<noteq> IEDone (Inl err)" using vs by simp
  note first = ie_step_first[OF st1 rt(2) good_condition[OF rt] scan step this]
  then obtain out res es where o: "r = IEDone (Inr out)" "stack w2 (ctx_tx ?ctx # ctx_tx ctx # cs)"
    "hist w2 (ctx_tx ?ctx) = hist w1 (ctx_tx ?ctx) @ es" "placed (CurrentPath ?ctx) es"
    "step_done ?ie ?ctx (phist pid w2 (ctx_tx ?ctx)) res" "res \<in> {[], out}" "\<exists>inp w1 w2. ie_Do ?ie ?ctx inp w1 = ((out, None), w2)"
    by blast
  have "out = vs" using o(1) vs by simp
  then have d: "stack w2 (tx # ctx_tx ctx # cs)" "hist w2 tx = hist w1 tx @ es" "placed (CurrentPath ctx @ [i]) es"
    "step_done ?ie ?ctx (phist pid w2 tx) res" "res \<in> {[], vs}" "\<exists>inp w1 w2. ie_Do ?ie ?ctx inp w1 = ((vs, None), w2)"
    using o(2-7) by simp_all
  obtain w3 where f: "ie_finish er tx (Inr vs) w2 = (Inr vs, w3)" "stack w3 (ctx_tx ctx # cs)"
    "hist w3 (ctx_tx ctx) = hist w2 tx" by (rule ie_finish_ok[OF d(1)])
  obtain inp' v1 v2 where "condition_evaluate rt i ?ctx inp' v1 = ((vs, None), v2)"
    using d(6) by (auto simp: condition_executor_def)
  then obtain b' where b': "vs = [any_bool rt b']" using condition_evaluate_quiet(2)[OF rt(1)] by blast
  have bb: "bool_any rt (any_bool rt b') = Some b'" using rt by (simp add: quiet_rt_def)
  have res: "b' = b \<and> w' = w3" using run b er step vs f(1) b' bb
    by (simp add: condition_cachedExecute_def LookupEventsRepository_def Let_def)
  have "res = [any_bool rt b]"
    using d(5) condition_result[OF d(4)] b' res by auto
  with d(4) f(3) res have "cond_done rt er pid i inp ctx (phist pid w' (ctx_tx ctx)) b"
    by (simp add: cond_done_def)
  with f d(2,3) b(3) res show ?thesis by (intro that[of es]) simp_all
qed

end

context event_store
begin

lemma condition_again:
  assumes rt: "quiet_rt rt" and st: "stack w (ctx_tx ctx # cs)"
    and seen: "cond_done rt er pid i inp ctx (phist pid w (ctx_tx ctx)) b"
  obtains w' where "condition_cachedExecute rt i inp ctx pid w = (Inr b, w')" "stack w' (ctx_tx ctx # cs)"
    "hist w' (ctx_tx ctx) = hist w (ctx_tx ctx)" "obs w' = obs w"
proof -
  let ?ie = "condition_executor rt er pid i inp"
  obtain tx w1 where b: "er_BeginTx er (ctx_tx ctx) w = ((tx, None), w1)" "stack w1 (tx # ctx_tx ctx # cs)"
    "hist w1 tx = hist w (ctx_tx ctx)" "obs w1 = obs w" using begin_tx[OF st] by blast
  let ?ctx = "(WithName ctx i)\<lparr>ctx_tx := tx\<rparr>"
  have "stack w1 (ctx_tx ?ctx # ctx_tx ctx # cs)" using b(2) by simp
  moreover have "step_done ?ie ?ctx (phist pid w1 (ctx_tx ?ctx)) [any_bool rt b]"
    using seen b(3) by (simp add: cond_done_def)
  ultimately have step: "ie_step er ?ie ?ctx pid w1 = (IEDone (Inr [any_bool rt b]), w1)" by (rule ie_step_done)
  obtain w2 where "ie_finish er tx (Inr [any_bool rt b]) w1 = (Inr [any_bool rt b], w2)" "stack w2 (ctx_tx ctx # cs)"
    "hist w2 (ctx_tx ctx) = hist w1 tx" "obs w2 = obs w1" by (rule ie_finish_ok[OF b(2)])
  with step b rt show ?thesis
    by (intro that[of w2]) (simp_all add: condition_cachedExecute_def LookupEventsRepository_def Let_def quiet_rt_def)
qed

text \<open>A participant.\<close>

lemma participant_first:
  assumes rt: "quiet_rt rt" "pid \<noteq> 0" and st: "stack w (ctx_tx ctx # cs)"
    and new: "untouched (CurrentPath ctx) (hist w (ctx_tx ctx))"
    and run: "wf_exec rt (Exec (ExecuteParticipant i inp out)) ctx pid w = Some (None, w')"
  obtains es where "stack w' (ctx_tx ctx # cs)" "hist w' (ctx_tx ctx) = hist w (ctx_tx ctx) @ es"
    "below (CurrentPath ctx) es" "all_done rt er pid (ExecuteParticipant i inp out) ctx (phist pid w' (ctx_tx ctx))"
proof -
  let ?ie = "participant_executor rt er pid i inp out"
  obtain tx w1 where b: "er_BeginTx er (ctx_tx ctx) w = ((tx, None), w1)" "stack w1 (tx # ctx_tx ctx # cs)"
    "hist w1 tx = hist w (ctx_tx ctx)" using begin_tx[OF st] by blast
  let ?ctx = "(participant_ctx ctx i)\<lparr>ctx_tx := tx\<rparr>"
  have er: "rt_Events rt = Some er" using rt by (simp add: quiet_rt_def)
  have p: "CurrentPath ?ctx = CurrentPath ctx @ [''participant'', i]" "ctx_tx ?ctx = tx"
    by (simp_all add: participant_ctx_def)
  obtain r w2 where step: "ie_step er ?ie ?ctx pid w1 = (r, w2)" by force
  have begun: "participant_begin rt i inp out ctx pid w = (Inr (?ctx, r), w2)"
    using b er step by (simp add: participant_begin_def LookupEventsRepository_def participant_ctx_def Let_def)
  have scan: "ie_scan (ie_CastEvent ?ie) (ie_ID ?ie) (CurrentPath ?ctx) [] (no_errors (phist pid w1 (ctx_tx ?ctx))) = Inr None"
  proof -
    have "untouched (CurrentPath ctx) (phist pid w1 (ctx_tx ?ctx))" using untouched_filter[OF new] b(3) by (simp add: p)
    then show ?thesis by (simp add: p untouched_cast(1))
  qed
  have st1: "stack w1 (ctx_tx ?ctx # ctx_tx ctx # cs)" using b(2) by (simp add: p)
  note good = good_participant[OF rt, of i inp out]
  note first = ie_step_first[OF st1 rt(2) good scan step]
  have "\<exists>vs. r = IEDone (Inr vs)"
  proof (cases "\<forall>err. r \<noteq> IEDone (Inl err)")
    case True
    then show ?thesis using first by blast
  next
    case False
    then obtain err where "r = IEDone (Inl err)" by blast
    then show ?thesis using run begun er
      by (subst (asm) wf_exec.simps)
         (auto dest: ie_finish_Inr simp: participant_end_def split: prod.splits sum.splits)
  qed
  then obtain vs where vs: "r = IEDone (Inr vs)" ..
  have "\<forall>err. r \<noteq> IEDone (Inl err)" using vs by simp
  then obtain out res es where o: "r = IEDone (Inr out)" "stack w2 (ctx_tx ?ctx # ctx_tx ctx # cs)"
    "hist w2 (ctx_tx ?ctx) = hist w1 (ctx_tx ?ctx) @ es" "placed (CurrentPath ?ctx) es"
    "step_done ?ie ?ctx (phist pid w2 (ctx_tx ?ctx)) res"
    using first by blast
  then have d: "stack w2 (tx # ctx_tx ctx # cs)" "hist w2 tx = hist w1 tx @ es" "placed (CurrentPath ?ctx) es"
    "step_done ?ie ?ctx (phist pid w2 tx) res"
    by (simp_all only: p)
  obtain w3 where f: "ie_finish er tx (Inr vs) w2 = (Inr vs, w3)" "stack w3 (ctx_tx ctx # cs)"
    "hist w3 (ctx_tx ctx) = hist w2 tx" by (rule ie_finish_ok[OF d(1)])
  have w3: "w3 = w'" using run begun vs f(1) er p
    by (subst (asm) wf_exec.simps) (simp add: participant_end_def)
  have "res = []" using d(4) by (auto simp: step_done_def participant_executor_def dest!: ie_scan_cast split: wf_event.splits)
  moreover have "below (CurrentPath ctx) es" using d(3) placed_below by (simp add: p)
  ultimately show ?thesis using d f b(3) w3 by (intro that[of es]) simp_all
qed

lemma participant_again:
  assumes rt: "quiet_rt rt" and st: "stack w (ctx_tx ctx # cs)"
    and seen: "all_done rt er pid (ExecuteParticipant i inp out) ctx (phist pid w (ctx_tx ctx))"
  obtains w' where "wf_exec rt (Exec (ExecuteParticipant i inp out)) ctx pid w = Some (None, w')" "stack w' (ctx_tx ctx # cs)"
    "hist w' (ctx_tx ctx) = hist w (ctx_tx ctx)" "obs w' = obs w"
proof -
  let ?ie = "participant_executor rt er pid i inp out"
  obtain tx w1 where b: "er_BeginTx er (ctx_tx ctx) w = ((tx, None), w1)" "stack w1 (tx # ctx_tx ctx # cs)"
    "hist w1 tx = hist w (ctx_tx ctx)" "obs w1 = obs w" using begin_tx[OF st] by blast
  let ?ctx = "(participant_ctx ctx i)\<lparr>ctx_tx := tx\<rparr>"
  have er: "rt_Events rt = Some er" using rt by (simp add: quiet_rt_def)
  have "stack w1 (ctx_tx ?ctx # ctx_tx ctx # cs)" using b(2) by simp
  moreover have "step_done ?ie ?ctx (phist pid w1 (ctx_tx ?ctx)) []" using seen b(3) by simp
  ultimately have "ie_step er ?ie ?ctx pid w1 = (IEDone (Inr []), w1)" by (rule ie_step_done)
  then have begun: "participant_begin rt i inp out ctx pid w = (Inr (?ctx, IEDone (Inr [])), w1)"
    using b er by (simp add: participant_begin_def LookupEventsRepository_def participant_ctx_def Let_def)
  obtain w2 where f: "ie_finish er tx (Inr []) w1 = (Inr [], w2)" "stack w2 (ctx_tx ctx # cs)"
    "hist w2 (ctx_tx ctx) = hist w1 tx" "obs w2 = obs w1" by (rule ie_finish_ok[OF b(2)])
  have "wf_exec rt (Exec (ExecuteParticipant i inp out)) ctx pid w = Some (None, w2)"
    using begun f er by (subst wf_exec.simps) (simp add: participant_end_def)
  with f b show ?thesis by (intro that[of w2]) simp_all
qed

end

context event_store
begin

definition first_ok :: "('v, 'c, 'w) Runtime \<Rightarrow> ProcessID \<Rightarrow> 'v wf_def \<Rightarrow> bool" where
  "first_ok rt pid d \<longleftrightarrow>
     (\<forall>ctx cs w w'. stack w (ctx_tx ctx # cs) \<longrightarrow> untouched (CurrentPath ctx) (hist w (ctx_tx ctx)) \<longrightarrow>
        wf_exec rt (Exec d) ctx pid w = Some (None, w') \<longrightarrow>
        stack w' (ctx_tx ctx # cs) \<and>
        (\<exists>es. hist w' (ctx_tx ctx) = hist w (ctx_tx ctx) @ es \<and> below (CurrentPath ctx) es) \<and>
        all_done rt er pid d ctx (phist pid w' (ctx_tx ctx)))"

definition again_ok :: "('v, 'c, 'w) Runtime \<Rightarrow> ProcessID \<Rightarrow> 'v wf_def \<Rightarrow> bool" where
  "again_ok rt pid d \<longleftrightarrow>
     (\<forall>ctx cs w. stack w (ctx_tx ctx # cs) \<longrightarrow> all_done rt er pid d ctx (phist pid w (ctx_tx ctx)) \<longrightarrow>
        (\<exists>w'. wf_exec rt (Exec d) ctx pid w = Some (None, w') \<and> stack w' (ctx_tx ctx # cs) \<and>
           hist w' (ctx_tx ctx) = hist w (ctx_tx ctx) \<and> obs w' = obs w))"

lemma first_okD:
  "first_ok rt pid d \<Longrightarrow> stack w (ctx_tx ctx # cs) \<Longrightarrow> untouched (CurrentPath ctx) (hist w (ctx_tx ctx)) \<Longrightarrow>
     wf_exec rt (Exec d) ctx pid w = Some (None, w') \<Longrightarrow>
     stack w' (ctx_tx ctx # cs) \<and>
     (\<exists>es. hist w' (ctx_tx ctx) = hist w (ctx_tx ctx) @ es \<and> below (CurrentPath ctx) es) \<and>
     all_done rt er pid d ctx (phist pid w' (ctx_tx ctx))"
  unfolding first_ok_def by blast

lemma again_okD:
  "again_ok rt pid d \<Longrightarrow> stack w (ctx_tx ctx # cs) \<Longrightarrow> all_done rt er pid d ctx (phist pid w (ctx_tx ctx)) \<Longrightarrow>
     \<exists>w'. wf_exec rt (Exec d) ctx pid w = Some (None, w') \<and> stack w' (ctx_tx ctx # cs) \<and>
        hist w' (ctx_tx ctx) = hist w (ctx_tx ctx) \<and> obs w' = obs w"
  unfolding again_ok_def by blast

text \<open>A sequence: what its elements record does not touch the elements after it.\<close>

lemma sequence_first:
  assumes "\<forall>d \<in> set ds. first_ok rt pid d" "stack w (ctx_tx ctx # cs)"
    "\<forall>j \<ge> i. untouched (CurrentPath ctx @ [seq_name j]) (hist w (ctx_tx ctx))"
    "wf_exec rt (ExecSeq i ds) ctx pid w = Some (None, w')"
  shows "stack w' (ctx_tx ctx # cs) \<and>
    (\<exists>es. hist w' (ctx_tx ctx) = hist w (ctx_tx ctx) @ es \<and> below (CurrentPath ctx) es) \<and>
    (\<forall>k < length ds. all_done rt er pid (ds ! k) (WithName ctx (seq_name (i + k))) (phist pid w' (ctx_tx ctx)))"
  using assms
proof (induction ds arbitrary: i w)
  case Nil
  then have "w' = w" by (subst (asm) wf_exec.simps) simp
  with Nil show ?case by (simp add: exI[of _ "[]"])
next
  case (Cons d ds)
  let ?p = "WithName ctx (seq_name i)"
  obtain w1 where one: "wf_exec rt (Exec d) ?p pid w = Some (None, w1)"
    and rest: "wf_exec rt (ExecSeq (Suc i) ds) ctx pid w1 = Some (None, w')"
    using Cons.prems(4) by (subst (asm) (1) wf_exec.simps) (auto simp: bind_eq_Some_conv split: if_splits)
  have "first_ok rt pid d" "stack w (ctx_tx ?p # cs)" "untouched (CurrentPath ?p) (hist w (ctx_tx ?p))"
    using Cons.prems(1,2,3) by simp_all
  with one obtain es where w1: "stack w1 (ctx_tx ctx # cs)" "hist w1 (ctx_tx ctx) = hist w (ctx_tx ctx) @ es"
    "below (CurrentPath ctx @ [seq_name i]) es" "all_done rt er pid d ?p (phist pid w1 (ctx_tx ctx))"
    unfolding first_ok_def by fastforce
  have "\<forall>j \<ge> Suc i. untouched (CurrentPath ctx @ [seq_name j]) (hist w1 (ctx_tx ctx))"
    using Cons.prems(3) w1(2) below_other[of "CurrentPath ctx" "seq_name i" "[]" es _ "[]"] w1(3) by simp
  from Cons.IH[OF _ w1(1) this rest] Cons.prems(1)
  obtain fs where w': "stack w' (ctx_tx ctx # cs)" "hist w' (ctx_tx ctx) = hist w1 (ctx_tx ctx) @ fs" "below (CurrentPath ctx) fs"
    "\<forall>k < length ds. all_done rt er pid (ds ! k) (WithName ctx (seq_name (Suc i + k))) (phist pid w' (ctx_tx ctx))"
    by auto
  have "all_done rt er pid d ?p (phist pid w' (ctx_tx ctx))"
    using all_done_append[OF w1(4), of "filter (\<lambda>e. GetProcessID e = pid) fs"] w'(2) by simp
  then have "\<forall>k < length (d # ds). all_done rt er pid ((d # ds) ! k) (WithName ctx (seq_name (i + k))) (phist pid w' (ctx_tx ctx))"
    using w'(4) by (auto simp: less_Suc_eq_0_disj)
  moreover have "below (CurrentPath ctx) (es @ fs)" using w1(3) w'(3) by (simp add: below_shorter)
  moreover have "hist w' (ctx_tx ctx) = hist w (ctx_tx ctx) @ es @ fs" using w1(2) w'(2) by simp
  ultimately show ?case using w'(1) by blast
qed

lemma sequence_again:
  assumes "\<forall>d \<in> set ds. again_ok rt pid d" "stack w (ctx_tx ctx # cs)"
    "\<forall>k < length ds. all_done rt er pid (ds ! k) (WithName ctx (seq_name (i + k))) (phist pid w (ctx_tx ctx))"
  shows "\<exists>w'. wf_exec rt (ExecSeq i ds) ctx pid w = Some (None, w') \<and> stack w' (ctx_tx ctx # cs) \<and>
    hist w' (ctx_tx ctx) = hist w (ctx_tx ctx) \<and> obs w' = obs w"
  using assms
proof (induction ds arbitrary: i w)
  case Nil
  then show ?case by (subst wf_exec.simps) simp
next
  case (Cons d ds)
  let ?p = "WithName ctx (seq_name i)"
  have "again_ok rt pid d" "stack w (ctx_tx ?p # cs)" "all_done rt er pid d ?p (phist pid w (ctx_tx ?p))"
    using Cons.prems(1,2) Cons.prems(3)[rule_format, of 0] by simp_all
  then obtain w1 where w1: "wf_exec rt (Exec d) ?p pid w = Some (None, w1)" "stack w1 (ctx_tx ctx # cs)"
    "hist w1 (ctx_tx ctx) = hist w (ctx_tx ctx)" "obs w1 = obs w"
    unfolding again_ok_def by fastforce
  have "\<forall>k < length ds. all_done rt er pid (ds ! k) (WithName ctx (seq_name (Suc i + k))) (phist pid w1 (ctx_tx ctx))"
    using Cons.prems(3)[rule_format, of "Suc _"] w1(3) by simp
  from Cons.IH[OF _ w1(2) this] Cons.prems(1)
  obtain w2 where "wf_exec rt (ExecSeq (Suc i) ds) ctx pid w1 = Some (None, w2)" "stack w2 (ctx_tx ctx # cs)"
    "hist w2 (ctx_tx ctx) = hist w1 (ctx_tx ctx)" "obs w2 = obs w1" by auto
  with w1 show ?case by (subst wf_exec.simps) simp
qed

lemma replayable_first:
  assumes rt: "quiet_rt rt" "pid \<noteq> 0"
  shows "replayable d \<Longrightarrow> first_ok rt pid d"
proof (induction d rule: replayable.induct)
  case (1 ds)
  show ?case unfolding first_ok_def
  proof (intro allI impI)
    fix ctx cs w w'
    assume st: "stack w (ctx_tx ctx # cs)" and new: "untouched (CurrentPath ctx) (hist w (ctx_tx ctx))"
      and run: "wf_exec rt (Exec (Sequence ds)) ctx pid w = Some (None, w')"
    let ?c = "WithName ctx ''sequence''"
    have all: "\<forall>d \<in> set ds. first_ok rt pid d" using 1 by auto
    have run': "wf_exec rt (ExecSeq 0 ds) ?c pid w = Some (None, w')" using run by (subst (asm) wf_exec.simps) simp
    have new': "\<forall>j \<ge> 0. untouched (CurrentPath ?c @ [seq_name j]) (hist w (ctx_tx ?c))"
      using untouched_longer[OF new] by simp
    have st': "stack w (ctx_tx ?c # cs)" using st by simp
    from sequence_first[OF all st' new' run'] show "stack w' (ctx_tx ctx # cs) \<and>
      (\<exists>es. hist w' (ctx_tx ctx) = hist w (ctx_tx ctx) @ es \<and> below (CurrentPath ctx) es) \<and>
      all_done rt er pid (Sequence ds) ctx (phist pid w' (ctx_tx ctx))"
      by (auto dest: below_shorter)
  qed
next
  case (2 i inp t e)
  show ?case unfolding first_ok_def
  proof (intro allI impI)
    fix ctx cs w w'
    assume st: "stack w (ctx_tx ctx # cs)" and new: "untouched (CurrentPath ctx) (hist w (ctx_tx ctx))"
      and run: "wf_exec rt (Exec (IfDef (Some (ExecuteCondition i inp)) t e)) ctx pid w = Some (None, w')"
    let ?c = "WithName ctx ''if''"
    obtain b w1 where ev: "condition_cachedExecute rt i inp ?c pid w = (Inr b, w1)"
      using run by (subst (asm) wf_exec.simps) (auto split: prod.splits sum.splits)
    have st': "stack w (ctx_tx ?c # cs)" using st by simp
    have new': "untouched (CurrentPath ?c) (hist w (ctx_tx ?c))" using untouched_longer[OF new] by simp
    obtain es where w1: "stack w1 (ctx_tx ctx # cs)" "hist w1 (ctx_tx ctx) = hist w (ctx_tx ctx) @ es"
      "placed (CurrentPath ctx @ [''if'', i]) es" "cond_done rt er pid i inp ?c (phist pid w1 (ctx_tx ctx)) b"
      by (rule condition_first[OF rt st' new' ev]) simp
    have es: "below (CurrentPath ctx) es" using w1(3) by (rule placed_below)
    let ?n = "if b then ''then'' else ''else''"
    let ?c' = "WithName ?c ?n"
    have run': "case (if b then t else e) of None \<Rightarrow> w' = w1
        | Some branch \<Rightarrow> wf_exec rt (Exec branch) ?c' pid w1 = Some (None, w')"
      using run ev by (subst (asm) wf_exec.simps) (auto split: option.splits)
    show "stack w' (ctx_tx ctx # cs) \<and>
      (\<exists>es. hist w' (ctx_tx ctx) = hist w (ctx_tx ctx) @ es \<and> below (CurrentPath ctx) es) \<and>
      all_done rt er pid (IfDef (Some (ExecuteCondition i inp)) t e) ctx (phist pid w' (ctx_tx ctx))"
    proof (cases "if b then t else e")
      case None
      then have "all_done rt er pid (IfDef (Some (ExecuteCondition i inp)) t e) ctx (phist pid w1 (ctx_tx ctx))"
        using w1(4) by (cases b) simp_all
      with None run' w1(1,2) es show ?thesis by auto
    next
      case (Some d)
      then have ok: "first_ok rt pid d" using 2 by (auto split: if_splits)
      have st1: "stack w1 (ctx_tx ?c' # cs)" using w1(1) by simp
      have new1: "untouched (CurrentPath ?c') (hist w1 (ctx_tx ?c'))"
        using untouched_longer[OF new, of "[''if'', ?n]"] placed_other[OF w1(3), of "[''if'', ?n]"] w1(2) by simp
      have "wf_exec rt (Exec d) ?c' pid w1 = Some (None, w')" using run' Some by simp
      note ran = first_okD[OF ok st1 new1 this, unfolded WithName_simps(2)]
      then obtain fs where w': "stack w' (ctx_tx ctx # cs)" "hist w' (ctx_tx ctx) = hist w1 (ctx_tx ctx) @ fs"
        "below (CurrentPath ?c') fs" "all_done rt er pid d ?c' (phist pid w' (ctx_tx ctx))"
        by (elim conjE exE) (rule that)
      have "cond_done rt er pid i inp ?c (phist pid w' (ctx_tx ctx)) b"
        using cond_done_append[OF w1(4), of "filter (\<lambda>e. GetProcessID e = pid) fs"] w'(2) by simp
      then have "all_done rt er pid (IfDef (Some (ExecuteCondition i inp)) t e) ctx (phist pid w' (ctx_tx ctx))"
        using w'(4) Some by (cases b) simp_all
      moreover have "below (CurrentPath ctx) fs" using w'(3) by (simp add: below_shorter)
      ultimately show ?thesis using w'(1,2) w1(2) es by (metis append.assoc untouched_simps(4))
    qed
  qed
next
  case (3 i inp out)
  show ?case unfolding first_ok_def   proof (intro allI impI)
    fix ctx cs w w'
    assume "stack w (ctx_tx ctx # cs)" "untouched (CurrentPath ctx) (hist w (ctx_tx ctx))"
      "wf_exec rt (Exec (ExecuteParticipant i inp out)) ctx pid w = Some (None, w')"
    then show "stack w' (ctx_tx ctx # cs) \<and>
      (\<exists>es. hist w' (ctx_tx ctx) = hist w (ctx_tx ctx) @ es \<and> below (CurrentPath ctx) es) \<and>
      all_done rt er pid (ExecuteParticipant i inp out) ctx (phist pid w' (ctx_tx ctx))"
      by (rule participant_first[OF rt]) blast
  qed
next
  case (4 i inp)
  show ?case unfolding first_ok_def
  proof (intro allI impI)
    fix ctx cs w w'
    assume st: "stack w (ctx_tx ctx # cs)" and new: "untouched (CurrentPath ctx) (hist w (ctx_tx ctx))"
      and run: "wf_exec rt (Exec (ConditionDef i inp)) ctx pid w = Some (None, w')"
    let ?c = "WithName ctx ''condition''"
    obtain b where ev: "condition_cachedExecute rt i inp ?c pid w = (Inr b, w')"
      using run by (subst (asm) wf_exec.simps) (auto simp: ConditionDef_Execute_def split: prod.splits sum.splits)
    have st': "stack w (ctx_tx ?c # cs)" using st by simp
    have new': "untouched (CurrentPath ?c) (hist w (ctx_tx ?c))" using untouched_longer[OF new] by simp
    obtain es where "stack w' (ctx_tx ctx # cs)" "hist w' (ctx_tx ctx) = hist w (ctx_tx ctx) @ es"
      "placed (CurrentPath ctx @ [''condition'', i]) es" "cond_done rt er pid i inp ?c (phist pid w' (ctx_tx ctx)) b"
      by (rule condition_first[OF rt st' new' ev]) simp
    then show "stack w' (ctx_tx ctx # cs) \<and>
      (\<exists>es. hist w' (ctx_tx ctx) = hist w (ctx_tx ctx) @ es \<and> below (CurrentPath ctx) es) \<and>
      all_done rt er pid (ConditionDef i inp) ctx (phist pid w' (ctx_tx ctx))"
      using placed_below by auto
  qed
qed simp_all

lemma replayable_again:
  assumes rt: "quiet_rt rt"
  shows "replayable d \<Longrightarrow> again_ok rt pid d"
proof (induction d rule: replayable.induct)
  case (1 ds)
  show ?case unfolding again_ok_def
  proof (intro allI impI)
    fix ctx cs w
    assume st: "stack w (ctx_tx ctx # cs)" and seen: "all_done rt er pid (Sequence ds) ctx (phist pid w (ctx_tx ctx))"
    let ?c = "WithName ctx ''sequence''"
    have all: "\<forall>d \<in> set ds. again_ok rt pid d" using 1 by auto
    have "stack w (ctx_tx ?c # cs)" "\<forall>k < length ds. all_done rt er pid (ds ! k) (WithName ?c (seq_name (0 + k))) (phist pid w (ctx_tx ?c))"
      using st seen by simp_all
    from sequence_again[OF all this] show "\<exists>w'. wf_exec rt (Exec (Sequence ds)) ctx pid w = Some (None, w') \<and> stack w' (ctx_tx ctx # cs) \<and>
      hist w' (ctx_tx ctx) = hist w (ctx_tx ctx) \<and> obs w' = obs w"
      by (subst wf_exec.simps) simp
  qed
next
  case (2 i inp t e)
  show ?case unfolding again_ok_def
  proof (intro allI impI)
    fix ctx cs w
    assume st: "stack w (ctx_tx ctx # cs)"
      and seen: "all_done rt er pid (IfDef (Some (ExecuteCondition i inp)) t e) ctx (phist pid w (ctx_tx ctx))"
    let ?c = "WithName ctx ''if''"
    from seen obtain b where c: "cond_done rt er pid i inp ?c (phist pid w (ctx_tx ctx)) b"
      and br: "case (if b then t else e) of None \<Rightarrow> True
        | Some d \<Rightarrow> all_done rt er pid d (WithName ?c (if b then ''then'' else ''else'')) (phist pid w (ctx_tx ctx))"
      by auto
    let ?c' = "WithName ?c (if b then ''then'' else ''else'')"
    have "stack w (ctx_tx ?c # cs)" "cond_done rt er pid i inp ?c (phist pid w (ctx_tx ?c)) b" using st c by simp_all
    then obtain w1 where w1: "condition_cachedExecute rt i inp ?c pid w = (Inr b, w1)" "stack w1 (ctx_tx ctx # cs)"
      "hist w1 (ctx_tx ctx) = hist w (ctx_tx ctx)" "obs w1 = obs w"
      by (rule condition_again[OF rt]) simp
    show "\<exists>w'. wf_exec rt (Exec (IfDef (Some (ExecuteCondition i inp)) t e)) ctx pid w = Some (None, w') \<and> stack w' (ctx_tx ctx # cs) \<and>
      hist w' (ctx_tx ctx) = hist w (ctx_tx ctx) \<and> obs w' = obs w"
    proof (cases "if b then t else e")
      case None
      with w1 show ?thesis by (subst wf_exec.simps) simp
    next
      case (Some d)
      then have ok: "again_ok rt pid d" using 2 by (auto split: if_splits)
      have "stack w1 (ctx_tx ?c' # cs)" "all_done rt er pid d ?c' (phist pid w1 (ctx_tx ?c'))"
        using w1 br Some by simp_all
      from again_okD[OF ok this] obtain w2 where "wf_exec rt (Exec d) ?c' pid w1 = Some (None, w2)" "stack w2 (ctx_tx ctx # cs)"
        "hist w2 (ctx_tx ctx) = hist w1 (ctx_tx ctx)" "obs w2 = obs w1"
        by (simp only: WithName_simps) blast
      with w1 Some show ?thesis by (subst wf_exec.simps) simp
    qed
  qed
next
  case (3 i inp out)
  show ?case unfolding again_ok_def   proof (intro allI impI)
    fix ctx cs w
    assume "stack w (ctx_tx ctx # cs)" "all_done rt er pid (ExecuteParticipant i inp out) ctx (phist pid w (ctx_tx ctx))"
    then show "\<exists>w'. wf_exec rt (Exec (ExecuteParticipant i inp out)) ctx pid w = Some (None, w') \<and> stack w' (ctx_tx ctx # cs) \<and>
      hist w' (ctx_tx ctx) = hist w (ctx_tx ctx) \<and> obs w' = obs w"
      by (rule participant_again[OF rt]) blast
  qed
next
  case (4 i inp)
  show ?case unfolding again_ok_def
  proof (intro allI impI)
    fix ctx cs w
    assume st: "stack w (ctx_tx ctx # cs)"
      and seen: "all_done rt er pid (ConditionDef i inp) ctx (phist pid w (ctx_tx ctx))"
    let ?c = "WithName ctx ''condition''"
    from seen obtain b where "stack w (ctx_tx ?c # cs)" "cond_done rt er pid i inp ?c (phist pid w (ctx_tx ?c)) b"
      using st by auto
    then obtain w1 where "condition_cachedExecute rt i inp ?c pid w = (Inr b, w1)" "stack w1 (ctx_tx ctx # cs)"
      "hist w1 (ctx_tx ctx) = hist w (ctx_tx ctx)" "obs w1 = obs w"
      by (rule condition_again[OF rt]) simp
    then show "\<exists>w'. wf_exec rt (Exec (ConditionDef i inp)) ctx pid w = Some (None, w') \<and> stack w' (ctx_tx ctx # cs) \<and>
      hist w' (ctx_tx ctx) = hist w (ctx_tx ctx) \<and> obs w' = obs w"
      by (subst wf_exec.simps) (simp add: ConditionDef_Execute_def)
  qed
qed simp_all

text \<open>
  A definition that ran to its end is not run again: whatever has been recorded since, executing it calls
  no participant and no condition, and records nothing.
\<close>

lemma replay_no_op:
  assumes "quiet_rt rt" "pid \<noteq> 0" "replayable d"
    and "stack w (ctx_tx ctx # cs)" "untouched (CurrentPath ctx) (hist w (ctx_tx ctx))"
    and "wf_exec rt (Exec d) ctx pid w = Some (None, w1)"
    and "stack w2 (ctx_tx ctx' # cs')" "CurrentPath ctx' = CurrentPath ctx" "VarScope ctx' = VarScope ctx"
    and "phist pid w2 (ctx_tx ctx') = phist pid w1 (ctx_tx ctx) @ es"
  obtains w3 where "wf_exec rt (Exec d) ctx' pid w2 = Some (None, w3)" "stack w3 (ctx_tx ctx' # cs')"
    "hist w3 (ctx_tx ctx') = hist w2 (ctx_tx ctx')" "obs w3 = obs w2"
proof -
  have ctx: "ctx' = ctx\<lparr>ctx_tx := ctx_tx ctx'\<rparr>" using assms(8,9) by simp
  have "all_done rt er pid d ctx (phist pid w1 (ctx_tx ctx))"
    using first_okD[OF replayable_first[OF assms(1-3)] assms(4-6)] by blast
  then have "all_done rt er pid d ctx (phist pid w2 (ctx_tx ctx'))" unfolding assms(10) by (rule all_done_append)
  then have "all_done rt er pid d ctx' (phist pid w2 (ctx_tx ctx'))" by (subst ctx) (simp only: all_done_tx)
  from again_okD[OF replayable_again[OF assms(1,3)] assms(7) this] that show ?thesis by blast
qed

end

section \<open>A process that has ended\<close>

fun bound_definition :: "'v wf_event \<Rightarrow> ('v wf_event \<times> 'v wf_def) list" where
  "bound_definition (EventUseDefinition i p t d) = [(EventUseDefinition i p t d, d)]"
| "bound_definition _ = []"

lemma use_definitions_no_errors: "use_definitions (no_errors h) = Inr (concat (map bound_definition h))"
proof (induction h)
  case (Cons e h)
  then show ?case by (cases e) simp_all
qed simp

lemma bound_definition_plain: "\<forall>e \<in> set es. plain_event e \<Longrightarrow> concat (map bound_definition es) = []"
proof (induction es)
  case (Cons e es)
  then show ?case by (cases e) simp_all
qed simp

lemma is_completed_no_errors: "is_completed pid (no_errors h) = Inr (\<exists>i t. EventCompleted i pid t \<in> set h)"
proof (induction h)
  case (Cons e h)
  then show ?case by (cases e) auto
qed simp

context event_store
begin

lemma Complete_Execute_ok:
  assumes "stack w (c # cs)" "pid \<noteq> 0"
  obtains w' es where "Complete_Execute er c pid w = (None, w')" "stack w' (c # cs)" "hist w' c = hist w c @ es" "obs w' = obs w"
    "is_completed pid (no_errors (phist pid w' c)) = Inr True" "\<forall>e \<in> set es. \<exists>i t. e = EventCompleted i pid t" "length es \<le> 1"
    "is_completed pid (no_errors (phist pid w c)) = Inr True \<Longrightarrow> es = []"
proof (cases "is_completed pid (no_errors (phist pid w c)) = Inr True")
  case True
  with assms show ?thesis by (intro that[of w "[]"]) (simp_all add: Complete_Execute_def find)
next
  case False
  obtain i t w' where "record_event er c (\<lambda>i t. EventCompleted i pid t) w = (None, w')" "stack w' (c # cs)"
    "hist w' c = hist w c @ [EventCompleted i pid t]" "obs w' = obs w"
    by (rule record_event_ok[OF assms(1), of "\<lambda>i t. EventCompleted i pid t"]) (use assms(2) in simp_all)
  moreover have "is_completed pid (no_errors (phist pid w c @ [EventCompleted i pid t])) = Inr True"
    unfolding is_completed_no_errors by auto
  ultimately show ?thesis using assms False
    by (intro that[of w' "[EventCompleted i pid t]"]) (simp_all add: Complete_Execute_def find is_completed_no_errors)
qed

lemma processing_ok:
  assumes st: "stack w (ctx_tx ctx # cs)" and pid: "pid \<noteq> 0"
    and cur: "current_definition (sort_Events er) (concat (map bound_definition (phist pid w (ctx_tx ctx)))) = Some (e, d)"
    and run: "wf_exec rt (Exec d) (WithName ctx (itoa (GetEventID e))) pid w = Some (None, w1)"
    and st1: "stack w1 (ctx_tx ctx # cs)"
  obtains w2 es where "rt_processing rt er ctx pid w = Some (None, w2)" "stack w2 (ctx_tx ctx # cs)"
    "hist w2 (ctx_tx ctx) = hist w1 (ctx_tx ctx) @ es" "obs w2 = obs w1"
    "is_completed pid (no_errors (phist pid w2 (ctx_tx ctx))) = Inr True" "\<forall>e \<in> set es. \<exists>i t. e = EventCompleted i pid t" "length es \<le> 1"
    "is_completed pid (no_errors (phist pid w1 (ctx_tx ctx))) = Inr True \<Longrightarrow> es = []"
proof -
  obtain w2 es where c: "Complete_Execute er (ctx_tx ctx) pid w1 = (None, w2)" "stack w2 (ctx_tx ctx # cs)"
    "hist w2 (ctx_tx ctx) = hist w1 (ctx_tx ctx) @ es" "obs w2 = obs w1"
    "is_completed pid (no_errors (phist pid w2 (ctx_tx ctx))) = Inr True" "\<forall>e \<in> set es. \<exists>i t. e = EventCompleted i pid t" "length es \<le> 1"
    "is_completed pid (no_errors (phist pid w1 (ctx_tx ctx))) = Inr True \<Longrightarrow> es = []"
    using Complete_Execute_ok[OF st1 pid] by blast
  have "rt_processing rt er ctx pid w = Some (None, w2)"
    using cur run c(1) by (subst rt_processing.simps) (simp add: find[OF st] use_definitions_no_errors)
  with c show ?thesis using that by blast
qed

lemma Execute_ok:
  assumes "rt_Events rt = Some er" "TryLock rt = None" "ShouldTry rt (ctx_tx ctx) 0 w = (True, w)" "pid \<noteq> 0"
    and "rt_processing rt er ctx pid w = Some (None, w')"
  shows "rt_Execute rt ctx pid w = Some (None, w')"
  using assms
  by (simp add: rt_Execute_def withRetry_def retry_loop.simps rt_execute_def rt_tryLock_def wf_Merge_def List.map_filter_def)

text \<open>
  A process whose definition runs to its end is completed by \<^verbatim>\<open>Execute\<close>, with one completion
  event; executing it again succeeds and records nothing.
\<close>

lemma Execute_twice:
  assumes rt: "quiet_rt rt" "TryLock rt = None" "\<And>n w. ShouldTry rt (ctx_tx ctx) n w = (True, w)" and pid: "pid \<noteq> 0"
    and st: "stack w (ctx_tx ctx # cs)"
    and cur: "current_definition (sort_Events er) (concat (map bound_definition (phist pid w (ctx_tx ctx)))) = Some (e, d)" "replayable d"
    and new: "untouched (CurrentPath ctx @ [itoa (GetEventID e)]) (hist w (ctx_tx ctx))"
    and run: "wf_exec rt (Exec d) (WithName ctx (itoa (GetEventID e))) pid w = Some (None, w1)"
  obtains w2 es w3 where "rt_Execute rt ctx pid w = Some (None, w2)"
    "hist w2 (ctx_tx ctx) = hist w1 (ctx_tx ctx) @ es" "obs w2 = obs w1" "\<forall>e \<in> set es. \<exists>i t. e = EventCompleted i pid t" "length es \<le> 1"
    "rt_Execute rt ctx pid w2 = Some (None, w3)" "hist w3 (ctx_tx ctx) = hist w2 (ctx_tx ctx)" "obs w3 = obs w2"
    "is_completed pid (no_errors (phist pid w2 (ctx_tx ctx))) = Inr True" "stack w2 (ctx_tx ctx # cs)"
proof -
  let ?c = "WithName ctx (itoa (GetEventID e))"
  have er: "rt_Events rt = Some er" using rt(1) by (simp add: quiet_rt_def)
  have "stack w (ctx_tx ?c # cs)" "untouched (CurrentPath ?c) (hist w (ctx_tx ?c))" using st new by simp_all
  from first_okD[OF replayable_first[OF rt(1) pid cur(2)] this run] obtain fs where w1: "stack w1 (ctx_tx ctx # cs)"
    "hist w1 (ctx_tx ctx) = hist w (ctx_tx ctx) @ fs" "below (CurrentPath ?c) fs" "all_done rt er pid d ?c (phist pid w1 (ctx_tx ctx))"
    by auto
  obtain w2 es where w2: "rt_processing rt er ctx pid w = Some (None, w2)" "stack w2 (ctx_tx ctx # cs)"
    "hist w2 (ctx_tx ctx) = hist w1 (ctx_tx ctx) @ es" "obs w2 = obs w1"
    "is_completed pid (no_errors (phist pid w2 (ctx_tx ctx))) = Inr True" "\<forall>e \<in> set es. \<exists>i t. e = EventCompleted i pid t" "length es \<le> 1"
    using processing_ok[OF st pid cur(1) run w1(1)] by metis
  have done2: "all_done rt er pid d ?c (phist pid w2 (ctx_tx ?c))"
    using all_done_append[OF w1(4), of "filter (\<lambda>e. GetProcessID e = pid) es"] w2(3) by simp
  have "stack w2 (ctx_tx ?c # cs)" using w2(2) by simp
  from again_okD[OF replayable_again[OF rt(1) cur(2)] this done2] obtain w2' where again:
    "wf_exec rt (Exec d) ?c pid w2 = Some (None, w2')" "stack w2' (ctx_tx ctx # cs)" "hist w2' (ctx_tx ctx) = hist w2 (ctx_tx ctx)" "obs w2' = obs w2"
    by auto
  have "concat (map bound_definition (filter (\<lambda>e. GetProcessID e = pid) fs)) = []"
    using w1(3) by (intro bound_definition_plain) (auto simp: below_def)
  moreover have "concat (map bound_definition (filter (\<lambda>e. GetProcessID e = pid) es)) = []"
  proof -
    have "\<forall>e \<in> set es. bound_definition e = []" using w2(6) by fastforce
    then show ?thesis by simp
  qed
  ultimately have "concat (map bound_definition (phist pid w2 (ctx_tx ctx))) = concat (map bound_definition (phist pid w (ctx_tx ctx)))"
    using w1(2) w2(3) by simp
  then have cur2: "current_definition (sort_Events er) (concat (map bound_definition (phist pid w2 (ctx_tx ctx)))) = Some (e, d)" using cur(1) by simp
  obtain w3 gs where w3: "rt_processing rt er ctx pid w2 = Some (None, w3)" "hist w3 (ctx_tx ctx) = hist w2' (ctx_tx ctx) @ gs"
    "obs w3 = obs w2'" "is_completed pid (no_errors (phist pid w2' (ctx_tx ctx))) = Inr True \<Longrightarrow> gs = []"
    using processing_ok[OF w2(2) pid cur2 again(1,2)] by metis
  have "gs = []" using w3(4) again(3) w2(5) by simp
  then show ?thesis
    using that[of w2 es w3] Execute_ok[OF er rt(2,3) pid w2(1)] Execute_ok[OF er rt(2,3) pid w3(1)] w2(2-7) w3(2,3) again(3,4) by simp
qed

end

end
