(* ===== verification/WorkflowRepository.thy ===== *)
theory WorkflowRepository imports WorkflowReplay MemoryStack "HOL-Library.Multiset" begin

text \<open>
  \<^verbatim>\<open>adapter/memory/workflow.go\<close>: the in-memory event repository of the workflow engine, a
  \<^verbatim>\<open>Repository\<close> of events that validates what it is given and orders a process's history by
  time, and the engine's properties on it.

  The plain repository \<open>r\<close> is a parameter (its reflective ID accessor, its printed keys); \<open>nil\<close> is the
  event that an iterator yields beside an error. The world is the memory, the number of IDs made so
  far, which is also the time, and anything else. The interface \<^verbatim>\<open>event_store\<close> is interpreted on
  stacks of nested transactions of the memory.
\<close>

section \<open>The repository\<close>

definition validateEvent :: "'v wf_event option \<Rightarrow> go_error option" where
  "validateEvent ptr =
     (case ptr of
        None \<Rightarrow> Some (ErrText ''nil event received'')
      | Some e \<Rightarrow>
          if GetEventID e = 0 then Some (ErrText ''zero workflow event id'')
          else if GetProcessID e = 0 then Some (ErrText ''zero workflow event process id'')
          else if GetTimestamp e = 0 then Some (ErrText ''zero workflow event timestamp'')
          else None)"

definition wer_Create ::
    "('v wf_event, EventID) repository \<Rightarrow> mctx \<Rightarrow> ('v wf_event memory \<times> 'v wf_event option, go_error option) op" where
  "wer_Create r ctx w =
     (case validateEvent (snd w) of Some err \<Rightarrow> (Some err, w) | None \<Rightarrow> repo_Create r ctx w)"

definition wer_Update ::
    "('v wf_event, EventID) repository \<Rightarrow> mctx \<Rightarrow> ('v wf_event memory \<times> 'v wf_event option, go_error option) op" where
  "wer_Update r ctx w =
     (case validateEvent (snd w) of
        Some err \<Rightarrow> (Some err, w)
      | None \<Rightarrow> (case repo_Update r ctx (fst w, the (snd w)) of (err, (m, e)) \<Rightarrow> (err, (m, Some e))))"

definition wer_FindByID ::
    "('v wf_event, EventID) repository \<Rightarrow> mctx \<Rightarrow> EventID \<Rightarrow> 'v wf_event memory \<Rightarrow> go_error + 'v wf_event option" where
  "wer_FindByID r ctx i m = repo_FindByID r ctx i m"

definition wer_DeleteByID ::
    "('v wf_event, EventID) repository \<Rightarrow> mctx \<Rightarrow> EventID \<Rightarrow> ('v wf_event memory, go_error option) op" where
  "wer_DeleteByID r ctx i m = repo_DeleteByID r ctx i m"

definition wer_FindAll ::
    "'v wf_event \<Rightarrow> ('v wf_event, EventID) repository \<Rightarrow> mctx \<Rightarrow> 'v wf_event memory \<Rightarrow> ('v wf_event \<times> go_error option) list" where
  "wer_FindAll nil r ctx m = map (\<lambda>x. case x of Inl err \<Rightarrow> (nil, Some err) | Inr e \<Rightarrow> (e, None)) (repo_FindAll r ctx m)"

text \<open>The library's sort and the clock: the time stamp of the \<open>n\<close>-th event that is made.\<close>

record 'v host =
  host_sort :: "'v event_sort"
  host_clock :: "nat \<Rightarrow> nat"

definition wer_FindByProcessID ::
    "'v host \<Rightarrow> 'v wf_event \<Rightarrow> ('v wf_event, EventID) repository \<Rightarrow> mctx \<Rightarrow> ProcessID \<Rightarrow> 'v wf_event memory \<Rightarrow>
     ('v wf_event \<times> go_error option) list" where
  "wer_FindByProcessID h nil r ctx pid m =
     (case collectE (filter (\<lambda>(e, err). err \<noteq> None \<or> GetProcessID e = pid) (wer_FindAll nil r ctx m)) of
        Inl err \<Rightarrow> [(nil, Some err)]
      | Inr events \<Rightarrow> map (\<lambda>e. (e, None)) (sk_SortBy (host_sort h) events event_Before))"

type_synonym ('v, 's) wer_world = "'v wf_event memory \<times> nat \<times> 's"

definition WorkflowEventRepository ::
    "'v host \<Rightarrow> 'v wf_event \<Rightarrow> ('v wf_event, EventID) repository \<Rightarrow> ('v, mctx, ('v, 's) wer_world) EventRepository" where
  "WorkflowEventRepository h nil r =
     \<lparr>er_BeginTx = \<lambda>ctx. on_fst (mem_BeginTx ctx),
      er_CommitTx = \<lambda>ctx. on_fst (mem_CommitTx ctx),
      er_RollbackTx = \<lambda>ctx. on_fst (mem_RollbackTx ctx),
      er_Create = \<lambda>ctx e w. (case wer_Create r ctx (fst w, Some e) of (err, (m, _)) \<Rightarrow> (err, (m, snd w))),
      er_FindByProcessID = \<lambda>ctx pid w. (wer_FindByProcessID h nil r ctx pid (fst w), w),
      MakeEventID = \<lambda>(m, n, s). (Inr (Suc n), (m, Suc n, s)),
      clock_Now = \<lambda>(m, n, s). (host_clock h n, (m, n, s)),
      sort_Events = host_sort h\<rparr>"

section \<open>The history that a context sees\<close>

definition wer_hist ::
    "('v wf_event, EventID) repository \<Rightarrow> ('v, 's) wer_world \<Rightarrow> mctx \<Rightarrow> 'v wf_event list" where
  "wer_hist r w c = sort_key GetTimestamp (mem_All (fst w) c (repo_ns r))"

text \<open>
  The sort is one, and the clock moves on from event to event. Events are stored under their own ID, with the time at
  which they were made.
\<close>

definition host_ok :: "'v host \<Rightarrow> bool" where
  "host_ok h \<longleftrightarrow> sort_Slice (host_sort h) \<and> strict_mono (host_clock h)"

definition events_keyed :: "(nat \<Rightarrow> nat) \<Rightarrow> ('v wf_event, EventID) repository \<Rightarrow> nat \<Rightarrow> (string \<Rightarrow> 'v wf_event option) \<Rightarrow> bool" where
  "events_keyed clk r n t \<longleftrightarrow>
     (\<forall>k e. t k = Some e \<longrightarrow> k = IDToMemoryKey r (GetEventID e) \<and> GetTimestamp e = clk (GetEventID e) \<and> GetEventID e \<le> n)"

definition event_IDs :: "('v wf_event, EventID) repository \<Rightarrow> bool" where
  "event_IDs r \<longleftrightarrow> inj (IDToMemoryKey r) \<and> zeroID r = 0 \<and> (\<forall>e. Accessor_Get (IDA r) e = GetEventID e)"

definition wer_stack :: "'v host \<Rightarrow> ('v wf_event, EventID) repository \<Rightarrow> ('v, 's) wer_world \<Rightarrow> mctx list \<Rightarrow> bool" where
  "wer_stack h r w cs \<longleftrightarrow>
     host_ok h \<and> event_IDs r \<and> mem_stack (fst w) cs \<and>
     (cs \<noteq> [] \<longrightarrow> events_keyed (host_clock h) r (fst (snd w)) (mem_Get (fst w) (hd cs) (repo_ns r)))"

lemma mem_All_values:
  assumes "mem_open m c"
  obtains g where "gm_wf g" "mem_All m c ns = map snd g" "mem_Get m c ns = map_of g"
proof -
  let ?g = "act_all (ctx_actions m c) m ns"
  have "gm_wf ?g" by (simp add: act_all_def split: memory_actions.split)
  moreover have "mem_All m c ns = map snd ?g"
    using assms by (auto simp: mem_open_def mem_All_def mem_toTSlice_def ctx_actions_def act_all_def split: option.splits)
  moreover have "mem_Get m c ns = map_of ?g"
    using mem_open_actions(1,2)[OF assms] act.lookup_all by (auto simp: fun_eq_iff)
  ultimately show ?thesis by (rule that)
qed

text \<open>A keyed table lists each event once, and times are different.\<close>

lemma mem_All_keyed:
  assumes "mem_open m c" "events_keyed clk r n (mem_Get m c (repo_ns r))" "inj (IDToMemoryKey r)" "strict_mono clk"
  shows "distinct (mem_All m c (repo_ns r))" "set (mem_All m c (repo_ns r)) = ran (mem_Get m c (repo_ns r))"
    "inj_on GetTimestamp (set (mem_All m c (repo_ns r)))"
    "\<forall>e \<in> set (mem_All m c (repo_ns r)). GetTimestamp e \<le> clk n"
proof -
  have mono: "i \<le> j \<Longrightarrow> clk i \<le> clk j" "clk i = clk j \<Longrightarrow> i = j" for i j
    using assms(4) by (simp_all add: strict_mono_less_eq strict_mono_eq)
  obtain g where g: "gm_wf g" "mem_All m c (repo_ns r) = map snd g" "mem_Get m c (repo_ns r) = map_of g"
    using mem_All_values[OF assms(1)] by blast
  have key: "k = IDToMemoryKey r (GetEventID e) \<and> GetTimestamp e = clk (GetEventID e) \<and> GetEventID e \<le> n" if "(k, e) \<in> set g" for k e
    using that assms(2) g(1,3) by (simp add: events_keyed_def gm_wf_def)
  have "inj_on snd (set g)"
  proof (rule inj_onI)
    fix x y assume "x \<in> set g" "y \<in> set g" "snd x = snd y"
    then show "x = y" using key[of "fst x" "snd x"] key[of "fst y" "snd y"] by (metis prod.collapse)
  qed
  with g show "distinct (mem_All m c (repo_ns r))" by (simp add: distinct_map gm_wf_def)
  show "set (mem_All m c (repo_ns r)) = ran (mem_Get m c (repo_ns r))" by (rule mem_All_open[OF assms(1)])
  show "\<forall>e \<in> set (mem_All m c (repo_ns r)). GetTimestamp e \<le> clk n" using key mono(1) by (auto simp: g(2))
  have same: "e = e'" if e: "(k, e) \<in> set g" "(k', e') \<in> set g" and t: "GetTimestamp e = GetTimestamp e'" for k k' e e'
  proof -
    have "k = k'" using key[OF e(1)] key[OF e(2)] t mono(2) by metis
    with e g(1) show ?thesis by (metis gm_wf_def map_of_is_SomeI option.inject)
  qed
  show "inj_on GetTimestamp (set (mem_All m c (repo_ns r)))"
    by (rule inj_onI) (use same in \<open>auto simp: g(2)\<close>)
qed

text \<open>A new event goes to the end of the history.\<close>

lemma wer_hist_append:
  assumes op: "mem_open m c" "mem_open m' c" and keyed: "events_keyed clk r n (mem_Get m c (repo_ns r))" and inj: "inj (IDToMemoryKey r)"
    and clk: "strict_mono clk" and e: "GetEventID e = Suc n" "GetTimestamp e = clk (Suc n)"
    and m': "mem_Get m' c (repo_ns r) = (mem_Get m c (repo_ns r))(IDToMemoryKey r (Suc n) \<mapsto> e)"
  shows "events_keyed clk r (Suc n) (mem_Get m' c (repo_ns r))" "mem_Get m c (repo_ns r) (IDToMemoryKey r (Suc n)) = None"
    "sort_key GetTimestamp (mem_All m' c (repo_ns r)) = sort_key GetTimestamp (mem_All m c (repo_ns r)) @ [e]"
proof -
  let ?t = "mem_Get m c (repo_ns r)" and ?t' = "mem_Get m' c (repo_ns r)"
  let ?xs = "mem_All m c (repo_ns r)" and ?xs' = "mem_All m' c (repo_ns r)"
  show k': "events_keyed clk r (Suc n) ?t'" using keyed e by (fastforce simp: events_keyed_def m')
  have fresh: "?t (IDToMemoryKey r (Suc n)) = None"
  proof (cases "?t (IDToMemoryKey r (Suc n))")
    case (Some x)
    then have "IDToMemoryKey r (Suc n) = IDToMemoryKey r (GetEventID x) \<and> GetEventID x \<le> n"
      using keyed unfolding events_keyed_def by blast
    then show ?thesis using injD[OF inj, of "Suc n" "GetEventID x"] by simp
  qed simp
  then show "?t (IDToMemoryKey r (Suc n)) = None" .
  note X = mem_All_keyed[OF op(1) keyed inj clk]
  have later: "clk n < clk (Suc n)" using clk by (simp add: strict_mono_less)
  note X' = mem_All_keyed[OF op(2) k' inj clk]
  have ran: "ran ?t' = insert e (ran ?t)" unfolding m' using fresh by (rule ran_map_upd)
  have new: "e \<notin> set ?xs" using X(4) e(2) later by force
  have "set ?xs' = set (sort_key GetTimestamp ?xs @ [e])" using ran X(2) X'(2) by simp
  moreover have "distinct (sort_key GetTimestamp ?xs @ [e])" using X(1) new by simp
  ultimately have "mset ?xs' = mset (sort_key GetTimestamp ?xs @ [e])"
    using X'(1) by (simp only: set_eq_iff_mset_eq_distinct)
  moreover have "sorted (map GetTimestamp (sort_key GetTimestamp ?xs @ [e]))"
    using X(4) e(2) later by (fastforce simp: sorted_append)
  ultimately show "sort_key GetTimestamp ?xs' = sort_key GetTimestamp ?xs @ [e]"
    using X'(3) by (intro sort_key_inj_key_eq) auto
qed

lemma wer_FindByProcessID_ok:
  assumes "mem_open m c" "ctx_Err m c = None" "host_ok h" "event_IDs r" "events_keyed (host_clock h) r n (mem_Get m c (repo_ns r))"
  shows "wer_FindByProcessID h nil r c pid m =
    map (\<lambda>e. (e, None)) (filter (\<lambda>e. GetProcessID e = pid) (sort_key GetTimestamp (mem_All m c (repo_ns r))))"
proof -
  let ?es = "filter (\<lambda>e. GetProcessID e = pid) (mem_All m c (repo_ns r))"
  have "filter (\<lambda>(e, err). err \<noteq> None \<or> GetProcessID e = pid) (wer_FindAll nil r c m) = no_errors ?es"
    by (simp add: wer_FindAll_def repo_FindAll_open[OF assms(1,2)] filter_map o_def)
  moreover have "inj_on GetTimestamp (set ?es)"
    using mem_All_keyed(3)[OF assms(1,5)] assms(3,4) by (auto simp: event_IDs_def host_ok_def intro: inj_on_subset)
  then have "sk_SortBy (host_sort h) ?es event_Before = sort_key GetTimestamp ?es"
    using assms(3) by (intro sk_SortBy_inj) (simp add: host_ok_def)
  ultimately show ?thesis by (simp add: wer_FindByProcessID_def filter_sort)
qed

text \<open>Contexts with the same view have the same history, although they may list it differently.\<close>

lemma wer_hist_view:
  assumes "mem_open (fst w) c" "mem_open (fst w') c'" "events_keyed clk r n (mem_Get (fst w) c (repo_ns r))" "event_IDs r" "strict_mono clk"
    and "mem_Get (fst w') c' = mem_Get (fst w) c"
  shows "wer_hist r w' c' = wer_hist r w c"
proof -
  have inj: "inj (IDToMemoryKey r)" using assms(4) by (simp add: event_IDs_def)
  note X = mem_All_keyed[OF assms(1,3) inj assms(5)]
  have "events_keyed clk r n (mem_Get (fst w') c' (repo_ns r))" using assms(3,6) by simp
  note X' = mem_All_keyed[OF assms(2) this inj assms(5)]
  have "mset (mem_All (fst w') c' (repo_ns r)) = mset (mem_All (fst w) c (repo_ns r))"
    using X(1,2) X'(1,2) assms(6) by (simp add: set_eq_iff_mset_eq_distinct[symmetric])
  then show ?thesis unfolding wer_hist_def using X'(3) by (intro sort_key_inj_key_eq) auto
qed

interpretation memlog: event_store "WorkflowEventRepository h nil r" "wer_stack h r" "wer_hist r" "\<lambda>w. snd (snd w)"
proof
  fix w :: "('a, 'b) wer_world" and c cs
  assume st: "wer_stack h r w (c # cs)"
  then have ms: "mem_stack (fst w) (c # cs)" by (simp add: wer_stack_def)
  obtain c' m' where b: "mem_BeginTx c (fst w) = ((c', None), m')" "mem_stack m' (c' # c # cs)"
    "mem_Get m' c' = mem_Get (fst w) c" using mem_stack_BeginTx[OF ms] by blast
  have h: "mem_open (fst w) c" "mem_open m' c'" using ms b(2) by simp_all
  have "wer_stack h r (m', snd w) (c' # c # cs)" using st b(2,3) by (simp add: wer_stack_def)
  moreover have "wer_hist r (m', snd w) c' = wer_hist r w c"
    using st b(3) h by (intro wer_hist_view[where n = "fst (snd w)" and clk = "host_clock h"]) (auto simp: wer_stack_def host_ok_def)
  ultimately show "\<exists>c' w'. er_BeginTx (WorkflowEventRepository h nil r) c w = ((c', None), w') \<and> wer_stack h r w' (c' # c # cs) \<and>
      wer_hist r w' c' = wer_hist r w c \<and> snd (snd w') = snd (snd w)"
    using b(1) by (intro exI[of _ c'] exI[of _ "(m', snd w)"]) (simp add: WorkflowEventRepository_def on_fst_def)
next
  fix w :: "('a, 'b) wer_world" and c' c cs
  assume st: "wer_stack h r w (c' # c # cs)"
  then have ms: "mem_stack (fst w) (c' # c # cs)" by (simp add: wer_stack_def)
  obtain m' where b: "mem_CommitTx c' (fst w) = (None, m')" "mem_stack m' (c # cs)" "mem_Get m' c = mem_Get (fst w) c'"
    using mem_stack_CommitTx[OF ms] by blast
  have h: "mem_open (fst w) c'" "mem_open m' c" using ms b(2) by simp_all
  have "wer_stack h r (m', snd w) (c # cs)" using st b(2,3) by (simp add: wer_stack_def)
  moreover have "wer_hist r (m', snd w) c = wer_hist r w c'"
    using st b(3) h by (intro wer_hist_view[where n = "fst (snd w)" and clk = "host_clock h"]) (auto simp: wer_stack_def host_ok_def)
  ultimately show "\<exists>w'. er_CommitTx (WorkflowEventRepository h nil r) c' w = (None, w') \<and> wer_stack h r w' (c # cs) \<and>
      wer_hist r w' c = wer_hist r w c' \<and> snd (snd w') = snd (snd w)"
    using b(1) by (intro exI[of _ "(m', snd w)"]) (simp add: WorkflowEventRepository_def on_fst_def)
next
  fix w :: "('a, 'b) wer_world" and c cs pid
  assume "wer_stack h r w (c # cs)"
  then have "wer_FindByProcessID h nil r c pid (fst w) = no_errors (filter (\<lambda>e. GetProcessID e = pid) (wer_hist r w c))"
    unfolding wer_hist_def by (intro wer_FindByProcessID_ok[where n = "fst (snd w)"]) (simp_all add: wer_stack_def)
  then show "er_FindByProcessID (WorkflowEventRepository h nil r) c pid w =
      (no_errors (filter (\<lambda>e. GetProcessID e = pid) (wer_hist r w c)), w)"
    by (simp add: WorkflowEventRepository_def)
next
  fix w :: "('a, 'b) wer_world" and c cs
  assume st: "wer_stack h r w (c # cs)"
  obtain m n s where w: "w = (m, n, s)" by (cases w) auto
  have ms: "mem_stack m (c # cs)" "event_IDs r" "events_keyed (host_clock h) r n (mem_Get m c (repo_ns r))" "mem_open m c" "ctx_Err m c = None"
      "host_ok h"
    using st by (auto simp: w wer_stack_def)
  have clk: "strict_mono (host_clock h)" using ms(6) by (simp add: host_ok_def)
  have now: "host_clock h (Suc n) \<noteq> 0" using strict_monoD[OF clk, of n "Suc n"] by simp
  have "\<exists>w3. er_Create (WorkflowEventRepository h nil r) c e (m, Suc n, s) = (None, w3) \<and> wer_stack h r w3 (c # cs) \<and>
      wer_hist r w3 c = wer_hist r w c @ [e] \<and> snd (snd w3) = s"
    if e: "GetEventID e = Suc n" "GetTimestamp e = host_clock h (Suc n)" "GetProcessID e \<noteq> 0" for e
  proof -
    let ?m = "mem_Set c (repo_ns r) (IDToMemoryKey r (Suc n)) e m"
    note S = mem_stack_Set[OF ms(1), of "repo_ns r" "IDToMemoryKey r (Suc n)" e]
    have view: "mem_Get ?m c (repo_ns r) = (mem_Get m c (repo_ns r))(IDToMemoryKey r (Suc n) \<mapsto> e)"
      using S(2) by (simp add: kv_put_def)
    have "inj (IDToMemoryKey r)" "mem_open ?m c" using ms(2) S(1) by (simp_all add: event_IDs_def)
    note A = wer_hist_append[OF ms(4) this(2) ms(3) this(1) clk e(1,2) view]
    have "repo_create r c (m, e) = (None, (?m, e))"
      using ms(2,4,5) e(1) A(2) by (simp add: repo_create_def event_IDs_def repo_FindByID_open)
    then have "er_Create (WorkflowEventRepository h nil r) c e (m, Suc n, s) = (None, (?m, Suc n, s))"
      using e now by (simp add: WorkflowEventRepository_def wer_Create_def validateEvent_def repo_Create_def)
    moreover have "wer_stack h r (?m, Suc n, s) (c # cs)" using S(1) A(1) ms(2,6) by (simp add: wer_stack_def)
    moreover have "wer_hist r (?m, Suc n, s) c = wer_hist r w c @ [e]" using A(3) by (simp add: wer_hist_def w)
    ultimately show ?thesis by auto
  qed
  then show "\<exists>i t w1 w2. MakeEventID (WorkflowEventRepository h nil r) w = (Inr i, w1) \<and>
      clock_Now (WorkflowEventRepository h nil r) w1 = (t, w2) \<and>
      (\<forall>e. GetEventID e = i \<longrightarrow> GetTimestamp e = t \<longrightarrow> GetProcessID e \<noteq> 0 \<longrightarrow>
        (\<exists>w3. er_Create (WorkflowEventRepository h nil r) c e w2 = (None, w3) \<and> wer_stack h r w3 (c # cs) \<and>
          wer_hist r w3 c = wer_hist r w c @ [e] \<and> snd (snd w3) = snd (snd w)))"
    by (intro exI[of _ "Suc n"] exI[of _ "host_clock h (Suc n)"] exI[of _ "(m, Suc n, s)"]) (simp add: w WorkflowEventRepository_def)
qed

section \<open>Functions that leave the events alone\<close>

text \<open>
  The functions of the registries act on the rest of the world only, return no definition, and a
  participant returns as many values as its signature says.
\<close>

definition outside :: "(('v, 's) wer_world, 'r) op \<Rightarrow> bool" where
  "outside f \<longleftrightarrow> (\<forall>w. fst (snd (f w)) = fst w \<and> fst (snd (snd (f w))) = fst (snd w))"

definition participant_outside :: "('v, mctx, ('v, 's) wer_world) participant \<Rightarrow> bool" where
  "participant_outside p \<longleftrightarrow>
     (\<forall>ctx inp. outside (p_call p ctx inp) \<and>
        (\<forall>w out err w'. p_call p ctx inp w = ((out, err), w') \<longrightarrow>
           (\<forall>def. err \<noteq> Some (DefinitionErr def)) \<and> (err = None \<longrightarrow> length out = p_NumOut p - 1)))"

definition condition_outside :: "('v, mctx, ('v, 's) wer_world) condition_fn \<Rightarrow> bool" where
  "condition_outside c \<longleftrightarrow>
     (\<forall>ctx inp. outside (cf_call c ctx inp) \<and>
        (\<forall>w b err w'. cf_call c ctx inp w = ((b, err), w') \<longrightarrow> (\<forall>def. err \<noteq> Some (DefinitionErr def))))"

definition registry_outside :: "('a, ('v, 's) wer_world) by_id list option \<Rightarrow> ('a \<Rightarrow> bool) \<Rightarrow> bool" where
  "registry_outside rs P \<longleftrightarrow>
     (\<forall>xs r i. rs = Some xs \<longrightarrow> r \<in> set xs \<longrightarrow> outside (r i) \<and> (\<forall>w x w'. r i w = (Inr (Some x), w') \<longrightarrow> P x))"

definition functions_outside :: "('v, mctx, ('v, 's) wer_world) Runtime \<Rightarrow> bool" where
  "functions_outside rt \<longleftrightarrow>
     (\<forall>b. bool_any rt (any_bool rt b) = Some b) \<and>
     registry_outside (ctx_participants rt) participant_outside \<and> registry_outside (ctx_conditions rt) condition_outside"

lemma wer_stack_rest: "fst w' = fst w \<Longrightarrow> fst (snd w') = fst (snd w) \<Longrightarrow> wer_stack h r w' cs = wer_stack h r w cs"
  by (simp add: wer_stack_def)

lemma wer_hist_rest: "fst w' = fst w \<Longrightarrow> wer_hist r w' c = wer_hist r w c"
  by (simp add: wer_hist_def)

lemma outside_quiet: "outside f \<Longrightarrow> memlog.quiet h r f"
  unfolding memlog.quiet_def outside_def using wer_stack_rest wer_hist_rest by metis

lemma registry_outside_quiet:
  assumes "registry_outside rs P" "\<And>x. P x \<Longrightarrow> Q x"
  shows "memlog.quiet_registry h r rs Q"
  unfolding memlog.quiet_registry_def
proof (intro allI impI)
  fix xs reg i assume "rs = Some xs" "reg \<in> set xs"
  then have "outside (reg i)" "\<forall>w x w'. reg i w = (Inr (Some x), w') \<longrightarrow> P x"
    using assms(1) unfolding registry_outside_def by blast+
  then show "memlog.quiet h r (reg i) \<and> (\<forall>w x w'. reg i w = (Inr (Some x), w') \<longrightarrow> Q x)"
    using outside_quiet assms(2) by blast
qed

lemma functions_outside_quiet:
  assumes "functions_outside rt" "rt_Events rt = Some (WorkflowEventRepository h nil r)"
  shows "memlog.quiet_rt h nil r rt"
proof -
  have p: "memlog.quiet_participant h r p" if "participant_outside p" for p
    using that outside_quiet unfolding participant_outside_def memlog.quiet_participant_def by metis
  have c: "memlog.quiet_condition h r p" if "condition_outside p" for p
    using that outside_quiet unfolding condition_outside_def memlog.quiet_condition_def by metis
  have "memlog.quiet_registry h r (ctx_participants rt) (memlog.quiet_participant h r)"
    by (rule registry_outside_quiet[where P = participant_outside]) (use assms(1) p in \<open>auto simp: functions_outside_def\<close>)
  moreover have "memlog.quiet_registry h r (ctx_conditions rt) (memlog.quiet_condition h r)"
    by (rule registry_outside_quiet[where P = condition_outside]) (use assms(1) c in \<open>auto simp: functions_outside_def\<close>)
  ultimately show ?thesis using assms unfolding functions_outside_def memlog.quiet_rt_def by simp
qed

section \<open>Executing a process again\<close>

text \<open>C20: A definition that is made of participants, conditions, sequences and branches only (no SetVar,
  DeleteVar, Spawn, Join or loop), whose functions neither touch the event repository nor return a
  definition, and that has run to its end in a place not used before: executing it again in that place, in
  whatever transaction and whatever has been recorded since, ends without an error, calls nothing outside
  (the rest of the world is unchanged) and records nothing. The repository is the in-memory one, with a
  clock that moves on from event to event.\<close>

theorem wf_replay_no_op:
  assumes "functions_outside rt" "rt_Events rt = Some (WorkflowEventRepository h nil r)" "pid \<noteq> 0" "replayable d"
    and "wer_stack h r w (ctx_tx ctx # cs)" "untouched (CurrentPath ctx) (wer_hist r w (ctx_tx ctx))"
    and "wf_exec rt (Exec d) ctx pid w = Some (None, w1)"
    and "wer_stack h r w2 (ctx_tx ctx' # cs')" "CurrentPath ctx' = CurrentPath ctx" "VarScope ctx' = VarScope ctx"
    and "filter (\<lambda>e. GetProcessID e = pid) (wer_hist r w2 (ctx_tx ctx')) =
         filter (\<lambda>e. GetProcessID e = pid) (wer_hist r w1 (ctx_tx ctx)) @ es"
  shows "\<exists>w3. wf_exec rt (Exec d) ctx' pid w2 = Some (None, w3) \<and>
    wer_hist r w3 (ctx_tx ctx') = wer_hist r w2 (ctx_tx ctx') \<and> snd (snd w3) = snd (snd w2)"
  by (rule memlog.replay_no_op[OF functions_outside_quiet[OF assms(1,2)] assms(3-11)]) blast

text \<open>C21: Execute completes a process whose definition runs to its end, with at most one completion event and
  no other beside those of the definition; executing it again succeeds, calls nothing outside and records
  nothing. For definitions and functions as in the property before, a clock that moves on from event to
  event, no TryLock, and a retry strategy that always allows the attempt.\<close>

theorem wf_Execute_twice:
  assumes "functions_outside rt" "rt_Events rt = Some (WorkflowEventRepository h nil r)" "pid \<noteq> 0" "replayable d"
    and "TryLock rt = None" "\<And>n w. ShouldTry rt (ctx_tx ctx) n w = (True, w)"
    and "wer_stack h r w (ctx_tx ctx # cs)"
    and "use_definitions (wer_FindByProcessID h nil r (ctx_tx ctx) pid (fst w)) = Inr ds" "current_definition (host_sort h) ds = Some (e, d)"
    and "untouched (CurrentPath ctx @ [itoa (GetEventID e)]) (wer_hist r w (ctx_tx ctx))"
    and "wf_exec rt (Exec d) (WithName ctx (itoa (GetEventID e))) pid w = Some (None, w1)"
  shows "\<exists>w2 es w3. rt_Execute rt ctx pid w = Some (None, w2) \<and>
    wer_hist r w2 (ctx_tx ctx) = wer_hist r w1 (ctx_tx ctx) @ es \<and> length es \<le> 1 \<and>
    (\<forall>e \<in> set es. \<exists>i t. e = EventCompleted i pid t) \<and>
    fst (Complete_IsCompleted (WorkflowEventRepository h nil r) (ctx_tx ctx) pid w2) = Inr True \<and>
    rt_Execute rt ctx pid w2 = Some (None, w3) \<and>
    wer_hist r w3 (ctx_tx ctx) = wer_hist r w2 (ctx_tx ctx) \<and> snd (snd w3) = snd (snd w2)"
proof -
  have "wer_FindByProcessID h nil r (ctx_tx ctx) pid (fst w) =
      no_errors (filter (\<lambda>e. GetProcessID e = pid) (wer_hist r w (ctx_tx ctx)))"
    using memlog.find[OF assms(7), where pid = pid and nil = nil] by (simp add: WorkflowEventRepository_def)
  then have cur: "current_definition (sort_Events (WorkflowEventRepository h nil r)) (concat (map bound_definition (filter (\<lambda>e. GetProcessID e = pid) (wer_hist r w (ctx_tx ctx))))) = Some (e, d)"
    using assms(8,9) by (simp add: use_definitions_no_errors WorkflowEventRepository_def)
  obtain w2 es w3 where ran: "rt_Execute rt ctx pid w = Some (None, w2)"
    "wer_hist r w2 (ctx_tx ctx) = wer_hist r w1 (ctx_tx ctx) @ es" "\<forall>e \<in> set es. \<exists>i t. e = EventCompleted i pid t" "length es \<le> 1"
    "rt_Execute rt ctx pid w2 = Some (None, w3)" "wer_hist r w3 (ctx_tx ctx) = wer_hist r w2 (ctx_tx ctx)" "snd (snd w3) = snd (snd w2)"
    "is_completed pid (no_errors (filter (\<lambda>e. GetProcessID e = pid) (wer_hist r w2 (ctx_tx ctx)))) = Inr True"
    "wer_stack h r w2 (ctx_tx ctx # cs)"
    by (rule memlog.Execute_twice[OF functions_outside_quiet[OF assms(1,2)] assms(5,6,3,7) cur assms(4,10,11)])
  have "fst (Complete_IsCompleted (WorkflowEventRepository h nil r) (ctx_tx ctx) pid w2) = Inr True"
    using ran(8) by (simp add: Complete_IsCompleted_def memlog.find[OF ran(9)])
  with ran show ?thesis by blast
qed

text \<open>An order: a payment, and a shipment if the payment is 7; the rest of the world counts the calls.\<close>

definition order_repo :: "(nat wf_event, EventID) repository" where
  "order_repo =
     \<lparr>Namespace = [], TypeName = ''workflow.Event'',
      IDA = \<lparr>acc_fn = None, ext_Lookup = \<lambda>e. (GetEventID e, GetEventID e \<noteq> 0), ext_Set = \<lambda>e i. (e, None)\<rparr>,
      mkID = \<lambda>_. Inl ErrMissingID, ExpectID = False, IDToMemoryKey = itoa, zeroID = 0\<rparr>"

definition order_nil :: "nat wf_event" where
  "order_nil = EventCompleted 0 0 0"

definition order_host :: "nat host" where
  "order_host = \<lparr>host_sort = insertion_sort, host_clock = (\<lambda>n. 10 * n)\<rparr>"

lemma order_host_ok: "host_ok order_host"
  by (simp add: host_ok_def order_host_def insertion_sort_Slice strict_mono_def)

definition order_participant :: "nat list \<Rightarrow> nat \<Rightarrow> (nat, mctx, (nat, nat) wer_world) participant" where
  "order_participant outs n =
     \<lparr>p_rFunc = None, p_NumIn = n, p_NumOut = Suc (length outs),
      p_call = \<lambda>ctx inp w. ((outs, None), (fst w, fst (snd w), Suc (snd (snd w))))\<rparr>"

definition order_condition :: "(nat, mctx, (nat, nat) wer_world) condition_fn" where
  "order_condition =
     \<lparr>cf_rfn = None, cf_call = \<lambda>ctx inp w. ((inp = [7], None), (fst w, fst (snd w), Suc (snd (snd w))))\<rparr>"

definition order_rt :: "(nat, mctx, (nat, nat) wer_world) Runtime" where
  "order_rt =
     \<lparr>rt_Events = Some (WorkflowEventRepository order_host order_nil order_repo),
      ctx_participants = Some [\<lambda>i w. (Inr (if i = ''pay'' then Some (order_participant [7] 1)
                                          else if i = ''ship'' then Some (order_participant [] 2) else None), w)],
      ctx_conditions = Some [\<lambda>i w. (Inr (if i = ''paid'' then Some order_condition else None), w)],
      TryLock = None, Unlock = \<lambda>c w. (None, w), QueuePublish = None, BroadcastStart = None,
      validateValue = \<lambda>w. (None, w), ShouldTry = \<lambda>c n w. (True, w), WaitTime = 0, BindGracePeriod = 0,
      any_bool = \<lambda>b. if b then 1 else 0, bool_any = \<lambda>v. if v = 1 then Some True else if v = 0 then Some False else None,
      MakeProcessID = \<lambda>w. (Inr 9, w), rt_Now = \<lambda>w. (fst (snd w), w)\<rparr>"

definition order_def :: "nat wf_def" where
  "order_def =
     Sequence [ExecuteParticipant ''pay'' [] [''amount''],
               IfDef (Some (ExecuteCondition ''paid'' [''amount''])) (Some (ExecuteParticipant ''ship'' [''amount''] [])) None]"

definition order_start :: "(nat, nat) wer_world" where
  "order_start = (NewMemory ''orders'', 0, 0)"

definition order_bound :: "(nat, nat) wer_world" where
  "order_bound = snd (rt_bind order_rt Background 1 order_def order_start)"

abbreviation order_ctx :: "string list \<Rightarrow> mctx wctx" where
  "order_ctx path \<equiv> \<lparr>ctx_tx = Background, CurrentPath = path, VarScope = []\<rparr>"

lemma order_runs:
  "case wf_exec order_rt (Exec order_def) (order_ctx [''1'']) 1 order_bound of
     Some (None, w) \<Rightarrow> snd (snd w) = 3 | _ \<Rightarrow> False"
  by code_simp

lemma order_event_ID: "map (\<lambda>(e, _). GetEventID e) (wer_FindByProcessID order_host order_nil order_repo Background 1 (fst order_bound)) = [1]"
  by code_simp

lemma order_ran:
  obtains w1 where "wf_exec order_rt (Exec order_def) (order_ctx [''1'']) 1 order_bound = Some (None, w1)" "snd (snd w1) = 3"
  using order_runs by (auto split: option.splits prod.splits)

lemma order_IDs: "event_IDs order_repo"
  by (simp add: event_IDs_def order_repo_def Accessor_Get_def Accessor_Lookup_def inj_def itoa_inj)

lemma order_functions: "functions_outside order_rt"
  by (auto simp: functions_outside_def registry_outside_def order_rt_def outside_def participant_outside_def
      condition_outside_def order_participant_def order_condition_def split: if_splits)

lemma order_start_stack: "wer_stack order_host order_repo order_start [Background]"
  using order_IDs order_host_ok
  by (simp add: wer_stack_def order_start_def mem_open_def ctx_ok_def mem_LookupTx_def tx_above_def ctx_fresh_below_def
      events_keyed_def mem_Get_def mem_lookup_def mem_namespace_def NewMemory_def mem_wf_def gm_get_or_def)

lemma order_start_hist: "wer_hist order_repo order_start Background = []"
  by code_simp

lemma order_bound_ok:
  "wer_stack order_host order_repo order_bound [Background]"
  "\<exists>t. wer_hist order_repo order_bound Background = [EventUseDefinition 1 1 t order_def]"
proof -
  let ?er = "WorkflowEventRepository order_host order_nil order_repo :: (nat, mctx, (nat, nat) wer_world) EventRepository"
  let ?mk = "\<lambda>i t. EventUseDefinition i 1 t order_def"
  obtain i t w' where r: "record_event ?er Background ?mk order_start = (None, w')" "wer_stack order_host order_repo w' [Background]"
    "wer_hist order_repo w' Background = wer_hist order_repo order_start Background @ [?mk i t]"
    by (rule memlog.record_event_ok[OF order_start_stack, of ?mk]) simp_all
  have w': "order_bound = w'"
    using r(1) memlog.find[OF order_start_stack, where pid = 1 and nil = order_nil]
    by (simp add: order_bound_def rt_bind_def order_rt_def order_start_hist)
  have "wer_FindByProcessID order_host order_nil order_repo Background 1 (fst order_bound) = [(?mk i t, None)]"
    using memlog.find[OF r(2), where pid = 1 and nil = order_nil] r(3) w'
    by (simp add: order_start_hist WorkflowEventRepository_def)
  then have "i = 1" using order_event_ID by simp
  then show "wer_stack order_host order_repo order_bound [Background]"
    "\<exists>t. wer_hist order_repo order_bound Background = [EventUseDefinition 1 1 t order_def]"
    using r w' by (simp_all add: order_start_hist)
qed

lemma order_replayable: "replayable order_def"
  by (simp add: order_def_def)

theorem wf_replay_no_op_witness:
  "\<exists>w1 w3. wf_exec order_rt (Exec order_def) (order_ctx [''1'']) 1 order_bound = Some (None, w1) \<and> snd (snd w1) = 3 \<and>
    wf_exec order_rt (Exec order_def) (order_ctx [''1'']) 1 w1 = Some (None, w3) \<and> snd (snd w3) = 3"
proof -
  obtain w1 where w1: "wf_exec order_rt (Exec order_def) (order_ctx [''1'']) 1 order_bound = Some (None, w1)" "snd (snd w1) = 3"
    by (rule order_ran)
  have er: "rt_Events order_rt = Some (WorkflowEventRepository order_host order_nil order_repo)" by (simp add: order_rt_def)
  have new: "untouched (CurrentPath (order_ctx [''1''])) (wer_hist order_repo order_bound (ctx_tx (order_ctx [''1''])))"
    using order_bound_ok(2) by (auto simp: untouched_def)
  have st: "wer_stack order_host order_repo order_bound (ctx_tx (order_ctx [''1'']) # [])" using order_bound_ok(1) by simp
  have st1: "wer_stack order_host order_repo w1 (ctx_tx (order_ctx [''1'']) # [])"
    using memlog.first_okD[OF memlog.replayable_first[OF functions_outside_quiet[OF order_functions er] _ order_replayable] st new w1(1)]
    by simp
  from wf_replay_no_op[OF order_functions er _ order_replayable st new w1(1) st1, of "[]"] w1 show ?thesis by auto
qed

theorem wf_Execute_twice_witness:
  "\<exists>w2 w3. rt_Execute order_rt (order_ctx []) 1 order_bound = Some (None, w2) \<and>
    rt_Execute order_rt (order_ctx []) 1 w2 = Some (None, w3) \<and> snd (snd w3) = snd (snd w2)"
proof -
  obtain w1 where w1: "wf_exec order_rt (Exec order_def) (order_ctx [''1'']) 1 order_bound = Some (None, w1)"
    by (rule order_ran)
  obtain t where h: "wer_hist order_repo order_bound Background = [EventUseDefinition 1 1 t order_def]"
    using order_bound_ok(2) by blast
  let ?e = "EventUseDefinition 1 1 t order_def"
  have er: "rt_Events order_rt = Some (WorkflowEventRepository order_host order_nil order_repo)" by (simp add: order_rt_def)
  have st: "wer_stack order_host order_repo order_bound (ctx_tx (order_ctx []) # [])" using order_bound_ok(1) by simp
  have ev: "use_definitions (wer_FindByProcessID order_host order_nil order_repo (ctx_tx (order_ctx [])) 1 (fst order_bound)) = Inr [(?e, order_def)]"
    using memlog.find[OF st, where pid = 1 and nil = order_nil] h by (simp add: WorkflowEventRepository_def)
  have cur: "current_definition (host_sort order_host) [(?e, order_def)] = Some (?e, order_def)"
    by (simp add: current_definition_def sk_SortBy_def order_host_def insertion_sort_def)
  have one: "itoa 1 = ''1''" by code_simp
  have new: "untouched (CurrentPath (order_ctx []) @ [itoa (GetEventID ?e)]) (wer_hist order_repo order_bound (ctx_tx (order_ctx [])))"
    using h by (simp add: untouched_def)
  have run: "wf_exec order_rt (Exec order_def) (WithName (order_ctx []) (itoa (GetEventID ?e))) 1 order_bound = Some (None, w1)"
    using w1 one by (simp add: WithName_def)
  show ?thesis
    using wf_Execute_twice[OF order_functions er _ order_replayable _ _ st ev cur new run] by (auto simp: order_rt_def)
qed

section \<open>Variables\<close>

lemma gm_del_map_of: "map_of (gm_del k m) = (map_of m)(k := None)"
  by (rule ext) (simp add: gomap_simps)

lemma fold_bindings:
  assumes "gm_wf m"
  shows "gm_wf (fold (binding_event scope) es m) \<and>
    map_option b_Value (map_of (fold (binding_event scope) es m) name) =
      snd (fold (lookup_event scope name) es (s, map_option b_Value (map_of m name)))"
  using assms
proof (induction es arbitrary: m s)
  case (Cons e es)
  let ?m = "binding_event scope e m"
  have "gm_wf ?m" using Cons.prems by (simp add: binding_event_def split: wf_event.split)
  moreover have "map_option b_Value (map_of ?m name) = snd (lookup_event scope name e (s, map_option b_Value (map_of m name)))"
    by (cases e) (simp_all add: binding_event_def lookup_event_def gomap_simps)
  moreover obtain s' where "lookup_event scope name e (s, map_option b_Value (map_of m name)) =
      (s', snd (lookup_event scope name e (s, map_option b_Value (map_of m name))))"
    by (metis prod.collapse)
  ultimately show ?case using Cons.IH[of ?m s'] by simp
qed simp

lemma map_of_sort_key: "distinct (map fst xs) \<Longrightarrow> map_of (sort_key f xs) = map_of xs"
  by (rule map_of_eqI) (auto simp: distinct_map intro: inj_on_subset) 

text \<open>C23: The map of variables that conditions are evaluated on and the lookup of one variable agree on every
  history in the order of time, with a sort that leaves such a history alone, as any sort does when no two events have the
  same time stamp, and a stable one always.\<close>

theorem wf_variables_agree:
  assumes "sorted (map GetTimestamp es)" "sort_Slice srt \<and> distinct (map GetTimestamp es) \<or> srt event_Before es = es"
  shows "map_of (variablesToMap srt ctx es) name = snd (lookupVariable ctx es name)"
proof -
  let ?m = "fold (binding_event (VarScope ctx)) es []"
  have wf: "gm_wf ?m" and val: "map_option b_Value (map_of ?m name) = snd (fold (lookup_event (VarScope ctx) name) es ([], None))"
    using fold_bindings[of "[]" "VarScope ctx" es name "[]"] by (simp_all add: gm_wf_def)
  have "sk_SortBy srt es event_Before = es"
    using assms(2)
  proof
    assume a: "sort_Slice srt \<and> distinct (map GetTimestamp es)"
    then have "inj_on GetTimestamp (set es)" by (simp add: distinct_map)
    from sk_SortBy_inj[OF conjunct1[OF a] this] show ?thesis using assms(1) by (simp add: sort_key_id_if_sorted)
  qed (simp add: sk_SortBy_def)
  then have "map_of (variablesToMap srt ctx es) name = map_option b_Value (map_of (sort_key fst ?m) name)"
    by (simp add: variablesToMap_def eventsToVarBindings_def map_of_map)
  also have "\<dots> = map_option b_Value (map_of ?m name)" using wf by (simp add: map_of_sort_key gm_wf_def)
  finally show ?thesis using val by (simp add: lookupVariable_def)
qed

theorem wf_variables_agree_witness:
  "map_of (variablesToMap insertion_sort (order_ctx []) [EventSetVar 1 1 1 [] ''x'' (5 :: nat) [], EventSetVar 2 1 2 [] ''x'' 6 []]) ''x'' = Some 6"
  by (subst wf_variables_agree) (simp_all add: insertion_sort_Slice lookupVariable_def lookup_event_def MatchPrefix_def)

text \<open>Replaying a sequence that sets a variable to its own value and then to another corrupts it: the second
  step recorded nothing, so the replay takes it for undone and sets the old value again.\<close>

theorem wf_SetVar_replay:
  "case wf_exec order_rt (Exec (Sequence [SetVar ''x'' 1 False, SetVar ''x'' 1 False, SetVar ''x'' 2 False])) (order_ctx []) 1 order_start of
     Some (None, w1) \<Rightarrow>
       fst (Vars_Lookup (WorkflowEventRepository order_host order_nil order_repo) (order_ctx []) 1 ''x'' w1) = Inr (Some 2) \<and>
       (case wf_exec order_rt (Exec (Sequence [SetVar ''x'' 1 False, SetVar ''x'' 1 False, SetVar ''x'' 2 False])) (order_ctx []) 1 w1 of
          Some (None, w2) \<Rightarrow>
            fst (Vars_Lookup (WorkflowEventRepository order_host order_nil order_repo) (order_ctx []) 1 ''x'' w2) = Inr (Some 1)
        | _ \<Rightarrow> False)
   | _ \<Rightarrow> False"
  by code_simp

text \<open>A deletion of a variable that does not exist yet is not recorded either: on a replay it deletes the
  variable that a later step has set.\<close>

lemma wf_DeleteVar_replay:
  "case wf_exec order_rt (Exec (Sequence [DeleteVar ''x'', SetVar ''x'' 1 False])) (order_ctx []) 1 order_start of
     Some (None, w1) \<Rightarrow>
       fst (Vars_Lookup (WorkflowEventRepository order_host order_nil order_repo) (order_ctx []) 1 ''x'' w1) = Inr (Some 1) \<and>
       (case wf_exec order_rt (Exec (Sequence [DeleteVar ''x'', SetVar ''x'' 1 False])) (order_ctx []) 1 w1 of
          Some (None, w2) \<Rightarrow>
            fst (Vars_Lookup (WorkflowEventRepository order_host order_nil order_repo) (order_ctx []) 1 ''x'' w2) = Inr None
        | _ \<Rightarrow> False)
   | _ \<Rightarrow> False"
  by code_simp

section \<open>Retrying and binding\<close>

lemma retry_loop_returns:
  assumes "\<And>n w. k \<le> n \<Longrightarrow> fst (try n w) = False" "\<And>w. body w \<noteq> None"
  shows "\<exists>r. retry_loop try body n err w = Some r"
proof (induction "k - n" arbitrary: n err w)
  case 0
  then have "fst (try n w) = False" using assms(1) by simp
  then show ?case by (subst retry_loop.simps) (cases "try n w", simp)
next
  case (Suc d)
  then have "d = k - Suc n" by simp
  note IH = Suc.hyps(1)[OF this]
  obtain ok w1 ok' w2 where t: "try n w = (ok, w1)" "try n w1 = (ok', w2)" by (metis prod.exhaust)
  obtain e w3 where b: "body w2 = Some (e, w3)" using assms(2)[of w2] by auto
  obtain r where "retry_loop try body (Suc n) e w3 = Some r" using IH by blast
  with t b show ?case by (subst retry_loop.simps) (cases e, simp_all)
qed

text \<open>Bind and Schedule return whatever the repository, the queue and the clock do, when the retry strategy
  allows only finitely many attempts.\<close>

theorem wf_Bind_Schedule_return:
  assumes "\<And>n w. k \<le> n \<Longrightarrow> fst (ShouldTry rt tx n w) = False"
  shows "\<exists>r r'. rt_Bind rt tx pid d w = Some r \<and> rt_Schedule rt tx pid opts w = Some r'"
proof -
  have "\<exists>r. retry_loop (ShouldTry rt tx) (\<lambda>w. Some (f w)) 0 None w = Some r" for f
    using assms by (rule retry_loop_returns) simp_all
  from this[of "rt_bind rt tx pid d"] this[of "rt_schedule rt tx pid opts"] show ?thesis
    by (simp add: rt_Bind_def rt_Schedule_def withRetry_def)
qed

text \<open>When the retry strategy allows no attempt (it asks the context, so on a cancelled context), Bind,
  Schedule and Execute report success and do nothing, and the queue's handler acknowledges the entry, which
  is lost.\<close>

theorem wf_not_tried:
  assumes "\<And>w. ShouldTry rt (ctx_tx ctx) 0 w = (False, w)"
  shows "rt_Bind rt (ctx_tx ctx) pid d w = Some (None, w) \<and> rt_Schedule rt (ctx_tx ctx) pid opts w = Some (None, w) \<and>
    rt_Execute rt ctx pid w = Some (None, w) \<and>
    (msg_ctx msg = ctx \<longrightarrow> StartTime (msg_data msg) = None \<longrightarrow> runSignalHandler rt msg early w = Some (msg_ACK msg w))"
proof -
  have r: "withRetry rt (ctx_tx ctx) body w = Some (None, w)" for body
    by (simp add: withRetry_def retry_loop.simps assms)
  then show ?thesis
    by (auto simp: rt_Bind_def rt_Schedule_def rt_Execute_def runSignalHandler_def guardAgainstEarlyExecution_def handle_result_def FinishTx_def)
qed

lemma has_definition_no_errors: "has_definition (no_errors h) = Inr (concat (map bound_definition h) \<noteq> [])"
proof (induction h)
  case (Cons e h)
  then show ?case by (cases e) simp_all
qed simp

text \<open>C22: The first definition bound to a process wins: binding another one afterwards succeeds, changes nothing,
  and the process keeps the first.\<close>

theorem wf_Bind_first_wins:
  assumes "rt_Events rt = Some (WorkflowEventRepository h nil r)" "pid \<noteq> 0" "\<And>n w. ShouldTry rt c n w = (True, w)"
    and "wer_stack h r w (c # cs)"
  shows "\<exists>w1. rt_Bind rt c pid d1 w = Some (None, w1) \<and> rt_Bind rt c pid d2 w1 = Some (None, w1) \<and>
    (case use_definitions (wer_FindByProcessID h nil r c pid (fst w)) of
       Inr [] \<Rightarrow> (\<exists>e. use_definitions (wer_FindByProcessID h nil r c pid (fst w1)) = Inr [(e, d1)])
     | Inr ds \<Rightarrow> w1 = w
     | Inl err \<Rightarrow> False)"
proof -
  let ?er = "WorkflowEventRepository h nil r" and ?P = "\<lambda>e. GetProcessID e = pid"
  have bind: "rt_Bind rt c pid d w = Some (None, w')" if "rt_bind rt c pid d w = (None, w')" for d w w'
    using that by (simp add: rt_Bind_def withRetry_def retry_loop.simps assms(3))
  have found: "wer_FindByProcessID h nil r c pid (fst v) = no_errors (filter ?P (wer_hist r v c))" if "wer_stack h r v (c # cs)" for v
    using memlog.find[OF that, where pid = pid and nil = nil] by (simp add: WorkflowEventRepository_def)
  have again: "rt_bind rt c pid d v = (None, v)"
    if "wer_stack h r v (c # cs)" "concat (map bound_definition (filter ?P (wer_hist r v c))) \<noteq> []" for v d
  proof -
    have "has_definition (no_errors (filter ?P (wer_hist r v c))) = Inr True" using that(2) by (simp only: has_definition_no_errors) simp
    then show ?thesis using assms(1,2) memlog.find[OF that(1), where pid = pid and nil = nil] by (simp add: rt_bind_def)
  qed
  show ?thesis
  proof (cases "concat (map bound_definition (filter ?P (wer_hist r w c))) = []")
    case True
    let ?mk = "\<lambda>i t. EventUseDefinition i pid t d1"
    obtain i t w' where r: "record_event ?er c ?mk w = (None, w')" "wer_stack h r w' (c # cs)" "wer_hist r w' c = wer_hist r w c @ [?mk i t]"
      by (rule memlog.record_event_ok[OF assms(4), of ?mk]) (use assms(2) in simp_all)
    have "rt_bind rt c pid d1 w = (None, w')"
    proof -
      have "has_definition (no_errors (filter ?P (wer_hist r w c))) = Inr False" using True by (simp only: has_definition_no_errors) simp
      then show ?thesis using assms(1,2) r(1) memlog.find[OF assms(4), where pid = pid and nil = nil] by (simp add: rt_bind_def)
    qed
    moreover have ds: "concat (map bound_definition (filter ?P (wer_hist r w' c))) = [(?mk i t, d1)]" using r(3) True by simp
    moreover have "use_definitions (wer_FindByProcessID h nil r c pid (fst w)) = Inr []"
      by (simp only: found[OF assms(4)] use_definitions_no_errors True)
    moreover have "use_definitions (wer_FindByProcessID h nil r c pid (fst w')) = Inr [(?mk i t, d1)]"
      by (simp only: found[OF r(2)] use_definitions_no_errors ds)
    ultimately show ?thesis using bind bind[OF again[OF r(2)]] by auto
  next
    case False
    have "use_definitions (wer_FindByProcessID h nil r c pid (fst w)) = Inr (concat (map bound_definition (filter ?P (wer_hist r w c))))"
      by (simp only: found[OF assms(4)] use_definitions_no_errors)
    with False bind[OF again[OF assms(4) False]] show ?thesis by (auto split: list.split)
  qed
qed

theorem wf_Bind_first_wins_witness:
  "\<exists>w1 e. rt_Bind order_rt Background 1 order_def order_start = Some (None, w1) \<and>
    rt_Bind order_rt Background 1 (SetVar ''x'' 3 False) w1 = Some (None, w1) \<and>
    use_definitions (wer_FindByProcessID order_host order_nil order_repo Background 1 (fst w1)) = Inr [(e, order_def)]"
proof -
  have "wer_FindByProcessID order_host order_nil order_repo Background 1 (fst order_start) = []"
    using memlog.find[OF order_start_stack, where pid = 1 and nil = order_nil] order_start_hist
    by (simp add: WorkflowEventRepository_def)
  then show ?thesis
    using wf_Bind_first_wins[OF _ _ _ order_start_stack, of order_rt order_nil 1 order_def "SetVar ''x'' 3 False"]
    by (auto simp: order_rt_def)
qed

section \<open>Joining\<close>

lemma join_scan_skip:
  assumes "q \<noteq> path" "\<forall>e \<in> set xs. \<forall>i p t cs ps. e = EventJoin i p t cs ps \<longrightarrow> ps = path"
  shows "\<exists>ch. join_scan P path acc (no_errors (xs @ EventJoin i p t cs q # ys)) = Inr (ch, True)"
  using assms(2)
proof (induction xs arbitrary: acc)
  case Nil
  then show ?case using assms(1) by simp
next
  case (Cons e xs)
  then show ?case by (cases e) simp_all
qed

text \<open>A join whose history has a join event of another path, so the second join of a workflow, ends at once
  without looking at its child: the comparison of the paths is inverted.\<close>

theorem wf_Join_skipped:
  assumes "rt_Events rt = Some er" "name \<noteq> []"
    and "er_FindByProcessID er (ctx_tx ctx) pid w = (no_errors (xs @ EventJoin i p t cs q # ys), w1)"
    and "q \<noteq> CurrentPath ctx @ [''join'', name]"
    and "\<forall>e \<in> set xs. \<forall>i p t cs ps. e = EventJoin i p t cs ps \<longrightarrow> ps = CurrentPath ctx @ [''join'', name]"
  shows "Join_Execute rt name collect ctx pid w = (None, w1)"
proof -
  obtain ch where "join_scan (\<lambda>n. n = name) (CurrentPath ctx @ [''join'', name]) [] (no_errors (xs @ EventJoin i p t cs q # ys)) = Inr (ch, True)"
    using join_scan_skip[OF assms(4,5)] by blast
  then show ?thesis using assms(1-3)
    by (cases ch) (simp_all add: Join_Execute_def joinChild_def LookupEventsRepository_def Let_def)
qed

definition joined_rt :: "(nat, mctx, (nat, nat) wer_world) Runtime" where
  "joined_rt = order_rt\<lparr>rt_Events := Some ((WorkflowEventRepository order_host order_nil order_repo)
     \<lparr>er_FindByProcessID := \<lambda>c p w. (no_errors [EventSpawn 1 1 1 7 ''a'', EventSpawn 2 1 2 8 ''b'', EventJoin 3 1 3 [7] [''join'', ''a'']], w)\<rparr>)\<rparr>"

end
