(* ===== verification/WorkflowStore.thy ===== *)
theory WorkflowStore imports WorkflowRepository begin

text \<open>
  What the in-memory event repository of \<^verbatim>\<open>adapter/memory/workflow.go\<close> holds after any sequence of
  its operations, in transactions at any depth, and what its readers may rely on: \<^verbatim>\<open>validateEvent\<close>
  guards every write, and commits move only what was written.
\<close>

section \<open>The programs that use the repository\<close>

text \<open>
  A program derives contexts from those it holds and cancels them as it likes, begins, commits and rolls
  back transactions, nested or not and in any order, and calls Create, Update and DeleteByID with any
  argument; nobody else has the repository's own memory.
\<close>

inductive wer_reach :: "('v wf_event, EventID) repository \<Rightarrow> 'v wf_event memory \<Rightarrow> mctx set \<Rightarrow> bool"
  for r :: "('v wf_event, EventID) repository" where
  start: "wer_reach r (NewMemory ns) {Background}"
| with_cancel: "wer_reach r m C \<Longrightarrow> c \<in> C \<Longrightarrow> context_WithCancel c m = ((c', i), m') \<Longrightarrow> wer_reach r m' (insert c' C)"
| with_value: "wer_reach r m C \<Longrightarrow> c \<in> C \<Longrightarrow> k \<noteq> mem_NS m \<Longrightarrow> wer_reach r m (insert (WithValueCtx k v c) C)"
| detached: "wer_reach r m C \<Longrightarrow> c \<in> C \<Longrightarrow> wer_reach r m (insert (contextkit_WithoutCancel c) C)"
| cancel: "wer_reach r m C \<Longrightarrow> wer_reach r (context_cancel i m) C"
| begin_tx: "wer_reach r m C \<Longrightarrow> c \<in> C \<Longrightarrow> mem_BeginTx c m = ((c', e), m') \<Longrightarrow> wer_reach r m' (insert c' C)"
| commit_tx: "wer_reach r m C \<Longrightarrow> c \<in> C \<Longrightarrow> mem_CommitTx c m = (e, m') \<Longrightarrow> wer_reach r m' C"
| rollback_tx: "wer_reach r m C \<Longrightarrow> c \<in> C \<Longrightarrow> mem_RollbackTx c m = (e, m') \<Longrightarrow> wer_reach r m' C"
| create: "wer_reach r m C \<Longrightarrow> c \<in> C \<Longrightarrow> wer_Create r c (m, ptr) = (e, (m', ptr')) \<Longrightarrow> wer_reach r m' C"
| update: "wer_reach r m C \<Longrightarrow> c \<in> C \<Longrightarrow> wer_Update r c (m, ptr) = (e, (m', ptr')) \<Longrightarrow> wer_reach r m' C"
| delete: "wer_reach r m C \<Longrightarrow> c \<in> C \<Longrightarrow> wer_DeleteByID r c i m = (e, m') \<Longrightarrow> wer_reach r m' C"

text \<open>An event with an ID, a process and a time, kept under the key of its own ID.\<close>

definition event_stored :: "('v wf_event, EventID) repository \<Rightarrow> string \<Rightarrow> 'v wf_event \<Rightarrow> bool" where
  "event_stored r k e \<longleftrightarrow>
     k = IDToMemoryKey r (GetEventID e) \<and> GetEventID e \<noteq> 0 \<and> GetProcessID e \<noteq> 0 \<and> GetTimestamp e \<noteq> 0"

lemma validateEvent_ok:
  "validateEvent ptr = None \<longleftrightarrow> (\<exists>e. ptr = Some e \<and> GetEventID e \<noteq> 0 \<and> GetProcessID e \<noteq> 0 \<and> GetTimestamp e \<noteq> 0)"
  by (auto simp: validateEvent_def split: option.split)

text \<open>A Create or Update leaves the memory alone or writes one such event; a DeleteByID takes at most one out.\<close>

lemma wer_Create_effect:
  assumes "event_IDs r" "wer_Create r c (m, ptr) = (err, (m', ptr'))"
  shows "m' = m \<or> (\<exists>k e. event_stored r k e \<and> m' = mem_Set c (repo_ns r) k e m)"
proof (cases "validateEvent ptr")
  case None
  then obtain e where e: "ptr = Some e" "GetEventID e \<noteq> 0" "GetProcessID e \<noteq> 0" "GetTimestamp e \<noteq> 0"
    by (auto simp: validateEvent_ok)
  obtain err' m1 e' where c: "repo_create r c (m, e) = (err', (m1, e'))" by (metis prod.exhaust)
  then have "m1 = m \<or> m1 = mem_Set c (repo_ns r) (IDToMemoryKey r (GetEventID e)) e m"
    using assms(1) e(2) by (auto simp: repo_create_def event_IDs_def Let_def split: option.splits sum.splits)
  then show ?thesis using assms(2) None e c by (auto simp: wer_Create_def repo_Create_def event_stored_def)
qed (use assms(2) in \<open>simp add: wer_Create_def\<close>)

lemma wer_Update_effect:
  assumes "event_IDs r" "wer_Update r c (m, ptr) = (err, (m', ptr'))"
  shows "m' = m \<or> (\<exists>k e. event_stored r k e \<and> m' = mem_Set c (repo_ns r) k e m)"
proof (cases "validateEvent ptr")
  case None
  then obtain e where e: "ptr = Some e" "GetEventID e \<noteq> 0" "GetProcessID e \<noteq> 0" "GetTimestamp e \<noteq> 0"
    by (auto simp: validateEvent_ok)
  obtain err' m1 e' where u: "repo_Update r c (m, e) = (err', (m1, e'))" by (metis prod.exhaust)
  moreover have "fst (Accessor_Lookup (IDA r) e) = GetEventID e"
    using assms(1) by (simp add: event_IDs_def Accessor_Get_def flip: fst_def)
  ultimately have "m1 = m \<or> m1 = mem_Set c (repo_ns r) (IDToMemoryKey r (GetEventID e)) e m"
    by (auto simp: repo_Update_def split: prod.splits bool.splits sum.splits option.splits)
  then show ?thesis using assms(2) None e u by (auto simp: wer_Update_def event_stored_def)
qed (use assms(2) in \<open>simp add: wer_Update_def\<close>)

lemma wer_DeleteByID_effect:
  assumes "wer_DeleteByID r c i m = (err, m')"
  shows "m' = m \<or> m' = snd (mem_Del c (repo_ns r) (IDToMemoryKey r i) m)"
  using assms by (auto simp: wer_DeleteByID_def repo_DeleteByID_def split: option.splits prod.splits bool.splits)

section \<open>The invariant\<close>

lemma wer_reach_inv:
  assumes "wer_reach r m C" "event_IDs r"
  shows "mem_reach m C \<and> mem_holds (repo_ns r) (event_stored r) m"
  using assms(1)
proof (induction rule: wer_reach.induct)
  case (start ns)
  then show ?case by (simp add: mem_reach.start mem_holds_NewMemory)
next
  case (with_cancel m C c c' i m')
  then show ?case by (auto intro: mem_reach.derive_cancel simp: context_WithCancel_def)
next
  case (with_value m C c k v)
  then show ?case by (auto intro: mem_reach.derive_value)
next
  case (detached m C c)
  then show ?case by (auto intro: mem_reach.derive_detached)
next
  case (cancel m C i)
  then show ?case by (auto intro: mem_reach.cancel)
next
  case (begin_tx m C c c' e m')
  moreover from this have "mem_wf m" "ctx_ok m c" using mem_reach_inv by blast+
  ultimately show ?case using mem_holds_steps(3)[of "repo_ns r" "event_stored r" m c]
    by (auto intro: mem_reach.begin_tx)
next
  case (commit_tx m C c e m')
  moreover from this have "mem_wf m" "ctx_ok m c" using mem_reach_inv by blast+
  ultimately show ?case using mem_holds_steps(4)[of "repo_ns r" "event_stored r" m c]
    by (auto intro: mem_reach.commit_tx)
next
  case (rollback_tx m C c e m')
  moreover from this have "mem_wf m" "ctx_ok m c" using mem_reach_inv by blast+
  ultimately show ?case using mem_holds_steps(5)[of "repo_ns r" "event_stored r" m c]
    by (auto intro: mem_reach.rollback_tx)
next
  case (create m C c ptr e m' ptr')
  moreover from this have "mem_wf m" "ctx_ok m c" using mem_reach_inv by blast+
  ultimately show ?case
    using wer_Create_effect[OF assms(2) create.hyps(3)] mem_holds_steps(1)[of "repo_ns r" "event_stored r" m c]
    by (auto intro: mem_reach.set_value)
next
  case (update m C c ptr e m' ptr')
  moreover from this have "mem_wf m" "ctx_ok m c" using mem_reach_inv by blast+
  ultimately show ?case
    using wer_Update_effect[OF assms(2) update.hyps(3)] mem_holds_steps(1)[of "repo_ns r" "event_stored r" m c]
    by (auto intro: mem_reach.set_value)
next
  case (delete m C c i e m')
  moreover from this have "mem_wf m" "ctx_ok m c" using mem_reach_inv by blast+
  ultimately show ?case
    using wer_DeleteByID_effect[OF delete.hyps(3)] mem_holds_steps(2)[of "repo_ns r" "event_stored r" m c]
    by (auto intro: mem_reach.del_value[OF _ _ prod.collapse[symmetric]])
qed

section \<open>What a reader gets\<close>

text \<open>The events of a context that is not refused: each one under its own key, so each ID once.\<close>

lemma wer_All_stored:
  assumes "event_IDs r" "mem_open m c" "mem_holds (repo_ns r) (event_stored r) m"
  shows "distinct (map GetEventID (mem_All m c (repo_ns r)))"
    "e \<in> set (mem_All m c (repo_ns r)) \<longleftrightarrow> mem_Get m c (repo_ns r) (IDToMemoryKey r (GetEventID e)) = Some e"
    "e \<in> set (mem_All m c (repo_ns r)) \<Longrightarrow> event_stored r (IDToMemoryKey r (GetEventID e)) e"
proof -
  obtain g where g: "gm_wf g" "mem_All m c (repo_ns r) = map snd g" "mem_Get m c (repo_ns r) = map_of g"
    using mem_All_values[OF assms(2)] by blast
  have st: "event_stored r k e" if "(k, e) \<in> set g" for k e
  proof -
    have "mem_Get m c (repo_ns r) k = Some e" using that g(1,3) by (simp add: gm_wf_def)
    then show ?thesis using mem_holds_Get[OF assms(3)] assms(2) by (auto simp: mem_open_def)
  qed
  then have keys: "map fst g = map (\<lambda>e. IDToMemoryKey r (GetEventID e)) (map snd g)"
    by (auto simp: event_stored_def intro: list.map_cong0)
  have "distinct (map (IDToMemoryKey r) (map GetEventID (map snd g)))"
    using g(1) keys by (simp add: gm_wf_def o_def)
  then show "distinct (map GetEventID (mem_All m c (repo_ns r)))"
    unfolding distinct_map[of "IDToMemoryKey r"] g(2) by simp
  show "e \<in> set (mem_All m c (repo_ns r)) \<longleftrightarrow> mem_Get m c (repo_ns r) (IDToMemoryKey r (GetEventID e)) = Some e"
    using st g(1) by (force simp: g(2,3) event_stored_def gm_in_set[symmetric])
  show "e \<in> set (mem_All m c (repo_ns r)) \<Longrightarrow> event_stored r (IDToMemoryKey r (GetEventID e)) e"
    using st by (force simp: g(2) event_stored_def)
qed

lemma wer_FindByID_iff:
  "wer_FindByID r c i m = Inr x \<longleftrightarrow> repo_refusal r c m = None \<and> x = mem_Get m c (repo_ns r) (IDToMemoryKey r i)"
  by (auto simp: wer_FindByID_def repo_FindByID_refusal split: option.split)

text \<open>The history of a process, as it is read: the error of a context that is refused, or the events in
  the order of time, by whatever sort.\<close>

lemma wer_FindByProcessID_refused:
  "repo_refusal r c m = Some err \<Longrightarrow> wer_FindByProcessID h nil r c pid m = [(nil, Some err)]"
  by (auto simp: wer_FindByProcessID_def wer_FindAll_def repo_FindAll_def repo_refusal_def split: option.splits)

lemma wer_FindByProcessID_open:
  assumes "mem_open m c" "ctx_Err m c = None"
  shows "wer_FindByProcessID h nil r c pid m = map (\<lambda>e. (e, None))
    (sk_SortBy (host_sort h) (filter (\<lambda>e. GetProcessID e = pid) (mem_All m c (repo_ns r))) event_Before)"
proof -
  have "filter (\<lambda>(e, err). err \<noteq> None \<or> GetProcessID e = pid) (wer_FindAll nil r c m) =
      no_errors (filter (\<lambda>e. GetProcessID e = pid) (mem_All m c (repo_ns r)))"
    by (simp add: wer_FindAll_def repo_FindAll_open[OF assms] filter_map o_def)
  then show ?thesis by (simp add: wer_FindByProcessID_def)
qed

text \<open>C24: In every state that a program can reach with the repository's operations, through transactions at
  any depth, committed or not, every context reads back only events that have an ID, a process and a time:
  FindByID finds an event with the ID it was asked for, and FindByProcessID yields either the one error
  of a cancelled context or an ended transaction, or exactly the events of that process that FindByID
  finds, each once, in the order of their time stamps.\<close>

theorem wer_stores_valid:
  assumes "event_IDs r" "sort_Slice (host_sort h)" "wer_reach r m C" "c \<in> C"
  shows "(\<forall>i e. wer_FindByID r c i m = Inr (Some e) \<longrightarrow>
             GetEventID e = i \<and> i \<noteq> 0 \<and> GetProcessID e \<noteq> 0 \<and> GetTimestamp e \<noteq> 0) \<and>
         (case repo_refusal r c m of
            Some err \<Rightarrow> wer_FindByProcessID h nil r c pid m = [(nil, Some err)]
          | None \<Rightarrow> \<exists>es. wer_FindByProcessID h nil r c pid m = map (\<lambda>e. (e, None)) es \<and>
              set es = {e. GetProcessID e = pid \<and> wer_FindByID r c (GetEventID e) m = Inr (Some e)} \<and>
              distinct (map GetEventID es) \<and> sorted (map GetTimestamp es))"
proof -
  have m: "mem_wf m" "ctx_ok m c" "mem_holds (repo_ns r) (event_stored r) m"
    using wer_reach_inv[OF assms(3,1)] mem_reach_inv assms(4) by blast+
  have "GetEventID e = i \<and> i \<noteq> 0 \<and> GetProcessID e \<noteq> 0 \<and> GetTimestamp e \<noteq> 0"
    if "wer_FindByID r c i m = Inr (Some e)" for i e
  proof -
    have "event_stored r (IDToMemoryKey r i) e"
      using that mem_holds_Get[OF m(3,1,2)] by (simp add: wer_FindByID_iff)
    then show ?thesis using assms(1) by (auto simp: event_stored_def event_IDs_def dest: injD)
  qed
  moreover have "\<exists>es. wer_FindByProcessID h nil r c pid m = map (\<lambda>e. (e, None)) es \<and>
      set es = {e. GetProcessID e = pid \<and> wer_FindByID r c (GetEventID e) m = Inr (Some e)} \<and>
      distinct (map GetEventID es) \<and> sorted (map GetTimestamp es)" if no: "repo_refusal r c m = None"
  proof -
    note o = repo_refusal_open[OF m(1,2) no]
    let ?fs = "filter (\<lambda>e. GetProcessID e = pid) (mem_All m c (repo_ns r))"
    let ?es = "sk_SortBy (host_sort h) ?fs event_Before"
    note S = sk_SortBy_sorted[OF assms(2), where f = GetTimestamp and xs = ?fs]
    note A = wer_All_stored[OF assms(1) o(1) m(3)]
    have "set ?es = set ?fs" using S(2) by (rule mset_eq_setD)
    then have set: "set ?es = {e. GetProcessID e = pid \<and> wer_FindByID r c (GetEventID e) m = Inr (Some e)}"
      using A(2) no by (auto simp: wer_FindByID_iff)
    have "mset (map GetEventID ?es) = mset (map GetEventID ?fs)" using S(2) by simp
    moreover have "distinct (map GetEventID ?fs)" using A(1) by (rule distinct_map_filter)
    ultimately have "distinct (map GetEventID ?es)" using mset_eq_imp_distinct_iff by blast
    with set S(1) wer_FindByProcessID_open[OF o, of h nil r pid] show ?thesis by blast
  qed
  ultimately show ?thesis by (simp add: wer_FindByProcessID_refused split: option.split)
qed

text \<open>An event that is created in a transaction is read back from outside it after the commit.\<close>

definition store_tx :: "nat wf_event memory \<times> mctx" where
  "store_tx = (case mem_BeginTx Background (NewMemory ''orders'') of ((c, _), m) \<Rightarrow>
     (snd (mem_CommitTx c (fst (snd (wer_Create order_repo c (m, Some (EventCompleted 1 2 3)))))), c))"

lemma store_tx_reach: "wer_reach order_repo (fst store_tx) {snd store_tx, Background}"
proof -
  obtain c e m where b: "mem_BeginTx Background (NewMemory ''orders'' :: nat wf_event memory) = ((c, e), m)" by (metis prod.exhaust)
  obtain e1 m1 p1 where w: "wer_Create order_repo c (m, Some (EventCompleted 1 2 3)) = (e1, m1, p1)" by (metis prod.exhaust)
  obtain e2 m2 where t: "mem_CommitTx c m1 = (e2, m2)" by (metis prod.exhaust)
  from wer_reach.begin_tx[OF wer_reach.start _ b, of order_repo] have "wer_reach order_repo m {c, Background}" by simp
  from wer_reach.create[OF this _ w] have "wer_reach order_repo m1 {c, Background}" by simp
  from wer_reach.commit_tx[OF this insertI1 t] show ?thesis by (simp only: store_tx_def b w t prod.case fst_conv snd_conv)
qed

lemma store_tx_found:
  "wer_FindByID order_repo Background 1 (fst store_tx) = Inr (Some (EventCompleted 1 2 3))"
proof -
  have "case wer_FindByID order_repo Background 1 (fst store_tx) of
      Inr (Some (EventCompleted i p t)) \<Rightarrow> i = 1 \<and> p = 2 \<and> t = 3 | _ \<Rightarrow> False"
    by code_simp
  then show ?thesis by (auto split: sum.splits option.splits wf_event.splits)
qed

theorem wer_stores_valid_witness:
  "wer_FindByID order_repo Background 1 (fst store_tx) = Inr (Some (EventCompleted 1 2 3)) \<and>
   (\<exists>es. EventCompleted 1 2 3 \<in> set es \<and>
      wer_FindByProcessID order_host order_nil order_repo Background 2 (fst store_tx) = map (\<lambda>e. (e, None)) es)"
proof -
  have srt: "sort_Slice (host_sort order_host)" using order_host_ok by (simp add: host_ok_def)
  note T = wer_stores_valid[OF order_IDs srt store_tx_reach, of Background order_nil 2]
  have "repo_refusal order_repo Background (fst store_tx) = None" using store_tx_found by (simp add: wer_FindByID_iff)
  then obtain es where "wer_FindByProcessID order_host order_nil order_repo Background 2 (fst store_tx) = map (\<lambda>e. (e, None)) es"
    "set es = {e. GetProcessID e = 2 \<and> wer_FindByID order_repo Background (GetEventID e) (fst store_tx) = Inr (Some e)}"
    using T by auto
  then show ?thesis using store_tx_found by auto
qed

end
