(* ===== verification/Uuid.thy ===== *)
theory Uuid imports Errorkit "HOL-Library.Word" "HOL-Library.Char_ord" "HOL-Library.List_Lexorder" begin

text \<open>
  \<^verbatim>\<open>pkg/uuid\<close>: UUIDs, their text, their order, and the generators V4 and V7.

  A \<^verbatim>\<open>UUID\<close> is its 16 bytes, a list of that length; a string is the list of its bytes. The
  random source is a function on the world that yields the bytes it read and whether those fill the
  slice; the clock reads
  milliseconds since the epoch (an int64) and hands its whole reading \<open>now\<close> to the counter
  (\<^verbatim>\<open>V7SubMillisecondRandA\<close> computes it in floating point and is a parameter).
\<close>

section \<open>Bytes and text\<close>

type_synonym byte = "8 word"
type_synonym UUID = "byte list"

definition uuid_zero :: UUID where
  "uuid_zero = replicate 16 0"

definition ErrParse :: string where
  "ErrParse = ''uuid parse error''"

definition hex_digit :: "nat \<Rightarrow> char" where
  "hex_digit n = (if n < 10 then char_of (48 + n) else char_of (87 + n))"

text \<open>What \<^verbatim>\<open>strconv.ParseUint\<close> takes as a digit of base 16.\<close>

definition hex_value :: "char \<Rightarrow> nat option" where
  "hex_value c =
     (let n = (of_char c :: nat)
      in if 48 \<le> n \<and> n \<le> 57 then Some (n - 48)
         else if 97 \<le> n \<and> n \<le> 102 then Some (n - 87)
         else if 65 \<le> n \<and> n \<le> 70 then Some (n - 55)
         else None)"

definition hex_byte :: "byte \<Rightarrow> string" where
  "hex_byte b = [hex_digit (unat b div 16), hex_digit (unat b mod 16)]"

definition hex_bytes :: "byte list \<Rightarrow> string" where
  "hex_bytes bs = concat (map hex_byte bs)"

definition UUID_String :: "UUID \<Rightarrow> string" where
  "UUID_String u =
     hex_bytes (take 4 u) @ ''-'' @ hex_bytes (take 2 (drop 4 u)) @ ''-'' @ hex_bytes (take 2 (drop 6 u)) @ ''-'' @
     hex_bytes (take 2 (drop 8 u)) @ ''-'' @ hex_bytes (drop 10 u)"

text \<open>The UTF-8 text of each Unicode white space, which \<^verbatim>\<open>strings.TrimSpace\<close> removes at both ends.\<close>

definition space_codes :: "nat list list" where
  "space_codes =
     [[9], [10], [11], [12], [13], [32], [194, 133], [194, 160], [225, 154, 128],
      [226, 128, 128], [226, 128, 129], [226, 128, 130], [226, 128, 131], [226, 128, 132], [226, 128, 133],
      [226, 128, 134], [226, 128, 135], [226, 128, 136], [226, 128, 137], [226, 128, 138],
      [226, 128, 168], [226, 128, 169], [226, 128, 175], [226, 129, 159], [227, 128, 128]]"

definition unicode_spaces :: "string list" where
  "unicode_spaces = map (map char_of) space_codes"

definition space_at :: "string list \<Rightarrow> string \<Rightarrow> string option" where
  "space_at spaces s = List.find (\<lambda>sp. take (length sp) s = sp) spaces"

function trim_left :: "string list \<Rightarrow> string \<Rightarrow> string" where
  "trim_left spaces s =
     (case space_at spaces s of
        None \<Rightarrow> s
      | Some sp \<Rightarrow> if sp = [] \<or> s = [] then s else trim_left spaces (drop (length sp) s))"
  by pat_completeness auto
termination by (relation "measure (\<lambda>(_, s). length s)") auto

declare trim_left.simps [simp del]

definition TrimSpace :: "string \<Rightarrow> string" where
  "TrimSpace s = rev (trim_left (map rev unicode_spaces) (rev (trim_left unicode_spaces s)))"

fun parse_bytes :: "string \<Rightarrow> UUID \<Rightarrow> go_error + UUID" where
  "parse_bytes (a # b # hex) acc =
     (case (hex_value a, hex_value b) of
        (Some x, Some y) \<Rightarrow> parse_bytes hex (acc @ [word_of_nat (16 * x + y)])
      | _ \<Rightarrow> Inl (ErrorLite_F ErrParse ''invalid hex''))"
| "parse_bytes _ acc = Inr acc"

definition uuid_Parse :: "string \<Rightarrow> go_error + UUID" where
  "uuid_Parse raw =
     (let raw = filter (\<lambda>c. c \<noteq> CHR ''-'') (TrimSpace raw)
      in if length raw \<noteq> 32 then Inl (ErrorLite_F ErrParse ''invalid UUID string length'') else parse_bytes raw [])"

section \<open>Fields and order\<close>

definition Version :: "UUID \<Rightarrow> nat" where
  "Version u = unat (drop_bit 4 (u ! 6))"

definition Variant :: "UUID \<Rightarrow> nat" where
  "Variant u = unat (drop_bit 6 (u ! 8))"

definition setVersion :: "nat \<Rightarrow> UUID \<Rightarrow> UUID" where
  "setVersion version u = u[6 := or (and (u ! 6) 0x0F) (word_of_nat (version * 2 ^ 4))]"

definition setVariant :: "nat \<Rightarrow> UUID \<Rightarrow> UUID" where
  "setVariant variant u = u[8 := or (and (u ! 8) 0x3F) (word_of_nat (variant * 2 ^ 6))]"

fun uuid_Compare :: "UUID \<Rightarrow> UUID \<Rightarrow> int" where
  "uuid_Compare (a # u) (b # v) = (if a < b then - 1 else if a > b then 1 else uuid_Compare u v)"
| "uuid_Compare _ _ = 0"

fun uuid_Less :: "UUID \<Rightarrow> UUID \<Rightarrow> bool" where
  "uuid_Less (a # u) (b # v) = (if a \<noteq> b then a < b else uuid_Less u v)"
| "uuid_Less _ _ = False"

fun uuid_Equal :: "UUID \<Rightarrow> UUID \<Rightarrow> bool" where
  "uuid_Equal (a # u) (b # v) = (if a \<noteq> b then False else uuid_Equal u v)"
| "uuid_Equal _ _ = True"

definition uuid_IsZero :: "UUID \<Rightarrow> bool" where
  "uuid_IsZero u = list_all (\<lambda>b. b = 0) u"

section \<open>Text and SQL values\<close>

definition MarshalText :: "UUID \<Rightarrow> string" where
  "MarshalText u = UUID_String u"

text \<open>\<^verbatim>\<open>Parse\<close> returns what it has read beside its error; the receiver is overwritten with it.\<close>

fun parsed_prefix :: "string \<Rightarrow> UUID \<Rightarrow> UUID" where
  "parsed_prefix (a # b # hex) acc =
     (case (hex_value a, hex_value b) of
        (Some x, Some y) \<Rightarrow> parsed_prefix hex (acc @ [word_of_nat (16 * x + y)])
      | _ \<Rightarrow> acc)"
| "parsed_prefix _ acc = acc"

definition UnmarshalText :: "string \<Rightarrow> UUID \<Rightarrow> go_error option \<times> UUID" where
  "UnmarshalText text u =
     (case uuid_Parse text of
        Inr v \<Rightarrow> (None, v)
      | Inl err \<Rightarrow>
          (let raw = filter (\<lambda>c. c \<noteq> CHR ''-'') (TrimSpace text);
               got = (if length raw \<noteq> 32 then [] else parsed_prefix raw [])
           in (Some err, got @ replicate (16 - length got) 0)))"

datatype sql_value = SqlNull | SqlString string | SqlBytes "byte list" | SqlOther

definition uuid_Value :: "UUID \<Rightarrow> sql_value" where
  "uuid_Value u = (if uuid_IsZero u then SqlNull else SqlString (UUID_String u))"

definition scan_string :: "string \<Rightarrow> UUID \<Rightarrow> go_error option \<times> UUID" where
  "scan_string v u =
     (if v = [] then (None, uuid_zero) else case uuid_Parse v of Inl err \<Rightarrow> (Some err, u) | Inr i \<Rightarrow> (None, i))"

definition uuid_Scan :: "sql_value \<Rightarrow> UUID \<Rightarrow> go_error option \<times> UUID" where
  "uuid_Scan value u =
     (case value of
        SqlNull \<Rightarrow> (None, uuid_zero)
      | SqlBytes v \<Rightarrow>
          if v = [] then (None, uuid_zero)
          else if length v = 16 then (None, v)
          else scan_string (map (\<lambda>b. char_of (unat b)) v) u
      | SqlString v \<Rightarrow> scan_string v u
      | SqlOther \<Rightarrow> (Some (ErrText ''uuid: cannot scan type into UUID''), u))"

section \<open>Generators\<close>

text \<open>
  The random source is read up to 128 times until it fills the slice. The error of an attempt is
  another variable than the one that is returned, so running out of attempts is no error.
\<close>

type_synonym 'w reader = "nat \<Rightarrow> 'w \<Rightarrow> (byte list \<times> bool) \<times> 'w"

fun fill_attempts :: "nat \<Rightarrow> 'w reader \<Rightarrow> byte list \<Rightarrow> 'w \<Rightarrow> byte list \<times> 'w" where
  "fill_attempts 0 read u w = (u, w)"
| "fill_attempts (Suc n) read u w =
     (case read (length u) w of
        ((bs, ok), w') \<Rightarrow>
          (let u' = bs @ drop (length bs) u in if ok then (u', w') else fill_attempts n read u' w'))"

definition fillWithRandom :: "'w reader \<Rightarrow> byte list \<Rightarrow> 'w \<Rightarrow> (go_error option \<times> byte list) \<times> 'w" where
  "fillWithRandom read u w = (case fill_attempts 128 read u w of (u', w') \<Rightarrow> ((None, u'), w'))"

definition V4_Make :: "'w reader \<Rightarrow> 'w \<Rightarrow> (go_error option \<times> UUID) \<times> 'w" where
  "V4_Make read w =
     (case fillWithRandom read uuid_zero w of
        ((Some err, u), w') \<Rightarrow> ((Some err, u), w')
      | ((None, u), w') \<Rightarrow> ((None, setVariant 2 (setVersion 4 u)), w'))"

definition truncateToInt12 :: "16 word \<Rightarrow> 16 word" where
  "truncateToInt12 n = and n 0xFFF"

definition setTimestamp :: "64 word \<Rightarrow> UUID \<Rightarrow> UUID" where
  "setTimestamp millis u =
     u[0 := ucast (drop_bit 40 millis), 1 := ucast (drop_bit 32 millis), 2 := ucast (drop_bit 24 millis),
       3 := ucast (drop_bit 16 millis), 4 := ucast (drop_bit 8 millis), 5 := ucast millis]"

definition setRandA :: "('t \<Rightarrow> 'w \<Rightarrow> (go_error + 16 word) \<times> 'w) \<Rightarrow> 't \<Rightarrow> UUID \<Rightarrow> 'w \<Rightarrow> (go_error option \<times> UUID) \<times> 'w" where
  "setRandA randA now u w =
     (case randA now w of
        (Inl err, w') \<Rightarrow> ((Some (ErrWrapText ''error in uuid.V7#Counter'' err), u), w')
      | (Inr c, w') \<Rightarrow>
          (let counter = truncateToInt12 c
           in ((None, u[6 := ucast (drop_bit 8 counter), 7 := ucast counter]), w')))"

definition V7_Make ::
    "('w \<Rightarrow> 't \<times> 'w) \<Rightarrow> ('t \<Rightarrow> 64 word) \<Rightarrow> ('t \<Rightarrow> 'w \<Rightarrow> (go_error + 16 word) \<times> 'w) \<Rightarrow>
     'w reader \<Rightarrow> 'w \<Rightarrow> (go_error option \<times> UUID) \<times> 'w" where
  "V7_Make clock UnixMilli randA read w =
     (case clock w of
        (now, w1) \<Rightarrow>
          (let u = setTimestamp (UnixMilli now) uuid_zero
           in case setRandA randA now u w1 of
                ((Some err, u), w2) \<Rightarrow> ((Some err, u), w2)
              | ((None, u), w2) \<Rightarrow>
                  (case fillWithRandom read (drop 8 u) w2 of
                     ((Some err, r), w3) \<Rightarrow> ((Some err, take 8 u @ r), w3)
                   | ((None, r), w3) \<Rightarrow> ((None, setVariant 2 (setVersion 7 (take 8 u @ r))), w3))))"

text \<open>The state of the monotonic counter: the counter and the last millisecond.\<close>

definition maxUInt12 :: "16 word" where
  "maxUInt12 = 4095"

definition V7MonotonicCounter :: "64 word \<Rightarrow> 16 word \<times> 64 word \<Rightarrow> 16 word \<times> (16 word \<times> 64 word)" where
  "V7MonotonicCounter millis st =
     (case st of
        (counter, prevMillis) \<Rightarrow>
          if millis \<le>s prevMillis then
            if counter = maxUInt12 then (counter, st) else (counter + 1, (counter + 1, prevMillis))
          else (0, (0, millis)))"

text \<open>\<^verbatim>\<open>Must\<close>: up to 256 attempts, then a panic with the last error.\<close>

fun must_attempts :: "nat \<Rightarrow> go_error \<Rightarrow> ('w \<Rightarrow> (go_error option \<times> UUID) \<times> 'w) \<Rightarrow> 'w \<Rightarrow> (go_error + UUID) \<times> 'w" where
  "must_attempts 0 err mk w = (Inl err, w)"
| "must_attempts (Suc n) err mk w =
     (case mk w of ((None, i), w') \<Rightarrow> (Inr i, w') | ((Some e, i), w') \<Rightarrow> must_attempts n e mk w')"

definition uuid_Must :: "('w \<Rightarrow> (go_error option \<times> UUID) \<times> 'w) \<Rightarrow> 'w \<Rightarrow> (go_error + UUID) \<times> 'w" where
  "uuid_Must mk w = must_attempts 256 (ErrPanic ''nil'') mk w"

section \<open>Printing and parsing\<close>

lemma hex_value_digit: "n < 16 \<Longrightarrow> hex_value (hex_digit n) = Some n"
  by (simp add: hex_value_def hex_digit_def Let_def of_char_of)

lemma unat_byte: "unat (b :: byte) < 256"
  using unsigned_less[of b, where 'a = nat] by simp

lemma parse_hex_bytes: "parse_bytes (hex_bytes bs @ s) acc = parse_bytes s (acc @ bs)"
proof (induction bs arbitrary: acc)
  case (Cons b bs)
  have "unat b div 16 < 16" using unat_byte[of b] by simp
  then show ?case using Cons[of "acc @ [b]"]
    by (simp add: hex_bytes_def hex_byte_def hex_value_digit)
qed (simp add: hex_bytes_def)

lemma hex_bytes_append: "hex_bytes (xs @ ys) = hex_bytes xs @ hex_bytes ys"
  by (simp add: hex_bytes_def)

lemma hex_bytes_length: "length (hex_bytes bs) = 2 * length bs"
  by (induction bs) (simp_all add: hex_bytes_def hex_byte_def)

lemma hex_bytes_chars: "c \<in> set (hex_bytes bs) \<Longrightarrow> hex_value c \<noteq> None"
proof (induction bs)
  case (Cons b bs)
  have "unat b div 16 < 16" "unat b mod 16 < 16" using unat_byte[of b] by simp_all
  with Cons show ?case by (auto simp: hex_bytes_def hex_byte_def hex_value_digit)
qed (simp add: hex_bytes_def)

lemma hex_bytes_filter: "hex_value h = None \<Longrightarrow> filter (\<lambda>c. c \<noteq> h) (hex_bytes bs) = hex_bytes bs"
  using hex_bytes_chars by (force intro: filter_True)

lemma UUID_String_hex: "filter (\<lambda>c. c \<noteq> CHR ''-'') (UUID_String u) = hex_bytes u"
proof -
  have "hex_value (CHR ''-'') = None" by (simp add: hex_value_def Let_def)
  then have "filter (\<lambda>c. c \<noteq> CHR ''-'') (UUID_String u) =
      hex_bytes (take 4 u @ take 2 (drop 4 u) @ take 2 (drop 6 u) @ take 2 (drop 8 u) @ drop 10 u)"
    by (simp add: UUID_String_def hex_bytes_append hex_bytes_filter)
  also have "take 4 u @ take 2 (drop 4 u) @ take 2 (drop 6 u) @ take 2 (drop 8 u) @ drop 10 u = u"
    using append_take_drop_id[of 4 u] append_take_drop_id[of 2 "drop 4 u"] append_take_drop_id[of 2 "drop 6 u"]
      append_take_drop_id[of 2 "drop 8 u"] by (simp del: append_take_drop_id)
  finally show ?thesis .
qed

text \<open>No white space is the beginning of another, forwards or backwards, and none begins with a digit.\<close>

definition prefix_free :: "string list \<Rightarrow> bool" where
  "prefix_free L \<longleftrightarrow>
     (\<forall>x \<in> set L. x \<noteq> [] \<and> hex_value (hd x) = None \<and>
       (\<forall>y \<in> set L. take (min (length x) (length y)) x = take (min (length x) (length y)) y \<longrightarrow> x = y))"

text \<open>The first two bytes of a code determine its length.\<close>

definition codes_free :: "(nat \<Rightarrow> nat \<Rightarrow> nat) \<Rightarrow> nat list list \<Rightarrow> bool" where
  "codes_free f L \<longleftrightarrow>
     (\<forall>x \<in> set L. x \<noteq> [] \<and> (\<forall>n \<in> set x. n < 256) \<and> (hd x < 48 \<or> 102 < hd x) \<and>
       (if hd x < 128 then length x = 1 else 2 \<le> length x \<and> length x = f (hd x) (x ! 1)))"

lemma codes_freeD:
  assumes "codes_free f L" "x \<in> set L" "y \<in> set L"
    and eq: "take (min (length x) (length y)) x = take (min (length x) (length y)) y"
  shows "x = y"
proof -
  let ?n = "min (length x) (length y)"
  have ne: "x \<noteq> []" "y \<noteq> []" using assms(1-3) by (auto simp: codes_free_def)
  then have "0 < ?n" by simp
  then have hd: "hd x = hd y" using eq by (metis hd_take)
  have "length x = length y"
  proof (cases "hd x < 128")
    case False
    then have len: "2 \<le> length x" "length x = f (hd x) (x ! 1)" "2 \<le> length y" "length y = f (hd y) (y ! 1)"
      using assms(1-3) hd by (auto simp: codes_free_def)
    then have "1 < ?n" by simp
    then have "x ! 1 = y ! 1" using eq by (metis nth_take)
    with len hd show ?thesis by simp
  qed (use assms(1-3) hd in \<open>auto simp: codes_free_def\<close>)
  with eq show ?thesis by simp
qed

lemma char_of_list_inj:
  assumes "\<forall>n \<in> set x. n < 256" "\<forall>n \<in> set y. n < 256" "map (char_of :: nat \<Rightarrow> char) x = map char_of y"
  shows "x = y"
proof -
  have "inj_on (char_of :: nat \<Rightarrow> char) (set x \<union> set y)"
    by (rule inj_on_inverseI[where g = of_char]) (use assms(1,2) in \<open>auto simp: of_char_of\<close>)
  then show ?thesis using assms(3) inj_on_map_eq_map by blast
qed

lemma codes_free: "codes_free f L \<Longrightarrow> prefix_free (map (map char_of) L)"
proof -
  assume free: "codes_free f L"
  have "x = y" if xy: "x \<in> set L" "y \<in> set L"
    and eq: "take (min (length x) (length y)) (map char_of x) = take (min (length x) (length y)) (map (char_of :: nat \<Rightarrow> char) y)" for x y
  proof -
    let ?n = "min (length x) (length y)"
    have "map (char_of :: nat \<Rightarrow> char) (take ?n x) = map char_of (take ?n y)" using eq by (simp add: take_map)
    moreover have "\<forall>n \<in> set (take ?n x). n < 256" "\<forall>n \<in> set (take ?n y). n < 256"
      using free xy by (auto simp: codes_free_def dest!: in_set_takeD)
    ultimately have "take ?n x = take ?n y" using char_of_list_inj by blast
    with codes_freeD[OF free xy] show ?thesis by simp
  qed
  moreover have "hex_value (hd (map char_of x)) = None" if "x \<in> set L" for x
    using free that by (cases x) (auto simp: codes_free_def hex_value_def of_char_of Let_def)
  ultimately show ?thesis using free by (auto simp: prefix_free_def codes_free_def)
qed

lemma map_rev_map: "map rev (map (map f) L) = map (map f) (map rev L)"
  by (induction L) (simp_all only: list.map rev_map)

lemma prefix_free_spaces: "prefix_free unicode_spaces" "prefix_free (map rev unicode_spaces)"
proof -
  have "codes_free (\<lambda>a b. if a < 224 then 2 else 3) space_codes" "codes_free (\<lambda>a b. if 192 \<le> b \<and> b < 224 then 2 else 3) (map rev space_codes)"
    by (simp_all add: codes_free_def space_codes_def)
  note free = this[THEN codes_free]
  show "prefix_free unicode_spaces" unfolding unicode_spaces_def by (rule free(1))
  show "prefix_free (map rev unicode_spaces)" unfolding unicode_spaces_def map_rev_map by (rule free(2))
qed

lemma find_only:
  assumes "\<And>y. y \<in> set L \<Longrightarrow> P y \<Longrightarrow> y = x" "x \<in> set L" "P x"
  shows "List.find P L = Some x"
proof (cases "List.find P L")
  case None
  then show ?thesis using assms(2,3) by (auto simp: find_None_iff)
next
  case (Some y)
  then have "P y" "y \<in> set L" by (auto simp: find_Some_iff)
  with assms(1) Some show ?thesis by simp
qed

lemma space_at_space:
  assumes "prefix_free L" "x \<in> set L"
  shows "space_at L (x @ r) = Some x"
  unfolding space_at_def
proof (rule find_only)
  fix y assume y: "y \<in> set L" "take (length y) (x @ r) = y"
  then have "take (min (length x) (length y)) x = take (min (length x) (length y)) y"
    by (metis append_eq_append_conv_if append_take_drop_id min.cobounded1 min_def take_all_iff)
  then show "y = x" using assms y(1) by (auto simp: prefix_free_def)
qed (use assms in simp_all)

lemma space_at_text:
  assumes "prefix_free L" "hex_value c \<noteq> None"
  shows "space_at L (c # s) = None"
proof -
  have "take (length y) (c # s) \<noteq> y" if "y \<in> set L" for y
    using assms that by (cases y) (auto simp: prefix_free_def)
  then show ?thesis by (auto simp: space_at_def find_None_iff)
qed

lemma trim_left_spaces:
  assumes "prefix_free L" "set ws \<subseteq> set L" "hex_value c \<noteq> None"
  shows "trim_left L (concat ws @ c # s) = c # s"
  using assms(2)
proof (induction ws)
  case Nil
  show ?case by (subst trim_left.simps) (simp add: space_at_text[OF assms(1,3)])
next
  case (Cons x ws)
  have "x \<noteq> []" using Cons.prems assms(1) by (auto simp: prefix_free_def)
  then show ?case
    using Cons space_at_space[OF assms(1), of x "concat ws @ c # s"] by (subst trim_left.simps) auto
qed

lemma TrimSpace_spaces:
  assumes "set ws \<subseteq> set unicode_spaces" "set vs \<subseteq> set unicode_spaces" "hex_value c \<noteq> None" "hex_value d \<noteq> None"
  shows "TrimSpace (concat ws @ (c # s @ [d]) @ concat vs) = c # s @ [d]"
proof -
  have "trim_left unicode_spaces (concat ws @ (c # s @ [d]) @ concat vs) = (c # s @ [d]) @ concat vs"
    using trim_left_spaces[OF prefix_free_spaces(1) assms(1,3)] by simp
  moreover have "rev ((c # s @ [d]) @ concat vs) = concat (map rev (rev vs)) @ d # rev s @ [c]"
    by (simp add: rev_concat rev_map)
  moreover have "set (map rev (rev vs)) \<subseteq> set (map rev unicode_spaces)" using assms(2) by auto
  ultimately show ?thesis
    using trim_left_spaces[OF prefix_free_spaces(2) _ assms(4), of "map rev (rev vs)" "rev s @ [c]"] by (simp add: TrimSpace_def)
qed

lemma UUID_String_ends:
  assumes "length u = 16"
  obtains c s d where "UUID_String u = c # s @ [d]" "hex_value c \<noteq> None" "hex_value d \<noteq> None"
proof -
  obtain a u' where u: "u = a # u'" "length u' = 15" using assms by (cases u) auto
  obtain v b where v: "drop 10 u = v @ [b]" using assms by (cases "drop 10 u" rule: rev_cases) auto
  have "hex_bytes (take 4 u) = hex_byte a @ hex_bytes (take 3 u')" using u(1) by (simp add: hex_bytes_def)
  moreover have "hex_bytes (drop 10 u) = hex_bytes v @ hex_byte b" unfolding v by (simp add: hex_bytes_def)
  ultimately have "UUID_String u = hex_byte a @ (hex_bytes (take 3 u') @ ''-'' @ hex_bytes (take 2 (drop 4 u)) @ ''-'' @
      hex_bytes (take 2 (drop 6 u)) @ ''-'' @ hex_bytes (take 2 (drop 8 u)) @ ''-'' @ hex_bytes v) @ hex_byte b"
    by (simp only: UUID_String_def append_assoc)
  then show ?thesis using that unat_byte[of a] unat_byte[of b]
    by (simp add: hex_byte_def hex_value_digit)
qed

lemma TrimSpace_String:
  assumes "length u = 16" "set ws \<subseteq> set unicode_spaces" "set vs \<subseteq> set unicode_spaces"
  shows "TrimSpace (concat ws @ UUID_String u @ concat vs) = UUID_String u"
proof -
  obtain c s d where "UUID_String u = c # s @ [d]" "hex_value c \<noteq> None" "hex_value d \<noteq> None"
    using UUID_String_ends[OF assms(1)] .
  with TrimSpace_spaces[OF assms(2,3), of c d s] show ?thesis by simp
qed

lemma Parse_String:
  assumes "length u = 16" "set ws \<subseteq> set unicode_spaces" "set vs \<subseteq> set unicode_spaces"
  shows "uuid_Parse (concat ws @ UUID_String u @ concat vs) = Inr u"
  unfolding uuid_Parse_def TrimSpace_String[OF assms] UUID_String_hex Let_def
  using parse_hex_bytes[of u "[]" "[]"] assms(1) by (simp add: hex_bytes_length)

lemma IsZero_iff: "length u = 16 \<Longrightarrow> uuid_IsZero u \<longleftrightarrow> u = uuid_zero"
  by (auto simp: uuid_IsZero_def uuid_zero_def list_all_iff in_set_replicate intro!: replicate_eqI)

text \<open>C25: printing then parsing: a UUID's text, with any Unicode white space around it, parses to the UUID; unmarshalling its marshalled text and scanning its SQL value (NULL for the zero UUID) give it back.\<close>

theorem uuid_text_roundtrip:
  assumes "length u = 16" "set ws \<subseteq> set unicode_spaces" "set vs \<subseteq> set unicode_spaces"
  shows "uuid_Parse (concat ws @ UUID_String u @ concat vs) = Inr u \<and>
    UnmarshalText (MarshalText u) old = (None, u) \<and> uuid_Scan (uuid_Value u) old = (None, u)"
proof -
  have parse: "uuid_Parse (UUID_String u) = Inr u" using Parse_String[OF assms(1), of "[]" "[]"] by simp
  have "UUID_String u \<noteq> []" by (simp add: UUID_String_def)
  with parse assms(1) Parse_String[OF assms] show ?thesis
    by (auto simp: UnmarshalText_def MarshalText_def uuid_Value_def uuid_Scan_def scan_string_def IsZero_iff)
qed

theorem uuid_text_roundtrip_witness:
  "uuid_Parse (concat [unicode_spaces ! 6] @ UUID_String (replicate 16 0xAB) @ concat []) = Inr (replicate 16 0xAB)"
  using uuid_text_roundtrip[of "replicate 16 0xAB" "[unicode_spaces ! 6]" "[]"]
  by (simp add: unicode_spaces_def space_codes_def)

section \<open>Order\<close>

lemma Compare_Less:
  "length u = length v \<Longrightarrow>
   uuid_Compare u v = (if uuid_Less u v then - 1 else if u = v then 0 else 1) \<and> (uuid_Less v u \<longleftrightarrow> \<not> uuid_Less u v \<and> u \<noteq> v)"
proof (induction u arbitrary: v)
  case (Cons a u)
  then obtain b v' where v: "v = b # v'" "length u = length v'" by (cases v) auto
  have "b < a \<longleftrightarrow> \<not> a < b \<and> a \<noteq> b" by auto
  with Cons.IH[OF v(2)] show ?case by (simp add: v(1))
qed simp

lemma Less_iff: "length u = length v \<Longrightarrow> uuid_Less u v \<longleftrightarrow> u < v"
  by (induction u v rule: list_induct2) auto

lemma Equal_iff: "length u = length v \<Longrightarrow> uuid_Equal u v \<longleftrightarrow> u = v"
  by (induction u v rule: list_induct2) auto

lemma append_less_iff:
  fixes x x' :: "'a :: order list"
  shows "length x = length x' \<Longrightarrow> x @ y < x' @ y' \<longleftrightarrow> x < x' \<or> x = x' \<and> y < y'"
  by (induction x x' rule: list_induct2) auto

lemma hex_digit_less: "m < 16 \<Longrightarrow> n < 16 \<Longrightarrow> hex_digit m < hex_digit n \<longleftrightarrow> m < n"
  by (simp add: hex_digit_def less_char_def of_char_of)

lemma hex_digit_inj: "m < 16 \<Longrightarrow> n < 16 \<Longrightarrow> hex_digit m = hex_digit n \<longleftrightarrow> m = n"
  using hex_value_digit option.inject by metis

lemma nat_less_div_mod:
  fixes d :: nat
  assumes "0 < d"
  shows "m < n \<longleftrightarrow> m div d < n div d \<or> m div d = n div d \<and> m mod d < n mod d"
proof -
  consider "m div d < n div d" | "m div d = n div d" | "n div d < m div d" by linarith
  then show ?thesis
  proof cases
    case 1
    then have "m < n" by (metis div_le_mono not_le)
    with 1 show ?thesis by simp
  next
    case 2
    have "m = m div d * d + m mod d" "n = n div d * d + n mod d" by simp_all
    with 2 show ?thesis by (metis add_less_cancel_left less_irrefl)
  next
    case 3
    then have "n < m" by (metis div_le_mono not_le)
    with 3 show ?thesis by simp
  qed
qed

lemma hex_byte_less: "hex_byte a @ s < hex_byte b @ t \<longleftrightarrow> a < b \<or> a = b \<and> s < t"
proof -
  have a: "unat a div 16 < 16" "unat a mod 16 < 16" and b: "unat b div 16 < 16" "unat b mod 16 < 16"
    using unat_byte[of a] unat_byte[of b] by simp_all
  have "a < b \<longleftrightarrow> unat a div 16 < unat b div 16 \<or> unat a div 16 = unat b div 16 \<and> unat a mod 16 < unat b mod 16"
    unfolding word_less_nat_alt by (rule nat_less_div_mod) simp
  moreover have "a = b \<longleftrightarrow> unat a div 16 = unat b div 16 \<and> unat a mod 16 = unat b mod 16"
    by (metis div_mult_mod_eq word_unat_eq_iff)
  ultimately show ?thesis
    using a b by (auto simp: hex_byte_def hex_digit_less hex_digit_inj)
qed

lemma hex_bytes_less:
  "length u = length v \<Longrightarrow> hex_bytes u @ s < hex_bytes v @ t \<longleftrightarrow> u < v \<or> u = v \<and> s < t"
proof (induction u v rule: list_induct2)
  case (Cons a u b v)
  have "hex_bytes (a # u) @ s < hex_bytes (b # v) @ t \<longleftrightarrow> hex_byte a @ (hex_bytes u @ s) < hex_byte b @ (hex_bytes v @ t)"
    by (simp add: hex_bytes_def)
  then show ?case unfolding hex_byte_less Cons.IH by auto
qed (simp add: hex_bytes_def)

lemma String_less:
  assumes "length u = 16" "length v = 16"
  shows "UUID_String u < UUID_String v \<longleftrightarrow> u < v"
proof -
  have split: "x = take 4 x @ take 2 (drop 4 x) @ take 2 (drop 6 x) @ take 2 (drop 8 x) @ drop 10 x" for x :: UUID
    using append_take_drop_id[of 4 x] append_take_drop_id[of 2 "drop 4 x"] append_take_drop_id[of 2 "drop 6 x"]
      append_take_drop_id[of 2 "drop 8 x"] by (simp del: append_take_drop_id)
  have "u < v \<longleftrightarrow> take 4 u @ take 2 (drop 4 u) @ take 2 (drop 6 u) @ take 2 (drop 8 u) @ drop 10 u
      < take 4 v @ take 2 (drop 4 v) @ take 2 (drop 6 v) @ take 2 (drop 8 v) @ drop 10 v"
    using split[of u] split[of v] by simp
  also have "\<dots> \<longleftrightarrow> UUID_String u < UUID_String v"
    using assms hex_bytes_less[of "drop 10 u" "drop 10 v" "[]" "[]"]
    by (simp only: UUID_String_def append_less_iff hex_bytes_less length_take length_drop append_Nil2) simp
  finally show ?thesis by simp
qed

text \<open>C26: the comparisons agree: \<^verbatim>\<open>Less\<close> is the lexicographic order of the bytes and of the texts (sorting texts sorts the UUIDs), \<^verbatim>\<open>Compare\<close> is its sign, \<^verbatim>\<open>Equal\<close> is equality.\<close>

theorem uuid_order:
  assumes "length u = 16" "length v = 16"
  shows "(uuid_Less u v \<longleftrightarrow> u < v) \<and> (uuid_Less u v \<longleftrightarrow> UUID_String u < UUID_String v) \<and>
    uuid_Compare u v = (if uuid_Less u v then - 1 else if uuid_Equal u v then 0 else 1) \<and>
    (uuid_Equal u v \<longleftrightarrow> UUID_String u = UUID_String v)"
proof -
  have "UUID_String u = UUID_String v \<longleftrightarrow> u = v"
    using Parse_String[OF assms(1), of "[]" "[]"] Parse_String[OF assms(2), of "[]" "[]"] by (metis sum.inject(2) empty_subsetI list.set(1))
  then show ?thesis using assms Compare_Less[of u v] Less_iff[of u v] Equal_iff[of u v] String_less by simp
qed

theorem uuid_order_witness: "uuid_Less (3 # replicate 15 0) (7 # replicate 15 0)"
  using uuid_order[of "3 # replicate 15 0" "7 # replicate 15 0"] by simp

section \<open>Generators\<close>

unbundle bit_operations_syntax

text \<open>\<open>n\<close> as \<open>k\<close> big-endian bytes.\<close>

fun be :: "nat \<Rightarrow> nat \<Rightarrow> byte list" where
  "be 0 n = []"
| "be (Suc k) n = be k (n div 256) @ [word_of_nat n]"

lemma be_numeral: "be (numeral k) n = be (pred_numeral k) (n div 256) @ [word_of_nat n]"
  by (subst numeral_eq_Suc) (rule be.simps(2))

lemma be_2: "be 2 n = [word_of_nat (n div 256), word_of_nat n]"
  by (simp add: be_numeral)

lemma length_be [simp]: "length (be k n) = k"
  by (induction k arbitrary: n) simp_all

lemma Less_append:
  "length u = length v \<Longrightarrow> uuid_Less (u @ s) (v @ t) \<longleftrightarrow> uuid_Less u v \<or> u = v \<and> uuid_Less s t"
  by (induction u v rule: list_induct2) auto

lemma be_eq_iff: "m < 256 ^ k \<Longrightarrow> n < 256 ^ k \<Longrightarrow> be k m = be k n \<longleftrightarrow> m = n"
proof (induction k arbitrary: m n)
  case (Suc k)
  then have "m div 256 < 256 ^ k" "n div 256 < 256 ^ k" by (simp_all add: less_mult_imp_div_less)
  moreover have "(word_of_nat m :: byte) = word_of_nat n \<longleftrightarrow> m mod 256 = n mod 256"
    by (simp add: word_unat_eq_iff unsigned_of_nat take_bit_eq_mod)
  ultimately show ?case using Suc.IH[of "m div 256" "n div 256"] by simp (metis div_mult_mod_eq)
qed simp

lemma Less_be: "m < 256 ^ k \<Longrightarrow> n < 256 ^ k \<Longrightarrow> uuid_Less (be k m) (be k n) \<longleftrightarrow> m < n"
proof (induction k arbitrary: m n)
  case (Suc k)
  then have k: "m div 256 < 256 ^ k" "n div 256 < 256 ^ k" by (simp_all add: less_mult_imp_div_less)
  have "(word_of_nat m :: byte) < word_of_nat n \<longleftrightarrow> m mod 256 < n mod 256"
    by (simp add: word_less_nat_alt unsigned_of_nat take_bit_eq_mod)
  moreover have "m < n \<longleftrightarrow> m div 256 < n div 256 \<or> m div 256 = n div 256 \<and> m mod 256 < n mod 256" by (rule nat_less_div_mod) simp
  ultimately show ?case using Suc.IH[OF k] be_eq_iff[OF k] by (auto simp: Less_append)
qed simp

lemma be_append: "n < 256 ^ j \<Longrightarrow> be k m @ be j n = be (k + j) (m * 256 ^ j + n)"
proof (induction j arbitrary: n)
  case (Suc j)
  then have "n div 256 < 256 ^ j" by (simp add: less_mult_imp_div_less)
  moreover have "(m * 256 ^ Suc j + n) div 256 = m * 256 ^ j + n div 256" by simp
  moreover have "(word_of_nat (m * 256 ^ Suc j + n) :: byte) = word_of_nat n"
  proof -
    have "m * 256 ^ Suc j + n = n + 256 * (m * 256 ^ j)" by simp
    then show ?thesis unfolding word_unat_eq_iff unat_of_nat by (simp only: len_of_numeral_defs) simp
  qed
  ultimately show ?case using Suc.IH[of "n div 256"] by simp
qed simp

lemma fill_attempts_length:
  assumes "\<And>n w. length (fst (fst (read n w))) \<le> n"
  shows "length (fst (fill_attempts k read u w)) = length u"
proof (induction k arbitrary: u w)
  case (Suc k)
  obtain bs ok w' where r: "read (length u) w = ((bs, ok), w')" by (metis prod.exhaust)
  then have "length bs \<le> length u" using assms[of "length u" w] by simp
  then show ?case using Suc[of "bs @ drop (length bs) u" w'] by (simp add: r Let_def)
qed simp

text \<open>The first eight bytes of a UUID V7: the timestamp, the version, the counter.\<close>

lemma setTimestamp_be: "setTimestamp millis uuid_zero = be 6 (unat millis) @ replicate 10 0"
proof -
  have "take_bit 64 (unat millis) = unat millis" using unsigned_less[of millis, where 'a = nat] by (simp add: take_bit_nat_eq_self)
  then have "ucast (drop_bit k millis) = (word_of_nat (unat millis div 2 ^ k) :: byte)" for k
    by (simp add: unsigned_ucast_eq word_unat_eq_iff drop_bit_eq_div[where 'a = nat] unsigned_of_nat unsigned_drop_bit_eq)
  note cast = this[of 40] this[of 32] this[of 24] this[of 16] this[of 8] this[of 0]
  have "uuid_zero = replicate 6 0 @ replicate 10 0" by (simp add: uuid_zero_def flip: replicate_add)
  also have "replicate 6 (0 :: byte) = [0, 0, 0, 0, 0, 0]" by (simp add: numeral_eq_Suc)
  finally have zero: "uuid_zero = [0, 0, 0, 0, 0, 0] @ replicate 10 0" .
  show ?thesis unfolding setTimestamp_def zero using cast by (simp add: be_numeral flip: div_mult2_eq)
qed

lemma nibbles_or: "list_all (\<lambda>n. (word_of_nat n AND 0x0F) OR 0x70 = (word_of_nat (0x70 + n) :: byte)) [0..<16]"
  by code_simp

lemma nibble_or: "n < 16 \<Longrightarrow> (word_of_nat n AND 0x0F) OR 0x70 = (word_of_nat (0x70 + n) :: byte)"
proof -
  assume "n < 16"
  then have "n \<in> set [0..<16]" by simp
  with nibbles_or show ?thesis unfolding list_all_iff by blast
qed

lemma counter_be:
  assumes "unat c < 4096"
  shows "[((ucast (drop_bit 8 (truncateToInt12 c))) AND 0x0F) OR 0x70, ucast (truncateToInt12 c)] = be 2 (0x7000 + unat c)"
proof -
  have "take_bit 16 (unat c) = unat c" using unsigned_less[of c, where 'a = nat] by (simp add: take_bit_nat_eq_self)
  moreover have "truncateToInt12 c = c"
  proof -
    have "c AND 0xFFF = take_bit 12 c" by (simp add: take_bit_eq_mask mask_numeral)
    then show ?thesis
      using assms by (simp add: truncateToInt12_def word_unat_eq_iff unsigned_take_bit_eq take_bit_nat_eq_self)
  qed
  ultimately have "ucast (drop_bit k (truncateToInt12 c)) = (word_of_nat (unat c div 2 ^ k) :: byte)" for k
    by (simp add: unsigned_ucast_eq word_unat_eq_iff drop_bit_eq_div[where 'a = nat] unsigned_of_nat unsigned_drop_bit_eq)
  note cast = this[of 8] this[of 0] and nib = nibble_or[of "unat c div 256"]
  have "ucast (drop_bit 8 (truncateToInt12 c)) AND 0x0F OR 0x70 = (word_of_nat (0x70 + unat c div 256) :: byte)"
    using cast(1) nib assms by (simp only: less_mult_imp_div_less) simp
  moreover have "0x70 + unat c div 256 = (0x7000 + unat c) div 256" by simp
  moreover have "ucast (truncateToInt12 c) = (word_of_nat (0x7000 + unat c) :: byte)"
  proof -
    have "(word_of_nat (0x7000 + unat c) :: byte) = word_of_nat (unat c)"
      unfolding word_unat_eq_iff unat_of_nat by (simp add: mod_add_left_eq[of "0x7000", symmetric])
    then show ?thesis using cast(2) by simp
  qed
  ultimately show ?thesis by (simp only: be_2)
qed

lemma Version_7: "6 < length u \<Longrightarrow> Version (setVersion 7 u) = 7"
  by (simp add: Version_def setVersion_def)

lemma Version_4: "6 < length u \<Longrightarrow> Version (setVersion 4 u) = 4"
  by (simp add: Version_def setVersion_def)

lemma Variant_2: "8 < length u \<Longrightarrow> Variant (setVariant 2 u) = 2"
  by (simp add: Variant_def setVariant_def)

lemma Version_setVariant: "Version (setVariant v u) = Version u"
  by (simp add: Version_def setVariant_def)

lemma length_setVersion [simp]: "length (setVersion v u) = length u"
  by (simp add: setVersion_def)

lemma length_setVariant [simp]: "length (setVariant v u) = length u"
  by (simp add: setVariant_def)

lemma list_of_10: "length xs = 6 \<Longrightarrow> (xs @ replicate 10 a)[6 := b, 7 := c] = xs @ [b, c] @ replicate 8 a"
  by (simp add: list_update_append numeral_eq_Suc)

lemma V7_prefix:
  assumes bound: "\<And>n w. length (fst (fst (read n w))) \<le> n"
    and clock: "clock w = (now, w1)" and count: "randA now w1 = (Inr c, w2)" and c: "unat c < 4096"
  obtains u where
    "V7_Make clock UnixMilli randA read w = ((None, u), snd (fillWithRandom read (replicate 8 0) w2))"
    "length u = 16" "Version u = 7" "Variant u = 2"
    "take 8 u = be 6 (unat (UnixMilli now)) @ be 2 (0x7000 + unat c)"
proof -
  let ?t = "be 6 (unat (UnixMilli now))" and ?c = "truncateToInt12 c"
  let ?x = "ucast (drop_bit 8 ?c) :: byte" and ?y = "ucast ?c :: byte"
  obtain r w3 where r: "fill_attempts 128 read (replicate 8 0) w2 = (r, w3)" by fastforce
  with fill_attempts_length[of read 128 "replicate 8 0" w2, OF bound] have len: "length r = 8" by simp
  let ?u = "?t @ [?x, ?y] @ r"
  have "?u ! 6 = ?x" by (simp add: nth_append)
  then have "setVersion 7 ?u = ?t @ [?x AND 0x0F OR 0x70, ?y] @ r"
    by (simp add: setVersion_def list_update_append)
  then have v: "setVersion 7 ?u = ?t @ be 2 (0x7000 + unat c) @ r" using counter_be[OF c] by (simp del: be.simps)
  let ?v = "setVariant 2 (setVersion 7 ?u)"
  have "take 8 (replicate 8 (0 :: byte)) = replicate 8 0" by simp
  have "V7_Make clock UnixMilli randA read w = ((None, ?v), w3)"
    by (simp add: V7_Make_def setRandA_def clock count setTimestamp_be list_of_10 fillWithRandom_def r Let_def)
  moreover have "length ?v = 16" "Version ?v = 7" "Variant ?v = 2"
    using len by (simp_all add: Version_setVariant Version_7 Variant_2)
  moreover have "take 8 ?v = ?t @ be 2 (0x7000 + unat c)"
    unfolding v by (simp add: setVariant_def)
  ultimately show thesis using that r by (simp add: fillWithRandom_def)
qed

text \<open>
  A process that makes UUIDs one after the other: its world is the state of the monotonic counter,
  the readings of the clock still to come, and the state of the random source.
\<close>

type_synonym 'r v7_world = "(16 word \<times> 64 word) \<times> 64 word list \<times> 'r"

definition v7_clock :: "'r v7_world \<Rightarrow> 64 word \<times> 'r v7_world" where
  "v7_clock w = (case w of (st, ms, r) \<Rightarrow> (hd ms, (st, tl ms, r)))"

definition v7_counter :: "64 word \<Rightarrow> 'r v7_world \<Rightarrow> (go_error + 16 word) \<times> 'r v7_world" where
  "v7_counter millis w = (case w of (st, rest) \<Rightarrow> (case V7MonotonicCounter millis st of (c, st') \<Rightarrow> (Inr c, (st', rest))))"

definition v7_reader :: "'r reader \<Rightarrow> 'r v7_world reader" where
  "v7_reader read n w = (case w of (st, ms, r) \<Rightarrow> (case read n r of (res, r') \<Rightarrow> (res, (st, ms, r'))))"

fun v7_run :: "'r reader \<Rightarrow> nat \<Rightarrow> 'r v7_world \<Rightarrow> (go_error option \<times> UUID) list" where
  "v7_run read 0 w = []"
| "v7_run read (Suc n) w =
     (case V7_Make v7_clock (\<lambda>millis. millis) v7_counter (v7_reader read) w of (res, w') \<Rightarrow> res # v7_run read n w')"

lemma v7_reader_bound: "(\<And>n r. length (fst (fst (read n r))) \<le> n) \<Longrightarrow> length (fst (fst (v7_reader read n w))) \<le> n"
  by (auto simp: v7_reader_def split: prod.splits) (metis fst_conv)

lemma v7_fill_world: "\<exists>u' r'. fill_attempts k (v7_reader read) u (st, ms, r) = (u', (st, ms, r'))"
proof (induction k arbitrary: u r)
  case (Suc k)
  obtain bs ok r' where r: "read (length u) r = ((bs, ok), r')" by (metis prod.exhaust)
  then show ?case using Suc[of "bs @ drop (length bs) u" r'] by (simp add: v7_reader_def Let_def)
qed simp

lemma v7_step:
  assumes bound: "\<And>n r. length (fst (fst (read n r))) \<le> n"
    and counter: "V7MonotonicCounter m st = (c, st')" and c: "unat c < 4096"
  obtains u r' where
    "V7_Make v7_clock (\<lambda>millis. millis) v7_counter (v7_reader read) (st, m # ms, r) = ((None, u), (st', ms, r'))"
    "length u = 16" "Version u = 7" "Variant u = 2" "take 8 u = be 6 (unat m) @ be 2 (0x7000 + unat c)"
proof -
  obtain r' where r': "snd (fillWithRandom (v7_reader read) (replicate 8 0) (st', ms, r)) = (st', ms, r')"
    using v7_fill_world[of 128 read "replicate 8 0" st' ms r] by (auto simp: fillWithRandom_def)
  show thesis
    by (rule V7_prefix[of "v7_reader read" v7_clock "(st, m # ms, r)" m "(st, ms, r)" v7_counter c "(st', ms, r)" "\<lambda>millis. millis"])
      (use that r' in \<open>auto simp: v7_reader_bound[OF bound] v7_clock_def v7_counter_def counter c\<close>)
qed

text \<open>A UUID begins with the pair of its timestamp and counter; those order it.\<close>

definition v7_stamp :: "nat \<Rightarrow> nat \<Rightarrow> UUID \<Rightarrow> bool" where
  "v7_stamp t c u \<longleftrightarrow> length u = 16 \<and> Version u = 7 \<and> Variant u = 2 \<and> t < 2 ^ 48 \<and> c < 4096 \<and>
     take 8 u = be 6 t @ be 2 (0x7000 + c)"

lemma v7_stamp_less:
  assumes "v7_stamp t c u" "v7_stamp t' c' v" "t < t' \<or> t = t' \<and> c < c'"
  shows "uuid_Less u v"
proof -
  have "uuid_Less (take 8 u) (take 8 v)"
    using assms Less_be[of t 6 t'] Less_be[of "0x7000 + c" 2 "0x7000 + c'"] by (auto simp: v7_stamp_def Less_append)
  then have "uuid_Less (take 8 u @ drop 8 u) (take 8 v @ drop 8 v)"
    using assms by (subst Less_append) (auto simp: v7_stamp_def)
  then show ?thesis by simp
qed

lemma sle_unat: "unat a < 2 ^ 48 \<Longrightarrow> unat b < 2 ^ 48 \<Longrightarrow> (a :: 64 word) \<le>s b \<longleftrightarrow> unat a \<le> unat b"
proof -
  have s: "sint w = int (unat w)" if "unat w < 2 ^ 48" for w :: "64 word"
  proof -
    have w: "uint w = int (unat w)" by simp
    then have "uint w < 2 ^ 48" using that by (metis of_nat_less_iff of_nat_numeral of_nat_power)
    then have small: "uint w < 2 ^ 63" by simp
    have "signed_take_bit 63 (uint w) = uint w"
    proof (rule signed_take_bit_int_eq_self)
      show "- (2 ^ 63) \<le> uint w" using uint_nonnegative[of w] by (rule order_trans[rotated]) simp
    qed (rule small)
    moreover have "sint w = signed_take_bit 63 (uint w)" by (simp add: sint_uint)
    ultimately have "sint w = uint w" by (rule trans[rotated])
    then show ?thesis by (rule trans[OF _ w])
  qed
  show "unat a < 2 ^ 48 \<Longrightarrow> unat b < 2 ^ 48 \<Longrightarrow> a \<le>s b \<longleftrightarrow> unat a \<le> unat b"
    by (simp only: word_sle_eq s of_nat_le_iff)
qed

text \<open>One reading of the clock: the stamp (its millisecond or the one before, the counter) moves on.\<close>

lemma counter_step:
  assumes "unat p < 2 ^ 48" "unat m < 2 ^ 48" "unat c < 4096" "unat p \<le> unat m" "m = p \<Longrightarrow> unat c < 4095"
  obtains c' where "V7MonotonicCounter m (c, p) = (c', (c', m))" "unat c' < 4096"
    "unat p < unat m \<and> unat c' = 0 \<or> p = m \<and> unat c' = unat c + 1"
proof (cases "m = p")
  case True
  then have "c \<noteq> maxUInt12" using assms(5) by (auto simp: maxUInt12_def)
  moreover have "unat (c + 1) = unat c + 1" using assms(3) by (simp add: unat_word_ariths)
  moreover have "m \<le>s p" using True by simp
  ultimately show thesis using that[of "c + 1"] True assms(5) by (simp add: V7MonotonicCounter_def)
next
  case False
  then have "unat p < unat m" using assms(4) by (simp add: word_unat_eq_iff)
  with that[of 0] show thesis by (simp add: V7MonotonicCounter_def sle_unat[OF assms(2,1)])
qed

definition v7_after :: "nat \<Rightarrow> nat \<Rightarrow> UUID \<Rightarrow> bool" where
  "v7_after t c u \<longleftrightarrow> (\<exists>t' c'. v7_stamp t' c' u \<and> (t < t' \<or> t = t' \<and> c < c'))"

lemma v7_run_ordered:
  assumes bound: "\<And>n r. length (fst (fst (read n r))) \<le> n"
    and "sorted (map unat ms)" "\<forall>m \<in> set ms. unat p \<le> unat m \<and> unat m < 2 ^ 48 \<and> count_list ms m \<le> (if m = p then 4095 - unat c else 4096)"
    and "unat p < 2 ^ 48" "unat c < 4096"
  shows "length (v7_run read (length ms) ((c, p), ms, r)) = length ms \<and>
    list_all (\<lambda>(err, u). err = None \<and> v7_after (unat p) (unat c) u)
      (v7_run read (length ms) ((c, p), ms, r)) \<and>
    sorted_wrt uuid_Less (map snd (v7_run read (length ms) ((c, p), ms, r)))"
  using assms(2-5)
proof (induction ms arbitrary: c p r)
  case (Cons m ms)
  have m: "unat p \<le> unat m" "unat m < 2 ^ 48" using Cons.prems(2) by auto
  have "unat c < 4095" if "m = p" using bspec[OF Cons.prems(2), of m] that by auto
  then obtain c' where c': "V7MonotonicCounter m (c, p) = (c', (c', m))" "unat c' < 4096"
    "unat p < unat m \<and> unat c' = 0 \<or> p = m \<and> unat c' = unat c + 1"
    using counter_step[OF Cons.prems(3) m(2) Cons.prems(4) m(1)] by metis
  obtain u r' where u: "V7_Make v7_clock (\<lambda>millis. millis) v7_counter (v7_reader read) ((c, p), m # ms, r) = ((None, u), ((c', m), ms, r'))"
    "length u = 16" "Version u = 7" "Variant u = 2" "take 8 u = be 6 (unat m) @ be 2 (0x7000 + unat c')"
    by (rule v7_step[of read m "(c, p)" c' "(c', m)" ms r, OF bound c'(1,2)])
  then have stamp: "v7_stamp (unat m) (unat c') u" using m(2) c'(2) by (simp add: v7_stamp_def)
  have "count_list ms x \<le> (if x = m then 4095 - unat c' else 4096)" if "x \<in> set ms" for x
    using bspec[OF Cons.prems(2), of m] bspec[OF Cons.prems(2), of x] that c'(3) by (auto split: if_splits)
  moreover have "unat m \<le> unat x" "unat x < 2 ^ 48" if "x \<in> set ms" for x using Cons.prems(1,2) that by auto
  ultimately have IH: "length (v7_run read (length ms) ((c', m), ms, r')) = length ms \<and>
    list_all (\<lambda>(err, u). err = None \<and> v7_after (unat m) (unat c') u)
      (v7_run read (length ms) ((c', m), ms, r')) \<and>
    sorted_wrt uuid_Less (map snd (v7_run read (length ms) ((c', m), ms, r')))"
    using Cons.prems(1) m(2) c'(2) by (intro Cons.IH) auto
  have run: "v7_run read (length (m # ms)) ((c, p), m # ms, r) = (None, u) # v7_run read (length ms) ((c', m), ms, r')"
    by (simp add: u(1))
  have "uuid_Less u v" if "(err, v) \<in> set (v7_run read (length ms) ((c', m), ms, r'))" for err v
    using IH that v7_stamp_less[OF stamp] by (fastforce simp: list_all_iff v7_after_def)
  moreover have "v7_after (unat p) (unat c) v" if "v7_after (unat m) (unat c') v" for v
    using that c'(3) m(1) unfolding v7_after_def by (elim exE conjE) (rule exI, rule exI, rule conjI, assumption, auto)
  moreover have "v7_after (unat p) (unat c) u"
    unfolding v7_after_def using stamp c'(3) by (intro exI[of _ "unat m"] exI[of _ "unat c'"]) auto
  ultimately show ?case unfolding run using IH by (auto simp: list_all_iff)
qed simp

text \<open>C27: in one process, UUIDs V7 made with the monotonic counter while the clock (positive, below \<open>2 ^ 48\<close> milliseconds) does not step back, at most 4096 in a millisecond, are strictly increasing (so unique), of version 7 and variant 2, whatever the random source reads.\<close>

theorem uuid_V7_monotonic:
  assumes "\<And>n r. length (fst (fst (read n r))) \<le> n"
    and "sorted (map unat ms)" "\<forall>m \<in> set ms. 0 < unat m \<and> unat m < 2 ^ 48 \<and> count_list ms m \<le> 4096"
  shows "length (v7_run read (length ms) ((0, 0), ms, r)) = length ms \<and>
    list_all (\<lambda>(err, u). err = None \<and> length u = 16 \<and> Version u = 7 \<and> Variant u = 2) (v7_run read (length ms) ((0, 0), ms, r)) \<and>
    sorted_wrt uuid_Less (map snd (v7_run read (length ms) ((0, 0), ms, r)))"
proof -
  have "\<forall>m \<in> set ms. unat (0 :: 64 word) \<le> unat m \<and> unat m < 2 ^ 48 \<and> count_list ms m \<le> (if m = 0 then 4095 - unat (0 :: 16 word) else 4096)"
    using assms(3) by auto
  from v7_run_ordered[of read ms 0 0 r, OF assms(1,2) this]
  show ?thesis by (auto simp: v7_stamp_def v7_after_def list_all_iff)
qed

theorem uuid_V7_monotonic_witness:
  "sorted_wrt uuid_Less (map snd (v7_run (\<lambda>n r. ((replicate n 9, True), r)) 3 ((0, 0), [5, 5, 7], ())))"
  using uuid_V7_monotonic[of "\<lambda>n r. ((replicate n 9, True), r)" "[5, 5, 7]" "()"] by (simp add: numeral_3_eq_3)

text \<open>Error behaviour: \<^verbatim>\<open>V4.Make\<close> reports no error whatever the random source does; with one that never reads, it returns the UUID 00000000-0000-4000-8000-000000000000 every time.\<close>

theorem uuid_V4_no_error:
  "fst (fst (V4_Make read w)) = None \<and>
   UUID_String (snd (fst (V4_Make (\<lambda>n w. (([], False), w)) w))) = ''00000000-0000-4000-8000-000000000000''"
proof -
  have "fill_attempts k (\<lambda>n w. (([], False), w)) u w = (u, w)" for k u by (induction k) simp_all
  moreover have "UUID_String (setVariant 2 (setVersion 4 uuid_zero)) = ''00000000-0000-4000-8000-000000000000''" by code_simp
  ultimately show ?thesis by (simp add: V4_Make_def fillWithRandom_def split: prod.split)
qed

end
