(* ===== verification/PubSub.thy ===== *)
theory PubSub imports TxKit Slicekit "HOL-Library.Multiset" begin

text \<open>
  \<^verbatim>\<open>adapter/memory/pubsub.go\<close>: the in-memory message queue, its subscriptions, the fan-out
  exchange, and the two queues the workflow engine uses (\<^verbatim>\<open>adapter/memory/workflow.go\<close>).

  The world is that of the transaction manager of \<^verbatim>\<open>TxKit\<close>, whose cells live under one context
  key for all queues of a data type, next to the record \<^verbatim>\<open>pubsub\<close>: the queues and the queue
  transactions by address, the clock (its \<open>n\<close>-th reading) and the counter of message IDs. The ID of a
  message is the value of that counter, which is what makes the code's IDs distinct. A message that was
  removed from its queue is no longer observable, so releasing it is no step.

  Each operation is one step: what the code does under the locks of a queue is not interrupted. A pass
  of \<^verbatim>\<open>take\<close> sorts and scans under two locks one after the other; it is one step too. The order
  in which the goroutines run is the order of the steps; what the others do while an operation waits is
  the argument \<open>env\<close>. \<^verbatim>\<open>sort.Slice\<close> is the argument \<open>srt\<close>, of which
  \<^verbatim>\<open>sort_Slice\<close> states the documented behaviour.
\<close>

section \<open>State\<close>

record 'd queue_message =
  qm_v :: 'd
  qm_id :: nat
  qm_timestamp :: nat
  qm_takenBy :: nat

record 'd queue =
  q_LIFO :: bool
  q_Volatile :: bool
  q_Blocking :: bool
  q_SortLessFunc :: "('d \<Rightarrow> 'd \<Rightarrow> bool) option"
  q_msgs :: "'d queue_message list"
  q_subs :: "nat list"

record 'd queue_tx =
  qt_q :: nat
  qt_ds :: "'d list"

record 'd pubsub =
  ps_queues :: "'d queue list"
  ps_txs :: "'d queue_tx list"
  ps_clock :: "nat \<Rightarrow> nat"
  ps_ticks :: nat
  ps_msgIDIndex :: nat

type_synonym 'd psw = "(nat, 'd pubsub) tmw"
type_synonym 'd sorter = "('d queue_message \<Rightarrow> 'd queue_message \<Rightarrow> bool) \<Rightarrow> 'd queue_message list \<Rightarrow> 'd queue_message list"

definition ps_queue :: "nat \<Rightarrow> 'd psw \<Rightarrow> 'd queue" where
  "ps_queue q w = ps_queues (snd w) ! q"

definition ps_set_msgs :: "nat \<Rightarrow> ('d queue_message list \<Rightarrow> 'd queue_message list) \<Rightarrow> 'd pubsub \<Rightarrow> 'd pubsub" where
  "ps_set_msgs q f z = z\<lparr>ps_queues := (ps_queues z)[q := (ps_queues z ! q)\<lparr>q_msgs := f (q_msgs (ps_queues z ! q))\<rparr>]\<rparr>"

definition clock_Now :: "'d pubsub \<Rightarrow> nat \<times> 'd pubsub" where
  "clock_Now z = (ps_clock z (ps_ticks z), z\<lparr>ps_ticks := Suc (ps_ticks z)\<rparr>)"

definition errBlockingQueue :: go_error where
  "errBlockingQueue = ErrConst ''A blocking queue can't publish message as part of a transaction, as it would lead to a DEAD LOCK''"

section \<open>Messages and order\<close>

definition message_take :: "nat \<Rightarrow> 'd queue_message \<Rightarrow> bool \<times> 'd queue_message" where
  "message_take subID msg = (if qm_takenBy msg \<noteq> 0 then (False, msg) else (True, msg\<lparr>qm_takenBy := subID\<rparr>))"

definition message_release :: "nat \<Rightarrow> 'd queue_message \<Rightarrow> 'd queue_message" where
  "message_release subID rec =
     (if qm_takenBy rec = 0 then rec
      else if qm_takenBy rec \<noteq> subID then rec
      else rec\<lparr>qm_takenBy := 0\<rparr>)"

definition queue_less :: "'d queue \<Rightarrow> 'd queue_message \<Rightarrow> 'd queue_message \<Rightarrow> bool" where
  "queue_less Q i j =
     (case q_SortLessFunc Q of
        Some lt \<Rightarrow> lt (qm_v i) (qm_v j)
      | None \<Rightarrow>
          (let lt = qm_timestamp i < qm_timestamp j in if q_LIFO Q then \<not> lt else lt))"

definition q_rIter :: "'d sorter \<Rightarrow> nat \<Rightarrow> 'd pubsub \<Rightarrow> 'd pubsub" where
  "q_rIter srt q z = ps_set_msgs q (srt (queue_less (ps_queues z ! q))) z"

definition q_release :: "nat \<Rightarrow> nat \<Rightarrow> nat \<Rightarrow> 'd pubsub \<Rightarrow> 'd pubsub" where
  "q_release q ident subID = ps_set_msgs q (map (\<lambda>m. if qm_id m = ident then message_release subID m else m))"

section \<open>Publishing and transactions\<close>

definition make_message :: "'d \<Rightarrow> 'd pubsub \<Rightarrow> 'd queue_message \<times> 'd pubsub" where
  "make_message v z =
     (case clock_Now (z\<lparr>ps_msgIDIndex := Suc (ps_msgIDIndex z)\<rparr>) of
        (now, z') \<Rightarrow> (\<lparr>qm_v = v, qm_id = ps_msgIDIndex z', qm_timestamp = now, qm_takenBy = 0\<rparr>, z'))"

fun make_messages :: "'d list \<Rightarrow> 'd pubsub \<Rightarrow> 'd queue_message list \<times> 'd pubsub" where
  "make_messages [] z = ([], z)"
| "make_messages (d # ds) z =
     (case make_message d z of (m, z1) \<Rightarrow> (case make_messages ds z1 of (ms, z2) \<Rightarrow> (m # ms, z2)))"

definition q_dbPublish :: "nat \<Rightarrow> 'd list \<Rightarrow> 'd pubsub \<Rightarrow> go_error option \<times> 'd pubsub" where
  "q_dbPublish q ds z = (case make_messages ds z of (ms, z') \<Rightarrow> (None, ps_set_msgs q (\<lambda>msgs. msgs @ ms) z'))"

definition q_publish :: "nat \<Rightarrow> 'd \<Rightarrow> 'd pubsub \<Rightarrow> nat \<times> 'd pubsub" where
  "q_publish q data z = (case make_message data z of (m, z') \<Rightarrow> (qm_id m, ps_set_msgs q (\<lambda>msgs. msgs @ [m]) z'))"

text \<open>The manager of queue \<open>q\<close>; its Commit publishes to the queue that the transaction belongs to.\<close>

definition q_txm :: "nat \<Rightarrow> (nat, 'd pubsub) manager" where
  "q_txm q =
     \<lparr>m_Begin = (\<lambda>ctx z. (Inr (length (ps_txs z)), z\<lparr>ps_txs := ps_txs z @ [\<lparr>qt_q = q, qt_ds = []\<rparr>]\<rparr>)),
      m_Commit = (\<lambda>ctx tx z. q_dbPublish (qt_q (ps_txs z ! tx)) (qt_ds (ps_txs z ! tx)) z),
      m_Rollback = (\<lambda>ctx tx z. Some (None, z\<lparr>ps_txs := (ps_txs z)[tx := (ps_txs z ! tx)\<lparr>qt_ds := []\<rparr>]\<rparr>)),
      m_ErrTxDone = None\<rparr>"

datatype q_publisher = TxPublisher nat | DBPublisher nat

definition q_publisher_Publish :: "q_publisher \<Rightarrow> 'd \<Rightarrow> 'd pubsub \<Rightarrow> go_error option \<times> 'd pubsub" where
  "q_publisher_Publish p data z =
     (case p of
        TxPublisher tx \<Rightarrow> (None, z\<lparr>ps_txs := (ps_txs z)[tx := (ps_txs z ! tx)\<lparr>qt_ds := qt_ds (ps_txs z ! tx) @ [data]\<rparr>]\<rparr>)
      | DBPublisher q \<Rightarrow> q_dbPublish q [data] z)"

definition q_BeginTx :: "nat \<Rightarrow> tmctx \<Rightarrow> ('d psw, tmctx option \<times> go_error option) op" where
  "q_BeginTx q ctx w = (if q_Blocking (ps_queue q w) then ((None, Some errBlockingQueue), w) else m_BeginTx (q_txm q) ctx w)"

definition q_CommitTx :: "nat \<Rightarrow> tmctx \<Rightarrow> 'd psw \<Rightarrow> (go_error option \<times> 'd psw) option" where
  "q_CommitTx q = m_CommitTx (q_txm q)"

definition q_RollbackTx :: "nat \<Rightarrow> tmctx \<Rightarrow> 'd psw \<Rightarrow> (go_error option \<times> 'd psw) option" where
  "q_RollbackTx q = m_RollbackTx (q_txm q)"

definition q_Purge :: "nat \<Rightarrow> ('d psw, go_error option) op" where
  "q_Purge q w = (None, (fst w, ps_set_msgs q (\<lambda>_. []) (snd w)))"

text \<open>The loop of a blocking publisher: it waits until its message is gone.\<close>

partial_function (option) blockingWait_loop ::
    "'d sorter \<Rightarrow> (nat \<Rightarrow> 'd psw \<Rightarrow> 'd psw) \<Rightarrow> nat \<Rightarrow> nat \<Rightarrow> tmctx \<Rightarrow> nat \<Rightarrow> 'd psw \<Rightarrow> (go_error option \<times> 'd psw) option" where
  "blockingWait_loop srt env n q ctx target w =
     (case ctx_Err (fst w) ctx of
        Some err \<Rightarrow> Some (Some err, w)
      | None \<Rightarrow>
          (let w1 = (fst w, q_rIter srt q (snd w))
           in if list_ex (\<lambda>m. qm_id m = target) (q_msgs (ps_queue q w1))
              then blockingWait_loop srt env (Suc n) q ctx target (env n w1)
              else Some (None, w1)))"

definition blockingWait ::
    "'d sorter \<Rightarrow> (nat \<Rightarrow> 'd psw \<Rightarrow> 'd psw) \<Rightarrow> nat \<Rightarrow> tmctx \<Rightarrow> 'd \<Rightarrow> 'd psw \<Rightarrow> (go_error option \<times> 'd psw) option" where
  "blockingWait srt env q ctx data w =
     (case q_publish q data (snd w) of (target, z) \<Rightarrow> blockingWait_loop srt env 0 q ctx target (fst w, z))"

definition q_Publish ::
    "'d sorter \<Rightarrow> (nat \<Rightarrow> 'd psw \<Rightarrow> 'd psw) \<Rightarrow> nat \<Rightarrow> tmctx \<Rightarrow> 'd \<Rightarrow> 'd psw \<Rightarrow> (go_error option \<times> 'd psw) option" where
  "q_Publish srt env q ctx data w =
     (case ctx_Err (fst w) ctx of
        Some err \<Rightarrow> Some (Some err, w)
      | None \<Rightarrow>
          if q_Blocking (ps_queue q w) then
            (case m_LookupTx ctx (fst w) of
               None \<Rightarrow> None
             | Some (Some _) \<Rightarrow> Some (Some errBlockingQueue, w)
             | Some None \<Rightarrow> blockingWait srt env q ctx data w)
          else
            (case m_Q (Some TxPublisher) (Some DBPublisher) q ctx (fst w) of
               None \<Rightarrow> None
             | Some (Inl err) \<Rightarrow> Some (Some err, w)
             | Some (Inr p) \<Rightarrow> (case q_publisher_Publish p data (snd w) of (err, z) \<Rightarrow> Some (err, (fst w, z)))))"

section \<open>Taking, acknowledging\<close>

datatype 'd taken = TakeErr go_error | Taken "'d queue_message" tmctx | TakeNone

text \<open>The first visible message that nobody has taken.\<close>

fun take_msgs :: "('d queue_message \<Rightarrow> bool) \<Rightarrow> nat \<Rightarrow> 'd queue_message list \<Rightarrow> 'd queue_message option \<times> 'd queue_message list" where
  "take_msgs visible s [] = (None, [])"
| "take_msgs visible s (m # ms) =
     (case (if visible m then message_take s m else (False, m)) of
        (True, m') \<Rightarrow> (Some m', m' # ms)
      | (False, m') \<Rightarrow> (case take_msgs visible s ms of (r, ms') \<Rightarrow> (r, m' # ms')))"

definition q_visible :: "'d queue \<Rightarrow> nat \<Rightarrow> 'd queue_message \<Rightarrow> bool" where
  "q_visible Q createdAt m = (if q_Volatile Q then createdAt < qm_timestamp m \<or> createdAt = qm_timestamp m else True)"

definition take_pass :: "'d sorter \<Rightarrow> nat \<Rightarrow> tmctx \<Rightarrow> nat \<Rightarrow> nat \<Rightarrow> 'd psw \<Rightarrow> ('d taken \<times> 'd psw) option" where
  "take_pass srt q ctx s createdAt w =
     (case ctx_Err (fst w) ctx of
        Some err \<Rightarrow> Some (TakeErr err, w)
      | None \<Rightarrow>
          (case (if \<not> q_Blocking (ps_queue q w) then q_BeginTx q ctx w else ((Some ctx, None), w)) of
             ((_, Some err), w1) \<Rightarrow> Some (TakeErr err, w1)
           | ((None, None), w1) \<Rightarrow> Some (TakeErr (ErrPanic ''nil context''), w1)
           | ((Some tx, None), w1) \<Rightarrow>
               (let z = q_rIter srt q (snd w1)
                in case take_msgs (q_visible (ps_queue q w) createdAt) s (q_msgs (ps_queues z ! q)) of
                     (Some m, msgs) \<Rightarrow> Some (Taken m tx, (fst w1, ps_set_msgs q (\<lambda>_. msgs) z))
                   | (None, _) \<Rightarrow>
                       (if q_Blocking (ps_queue q w) then Some (TakeNone, (fst w1, z))
                        else case q_RollbackTx q (contextkit_WithoutCancel tx) (fst w1, z) of
                               None \<Rightarrow> None | Some (_, w2) \<Rightarrow> Some (TakeNone, w2)))))"

partial_function (option) q_take ::
    "'d sorter \<Rightarrow> (nat \<Rightarrow> 'd psw \<Rightarrow> 'd psw) \<Rightarrow> nat \<Rightarrow> nat \<Rightarrow> tmctx \<Rightarrow> nat \<Rightarrow> nat \<Rightarrow> 'd psw \<Rightarrow> ('d taken \<times> 'd psw) option" where
  "q_take srt env n q ctx s createdAt w =
     (case take_pass srt q ctx s createdAt w of
        None \<Rightarrow> None
      | Some (TakeNone, w1) \<Rightarrow> q_take srt env (Suc n) q ctx s createdAt (env n w1)
      | Some (r, w1) \<Rightarrow> Some (r, w1))"

text \<open>The closures \<^verbatim>\<open>ack\<close> and \<^verbatim>\<open>nack\<close> of a message that subscription \<open>s\<close> has taken with the context \<open>tx\<close>.\<close>

definition message_ack :: "nat \<Rightarrow> nat \<Rightarrow> nat \<Rightarrow> tmctx \<Rightarrow> 'd psw \<Rightarrow> (go_error option \<times> 'd psw) option" where
  "message_ack q ident s tx w =
     (case (if \<not> q_Blocking (ps_queue q w) then q_CommitTx q (contextkit_WithoutCancel tx) w else Some (None, w)) of
        None \<Rightarrow> None
      | Some (Some err, w1) \<Rightarrow> Some (Some err, (fst w1, q_release q ident s (snd w1)))
      | Some (None, w1) \<Rightarrow>
          Some (None, (fst w1, q_release q ident s (ps_set_msgs q (filter (\<lambda>m. qm_id m \<noteq> ident)) (snd w1)))))"

definition message_nack :: "nat \<Rightarrow> nat \<Rightarrow> nat \<Rightarrow> tmctx \<Rightarrow> 'd psw \<Rightarrow> (go_error option \<times> 'd psw) option" where
  "message_nack q ident s tx w =
     (let w1 = (fst w, q_release q ident s (snd w))
      in if \<not> q_Blocking (ps_queue q w) then q_RollbackTx q (contextkit_WithoutCancel tx) w1 else Some (None, w1))"

section \<open>Subscriptions\<close>

record subscription =
  sub_ctx :: tmctx
  sub_q :: nat
  sub_id :: nat
  sub_closed :: bool
  sub_createdAt :: nat
  sub_value :: "(nat \<times> tmctx) option"
  sub_err :: "go_error option"

text \<open>A subscription takes the first free ID; \<^verbatim>\<open>Close\<close> does not give it back.\<close>

fun first_free :: "nat \<Rightarrow> nat \<Rightarrow> nat list \<Rightarrow> nat" where
  "first_free 0 i ids = i"
| "first_free (Suc n) i ids = (if i \<in> set ids then first_free n (Suc i) ids else i)"

definition q_Subscribe :: "nat \<Rightarrow> tmctx \<Rightarrow> 'd pubsub \<Rightarrow> subscription \<times> 'd pubsub" where
  "q_Subscribe q ctx z =
     (case clock_Now z of
        (now, z1) \<Rightarrow>
          (let Q = ps_queues z1 ! q; i = first_free (length (q_subs Q)) 1 (q_subs Q)
           in (\<lparr>sub_ctx = ctx, sub_q = q, sub_id = i, sub_closed = False, sub_createdAt = now, sub_value = None, sub_err = None\<rparr>,
               z1\<lparr>ps_queues := (ps_queues z1)[q := Q\<lparr>q_subs := i # q_subs Q\<rparr>]\<rparr>)))"

definition sub_release :: "subscription \<Rightarrow> 'd psw \<Rightarrow> (subscription \<times> 'd psw) option" where
  "sub_release s w =
     (case sub_value s of
        None \<Rightarrow> Some (s, w)
      | Some (ident, tx) \<Rightarrow>
          (case message_nack (sub_q s) ident (sub_id s) tx w of
             None \<Rightarrow> None | Some (_, w1) \<Rightarrow> Some (s\<lparr>sub_value := None\<rparr>, w1)))"

definition sub_Close :: "subscription \<Rightarrow> 'd psw \<Rightarrow> (subscription \<times> 'd psw) option" where
  "sub_Close s w = (if sub_closed s then Some (s, w) else sub_release (s\<lparr>sub_closed := True\<rparr>) w)"

definition sub_Next ::
    "'d sorter \<Rightarrow> (nat \<Rightarrow> 'd psw \<Rightarrow> 'd psw) \<Rightarrow> subscription \<Rightarrow> 'd psw \<Rightarrow> (bool \<times> subscription \<times> 'd psw) option" where
  "sub_Next srt env s w =
     (if sub_err s \<noteq> None then Some (False, s, w)
      else if ctx_Err (fst w) (sub_ctx s) \<noteq> None then Some (False, s, w)
      else case sub_release s w of
             None \<Rightarrow> None
           | Some (s1, w1) \<Rightarrow>
               if sub_closed s1 then Some (False, s1, w1)
               else (case q_take srt env 0 (sub_q s1) (sub_ctx s1) (sub_id s1) (sub_createdAt s1) w1 of
                       None \<Rightarrow> None
                     | Some (TakeErr err, w2) \<Rightarrow> Some (False, s1\<lparr>sub_err := Some err\<rparr>, w2)
                     | Some (Taken m tx, w2) \<Rightarrow> Some (True, s1\<lparr>sub_value := Some (qm_id m, tx)\<rparr>, w2)
                     | Some (TakeNone, w2) \<Rightarrow> None))"

section \<open>The exchange\<close>

type_synonym exchange = "nat list"

definition q_Finish :: "go_error option \<Rightarrow> nat \<Rightarrow> tmctx \<Rightarrow> 'd psw \<Rightarrow> (go_error option \<times> 'd psw) option" where
  "q_Finish rErr q tx w =
     (case rErr of
        None \<Rightarrow> q_CommitTx q tx w
      | Some e \<Rightarrow> (case q_RollbackTx q tx w of None \<Rightarrow> None | Some (rbErr, w') \<Rightarrow> Some (Merge [Some e, rbErr], w')))"

text \<open>
  No lock is held over the queues: what other goroutines do in between is the argument \<open>others\<close>, a change of the world
  for the \<open>k\<close>-th queue before its transaction begins, before its call, and before the transaction is finished.
\<close>

type_synonym 'd interference = "nat \<Rightarrow> nat \<Rightarrow> 'd psw \<Rightarrow> 'd psw"

fun eachQueue ::
    "'d interference \<Rightarrow> nat \<Rightarrow> exchange \<Rightarrow> tmctx \<Rightarrow> (tmctx \<Rightarrow> nat \<Rightarrow> 'd psw \<Rightarrow> (go_error option \<times> 'd psw) option) \<Rightarrow> 'd psw \<Rightarrow>
     (go_error option \<times> 'd psw) option" where
  "eachQueue others k [] ctx blk w = Some (None, w)"
| "eachQueue others k (q # qs) ctx blk w =
     (case q_BeginTx q ctx (others k 0 w) of
        ((_, Some err), w1) \<Rightarrow> Some (Some err, w1)
      | ((None, None), w1) \<Rightarrow> Some (Some (ErrPanic ''nil context''), w1)
      | ((Some tx, None), w1) \<Rightarrow>
          (case blk tx q (others k 1 w1) of
             None \<Rightarrow> None
           | Some (Some err, w2) \<Rightarrow> q_Finish (Some err) q tx (others k 2 w2)
           | Some (None, w2) \<Rightarrow>
               (case eachQueue others (Suc k) qs ctx blk w2 of
                  None \<Rightarrow> None
                | Some (rErr, w3) \<Rightarrow> q_Finish rErr q tx (others k 2 w3))))"

definition exchange_Publish ::
    "'d sorter \<Rightarrow> (nat \<Rightarrow> 'd psw \<Rightarrow> 'd psw) \<Rightarrow> 'd interference \<Rightarrow> exchange \<Rightarrow> tmctx \<Rightarrow> 'd \<Rightarrow> 'd psw \<Rightarrow> (go_error option \<times> 'd psw) option" where
  "exchange_Publish srt env others e ctx data w = eachQueue others 0 e ctx (\<lambda>ctx q. q_Publish srt env q ctx data) w"

definition exchange_Purge :: "'d interference \<Rightarrow> exchange \<Rightarrow> tmctx \<Rightarrow> 'd psw \<Rightarrow> (go_error option \<times> 'd psw) option" where
  "exchange_Purge others e ctx w = eachQueue others 0 e ctx (\<lambda>ctx q w. Some (q_Purge q w)) w"

definition new_queue :: "'d queue" where
  "new_queue = \<lparr>q_LIFO = False, q_Volatile = False, q_Blocking = False, q_SortLessFunc = None, q_msgs = [], q_subs = []\<rparr>"

definition exchange_MakeQueue :: "exchange \<Rightarrow> 'd pubsub \<Rightarrow> nat \<times> exchange \<times> 'd pubsub" where
  "exchange_MakeQueue e z =
     (length (ps_queues z), e @ [length (ps_queues z)], z\<lparr>ps_queues := ps_queues z @ [new_queue]\<rparr>)"

section \<open>The queues of the workflow engine\<close>

definition broadcast_Publish where
  "broadcast_Publish srt env others ex ctx event w = exchange_Publish srt env others ex ctx event w"

definition broadcast_Subscribe :: "exchange \<Rightarrow> tmctx \<Rightarrow> 'd pubsub \<Rightarrow> subscription \<times> exchange \<times> 'd pubsub" where
  "broadcast_Subscribe ex ctx z =
     (case exchange_MakeQueue ex z of
        (q, ex', z1) \<Rightarrow>
          (case q_Subscribe q ctx (z1\<lparr>ps_queues := (ps_queues z1)[q := (ps_queues z1 ! q)\<lparr>q_Volatile := True\<rparr>]\<rparr>) of
             (s, z2) \<Rightarrow> (s, ex', z2)))"

text \<open>The execution queue: a map of its process executions to their start time is its order.\<close>

definition execution_queue :: "('d \<Rightarrow> nat) \<Rightarrow> 'd queue" where
  "execution_queue StartTime = new_queue\<lparr>q_SortLessFunc := Some (\<lambda>i j. StartTime i < StartTime j)\<rparr>"

declare blockingWait_loop.simps [code] q_take.simps [code]

section \<open>Order of delivery\<close>

lemma strict_weak_FIFO: "q_SortLessFunc Q = None \<Longrightarrow> \<not> q_LIFO Q \<Longrightarrow> strict_weak (queue_less Q)"
  by (simp add: strict_weak_def queue_less_def)

lemma strict_weak_SortLessFunc: "q_SortLessFunc Q = Some lt \<Longrightarrow> strict_weak lt \<Longrightarrow> strict_weak (queue_less Q)"
  unfolding queue_less_def[abs_def] by (simp add: strict_weak_on)

section \<open>Single steps\<close>

lemma ps_set_msgs_simps [simp]:
  "length (ps_queues (ps_set_msgs q f z)) = length (ps_queues z)"
  "ps_txs (ps_set_msgs q f z) = ps_txs z" "ps_clock (ps_set_msgs q f z) = ps_clock z"
  "ps_ticks (ps_set_msgs q f z) = ps_ticks z" "ps_msgIDIndex (ps_set_msgs q f z) = ps_msgIDIndex z"
  "x \<noteq> q \<Longrightarrow> ps_queues (ps_set_msgs q f z) ! x = ps_queues z ! x"
  "q < length (ps_queues z) \<Longrightarrow> ps_queues (ps_set_msgs q f z) ! q = (ps_queues z ! q)\<lparr>q_msgs := f (q_msgs (ps_queues z ! q))\<rparr>"
  by (simp_all add: ps_set_msgs_def)

lemma ps_set_msgs_config [simp]:
  "q_LIFO (ps_queues (ps_set_msgs q f z) ! x) = q_LIFO (ps_queues z ! x)"
  "q_Volatile (ps_queues (ps_set_msgs q f z) ! x) = q_Volatile (ps_queues z ! x)"
  "q_Blocking (ps_queues (ps_set_msgs q f z) ! x) = q_Blocking (ps_queues z ! x)"
  "q_SortLessFunc (ps_queues (ps_set_msgs q f z) ! x) = q_SortLessFunc (ps_queues z ! x)"
  by (simp_all add: ps_set_msgs_def nth_list_update_if)

text \<open>The first message taken is the first of the visible ones that nobody holds.\<close>

lemma take_msgs_Some:
  assumes "take_msgs visible s ms = (Some m, ms')" "s \<noteq> 0"
  obtains pre m0 post where "ms = pre @ m0 # post" "ms' = pre @ m # post" "m = m0\<lparr>qm_takenBy := s\<rparr>"
    "qm_takenBy m0 = 0" "visible m0" "\<forall>x \<in> set pre. \<not> (qm_takenBy x = 0 \<and> visible x)"
  using assms
proof (induction ms arbitrary: ms' thesis)
  case (Cons a ms)
  show ?case
  proof (cases "visible a \<and> qm_takenBy a = 0")
    case True
    then have "ms' = m # ms" "m = a\<lparr>qm_takenBy := s\<rparr>" using Cons.prems(2) by (auto simp: message_take_def)
    with True show ?thesis by (intro Cons.prems(1)[of "[]" a ms]) auto
  next
    case False
    then obtain ms1 where ms1: "take_msgs visible s ms = (Some m, ms1)" "ms' = a # ms1"
      using Cons.prems(2) by (auto simp: message_take_def split: if_splits prod.splits)
    obtain pre m0 post where "ms = pre @ m0 # post" "ms1 = pre @ m # post" "m = m0\<lparr>qm_takenBy := s\<rparr>"
      "qm_takenBy m0 = 0" "visible m0" "\<forall>x \<in> set pre. \<not> (qm_takenBy x = 0 \<and> visible x)"
      using Cons.IH[OF _ ms1(1) Cons.prems(3)] by metis
    then show ?thesis using False ms1(2) by (intro Cons.prems(1)[of "a # pre" m0 post]) auto
  qed
qed simp

lemma take_msgs_None: "take_msgs visible s ms = (None, ms') \<Longrightarrow> ms' = ms \<and> (\<forall>x \<in> set ms. \<not> (qm_takenBy x = 0 \<and> visible x))"
  by (induction ms arbitrary: ms') (auto simp: message_take_def split: if_splits prod.splits)

lemma take_msgs_cases:
  "(\<exists>x \<in> set ms. qm_takenBy x = 0 \<and> visible x) \<Longrightarrow> \<exists>m ms'. take_msgs visible s ms = (Some m, ms')"
  by (metis take_msgs_None option.exhaust surj_pair)

lemma m_BeginTx_queues:
  "m_BeginTx (q_txm q) ctx w = (r, w1) \<Longrightarrow>
     ps_queues (snd w1) = ps_queues (snd w) \<and> ps_msgIDIndex (snd w1) = ps_msgIDIndex (snd w)"
  by (auto simp: m_BeginTx_def q_txm_def Let_def split: option.splits prod.splits if_splits)

text \<open>The state in which a pass scans: the queue is sorted, a transaction has begun.\<close>

lemma take_pass_Taken:
  assumes "take_pass srt q ctx s createdAt w = Some (Taken m tx, w1)"
  obtains w0 ms where "ctx_Err (fst w) ctx = None"
    "(if q_Blocking (ps_queue q w) then ((Some ctx, None), w) else m_BeginTx (q_txm q) ctx w) = ((Some tx, None), w0)"
    "ps_queues (snd w0) = ps_queues (snd w)"
    "take_msgs (q_visible (ps_queue q w) createdAt) s (q_msgs (ps_queues (q_rIter srt q (snd w0)) ! q)) = (Some m, ms)"
    "w1 = (fst w0, ps_set_msgs q (\<lambda>_. ms) (q_rIter srt q (snd w0)))"
  using assms
  by (auto simp: take_pass_def q_BeginTx_def Let_def dest: m_BeginTx_queues split: option.splits prod.splits if_splits)

text \<open>C30: what a subscription receives: in a queue whose order is a strict weak order (FIFO always is one), a pass that delivers takes a message that nobody has taken and that the subscription may see, such that no other such message comes before it; it marks exactly that message and changes no other queue.\<close>

theorem queue_take_order:
  assumes "sort_Slice srt" "strict_weak (queue_less (ps_queue q w))" "q < length (ps_queues (snd w))" "s \<noteq> 0"
    and "take_pass srt q ctx s createdAt w = Some (Taken m tx, w1)"
  shows "\<exists>m0 \<in> set (q_msgs (ps_queue q w)). m = m0\<lparr>qm_takenBy := s\<rparr> \<and> qm_takenBy m0 = 0 \<and> q_visible (ps_queue q w) createdAt m0 \<and>
     (\<forall>x \<in> set (q_msgs (ps_queue q w)). qm_takenBy x = 0 \<and> q_visible (ps_queue q w) createdAt x \<longrightarrow> \<not> queue_less (ps_queue q w) x m0) \<and>
     mset (q_msgs (ps_queue q w1)) = mset (q_msgs (ps_queue q w)) - {#m0#} + {#m#} \<and>
     (\<forall>x. x \<noteq> q \<longrightarrow> ps_queue x w1 = ps_queue x w)"
proof -
  let ?Q = "ps_queue q w" and ?V = "q_visible (ps_queue q w) createdAt"
  obtain w0 ms where w0: "ps_queues (snd w0) = ps_queues (snd w)"
    "take_msgs ?V s (q_msgs (ps_queues (q_rIter srt q (snd w0)) ! q)) = (Some m, ms)"
    "w1 = (fst w0, ps_set_msgs q (\<lambda>_. ms) (q_rIter srt q (snd w0)))"
    using take_pass_Taken[OF assms(5)] by metis
  let ?S = "srt (queue_less ?Q) (q_msgs ?Q)"
  have "q_msgs (ps_queues (q_rIter srt q (snd w0)) ! q) = ?S"
    using assms(3) w0(1) by (simp add: q_rIter_def ps_queue_def)
  with w0(2) have t: "take_msgs ?V s ?S = (Some m, ms)" by simp
  obtain pre m0 post where p: "?S = pre @ m0 # post" "ms = pre @ m # post" "m = m0\<lparr>qm_takenBy := s\<rparr>"
    "qm_takenBy m0 = 0" "?V m0" "\<forall>x \<in> set pre. \<not> (qm_takenBy x = 0 \<and> ?V x)"
    using take_msgs_Some[OF t assms(4)] .
  have S: "set ?S = set (q_msgs ?Q)" "mset ?S = mset (q_msgs ?Q)"
    using assms(1) by (simp_all add: sort_Slice_set sort_Slice_mset)
  have "sorted_wrt (\<lambda>x y. \<not> queue_less ?Q y x) ?S" using assms(1,2) by (simp add: sort_Slice_def)
  then have "\<forall>x \<in> set post. \<not> queue_less ?Q x m0" unfolding p(1) by (simp add: sorted_wrt_append)
  moreover have "\<not> queue_less ?Q m0 m0" using assms(2) unfolding strict_weak_def by blast
  ultimately have "\<forall>x \<in> set ?S. qm_takenBy x = 0 \<and> ?V x \<longrightarrow> \<not> queue_less ?Q x m0" using p(6) unfolding p(1) by auto
  moreover have "m0 \<in> set ?S" unfolding p(1) by simp
  moreover have "mset ms = mset ?S - {#m0#} + {#m#}" unfolding p(1,2) by simp
  moreover have "q_msgs (ps_queue q w1) = ms"
    using w0(1,3) assms(3) by (simp add: ps_queue_def q_rIter_def)
  moreover have "\<forall>x. x \<noteq> q \<longrightarrow> ps_queue x w1 = ps_queue x w" using w0(1,3) by (simp add: ps_queue_def q_rIter_def)
  ultimately show ?thesis using p(3,4,5) S by (intro bexI[of _ m0]) auto
qed

text \<open>An example: two messages published at the times 5 and 3.\<close>

definition ex_pubsub :: "nat psw" where
  "ex_pubsub =
     (\<lparr>cancelled = [], next_cancel = 0, tm_cells = []\<rparr>,
      \<lparr>ps_queues = [new_queue\<lparr>q_msgs :=
           [\<lparr>qm_v = 10, qm_id = 1, qm_timestamp = 5, qm_takenBy = 0\<rparr>, \<lparr>qm_v = 20, qm_id = 2, qm_timestamp = 3, qm_takenBy = 0\<rparr>]\<rparr>,
         new_queue],
       ps_txs = [], ps_clock = (\<lambda>n. 6 + n), ps_ticks = 0, ps_msgIDIndex = 2\<rparr>)"

definition ex_tx :: tmctx where
  "ex_tx = WithValueCtx () 0 (WithCancelCtx 0 Background)"

lemma ex_take: "\<exists>w1. take_pass insertion_sort 0 Background 1 0 ex_pubsub =
    Some (Taken \<lparr>qm_v = 20, qm_id = 2, qm_timestamp = 3, qm_takenBy = 1\<rparr> ex_tx, w1)"
  by (simp add: take_pass_def ex_pubsub_def ex_tx_def ps_queue_def new_queue_def q_BeginTx_def m_BeginTx_def m_lookupTx_def
      q_txm_def context_WithCancel_def Let_def q_rIter_def ps_set_msgs_def insertion_sort_def queue_less_def
      message_take_def q_visible_def)

theorem queue_take_order_witness:
  "\<exists>w1. take_pass insertion_sort 0 Background 1 0 ex_pubsub =
      Some (Taken \<lparr>qm_v = 20, qm_id = 2, qm_timestamp = 3, qm_takenBy = 1\<rparr> ex_tx, w1) \<and>
     mset (q_msgs (ps_queue 0 w1)) =
       {#\<lparr>qm_v = 10, qm_id = 1, qm_timestamp = 5, qm_takenBy = 0\<rparr>, \<lparr>qm_v = 20, qm_id = 2, qm_timestamp = 3, qm_takenBy = 1\<rparr>#}"
proof -
  have "strict_weak (queue_less (ps_queue 0 ex_pubsub))"
    by (rule strict_weak_FIFO) (simp_all add: ps_queue_def ex_pubsub_def new_queue_def)
  moreover obtain w1 where w1: "take_pass insertion_sort 0 Background 1 0 ex_pubsub =
      Some (Taken \<lparr>qm_v = 20, qm_id = 2, qm_timestamp = 3, qm_takenBy = 1\<rparr> ex_tx, w1)"
    using ex_take by blast
  ultimately obtain m0 where m0: "m0 \<in> set (q_msgs (ps_queue 0 ex_pubsub))"
    "\<lparr>qm_v = 20, qm_id = 2, qm_timestamp = 3, qm_takenBy = 1\<rparr> = m0\<lparr>qm_takenBy := 1\<rparr>" "qm_takenBy m0 = 0"
    "mset (q_msgs (ps_queue 0 w1)) = mset (q_msgs (ps_queue 0 ex_pubsub)) - {#m0#} +
       {#\<lparr>qm_v = 20, qm_id = 2, qm_timestamp = 3, qm_takenBy = 1\<rparr>#}"
    using queue_take_order[OF insertion_sort_Slice _ _ _ w1] by (auto simp: ex_pubsub_def)
  have "m0 = \<lparr>qm_v = 20, qm_id = 2, qm_timestamp = 3, qm_takenBy = 0\<rparr>" using m0(2,3) by (cases m0) simp
  with w1 m0(4) show ?thesis by (simp add: ps_queue_def ex_pubsub_def new_queue_def)
qed

section \<open>Transactions of a message\<close>

text \<open>A context that holds the open root transaction \<open>t\<close> in the cell \<open>a\<close>.\<close>

definition root_tx :: "tmctx \<Rightarrow> nat \<Rightarrow> nat \<Rightarrow> 'd psw \<Rightarrow> bool" where
  "root_tx tx a t w \<longleftrightarrow> m_lookupTx tx = Some a \<and> a < length (tm_cells (fst w)) \<and> tm_tx (tm_cells (fst w) ! a) = Some t \<and>
     \<not> tm_done (tm_cells (fst w) ! a) \<and> t < length (ps_txs (snd w))"

lemma BeginTx_root:
  assumes "m_lookupTx ctx = None" "ctx_Err (fst w) ctx = None" "\<forall>i \<in> set (cancelled (fst w)). i < next_cancel (fst w)"
  obtains tx w1 where "m_BeginTx (q_txm q) ctx w = ((Some tx, None), w1)"
    "root_tx tx (length (tm_cells (fst w))) (length (ps_txs (snd w))) w1"
    "ps_txs (snd w1) = ps_txs (snd w) @ [\<lparr>qt_q = q, qt_ds = []\<rparr>]"
    "snd w1 = (snd w)\<lparr>ps_txs := ps_txs (snd w1)\<rparr>"
    "take (length (tm_cells (fst w))) (tm_cells (fst w1)) = tm_cells (fst w)"
    "cancelled (fst w1) = cancelled (fst w)" "next_cancel (fst w1) = Suc (next_cancel (fst w))"
    "ctx_Err (fst w1) tx = None" "ctx_cancels tx = insert (next_cancel (fst w)) (ctx_cancels ctx)"
    "tm_cancel (tm_cells (fst w1) ! length (tm_cells (fst w))) = next_cancel (fst w)"
proof -
  let ?tx = "WithValueCtx () (length (tm_cells (fst w))) (WithCancelCtx (next_cancel (fst w)) ctx)"
  let ?cell = "\<lparr>tm_parent = None, tm_tx = Some (length (ps_txs (snd w))), tm_done = False, tm_cancel = next_cancel (fst w)\<rparr>"
  let ?s = "(fst w)\<lparr>next_cancel := Suc (next_cancel (fst w)), tm_cells := tm_cells (fst w) @ [?cell]\<rparr>"
  let ?z = "(snd w)\<lparr>ps_txs := ps_txs (snd w) @ [\<lparr>qt_q = q, qt_ds = []\<rparr>]\<rparr>"
  have eq: "m_BeginTx (q_txm q) ctx w = ((Some ?tx, None), (?s, ?z))"
    using assms(1,2) by (simp add: m_BeginTx_def q_txm_def context_WithCancel_def Let_def)
  have "ctx_Err ?s ctx = None" using assms(2) by (simp add: ctx_Err_iff)
  moreover have "next_cancel (fst w) \<notin> set (cancelled (fst w))" using assms(3) by blast
  ultimately show thesis
    by (intro that[OF eq]) (simp_all add: root_tx_def m_lookupTx_def)
qed

lemma root_tx_LookupTx: "root_tx tx a t w \<Longrightarrow> m_LookupTx tx (fst w) = Some (Some t)"
  by (subst m_LookupTx_def) (simp add: root_tx_def m_lookupRootTx_def m_root_loop.simps)

lemma Publish_in_tx:
  assumes "root_tx tx a t w" "ctx_Err (fst w) tx = None" "\<not> q_Blocking (ps_queue b w)"
  shows "q_Publish srt env b tx d w =
    Some (None, (fst w, (snd w)\<lparr>ps_txs := (ps_txs (snd w))[t := (ps_txs (snd w) ! t)\<lparr>qt_ds := qt_ds (ps_txs (snd w) ! t) @ [d]\<rparr>]\<rparr>))"
  using assms by (simp add: q_Publish_def m_Q_def root_tx_LookupTx q_publisher_Publish_def)

lemma CommitTx_root:
  assumes "root_tx tx a t w" "ctx_Err (fst w) c = None" "m_lookupTx c = m_lookupTx tx"
  shows "q_CommitTx q c w =
    Some (None, (context_cancel (tm_cancel (tm_cells (fst w) ! a)) (fst (tm_mark a w)),
      snd (q_dbPublish (qt_q (ps_txs (snd w) ! t)) (qt_ds (ps_txs (snd w) ! t)) (snd w))))"
proof -
  have "tm_cancel (tm_cells (fst (tm_mark a w)) ! a) = tm_cancel (tm_cells (fst w) ! a)"
    using assms(1) by (simp add: tm_mark_def root_tx_def Let_def)
  then show ?thesis using assms
    by (simp add: q_CommitTx_def m_CommitTx_def root_tx_def q_txm_def tm_do_cancel_def q_dbPublish_def split: prod.split)
qed

lemma RollbackTx_root:
  assumes "root_tx tx a t w" "ctx_Err (fst w) c = None" "m_lookupTx c = m_lookupTx tx"
  shows "q_RollbackTx q c w =
    Some (None, (context_cancel (tm_cancel (tm_cells (fst w) ! a)) (fst (tm_mark a w)),
      (snd w)\<lparr>ps_txs := (ps_txs (snd w))[t := (ps_txs (snd w) ! t)\<lparr>qt_ds := []\<rparr>]\<rparr>))"
proof -
  have "tm_cancel (tm_cells (fst (tm_mark a w)) ! a) = tm_cancel (tm_cells (fst w) ! a)"
    using assms(1) by (simp add: tm_mark_def root_tx_def Let_def)
  then show ?thesis using assms
    by (simp add: q_RollbackTx_def m_RollbackTx_def m_rollback_loop.simps root_tx_def q_txm_def tm_do_cancel_def Let_def)
qed

lemma make_messages_spec:
  "make_messages ds z = (ms, z') \<Longrightarrow>
     map qm_v ms = ds \<and> map qm_id ms = [Suc (ps_msgIDIndex z)..<Suc (ps_msgIDIndex z')] \<and> (\<forall>m \<in> set ms. qm_takenBy m = 0) \<and>
     ps_queues z' = ps_queues z \<and> ps_txs z' = ps_txs z \<and> ps_msgIDIndex z' = ps_msgIDIndex z + length ds"
proof (induction ds arbitrary: z ms)
  case (Cons d ds)
  obtain m z1 ms1 where m: "make_message d z = (m, z1)" "make_messages ds z1 = (ms1, z')" "ms = m # ms1"
    using Cons.prems by (auto split: prod.splits)
  have "qm_v m = d" "qm_id m = Suc (ps_msgIDIndex z)" "qm_takenBy m = 0" "ps_queues z1 = ps_queues z" "ps_txs z1 = ps_txs z"
    "ps_msgIDIndex z1 = Suc (ps_msgIDIndex z)"
    using m(1) by (auto simp: make_message_def clock_Now_def)
  with Cons.IH[OF m(2)] m(3) show ?case by (simp add: upt_conv_Cons del: upt_Suc)
qed simp

lemma dbPublish_spec:
  obtains ms where "map qm_v ms = ds" "map qm_id ms = [Suc (ps_msgIDIndex z)..<Suc (ps_msgIDIndex (snd (q_dbPublish q ds z)))]"
    "\<forall>m \<in> set ms. qm_takenBy m = 0" "ps_queues (snd (q_dbPublish q ds z)) = ps_queues (ps_set_msgs q (\<lambda>l. l @ ms) z)"
    "ps_txs (snd (q_dbPublish q ds z)) = ps_txs z" "fst (q_dbPublish q ds z) = None"
    "ps_msgIDIndex (snd (q_dbPublish q ds z)) = ps_msgIDIndex z + length ds"
proof -
  obtain ms z' where ms: "make_messages ds z = (ms, z')" by (metis surj_pair)
  show thesis using that[of ms] make_messages_spec[OF ms] by (simp add: q_dbPublish_def ms ps_set_msgs_def)
qed

text \<open>A consumer publishes \<open>ds\<close> to the queues \<open>bs\<close> with the context of its message.\<close>

fun publish_each ::
    "'d sorter \<Rightarrow> (nat \<Rightarrow> 'd psw \<Rightarrow> 'd psw) \<Rightarrow> tmctx \<Rightarrow> (nat \<times> 'd) list \<Rightarrow> 'd psw \<Rightarrow> 'd psw option" where
  "publish_each srt env tx [] w = Some w"
| "publish_each srt env tx ((b, d) # ps) w =
     (case q_Publish srt env b tx d w of
        Some (None, w1) \<Rightarrow> publish_each srt env tx ps w1
      | _ \<Rightarrow> None)"

lemma publish_each_in_tx:
  "root_tx tx a t w \<Longrightarrow> ctx_Err (fst w) tx = None \<Longrightarrow> list_all (\<lambda>(b, d). \<not> q_Blocking (ps_queue b w)) ps \<Longrightarrow>
     publish_each srt env tx ps w =
       Some (fst w, (snd w)\<lparr>ps_txs := (ps_txs (snd w))[t := (ps_txs (snd w) ! t)\<lparr>qt_ds := qt_ds (ps_txs (snd w) ! t) @ map snd ps\<rparr>]\<rparr>)"
proof (induction ps arbitrary: w)
  case Nil
  then have "t < length (ps_txs (snd w))" by (simp add: root_tx_def)
  then show ?case by (simp add: list_update_same_conv prod_eq_iff)
next
  case (Cons p ps)
  obtain b d where p: "p = (b, d)" by (cases p)
  let ?w = "(fst w, (snd w)\<lparr>ps_txs := (ps_txs (snd w))[t := (ps_txs (snd w) ! t)\<lparr>qt_ds := qt_ds (ps_txs (snd w) ! t) @ [d]\<rparr>]\<rparr>)"
  have t: "t < length (ps_txs (snd w))" using Cons.prems(1) by (simp add: root_tx_def)
  have "root_tx tx a t ?w" "ctx_Err (fst ?w) tx = None" "list_all (\<lambda>(b, d). \<not> q_Blocking (ps_queue b ?w)) ps"
    using Cons.prems by (simp_all add: root_tx_def ps_queue_def p)
  note IH = Cons.IH[OF this]
  have "\<not> q_Blocking (ps_queue b w)" using Cons.prems(3) p by simp
  then show ?case using IH t unfolding p by (simp add: Publish_in_tx[OF Cons.prems(1,2)])
qed

text \<open>What a delivering pass of a queue that is not blocking leaves behind.\<close>

lemma take_pass_state:
  assumes "take_pass srt q ctx s createdAt w = Some (Taken m tx, w1)" "\<not> q_Blocking (ps_queue q w)" "m_lookupTx ctx = None"
    and "\<forall>i \<in> set (cancelled (fst w)). i < next_cancel (fst w)" "q < length (ps_queues (snd w))"
  obtains t ms where "root_tx tx (length (tm_cells (fst w))) t w1" "ctx_Err (fst w1) tx = None"
    "ps_txs (snd w1) ! t = \<lparr>qt_q = q, qt_ds = []\<rparr>"
    "take_msgs (q_visible (ps_queue q w) createdAt) s (srt (queue_less (ps_queue q w)) (q_msgs (ps_queue q w))) = (Some m, ms)"
    "ps_queues (snd w1) = (ps_queues (snd w))[q := (ps_queue q w)\<lparr>q_msgs := ms\<rparr>]" "ps_msgIDIndex (snd w1) = ps_msgIDIndex (snd w)"
proof -
  obtain w0 ms where w0: "ctx_Err (fst w) ctx = None"
    "(if q_Blocking (ps_queue q w) then ((Some ctx, None), w) else m_BeginTx (q_txm q) ctx w) = ((Some tx, None), w0)"
    "ps_queues (snd w0) = ps_queues (snd w)"
    "take_msgs (q_visible (ps_queue q w) createdAt) s (q_msgs (ps_queues (q_rIter srt q (snd w0)) ! q)) = (Some m, ms)"
    "w1 = (fst w0, ps_set_msgs q (\<lambda>_. ms) (q_rIter srt q (snd w0)))"
    using take_pass_Taken[OF assms(1)] .
  obtain tx' w' where b: "m_BeginTx (q_txm q) ctx w = ((Some tx', None), w')"
    "root_tx tx' (length (tm_cells (fst w))) (length (ps_txs (snd w))) w'"
    "ps_txs (snd w') = ps_txs (snd w) @ [\<lparr>qt_q = q, qt_ds = []\<rparr>]"
    "snd w' = (snd w)\<lparr>ps_txs := ps_txs (snd w')\<rparr>" "ctx_Err (fst w') tx' = None"
    using BeginTx_root[OF assms(3) w0(1) assms(4), of q] by metis
  have "tx' = tx" "w' = w0" using b(1) w0(2) assms(2) by simp_all
  note b = b[unfolded this]
  have "root_tx tx (length (tm_cells (fst w))) (length (ps_txs (snd w))) w1"
    using b(2) by (simp add: root_tx_def w0(5) q_rIter_def)
  moreover have "ctx_Err (fst w1) tx = None" using b(5) w0(5) by simp
  moreover have "ps_txs (snd w1) ! length (ps_txs (snd w)) = \<lparr>qt_q = q, qt_ds = []\<rparr>"
    using b(3) by (simp add: w0(5) q_rIter_def)
  moreover have "take_msgs (q_visible (ps_queue q w) createdAt) s (srt (queue_less (ps_queue q w)) (q_msgs (ps_queue q w))) = (Some m, ms)"
    using w0(3,4) assms(5) by (simp add: q_rIter_def ps_queue_def)
  moreover have "ps_queues (snd w1) = (ps_queues (snd w))[q := (ps_queue q w)\<lparr>q_msgs := ms\<rparr>]"
    using w0(3) assms(5) by (simp add: w0(5) q_rIter_def ps_set_msgs_def ps_queue_def)
  moreover have "ps_msgIDIndex (snd w1) = ps_msgIDIndex (snd w)"
    using b(4) by (simp add: w0(5) q_rIter_def) (metis pubsub.select_convs(5) pubsub.surjective pubsub.update_convs(2))
  ultimately show thesis using that by blast
qed

text \<open>Releasing the message that was taken gives the messages as they were sorted.\<close>

lemma release_taken:
  assumes "distinct (map qm_id ms)" "take_msgs visible s ms = (Some m, ms')" "s \<noteq> 0"
  shows "map (\<lambda>x. if qm_id x = qm_id m then message_release s x else x) ms' = ms"
proof -
  obtain pre m0 post where p: "ms = pre @ m0 # post" "ms' = pre @ m # post" "m = m0\<lparr>qm_takenBy := s\<rparr>" "qm_takenBy m0 = 0"
    using take_msgs_Some[OF assms(2,3)] by metis
  have "qm_id x \<noteq> qm_id m" if "x \<in> set pre \<union> set post" for x
    using assms(1) that unfolding p(1,3) by (auto simp: image_iff)
  then have "map (\<lambda>x. if qm_id x = qm_id m then message_release s x else x) pre = pre"
    "map (\<lambda>x. if qm_id x = qm_id m then message_release s x else x) post = post"
    by (auto intro: map_idI)
  moreover have "message_release s m = m0" using p(3,4) assms(3) by (simp add: message_release_def)
  ultimately show ?thesis unfolding p(1,2) by simp
qed
lemma ack_root:
  assumes "root_tx tx a t w" "\<not> q_Blocking (ps_queue q w)" "ps_txs (snd w) ! t = \<lparr>qt_q = q, qt_ds = ds\<rparr>"
    and "ident \<le> ps_msgIDIndex (snd w)" "q < length (ps_queues (snd w))"
  shows "\<exists>w3 new. message_ack q ident s tx w = Some (None, w3) \<and> map qm_v new = ds \<and>
     ps_queues (snd w3) = (ps_queues (snd w))[q := (ps_queue q w)\<lparr>q_msgs := filter (\<lambda>x. qm_id x \<noteq> ident) (q_msgs (ps_queue q w)) @ new\<rparr>]"
proof -
  let ?z = "snd (q_dbPublish q ds (snd w))"
  obtain new where new: "map qm_v new = ds" "map qm_id new = [Suc (ps_msgIDIndex (snd w))..<Suc (ps_msgIDIndex ?z)]"
    "ps_queues ?z = ps_queues (ps_set_msgs q (\<lambda>l. l @ new) (snd w))"
    using dbPublish_spec[of ds "snd w" q] by metis
  have "qm_id x \<noteq> ident" if "x \<in> set new" for x
  proof -
    have "qm_id x \<in> set (map qm_id new)" using that by simp
    then show ?thesis using assms(4) unfolding new(2) by auto
  qed
  then have keep: "filter (\<lambda>x. qm_id x \<noteq> ident) new = new" by (simp add: filter_id_conv)
  from keep have new_rel: "map (\<lambda>x. if qm_id x = ident then message_release s x else x) new = new"
    by (intro map_idI) (auto simp: filter_id_conv)
  have rel: "map (\<lambda>x. if qm_id x = ident then message_release s x else x) (filter (\<lambda>x. qm_id x \<noteq> ident) l) = filter (\<lambda>x. qm_id x \<noteq> ident) l"
    for l by (rule map_idI) auto
  have "ps_queues (q_release q ident s (ps_set_msgs q (filter (\<lambda>m. qm_id m \<noteq> ident)) ?z)) =
      (ps_queues (snd w))[q := (ps_queue q w)\<lparr>q_msgs := filter (\<lambda>x. qm_id x \<noteq> ident) (q_msgs (ps_queue q w)) @ new\<rparr>]"
    using assms(5) new(3) by (simp add: q_release_def ps_set_msgs_def ps_queue_def rel keep new_rel)
  then show ?thesis using assms(2) new(1) CommitTx_root[OF assms(1), of "contextkit_WithoutCancel tx" q]
    by (intro exI[of _ "snd (the (message_ack q ident s tx w))"] exI[of _ new]) (simp add: message_ack_def assms(3) m_lookupTx_def)
qed

lemma nack_root:
  assumes "root_tx tx a t w" "\<not> q_Blocking (ps_queue q w)"
  shows "\<exists>w3. message_nack q ident s tx w = Some (None, w3) \<and> ps_queues (snd w3) = ps_queues (q_release q ident s (snd w))"
proof -
  have "root_tx tx a t (fst w, q_release q ident s (snd w))" using assms(1) by (simp add: root_tx_def q_release_def)
  from RollbackTx_root[OF this, of "contextkit_WithoutCancel tx" q] assms(2)
  show ?thesis by (simp add: message_nack_def m_lookupTx_def)
qed

text \<open>C29: the transactional context of a message: everything a consumer publishes with the context of its message, to whichever queues of the data type, is held back; \<^verbatim>\<open>ACK\<close> then removes the message and appends all of it to the queue the message came from, and \<^verbatim>\<open>NACK\<close> drops it and leaves the messages as they were before the delivery, in the order of the queue.\<close>

theorem queue_message_transaction:
  assumes "take_pass srt q ctx s createdAt w = Some (Taken m tx, w1)" "\<not> q_Blocking (ps_queue q w)" "m_lookupTx ctx = None"
    and "\<forall>i \<in> set (cancelled (fst w)). i < next_cancel (fst w)" "q < length (ps_queues (snd w))" "s \<noteq> 0"
    and "sort_Slice srt" "distinct (map qm_id (q_msgs (ps_queue q w)))" "\<forall>x \<in> set (q_msgs (ps_queue q w)). qm_id x \<le> ps_msgIDIndex (snd w)"
    and "list_all (\<lambda>(b, d). \<not> q_Blocking (ps_queue b w)) ps"
  shows "\<exists>w2. publish_each srt env tx ps w1 = Some w2 \<and> ps_queues (snd w2) = ps_queues (snd w1) \<and>
     (\<exists>w3 new. message_ack q (qm_id m) s tx w2 = Some (None, w3) \<and> map qm_v new = map snd ps \<and>
        ps_queues (snd w3) = (ps_queues (snd w1))[q := (ps_queue q w1)\<lparr>q_msgs :=
          filter (\<lambda>x. qm_id x \<noteq> qm_id m) (q_msgs (ps_queue q w1)) @ new\<rparr>]) \<and>
     (\<exists>w3. message_nack q (qm_id m) s tx w2 = Some (None, w3) \<and>
        ps_queues (snd w3) = (ps_queues (snd w))[q := (ps_queue q w)\<lparr>q_msgs := srt (queue_less (ps_queue q w)) (q_msgs (ps_queue q w))\<rparr>])"
proof -
  let ?Q = "ps_queue q w" and ?S = "srt (queue_less (ps_queue q w)) (q_msgs (ps_queue q w))"
  obtain t ms where st: "root_tx tx (length (tm_cells (fst w))) t w1" "ctx_Err (fst w1) tx = None"
    "ps_txs (snd w1) ! t = \<lparr>qt_q = q, qt_ds = []\<rparr>" "take_msgs (q_visible ?Q createdAt) s ?S = (Some m, ms)"
    "ps_queues (snd w1) = (ps_queues (snd w))[q := ?Q\<lparr>q_msgs := ms\<rparr>]" "ps_msgIDIndex (snd w1) = ps_msgIDIndex (snd w)"
    using take_pass_state[OF assms(1-5)] by metis
  have nb: "q_Blocking (ps_queue b w1) = q_Blocking (ps_queue b w)" for b
    using st(5) assms(5) by (simp add: ps_queue_def nth_list_update_if)
  then have ps: "list_all (\<lambda>(b, d). \<not> q_Blocking (ps_queue b w1)) ps" using assms(10) by simp
  let ?w2 = "(fst w1, (snd w1)\<lparr>ps_txs := (ps_txs (snd w1))[t := (ps_txs (snd w1) ! t)\<lparr>qt_ds := map snd ps\<rparr>]\<rparr>)"
  have pub: "publish_each srt env tx ps w1 = Some ?w2" using publish_each_in_tx[OF st(1,2) ps] st(3) by simp
  have t: "t < length (ps_txs (snd w1))" using st(1) by (simp add: root_tx_def)
  have r2: "root_tx tx (length (tm_cells (fst w))) t ?w2" using st(1) by (simp add: root_tx_def)
  have tx2: "ps_txs (snd ?w2) ! t = \<lparr>qt_q = q, qt_ds = map snd ps\<rparr>" using t st(3) by simp
  have nb2: "\<not> q_Blocking (ps_queue q ?w2)" using nb[of q] assms(2) by (simp add: ps_queue_def)
  have len: "q < length (ps_queues (snd w1))" using st(5) assms(5) by simp
  obtain pre m0 post where p: "?S = pre @ m0 # post" "ms = pre @ m # post" "m = m0\<lparr>qm_takenBy := s\<rparr>"
    using take_msgs_Some[OF st(4) assms(6)] by metis
  have "m0 \<in> set (q_msgs ?Q)" using sort_Slice_set[OF assms(7), of "queue_less ?Q" "q_msgs ?Q"] unfolding p(1) by auto
  then have le: "qm_id m \<le> ps_msgIDIndex (snd w)" using assms(9) p(3) by simp
  have "qm_id m \<le> ps_msgIDIndex (snd ?w2)" "q < length (ps_queues (snd ?w2))" using le st(6) len by simp_all
  from ack_root[OF r2 nb2 tx2 this, of s]
  have ack: "\<exists>w3 new. message_ack q (qm_id m) s tx ?w2 = Some (None, w3) \<and> map qm_v new = map snd ps \<and>
      ps_queues (snd w3) = (ps_queues (snd w1))[q := (ps_queue q w1)\<lparr>q_msgs :=
          filter (\<lambda>x. qm_id x \<noteq> qm_id m) (q_msgs (ps_queue q w1)) @ new\<rparr>]"
    by (simp add: ps_queue_def)
  have "distinct (map qm_id ?S)"
    using assms(8) sort_Slice_mset[OF assms(7), of "queue_less ?Q" "q_msgs ?Q"] by (metis mset_eq_imp_distinct_iff mset_map)
  note released = release_taken[OF this st(4) assms(6)]
  have "ps_queues (q_release q (qm_id m) s (snd ?w2)) = (ps_queues (snd w))[q := ?Q\<lparr>q_msgs := ?S\<rparr>]"
    using assms(5) by (simp add: q_release_def ps_set_msgs_def st(5) released)
  then have "\<exists>w3. message_nack q (qm_id m) s tx ?w2 = Some (None, w3) \<and>
        ps_queues (snd w3) = (ps_queues (snd w))[q := ?Q\<lparr>q_msgs := ?S\<rparr>]"
    using nack_root[OF r2 nb2, of "qm_id m" s] by simp
  moreover have "ps_queues (snd ?w2) = ps_queues (snd w1)" by simp
  ultimately show ?thesis using pub ack by blast
qed

lemma ex_take_state: "\<exists>w1. take_pass insertion_sort 0 Background 1 0 ex_pubsub =
    Some (Taken \<lparr>qm_v = 20, qm_id = 2, qm_timestamp = 3, qm_takenBy = 1\<rparr> ex_tx, w1) \<and>
    ps_queues (snd w1) = [new_queue\<lparr>q_msgs :=
      [\<lparr>qm_v = 20, qm_id = 2, qm_timestamp = 3, qm_takenBy = 1\<rparr>, \<lparr>qm_v = 10, qm_id = 1, qm_timestamp = 5, qm_takenBy = 0\<rparr>]\<rparr>, new_queue]"
  by (simp add: take_pass_def ex_pubsub_def ex_tx_def ps_queue_def new_queue_def q_BeginTx_def m_BeginTx_def m_lookupTx_def
      q_txm_def context_WithCancel_def Let_def q_rIter_def ps_set_msgs_def insertion_sort_def queue_less_def
      message_take_def q_visible_def)

theorem queue_message_transaction_witness:
  "\<exists>w1 w2 w3. take_pass insertion_sort 0 Background 1 0 ex_pubsub =
      Some (Taken \<lparr>qm_v = 20, qm_id = 2, qm_timestamp = 3, qm_takenBy = 1\<rparr> ex_tx, w1) \<and>
     publish_each insertion_sort (\<lambda>_ w. w) ex_tx [(1, 30)] w1 = Some w2 \<and> message_ack 0 2 1 ex_tx w2 = Some (None, w3) \<and>
     map qm_v (q_msgs (ps_queue 0 w3)) = [10, 30] \<and> q_msgs (ps_queue 1 w3) = []"
proof -
  obtain w1 where w1: "take_pass insertion_sort 0 Background 1 0 ex_pubsub =
      Some (Taken \<lparr>qm_v = 20, qm_id = 2, qm_timestamp = 3, qm_takenBy = 1\<rparr> ex_tx, w1)"
    "ps_queues (snd w1) = [new_queue\<lparr>q_msgs :=
      [\<lparr>qm_v = 20, qm_id = 2, qm_timestamp = 3, qm_takenBy = 1\<rparr>, \<lparr>qm_v = 10, qm_id = 1, qm_timestamp = 5, qm_takenBy = 0\<rparr>]\<rparr>, new_queue]"
    using ex_take_state by blast
  have "\<not> q_Blocking (ps_queue 0 ex_pubsub)" "m_lookupTx Background = None"
    "\<forall>i \<in> set (cancelled (fst ex_pubsub)). i < next_cancel (fst ex_pubsub)" "0 < length (ps_queues (snd ex_pubsub))" "(1 :: nat) \<noteq> 0"
    "distinct (map qm_id (q_msgs (ps_queue 0 ex_pubsub)))"
    "\<forall>x \<in> set (q_msgs (ps_queue 0 ex_pubsub)). qm_id x \<le> ps_msgIDIndex (snd ex_pubsub)"
    "list_all (\<lambda>(b, d). \<not> q_Blocking (ps_queue b ex_pubsub)) [(1, 30)]"
    by (simp_all add: ex_pubsub_def ps_queue_def new_queue_def m_lookupTx_def)
  note T = queue_message_transaction[OF w1(1) this(1-5) insertion_sort_Slice this(6-8), of "\<lambda>_ w. w"]
  let ?m = "\<lparr>qm_v = 20, qm_id = 2, qm_timestamp = 3, qm_takenBy = 1\<rparr> :: nat queue_message"
  from T obtain w2 w3 new where r: "publish_each insertion_sort (\<lambda>_ w. w) ex_tx [(1, 30)] w1 = Some w2"
    "message_ack 0 (qm_id ?m) 1 ex_tx w2 = Some (None, w3)" "map qm_v new = map snd [(1 :: nat, 30)]"
    "ps_queues (snd w3) = (ps_queues (snd w1))[0 := (ps_queue 0 w1)\<lparr>q_msgs := filter (\<lambda>x. qm_id x \<noteq> qm_id ?m) (q_msgs (ps_queue 0 w1)) @ new\<rparr>]"
    by blast
  have "map qm_v (q_msgs (ps_queue 0 w3)) = [10, 30]" "q_msgs (ps_queue 1 w3) = []"
    using r(3,4) w1(2) by (simp_all add: ps_queue_def new_queue_def)
  moreover have "message_ack 0 2 1 ex_tx w2 = Some (None, w3)" using r(2) by (simp only: queue_message.select_convs)
  ultimately show ?thesis using w1(1) r(1) by (intro exI[of _ w1] exI[of _ w2] exI[of _ w3] conjI)
qed

section \<open>The exchange publishes to all or to none\<close>

text \<open>What later transactions leave alone: the cells and transactions there are, and who is cancelled.\<close>

definition tm_later :: "nat tm_world \<Rightarrow> nat tm_world \<Rightarrow> bool" where
  "tm_later s s' \<longleftrightarrow>
     take (length (tm_cells s)) (tm_cells s') = tm_cells s \<and> next_cancel s \<le> next_cancel s' \<and>
     (\<exists>new. cancelled s' = new @ cancelled s \<and> (\<forall>i \<in> set new. next_cancel s \<le> i \<and> i < next_cancel s'))"

definition psw_later :: "'d psw \<Rightarrow> 'd psw \<Rightarrow> bool" where
  "psw_later w w' \<longleftrightarrow>
     tm_later (fst w) (fst w') \<and> take (length (ps_txs (snd w))) (ps_txs (snd w')) = ps_txs (snd w)"

lemma take_prefix_trans:
  assumes "take (length xs) ys = xs" "take (length ys) zs = ys" shows "take (length xs) zs = xs"
proof -
  have "length xs \<le> length ys" using arg_cong[OF assms(1), of length] by simp
  then have "take (length xs) zs = take (length xs) (take (length ys) zs)" by (simp add: min_def)
  then show ?thesis using assms by simp
qed

lemma tm_later_refl: "tm_later s s"
  by (simp add: tm_later_def)

lemma tm_later_trans:
  assumes "tm_later s s'" "tm_later s' s''" shows "tm_later s s''"
proof -
  obtain n1 n2 where n: "cancelled s' = n1 @ cancelled s" "\<forall>i \<in> set n1. next_cancel s \<le> i \<and> i < next_cancel s'"
    "cancelled s'' = n2 @ cancelled s'" "\<forall>i \<in> set n2. next_cancel s' \<le> i \<and> i < next_cancel s''"
    "next_cancel s \<le> next_cancel s'" "next_cancel s' \<le> next_cancel s''"
    using assms by (auto simp: tm_later_def)
  then have "cancelled s'' = (n2 @ n1) @ cancelled s" "\<forall>i \<in> set (n2 @ n1). next_cancel s \<le> i \<and> i < next_cancel s''" by fastforce+
  moreover have "take (length (tm_cells s)) (tm_cells s'') = tm_cells s"
    using assms take_prefix_trans unfolding tm_later_def by blast
  ultimately show ?thesis using n(5,6) unfolding tm_later_def by auto
qed

lemma psw_later_refl: "psw_later w w"
  by (simp add: psw_later_def tm_later_refl)

lemma psw_later_trans: "psw_later w w' \<Longrightarrow> psw_later w' w'' \<Longrightarrow> psw_later w w''"
  unfolding psw_later_def using tm_later_trans take_prefix_trans by blast

lemma psw_later_cancels:
  assumes "psw_later w w'" "\<forall>i \<in> set (cancelled (fst w)). i < next_cancel (fst w)"
  shows "\<forall>i \<in> set (cancelled (fst w')). i < next_cancel (fst w')"
  using assms by (fastforce simp: psw_later_def tm_later_def)

lemma psw_later_next: "psw_later w w' \<Longrightarrow> next_cancel (fst w) \<le> next_cancel (fst w')"
  by (simp add: psw_later_def tm_later_def)

lemma take_eq_nth: "take (length xs) ys = xs \<Longrightarrow> i < length xs \<Longrightarrow> i < length ys \<and> ys ! i = xs ! i"
  by (metis length_take min_less_iff_conj nth_take)

lemma psw_later_cell: "psw_later w w' \<Longrightarrow> a < length (tm_cells (fst w)) \<Longrightarrow>
    a < length (tm_cells (fst w')) \<and> tm_cells (fst w') ! a = tm_cells (fst w) ! a"
  unfolding psw_later_def tm_later_def using take_eq_nth by blast

lemma psw_later_tx: "psw_later w w' \<Longrightarrow> t < length (ps_txs (snd w)) \<Longrightarrow>
    t < length (ps_txs (snd w')) \<and> ps_txs (snd w') ! t = ps_txs (snd w) ! t"
  unfolding psw_later_def using take_eq_nth by blast

lemma psw_later_root: "psw_later w w' \<Longrightarrow> root_tx tx a t w \<Longrightarrow> root_tx tx a t w'"
  using psw_later_cell[of w w' a] psw_later_tx[of w w' t] by (simp add: root_tx_def)

lemma psw_later_Err:
  assumes "psw_later w w'" "\<forall>i \<in> ctx_cancels c. i < next_cancel (fst w)"
  shows "ctx_Err (fst w') c = ctx_Err (fst w) c"
proof -
  obtain new where "cancelled (fst w') = new @ cancelled (fst w)" "\<forall>i \<in> set new. next_cancel (fst w) \<le> i"
    using assms(1) by (auto simp: psw_later_def tm_later_def)
  then have "ctx_cancels c \<inter> set (cancelled (fst w')) = ctx_cancels c \<inter> set (cancelled (fst w))"
    using assms(2) by fastforce
  then show ?thesis using ctx_Err_iff[of "fst w'" c] ctx_Err_iff[of "fst w" c] ctx_Err_cases[of "fst w'" c] ctx_Err_cases[of "fst w" c]
    by auto
qed

text \<open>The queues after each of \<open>qs\<close> has received \<open>d\<close>.\<close>

definition delivered :: "nat list \<Rightarrow> 'd \<Rightarrow> 'd queue list \<Rightarrow> 'd queue list \<Rightarrow> bool" where
  "delivered qs d l l' \<longleftrightarrow> length l' = length l \<and>
     (\<forall>x < length l. \<exists>new. l' ! x = (l ! x)\<lparr>q_msgs := q_msgs (l ! x) @ new\<rparr> \<and> map qm_v new = replicate (count_list qs x) d)"

lemma delivered_append:
  assumes "delivered qs d l (ps_queues z)" "q < length l" "ps_queues z' = ps_queues (ps_set_msgs q (\<lambda>l. l @ ms) z)" "map qm_v ms = [d]"
  shows "delivered (q # qs) d l (ps_queues z')"
  unfolding delivered_def
proof (intro conjI allI impI)
  show "length (ps_queues z') = length l" using assms(1,3) by (simp add: delivered_def)
  fix x assume x: "x < length l"
  then obtain new where new: "ps_queues z ! x = (l ! x)\<lparr>q_msgs := q_msgs (l ! x) @ new\<rparr>" "map qm_v new = replicate (count_list qs x) d"
    using assms(1) by (auto simp: delivered_def)
  show "\<exists>new. ps_queues z' ! x = (l ! x)\<lparr>q_msgs := q_msgs (l ! x) @ new\<rparr> \<and> map qm_v new = replicate (count_list (q # qs) x) d"
  proof (cases "x = q")
    case True
    then have "ps_queues z' ! x = (l ! x)\<lparr>q_msgs := q_msgs (l ! x) @ (new @ ms)\<rparr>"
      using new(1) assms(1,2,3) by (simp add: delivered_def)
    moreover have "map qm_v (new @ ms) = replicate (count_list (q # qs) x) d"
      using new(2) assms(4) True by (simp add: replicate_append_same)
    ultimately show ?thesis by blast
  next
    case False
    then have "ps_queues z' ! x = ps_queues z ! x" using assms(3) by simp
    with new False show ?thesis by (intro exI[of _ new]) simp
  qed
qed

text \<open>A root transaction that was begun in \<open>w\<close> is finished in \<open>w3\<close>.\<close>

lemma later_finish:
  assumes "tm_later s1 s3" "take (length (tm_cells s)) (tm_cells s1) = tm_cells s" "length (tm_cells s) < length (tm_cells s1)"
    and "cancelled s1 = cancelled s" "next_cancel s1 = Suc (next_cancel s)"
    and "tm_cancel (tm_cells s1 ! length (tm_cells s)) = next_cancel s"
  shows "tm_later s (context_cancel (tm_cancel (tm_cells s3 ! length (tm_cells s))) (fst (tm_mark (length (tm_cells s)) (s3, z))))"
proof -
  let ?n = "length (tm_cells s)"
  have c: "tm_cells s3 ! ?n = tm_cells s1 ! ?n" using take_eq_nth[of "tm_cells s1" "tm_cells s3" ?n] assms(1,3) by (simp add: tm_later_def)
  have t: "take ?n (tm_cells s3) = tm_cells s" using take_prefix_trans[OF assms(2)] assms(1) by (simp add: tm_later_def)
  obtain new where "cancelled s3 = new @ cancelled s" "\<forall>i \<in> set new. Suc (next_cancel s) \<le> i \<and> i < next_cancel s3"
    "Suc (next_cancel s) \<le> next_cancel s3"
    using assms(1,4,5) by (auto simp: tm_later_def)
  then show ?thesis using t c assms(6)
    by (auto simp: tm_later_def context_cancel_def tm_mark_def Let_def intro!: exI[of _ "next_cancel s # new"])
qed

text \<open>Others that leave the queues alone, and the contexts and transactions that there are.\<close>

definition undisturbed :: "'d interference \<Rightarrow> bool" where
  "undisturbed others \<longleftrightarrow> (\<forall>k i w. psw_later w (others k i w) \<and> ps_queues (snd (others k i w)) = ps_queues (snd w))"

lemma undisturbedD:
  assumes "undisturbed others"
  shows "psw_later w (others k i w)" "ps_queues (snd (others k i w)) = ps_queues (snd w)"
  using assms unfolding undisturbed_def by blast+

abbreviation publish_each_of where
  "publish_each_of srt env others k qs ctx d \<equiv> eachQueue others k qs ctx (\<lambda>ctx q. q_Publish srt env q ctx d)"

abbreviation published_ok where
  "published_ok qs d ok w r w3 \<equiv> psw_later w w3 \<and> (r = None \<longleftrightarrow> ok) \<and>
     (if r = None then delivered qs d (ps_queues (snd w)) (ps_queues (snd w3)) else ps_queues (snd w3) = ps_queues (snd w))"

text \<open>The call for the first queue, from the point where its transaction begins.\<close>

lemma exchange_Publish_Cons:
  assumes o: "undisturbed others" and w: "w = others k 0 v"
    and no_tx: "m_lookupTx ctx = None" and live: "ctx_Err (fst w) ctx = None"
    and cancels: "\<forall>i \<in> set (cancelled (fst w)). i < next_cancel (fst w)" "\<forall>i \<in> ctx_cancels ctx. i < next_cancel (fst w)"
    and q: "q < length (ps_queues (snd w))" "\<not> q_Blocking (ps_queue q w)"
    and IH: "\<And>w2. ctx_Err (fst w2) ctx = None \<Longrightarrow> \<forall>i \<in> set (cancelled (fst w2)). i < next_cancel (fst w2) \<Longrightarrow>
      \<forall>i \<in> ctx_cancels ctx. i < next_cancel (fst w2) \<Longrightarrow> ps_queues (snd w2) = ps_queues (snd w) \<Longrightarrow>
      \<exists>r w3. publish_each_of srt env others (Suc k) qs ctx d w2 = Some (r, w3) \<and> published_ok qs d ok w2 r w3"
  shows "\<exists>r w3. publish_each_of srt env others k (q # qs) ctx d v = Some (r, w3) \<and> published_ok (q # qs) d ok w r w3"
proof -
  let ?a = "length (tm_cells (fst w))" and ?t = "length (ps_txs (snd w))"
  obtain tx w1 where b: "m_BeginTx (q_txm q) ctx w = ((Some tx, None), w1)" "root_tx tx ?a ?t w1"
    "ps_txs (snd w1) = ps_txs (snd w) @ [\<lparr>qt_q = q, qt_ds = []\<rparr>]" "snd w1 = (snd w)\<lparr>ps_txs := ps_txs (snd w1)\<rparr>"
    "take ?a (tm_cells (fst w1)) = tm_cells (fst w)" "cancelled (fst w1) = cancelled (fst w)"
    "next_cancel (fst w1) = Suc (next_cancel (fst w))" "ctx_Err (fst w1) tx = None"
    "ctx_cancels tx = insert (next_cancel (fst w)) (ctx_cancels ctx)" "tm_cancel (tm_cells (fst w1) ! ?a) = next_cancel (fst w)"
    using BeginTx_root[OF no_tx live cancels(1)] by metis
  define v1 where "v1 = others k (Suc 0) w1"
  have l1: "psw_later w1 v1" using undisturbedD(1)[OF o] by (simp add: v1_def)
  have qs1: "ps_queues (snd v1) = ps_queues (snd w)"
    using arg_cong[OF b(4), of ps_queues] undisturbedD(2)[OF o] by (simp add: v1_def)
  have nb: "\<not> q_Blocking (ps_queue q v1)" using q(2) qs1 by (simp add: ps_queue_def)
  have c1: "\<forall>i \<in> ctx_cancels tx. i < next_cancel (fst w1)" using cancels(2) b(7,9) by (auto simp: less_Suc_eq)
  have rv: "root_tx tx ?a ?t v1" using psw_later_root[OF l1 b(2)] .
  have tv: "ps_txs (snd v1) ! ?t = \<lparr>qt_q = q, qt_ds = []\<rparr>" "?t < length (ps_txs (snd v1))"
    using psw_later_tx[OF l1, of ?t] b(3) by simp_all
  define w2 where "w2 = (fst v1, (snd v1)\<lparr>ps_txs := (ps_txs (snd v1))[?t := \<lparr>qt_q = q, qt_ds = [d]\<rparr>]\<rparr>)"
  have pub: "q_Publish srt env q tx d v1 = Some (None, w2)"
    using Publish_in_tx[OF rv _ nb] psw_later_Err[OF l1 c1] b(8) tv by (simp add: w2_def)
  have r2: "root_tx tx ?a ?t w2" using rv by (simp add: root_tx_def w2_def)
  have lw: "\<forall>i \<in> ctx_cancels ctx. i < next_cancel (fst w1)" using cancels(2) b(7) by auto
  have "ctx_Err (fst w1) ctx = None" using live b(6) ctx_Err_cong[of "fst w1" "fst w" ctx] by simp
  then have "ctx_Err (fst w2) ctx = None" using psw_later_Err[OF l1 lw] by (simp add: w2_def)
  moreover have "\<forall>i \<in> set (cancelled (fst w2)). i < next_cancel (fst w2)"
    using psw_later_cancels[OF l1] cancels(1) b(6,7) by (auto simp: w2_def less_Suc_eq)
  moreover have "\<forall>i \<in> ctx_cancels ctx. i < next_cancel (fst w2)"
    using lw psw_later_next[OF l1] by (auto simp: w2_def intro: less_le_trans)
  ultimately obtain r w3 where w3: "publish_each_of srt env others (Suc k) qs ctx d w2 = Some (r, w3)" "psw_later w2 w3" "r = None \<longleftrightarrow> ok"
    "if r = None then delivered qs d (ps_queues (snd w)) (ps_queues (snd w3)) else ps_queues (snd w3) = ps_queues (snd w)"
    using IH[of w2] qs1 by (auto simp: w2_def)
  define v3 where "v3 = others k 2 w3"
  have l3: "psw_later w2 v3" "ps_queues (snd v3) = ps_queues (snd w3)"
    using psw_later_trans[OF w3(2)] undisturbedD[OF o] by (simp_all add: v3_def)
  have r3: "root_tx tx ?a ?t v3" using psw_later_root[OF l3(1) r2] .
  have t3: "ps_txs (snd v3) ! ?t = \<lparr>qt_q = q, qt_ds = [d]\<rparr>"
    using psw_later_tx[OF l3(1), of ?t] tv by (simp add: w2_def)
  have l: "tm_later (fst w1) (fst v3)" using tm_later_trans[of "fst w1" "fst v1" "fst v3"] l1 l3(1) by (simp add: psw_later_def w2_def)
  have e3: "ctx_Err (fst v3) tx = None"
    using psw_later_Err[OF l3(1), of tx] psw_later_Err[OF l1 c1] b(8) c1 psw_later_next[OF l1] by (auto simp: w2_def intro: less_le_trans)
  have run: "publish_each_of srt env others k (q # qs) ctx d v = q_Finish r q tx v3"
    using q(2) w3(1) pub by (simp add: q_BeginTx_def b(1) v1_def [symmetric] v3_def [symmetric] w [symmetric])
  have "take ?t (ps_txs (snd v1)) = ps_txs (snd w)"
    by (rule take_prefix_trans[of _ "ps_txs (snd w1)"]) (use b(3) l1 in \<open>simp_all add: psw_later_def\<close>)
  then have "take ?t (ps_txs (snd w2)) = ps_txs (snd w)" by (simp add: w2_def)
  then have tt: "take ?t (ps_txs (snd v3)) = ps_txs (snd w)"
    by (rule take_prefix_trans) (use l3(1) in \<open>simp add: psw_later_def\<close>)
  have "tm_later (fst w) (context_cancel (tm_cancel (tm_cells (fst v3) ! ?a)) (fst (tm_mark ?a v3)))"
    using later_finish[OF l b(5) _ b(6,7,10), of "snd v3"] b(2) by (simp add: root_tx_def)
  then have fin: "psw_later w (context_cancel (tm_cancel (tm_cells (fst v3) ! ?a)) (fst (tm_mark ?a v3)), z)"
    if "take ?t (ps_txs z) = take ?t (ps_txs (snd v3))" for z
    using that tt by (simp add: psw_later_def)
  show ?thesis
  proof (cases r)
    case None
    obtain ms where ms: "map qm_v ms = [d]" "ps_queues (snd (q_dbPublish q [d] (snd v3))) = ps_queues (ps_set_msgs q (\<lambda>l. l @ ms) (snd v3))"
      "ps_txs (snd (q_dbPublish q [d] (snd v3))) = ps_txs (snd v3)"
      using dbPublish_spec[of "[d]" "snd v3" q] by metis
    have "delivered (q # qs) d (ps_queues (snd w)) (ps_queues (snd (q_dbPublish q [d] (snd v3))))"
      using delivered_append[OF _ q(1) ms(2,1)] w3(4) l3(2) None by simp
    then show ?thesis using None w3(3) run CommitTx_root[OF r3 e3, of q] fin[of "snd (q_dbPublish q [d] (snd v3))"] ms(3)
      by (simp add: q_Finish_def t3)
  next
    case (Some err)
    then show ?thesis using w3(3,4) l3(2) run RollbackTx_root[OF r3 e3, of q] fin
      by (simp add: q_Finish_def Merge_None_iff)
  qed
qed

lemma exchange_Publish_spec:
  assumes o: "undisturbed others" and "m_lookupTx ctx = None" "ctx_Err (fst w) ctx = None"
    and "\<forall>i \<in> set (cancelled (fst w)). i < next_cancel (fst w)" "\<forall>i \<in> ctx_cancels ctx. i < next_cancel (fst w)"
    and "list_all (\<lambda>q. q < length (ps_queues (snd w))) e"
  shows "\<exists>r w3. publish_each_of srt env others k e ctx d w = Some (r, w3) \<and>
    published_ok e d (list_all (\<lambda>q. \<not> q_Blocking (ps_queue q w)) e) w r w3"
  using assms(3-6)
proof (induction e arbitrary: k w)
  case Nil
  then show ?case by (simp add: psw_later_refl delivered_def)
next
  case (Cons q qs)
  define v where "v = others k 0 w"
  have l: "psw_later w v" "ps_queues (snd v) = ps_queues (snd w)" using undisturbedD[OF o] by (simp_all add: v_def)
  have live: "ctx_Err (fst v) ctx = None" using psw_later_Err[OF l(1) Cons.prems(3)] Cons.prems(1) by simp
  have cn: "\<forall>i \<in> set (cancelled (fst v)). i < next_cancel (fst v)" "\<forall>i \<in> ctx_cancels ctx. i < next_cancel (fst v)"
    using psw_later_cancels[OF l(1) Cons.prems(2)] Cons.prems(3) psw_later_next[OF l(1)] by (auto intro: less_le_trans)
  have qb: "ps_queue x v = ps_queue x w" for x by (simp add: ps_queue_def l(2))
  show ?case
  proof (cases "q_Blocking (ps_queue q w)")
    case True
    then show ?thesis using l by (simp add: q_BeginTx_def v_def [symmetric] qb)
  next
    case False
    let ?ok = "list_all (\<lambda>q. \<not> q_Blocking (ps_queue q w)) qs"
    have IH: "\<exists>r w3. publish_each_of srt env others (Suc k) qs ctx d w2 = Some (r, w3) \<and> published_ok qs d ?ok w2 r w3"
      if "ctx_Err (fst w2) ctx = None" "\<forall>i \<in> set (cancelled (fst w2)). i < next_cancel (fst w2)"
        "\<forall>i \<in> ctx_cancels ctx. i < next_cancel (fst w2)" "ps_queues (snd w2) = ps_queues (snd v)" for w2 :: "'a psw"
    proof -
      have "list_all (\<lambda>q. q < length (ps_queues (snd w2))) qs" using Cons.prems(4) that(4) l(2) by simp
      from Cons.IH[OF that(1-3) this, of "Suc k"] show ?thesis by (simp add: ps_queue_def that(4) l(2))
    qed
    have q: "q < length (ps_queues (snd v))" "\<not> q_Blocking (ps_queue q v)" using Cons.prems(4) False by (simp_all add: l(2) qb)
    have "\<exists>r w3. publish_each_of srt env others k (q # qs) ctx d w = Some (r, w3) \<and> published_ok (q # qs) d ?ok v r w3"
      by (rule exchange_Publish_Cons[OF o v_def assms(2) live cn q]) (rule IH)
    then obtain r w3 where r: "publish_each_of srt env others k (q # qs) ctx d w = Some (r, w3)" "published_ok (q # qs) d ?ok v r w3"
      by (elim exE conjE) (rule that, assumption, intro conjI)
    have "psw_later w w3" using psw_later_trans[OF l(1)] r(2) by blast
    moreover have "list_all (\<lambda>q. \<not> q_Blocking (ps_queue q w)) (q # qs) = ?ok" using False by simp
    ultimately show ?thesis using r unfolding l(2) by (intro exI[of _ r] exI[of _ w3]) argo
  qed
qed

text \<open>C31: a fan-out exchange publishes to all of its queues or to none, outside a transaction and as long as nobody interferes: when the other goroutines that run between its steps neither cancel its context nor change its queues, Publish returns, and either succeeds and every bound queue has received the value once for each of its bindings, after what it held, or fails and no queue has changed; it fails exactly on a cancelled context with queues to publish to, or when one of them is blocking.\<close>

theorem exchange_all_or_nothing:
  assumes "m_lookupTx ctx = None" "undisturbed others"
    and "\<forall>i \<in> set (cancelled (fst w)). i < next_cancel (fst w)" "\<forall>i \<in> ctx_cancels ctx. i < next_cancel (fst w)"
    and "list_all (\<lambda>q. q < length (ps_queues (snd w))) e"
  shows "\<exists>r w'. exchange_Publish srt env others e ctx d w = Some (r, w') \<and>
     (r = None \<longleftrightarrow> e = [] \<or> ctx_Err (fst w) ctx = None \<and> list_all (\<lambda>q. \<not> q_Blocking (ps_queue q w)) e) \<and>
     length (ps_queues (snd w')) = length (ps_queues (snd w)) \<and>
     (\<forall>x < length (ps_queues (snd w)). \<exists>new. ps_queue x w' = (ps_queue x w)\<lparr>q_msgs := q_msgs (ps_queue x w) @ new\<rparr> \<and>
        map qm_v new = (if r = None then replicate (count_list e x) d else []))"
proof (cases "ctx_Err (fst w) ctx")
  case None
  from exchange_Publish_spec[OF assms(2,1) None assms(3-5), of 0 srt env d]
  obtain r w3 where "exchange_Publish srt env others e ctx d w = Some (r, w3)" "r = None \<longleftrightarrow> list_all (\<lambda>q. \<not> q_Blocking (ps_queue q w)) e"
    "if r = None then delivered e d (ps_queues (snd w)) (ps_queues (snd w3)) else ps_queues (snd w3) = ps_queues (snd w)"
    unfolding exchange_Publish_def by blast
  then show ?thesis using None by (intro exI[of _ r] exI[of _ w3]) (auto simp: delivered_def ps_queue_def split: if_splits)
next
  case (Some err)
  show ?thesis
  proof (cases e)
    case Nil
    then show ?thesis by (simp add: exchange_Publish_def)
  next
    case (Cons q qs)
    let ?v = "others 0 0 w"
    have "ctx_Err (fst ?v) ctx = Some err" using psw_later_Err[OF undisturbedD(1)[OF assms(2)] assms(4)] Some by simp
    then have "exchange_Publish srt env others e ctx d w = Some (Some (if q_Blocking (ps_queue q ?v) then errBlockingQueue else err), ?v)"
      using Cons by (simp add: exchange_Publish_def q_BeginTx_def m_BeginTx_def)
    then obtain err where "exchange_Publish srt env others e ctx d w = Some (Some err, ?v)" by blast
    then show ?thesis using Some Cons undisturbedD(2)[OF assms(2)]
      by (intro exI[of _ "Some err"] exI[of _ ?v]) (simp add: ps_queue_def)
  qed
qed

theorem exchange_all_or_nothing_witness:
  "\<exists>w'. exchange_Publish insertion_sort (\<lambda>_ w. w) (\<lambda>_ _ w. w) [0, 1] Background 30 ex_pubsub = Some (None, w') \<and>
     map qm_v (q_msgs (ps_queue 0 w')) = [10, 20, 30] \<and> map qm_v (q_msgs (ps_queue 1 w')) = [30]"
proof -
  have h: "m_lookupTx Background = None" "undisturbed (\<lambda>_ _ w. w :: nat psw)"
    "\<forall>i \<in> set (cancelled (fst ex_pubsub)). i < next_cancel (fst ex_pubsub)"
    "\<forall>i \<in> ctx_cancels (Background :: tmctx). i < next_cancel (fst ex_pubsub)" "list_all (\<lambda>q. q < length (ps_queues (snd ex_pubsub))) [0, 1]"
    "ctx_Err (fst ex_pubsub) (Background :: tmctx) = None" "list_all (\<lambda>q. \<not> q_Blocking (ps_queue q ex_pubsub)) [0, 1]"
    "0 < length (ps_queues (snd ex_pubsub))" "1 < length (ps_queues (snd ex_pubsub))"
    by (simp_all add: ex_pubsub_def new_queue_def m_lookupTx_def ps_queue_def undisturbed_def psw_later_refl)
  from exchange_all_or_nothing[OF h(1-5), of insertion_sort "\<lambda>_ w. w" 30] h(6,7)
  obtain r w' where w': "exchange_Publish insertion_sort (\<lambda>_ w. w) (\<lambda>_ _ w. w) [0, 1] Background 30 ex_pubsub = Some (r, w')" "r = None"
    "\<forall>x < length (ps_queues (snd ex_pubsub)). \<exists>new. ps_queue x w' = (ps_queue x ex_pubsub)\<lparr>q_msgs := q_msgs (ps_queue x ex_pubsub) @ new\<rparr> \<and>
        map qm_v new = (if r = None then replicate (count_list [0, 1] x) 30 else [])"
    by blast
  have "map qm_v (q_msgs (ps_queue x w')) = map qm_v (q_msgs (ps_queue x ex_pubsub)) @ replicate (count_list [0, 1] x) 30"
    if "x < length (ps_queues (snd ex_pubsub))" for x
    using w'(3)[rule_format, OF that] w'(2) by auto
  from this[OF h(8)] this[OF h(9)] w'(1,2) show ?thesis
    by (intro exI[of _ w']) (simp add: ex_pubsub_def new_queue_def ps_queue_def)
qed

text \<open>
  A cancellation in between breaks it. The transactions are committed one after the other, the last one first; when the
  context is cancelled before the commit of the first, Publish fails, and the second queue keeps the value.
\<close>

definition ex_cancel :: "nat interference" where
  "ex_cancel k i w = (if k = 0 \<and> i = 2 then (context_cancel 0 (fst w), snd w) else w)"

lemma exchange_cancelled_between_commits:
  "\<exists>err w'. exchange_Publish insertion_sort (\<lambda>_ w. w) ex_cancel [0, 1] (WithCancelCtx 0 Background) 30
       ((fst ex_pubsub)\<lparr>next_cancel := 1\<rparr>, snd ex_pubsub) = Some (Some err, w') \<and>
     map qm_v (q_msgs (ps_queue 0 w')) = [10, 20] \<and> map qm_v (q_msgs (ps_queue 1 w')) = [30]"
  by (simp add: exchange_Publish_def ex_cancel_def ex_pubsub_def new_queue_def q_BeginTx_def m_BeginTx_def m_lookupTx_def ps_queue_def
      q_txm_def context_WithCancel_def Let_def q_Publish_def m_Q_def m_LookupTx_def m_lookupRootTx_def m_root_loop.simps
      q_publisher_Publish_def q_Finish_def q_CommitTx_def m_CommitTx_def tm_mark_def tm_do_cancel_def context_cancel_def
      q_dbPublish_def make_message_def clock_Now_def ps_set_msgs_def)

section \<open>No message is lost\<close>

text \<open>
  The deliveries: queue, message, subscription, context. The invariant speaks of the messages \<open>M\<close> of each of
  the \<open>n\<close> queues, the message counter, the deliveries \<open>D\<close> that are not settled yet, the settled ones \<open>H\<close>, the IDs
  \<open>G\<close> of the messages that are gone (acknowledged or purged), and the IDs \<open>X\<close> of those of which a delivery may have lost
  its message.
\<close>

type_synonym delivery = "nat \<times> nat \<times> nat \<times> tmctx"

abbreviation dl_id :: "delivery \<Rightarrow> nat" where "dl_id d \<equiv> fst (snd d)"

definition ids_ok :: "nat \<Rightarrow> (nat \<Rightarrow> 'd queue_message list) \<Rightarrow> nat \<Rightarrow> nat set \<Rightarrow> bool" where
  "ids_ok n M idx G \<longleftrightarrow>
     (\<forall>x < n. distinct (map qm_id (M x))) \<and>
     (\<forall>x < n. \<forall>y < n. x \<noteq> y \<longrightarrow> qm_id ` set (M x) \<inter> qm_id ` set (M y) = {}) \<and>
     (\<forall>x < n. qm_id ` set (M x) \<inter> G = {}) \<and>
     G \<union> (\<Union>x < n. qm_id ` set (M x)) = {1..idx}"

definition deliv_ok ::
    "nat \<Rightarrow> (nat \<Rightarrow> 'd queue_message list) \<Rightarrow> delivery list \<Rightarrow> delivery list \<Rightarrow> nat set \<Rightarrow> nat set \<Rightarrow> bool" where
  "deliv_ok n M D H G X \<longleftrightarrow>
     (\<forall>q i s tx. (q, i, s, tx) \<in> set D \<union> set H \<longrightarrow> q < n \<and> s \<noteq> 0 \<and> i \<in> qm_id ` set (M q) \<union> G) \<and>
     (\<forall>q i s tx. (q, i, s, tx) \<in> set D \<longrightarrow> i \<notin> X \<longrightarrow> (\<exists>m \<in> set (M q). qm_id m = i \<and> qm_takenBy m = s)) \<and>
     distinct (filter (\<lambda>i. i \<notin> X) (map dl_id D)) \<and>
     (\<forall>x < n. \<forall>m \<in> set (M x). qm_takenBy m \<noteq> 0 \<longrightarrow> (\<exists>tx. (x, qm_id m, qm_takenBy m, tx) \<in> set D))"

lemma ids_ok_same:
  assumes inv: "ids_ok n M idx G" and eq: "\<And>x. x < n \<Longrightarrow> mset (map qm_id (M' x)) = mset (map qm_id (M x))"
  shows "ids_ok n M' idx G"
proof -
  have s: "qm_id ` set (M' x) = qm_id ` set (M x)" if "x < n" for x
    using mset_eq_setD[OF eq[OF that]] by simp
  moreover have "distinct (map qm_id (M' x)) = distinct (map qm_id (M x))" if "x < n" for x
    by (rule mset_eq_imp_distinct_iff[OF eq[OF that]])
  moreover have "(\<Union>x < n. qm_id ` set (M' x)) = (\<Union>x < n. qm_id ` set (M x))" using s by simp
  ultimately show ?thesis using inv unfolding ids_ok_def by simp
qed

lemma ids_ok_adds:
  assumes inv: "ids_ok n M idx G" and y: "y < n" and ms: "map qm_id ms = [Suc idx..<Suc idx']" "idx \<le> idx'"
  shows "ids_ok n (M(y := M y @ ms)) idx' G"
proof -
  have new: "qm_id ` set ms = {Suc idx..idx'}"
    using arg_cong[OF ms(1), of set] by (simp only: set_map set_upt atLeastLessThanSuc_atLeastAtMost)
  have le: "i \<le> idx" if "i \<in> G \<or> (\<exists>x < n. i \<in> qm_id ` set (M x))" for i
  proof -
    have "i \<in> {1..idx}" using inv that unfolding ids_ok_def by blast
    then show ?thesis by simp
  qed
  have d: "distinct (map qm_id ms)" unfolding ms(1) by simp
  have fresh: "qm_id ` set (M x) \<inter> {Suc idx..idx'} = {}" "G \<inter> {Suc idx..idx'} = {}" if "x < n" for x
    using le that by fastforce+
  have img: "qm_id ` set ((M(y := M y @ ms)) x) = (if x = y then qm_id ` set (M y) \<union> {Suc idx..idx'} else qm_id ` set (M x))" for x
    using new by auto
  have "(\<Union>x < n. qm_id ` set ((M(y := M y @ ms)) x)) = (\<Union>x < n. qm_id ` set (M x)) \<union> {Suc idx..idx'}"
    unfolding img using y by (auto split: if_splits)
  moreover have "{1..idx} \<union> {Suc idx..idx'} = {1..idx'}" using ms(2) by auto
  ultimately have all: "G \<union> (\<Union>x < n. qm_id ` set ((M(y := M y @ ms)) x)) = {1..idx'}"
    using inv unfolding ids_ok_def by (metis Un_assoc)
  have dist: "distinct (map qm_id ((M(y := M y @ ms)) x))" if "x < n" for x
    using inv that d fresh(1)[OF y] new unfolding ids_ok_def by (auto simp: Int_commute)
  have disj: "qm_id ` set ((M(y := M y @ ms)) x) \<inter> qm_id ` set ((M(y := M y @ ms)) z) = {}" if "x < n" "z < n" "x \<noteq> z" for x z
  proof -
    have "qm_id ` set (M x) \<inter> qm_id ` set (M z) = {}" using inv that unfolding ids_ok_def by blast
    then show ?thesis using that fresh(1)[OF that(1)] fresh(1)[OF that(2)] unfolding img by (auto split: if_splits)
  qed
  have "qm_id ` set ((M(y := M y @ ms)) x) \<inter> G = {}" if "x < n" for x
  proof -
    have "qm_id ` set (M x) \<inter> G = {}" using inv that unfolding ids_ok_def by blast
    then show ?thesis using that fresh(2)[OF that] unfolding img by auto
  qed
  note acked = this
  show ?thesis unfolding ids_ok_def by (intro conjI allI impI dist disj acked all)
qed

text \<open>Messages \<open>I\<close> of a queue, of which some may be gone already, leave it.\<close>

lemma ids_ok_gone:
  assumes inv: "ids_ok n M idx G" and q: "q < n" "I \<subseteq> qm_id ` set (M q) \<union> G"
  shows "ids_ok n (M(q := filter (\<lambda>x. qm_id x \<notin> I) (M q))) idx (G \<union> I)"
proof -
  let ?M = "M(q := filter (\<lambda>x. qm_id x \<notin> I) (M q))"
  have img: "qm_id ` set (?M x) = (if x = q then qm_id ` set (M q) - I else qm_id ` set (M x))" for x by auto
  have G: "qm_id ` set (M x) \<inter> G = {}" if "x < n" for x using inv that unfolding ids_ok_def by blast
  have disj: "qm_id ` set (M x) \<inter> qm_id ` set (M z) = {}" if "x < n" "z < n" "x \<noteq> z" for x z
    using inv that unfolding ids_ok_def by blast
  have "distinct (map qm_id (?M x))" if "x < n" for x
    using inv that unfolding ids_ok_def by (simp add: distinct_map_filter)
  moreover have "qm_id ` set (?M x) \<inter> qm_id ` set (?M z) = {}" if "x < n" "z < n" "x \<noteq> z" for x z
    using disj[OF that] unfolding img by auto
  moreover have "qm_id ` set (?M x) \<inter> (G \<union> I) = {}" if "x < n" for x
  proof (cases "x = q")
    case True
    then show ?thesis using G[OF that] unfolding img by auto
  next
    case False
    then have "qm_id ` set (M x) \<inter> I = {}" using G[OF that] disj[OF that q(1) False] q(2) by blast
    then show ?thesis using G[OF that] False unfolding img by auto
  qed
  moreover have "G \<union> I \<union> (\<Union>x < n. qm_id ` set (?M x)) = {1..idx}"
  proof -
    have "G \<union> I \<union> (\<Union>x < n. qm_id ` set (?M x)) = G \<union> (\<Union>x < n. qm_id ` set (M x))"
      unfolding img using q disj by (auto split: if_splits)
    then show ?thesis using inv by (simp add: ids_ok_def)
  qed
  ultimately show ?thesis unfolding ids_ok_def by blast
qed

lemma deliv_okD:
  assumes "deliv_ok n M D H G X" "(q, i, s, tx) \<in> set D \<union> set H"
  shows "q < n" "s \<noteq> 0" "i \<in> qm_id ` set (M q) \<union> G"
  using assms unfolding deliv_ok_def by blast+

lemma deliv_ok_holds:
  assumes "deliv_ok n M D H G X" "(q, i, s, tx) \<in> set D" "i \<notin> X"
  obtains m where "m \<in> set (M q)" "qm_id m = i" "qm_takenBy m = s"
  using assms unfolding deliv_ok_def by blast

lemma deliv_ok_held:
  assumes "deliv_ok n M D H G X" "x < n" "m \<in> set (M x)" "qm_takenBy m \<noteq> 0"
  obtains tx where "(x, qm_id m, qm_takenBy m, tx) \<in> set D"
  using assms unfolding deliv_ok_def by blast

lemma deliv_ok_distinct: "deliv_ok n M D H G X \<Longrightarrow> distinct (filter (\<lambda>i. i \<notin> X) (map dl_id D))"
  by (simp add: deliv_ok_def)

lemma deliv_ok_same:
  assumes "deliv_ok n M D H G X" "\<And>x. x < n \<Longrightarrow> set (M' x) = set (M x)"
  shows "deliv_ok n M' D H G X"
  unfolding deliv_ok_def
proof (intro conjI allI impI ballI)
  fix q i s tx assume d: "(q, i, s, tx) \<in> set D \<union> set H"
  show "q < n" "s \<noteq> 0" "i \<in> qm_id ` set (M' q) \<union> G" using deliv_okD[OF assms(1) d] assms(2) by simp_all
next
  fix q i s tx assume d: "(q, i, s, tx) \<in> set D" "i \<notin> X"
  then have "q < n" using deliv_okD(1)[OF assms(1)] by blast
  then show "\<exists>m \<in> set (M' q). qm_id m = i \<and> qm_takenBy m = s" using deliv_ok_holds[OF assms(1) d] assms(2) by metis
next
  show "distinct (filter (\<lambda>i. i \<notin> X) (map dl_id D))" by (rule deliv_ok_distinct[OF assms(1)])
next
  fix x m assume "x < n" "m \<in> set (M' x)" "qm_takenBy m \<noteq> 0"
  then show "\<exists>tx. (x, qm_id m, qm_takenBy m, tx) \<in> set D" using deliv_ok_held[OF assms(1)] assms(2) by metis
qed

lemma deliv_ok_adds:
  assumes "deliv_ok n M D H G X" "\<forall>m \<in> set ms. qm_takenBy m = 0"
  shows "deliv_ok n (M(y := M y @ ms)) D H G X"
  unfolding deliv_ok_def
proof (intro conjI allI impI ballI)
  fix q i s tx assume d: "(q, i, s, tx) \<in> set D \<union> set H"
  show "q < n" "s \<noteq> 0" "i \<in> qm_id ` set ((M(y := M y @ ms)) q) \<union> G" using deliv_okD[OF assms(1) d] by auto
next
  fix q i s tx assume d: "(q, i, s, tx) \<in> set D" "i \<notin> X"
  obtain m where "m \<in> set (M q)" "qm_id m = i" "qm_takenBy m = s" by (rule deliv_ok_holds[OF assms(1) d])
  then show "\<exists>m \<in> set ((M(y := M y @ ms)) q). qm_id m = i \<and> qm_takenBy m = s" by (intro bexI[of _ m]) auto
next
  show "distinct (filter (\<lambda>i. i \<notin> X) (map dl_id D))" by (rule deliv_ok_distinct[OF assms(1)])
next
  fix x m assume m: "x < n" "m \<in> set ((M(y := M y @ ms)) x)" "qm_takenBy m \<noteq> 0"
  then have "m \<in> set (M x)" using assms(2) by (auto split: if_splits)
  then show "\<exists>tx. (x, qm_id m, qm_takenBy m, tx) \<in> set D" using deliv_ok_held[OF assms(1) m(1) _ m(3)] by metis
qed

lemma deliv_ok_take:
  assumes ids: "ids_ok n M idx G" and ok: "deliv_ok n M D H G X" and q: "q < n" "s \<noteq> 0"
    and perm: "mset (pre @ m0 # post) = mset (M q)" and m: "m = m0\<lparr>qm_takenBy := s\<rparr>" "qm_takenBy m0 = 0"
  shows "deliv_ok n (M(q := pre @ m # post)) ((q, qm_id m, s, tx) # D) H G X"
proof -
  let ?M = "M(q := pre @ m # post)" and ?D = "(q, qm_id m, s, tx) # D"
  have set: "set (M q) = insert m0 (set pre \<union> set post)" using mset_eq_setD[OF perm] by auto
  have "distinct (map qm_id (M q))" using ids q(1) by (simp add: ids_ok_def)
  then have "distinct (map qm_id (pre @ m0 # post))" using perm by (metis mset_eq_imp_distinct_iff mset_map)
  then have uniq: "qm_id x \<noteq> qm_id m0" if "x \<in> set pre \<union> set post" for x using that by (auto simp: image_iff)
  have keep: "x \<in> set (?M y) \<longleftrightarrow> x \<in> set (M y)" if "qm_id x \<noteq> qm_id m" for x y
  proof (cases "y = q")
    case True
    then have "set (?M y) = insert m (set pre \<union> set post)" by simp
    moreover have "x \<noteq> m" "x \<noteq> m0" using that m(1) by auto
    ultimately show ?thesis using set True by simp
  qed simp
  have ids': "qm_id ` set (?M y) = qm_id ` set (M y)" for y
  proof (cases "y = q")
    case True
    then have "set (?M y) = insert m (set pre \<union> set post)" by simp
    moreover have "qm_id m = qm_id m0" using m(1) by simp
    ultimately show ?thesis using set True by simp
  qed simp
  have fresh: "i \<noteq> qm_id m" if D: "(q', i, s', tx') \<in> set D" "i \<notin> X" for q' i s' tx'
  proof
    assume i: "i = qm_id m"
    obtain x where x: "x \<in> set (M q')" "qm_id x = i" "qm_takenBy x = s'" by (rule deliv_ok_holds[OF ok D])
    have q': "q' < n" "s' \<noteq> 0" using deliv_okD[OF ok, of q' i s' tx'] D(1) by blast+
    have "qm_id m0 \<in> qm_id ` set (M q)" using set by simp
    moreover have "qm_id x = qm_id m0" using x(2) i m(1) by simp
    then have "qm_id m0 \<in> qm_id ` set (M q')" using imageI[OF x(1), of qm_id] by simp
    ultimately have "q' = q" using ids q' q(1) unfolding ids_ok_def by blast
    then have "x = m0" using x(1) set uniq \<open>qm_id x = qm_id m0\<close> by auto
    with x(3) m(2) q'(2) show False by simp
  qed
  show ?thesis
    unfolding deliv_ok_def
  proof (intro conjI allI impI ballI)
    fix q' i s' tx' assume "(q', i, s', tx') \<in> set ?D \<union> set H"
    then consider "q' = q" "i = qm_id m" "s' = s" | "(q', i, s', tx') \<in> set D \<union> set H" by auto
    then have "q' < n \<and> s' \<noteq> 0 \<and> i \<in> qm_id ` set (?M q') \<union> G"
    proof cases
      case 1
      then show ?thesis using q by simp
    next
      case 2
      show ?thesis using deliv_okD[OF ok 2] ids' by blast
    qed
    then show "q' < n" "s' \<noteq> 0" "i \<in> qm_id ` set (?M q') \<union> G" by blast+
  next
    fix q' i s' tx' assume D: "(q', i, s', tx') \<in> set ?D" "i \<notin> X"
    then consider "(q', i, s', tx') = (q, qm_id m, s, tx)" | "(q', i, s', tx') \<in> set D" by auto
    then show "\<exists>x \<in> set (?M q'). qm_id x = i \<and> qm_takenBy x = s'"
    proof cases
      case 1
      then show ?thesis using m(1) by simp
    next
      case 2
      obtain x where x: "x \<in> set (M q')" "qm_id x = i" "qm_takenBy x = s'" by (rule deliv_ok_holds[OF ok 2 D(2)])
      then show ?thesis using keep[of x q'] fresh[OF 2 D(2)] by blast
    qed
  next
    have "qm_id m \<notin> dl_id ` set D" if "qm_id m \<notin> X"
    proof
      assume "qm_id m \<in> dl_id ` set D"
      then obtain q' s' tx' where "(q', qm_id m, s', tx') \<in> set D" by auto
      from fresh[OF this that] show False by simp
    qed
    then show "distinct (filter (\<lambda>i. i \<notin> X) (map dl_id ?D))" using deliv_ok_distinct[OF ok] by simp
  next
    fix x y assume y: "x < n" "y \<in> set (?M x)" "qm_takenBy y \<noteq> 0"
    show "\<exists>tx'. (x, qm_id y, qm_takenBy y, tx') \<in> set ?D"
    proof (cases "x = q \<and> y = m")
      case True
      then show ?thesis using m(1) by (intro exI[of _ tx]) simp
    next
      case False
      then have "y \<in> set (M x)" using y(2) set by (auto split: if_splits)
      from deliv_ok_held[OF ok y(1) this y(3)] show ?thesis by (meson list.set_intros(2))
    qed
  qed
qed

text \<open>
  A change of the messages \<open>I\<close> of one queue. The deliveries \<open>D'\<close> that are left have to be untouched by it, or
  of messages that are exempt from now on; what stays held has such a delivery.
\<close>

lemma deliv_ok_change:
  assumes ok: "deliv_ok n M D H G X"
    and same: "\<And>x. x \<noteq> q \<Longrightarrow> M' x = M x"
    and keep: "\<And>m. qm_id m \<notin> I \<Longrightarrow> m \<in> set (M' q) \<longleftrightarrow> m \<in> set (M q)"
    and gone: "qm_id ` set (M q) \<subseteq> qm_id ` set (M' q) \<union> G'" "G \<subseteq> G'" "X \<subseteq> X'"
    and D': "set D' \<subseteq> set D" "set H' \<subseteq> set D \<union> set H" "distinct (filter (\<lambda>i. i \<notin> X') (map dl_id D'))"
    and excl: "\<And>d. d \<in> set D' \<Longrightarrow> dl_id d \<notin> X' \<Longrightarrow> dl_id d \<notin> I"
    and held: "\<And>m. m \<in> set (M' q) \<Longrightarrow> qm_id m \<in> I \<Longrightarrow> qm_takenBy m \<noteq> 0 \<Longrightarrow> \<exists>tx. (q, qm_id m, qm_takenBy m, tx) \<in> set D'"
    and other: "\<And>d. d \<in> set D \<Longrightarrow> fst d \<noteq> q \<or> dl_id d \<notin> I \<Longrightarrow> d \<in> set D'"
  shows "deliv_ok n M' D' H' G' X'"
  unfolding deliv_ok_def
proof (intro conjI allI impI ballI)
  fix x i s tx assume "(x, i, s, tx) \<in> set D' \<union> set H'"
  then have d: "(x, i, s, tx) \<in> set D \<union> set H" using D'(1,2) by blast
  show "x < n" "s \<noteq> 0" using deliv_okD[OF ok d] by blast+
  show "i \<in> qm_id ` set (M' x) \<union> G'" using deliv_okD(3)[OF ok d] same[of x] gone by (cases "x = q") auto
next
  fix x i s tx assume d: "(x, i, s, tx) \<in> set D'" "i \<notin> X'"
  then have D: "(x, i, s, tx) \<in> set D" "i \<notin> X" using D'(1) gone(3) by blast+
  obtain m where m: "m \<in> set (M x)" "qm_id m = i" "qm_takenBy m = s" by (rule deliv_ok_holds[OF ok D])
  have "i \<notin> I" using excl[OF d(1)] d(2) by simp
  then have "m \<in> set (M' x)" using m same[of x] keep[of m] by (cases "x = q") auto
  with m show "\<exists>m \<in> set (M' x). qm_id m = i \<and> qm_takenBy m = s" by blast
next
  show "distinct (filter (\<lambda>i. i \<notin> X') (map dl_id D'))" by (rule D')
next
  fix x m assume m: "x < n" "m \<in> set (M' x)" "qm_takenBy m \<noteq> 0"
  show "\<exists>tx. (x, qm_id m, qm_takenBy m, tx) \<in> set D'"
  proof (cases "x = q \<and> qm_id m \<in> I")
    case True
    then show ?thesis using held m(2,3) by blast
  next
    case False
    then have "m \<in> set (M x)" using m(2) same[of x] keep[of m] by (cases "x = q") auto
    then obtain tx where "(x, qm_id m, qm_takenBy m, tx) \<in> set D" using deliv_ok_held[OF ok m(1) _ m(3)] by blast
    then show ?thesis using other[of "(x, qm_id m, qm_takenBy m, tx)"] False by auto
  qed
qed

lemma distinct_filter_less:
  assumes "distinct (filter (\<lambda>i. i \<notin> X) xs)" "X \<subseteq> X'" shows "distinct (filter (\<lambda>i. i \<notin> X') xs)"
proof -
  have "filter (\<lambda>i. i \<notin> X') xs = filter (\<lambda>i. i \<notin> X') (filter (\<lambda>i. i \<notin> X) xs)"
    using assms(2) by (auto simp: intro: filter_cong)
  then show ?thesis using assms(1) by (metis distinct_filter)
qed

text \<open>What an operation of the transaction manager does to the queues: nothing, or it appends new messages to one of them.\<close>

definition tx_ok :: "'d psw \<Rightarrow> bool" where
  "tx_ok w \<longleftrightarrow>
     (\<forall>a < length (tm_cells (fst w)). \<forall>t. tm_tx (tm_cells (fst w) ! a) = Some t \<longrightarrow> t < length (ps_txs (snd w))) \<and>
     (\<forall>t < length (ps_txs (snd w)). qt_q (ps_txs (snd w) ! t) < length (ps_queues (snd w)))"

definition ctx_valid :: "tmctx \<Rightarrow> 'd psw \<Rightarrow> bool" where
  "ctx_valid ctx w \<longleftrightarrow> (case m_lookupTx ctx of None \<Rightarrow> True | Some a \<Rightarrow> a < length (tm_cells (fst w)))"

definition psw_M :: "'d psw \<Rightarrow> nat \<Rightarrow> 'd queue_message list" where
  "psw_M w x = q_msgs (ps_queue x w)"

definition quiet :: "'d psw \<Rightarrow> 'd psw \<Rightarrow> bool" where
  "quiet w w' \<longleftrightarrow> ps_queues (snd w') = ps_queues (snd w) \<and> ps_msgIDIndex (snd w') = ps_msgIDIndex (snd w) \<and>
     length (tm_cells (fst w)) \<le> length (tm_cells (fst w')) \<and> (tx_ok w \<longrightarrow> tx_ok w')"

definition adds :: "'d psw \<Rightarrow> 'd psw \<Rightarrow> bool" where
  "adds w w' \<longleftrightarrow> length (ps_queues (snd w')) = length (ps_queues (snd w)) \<and>
     (\<forall>x. q_Blocking (ps_queue x w') = q_Blocking (ps_queue x w)) \<and>
     length (tm_cells (fst w)) \<le> length (tm_cells (fst w')) \<and> (tx_ok w \<longrightarrow> tx_ok w') \<and>
     ps_msgIDIndex (snd w) \<le> ps_msgIDIndex (snd w') \<and>
     (\<exists>y < length (ps_queues (snd w)). \<exists>ms. psw_M w' = (psw_M w)(y := psw_M w y @ ms) \<and>
        map qm_id ms = [Suc (ps_msgIDIndex (snd w))..<Suc (ps_msgIDIndex (snd w'))] \<and> (\<forall>m \<in> set ms. qm_takenBy m = 0))"

lemma quiet_refl: "quiet w w"
  by (simp add: quiet_def)

lemma quiet_trans: "quiet w w' \<Longrightarrow> quiet w' w'' \<Longrightarrow> quiet w w''"
  by (auto simp: quiet_def)

lemma quiet_mark: "quiet w (tm_mark a w)"
  by (simp add: quiet_def tx_ok_def)

lemma quiet_cancel: "quiet w (context_cancel i (fst w), snd w)"
  by (simp add: quiet_def tx_ok_def context_cancel_def)

lemma quiet_cancels: "quiet w (fold tm_do_cancel ds w)"
  by (simp add: quiet_def tx_ok_def)

lemma quiet_do_cancel: "quiet w (tm_do_cancel a w)"
  using quiet_cancels[of w "[a]"] by simp

lemma quiet_ds: "quiet w (fst w, (snd w)\<lparr>ps_txs := (ps_txs (snd w))[t := (ps_txs (snd w) ! t)\<lparr>qt_ds := ds\<rparr>]\<rparr>)"
  by (cases "t < length (ps_txs (snd w))") (auto simp: quiet_def tx_ok_def nth_list_update list_update_beyond)

lemma BeginTx_quiet:
  "q_BeginTx q ctx w = ((tx, r), w1) \<Longrightarrow> q < length (ps_queues (snd w)) \<Longrightarrow>
     quiet w w1 \<and> (\<forall>c. \<not> q_Blocking (ps_queue q w) \<longrightarrow> tx = Some c \<longrightarrow> r = None \<longrightarrow> ctx_valid c w1)"
  by (auto simp: q_BeginTx_def m_BeginTx_def q_txm_def Let_def context_WithCancel_def quiet_def tx_ok_def nth_append
      ctx_valid_def m_lookupTx_def less_Suc_eq split: option.splits if_splits)

lemma rollback_loop_quiet: "m_rollback_loop (q_txm q) ctx a deferred w = Some (r, w1) \<Longrightarrow> quiet w w1"
proof -
  assume run: "m_rollback_loop (q_txm q) ctx a deferred w = Some (r, w1)"
  have "m = q_txm q \<longrightarrow> quiet w (snd res)" if "m_rollback_loop m ctx a deferred w = Some res" for m ctx a deferred w and res :: "go_error option \<times> 'a psw"
  proof (rule m_rollback_loop.raw_induct[OF _ that, where P = "\<lambda>m ctx a deferred w res. m = q_txm q \<longrightarrow> quiet w (snd res)"])
    fix loop m ctx a deferred w and res :: "go_error option \<times> 'a psw"
    assume IH: "\<And>m ctx a deferred w res. loop m ctx a deferred w = Some res \<Longrightarrow> m = q_txm q \<longrightarrow> quiet w (snd res)"
      and step: "(let w1 = tm_mark a w; cell = tm_cells (fst w1) ! a
        in case tm_tx cell of
             None \<Rightarrow> loop m ctx (case tm_parent cell of None \<Rightarrow> a | Some p \<Rightarrow> p) (a # deferred) w1
           | Some tx \<Rightarrow>
               (case m_Rollback m (contextkit_WithoutCancel ctx) tx (snd w1) of
                  None \<Rightarrow> None
                | Some (rberr, z) \<Rightarrow>
                    Some (Merge [rberr, ctx_Err (fst w1) ctx], fold tm_do_cancel (a # deferred) (fst w1, z)))) = Some res"
    show "m = q_txm q \<longrightarrow> quiet w (snd res)"
    proof
      assume m: "m = q_txm q"
      show "quiet w (snd res)"
      proof (cases "tm_tx (tm_cells (fst (tm_mark a w)) ! a)")
        case None
        with step have "loop m ctx (case tm_parent (tm_cells (fst (tm_mark a w)) ! a) of None \<Rightarrow> a | Some p \<Rightarrow> p) (a # deferred) (tm_mark a w) = Some res"
          by (simp add: Let_def)
        from IH[OF this] m show ?thesis using quiet_trans[OF quiet_mark] by blast
      next
        case (Some t)
        let ?w = "tm_mark a w"
        have "snd res = fold tm_do_cancel (a # deferred) (fst ?w, (snd ?w)\<lparr>ps_txs := (ps_txs (snd ?w))[t := (ps_txs (snd ?w) ! t)\<lparr>qt_ds := []\<rparr>]\<rparr>)"
          using step Some m by (auto simp: Let_def q_txm_def)
        then show ?thesis using quiet_trans[OF quiet_trans[OF quiet_mark quiet_ds] quiet_cancels] by metis
      qed
    qed
  qed
  from this[OF run] show ?thesis by simp
qed

lemma RollbackTx_quiet: "q_RollbackTx q ctx w = Some (r, w1) \<Longrightarrow> quiet w w1"
  by (auto simp: q_RollbackTx_def m_RollbackTx_def quiet_refl dest: rollback_loop_quiet split: option.splits if_splits)

lemma dbPublish_adds: "q < length (ps_queues (snd w)) \<Longrightarrow> adds w (fst w, snd (q_dbPublish q ds (snd w)))"
proof -
  assume q: "q < length (ps_queues (snd w))"
  let ?z = "snd (q_dbPublish q ds (snd w))"
  obtain ms where ms: "map qm_id ms = [Suc (ps_msgIDIndex (snd w))..<Suc (ps_msgIDIndex ?z)]" "\<forall>m \<in> set ms. qm_takenBy m = 0"
    "ps_queues ?z = ps_queues (ps_set_msgs q (\<lambda>l. l @ ms) (snd w))" "ps_txs ?z = ps_txs (snd w)"
    "ps_msgIDIndex ?z = ps_msgIDIndex (snd w) + length ds"
    using dbPublish_spec[of ds "snd w" q] by metis
  have "psw_M (fst w, ?z) = (psw_M w)(q := psw_M w q @ ms)"
    using q ms(3) by (auto simp: fun_eq_iff psw_M_def ps_queue_def)
  moreover have "tx_ok w \<longrightarrow> tx_ok (fst w, ?z)" using ms(3,4) by (simp add: tx_ok_def)
  moreover have "\<forall>x. q_Blocking (ps_queue x (fst w, ?z)) = q_Blocking (ps_queue x w)" using ms(3) by (simp add: ps_queue_def)
  moreover have "length (ps_queues ?z) = length (ps_queues (snd w))" "ps_msgIDIndex (snd w) \<le> ps_msgIDIndex ?z" using ms(3,5) by simp_all
  ultimately show ?thesis unfolding adds_def using q ms(1,2) by (simp only: fst_conv snd_conv) blast
qed

lemma quiet_adds: "quiet w w1 \<Longrightarrow> adds w1 w2 \<Longrightarrow> adds w w2"
  by (auto simp: quiet_def adds_def psw_M_def[abs_def] ps_queue_def)

lemma adds_quiet: "adds w w1 \<Longrightarrow> quiet w1 w2 \<Longrightarrow> adds w w2"
  by (auto simp: quiet_def adds_def psw_M_def[abs_def] ps_queue_def)

lemma CommitTx_effect:
  assumes "q_CommitTx q ctx w = Some (r, w1)" "ctx_valid ctx w" "tx_ok w"
  shows "quiet w w1 \<or> r = None \<and> adds w w1"
proof (cases "m_lookupTx ctx")
  case None
  with assms(1) show ?thesis by (simp add: q_CommitTx_def m_CommitTx_def quiet_refl)
next
  case (Some a)
  have a: "a < length (tm_cells (fst w))" using assms(2) Some by (simp add: ctx_valid_def)
  let ?w = "tm_mark a w"
  show ?thesis
  proof (cases "tm_done (tm_cells (fst w) ! a)")
    case True
    with assms(1) Some show ?thesis by (simp add: q_CommitTx_def m_CommitTx_def quiet_refl)
  next
    case live: False
    show ?thesis
    proof (cases "tm_tx (tm_cells (fst w) ! a)")
      case None
      with assms(1) Some live have "w1 = tm_do_cancel a ?w" by (simp add: q_CommitTx_def m_CommitTx_def Let_def)
      then show ?thesis using quiet_trans[OF quiet_mark quiet_do_cancel] by metis
    next
      case tx: (Some t)
      have t: "t < length (ps_txs (snd w))" "qt_q (ps_txs (snd w) ! t) < length (ps_queues (snd w))"
        using assms(3) a tx by (auto simp: tx_ok_def)
      show ?thesis
      proof (cases "ctx_Err (fst w) ctx")
        case None
        let ?z = "snd (q_dbPublish (qt_q (ps_txs (snd w) ! t)) (qt_ds (ps_txs (snd w) ! t)) (snd w))"
        have "r = None \<and> w1 = tm_do_cancel a (fst ?w, ?z)"
          using assms(1) Some live tx None by (simp add: q_CommitTx_def m_CommitTx_def Let_def q_txm_def q_dbPublish_def split: prod.splits)
        moreover have "adds ?w (fst ?w, ?z)" using dbPublish_adds[of _ ?w] t(2) by simp
        ultimately show ?thesis using quiet_adds[OF quiet_mark] adds_quiet[OF _ quiet_do_cancel] by metis
      next
        case (Some err)
        have "w1 = tm_do_cancel a (fst ?w, (snd ?w)\<lparr>ps_txs := (ps_txs (snd ?w))[t := (ps_txs (snd ?w) ! t)\<lparr>qt_ds := []\<rparr>]\<rparr>)"
          using assms(1) Some live tx \<open>m_lookupTx ctx = Some a\<close> by (simp add: q_CommitTx_def m_CommitTx_def Let_def q_txm_def split: prod.splits)
        then show ?thesis using quiet_trans[OF quiet_trans[OF quiet_mark quiet_ds] quiet_do_cancel] by metis
      qed
    qed
  qed
qed

lemma Publish_effect:
  assumes "q_Publish srt env q ctx d w = Some (r, w1)" "\<not> q_Blocking (ps_queue q w)" "q < length (ps_queues (snd w))"
  shows "quiet w w1 \<or> adds w w1"
proof (cases "ctx_Err (fst w) ctx")
  case None
  then obtain p where p: "m_Q (Some TxPublisher) (Some DBPublisher) q ctx (fst w) = Some (Inr p)"
    "w1 = (fst w, snd (q_publisher_Publish p d (snd w)))" "p = DBPublisher q \<or> (\<exists>t. p = TxPublisher t)"
    using assms(1,2) by (auto simp: q_Publish_def m_Q_def split: option.splits sum.splits prod.splits)
  show ?thesis
  proof (cases p)
    case (TxPublisher t)
    then show ?thesis using p(2) quiet_ds[of w t "qt_ds (ps_txs (snd w) ! t) @ [d]"] by (simp add: q_publisher_Publish_def)
  next
    case (DBPublisher x)
    then have "x = q" using p(3) by simp
    then show ?thesis using dbPublish_adds[OF assms(3), of "[d]"] p(2) DBPublisher by (simp add: q_publisher_Publish_def)
  qed
next
  case (Some err)
  with assms(1) show ?thesis by (simp add: q_Publish_def quiet_refl)
qed

lemma publish_dbPublish: "snd (q_publish q d z) = snd (q_dbPublish q [d] z)"
  by (simp add: q_publish_def q_dbPublish_def split: prod.split)

section \<open>The clients of the queues as a step relation\<close>

text \<open>
  The state of the system: the world, the deliveries \<open>D\<close> that are not settled yet, the settled ones \<open>H\<close>, the IDs \<open>A\<close> that
  were acknowledged with success and the IDs \<open>P\<close> that were purged, and the IDs \<open>R\<close> with which a second settlement
  interfered. Any client may begin, commit or roll back any transaction, cancel any context, publish, purge, take and
  settle, in any order. A delivery may be settled again, as \<^verbatim>\<open>Next\<close> and \<^verbatim>\<open>Close\<close> do with the last
  one, or as a client does that kept its message; that interferes when it acknowledges with success, or when the
  subscription holds the same message once more.
\<close>

type_synonym 'd qsys = "'d psw \<times> delivery list \<times> delivery list \<times> nat list \<times> nat list \<times> nat list"

definition holds_message :: "nat \<Rightarrow> nat \<Rightarrow> nat \<Rightarrow> 'd psw \<Rightarrow> bool" where
  "holds_message q i s w \<longleftrightarrow> (\<exists>m \<in> set (q_msgs (ps_queue q w)). qm_id m = i \<and> qm_takenBy m = s)"

inductive queue_step :: "'d sorter \<Rightarrow> 'd qsys \<Rightarrow> 'd qsys \<Rightarrow> bool" for srt where
  client_begin: "q < length (ps_queues (snd w)) \<Longrightarrow> q_BeginTx q ctx w = (r, w1) \<Longrightarrow> queue_step srt (w, D, H, A, P, R) (w1, D, H, A, P, R)"
| client_commit: "ctx_valid ctx w \<Longrightarrow> q_CommitTx q ctx w = Some (r, w1) \<Longrightarrow> queue_step srt (w, D, H, A, P, R) (w1, D, H, A, P, R)"
| client_rollback: "q_RollbackTx q ctx w = Some (r, w1) \<Longrightarrow> queue_step srt (w, D, H, A, P, R) (w1, D, H, A, P, R)"
| client_cancel: "queue_step srt (w, D, H, A, P, R) ((context_cancel i (fst w), snd w), D, H, A, P, R)"
| publish: "q < length (ps_queues (snd w)) \<Longrightarrow> \<not> q_Blocking (ps_queue q w) \<Longrightarrow> q_Publish srt env q ctx d w = Some (r, w1) \<Longrightarrow>
    queue_step srt (w, D, H, A, P, R) (w1, D, H, A, P, R)"
| publish_blocking: "q < length (ps_queues (snd w)) \<Longrightarrow> q_Blocking (ps_queue q w) \<Longrightarrow>
    queue_step srt (w, D, H, A, P, R) ((fst w, snd (q_publish q d (snd w))), D, H, A, P, R)"
| wait: "q < length (ps_queues (snd w)) \<Longrightarrow> queue_step srt (w, D, H, A, P, R) ((fst w, q_rIter srt q (snd w)), D, H, A, P, R)"
| purge: "q < length (ps_queues (snd w)) \<Longrightarrow> q_Purge q w = (r, w1) \<Longrightarrow>
    queue_step srt (w, D, H, A, P, R) (w1, D, H, A, map qm_id (q_msgs (ps_queue q w)) @ P, R)"
| take: "q < length (ps_queues (snd w)) \<Longrightarrow> s \<noteq> 0 \<Longrightarrow> take_pass srt q ctx s createdAt w = Some (Taken m tx, w1) \<Longrightarrow>
    queue_step srt (w, D, H, A, P, R) (w1, (q, qm_id m, s, tx) # D, H, A, P, R)"
| take_none: "q < length (ps_queues (snd w)) \<Longrightarrow> take_pass srt q ctx s createdAt w = Some (TakeNone, w1) \<Longrightarrow>
    queue_step srt (w, D, H, A, P, R) (w1, D, H, A, P, R)"
| ack: "message_ack q i s tx w = Some (r, w1) \<Longrightarrow>
    queue_step srt (w, D1 @ (q, i, s, tx) # D2, H, A, P, R) (w1, D1 @ D2, (q, i, s, tx) # H, if r = None then i # A else A, P, R)"
| nack: "message_nack q i s tx w = Some (r, w1) \<Longrightarrow>
    queue_step srt (w, D1 @ (q, i, s, tx) # D2, H, A, P, R) (w1, D1 @ D2, (q, i, s, tx) # H, A, P, R)"
| ack_again: "(q, i, s, tx) \<in> set H \<Longrightarrow> message_ack q i s tx w = Some (r, w1) \<Longrightarrow>
    queue_step srt (w, D, H, A, P, R)
      (w1, D, H, if r = None then i # A else A, P, if r = None \<or> holds_message q i s w then i # R else R)"
| nack_again: "(q, i, s, tx) \<in> set H \<Longrightarrow> message_nack q i s tx w = Some (r, w1) \<Longrightarrow>
    queue_step srt (w, D, H, A, P, R) (w1, D, H, A, P, if holds_message q i s w then i # R else R)"

inductive queue_reach :: "'d sorter \<Rightarrow> 'd qsys \<Rightarrow> bool" for srt where
  start: "list_all (\<lambda>Q. q_msgs Q = []) (ps_queues (snd w)) \<Longrightarrow> tm_cells (fst w) = [] \<Longrightarrow> ps_txs (snd w) = [] \<Longrightarrow>
    ps_msgIDIndex (snd w) = 0 \<Longrightarrow> queue_reach srt (w, [], [], [], [], [])"
| step: "queue_reach srt c \<Longrightarrow> queue_step srt c c' \<Longrightarrow> queue_reach srt c'"

definition queue_inv :: "'d qsys \<Rightarrow> bool" where
  "queue_inv c \<longleftrightarrow> (case c of (w, D, H, A, P, R) \<Rightarrow>
     tx_ok w \<and> ids_ok (length (ps_queues (snd w))) (psw_M w) (ps_msgIDIndex (snd w)) (set A \<union> set P) \<and>
     deliv_ok (length (ps_queues (snd w))) (psw_M w) D H (set A \<union> set P) (set P \<union> set R) \<and>
     (\<forall>i. i \<notin> set P \<union> set R \<longrightarrow> count_list A i \<le> 1) \<and>
     (\<forall>q i s tx. (q, i, s, tx) \<in> set D \<union> set H \<longrightarrow> \<not> q_Blocking (ps_queue q w) \<longrightarrow> ctx_valid tx w))"

lemma queue_invD:
  assumes "queue_inv (w, D, H, A, P, R)"
  shows "tx_ok w" "ids_ok (length (ps_queues (snd w))) (psw_M w) (ps_msgIDIndex (snd w)) (set A \<union> set P)"
    "deliv_ok (length (ps_queues (snd w))) (psw_M w) D H (set A \<union> set P) (set P \<union> set R)"
    "i \<notin> set P \<union> set R \<Longrightarrow> count_list A i \<le> 1"
    "(q, i, s, tx) \<in> set D \<union> set H \<Longrightarrow> \<not> q_Blocking (ps_queue q w) \<Longrightarrow> ctx_valid tx w"
  using assms unfolding queue_inv_def prod.case by blast+

lemma ctx_valid_mono: "ctx_valid c w \<Longrightarrow> length (tm_cells (fst w)) \<le> length (tm_cells (fst w')) \<Longrightarrow> ctx_valid c w'"
  by (auto simp: ctx_valid_def split: option.splits)

lemma inv_quiet:
  assumes inv: "queue_inv (w, D, H, A, P, R)" and q: "quiet w w1" shows "queue_inv (w1, D, H, A, P, R)"
proof -
  have m: "psw_M w1 = psw_M w" "ps_queue x w1 = ps_queue x w" for x
    using q by (simp_all add: quiet_def psw_M_def[abs_def] ps_queue_def)
  have v: "ctx_valid c w \<Longrightarrow> ctx_valid c w1" for c using q ctx_valid_mono[of c w w1] by (simp add: quiet_def)
  have o: "tx_ok w1" "ps_queues (snd w1) = ps_queues (snd w)" "ps_msgIDIndex (snd w1) = ps_msgIDIndex (snd w)"
    using q queue_invD(1)[OF inv] by (simp_all add: quiet_def)
  show ?thesis unfolding queue_inv_def prod.case m o(2,3)
    using queue_invD(2-4)[OF inv] o(1) v queue_invD(5)[OF inv] by blast
qed

lemma inv_adds:
  assumes inv: "queue_inv (w, D, H, A, P, R)" and a: "adds w w1" shows "queue_inv (w1, D, H, A, P, R)"
proof -
  let ?n = "length (ps_queues (snd w))"
  obtain y ms where y: "y < ?n" "psw_M w1 = (psw_M w)(y := psw_M w y @ ms)"
    "map qm_id ms = [Suc (ps_msgIDIndex (snd w))..<Suc (ps_msgIDIndex (snd w1))]" "\<forall>m \<in> set ms. qm_takenBy m = 0"
    "ps_msgIDIndex (snd w) \<le> ps_msgIDIndex (snd w1)"
    using a by (auto simp: adds_def)
  have i: "ids_ok ?n (psw_M w1) (ps_msgIDIndex (snd w1)) (set A \<union> set P)" unfolding y(2)
    by (rule ids_ok_adds[OF queue_invD(2)[OF inv] y(1,3,5)])
  have d: "deliv_ok ?n (psw_M w1) D H (set A \<union> set P) (set P \<union> set R)" unfolding y(2)
    by (rule deliv_ok_adds[OF queue_invD(3)[OF inv] y(4)])
  have v: "ctx_valid c w \<Longrightarrow> ctx_valid c w1" for c using a ctx_valid_mono[of c w w1] by (simp add: adds_def)
  have o: "tx_ok w1" "length (ps_queues (snd w1)) = ?n" "q_Blocking (ps_queue x w1) = q_Blocking (ps_queue x w)" for x
    using a queue_invD(1)[OF inv] by (simp_all add: adds_def)
  show ?thesis unfolding queue_inv_def prod.case o(2,3)
    using i d o(1) v queue_invD(4,5)[OF inv] by blast
qed

lemma set_msgs_state:
  assumes "q < length (ps_queues (snd w))"
  shows "psw_M (fst w, ps_set_msgs q f (snd w)) = (psw_M w)(q := f (psw_M w q))"
    "tx_ok (fst w, ps_set_msgs q f (snd w)) = tx_ok w" "ctx_valid c (fst w, ps_set_msgs q f (snd w)) = ctx_valid c w"
    "q_Blocking (ps_queue x (fst w, ps_set_msgs q f (snd w))) = q_Blocking (ps_queue x w)"
  using assms by (auto simp: fun_eq_iff psw_M_def ps_queue_def tx_ok_def ctx_valid_def split: option.splits)

lemma inv_set:
  assumes "tx_ok w" "q < length (ps_queues (snd w))"
    and "ids_ok (length (ps_queues (snd w))) ((psw_M w)(q := f (psw_M w q))) (ps_msgIDIndex (snd w)) (set A \<union> set P)"
    and "deliv_ok (length (ps_queues (snd w))) ((psw_M w)(q := f (psw_M w q))) D H (set A \<union> set P) (set P \<union> set R)"
    and "\<And>i. i \<notin> set P \<union> set R \<Longrightarrow> count_list A i \<le> 1"
    and "\<And>q i s tx. (q, i, s, tx) \<in> set D \<union> set H \<Longrightarrow> \<not> q_Blocking (ps_queue q w) \<Longrightarrow> ctx_valid tx w"
  shows "queue_inv ((fst w, ps_set_msgs q f (snd w)), D, H, A, P, R)"
  unfolding queue_inv_def prod.case set_msgs_state[OF assms(2)] snd_conv ps_set_msgs_simps using assms by blast

lemma ps_set_msgs_twice: "q < length (ps_queues z) \<Longrightarrow> ps_set_msgs q g (ps_set_msgs q f z) = ps_set_msgs q (\<lambda>l. g (f l)) z"
  by (simp add: ps_set_msgs_def)

lemma ps_set_msgs_id: "f (q_msgs (ps_queues z ! q)) = q_msgs (ps_queues z ! q) \<Longrightarrow> ps_set_msgs q f z = z"
  by (simp add: ps_set_msgs_def)

lemma inv_sort:
  assumes "sort_Slice srt" and inv: "queue_inv (w, D, H, A, P, R)" and "q < length (ps_queues (snd w))"
  shows "queue_inv ((fst w, q_rIter srt q (snd w)), D, H, A, P, R)"
  unfolding q_rIter_def
proof (rule inv_set[OF queue_invD(1)[OF inv] assms(3)])
  let ?M = "(psw_M w)(q := srt (queue_less (ps_queues (snd w) ! q)) (psw_M w q))"
  have m: "mset (?M x) = mset (psw_M w x)" for x using sort_Slice_mset[OF assms(1)] by (simp only: fun_upd_apply split: if_split) simp
  show "ids_ok (length (ps_queues (snd w))) ?M (ps_msgIDIndex (snd w)) (set A \<union> set P)"
    by (rule ids_ok_same[OF queue_invD(2)[OF inv]]) (simp only: m mset_map)
  show "deliv_ok (length (ps_queues (snd w))) ?M D H (set A \<union> set P) (set P \<union> set R)"
    by (rule deliv_ok_same[OF queue_invD(3)[OF inv]]) (rule mset_eq_setD[OF m])
qed (use queue_invD(4,5)[OF inv] in blast)+

lemma inv_purge:
  assumes inv: "queue_inv (w, D, H, A, P, R)" and q: "q < length (ps_queues (snd w))"
  shows "queue_inv ((fst w, ps_set_msgs q (\<lambda>_. []) (snd w)), D, H, A, map qm_id (psw_M w q) @ P, R)"
proof (rule inv_set[OF queue_invD(1)[OF inv] q])
  let ?n = "length (ps_queues (snd w))" and ?I = "set (map qm_id (psw_M w q))"
  have un: "set A \<union> set (map qm_id (psw_M w q) @ P) = (set A \<union> set P) \<union> ?I" by auto
  have "filter (\<lambda>x. qm_id x \<notin> ?I) (psw_M w q) = []" by (simp add: filter_empty_conv)
  then show "ids_ok ?n ((psw_M w)(q := [])) (ps_msgIDIndex (snd w)) (set A \<union> set (map qm_id (psw_M w q) @ P))"
    using ids_ok_gone[OF queue_invD(2)[OF inv] q, of ?I] by (simp only: un) auto
  have sub: "set P \<union> set R \<subseteq> set (map qm_id (psw_M w q) @ P) \<union> set R" by auto
  note D = distinct_filter_less[OF deliv_ok_distinct[OF queue_invD(3)[OF inv]] sub]
  show "deliv_ok ?n ((psw_M w)(q := [])) D H (set A \<union> set (map qm_id (psw_M w q) @ P)) (set (map qm_id (psw_M w q) @ P) \<union> set R)"
    by (rule deliv_ok_change[OF queue_invD(3)[OF inv], where q = q and I = ?I]) (use D in auto)
next
  show "count_list A i \<le> 1" if "i \<notin> set (map qm_id (psw_M w q) @ P) \<union> set R" for i
    using queue_invD(4)[OF inv, of i] that by simp
next
  show "ctx_valid tx w" if "(q, i, s, tx) \<in> set D \<union> set H" "\<not> q_Blocking (ps_queue q w)" for q i s tx
    using queue_invD(5)[OF inv that] .
qed

lemma inv_take:
  assumes "sort_Slice srt" and inv: "queue_inv (w, D, H, A, P, R)" and "q < length (ps_queues (snd w))" "s \<noteq> 0"
    and "take_pass srt q ctx s createdAt w = Some (Taken m tx, w1)"
  shows "queue_inv (w1, (q, qm_id m, s, tx) # D, H, A, P, R)"
proof -
  obtain w0 ms where w0: "(if q_Blocking (ps_queue q w) then ((Some ctx, None), w) else m_BeginTx (q_txm q) ctx w) = ((Some tx, None), w0)"
    "ps_queues (snd w0) = ps_queues (snd w)"
    "take_msgs (q_visible (ps_queue q w) createdAt) s (q_msgs (ps_queues (q_rIter srt q (snd w0)) ! q)) = (Some m, ms)"
    "w1 = (fst w0, ps_set_msgs q (\<lambda>_. ms) (q_rIter srt q (snd w0)))"
    using take_pass_Taken[OF assms(5)] by metis
  have "quiet w w0 \<and> (\<not> q_Blocking (ps_queue q w) \<longrightarrow> ctx_valid tx w0)"
  proof (cases "q_Blocking (ps_queue q w)")
    case True
    then show ?thesis using w0(1) by (simp add: quiet_refl)
  next
    case False
    then have "q_BeginTx q ctx w = ((Some tx, None), w0)" using w0(1) by (simp add: q_BeginTx_def)
    from BeginTx_quiet[OF this assms(3)] False show ?thesis by simp
  qed
  then have inv0: "queue_inv (w0, D, H, A, P, R)" and tx: "\<not> q_Blocking (ps_queue q w0) \<longrightarrow> ctx_valid tx w0"
    using inv_quiet[OF inv] w0(2) by (auto simp: ps_queue_def)
  have len: "q < length (ps_queues (snd w0))" using assms(3) w0(2) by simp
  let ?n = "length (ps_queues (snd w0))" and ?S = "srt (queue_less (ps_queue q w0)) (psw_M w0 q)"
  have "take_msgs (q_visible (ps_queue q w) createdAt) s ?S = (Some m, ms)"
    using w0(3) len by (simp add: q_rIter_def psw_M_def ps_queue_def)
  then obtain pre m0 post where p: "?S = pre @ m0 # post" "ms = pre @ m # post" "m = m0\<lparr>qm_takenBy := s\<rparr>" "qm_takenBy m0 = 0"
    using take_msgs_Some[OF _ assms(4)] by metis
  have perm: "mset (pre @ m0 # post) = mset (psw_M w0 q)" using p(1) sort_Slice_mset[OF assms(1)] by metis
  have i: "ids_ok ?n ((psw_M w0)(q := ms)) (ps_msgIDIndex (snd w0)) (set A \<union> set P)"
    using arg_cong[OF perm, of "image_mset qm_id"] p(2,3) by (intro ids_ok_same[OF queue_invD(2)[OF inv0]]) auto
  have d: "deliv_ok ?n ((psw_M w0)(q := ms)) ((q, qm_id m, s, tx) # D) H (set A \<union> set P) (set P \<union> set R)"
    unfolding p(2) by (rule deliv_ok_take[OF queue_invD(2,3)[OF inv0] len assms(4) perm p(3,4)])
  have v: "ctx_valid t w0" if "(x, j, u, t) \<in> set ((q, qm_id m, s, tx) # D) \<union> set H" "\<not> q_Blocking (ps_queue x w0)" for x j u t
    using that tx queue_invD(5)[OF inv0] by auto
  have "queue_inv ((fst w0, ps_set_msgs q (\<lambda>_. ms) (snd w0)), (q, qm_id m, s, tx) # D, H, A, P, R)"
    by (rule inv_set[OF queue_invD(1)[OF inv0] len i d queue_invD(4)[OF inv0] v])
  moreover have "w1 = (fst w0, ps_set_msgs q (\<lambda>_. ms) (snd w0))"
    using w0(4) by (simp add: q_rIter_def ps_set_msgs_twice[OF len])
  ultimately show ?thesis by simp
qed

lemma take_pass_None:
  assumes "take_pass srt q ctx s createdAt w = Some (TakeNone, w1)" "q < length (ps_queues (snd w))"
  obtains w0 c r where "quiet w w0"
    "w1 = (fst w0, q_rIter srt q (snd w0)) \<or> q_RollbackTx q c (fst w0, q_rIter srt q (snd w0)) = Some (r, w1)"
proof (cases "q_Blocking (ps_queue q w)")
  case True
  then have "w1 = (fst w, q_rIter srt q (snd w))"
    using assms(1) by (auto simp: take_pass_def Let_def split: option.splits prod.splits if_splits)
  then show thesis using that[of w] by (simp add: quiet_refl)
next
  case False
  obtain tx err w0 where b: "q_BeginTx q ctx w = ((tx, err), w0)" by (metis prod.exhaust)
  then have "quiet w w0" using BeginTx_quiet[OF b assms(2)] by simp
  then show thesis using that[of w0] assms(1) False b
    by (auto simp: take_pass_def Let_def split: option.splits prod.splits if_splits)
qed

section \<open>Settlements\<close>

lemma message_release_id [simp]: "qm_id (message_release s m) = qm_id m"
  by (simp add: message_release_def)

text \<open>What is held after a release was held before, by somebody else.\<close>

lemma message_release_held: "s \<noteq> 0 \<Longrightarrow> qm_takenBy (message_release s m) \<noteq> 0 \<Longrightarrow> message_release s m = m \<and> qm_takenBy m \<noteq> s"
  by (auto simp: message_release_def split: if_splits)

lemma message_release_other: "qm_takenBy m \<noteq> s \<Longrightarrow> message_release s m = m"
  by (simp add: message_release_def)

text \<open>Which deliveries are left by a settlement, the first of a delivery or a further one that interferes.\<close>

definition settles ::
    "delivery \<Rightarrow> delivery list \<times> delivery list \<times> nat list \<Rightarrow> delivery list \<times> delivery list \<times> nat list \<Rightarrow> bool" where
  "settles d = (\<lambda>(D, H, R) (D', H', R').
     (\<exists>D1 D2. D = D1 @ d # D2 \<and> D' = D1 @ D2 \<and> H' = d # H \<and> R' = R) \<or>
     d \<in> set H \<and> D' = D \<and> H' = H \<and> R' = dl_id d # R)"

lemma settlesD:
  assumes "settles d (D, H, R) (D', H', R')"
  shows "d \<in> set D \<union> set H" "set D' \<subseteq> set D" "set H' \<subseteq> set D \<union> set H" "set R \<subseteq> set R'" "x \<in> set D \<Longrightarrow> x \<noteq> d \<Longrightarrow> x \<in> set D'"
  using assms by (auto simp: settles_def)

lemma settles_distinct:
  assumes s: "settles d (D, H, R) (D', H', R')" and D: "distinct (filter (\<lambda>i. i \<notin> X \<union> set R) (map dl_id D))"
  shows "distinct (filter (\<lambda>i. i \<notin> X \<union> set R') (map dl_id D'))"
    and "x \<in> set D' \<Longrightarrow> dl_id x \<notin> X \<union> set R' \<Longrightarrow> dl_id x \<noteq> dl_id d"
proof -
  have "distinct (filter (\<lambda>i. i \<notin> X \<union> set R') (map dl_id D')) \<and> (x \<in> set D' \<longrightarrow> dl_id x \<notin> X \<union> set R' \<longrightarrow> dl_id x \<noteq> dl_id d)" for x
    using s unfolding settles_def prod.case
  proof (elim disjE exE conjE)
    fix D1 D2 assume e: "D = D1 @ d # D2" "D' = D1 @ D2" "R' = R"
    show ?thesis
    proof (cases "dl_id d \<in> X \<union> set R")
      case True
      then have "filter (\<lambda>i. i \<notin> X \<union> set R) (map dl_id D') = filter (\<lambda>i. i \<notin> X \<union> set R) (map dl_id D)"
        unfolding e by (simp only: map_append list.map filter_append filter.simps True not_not if_False simp_thms)
      moreover have "dl_id x \<notin> X \<union> set R' \<Longrightarrow> dl_id x \<noteq> dl_id d" using True e(3) by metis
      ultimately show ?thesis using D e(3) by simp
    next
      case False
      let ?f = "filter (\<lambda>i. i \<notin> X \<union> set R)"
      have "distinct (?f (map dl_id D1) @ dl_id d # ?f (map dl_id D2))" using D e(1) False by simp
      then have "dl_id d \<notin> set (?f (map dl_id D'))" "distinct (?f (map dl_id D'))" using e(2) by auto
      moreover have "x \<in> set D' \<Longrightarrow> dl_id x \<notin> X \<union> set R \<Longrightarrow> dl_id x \<in> set (?f (map dl_id D'))" by simp
      ultimately show ?thesis using e(3) by metis
    qed
  next
    assume e: "D' = D" "R' = dl_id d # R"
    have "X \<union> set R \<subseteq> X \<union> set R'" using e(2) by auto
    from distinct_filter_less[OF D this] show ?thesis using e by auto
  qed
  then show "distinct (filter (\<lambda>i. i \<notin> X \<union> set R') (map dl_id D'))"
    "x \<in> set D' \<Longrightarrow> dl_id x \<notin> X \<union> set R' \<Longrightarrow> dl_id x \<noteq> dl_id d" by blast+
qed

lemma settles_ctx:
  assumes "queue_inv (w, D, H, A, P, R)" "settles d (D, H, R) (D', H', R')"
    and "(q, i, s, tx) \<in> set D' \<union> set H'" "\<not> q_Blocking (ps_queue q w)"
  shows "ctx_valid tx w"
  using queue_invD(5)[OF assms(1), of q i s tx] settlesD(2,3)[OF assms(2)] assms(3,4) by blast

lemma inv_release:
  assumes inv: "queue_inv (w, D, H, A, P, R)" and st: "settles (q, i, s, tx) (D, H, R) (D', H', R')"
  shows "queue_inv ((fst w, q_release q i s (snd w)), D', H', A, P, R')"
proof -
  let ?f = "map (\<lambda>m. if qm_id m = i then message_release s m else m)" and ?n = "length (ps_queues (snd w))"
  note ok = queue_invD(3)[OF inv] and sub = settlesD[OF st]
  have q: "q < ?n" "s \<noteq> 0" using deliv_okD[OF ok sub(1)] by blast+
  have ids: "map qm_id (?f l) = map qm_id l" for l by (induction l) simp_all
  have mem: "m \<in> set (?f l) \<longleftrightarrow> m \<in> set l" if "qm_id m \<noteq> i" for m :: "'a queue_message" and l
    using that by (induction l) auto
  have "mset (map qm_id (((psw_M w)(q := ?f (psw_M w q))) x)) = mset (map qm_id (psw_M w x))" for x
    by (cases "x = q") (simp_all only: fun_upd_apply ids if_True if_False simp_thms)
  then have a: "ids_ok ?n ((psw_M w)(q := ?f (psw_M w q))) (ps_msgIDIndex (snd w)) (set A \<union> set P)"
    by (intro ids_ok_same[OF queue_invD(2)[OF inv]])
  have b: "deliv_ok ?n ((psw_M w)(q := ?f (psw_M w q))) D' H' (set A \<union> set P) (set P \<union> set R')"
  proof (rule deliv_ok_change[OF ok, where q = q and I = "{i}"])
    fix m assume m: "m \<in> set (((psw_M w)(q := ?f (psw_M w q))) q)" "qm_id m \<in> {i}" "qm_takenBy m \<noteq> 0"
    from m(1) obtain y where y: "y \<in> set (psw_M w q)" "m = (if qm_id y = i then message_release s y else y)"
      unfolding fun_upd_same set_map by (rule imageE)
    have "qm_id y = i" using y(2) m(2) by (auto split: if_splits)
    then have "m = y" "qm_takenBy y \<noteq> s" using y(2) m(3) message_release_held[OF q(2), of y] by auto
    then obtain tx' where "(q, qm_id m, qm_takenBy m, tx') \<in> set D" using deliv_ok_held[OF ok q(1) y(1)] m(3) by metis
    then show "\<exists>tx. (q, qm_id m, qm_takenBy m, tx) \<in> set D'"
      using sub(5)[of "(q, qm_id m, qm_takenBy m, tx')"] \<open>m = y\<close> \<open>qm_takenBy y \<noteq> s\<close> by auto
  next
    fix d assume "d \<in> set D" "fst d \<noteq> q \<or> dl_id d \<notin> {i}"
    then have "d \<noteq> (q, i, s, tx)" by auto
    then show "d \<in> set D'" using sub(5)[OF \<open>d \<in> set D\<close>] by blast
  next
    fix d assume "d \<in> set D'" "dl_id d \<notin> set P \<union> set R'"
    then show "dl_id d \<notin> {i}" using settles_distinct(2)[OF st deliv_ok_distinct[OF ok], of d] by simp
  next
    show "qm_id ` set (psw_M w q) \<subseteq> qm_id ` set (((psw_M w)(q := ?f (psw_M w q))) q) \<union> (set A \<union> set P)"
      using arg_cong[OF ids[of "psw_M w q"], of set] unfolding fun_upd_same by (simp only: set_map Un_upper1)
  qed (use sub(2-4) settles_distinct(1)[OF st deliv_ok_distinct[OF ok]] mem in auto)
  have c: "count_list A j \<le> 1" if "j \<notin> set P \<union> set R'" for j using queue_invD(4)[OF inv, of j] sub(4) that by blast
  show ?thesis unfolding q_release_def
    by (rule inv_set[where f = ?f, OF queue_invD(1)[OF inv] q(1) a b c settles_ctx[OF inv st]])
qed

lemma inv_acked:
  assumes inv: "queue_inv (w, D, H, A, P, R)" and st: "settles (q, i, s, tx) (D, H, R) (D', H', R')"
  shows "queue_inv ((fst w, q_release q i s (ps_set_msgs q (filter (\<lambda>m. qm_id m \<noteq> i)) (snd w))), D', H', i # A, P, R')"
proof -
  let ?f = "filter (\<lambda>m. qm_id m \<noteq> i)" and ?n = "length (ps_queues (snd w))"
  note ok = queue_invD(3)[OF inv] and sub = settlesD[OF st]
  have q: "q < ?n" "i \<in> qm_id ` set (psw_M w q) \<union> (set A \<union> set P)" using deliv_okD[OF ok sub(1)] by blast+
  have "(\<lambda>l. map (\<lambda>m. if qm_id m = i then message_release s m else m) (?f l)) = ?f"
    by (rule ext) (rule map_idI, auto)
  from arg_cong[OF this, of "\<lambda>h. ps_set_msgs q h (snd w)"]
  have rel: "q_release q i s (ps_set_msgs q ?f (snd w)) = ps_set_msgs q ?f (snd w)"
    by (simp only: q_release_def ps_set_msgs_twice[OF q(1)])
  have un: "set (i # A) \<union> set P = (set A \<union> set P) \<union> {i}" by auto
  have a: "ids_ok ?n ((psw_M w)(q := ?f (psw_M w q))) (ps_msgIDIndex (snd w)) (set (i # A) \<union> set P)"
    using ids_ok_gone[OF queue_invD(2)[OF inv] q(1), of "{i}"] q(2) unfolding un by simp
  have b: "deliv_ok ?n ((psw_M w)(q := ?f (psw_M w q))) D' H' (set (i # A) \<union> set P) (set P \<union> set R')"
  proof (rule deliv_ok_change[OF ok, where q = q and I = "{i}"])
    fix d assume "d \<in> set D" "fst d \<noteq> q \<or> dl_id d \<notin> {i}"
    then have "d \<noteq> (q, i, s, tx)" by auto
    then show "d \<in> set D'" using sub(5)[OF \<open>d \<in> set D\<close>] by blast
  next
    fix d assume "d \<in> set D'" "dl_id d \<notin> set P \<union> set R'"
    then show "dl_id d \<notin> {i}" using settles_distinct(2)[OF st deliv_ok_distinct[OF ok], of d] by simp
  qed (use sub(2-4) settles_distinct(1)[OF st deliv_ok_distinct[OF ok]] in auto)
  have c: "count_list (i # A) j \<le> 1" if j: "j \<notin> set P \<union> set R'" for j
  proof (cases "j = i")
    case True
    have "i \<notin> set A"
    proof
      assume A: "i \<in> set A"
      have "(q, i, s, tx) \<in> set D" using st j True by (auto simp: settles_def)
      then obtain m where "m \<in> set (psw_M w q)" "qm_id m = i"
        using deliv_ok_holds[OF ok, of q i s tx] sub(4) j True by blast
      then show False using queue_invD(2)[OF inv] q(1) A unfolding ids_ok_def by blast
    qed
    then show ?thesis using True by (simp add: count_list_0_iff)
  next
    case False
    then show ?thesis using queue_invD(4)[OF inv, of j] sub(4) j by auto
  qed
  show ?thesis unfolding rel
    by (rule inv_set[where f = ?f, OF queue_invD(1)[OF inv] q(1) a b c settles_ctx[OF inv st]])
qed

text \<open>The parts of an acknowledgement.\<close>

lemma message_ack_parts:
  assumes inv: "queue_inv (w, D, H, A, P, R)" and d: "(q, i, s, tx) \<in> set D \<union> set H" and a: "message_ack q i s tx w = Some (r, w1)"
  obtains w0 where "quiet w w0 \<or> r = None \<and> adds w w0"
    "w1 = (if r = None then (fst w0, q_release q i s (ps_set_msgs q (filter (\<lambda>m. qm_id m \<noteq> i)) (snd w0)))
       else (fst w0, q_release q i s (snd w0)))"
proof -
  obtain w0 where w0: "(if \<not> q_Blocking (ps_queue q w) then q_CommitTx q (contextkit_WithoutCancel tx) w else Some (None, w)) = Some (r, w0)"
    "w1 = (if r = None then (fst w0, q_release q i s (ps_set_msgs q (filter (\<lambda>m. qm_id m \<noteq> i)) (snd w0)))
       else (fst w0, q_release q i s (snd w0)))"
    using a unfolding message_ack_def by (auto split: option.splits prod.splits if_splits)
  have "quiet w w0 \<or> r = None \<and> adds w w0"
  proof (cases "q_Blocking (ps_queue q w)")
    case True
    with w0(1) show ?thesis by (simp add: quiet_refl)
  next
    case False
    have "ctx_valid (contextkit_WithoutCancel tx) w" using queue_invD(5)[OF inv d False] by (simp add: ctx_valid_def m_lookupTx_def)
    then show ?thesis using CommitTx_effect[of q "contextkit_WithoutCancel tx" w r w0] w0(1) False queue_invD(1)[OF inv] by simp
  qed
  with w0(2) that show thesis by blast
qed

lemma inv_ack:
  assumes inv: "queue_inv (w, D, H, A, P, R)" and st: "settles (q, i, s, tx) (D, H, R) (D', H', R')"
    and a: "message_ack q i s tx w = Some (r, w1)"
  shows "queue_inv (w1, D', H', if r = None then i # A else A, P, R')"
proof -
  obtain w0 where w0: "quiet w w0 \<or> r = None \<and> adds w w0"
    "w1 = (if r = None then (fst w0, q_release q i s (ps_set_msgs q (filter (\<lambda>m. qm_id m \<noteq> i)) (snd w0)))
       else (fst w0, q_release q i s (snd w0)))"
    using message_ack_parts[OF inv settlesD(1)[OF st] a] .
  have "queue_inv (w0, D, H, A, P, R)" using w0(1) inv_quiet[OF inv] inv_adds[OF inv] by blast
  from inv_acked[OF this st] inv_release[OF this st] show ?thesis unfolding w0(2) by simp
qed

lemma nack_parts:
  "message_nack q i s tx w = Some (r, w1) \<Longrightarrow>
     w1 = (fst w, q_release q i s (snd w)) \<or> quiet (fst w, q_release q i s (snd w)) w1"
  using RollbackTx_quiet[of q "contextkit_WithoutCancel tx" "(fst w, q_release q i s (snd w))" r w1]
  by (auto simp: message_nack_def Let_def split: if_splits)

lemma inv_nack:
  assumes "queue_inv (w, D, H, A, P, R)" "settles (q, i, s, tx) (D, H, R) (D', H', R')" "message_nack q i s tx w = Some (r, w1)"
  shows "queue_inv (w1, D', H', A, P, R')"
  using inv_release[OF assms(1,2)] inv_quiet nack_parts[OF assms(3)] by blast

text \<open>A further settlement by a subscription that does not hold the message changes no queue.\<close>

lemma release_not_held: "\<not> holds_message q i s w \<Longrightarrow> q_release q i s (snd w) = snd w"
  unfolding q_release_def
  by (rule ps_set_msgs_id) (auto simp: holds_message_def ps_queue_def message_release_other intro: map_idI)

lemma inv_ack_again:
  assumes inv: "queue_inv (w, D, H, A, P, R)" and h: "(q, i, s, tx) \<in> set H" and a: "message_ack q i s tx w = Some (r, w1)"
  shows "queue_inv (w1, D, H, if r = None then i # A else A, P, if r = None \<or> holds_message q i s w then i # R else R)"
proof (cases "r = None \<or> holds_message q i s w")
  case True
  have "settles (q, i, s, tx) (D, H, R) (D, H, i # R)" using h by (simp add: settles_def)
  from inv_ack[OF inv this a] show ?thesis using True by simp
next
  case False
  have d: "(q, i, s, tx) \<in> set D \<union> set H" using h by simp
  obtain w0 where w0: "quiet w w0 \<or> r = None \<and> adds w w0"
    "w1 = (if r = None then (fst w0, q_release q i s (ps_set_msgs q (filter (\<lambda>m. qm_id m \<noteq> i)) (snd w0)))
       else (fst w0, q_release q i s (snd w0)))"
    using message_ack_parts[OF inv d a] .
  have qt: "quiet w w0" using w0(1) False by blast
  then have "\<not> holds_message q i s w0" using False by (simp add: quiet_def holds_message_def ps_queue_def)
  then have "w1 = (fst w0, snd w0)" using w0(2) False release_not_held[OF \<open>\<not> holds_message q i s w0\<close>] by (simp only: if_False de_Morgan_disj)
  then have "w1 = w0" by simp
  moreover have "r \<noteq> None" using False by simp
  ultimately show ?thesis using inv_quiet[OF inv qt] False by (simp only: if_False simp_thms)
qed

lemma inv_nack_again:
  assumes inv: "queue_inv (w, D, H, A, P, R)" and h: "(q, i, s, tx) \<in> set H" and a: "message_nack q i s tx w = Some (r, w1)"
  shows "queue_inv (w1, D, H, A, P, if holds_message q i s w then i # R else R)"
proof (cases "holds_message q i s w")
  case True
  have "settles (q, i, s, tx) (D, H, R) (D, H, i # R)" using h by (simp add: settles_def)
  from inv_nack[OF inv this a] show ?thesis using True by simp
next
  case False
  then have "w1 = w \<or> quiet w w1" using nack_parts[OF a] release_not_held[OF False] by simp
  then have "queue_inv (w1, D, H, A, P, R)" using inv inv_quiet[OF inv] by blast
  then show ?thesis using False by simp
qed

lemma settles_first: "settles d (D1 @ d # D2, H, R) (D1 @ D2, d # H, R)"
  by (auto simp: settles_def)

lemma queue_step_inv:
  assumes "sort_Slice srt" "queue_step srt c c'" "queue_inv c"
  shows "queue_inv c'"
  using assms(2,3)
proof (induction rule: queue_step.induct)
  case (client_begin q w ctx r w1 D H A P R)
  then show ?case using BeginTx_quiet inv_quiet by (metis prod.collapse)
next
  case (client_commit ctx w q r w1 D H A P R)
  then show ?case using CommitTx_effect[OF client_commit(2,1) queue_invD(1)[OF client_commit(3)]] inv_quiet inv_adds by blast
next
  case (client_rollback q ctx w r w1 D H A P R)
  then show ?case using RollbackTx_quiet inv_quiet by blast
next
  case (client_cancel w D H A P R i)
  then show ?case using quiet_cancel inv_quiet by blast
next
  case (publish q w env ctx d r w1 D H A P R)
  then show ?case using Publish_effect[OF publish(3,2,1)] inv_quiet inv_adds by blast
next
  case (publish_blocking q w D H A P R d)
  then show ?case unfolding publish_dbPublish using dbPublish_adds inv_adds by blast
next
  case (wait q w D H A P R)
  then show ?case using inv_sort[OF assms(1)] by blast
next
  case (purge q w r w1 D H A P R)
  then show ?case using inv_purge[OF purge(3,1)] by (auto simp: q_Purge_def psw_M_def)
next
  case (take q w s ctx createdAt m tx w1 D H A P R)
  then show ?case using inv_take[OF assms(1)] by blast
next
  case (take_none q w ctx s createdAt w1 D H A P R)
  then obtain w0 c r where w0: "quiet w w0"
    "w1 = (fst w0, q_rIter srt q (snd w0)) \<or> q_RollbackTx q c (fst w0, q_rIter srt q (snd w0)) = Some (r, w1)"
    using take_pass_None[OF take_none(2,1)] by metis
  then have "queue_inv ((fst w0, q_rIter srt q (snd w0)), D, H, A, P, R)"
    using inv_sort[OF assms(1) inv_quiet[OF take_none(3) w0(1)]] take_none(1) by (simp add: quiet_def)
  then show ?case using w0(2) RollbackTx_quiet inv_quiet by blast
next
  case (ack q i s tx w r w1 D1 D2 H A P R)
  then show ?case using inv_ack[OF ack(2) settles_first] by blast
next
  case (nack q i s tx w r w1 D1 D2 H A P R)
  then show ?case using inv_nack[OF nack(2) settles_first] by blast
next
  case (ack_again q i s tx H w r w1 D A P R)
  then show ?case using inv_ack_again by blast
next
  case (nack_again q i s tx H w r w1 D A P R)
  then show ?case using inv_nack_again by blast
qed

lemma queue_reach_inv:
  assumes "sort_Slice srt"
  shows "queue_reach srt c \<Longrightarrow> queue_inv c"
proof (induction rule: queue_reach.induct)
  case (start w)
  have "psw_M w x = []" if "x < length (ps_queues (snd w))" for x
    using start that by (simp add: psw_M_def ps_queue_def list_all_length)
  then show ?case using start by (simp add: queue_inv_def tx_ok_def ids_ok_def deliv_ok_def)
next
  case (step c c')
  then show ?case using queue_step_inv[OF assms] by blast
qed

lemma count_list_distinct: "distinct xs \<Longrightarrow> count_list xs x = (if x \<in> set xs then 1 else 0)"
  by (induction xs) auto

lemma count_list_filtered: "p x \<Longrightarrow> count_list (filter p xs) x = count_list xs x"
  by (induction xs) auto

text \<open>C28: no message is lost and none is delivered twice at a time. Whatever the clients do and in whatever order, transactions, cancellations, purges and repeated settlements included, every message that was ever published to the queues was acknowledged or purged and is in no queue, or it is in exactly one queue, once; and a message that is held is held by a subscription with an unsettled delivery of it, so that it becomes free when that is settled without success. A message that was not purged, and with which no second settlement interfered, was acknowledged at most once and has at most one unsettled delivery, which holds it.\<close>

theorem queue_no_loss:
  assumes "sort_Slice srt" "queue_reach srt (w, D, H, A, P, R)"
  shows "(\<forall>i \<in> {1..ps_msgIDIndex (snd w)}.
       if i \<in> set A \<union> set P then \<forall>x < length (ps_queues (snd w)). i \<notin> qm_id ` set (q_msgs (ps_queue x w))
       else \<exists>!x. x < length (ps_queues (snd w)) \<and> i \<in> qm_id ` set (q_msgs (ps_queue x w))) \<and>
     (\<forall>x < length (ps_queues (snd w)). distinct (map qm_id (q_msgs (ps_queue x w))) \<and>
        (\<forall>m \<in> set (q_msgs (ps_queue x w)). qm_takenBy m \<noteq> 0 \<longrightarrow> (\<exists>tx. (x, qm_id m, qm_takenBy m, tx) \<in> set D))) \<and>
     (\<forall>i. i \<notin> set P \<union> set R \<longrightarrow>
        count_list A i \<le> 1 \<and> count_list (map dl_id D) i \<le> 1 \<and>
        (\<forall>q s tx. (q, i, s, tx) \<in> set D \<longrightarrow> (\<exists>m \<in> set (q_msgs (ps_queue q w)). qm_id m = i \<and> qm_takenBy m = s)))"
proof -
  let ?n = "length (ps_queues (snd w))" and ?G = "set A \<union> set P" and ?X = "set P \<union> set R"
  note inv = queue_reach_inv[OF assms]
  note ids = queue_invD(2)[OF inv] and del = queue_invD(3)[OF inv]
  have "if i \<in> ?G then \<forall>x < ?n. i \<notin> qm_id ` set (psw_M w x) else \<exists>!x. x < ?n \<and> i \<in> qm_id ` set (psw_M w x)"
    if i: "i \<in> {1..ps_msgIDIndex (snd w)}" for i
  proof (cases "i \<in> ?G")
    case True
    then have "\<forall>x < ?n. i \<notin> qm_id ` set (psw_M w x)" using ids unfolding ids_ok_def by blast
    with True show ?thesis by simp
  next
    case False
    have "i \<in> ?G \<union> (\<Union>x < ?n. qm_id ` set (psw_M w x))" using i ids unfolding ids_ok_def by blast
    with False obtain x where x: "x < ?n" "i \<in> qm_id ` set (psw_M w x)" by blast
    have "y = x" if y: "y < ?n" "i \<in> qm_id ` set (psw_M w y)" for y
    proof (rule ccontr)
      assume "y \<noteq> x"
      then have "qm_id ` set (psw_M w y) \<inter> qm_id ` set (psw_M w x) = {}" using ids y(1) x(1) unfolding ids_ok_def by blast
      with x(2) y(2) show False by blast
    qed
    with x have "\<exists>!x. x < ?n \<and> i \<in> qm_id ` set (psw_M w x)" by blast
    with False show ?thesis by simp
  qed
  moreover have "distinct (map qm_id (psw_M w x))" if "x < ?n" for x using ids that by (simp add: ids_ok_def)
  moreover have "\<exists>tx. (x, qm_id m, qm_takenBy m, tx) \<in> set D" if "x < ?n" "m \<in> set (psw_M w x)" "qm_takenBy m \<noteq> 0" for x m
    using deliv_ok_held[OF del that] by blast
  moreover have "count_list (map dl_id D) i \<le> 1" if "i \<notin> ?X" for i
  proof -
    let ?f = "filter (\<lambda>i. i \<notin> ?X) (map dl_id D)"
    have "count_list ?f i = (if i \<in> set ?f then 1 else 0)" by (rule count_list_distinct[OF deliv_ok_distinct[OF del]])
    then have "count_list ?f i \<le> 1" by (metis le_refl zero_le_one)
    then show ?thesis using count_list_filtered[of "\<lambda>i. i \<notin> ?X" i "map dl_id D"] that by simp
  qed
  moreover have "\<exists>m \<in> set (psw_M w q). qm_id m = i \<and> qm_takenBy m = s" if "i \<notin> ?X" "(q, i, s, tx) \<in> set D" for q i s tx
    using deliv_ok_holds[OF del that(2,1)] by blast
  moreover note queue_invD(4)[OF inv]
  ultimately show ?thesis unfolding psw_M_def by (intro conjI ballI allI impI) presburger+
qed

text \<open>A queue with one message: its publication, and its deliveries.\<close>

definition ex_queue :: "bool \<Rightarrow> nat \<Rightarrow> nat psw" where
  "ex_queue published holder =
     (\<lparr>cancelled = [], next_cancel = 0, tm_cells = []\<rparr>,
      \<lparr>ps_queues = [new_queue\<lparr>q_Blocking := True,
           q_msgs := (if published then [\<lparr>qm_v = 7, qm_id = 1, qm_timestamp = 0, qm_takenBy = holder\<rparr>] else [])\<rparr>],
       ps_txs = [], ps_clock = (\<lambda>n. n), ps_ticks = (if published then 1 else 0), ps_msgIDIndex = (if published then 1 else 0)\<rparr>)"

lemma ex_queue_ops:
  "q_Blocking (ps_queue 0 (ex_queue p h))" "length (ps_queues (snd (ex_queue p h))) = 1" "ps_msgIDIndex (snd (ex_queue True h)) = 1"
  "(fst (ex_queue False 0), snd (q_publish 0 7 (snd (ex_queue False 0)))) = ex_queue True 0"
  "s \<noteq> 0 \<Longrightarrow> take_pass insertion_sort 0 Background s 0 (ex_queue True 0) =
     Some (Taken \<lparr>qm_v = 7, qm_id = 1, qm_timestamp = 0, qm_takenBy = s\<rparr> Background, ex_queue True s)"
  "s \<noteq> 0 \<Longrightarrow> message_nack 0 1 s Background (ex_queue True s) = Some (None, ex_queue True 0)"
  "holds_message 0 1 s (ex_queue True s)"
  by (simp_all add: ex_queue_def ps_queue_def new_queue_def q_publish_def make_message_def clock_Now_def ps_set_msgs_def
      take_pass_def Let_def q_rIter_def insertion_sort_def message_take_def q_visible_def message_nack_def q_release_def
      message_release_def holds_message_def)

lemma ex_queue_taken: "queue_reach insertion_sort (ex_queue True 1, [(0, 1, 1, Background)], [], [], [], [])"
proof -
  have 0: "queue_reach insertion_sort (ex_queue False 0, [], [], [], [], [])"
    by (rule queue_reach.start) (simp_all add: ex_queue_def new_queue_def)
  have "queue_step insertion_sort (ex_queue False 0, [], [], [], [], []) (ex_queue True 0, [], [], [], [], [])"
    using queue_step.publish_blocking[of 0 "ex_queue False 0" insertion_sort "[]" "[]" "[]" "[]" "[]" 7] by (simp add: ex_queue_ops)
  from queue_reach.step[OF 0 this] have 1: "queue_reach insertion_sort (ex_queue True 0, [], [], [], [], [])" .
  show ?thesis using queue_reach.step[OF 1 queue_step.take[OF _ _ ex_queue_ops(5)[of 1]]] by (simp add: ex_queue_ops(2))
qed

theorem queue_no_loss_witness:
  "(\<exists>!x. x < 1 \<and> (1 :: nat) \<in> qm_id ` set (q_msgs (ps_queue x (ex_queue True 1)))) \<and>
   (\<exists>m \<in> set (q_msgs (ps_queue 0 (ex_queue True 1))). qm_id m = 1 \<and> qm_takenBy m = 1)"
  using queue_no_loss[OF insertion_sort_Slice ex_queue_taken] ex_queue_ops(2,3)
  by (auto simp del: One_nat_def)

text \<open>
  A second settlement does interfere: a subscription releases its message, receives it again, and the client releases
  the first delivery once more; while the second is still being handled the message is delivered to another
  subscription.
\<close>

lemma queue_second_nack_redelivers:
  "\<exists>w H R. queue_reach insertion_sort (w :: nat psw, [(0, 1, 2, Background), (0, 1, 1, Background)], H, [], [], R)"
proof -
  let ?d = "(0, 1, 1, Background) :: delivery"
  have n: "queue_step insertion_sort (ex_queue True 1, [] @ ?d # [], [], [], [], []) (ex_queue True 0, [] @ [], [?d], [], [], [])"
    by (rule queue_step.nack) (rule ex_queue_ops(6), simp)
  have 2: "queue_reach insertion_sort (ex_queue True 0, [], [?d], [], [], [])"
    using queue_reach.step[OF ex_queue_taken] n by simp
  have 3: "queue_reach insertion_sort (ex_queue True 1, [?d], [?d], [], [], [])"
    using queue_reach.step[OF 2 queue_step.take[OF _ _ ex_queue_ops(5)[of 1]]] by (simp add: ex_queue_ops(2))
  have "queue_step insertion_sort (ex_queue True 1, [?d], [?d], [], [], [])
      (ex_queue True 0, [?d], [?d], [], [], if holds_message 0 1 1 (ex_queue True 1) then 1 # [] else [])"
    by (rule queue_step.nack_again[of 0 1 1 Background]) (simp, rule ex_queue_ops(6), simp)
  from queue_reach.step[OF 3 this] obtain R where 4: "queue_reach insertion_sort (ex_queue True 0, [?d], [?d], [], [], R)" by blast
  have "queue_reach insertion_sort (ex_queue True 2, [(0, 1, 2, Background), ?d], [?d], [], [], R)"
    using queue_reach.step[OF 4 queue_step.take[OF _ _ ex_queue_ops(5)[of 2]]] by (simp add: ex_queue_ops(2))
  then show ?thesis by blast
qed

end
