(* ===== verification/Retry.thy ===== *)
theory Retry imports GoContext "HOL-Library.Word" "HOL-Library.Signed_Division" begin

text \<open>
  \<^verbatim>\<open>pkg/resilience/retry.go\<close>: the retry strategies and the range over \<^verbatim>\<open>Retries\<close>.

  A \<^verbatim>\<open>time.Duration\<close> is a 64-bit word read as a signed number of nanoseconds, a \<^verbatim>\<open>time.Time\<close>
  an integer number of nanoseconds since the zero time. What the strategies ask of their surroundings
  (clock, context, timers, random numbers, the scheduler) is a record of functions on a world; nothing is
  assumed of it, so a context may be cancelled between any two readings of it and a timer may
  take longer than asked for. A panic is an \<^const>\<open>Inl\<close>, a loop that does not end \<^const>\<open>None\<close>.
\<close>

section \<open>Time and surroundings\<close>

type_synonym duration = "64 word"
type_synonym gotime = int

definition time_Add :: "gotime \<Rightarrow> duration \<Rightarrow> gotime" where
  "time_Add t d = t + sint d"

text \<open>\<^verbatim>\<open>Time.Sub\<close> saturates.\<close>

definition time_Sub :: "gotime \<Rightarrow> gotime \<Rightarrow> duration" where
  "time_Sub t u = word_of_int (max (- (2 ^ 63)) (min (2 ^ 63 - 1) (t - u)))"

text \<open>
  \<^verbatim>\<open>re_After d\<close> is the \<^verbatim>\<open>select\<close> between \<^verbatim>\<open>ctx.Done()\<close> and \<^verbatim>\<open>clock.After(d)\<close>: true when the
  timer was taken. \<^verbatim>\<open>re_Conversion\<close> is what the platform makes of a float that is too large for an int64.
\<close>

record 'w retry_env =
  re_Now :: "'w \<Rightarrow> gotime \<times> 'w"
  re_Err :: "'w \<Rightarrow> go_error option \<times> 'w"
  re_After :: "duration \<Rightarrow> 'w \<Rightarrow> bool \<times> 'w"
  re_Intn :: "int \<Rightarrow> 'w \<Rightarrow> int \<times> 'w"
  re_NumGoroutine :: "'w \<Rightarrow> int \<times> 'w"
  re_Sleep :: "duration \<Rightarrow> 'w \<Rightarrow> 'w"
  re_Conversion :: duration

text \<open>\<^verbatim>\<open>zerokit.Coalesce\<close> on numbers.\<close>

fun Coalesce :: "'a::zero list \<Rightarrow> 'a" where
  "Coalesce [] = 0"
| "Coalesce (v # vs) = (if v \<noteq> 0 then v else Coalesce vs)"

record RetryAttempt =
  ra_StartedAt :: gotime
  ra_FailureCount :: int

definition MakeRetryAttempt :: "'w retry_env \<Rightarrow> 'w \<Rightarrow> RetryAttempt \<times> 'w" where
  "MakeRetryAttempt env w = (case re_Now env w of (now, w') \<Rightarrow> (\<lparr>ra_StartedAt = now, ra_FailureCount = 0\<rparr>, w'))"

definition RetryAttempt_Next :: "RetryAttempt \<Rightarrow> RetryAttempt" where
  "RetryAttempt_Next a = a\<lparr>ra_FailureCount := ra_FailureCount a + 1\<rparr>"

type_synonym 'w strategy = "RetryAttempt \<Rightarrow> 'w \<Rightarrow> (string + bool) \<times> 'w"

section \<open>ExponentialBackoff\<close>

record ExponentialBackoff =
  eb_Delay :: duration
  eb_Timeout :: duration
  eb_Attempts :: int

text \<open>\<^verbatim>\<open>time.Duration(math.Pow(2, float64(count)))\<close>: powers of two are exact floats.\<close>

definition backoffMultiplier :: "'w retry_env \<Rightarrow> int \<Rightarrow> duration" where
  "backoffMultiplier env count = (if count < 0 then 0 else if count < 63 then 2 ^ nat count else re_Conversion env)"

definition eb_calcWaitTime :: "'w retry_env \<Rightarrow> duration \<Rightarrow> int \<Rightarrow> duration" where
  "eb_calcWaitTime env waitTime count = backoffMultiplier env count * waitTime"

definition eb_getWaitTime :: "ExponentialBackoff \<Rightarrow> duration" where
  "eb_getWaitTime rs = Coalesce [eb_Delay rs, 500 * 1000000]"

definition eb_getMaxRetries :: "ExponentialBackoff \<Rightarrow> int" where
  "eb_getMaxRetries rs = Coalesce [eb_Attempts rs, 5]"

definition eb_waitTime :: "'w retry_env \<Rightarrow> ExponentialBackoff \<Rightarrow> int \<Rightarrow> 'w \<Rightarrow> (duration \<times> bool) \<times> 'w" where
  "eb_waitTime env rs count w =
     (let maxRetries = eb_getMaxRetries rs; waitTime = eb_getWaitTime rs
      in if maxRetries \<le> count \<and> eb_Timeout rs = 0 then ((0, False), w)
         else (case re_Err env w of
                 (e1, w1) \<Rightarrow>
                   if e1 = None \<and> count = 0 then ((0, True), w1)
                   else (case re_Err env w1 of
                           (e2, w2) \<Rightarrow>
                             if e2 \<noteq> None then ((0, False), w2)
                             else ((eb_calcWaitTime env waitTime count, True), w2))))"

text \<open>The loop of \<^verbatim>\<open>isDeadlineReached\<close>; \<^const>\<open>None\<close> when a wait time is not available.\<close>

fun total_waited :: "(int \<Rightarrow> 'w \<Rightarrow> (duration \<times> bool) \<times> 'w) \<Rightarrow> int list \<Rightarrow> duration \<Rightarrow> 'w \<Rightarrow> duration option \<times> 'w" where
  "total_waited waitTime [] acc w = (Some acc, w)"
| "total_waited waitTime (i # is) acc w =
     (case waitTime i w of
        ((d, ok), w') \<Rightarrow> if \<not> ok then (None, w') else total_waited waitTime is (acc + d) w')"

definition eb_isDeadlineReached :: "'w retry_env \<Rightarrow> ExponentialBackoff \<Rightarrow> int \<Rightarrow> 'w \<Rightarrow> bool \<times> 'w" where
  "eb_isDeadlineReached env rs failureCount w =
     (if eb_Timeout rs = 0 then (False, w)
      else (case total_waited (eb_waitTime env rs) [0..failureCount] 0 w of
              (None, w') \<Rightarrow> (False, w')
            | (Some acc, w') \<Rightarrow> (eb_Timeout rs <=s acc, w')))"

definition eb_ShouldTry :: "'w retry_env \<Rightarrow> ExponentialBackoff \<Rightarrow> 'w strategy" where
  "eb_ShouldTry env rs attempt w =
     (case eb_isDeadlineReached env rs (ra_FailureCount attempt) w of
        (True, w1) \<Rightarrow> (Inr False, w1)
      | (False, w1) \<Rightarrow>
          (case eb_waitTime env rs (ra_FailureCount attempt) w1 of
             ((waitTime, ok), w2) \<Rightarrow>
               if \<not> ok then (Inr False, w2)
               else (case re_After env waitTime w2 of (fired, w3) \<Rightarrow> (Inr fired, w3))))"

section \<open>FixedDelay\<close>

record FixedDelay =
  fd_Delay :: duration
  fd_Timeout :: duration
  fd_Attempts :: int

definition fd_getWaitTime :: "FixedDelay \<Rightarrow> duration" where
  "fd_getWaitTime rs = Coalesce [fd_Delay rs, 500 * 1000000]"

definition fd_getMaxRetries :: "FixedDelay \<Rightarrow> int" where
  "fd_getMaxRetries rs = Coalesce [fd_Attempts rs, 5]"

definition fd_waitTime :: "'w retry_env \<Rightarrow> FixedDelay \<Rightarrow> int \<Rightarrow> 'w \<Rightarrow> (duration \<times> bool) \<times> 'w" where
  "fd_waitTime env rs count w =
     (let maxRetries = fd_getMaxRetries rs; waitTime = fd_getWaitTime rs
      in if maxRetries \<le> count \<and> fd_Timeout rs = 0 then ((0, False), w)
         else (case re_Err env w of
                 (e1, w1) \<Rightarrow>
                   if e1 = None \<and> count = 0 then ((0, True), w1)
                   else (case re_Err env w1 of
                           (e2, w2) \<Rightarrow>
                             if e2 \<noteq> None then ((0, False), w2)
                             else ((waitTime, True), w2))))"

definition fd_isDeadlineReached :: "'w retry_env \<Rightarrow> FixedDelay \<Rightarrow> int \<Rightarrow> 'w \<Rightarrow> bool \<times> 'w" where
  "fd_isDeadlineReached env rs failureCount w =
     (if fd_Timeout rs = 0 then (False, w)
      else (case total_waited (fd_waitTime env rs) [0..failureCount] 0 w of
              (None, w') \<Rightarrow> (False, w')
            | (Some acc, w') \<Rightarrow> (fd_Timeout rs <=s acc, w')))"

definition fd_ShouldTry :: "'w retry_env \<Rightarrow> FixedDelay \<Rightarrow> 'w strategy" where
  "fd_ShouldTry env rs attempt w =
     (case fd_isDeadlineReached env rs (ra_FailureCount attempt) w of
        (True, w1) \<Rightarrow> (Inr False, w1)
      | (False, w1) \<Rightarrow>
          (case fd_waitTime env rs (ra_FailureCount attempt) w1 of
             ((waitTime, ok), w2) \<Rightarrow>
               if \<not> ok then (Inr False, w2)
               else (case re_After env waitTime w2 of (fired, w3) \<Rightarrow> (Inr fired, w3))))"

section \<open>Jitter\<close>

record Jitter =
  ji_Delay :: duration
  ji_Attempts :: int

definition ji_getMaxWaitTime :: "Jitter \<Rightarrow> duration" where
  "ji_getMaxWaitTime rs = Coalesce [ji_Delay rs, 5 * 1000000000]"

definition ji_getMaxRetries :: "Jitter \<Rightarrow> int" where
  "ji_getMaxRetries rs = Coalesce [ji_Attempts rs, 5]"

text \<open>\<^verbatim>\<open>Intn\<close> panics when its argument is not positive; the addition wraps.\<close>

definition ji_waitTime :: "'w retry_env \<Rightarrow> Jitter \<Rightarrow> 'w \<Rightarrow> (string + duration) \<times> 'w" where
  "ji_waitTime env rs w =
     (let n = sint (ji_getMaxWaitTime rs + 1)
      in if n \<le> 0 then (Inl ''invalid argument to Intn'', w)
         else (case re_Intn env n w of (r, w') \<Rightarrow> (Inr (word_of_int r), w')))"

definition ji_ShouldTry :: "'w retry_env \<Rightarrow> Jitter \<Rightarrow> 'w strategy" where
  "ji_ShouldTry env rs attempt w =
     (if ji_getMaxRetries rs \<le> ra_FailureCount attempt then (Inr False, w)
      else (case re_Err env w of
              (Some e, w1) \<Rightarrow> (Inr False, w1)
            | (None, w1) \<Rightarrow>
                if ra_FailureCount attempt = 0 then (Inr True, w1)
                else (case ji_waitTime env rs w1 of
                        (Inl panic, w2) \<Rightarrow> (Inl panic, w2)
                      | (Inr d, w2) \<Rightarrow> (case re_After env d w2 of (fired, w3) \<Rightarrow> (Inr fired, w3)))))"

section \<open>Waiter\<close>

record Waiter =
  wa_Timeout :: duration
  wa_WaitDuration :: duration

definition wa_getTimeout :: "Waiter \<Rightarrow> duration" where
  "wa_getTimeout rs = Coalesce [wa_Timeout rs, 30 * 1000000000]"

definition wa_getWaitDuration :: "Waiter \<Rightarrow> duration" where
  "wa_getWaitDuration rs = Coalesce [wa_WaitDuration rs, 1000000]"

definition wa_ShouldTry :: "'w retry_env \<Rightarrow> Waiter \<Rightarrow> 'w strategy" where
  "wa_ShouldTry env rs attempt w =
     (case re_Now env w of
        (now, w1) \<Rightarrow>
          let deadline = time_Add (ra_StartedAt attempt) (wa_getTimeout rs)
          in if \<not> now < deadline then (Inr False, w1)
             else (case re_Err env w1 of (e, w2) \<Rightarrow> (Inr (e = None), w2)))"

text \<open>The function \<^verbatim>\<open>wait\<close>: at most one round per goroutine.\<close>

fun wait_rounds :: "'w retry_env \<Rightarrow> duration \<Rightarrow> duration \<Rightarrow> gotime \<Rightarrow> nat \<Rightarrow> 'w \<Rightarrow> 'w" where
  "wait_rounds env maxWait WaitUnit startedAt 0 w = w"
| "wait_rounds env maxWait WaitUnit startedAt (Suc n) w =
     (case re_Now env w of
        (now, w1) \<Rightarrow>
          let elapsed = time_Sub now startedAt
          in if maxWait <=s elapsed then w1
             else if elapsed <s maxWait
             then (let diff = maxWait - elapsed; ttw = (if diff <s WaitUnit then diff else WaitUnit)
                   in wait_rounds env maxWait WaitUnit startedAt n (re_Sleep env ttw w1))
             else wait_rounds env maxWait WaitUnit startedAt n w1)"

definition retry_wait :: "'w retry_env \<Rightarrow> duration \<Rightarrow> 'w \<Rightarrow> 'w" where
  "retry_wait env maxWait w =
     (case re_NumGoroutine env w of
        (goroutNum, w1) \<Rightarrow>
          (case re_Now env w1 of
             (startedAt, w2) \<Rightarrow>
               let unit = word_of_int (sint maxWait sdiv goroutNum);
                   WaitUnit = (if unit = 0 then 1 else unit)
               in wait_rounds env maxWait WaitUnit startedAt (nat goroutNum) w2))"

text \<open>\<^verbatim>\<open>Waiter.wait\<close> and \<^verbatim>\<open>Waiter.While\<close>; \<^const>\<open>None\<close> when they do not return.\<close>

partial_function (option) wait_until :: "'w retry_env \<Rightarrow> duration \<Rightarrow> gotime \<Rightarrow> 'w \<Rightarrow> 'w option" where
  "wait_until env d finishTime w =
     (case re_Now env w of
        (now, w1) \<Rightarrow>
          if now < finishTime then wait_until env d finishTime (retry_wait env d w1) else Some w1)"

definition wa_wait :: "'w retry_env \<Rightarrow> Waiter \<Rightarrow> 'w \<Rightarrow> 'w option" where
  "wa_wait env rs w =
     (case re_Now env w of
        (now, w1) \<Rightarrow> wait_until env (wa_getWaitDuration rs) (time_Add now (wa_getWaitDuration rs)) w1)"

partial_function (option) while_until ::
    "'w retry_env \<Rightarrow> Waiter \<Rightarrow> ('w \<Rightarrow> bool \<times> 'w) \<Rightarrow> gotime \<Rightarrow> 'w \<Rightarrow> 'w option" where
  "while_until env rs body finishTime w =
     (case body w of
        (continue, w1) \<Rightarrow>
          if \<not> continue then Some w1
          else (case re_Now env w1 of
                  (now, w2) \<Rightarrow>
                    if now < finishTime
                    then (case wa_wait env rs w2 of None \<Rightarrow> None | Some w3 \<Rightarrow> while_until env rs body finishTime w3)
                    else Some w2))"

definition wa_While :: "'w retry_env \<Rightarrow> Waiter \<Rightarrow> ('w \<Rightarrow> bool \<times> 'w) \<Rightarrow> 'w \<Rightarrow> 'w option" where
  "wa_While env rs body w =
     (case re_Now env w of
        (now, w1) \<Rightarrow> while_until env rs body (time_Add now (wa_getTimeout rs)) w1)"

section \<open>Retries\<close>

text \<open>The strategy in use: the given one, the package's default, a zero \<^verbatim>\<open>Jitter\<close>.\<close>

definition GetRetryStrategy :: "'w retry_env \<Rightarrow> 'w strategy option \<Rightarrow> 'w strategy option \<Rightarrow> 'w strategy" where
  "GetRetryStrategy env dflt rs =
     (case rs of
        Some s \<Rightarrow> s
      | None \<Rightarrow> (case dflt of Some s \<Rightarrow> s | None \<Rightarrow> ji_ShouldTry env \<lparr>ji_Delay = 0, ji_Attempts = 0\<rparr>))"

text \<open>
  The loop of a range over \<^verbatim>\<open>Retries\<close>; the body tells whether the range goes on. The strategy is asked by the
  loop's condition and again by the statement after it. The result is the panic, if any.
\<close>

partial_function (option) retries_loop ::
    "'w strategy \<Rightarrow> (RetryAttempt \<Rightarrow> 'w \<Rightarrow> (bool \<times> 'w) option) \<Rightarrow> RetryAttempt \<Rightarrow> 'w \<Rightarrow> (string option \<times> 'w) option" where
  "retries_loop rs yield attempt w =
     (case rs attempt w of
        (Inl panic, w1) \<Rightarrow> Some (Some panic, w1)
      | (Inr ok, w1) \<Rightarrow>
          if \<not> ok then Some (None, w1)
          else (case rs attempt w1 of
                  (Inl panic, w2) \<Rightarrow> Some (Some panic, w2)
                | (Inr ok, w2) \<Rightarrow>
                    if \<not> ok then Some (None, w2)
                    else (case yield attempt w2 of
                            None \<Rightarrow> None
                          | Some (continue, w3) \<Rightarrow>
                              if \<not> continue then Some (None, w3)
                              else retries_loop rs yield (RetryAttempt_Next attempt) w3)))"

definition Retries ::
    "'w retry_env \<Rightarrow> 'w strategy option \<Rightarrow> 'w strategy option \<Rightarrow>
     (RetryAttempt \<Rightarrow> 'w \<Rightarrow> (bool \<times> 'w) option) \<Rightarrow> 'w \<Rightarrow> (string option \<times> 'w) option" where
  "Retries env dflt rs yield w =
     (case MakeRetryAttempt env w of
        (attempt, w1) \<Rightarrow> retries_loop (GetRetryStrategy env dflt rs) yield attempt w1)"

section \<open>How often the body runs\<close>

text \<open>
  A strategy that stops: it never allows the attempt with a certain number of failures. The attempts of one
  range have the numbers 0, 1, 2 and so on, so the range ends there.
\<close>

locale stopping_strategy =
  fixes ask :: "'w strategy"
    and limit :: nat
  assumes stops: "ask a w = (Inr True, w') \<Longrightarrow> ra_FailureCount a \<noteq> int limit"
begin

lemma loop_returns:
  assumes keeps: "\<And>a w r w'. ask a w = (r, w') \<Longrightarrow> cnt w' = cnt w"
    and body: "\<And>a w. \<exists>continue w'. yield a w = Some (continue, w') \<and> cnt w' \<le> Suc (cnt w)"
    and fc: "ra_FailureCount a = int k" "k \<le> limit"
  shows "\<exists>panic w'. retries_loop ask yield a w = Some (panic, w') \<and> cnt w' \<le> cnt w + (limit - k)"
  using fc
proof (induction "limit - k" arbitrary: k a w)
  case 0
  then have "ra_FailureCount a = int limit" by simp
  then have no: "fst (ask a w) \<noteq> Inr True" by (metis prod.collapse stops)
  obtain r w1 where r: "ask a w = (r, w1)" by (cases "ask a w")
  with no keeps[OF r] show ?case
    by (subst retries_loop.simps) (auto split: sum.splits)
next
  case (Suc n)
  obtain r w1 where r: "ask a w = (r, w1)" by (cases "ask a w")
  obtain r' w2 where r': "ask a w1 = (r', w2)" by (cases "ask a w1")
  obtain c w3 where y: "yield a w2 = Some (c, w3)" "cnt w3 \<le> Suc (cnt w2)" using body by blast
  have c: "cnt w1 = cnt w" "cnt w2 = cnt w" using keeps[OF r] keeps[OF r'] by simp_all
  have n: "n = limit - Suc k" "ra_FailureCount (RetryAttempt_Next a) = int (Suc k)" "Suc k \<le> limit"
    using Suc.hyps(2) Suc.prems by (simp_all add: RetryAttempt_Next_def)
  obtain p w4 where l: "retries_loop ask yield (RetryAttempt_Next a) w3 = Some (p, w4)"
      "cnt w4 \<le> cnt w3 + (limit - Suc k)"
    using Suc.hyps(1)[OF n] by blast
  have "cnt w4 \<le> cnt w + (limit - k)" using l(2) y(2) c n(3) by linarith
  moreover have "cnt w3 \<le> cnt w + (limit - k)" using y(2) c n(3) by linarith
  ultimately show ?case using r r' y l c
    by (subst retries_loop.simps) (auto split: sum.splits)
qed

end

text \<open>The functions of the surroundings leave what \<open>f\<close> observes as it is.\<close>

definition env_keeps :: "'w retry_env \<Rightarrow> ('w \<Rightarrow> 'a) \<Rightarrow> bool" where
  "env_keeps env f \<longleftrightarrow>
     (\<forall>w. f (snd (re_Now env w)) = f w \<and> f (snd (re_Err env w)) = f w \<and> (\<forall>d. f (snd (re_After env d w)) = f w) \<and>
          (\<forall>n. f (snd (re_Intn env n w)) = f w))"

lemma env_keepsD:
  assumes "env_keeps env f"
  shows "re_Now env w = (t, w') \<Longrightarrow> f w' = f w" "re_Err env w = (e, w') \<Longrightarrow> f w' = f w"
    "re_After env d w = (b, w') \<Longrightarrow> f w' = f w" "re_Intn env n w = (r, w') \<Longrightarrow> f w' = f w"
  using assms unfolding env_keeps_def by (metis snd_conv)+

lemma eb_waitTime_keeps:
  assumes "env_keeps env f" shows "eb_waitTime env rs i w = (r, w') \<Longrightarrow> f w' = f w"
  using env_keepsD(2)[OF assms] by (auto simp: eb_waitTime_def Let_def split: if_splits prod.splits)

lemma fd_waitTime_keeps:
  assumes "env_keeps env f" shows "fd_waitTime env rs i w = (r, w') \<Longrightarrow> f w' = f w"
  using env_keepsD(2)[OF assms] by (auto simp: fd_waitTime_def Let_def split: if_splits prod.splits)

lemma total_waited_keeps:
  assumes "\<And>i w r w'. wt i w = (r, w') \<Longrightarrow> f w' = f w"
  shows "total_waited wt is acc w = (r, w') \<Longrightarrow> f w' = f w"
proof (induction "is" arbitrary: acc w)
  case (Cons i "is")
  obtain d ok w1 where t: "wt i w = ((d, ok), w1)" by (metis prod.collapse)
  show ?case using Cons.prems Cons.IH[of "acc + d" w1] assms[OF t] t by (auto split: if_splits)
qed simp

lemma eb_ShouldTry_keeps:
  assumes "env_keeps env f" "eb_ShouldTry env rs a w = (r, w')" shows "f w' = f w"
proof -
  obtain b w1 where b: "eb_isDeadlineReached env rs (ra_FailureCount a) w = (b, w1)"
    by (cases "eb_isDeadlineReached env rs (ra_FailureCount a) w")
  have 1: "f w1 = f w" using b total_waited_keeps[of "eb_waitTime env rs" f, OF eb_waitTime_keeps[OF assms(1)]]
    by (auto simp: eb_isDeadlineReached_def split: if_splits prod.splits option.splits)
  obtain d ok w2 where 2: "eb_waitTime env rs (ra_FailureCount a) w1 = ((d, ok), w2)" by (metis prod.collapse)
  obtain t w3 where 3: "re_After env d w2 = (t, w3)" by (cases "re_After env d w2")
  show ?thesis using assms(2) b 1 2 3 eb_waitTime_keeps[OF assms(1) 2] env_keepsD(3)[OF assms(1) 3]
    by (auto simp: eb_ShouldTry_def split: if_splits bool.splits)
qed

lemma fd_ShouldTry_keeps:
  assumes "env_keeps env f" "fd_ShouldTry env rs a w = (r, w')" shows "f w' = f w"
proof -
  obtain b w1 where b: "fd_isDeadlineReached env rs (ra_FailureCount a) w = (b, w1)"
    by (cases "fd_isDeadlineReached env rs (ra_FailureCount a) w")
  have 1: "f w1 = f w" using b total_waited_keeps[of "fd_waitTime env rs" f, OF fd_waitTime_keeps[OF assms(1)]]
    by (auto simp: fd_isDeadlineReached_def split: if_splits prod.splits option.splits)
  obtain d ok w2 where 2: "fd_waitTime env rs (ra_FailureCount a) w1 = ((d, ok), w2)" by (metis prod.collapse)
  obtain t w3 where 3: "re_After env d w2 = (t, w3)" by (cases "re_After env d w2")
  show ?thesis using assms(2) b 1 2 3 fd_waitTime_keeps[OF assms(1) 2] env_keepsD(3)[OF assms(1) 3]
    by (auto simp: fd_ShouldTry_def split: if_splits bool.splits)
qed

lemma ji_ShouldTry_keeps:
  assumes "env_keeps env f" "ji_ShouldTry env rs a w = (r, w')" shows "f w' = f w"
  using assms(2)
  by (auto simp: ji_ShouldTry_def ji_waitTime_def Let_def split: if_splits prod.splits option.splits sum.splits
      dest!: env_keepsD(2,3,4)[OF assms(1)])


section \<open>The strategies stop\<close>

interpretation eb_attempts: stopping_strategy "eb_ShouldTry env (rs\<lparr>eb_Timeout := 0\<rparr>)" "nat (eb_getMaxRetries rs)"
  for env rs
  by unfold_locales
     (auto simp: eb_ShouldTry_def eb_isDeadlineReached_def eb_waitTime_def eb_getMaxRetries_def Let_def
       split: if_splits prod.splits)

interpretation fd_attempts: stopping_strategy "fd_ShouldTry env (rs\<lparr>fd_Timeout := 0\<rparr>)" "nat (fd_getMaxRetries rs)"
  for env rs
  by unfold_locales
     (auto simp: fd_ShouldTry_def fd_isDeadlineReached_def fd_waitTime_def fd_getMaxRetries_def Let_def
       split: if_splits prod.splits)

interpretation ji_attempts: stopping_strategy "ji_ShouldTry env rs" "nat (ji_getMaxRetries rs)"
  for env rs
  by unfold_locales (auto simp: ji_ShouldTry_def split: if_splits)

text \<open>A strategy with a number of attempts and no timeout.\<close>

inductive attempts_strategy :: "'w retry_env \<Rightarrow> 'w strategy \<Rightarrow> int \<Rightarrow> bool" for env where
  "eb_Timeout rs = 0 \<Longrightarrow> attempts_strategy env (eb_ShouldTry env rs) (eb_getMaxRetries rs)"
| "fd_Timeout rs = 0 \<Longrightarrow> attempts_strategy env (fd_ShouldTry env rs) (fd_getMaxRetries rs)"
| "attempts_strategy env (ji_ShouldTry env rs) (ji_getMaxRetries rs)"

lemma eb_no_timeout: "eb_Timeout rs = 0 \<Longrightarrow> rs\<lparr>eb_Timeout := 0\<rparr> = rs"
  by (cases rs) simp

lemma fd_no_timeout: "fd_Timeout rs = 0 \<Longrightarrow> rs\<lparr>fd_Timeout := 0\<rparr> = rs"
  by (cases rs) simp

lemma attempts_strategy_stops:
  assumes "attempts_strategy env ask n" shows "stopping_strategy ask (nat n)"
  using assms
proof cases
  case (1 rs)
  then show ?thesis using eb_attempts.stopping_strategy_axioms[of env rs] by (simp add: eb_no_timeout)
next
  case (2 rs)
  then show ?thesis using fd_attempts.stopping_strategy_axioms[of env rs] by (simp add: fd_no_timeout)
next
  case (3 rs)
  then show ?thesis using ji_attempts.stopping_strategy_axioms by simp
qed

lemma attempts_strategy_keeps:
  assumes "attempts_strategy env ask n" "env_keeps env f" "ask a w = (r, w')" shows "f w' = f w"
  using assms(1)
  by cases (use assms(2,3) eb_ShouldTry_keeps fd_ShouldTry_keeps ji_ShouldTry_keeps in metis)+

lemma Retries_stops:
  assumes "stopping_strategy ask n" "env_keeps env cnt"
    and "\<And>a w r w'. ask a w = (r, w') \<Longrightarrow> cnt w' = cnt w"
    and "\<And>a w. \<exists>continue w'. yield a w = Some (continue, w') \<and> cnt w' \<le> Suc (cnt w)"
  shows "\<exists>panic w'. Retries env dflt (Some ask) yield w = Some (panic, w') \<and> cnt w' \<le> cnt w + n"
proof -
  obtain t w1 where t: "re_Now env w = (t, w1)" by (cases "re_Now env w")
  have c: "cnt w1 = cnt w" using env_keepsD(1)[OF assms(2) t] .
  show ?thesis
    using stopping_strategy.loop_returns[OF assms(1), of cnt yield "\<lparr>ra_StartedAt = t, ra_FailureCount = 0\<rparr>" 0 w1,
        OF assms(3,4)] t c
    by (simp add: Retries_def MakeRetryAttempt_def GetRetryStrategy_def)
qed

text \<open>C32: A range over Retries with a strategy that counts attempts (ExponentialBackoff and FixedDelay without a
  timeout, Jitter) always ends, and its body runs at most Attempts times (5 when it is not set), whatever the clock,
  the context, the timers and the random source do and whatever the body does, as long as the body returns.\<close>

theorem retries_bounded:
  assumes "attempts_strategy env ask n" "env_keeps env runs"
    and "\<And>a w. \<exists>continue w'. yield a w = Some (continue, w') \<and> runs w' \<le> Suc (runs w)"
  shows "\<exists>panic w'. Retries env dflt (Some ask) yield w = Some (panic, w') \<and> runs w' \<le> runs w + nat n"
  by (rule Retries_stops[OF attempts_strategy_stops[OF assms(1)] assms(2)])
     (use assms(3) attempts_strategy_keeps[OF assms(1,2)] in blast)+

text \<open>A world that counts the runs of the body, on which every timer fires.\<close>

definition counting_env :: "nat retry_env" where
  "counting_env =
     \<lparr>re_Now = (\<lambda>w. (0, w)), re_Err = (\<lambda>w. (None, w)), re_After = (\<lambda>d w. (True, w)), re_Intn = (\<lambda>n w. (0, w)),
      re_NumGoroutine = (\<lambda>w. (1, w)), re_Sleep = (\<lambda>d w. w), re_Conversion = 0\<rparr>"

lemma retries_bounded_witness:
  "\<exists>panic w'. Retries counting_env None (Some (ji_ShouldTry counting_env \<lparr>ji_Delay = 7, ji_Attempts = 3\<rparr>))
      (\<lambda>a w. Some (True, Suc w)) 0 = Some (panic, w') \<and> w' \<le> 3"
proof -
  have k: "env_keeps counting_env (\<lambda>w. w)" by (simp add: env_keeps_def counting_env_def)
  have a: "attempts_strategy counting_env (ji_ShouldTry counting_env \<lparr>ji_Delay = 7, ji_Attempts = 3\<rparr>) 3"
    using attempts_strategy.intros(3)[of counting_env "\<lparr>ji_Delay = 7, ji_Attempts = 3\<rparr>"] by (simp add: ji_getMaxRetries_def)
  have y: "\<exists>continue w'. Some (True, Suc w) = Some (continue, w') \<and> w' \<le> Suc w" for w
    by (rule exI[of _ True]) simp
  show ?thesis using retries_bounded[OF a k y, of None 0] by simp
qed


section \<open>Timeouts\<close>

text \<open>\<open>dead w\<close>: the context is cancelled. Once it is, it stays so, and \<^verbatim>\<open>Err\<close> reports it.\<close>

definition sticky_ctx :: "'w retry_env \<Rightarrow> ('w \<Rightarrow> bool) \<Rightarrow> bool" where
  "sticky_ctx env dead \<longleftrightarrow>
     (\<forall>w e w'. re_Err env w = (e, w') \<longrightarrow> (dead w \<longrightarrow> e \<noteq> None \<and> dead w') \<and> (e \<noteq> None \<longrightarrow> dead w'))"

lemma sticky_ctxD:
  assumes "sticky_ctx env dead" "re_Err env w = (e, w')"
  shows "dead w \<Longrightarrow> e \<noteq> None" "dead w \<Longrightarrow> dead w'" "e \<noteq> None \<Longrightarrow> dead w'"
  using assms by (auto simp: sticky_ctx_def)

lemma sticky_ctx_twice:
  "sticky_ctx env dead \<Longrightarrow> re_Err env w = (Some e, w1) \<Longrightarrow> re_Err env w1 = (r, w2) \<Longrightarrow> r \<noteq> None \<and> dead w2"
  by (metis option.discI sticky_ctxD)

text \<open>The wait before the attempt with \<open>i\<close> failures, and the waits up to it, as numbers.\<close>

definition eb_nominal :: "ExponentialBackoff \<Rightarrow> nat \<Rightarrow> int" where
  "eb_nominal rs i = (if i = 0 then 0 else sint (eb_getWaitTime rs) * 2 ^ i)"

definition fd_nominal :: "FixedDelay \<Rightarrow> nat \<Rightarrow> int" where
  "fd_nominal rs i = (if i = 0 then 0 else sint (fd_getWaitTime rs))"

definition nominal_total :: "(nat \<Rightarrow> int) \<Rightarrow> nat \<Rightarrow> int" where
  "nominal_total D k = (\<Sum>i \<le> k. D i)"

lemma total_waited_cases:
  assumes "\<And>i w d ok w'. i \<in> set is \<Longrightarrow> wt i w = ((d, ok), w') \<Longrightarrow> if ok then d = D i else dead w'"
    and "total_waited wt is acc w = (r, w')"
  shows "case r of None \<Rightarrow> dead w' | Some t \<Rightarrow> t = acc + (\<Sum>i \<leftarrow> is. D i)"
  using assms
proof (induction "is" arbitrary: acc w)
  case (Cons i "is")
  obtain d ok w1 where t: "wt i w = ((d, ok), w1)" by (metis prod.collapse)
  have c: "if ok then d = D i else dead w1" using Cons.prems(1)[OF _ t] by simp
  show ?case
  proof (cases ok)
    case True
    then have "total_waited wt is (acc + d) w1 = (r, w')" using Cons.prems(2) t by simp
    have "case r of None \<Rightarrow> dead w' | Some t \<Rightarrow> t = acc + d + (\<Sum>i \<leftarrow> is. D i)"
      by (rule Cons.IH[OF Cons.prems(1) \<open>total_waited wt is (acc + d) w1 = (r, w')\<close>]) simp_all
    then show ?thesis using c True by (simp add: add.assoc split: option.splits)
  next
    case False
    then show ?thesis using Cons.prems(2) t c by auto
  qed
qed auto

lemma sum_list_upto: "(\<Sum>i \<leftarrow> [0..int k]. of_int (D (nat i))) = (of_int (nominal_total D k) :: 'a::len word)"
proof -
  have "(\<Sum>i \<leftarrow> [0..int k]. of_int (D (nat i))) = (\<Sum>i \<in> {0..int k}. (of_int (D (nat i)) :: 'a word))"
    by (simp add: sum_list_distinct_conv_sum_set)
  also have "\<dots> = (\<Sum>i \<le> k. of_int (D i))"
    by (rule sum.reindex_bij_witness[of _ int nat]) auto
  finally show ?thesis by (simp add: nominal_total_def)
qed

lemma sint_of_int_bounded: "0 \<le> z \<Longrightarrow> z < 2 ^ 63 \<Longrightarrow> sint (of_int z :: 64 word) = z"
  by (simp add: sint_sbintrunc' signed_take_bit_int_eq_self)


lemma eb_waitTime_nominal:
  assumes "sticky_ctx env dead" "eb_Timeout rs \<noteq> 0" "0 \<le> i" "i < 63" "eb_waitTime env rs i w = ((d, ok), w')"
  shows "if ok then d = of_int (eb_nominal rs (nat i)) else dead w'"
proof -
  have "of_int (eb_nominal rs (nat i)) = (if i = 0 then 0 else eb_calcWaitTime env (eb_getWaitTime rs) i)"
    using assms(3,4) by (auto simp: eb_nominal_def eb_calcWaitTime_def backoffMultiplier_def mult.commute)
  then show ?thesis using assms(2,5)
    by (auto simp: eb_waitTime_def Let_def split: if_splits prod.splits
        dest: sticky_ctxD(3)[OF assms(1)] sticky_ctx_twice[OF assms(1)])
qed

lemma fd_waitTime_nominal:
  assumes "sticky_ctx env dead" "fd_Timeout rs \<noteq> 0" "0 \<le> i" "fd_waitTime env rs i w = ((d, ok), w')"
  shows "if ok then d = of_int (fd_nominal rs (nat i)) else dead w'"
  using assms(2,3,4)
  by (auto simp: fd_nominal_def fd_waitTime_def Let_def split: if_splits prod.splits
      dest: sticky_ctxD(3)[OF assms(1)] sticky_ctx_twice[OF assms(1)])

lemma nominal_total_Suc: "nominal_total D (Suc k) = nominal_total D k + D (Suc k)"
  by (simp add: nominal_total_def)

lemma eb_total_less_63:
  assumes "0 < sint (eb_getWaitTime rs)" "nominal_total (eb_nominal rs) k < 2 ^ 63" shows "k < 63"
proof (rule ccontr)
  assume "\<not> k < 63"
  then have k: "63 \<le> k" by simp
  have "eb_nominal rs k \<le> nominal_total (eb_nominal rs) k"
    unfolding nominal_total_def
    by (rule member_le_sum) (use assms(1) in \<open>auto simp: eb_nominal_def\<close>)
  moreover have "2 ^ 63 \<le> eb_nominal rs k"
  proof -
    have "(2::int) ^ 63 \<le> 2 ^ k" using k by (rule power_increasing) simp
    also have "\<dots> \<le> sint (eb_getWaitTime rs) * 2 ^ k" using assms(1) by simp
    finally show ?thesis using k by (simp add: eb_nominal_def)
  qed
  ultimately show False using assms(2) by linarith
qed

text \<open>A strategy with a timeout, and the first number of failures at which the waits reach it.\<close>

inductive deadline_strategy :: "'w retry_env \<Rightarrow> 'w strategy \<Rightarrow> (nat \<Rightarrow> int) \<Rightarrow> int \<Rightarrow> bool" for env where
  "eb_Timeout rs \<noteq> 0 \<Longrightarrow> 0 < sint (eb_getWaitTime rs) \<Longrightarrow>
     deadline_strategy env (eb_ShouldTry env rs) (eb_nominal rs) (sint (eb_Timeout rs))"
| "fd_Timeout rs \<noteq> 0 \<Longrightarrow> 0 < sint (fd_getWaitTime rs) \<Longrightarrow>
     deadline_strategy env (fd_ShouldTry env rs) (fd_nominal rs) (sint (fd_Timeout rs))"

lemma nominal_total_nonneg: "(\<And>i. 0 \<le> D i) \<Longrightarrow> 0 \<le> nominal_total D k"
  by (simp add: nominal_total_def sum_nonneg)

lemma eb_total_nonneg: "0 < sint (eb_getWaitTime rs) \<Longrightarrow> 0 \<le> nominal_total (eb_nominal rs) k"
  by (rule nominal_total_nonneg) (simp add: eb_nominal_def)

lemma fd_total_nonneg: "0 < sint (fd_getWaitTime rs) \<Longrightarrow> 0 \<le> nominal_total (fd_nominal rs) k"
  by (rule nominal_total_nonneg) (simp add: fd_nominal_def)

lemma eb_deadline:
  assumes "sticky_ctx env dead" "eb_Timeout rs \<noteq> 0" "0 < sint (eb_getWaitTime rs)"
    and "nominal_total (eb_nominal rs) k < 2 ^ 63" "eb_isDeadlineReached env rs (int k) w = (b, w')"
  shows "dead w' \<or> (b \<longleftrightarrow> sint (eb_Timeout rs) \<le> nominal_total (eb_nominal rs) k)"
proof -
  obtain r w1 where r: "total_waited (eb_waitTime env rs) [0..int k] 0 w = (r, w1)"
    by (cases "total_waited (eb_waitTime env rs) [0..int k] 0 w")
  have k: "k < 63" using eb_total_less_63[OF assms(3,4)] .
  have "case r of None \<Rightarrow> dead w1 | Some t \<Rightarrow> t = 0 + (\<Sum>i \<leftarrow> [0..int k]. of_int (eb_nominal rs (nat i)))"
    by (rule total_waited_cases[OF _ r], rule eb_waitTime_nominal[OF assms(1,2)]) (use k in auto)
  then have "case r of None \<Rightarrow> dead w1 | Some t \<Rightarrow> sint t = nominal_total (eb_nominal rs) k"
    using eb_total_nonneg[OF assms(3)] assms(4)
    by (simp only: sum_list_upto add_0 sint_of_int_bounded cong: option.case_cong) (auto simp: sint_of_int_bounded split: option.splits)
  then show ?thesis using r assms(2,5)
    by (auto simp: eb_isDeadlineReached_def word_sle_eq split: option.splits)
qed

lemma fd_deadline:
  assumes "sticky_ctx env dead" "fd_Timeout rs \<noteq> 0" "0 < sint (fd_getWaitTime rs)"
    and "nominal_total (fd_nominal rs) k < 2 ^ 63" "fd_isDeadlineReached env rs (int k) w = (b, w')"
  shows "dead w' \<or> (b \<longleftrightarrow> sint (fd_Timeout rs) \<le> nominal_total (fd_nominal rs) k)"
proof -
  obtain r w1 where r: "total_waited (fd_waitTime env rs) [0..int k] 0 w = (r, w1)"
    by (cases "total_waited (fd_waitTime env rs) [0..int k] 0 w")
  have "case r of None \<Rightarrow> dead w1 | Some t \<Rightarrow> t = 0 + (\<Sum>i \<leftarrow> [0..int k]. of_int (fd_nominal rs (nat i)))"
    by (rule total_waited_cases[OF _ r], rule fd_waitTime_nominal[OF assms(1,2)]) auto
  then have "case r of None \<Rightarrow> dead w1 | Some t \<Rightarrow> sint t = nominal_total (fd_nominal rs) k"
    using fd_total_nonneg[OF assms(3)] assms(4)
    by (simp only: sum_list_upto add_0 sint_of_int_bounded cong: option.case_cong) (auto simp: sint_of_int_bounded split: option.splits)
  then show ?thesis using r assms(2,5)
    by (auto simp: fd_isDeadlineReached_def word_sle_eq split: option.splits)
qed

lemma deadline_strategy_stops:
  assumes "deadline_strategy env ask D T" "sticky_ctx env dead" "T \<le> nominal_total D k" "nominal_total D k < 2 ^ 63"
  shows "stopping_strategy ask k"
proof (unfold_locales, rule notI)
  fix a w w'
  assume ask: "ask a w = (Inr True, w')" and k: "ra_FailureCount a = int k"
  from assms(1) show False
  proof cases
    case (1 rs)
    obtain b w1 where b: "eb_isDeadlineReached env rs (int k) w = (b, w1)" by fastforce
    have "dead w1 \<or> b" using eb_deadline[OF assms(2) 1(4,5) _ b] assms(3,4) 1(2,3) by simp
    then have "dead w1" "\<not> b" using ask b k 1(1) by (auto simp: eb_ShouldTry_def)
    then show False using ask b k 1(1)
      by (auto simp: eb_ShouldTry_def eb_waitTime_def Let_def split: if_splits prod.splits
          dest: sticky_ctxD(1)[OF assms(2)] sticky_ctx_twice[OF assms(2)])
  next
    case (2 rs)
    obtain b w1 where b: "fd_isDeadlineReached env rs (int k) w = (b, w1)" by fastforce
    have "dead w1 \<or> b" using fd_deadline[OF assms(2) 2(4,5) _ b] assms(3,4) 2(2,3) by simp
    then have "dead w1" "\<not> b" using ask b k 2(1) by (auto simp: fd_ShouldTry_def)
    then show False using ask b k 2(1)
      by (auto simp: fd_ShouldTry_def fd_waitTime_def Let_def split: if_splits prod.splits
          dest: sticky_ctxD(1)[OF assms(2)] sticky_ctx_twice[OF assms(2)])
  qed
qed

lemma deadline_strategy_keeps:
  assumes "deadline_strategy env ask D T" "env_keeps env f" "ask a w = (r, w')" shows "f w' = f w"
  using assms(1)
  by cases (use assms(2,3) eb_ShouldTry_keeps fd_ShouldTry_keeps in metis)+

text \<open>C33: With a timeout, ExponentialBackoff and FixedDelay end a range as soon as the waits before the attempts,
  the next one included, add up to the timeout, as long as this sum does not overflow a Duration: the body runs
  at most that many times, whatever the clock and the timers do and whenever the context is cancelled. Attempts is
  ignored then.\<close>

theorem retries_timeout:
  assumes "deadline_strategy env ask D T" "T \<le> nominal_total D k" "nominal_total D k < 2 ^ 63"
    and "sticky_ctx env dead" "env_keeps env runs"
    and "\<And>a w. \<exists>continue w'. yield a w = Some (continue, w') \<and> runs w' \<le> Suc (runs w)"
  shows "\<exists>panic w'. Retries env dflt (Some ask) yield w = Some (panic, w') \<and> runs w' \<le> runs w + k"
  by (rule Retries_stops[OF deadline_strategy_stops[OF assms(1,4,2,3)] assms(5)])
     (use assms(6) deadline_strategy_keeps[OF assms(1,5)] in blast)+

lemma retries_timeout_witness:
  "\<exists>panic w'. Retries counting_env None (Some (eb_ShouldTry counting_env \<lparr>eb_Delay = 1, eb_Timeout = 10, eb_Attempts = 100\<rparr>))
      (\<lambda>a w. Some (True, Suc w)) 0 = Some (panic, w') \<and> w' \<le> 3"
proof -
  let ?rs = "\<lparr>eb_Delay = 1, eb_Timeout = 10, eb_Attempts = 100\<rparr>"
  have k: "env_keeps counting_env (\<lambda>w. w)" by (simp add: env_keeps_def counting_env_def)
  have s: "sticky_ctx counting_env (\<lambda>_. False)" by (simp add: sticky_ctx_def counting_env_def)
  have d: "deadline_strategy counting_env (eb_ShouldTry counting_env ?rs) (eb_nominal ?rs) 10"
    using deadline_strategy.intros(1)[of ?rs counting_env] by (simp add: eb_getWaitTime_def)
  have t: "nominal_total (eb_nominal ?rs) 3 = 14"
    by (simp add: nominal_total_def eb_nominal_def eb_getWaitTime_def atMost_Suc numeral_3_eq_3)
  have y: "\<exists>continue w'. Some (True, Suc w) = Some (continue, w') \<and> w' \<le> Suc w" for w
    by (rule exI[of _ True]) simp
  show ?thesis using retries_timeout[OF d _ _ s k y, of 3 None 0] t by simp
qed

section \<open>The schedule\<close>

text \<open>
  A context that is never cancelled, and a log of the waits (on the left, as the timers are asked for them) and of
  the runs of the body (on the right).
\<close>

definition live_env :: "'w retry_env \<Rightarrow> ('w \<Rightarrow> (int + int) list) \<Rightarrow> bool" where
  "live_env env log \<longleftrightarrow>
     (\<forall>w. log (snd (re_Now env w)) = log w \<and> fst (re_Err env w) = None \<and> log (snd (re_Err env w)) = log w \<and>
          (\<forall>d. fst (re_After env d w) \<and> log (snd (re_After env d w)) = log w @ [Inl (sint d)]))"

lemma live_envD:
  assumes "live_env env log"
  shows "re_Now env w = (t, w') \<Longrightarrow> log w' = log w" "re_Err env w = (e, w') \<Longrightarrow> e = None \<and> log w' = log w"
    "re_After env d w = (b, w') \<Longrightarrow> b \<and> log w' = log w @ [Inl (sint d)]"
  using assms unfolding live_env_def by (metis fst_conv snd_conv)+

lemma live_sticky: "live_env env log \<Longrightarrow> sticky_ctx env (\<lambda>_. False)"
  by (auto simp: sticky_ctx_def dest: live_envD(2))

definition scheduled :: "'w strategy \<Rightarrow> (nat \<Rightarrow> int) \<Rightarrow> nat \<Rightarrow> ('w \<Rightarrow> (int + int) list) \<Rightarrow> bool" where
  "scheduled ask D n log \<longleftrightarrow>
     (\<forall>a w. (\<forall>i < n. ra_FailureCount a = int i \<longrightarrow> (\<exists>w'. ask a w = (Inr True, w') \<and> log w' = log w @ [Inl (D i)])) \<and>
            (ra_FailureCount a = int n \<longrightarrow> (\<exists>w'. ask a w = (Inr False, w') \<and> log w' = log w)))"

lemma scheduledD:
  assumes "scheduled ask D n log" "ra_FailureCount a = int i"
  shows "i < n \<Longrightarrow> \<exists>w'. ask a w = (Inr True, w') \<and> log w' = log w @ [Inl (D i)]"
    "i = n \<Longrightarrow> \<exists>w'. ask a w = (Inr False, w') \<and> log w' = log w"
  using assms by (auto simp: scheduled_def)

abbreviation attempt_log :: "(nat \<Rightarrow> int) \<Rightarrow> nat \<Rightarrow> (int + int) list" where
  "attempt_log D i \<equiv> [Inl (D i), Inl (D i), Inr (int i)]"

lemma scheduled_loop:
  assumes "scheduled ask D n log"
    and y: "\<And>a w. \<exists>w'. yield a w = Some (True, w') \<and> log w' = log w @ [Inr (ra_FailureCount a)]"
    and "ra_FailureCount a = int k" "k \<le> n"
  shows "\<exists>w'. retries_loop ask yield a w = Some (None, w') \<and> log w' = log w @ concat (map (attempt_log D) [k..<n])"
  using assms(3,4)
proof (induction "n - k" arbitrary: k a w)
  case 0
  then show ?case using scheduledD(2)[OF assms(1) 0(2), of w] by (subst retries_loop.simps) auto
next
  case (Suc m)
  have k: "k < n" using Suc.hyps(2) by simp
  obtain w1 where 1: "ask a w = (Inr True, w1)" "log w1 = log w @ [Inl (D k)]"
    using scheduledD(1)[OF assms(1) Suc.prems(1) k] by blast
  obtain w2 where 2: "ask a w1 = (Inr True, w2)" "log w2 = log w1 @ [Inl (D k)]"
    using scheduledD(1)[OF assms(1) Suc.prems(1) k] by blast
  obtain w3 where 3: "yield a w2 = Some (True, w3)" "log w3 = log w2 @ [Inr (int k)]"
    using y[of a w2] Suc.prems(1) by auto
  have "\<exists>w'. retries_loop ask yield (RetryAttempt_Next a) w3 = Some (None, w') \<and>
      log w' = log w3 @ concat (map (attempt_log D) [Suc k..<n])"
    by (rule Suc.hyps(1)) (use Suc.hyps(2) Suc.prems in \<open>simp_all add: RetryAttempt_Next_def\<close>)
  then show ?case using 1 2 3 k
    by (subst retries_loop.simps) (auto simp: upt_conv_Cons)
qed

text \<open>The strategies, their waits and the number of attempts they allow.\<close>

inductive strategy_schedule :: "'w retry_env \<Rightarrow> 'w strategy \<Rightarrow> (nat \<Rightarrow> int) \<Rightarrow> nat \<Rightarrow> bool" for env where
  "eb_Timeout rs = 0 \<Longrightarrow> 0 < sint (eb_getWaitTime rs) \<Longrightarrow> (\<forall>i < nat (eb_getMaxRetries rs). eb_nominal rs i < 2 ^ 63) \<Longrightarrow>
     strategy_schedule env (eb_ShouldTry env rs) (eb_nominal rs) (nat (eb_getMaxRetries rs))"
| "fd_Timeout rs = 0 \<Longrightarrow> 
     strategy_schedule env (fd_ShouldTry env rs) (fd_nominal rs) (nat (fd_getMaxRetries rs))"
| "deadline_strategy env ask D T \<Longrightarrow> T \<le> nominal_total D n \<Longrightarrow> nominal_total D n < 2 ^ 63 \<Longrightarrow>
     (\<forall>k < n. nominal_total D k < T) \<Longrightarrow> strategy_schedule env ask D n"

lemma eb_wait_log:
  assumes "live_env env log" "0 < sint (eb_getWaitTime rs)" "eb_nominal rs i < 2 ^ 63" "eb_Timeout rs \<noteq> 0 \<or> int i < eb_getMaxRetries rs"
  shows "\<exists>d w'. eb_waitTime env rs (int i) w = ((d, True), w') \<and> sint d = eb_nominal rs i \<and> log w' = log w"
proof -
  have i: "i < 63"
  proof (rule ccontr)
    assume "\<not> i < 63"
    then have k: "63 \<le> i" by simp
    have "(2::int) ^ 63 \<le> 2 ^ i" using k by (rule power_increasing) simp
    also have "\<dots> \<le> sint (eb_getWaitTime rs) * 2 ^ i" using assms(2) by simp
    finally show False using assms(3) k by (simp add: eb_nominal_def)
  qed
  obtain e1 w1 where 1: "re_Err env w = (e1, w1)" by fastforce
  obtain e2 w2 where 2: "re_Err env w1 = (e2, w2)" by fastforce
  have d: "i \<noteq> 0 \<Longrightarrow> eb_calcWaitTime env (eb_getWaitTime rs) (int i) = of_int (eb_nominal rs i)"
    using i by (simp add: eb_calcWaitTime_def backoffMultiplier_def eb_nominal_def)
  have "i \<noteq> 0 \<Longrightarrow> sint (of_int (eb_nominal rs i) :: 64 word) = eb_nominal rs i"
    by (rule sint_of_int_bounded) (use assms(2,3) in \<open>simp_all add: eb_nominal_def\<close>)
  moreover have "i = 0 \<Longrightarrow> eb_nominal rs i = 0" by (simp add: eb_nominal_def)
  ultimately show ?thesis using assms(4) 1 2 d live_envD(2)[OF assms(1) 1] live_envD(2)[OF assms(1) 2]
    by (cases "i = 0") (auto simp: eb_waitTime_def Let_def)
qed

lemma fd_wait_log:
  assumes "live_env env log" "fd_Timeout rs \<noteq> 0 \<or> int i < fd_getMaxRetries rs"
  shows "\<exists>d w'. fd_waitTime env rs (int i) w = ((d, True), w') \<and> sint d = fd_nominal rs i \<and> log w' = log w"
proof -
  obtain e1 w1 where 1: "re_Err env w = (e1, w1)" by fastforce
  obtain e2 w2 where 2: "re_Err env w1 = (e2, w2)" by fastforce
  show ?thesis using assms(2) 1 2 live_envD(2)[OF assms(1) 1] live_envD(2)[OF assms(1) 2]
    by (cases "i = 0") (auto simp: fd_waitTime_def fd_nominal_def Let_def)
qed

lemma eb_deadline_log:
  assumes "live_env env log"
  shows "eb_isDeadlineReached env rs i w = (b, w') \<Longrightarrow> log w' = log w"
proof -
  have wt: "eb_waitTime env rs j v = (r, v') \<Longrightarrow> log v' = log v" for j v r v'
    by (auto simp: eb_waitTime_def Let_def split: if_splits prod.splits dest!: live_envD(2)[OF assms])
  show "eb_isDeadlineReached env rs i w = (b, w') \<Longrightarrow> log w' = log w"
    using total_waited_keeps[of "eb_waitTime env rs" log, OF wt]
    by (auto simp: eb_isDeadlineReached_def split: if_splits prod.splits option.splits)
qed

lemma fd_deadline_log:
  assumes "live_env env log"
  shows "fd_isDeadlineReached env rs i w = (b, w') \<Longrightarrow> log w' = log w"
proof -
  have wt: "fd_waitTime env rs j v = (r, v') \<Longrightarrow> log v' = log v" for j v r v'
    by (auto simp: fd_waitTime_def Let_def split: if_splits prod.splits dest!: live_envD(2)[OF assms])
  show "fd_isDeadlineReached env rs i w = (b, w') \<Longrightarrow> log w' = log w"
    using total_waited_keeps[of "fd_waitTime env rs" log, OF wt]
    by (auto simp: fd_isDeadlineReached_def split: if_splits prod.splits option.splits)
qed

text \<open>One question to a strategy, given what the deadline check answers.\<close>

lemma eb_ask_log:
  assumes l: "live_env env log" and a: "ra_FailureCount a = int i" and b: "eb_isDeadlineReached env rs (int i) w = (b, w1)"
  shows "b \<Longrightarrow> \<exists>w'. eb_ShouldTry env rs a w = (Inr False, w') \<and> log w' = log w"
    and "\<not> b \<Longrightarrow> eb_Timeout rs = 0 \<Longrightarrow> eb_getMaxRetries rs \<le> int i \<Longrightarrow>
      \<exists>w'. eb_ShouldTry env rs a w = (Inr False, w') \<and> log w' = log w"
    and "\<not> b \<Longrightarrow> 0 < sint (eb_getWaitTime rs) \<Longrightarrow> eb_nominal rs i < 2 ^ 63 \<Longrightarrow>
      eb_Timeout rs \<noteq> 0 \<or> int i < eb_getMaxRetries rs \<Longrightarrow>
      \<exists>w'. eb_ShouldTry env rs a w = (Inr True, w') \<and> log w' = log w @ [Inl (eb_nominal rs i)]"
proof -
  have 1: "log w1 = log w" using eb_deadline_log[OF l b] .
  show "b \<Longrightarrow> \<exists>w'. eb_ShouldTry env rs a w = (Inr False, w') \<and> log w' = log w"
    using a b 1 by (simp add: eb_ShouldTry_def)
  show "\<not> b \<Longrightarrow> eb_Timeout rs = 0 \<Longrightarrow> eb_getMaxRetries rs \<le> int i \<Longrightarrow>
      \<exists>w'. eb_ShouldTry env rs a w = (Inr False, w') \<and> log w' = log w"
    using a b 1 by (simp add: eb_ShouldTry_def eb_waitTime_def)
  assume "\<not> b" "0 < sint (eb_getWaitTime rs)" "eb_nominal rs i < 2 ^ 63" "eb_Timeout rs \<noteq> 0 \<or> int i < eb_getMaxRetries rs"
  with eb_wait_log[OF l, of rs i w1] obtain d w2
    where 2: "eb_waitTime env rs (int i) w1 = ((d, True), w2)" "sint d = eb_nominal rs i" "log w2 = log w1" by blast
  obtain t w3 where 3: "re_After env d w2 = (t, w3)" by fastforce
  show "\<exists>w'. eb_ShouldTry env rs a w = (Inr True, w') \<and> log w' = log w @ [Inl (eb_nominal rs i)]"
    using a b 1 2 3 live_envD(3)[OF l 3] \<open>\<not> b\<close> by (simp add: eb_ShouldTry_def)
qed

lemma fd_ask_log:
  assumes l: "live_env env log" and a: "ra_FailureCount a = int i" and b: "fd_isDeadlineReached env rs (int i) w = (b, w1)"
  shows "b \<Longrightarrow> \<exists>w'. fd_ShouldTry env rs a w = (Inr False, w') \<and> log w' = log w"
    and "\<not> b \<Longrightarrow> fd_Timeout rs = 0 \<Longrightarrow> fd_getMaxRetries rs \<le> int i \<Longrightarrow>
      \<exists>w'. fd_ShouldTry env rs a w = (Inr False, w') \<and> log w' = log w"
    and "\<not> b \<Longrightarrow> fd_Timeout rs \<noteq> 0 \<or> int i < fd_getMaxRetries rs \<Longrightarrow>
      \<exists>w'. fd_ShouldTry env rs a w = (Inr True, w') \<and> log w' = log w @ [Inl (fd_nominal rs i)]"
proof -
  have 1: "log w1 = log w" using fd_deadline_log[OF l b] .
  show "b \<Longrightarrow> \<exists>w'. fd_ShouldTry env rs a w = (Inr False, w') \<and> log w' = log w"
    using a b 1 by (simp add: fd_ShouldTry_def)
  show "\<not> b \<Longrightarrow> fd_Timeout rs = 0 \<Longrightarrow> fd_getMaxRetries rs \<le> int i \<Longrightarrow>
      \<exists>w'. fd_ShouldTry env rs a w = (Inr False, w') \<and> log w' = log w"
    using a b 1 by (simp add: fd_ShouldTry_def fd_waitTime_def)
  assume "\<not> b" "fd_Timeout rs \<noteq> 0 \<or> int i < fd_getMaxRetries rs"
  with fd_wait_log[OF l, of rs i w1] obtain d w2
    where 2: "fd_waitTime env rs (int i) w1 = ((d, True), w2)" "sint d = fd_nominal rs i" "log w2 = log w1" by blast
  obtain t w3 where 3: "re_After env d w2 = (t, w3)" by fastforce
  show "\<exists>w'. fd_ShouldTry env rs a w = (Inr True, w') \<and> log w' = log w @ [Inl (fd_nominal rs i)]"
    using a b 1 2 3 live_envD(3)[OF l 3] \<open>\<not> b\<close> by (simp add: fd_ShouldTry_def)
qed

lemma eb_nominal_le_total: "0 < sint (eb_getWaitTime rs) \<Longrightarrow> eb_nominal rs i \<le> nominal_total (eb_nominal rs) i"
  unfolding nominal_total_def by (rule member_le_sum) (auto simp: eb_nominal_def)

lemma nominal_total_mono: "(\<And>i. 0 \<le> D i) \<Longrightarrow> i \<le> n \<Longrightarrow> nominal_total D i \<le> nominal_total D n"
  unfolding nominal_total_def by (rule sum_mono2) auto

lemma deadline_scheduled:
  assumes "deadline_strategy env ask D T" and l: "live_env env log"
    and T: "T \<le> nominal_total D n" "nominal_total D n < 2 ^ 63" "\<forall>k < n. nominal_total D k < T"
  shows "scheduled ask D n log"
  using assms(1)
proof cases
  case (1 rs)
  have small: "nominal_total (eb_nominal rs) i < 2 ^ 63" if "i \<le> n" for i
  proof -
    have "nominal_total (eb_nominal rs) i \<le> nominal_total (eb_nominal rs) n"
      by (rule nominal_total_mono) (use that 1(5) in \<open>auto simp: eb_nominal_def\<close>)
    then show ?thesis using T(2) 1(2) by simp
  qed
  have b: "eb_isDeadlineReached env rs (int i) w = (b, w1) \<Longrightarrow> i \<le> n \<Longrightarrow> b \<longleftrightarrow> T \<le> nominal_total D i" for b i w w1
    using eb_deadline[OF live_sticky[OF l] 1(4,5) small] 1(2,3) by simp
  show ?thesis unfolding scheduled_def
  proof (intro allI conjI impI)
    fix a :: RetryAttempt and w i assume i: "i < n" "ra_FailureCount a = int i"
    obtain b w1 where r: "eb_isDeadlineReached env rs (int i) w = (b, w1)" by fastforce
    have "\<not> b" using b[OF r] i(1) T(3) by auto
    moreover have "eb_nominal rs i < 2 ^ 63"
      using small[of i] i(1) eb_nominal_le_total[OF 1(5), of i] by simp
    ultimately show "\<exists>w'. ask a w = (Inr True, w') \<and> log w' = log w @ [Inl (D i)]"
      using eb_ask_log(3)[OF l i(2) r] 1 by simp
  next
    fix a :: RetryAttempt and w assume i: "ra_FailureCount a = int n"
    obtain b w1 where r: "eb_isDeadlineReached env rs (int n) w = (b, w1)" by fastforce
    have b using b[OF r] T(1) by auto
    then show "\<exists>w'. ask a w = (Inr False, w') \<and> log w' = log w" using eb_ask_log(1)[OF l i r] 1 by simp
  qed
next
  case (2 rs)
  have small: "nominal_total (fd_nominal rs) i < 2 ^ 63" if "i \<le> n" for i
  proof -
    have "nominal_total (fd_nominal rs) i \<le> nominal_total (fd_nominal rs) n"
      by (rule nominal_total_mono) (use that 2(5) in \<open>auto simp: fd_nominal_def\<close>)
    then show ?thesis using T(2) 2(2) by simp
  qed
  have b: "fd_isDeadlineReached env rs (int i) w = (b, w1) \<Longrightarrow> i \<le> n \<Longrightarrow> b \<longleftrightarrow> T \<le> nominal_total D i" for b i w w1
    using fd_deadline[OF live_sticky[OF l] 2(4,5) small] 2(2,3) by simp
  show ?thesis unfolding scheduled_def
  proof (intro allI conjI impI)
    fix a :: RetryAttempt and w i assume i: "i < n" "ra_FailureCount a = int i"
    obtain b w1 where r: "fd_isDeadlineReached env rs (int i) w = (b, w1)" by fastforce
    have "\<not> b" using b[OF r] i(1) T(3) by auto
    then show "\<exists>w'. ask a w = (Inr True, w') \<and> log w' = log w @ [Inl (D i)]"
      using fd_ask_log(3)[OF l i(2) r] 2 by simp
  next
    fix a :: RetryAttempt and w assume i: "ra_FailureCount a = int n"
    obtain b w1 where r: "fd_isDeadlineReached env rs (int n) w = (b, w1)" by fastforce
    have b using b[OF r] T(1) by auto
    then show "\<exists>w'. ask a w = (Inr False, w') \<and> log w' = log w" using fd_ask_log(1)[OF l i r] 2 by simp
  qed
qed

lemma strategy_scheduled:
  assumes "strategy_schedule env ask D n" and l: "live_env env log" shows "scheduled ask D n log"
  using assms(1)
proof cases
  case (1 rs)
  have r: "eb_isDeadlineReached env rs i w = (False, w)" for i w using 1(4) by (simp add: eb_isDeadlineReached_def)
  have stop: "\<exists>w'. eb_ShouldTry env rs a w = (Inr False, w') \<and> log w' = log w"
    if "ra_FailureCount a = int (nat (eb_getMaxRetries rs))" for a :: RetryAttempt and w
    using eb_ask_log(2)[OF l that r] 1(4) by simp
  have go: "\<exists>w'. eb_ShouldTry env rs a w = (Inr True, w') \<and> log w' = log w @ [Inl (eb_nominal rs i)]"
    if "ra_FailureCount a = int i" "i < nat (eb_getMaxRetries rs)" for a :: RetryAttempt and w i
    using eb_ask_log(3)[OF l that(1) r] 1(4-6) that(2) by simp
  show ?thesis unfolding scheduled_def 1(1-3) using stop go by blast
next
  case (2 rs)
  have r: "fd_isDeadlineReached env rs i w = (False, w)" for i w using 2(4) by (simp add: fd_isDeadlineReached_def)
  have stop: "\<exists>w'. fd_ShouldTry env rs a w = (Inr False, w') \<and> log w' = log w"
    if "ra_FailureCount a = int (nat (fd_getMaxRetries rs))" for a :: RetryAttempt and w
    using fd_ask_log(2)[OF l that r] 2(4) by simp
  have go: "\<exists>w'. fd_ShouldTry env rs a w = (Inr True, w') \<and> log w' = log w @ [Inl (fd_nominal rs i)]"
    if "ra_FailureCount a = int i" "i < nat (fd_getMaxRetries rs)" for a :: RetryAttempt and w i
    using fd_ask_log(3)[OF l that(1) r] 2(4) that(2) by simp
  show ?thesis unfolding scheduled_def 2(1-3) using stop go by blast
next
  case (3 T)
  then show ?thesis using deadline_scheduled[OF 3(1) l] by blast
qed

text \<open>C34: On a context that stays alive the whole course of a range with ExponentialBackoff or FixedDelay is fixed (Jitter,
  whose waits are random, is not covered). The body runs with 0, 1, 2, ... failures, Attempts times, or until the waits
  reach the timeout; before the run with i failures the strategy waits twice, since it is asked twice: nothing for
  i = 0, then Delay (FixedDelay) or Delay * 2^i (ExponentialBackoff, as long as this does not overflow). The first wait of
  ExponentialBackoff is thus twice the Delay, although Delay is documented as the starting wait.\<close>

theorem retries_schedule:
  assumes "strategy_schedule env ask D n" "live_env env log"
    and "\<And>a w. \<exists>w'. yield a w = Some (True, w') \<and> log w' = log w @ [Inr (ra_FailureCount a)]"
  shows "\<exists>w'. Retries env dflt (Some ask) yield w = Some (None, w') \<and>
      log w' = log w @ concat (map (\<lambda>i. [Inl (D i), Inl (D i), Inr (int i)]) [0..<n])"
proof -
  obtain t w1 where t: "re_Now env w = (t, w1)" by fastforce
  have c: "log w1 = log w" using live_envD(1)[OF assms(2) t] .
  show ?thesis
    using scheduled_loop[OF strategy_scheduled[OF assms(1,2)], of yield "\<lparr>ra_StartedAt = t, ra_FailureCount = 0\<rparr>" 0 w1,
        OF assms(3)] t c
    by (simp add: Retries_def MakeRetryAttempt_def GetRetryStrategy_def)
qed

definition logging_env :: "((int + int) list) retry_env" where
  "logging_env =
     \<lparr>re_Now = (\<lambda>w. (0, w)), re_Err = (\<lambda>w. (None, w)), re_After = (\<lambda>d w. (True, w @ [Inl (sint d)])),
      re_Intn = (\<lambda>n w. (0, w)), re_NumGoroutine = (\<lambda>w. (1, w)), re_Sleep = (\<lambda>d w. w), re_Conversion = 0\<rparr>"

lemma retries_schedule_witness:
  "\<exists>w'. Retries logging_env None (Some (fd_ShouldTry logging_env \<lparr>fd_Delay = 9, fd_Timeout = 0, fd_Attempts = 2\<rparr>))
      (\<lambda>a w. Some (True, w @ [Inr (ra_FailureCount a)])) [] = Some (None, w') \<and>
     w' = [Inl 0, Inl 0, Inr 0, Inl 9, Inl 9, Inr 1]"
proof -
  let ?rs = "\<lparr>fd_Delay = 9, fd_Timeout = 0, fd_Attempts = 2\<rparr>"
  have l: "live_env logging_env (\<lambda>w. w)" by (simp add: live_env_def logging_env_def)
  have s: "strategy_schedule logging_env (fd_ShouldTry logging_env ?rs) (fd_nominal ?rs) 2"
    using strategy_schedule.intros(2)[of ?rs logging_env] by (simp add: fd_getMaxRetries_def)
  have y: "\<exists>w'. Some (True, w @ [Inr (ra_FailureCount a)]) = Some (True, w') \<and>
      w' = w @ [Inr (ra_FailureCount a)]" for a :: RetryAttempt and w :: "(int + int) list" by simp
  show ?thesis using retries_schedule[OF s l y, of None "[]"]
    by (simp add: upt_rec fd_nominal_def fd_getWaitTime_def)
qed

end
