(* ===== verification/RateLimit.thy ===== *)
theory RateLimit imports Retry begin

text \<open>
  \<^verbatim>\<open>pkg/resilience/ratelimit.go\<close>: the sliding window rate limiter.

  The limiter's state is its history, the times of the calls it let pass. What it does under its mutex is one
  step, \<open>rl_section\<close>; calls of several goroutines interleave as sequences of such steps. The
  surroundings (clock, context, timers) are those of Retry.
\<close>

record Rate =
  rate_N :: int
  rate_Per :: duration

definition Rate_IsZero :: "Rate \<Rightarrow> bool" where
  "Rate_IsZero r \<longleftrightarrow> rate_N r = 0 \<and> rate_Per r = 0"

text \<open>\<^verbatim>\<open>Rate.Pace\<close>; \<^const>\<open>None\<close> is the panic of the division.\<close>

definition Rate_Pace :: "Rate \<Rightarrow> duration option" where
  "Rate_Pace r =
     (if (word_of_int (rate_N r) :: duration) = 0 then None
      else Some (word_of_int (sint (rate_Per r) sdiv sint (word_of_int (rate_N r) :: duration))))"

type_synonym eventHistory = "gotime list"

record rle =
  rle_WindowStart :: gotime
  rle_CurrentTime :: gotime
  rle_FirstAt :: gotime
  rle_N :: int

text \<open>
  The filter of \<^verbatim>\<open>RLE\<close>: the events it keeps and the earliest event it has seen, where 0, the zero
  time, stands for none.
\<close>

fun rle_filter :: "gotime \<Rightarrow> eventHistory \<Rightarrow> gotime \<Rightarrow> eventHistory \<times> gotime" where
  "rle_filter windowStart [] firstAt = ([], firstAt)"
| "rle_filter windowStart (e # es) firstAt =
     (let firstAt = (if firstAt = 0 then e else firstAt);
          firstAt = (if e < firstAt then e else firstAt)
      in case rle_filter windowStart es firstAt of
           (kept, firstAt) \<Rightarrow> (if windowStart = e \<or> windowStart < e then e # kept else kept, firstAt))"

definition eh_RLE :: "'w retry_env \<Rightarrow> Rate \<Rightarrow> eventHistory \<Rightarrow> 'w \<Rightarrow> (rle \<times> eventHistory) \<times> 'w" where
  "eh_RLE env r es w =
     (case re_Now env w of
        (currentTime, w') \<Rightarrow>
          let windowStart = time_Add currentTime (rate_Per r * - 1)
          in case rle_filter windowStart es 0 of
               (kept, firstAt) \<Rightarrow>
                 ((\<lparr>rle_WindowStart = windowStart, rle_CurrentTime = currentTime,
                    rle_FirstAt = (if firstAt = 0 then windowStart else firstAt), rle_N = int (length kept)\<rparr>, kept), w'))"

definition eh_Tick :: "'w retry_env \<Rightarrow> Rate \<Rightarrow> eventHistory \<Rightarrow> 'w \<Rightarrow> eventHistory \<times> 'w" where
  "eh_Tick env r es w =
     (if Rate_IsZero r then (es, w) else (case re_Now env w of (now, w') \<Rightarrow> (es @ [now], w')))"

text \<open>The part of \<^verbatim>\<open>RateLimit\<close> that holds the mutex: the wait time of a limited call, or none.\<close>

definition rl_section :: "'w retry_env \<Rightarrow> Rate \<Rightarrow> eventHistory \<Rightarrow> 'w \<Rightarrow> (duration option \<times> eventHistory) \<times> 'w" where
  "rl_section env rate es w =
     (case eh_RLE env rate es w of
        ((e, es1), w1) \<Rightarrow>
          if rate_N rate \<le> rle_N e then ((Some (time_Sub (rle_FirstAt e) (rle_WindowStart e)), es1), w1)
          else (case eh_Tick env rate es1 w1 of (es2, w2) \<Rightarrow> ((None, es2), w2)))"

text \<open>\<^verbatim>\<open>RateLimit\<close>, when no other call comes in between; \<^const>\<open>None\<close> when it does not return.\<close>

partial_function (option) RateLimit ::
    "'w retry_env \<Rightarrow> Rate \<Rightarrow> eventHistory \<Rightarrow> 'w \<Rightarrow> (go_error option \<times> eventHistory \<times> 'w) option" where
  "RateLimit env rate es w =
     (case re_Err env w of
        (err, w1) \<Rightarrow>
          if err \<noteq> None then Some (err, es, w1)
          else if Rate_IsZero rate then Some (None, es, w1)
          else (case rl_section env rate es w1 of
                  ((limited, es1), w2) \<Rightarrow>
                    if limited = None then Some (None, es1, w2)
                    else (case re_After env (the limited) w2 of
                            (fired, w3) \<Rightarrow>
                              if fired then RateLimit env rate es1 w3
                              else (case re_Err env w3 of (err, w4) \<Rightarrow> Some (err, es1, w4)))))"

section \<open>The clock\<close>

text \<open>
  Readings of the clock do not decrease, \<open>T w\<close> being the latest; a timer fires after the duration it
  was asked for, and later than the last reading.
\<close>

definition clock_ok :: "'w retry_env \<Rightarrow> ('w \<Rightarrow> gotime) \<Rightarrow> bool" where
  "clock_ok env T \<longleftrightarrow>
     (\<forall>w. T w \<le> fst (re_Now env w) \<and> T (snd (re_Now env w)) = fst (re_Now env w) \<and> T w \<le> T (snd (re_Err env w)) \<and>
          (\<forall>d. T w \<le> T (snd (re_After env d w)) \<and>
               (fst (re_After env d w) \<longrightarrow> T w < T (snd (re_After env d w)) \<and> T w + sint d \<le> T (snd (re_After env d w)))))"

lemma clock_okD:
  assumes "clock_ok env T"
  shows "re_Now env w = (t, w') \<Longrightarrow> T w \<le> t \<and> T w' = t" "re_Err env w = (e, w') \<Longrightarrow> T w \<le> T w'"
    "re_After env d w = (b, w') \<Longrightarrow> T w \<le> T w'"
    "re_After env d w = (True, w') \<Longrightarrow> T w < T w' \<and> T w + sint d \<le> T w'"
  using assms unfolding clock_ok_def by (metis fst_conv snd_conv)+

section \<open>The filter\<close>

lemma rle_filter_kept: "fst (rle_filter ws es f) = filter (\<lambda>e. ws \<le> e) es"
  by (induction es arbitrary: f) (auto simp: Let_def split: prod.splits, (metis fst_conv)+)

lemma rle_filter_first:
  assumes "\<forall>e \<in> set es. 0 < e" "0 \<le> f"
  shows "snd (rle_filter ws es f) = (if es = [] then f else if f = 0 then Min (set es) else min f (Min (set es)))"
  using assms
proof (induction es arbitrary: f)
  case (Cons e es)
  let ?f = "if e < (if f = 0 then e else f) then e else (if f = 0 then e else f)"
  have "0 < ?f" using Cons.prems by auto
  then have "snd (rle_filter ws es ?f) = (if es = [] then ?f else min ?f (Min (set es)))"
    using Cons.IH[of ?f] Cons.prems by auto
  moreover have "snd (rle_filter ws (e # es) f) = snd (rle_filter ws es ?f)"
    by (simp add: Let_def split: prod.splits)
  moreover have "Min (set (e # es)) = (if es = [] then e else min e (Min (set es)))" by simp
  moreover define m where "m = Min (set es)"
  ultimately show ?case using Cons.prems
    by (simp del: rle_filter.simps set_simps add: m_def [symmetric]) (simp add: min_def)
qed simp

lemma sint_neg_Per: "0 \<le> sint (d :: duration) \<Longrightarrow> sint (d * - 1) = - sint d"
  using sint_lt[of d] by (simp add: sint_word_ariths signed_take_bit_int_eq_self)

section \<open>At most N calls in a window\<close>

text \<open>
  What any number of goroutines can make of a limiter: sections of \<^verbatim>\<open>RateLimit\<close> calls in any
  order, with anything that does not turn the clock back between them. The last part of a state lists the
  times of the calls that were let pass.
\<close>

inductive rl_reach :: "'w retry_env \<Rightarrow> ('w \<Rightarrow> gotime) \<Rightarrow> Rate \<Rightarrow> eventHistory \<times> 'w \<times> gotime list \<Rightarrow> bool" for env T rate where
  rl_init: "rl_reach env T rate ([], w, [])"
| rl_pass: "rl_reach env T rate (es, w, granted) \<Longrightarrow> rl_section env rate es w = ((None, es'), w') \<Longrightarrow>
     rl_reach env T rate (es', w', granted @ [T w'])"
| rl_limit: "rl_reach env T rate (es, w, granted) \<Longrightarrow> rl_section env rate es w = ((Some d, es'), w') \<Longrightarrow>
     rl_reach env T rate (es', w', granted)"
| rl_other: "rl_reach env T rate (es, w, granted) \<Longrightarrow> T w \<le> T w' \<Longrightarrow> rl_reach env T rate (es, w', granted)"

definition rl_inv :: "('w \<Rightarrow> gotime) \<Rightarrow> Rate \<Rightarrow> eventHistory \<times> 'w \<times> gotime list \<Rightarrow> bool" where
  "rl_inv T rate = (\<lambda>(es, w, granted).
     (\<forall>s. length (filter (\<lambda>g. s \<le> g \<and> g \<le> s + sint (rate_Per rate)) granted) \<le> nat (rate_N rate)) \<and>
     (granted \<noteq> [] \<longrightarrow> (\<exists>c \<le> T w - sint (rate_Per rate). es = filter (\<lambda>g. c \<le> g) granted)) \<and> (granted = [] \<longrightarrow> es = []))"

text \<open>A section at time \<open>t\<close>: what it keeps, and when it lets the call pass.\<close>

lemma rl_section_cases:
  assumes "clock_ok env T" "0 \<le> sint (rate_Per rate)" "\<not> Rate_IsZero rate" "rl_section env rate es w = ((lim, es'), w')"
  obtains t kept where "T w \<le> t" "t \<le> T w'" "kept = filter (\<lambda>e. t - sint (rate_Per rate) \<le> e) es"
    "lim = None \<Longrightarrow> int (length kept) < rate_N rate \<and> es' = kept @ [T w']"
    "lim \<noteq> None \<Longrightarrow> rate_N rate \<le> int (length kept) \<and> es' = kept \<and> T w' = t"
    "\<And>d. lim = Some d \<Longrightarrow> \<forall>e \<in> set es. 0 < e \<Longrightarrow> es \<noteq> [] \<Longrightarrow> d = time_Sub (Min (set es)) (t - sint (rate_Per rate))"
proof -
  obtain t w1 where t: "re_Now env w = (t, w1)" by fastforce
  obtain t2 w2 where t2: "re_Now env w1 = (t2, w2)" by fastforce
  let ?ws = "t - sint (rate_Per rate)"
  obtain kept f where k: "rle_filter ?ws es 0 = (kept, f)" by fastforce
  have ws: "time_Add t (rate_Per rate * - 1) = ?ws"
    unfolding time_Add_def using sint_neg_Per[OF assms(2)] by simp
  have kept: "kept = filter (\<lambda>e. ?ws \<le> e) es" using rle_filter_kept[of ?ws es 0] k by simp
  have f: "\<forall>e \<in> set es. 0 < e \<Longrightarrow> es \<noteq> [] \<Longrightarrow> f = Min (set es) \<and> f \<noteq> 0"
    using rle_filter_first[of es 0 ?ws] k Min_in[of "set es"] by fastforce
  have T: "T w \<le> t" "T w1 = t" "t \<le> t2" "T w2 = t2" using clock_okD(1)[OF assms(1) t] clock_okD(1)[OF assms(1) t2] by auto
  have s: "rl_section env rate es w =
      (if rate_N rate \<le> int (length kept) then ((Some (time_Sub (if f = 0 then ?ws else f) ?ws), kept), w1)
       else ((None, kept @ [t2]), w2))"
    using assms(3) by (simp add: rl_section_def eh_RLE_def eh_Tick_def t t2 ws k Let_def del: mult_minus_right mult_minus1_right)
  show ?thesis
    by (rule that[of t kept]) (use s assms(4) T kept f in \<open>auto split: if_splits\<close>)
qed

lemma rl_inv_reach:
  assumes "clock_ok env T" "0 \<le> sint (rate_Per rate)" "\<not> Rate_IsZero rate" "rl_reach env T rate s"
  shows "rl_inv T rate s"
  using assms(4)
proof induction
  case (rl_init w)
  show ?case by (simp add: rl_inv_def)
next
  case (rl_pass es w granted es' w')
  let ?per = "sint (rate_Per rate)"
  obtain t kept where t: "T w \<le> t" "t \<le> T w'" "kept = filter (\<lambda>e. t - ?per \<le> e) es"
      "int (length kept) < rate_N rate" "es' = kept @ [T w']"
    using rl_section_cases[OF assms(1-3) rl_pass(2)] by (metis (full_types))
  have kg: "kept = filter (\<lambda>e. t - ?per \<le> e) granted"
  proof (cases "granted = []")
    case False
    then obtain c where "c \<le> T w - ?per" "es = filter (\<lambda>g. c \<le> g) granted" using rl_pass(3) by (auto simp: rl_inv_def)
    then show ?thesis using t(1,3) by (auto intro: filter_cong)
  qed (use rl_pass(3) t(3) in \<open>simp add: rl_inv_def\<close>)
  have "length (filter (\<lambda>g. s \<le> g \<and> g \<le> s + ?per) (granted @ [T w'])) \<le> nat (rate_N rate)" for s
  proof (cases "s \<le> T w' \<and> T w' \<le> s + ?per")
    case True
    have "length (filter (\<lambda>g. s \<le> g \<and> g \<le> s + ?per) granted) = length (filter (\<lambda>g. s \<le> g \<and> g \<le> s + ?per) kept)"
    proof -
      have "filter (\<lambda>g. s \<le> g \<and> g \<le> s + ?per) granted = filter (\<lambda>g. (s \<le> g \<and> g \<le> s + ?per) \<and> t - ?per \<le> g) granted"
        by (rule filter_cong) (use True t(2) in auto)
      then show ?thesis unfolding kg by (simp add: conj_commute)
    qed
    also have "\<dots> \<le> length kept" by simp
    finally show ?thesis using t(4) True by simp
  next
    case False
    then show ?thesis using rl_pass(3) by (auto simp: rl_inv_def)
  qed
  moreover have "es' = filter (\<lambda>g. t - ?per \<le> g) (granted @ [T w'])" using t(2,5) kg assms(2) by simp
  moreover have "t - ?per \<le> T w' - ?per" using t(2) by simp
  ultimately show ?case unfolding rl_inv_def split_conv by (metis append_is_Nil_conv list.discI)
next
  case (rl_limit es w granted d es' w')
  let ?per = "sint (rate_Per rate)"
  obtain t kept where t: "T w \<le> t" "T w' = t" "kept = filter (\<lambda>e. t - ?per \<le> e) es" "es' = kept"
    using rl_section_cases[OF assms(1-3) rl_limit(2)] by (metis option.discI)
  show ?case
  proof (cases "granted = []")
    case True
    then show ?thesis using rl_limit(3) t by (simp add: rl_inv_def)
  next
    case False
    then obtain c where c: "c \<le> T w - ?per" "es = filter (\<lambda>g. c \<le> g) granted" using rl_limit(3) by (auto simp: rl_inv_def)
    then have "es' = filter (\<lambda>g. t - ?per \<le> g) granted" using t(1,3,4) by (auto intro: filter_cong)
    then show ?thesis using rl_limit(3) False t(2) by (auto simp: rl_inv_def)
  qed
next
  case (rl_other es w granted w')
  show ?case
  proof (cases "granted = []")
    case True
    then show ?thesis using rl_other(3) by (simp add: rl_inv_def)
  next
    case False
    then obtain c where c: "c \<le> T w - sint (rate_Per rate)" "es = filter (\<lambda>g. c \<le> g) granted"
      using rl_other(3) by (auto simp: rl_inv_def)
    have "\<exists>c \<le> T w' - sint (rate_Per rate). es = filter (\<lambda>g. c \<le> g) granted"
      by (rule exI[of _ c]) (use c rl_other(2) in simp)
    then show ?thesis using rl_other(3) False by (simp add: rl_inv_def)
  qed
qed

text \<open>C35: However the calls of any number of goroutines interleave, a SlidingWindow lets at most N of them pass in
  any period of length Per (both ends included), as long as the clock does not go back.\<close>

theorem rl_window_bound:
  assumes "clock_ok env T" "0 \<le> sint (rate_Per rate)" "\<not> Rate_IsZero rate" "rl_reach env T rate (es, w, granted)"
  shows "length (filter (\<lambda>g. s \<le> g \<and> g \<le> s + sint (rate_Per rate)) granted) \<le> nat (rate_N rate)"
  using rl_inv_reach[OF assms] by (simp add: rl_inv_def)

text \<open>A clock that shows a later time at each reading.\<close>

definition ticking_env :: "gotime retry_env" where
  "ticking_env =
     \<lparr>re_Now = (\<lambda>w. (w + 1, w + 1)), re_Err = (\<lambda>w. (None, w)), re_After = (\<lambda>d w. (True, w + 1 + max 0 (sint d))),
      re_Intn = (\<lambda>n w. (0, w)), re_NumGoroutine = (\<lambda>w. (1, w)), re_Sleep = (\<lambda>d w. w), re_Conversion = 0\<rparr>"

lemma ticking_ok: "clock_ok ticking_env (\<lambda>w. w)"
  by (auto simp: clock_ok_def ticking_env_def max_def)

lemma rl_window_bound_witness:
  "length (filter (\<lambda>g. 1 \<le> g \<and> g \<le> 1 + 10) [2::gotime]) \<le> 1 \<and>
   rl_reach ticking_env (\<lambda>w. w) \<lparr>rate_N = 1, rate_Per = 10\<rparr> ([2], 3, [2])"
proof -
  let ?r = "\<lparr>rate_N = 1, rate_Per = 10\<rparr>"
  have 1: "rl_section ticking_env ?r [] 0 = ((None, [2]), 2)"
    by (simp add: rl_section_def eh_RLE_def eh_Tick_def ticking_env_def time_Add_def Rate_IsZero_def)
  have 2: "rl_reach ticking_env (\<lambda>w. w) ?r ([2], 2, [2])"
    using rl_pass[OF rl_init 1, of "\<lambda>w. w"] by simp
  have 3: "rl_reach ticking_env (\<lambda>w. w) ?r ([2], 3, [2])" using rl_other[OF 2, of 3] by simp
  show ?thesis using rl_window_bound[OF ticking_ok _ _ 3, of 1] 3 by (simp add: Rate_IsZero_def)
qed

section \<open>When RateLimit returns\<close>

lemma RateLimit_step:
  assumes "re_Err env w = (None, w1)" "\<not> Rate_IsZero rate" "rl_section env rate es w1 = ((lim, es1), w2)"
  shows "lim = None \<Longrightarrow> RateLimit env rate es w = Some (None, es1, w2)"
    and "lim = Some d \<Longrightarrow> re_After env d w2 = (True, w3) \<Longrightarrow> RateLimit env rate es w = RateLimit env rate es1 w3"
  using assms by (subst RateLimit.simps; simp)+

text \<open>A context that is never cancelled: only timers end a wait.\<close>

definition live_ctx :: "'w retry_env \<Rightarrow> bool" where
  "live_ctx env \<longleftrightarrow> (\<forall>w. fst (re_Err env w) = None \<and> (\<forall>d. fst (re_After env d w)))"

lemma live_ctxD:
  assumes "live_ctx env" shows "\<exists>w'. re_Err env w = (None, w')" "\<exists>w'. re_After env d w = (True, w')"
  using assms unfolding live_ctx_def by (metis prod.collapse)+

abbreviation passes :: "'w retry_env \<Rightarrow> Rate \<Rightarrow> eventHistory \<Rightarrow> 'w \<Rightarrow> bool" where
  "passes env rate es w \<equiv> \<exists>es' w'. RateLimit env rate es w = Some (None, es', w')"

lemma rl_stuck:
  assumes "rate_N rate \<le> 0" "\<not> Rate_IsZero rate" "live_ctx env"
  shows "RateLimit env rate es w = Some r \<Longrightarrow> False"
proof -
  assume r: "RateLimit env rate es w = Some r"
  have "\<not> (env' = env \<and> rate' = rate)" if "RateLimit env' rate' es w = Some r" for env' rate' es w r
  proof (rule RateLimit.raw_induct[OF _ that, where P = "\<lambda>env' rate' es w r. \<not> (env' = env \<and> rate' = rate)"],
      rule notI, elim conjE)
    fix f env' rate' es w y
    assume IH: "\<And>env' rate' es w y. f env' rate' es w = Some y \<Longrightarrow> \<not> (env' = env \<and> rate' = rate)"
      and eq: "env' = env" "rate' = rate"
      and body: "(case re_Err env' w of (err, w1) \<Rightarrow>
          if err \<noteq> None then Some (err, es, w1) else if Rate_IsZero rate' then Some (None, es, w1)
          else case rl_section env' rate' es w1 of ((limited, es1), w2) \<Rightarrow>
            if limited = None then Some (None, es1, w2)
            else case re_After env' (the limited) w2 of (fired, w3) \<Rightarrow>
              if fired then f env' rate' es1 w3 else case re_Err env' w3 of (err, w4) \<Rightarrow> Some (err, es1, w4)) = Some y"
    obtain w1 where w1: "re_Err env w = (None, w1)" using live_ctxD(1)[OF assms(3)] by blast
    obtain lim es1 w2 where s: "rl_section env rate es w1 = ((lim, es1), w2)" by (metis prod.collapse)
    have "lim \<noteq> None" using s assms(1)
      by (auto simp: rl_section_def eh_RLE_def Let_def split: prod.splits if_splits)
    then obtain d where d: "lim = Some d" by blast
    obtain w3 where "re_After env d w2 = (True, w3)" using live_ctxD(2)[OF assms(3)] by blast
    then show False using d body[unfolded eq] IH[unfolded eq, of env rate es1 w3 y] w1 s assms(2) by simp
  qed
  then show False using r by blast
qed

lemma sint_time_Sub: "0 \<le> t - u \<Longrightarrow> t - u \<le> sint (p :: duration) \<Longrightarrow> sint (time_Sub t u) = t - u"
proof -
  assume a: "0 \<le> t - u" "t - u \<le> sint p"
  have b: "t - u < 2 ^ 63" using sint_lt[of p] a(2) by simp
  have "time_Sub t u = word_of_int (t - u)"
    unfolding time_Sub_def using a(1) b by (intro arg_cong[of _ _ word_of_int]) (simp add: max_def min_def)
  then show "sint (time_Sub t u) = t - u" using sint_of_int_bounded[OF a(1) b] by (simp only:)
qed

abbreviation hist_ok :: "('w \<Rightarrow> gotime) \<Rightarrow> eventHistory \<Rightarrow> 'w \<Rightarrow> bool" where
  "hist_ok T es w \<equiv> \<forall>e \<in> set es. 0 < e \<and> e \<le> T w"

text \<open>
  One section and, when it limits the call, one wait: the call passes, or the history shrank, or the first event is
  still in the window and the wait has reached the end of that.
\<close>

lemma rl_progress:
  assumes c: "clock_ok env T" and r: "0 \<le> sint (rate_Per rate)" "\<not> Rate_IsZero rate" "0 < rate_N rate"
    and l: "live_ctx env" and h: "hist_ok T es w"
    and IH: "\<And>es' w'. length es' < length es \<Longrightarrow> hist_ok T es' w' \<Longrightarrow> passes env rate es' w'"
  shows "passes env rate es w \<or>
    (\<exists>t w'. T w \<le> t \<and> t < T w' \<and> t \<le> Min (set es) + sint (rate_Per rate) \<and> Min (set es) + sint (rate_Per rate) \<le> T w' \<and>
        hist_ok T es w' \<and> (passes env rate es w' \<longrightarrow> passes env rate es w))"
proof -
  let ?per = "sint (rate_Per rate)"
  obtain w1 where w1: "re_Err env w = (None, w1)" using live_ctxD(1)[OF l] by blast
  have T1: "T w \<le> T w1" using clock_okD(2)[OF c w1] .
  obtain lim es1 w2 where s: "rl_section env rate es w1 = ((lim, es1), w2)" by (metis prod.collapse)
  show ?thesis
  proof (cases lim)
    case None
    then show ?thesis using RateLimit_step(1)[OF w1 r(2) s] by blast
  next
    case (Some d)
    obtain w3 where w3: "re_After env d w2 = (True, w3)" using live_ctxD(2)[OF l] by blast
    note T3 = clock_okD(4)[OF c w3]
    have eq: "RateLimit env rate es w = RateLimit env rate es1 w3" using RateLimit_step(2)[OF w1 r(2) s Some w3] .
    obtain t where t: "T w1 \<le> t" "T w2 = t" "es1 = filter (\<lambda>e. t - ?per \<le> e) es" "rate_N rate \<le> int (length es1)"
        "\<forall>e \<in> set es. 0 < e \<Longrightarrow> es \<noteq> [] \<Longrightarrow> d = time_Sub (Min (set es)) (t - ?per)"
      using rl_section_cases[OF c r(1,2) s] Some by (metis option.discI)
    have h1: "hist_ok T es1 w3" using h T1 t(1,2,3) T3 by fastforce
    show ?thesis
    proof (cases "length es1 < length es")
      case True
      then show ?thesis using IH[OF True h1] eq by simp
    next
      case False
      then have es: "es1 = es" "\<forall>e \<in> set es. t - ?per \<le> e"
        unfolding t(3) by (metis filter_True length_filter_less linorder_not_less)+
      have pos: "\<forall>e \<in> set es. 0 < e" using h by blast
      have ne: "es \<noteq> []" using t(4) r(3) es(1) by auto
      have m: "t - ?per \<le> Min (set es)" "Min (set es) \<le> t"
        using es(2) ne h T1 t(1) Min_in[of "set es"] by fastforce+
      have "sint d = Min (set es) - (t - ?per)"
        unfolding t(5)[OF pos ne]
        by (rule sint_time_Sub[of _ _ "rate_Per rate"]) (use m in auto)
      then show ?thesis using T3 t(1,2) T1 m h1 es(1) eq by (intro disjI2 exI[of _ t] exI[of _ w3]) auto
    qed
  qed
qed

lemma rl_passes:
  assumes c: "clock_ok env T" and r: "0 \<le> sint (rate_Per rate)" "\<not> Rate_IsZero rate" "0 < rate_N rate"
    and l: "live_ctx env" and h: "hist_ok T es w"
  shows "passes env rate es w"
  using h
proof (induction "length es" arbitrary: es w rule: less_induct)
  case less
  note step = rl_progress[OF c r l _ less.hyps]
  let ?last = "Min (set es) + sint (rate_Per rate)"
  show ?case
  proof (rule ccontr)
    assume no: "\<not> passes env rate es w"
    obtain w1 where 1: "?last \<le> T w1" "hist_ok T es w1" "\<not> passes env rate es w1"
      using step[OF less.prems] no by blast
    obtain t2 w2 where 2: "T w1 \<le> t2" "t2 < T w2" "hist_ok T es w2" "\<not> passes env rate es w2"
      using step[OF 1(2)] 1(3) by blast
    obtain t3 where 3: "T w2 \<le> t3" "t3 \<le> ?last" using step[OF 2(3)] 2(4) by blast
    show False using 1(1) 2(1,2) 3 by linarith
  qed
qed

text \<open>C36: On a context that stays alive RateLimit lets the call pass, after waiting as often as needed, exactly when
  the rate is the zero value (no limit) or N is positive. With any other rate it never returns: it has no event to
  wait for, and asks again and again.\<close>

theorem rl_RateLimit_returns_iff:
  assumes "clock_ok env T" "0 \<le> sint (rate_Per rate)" "live_ctx env" "\<forall>e \<in> set es. 0 < e \<and> e \<le> T w"
  shows "if Rate_IsZero rate \<or> 0 < rate_N rate then \<exists>es' w'. RateLimit env rate es w = Some (None, es', w')
    else RateLimit env rate es w = None"
proof -
  obtain w1 where w1: "re_Err env w = (None, w1)" using live_ctxD(1)[OF assms(3)] by blast
  have "Rate_IsZero rate \<Longrightarrow> passes env rate es w" using w1 by (subst RateLimit.simps) simp
  moreover have "\<not> Rate_IsZero rate \<Longrightarrow> 0 < rate_N rate \<Longrightarrow> passes env rate es w"
    using rl_passes[OF assms(1,2) _ _ assms(3,4)] by blast
  moreover have "\<not> Rate_IsZero rate \<Longrightarrow> \<not> 0 < rate_N rate \<Longrightarrow> RateLimit env rate es w = None"
    using rl_stuck[of rate env es w] assms(3) by (metis linorder_not_less not_None_eq)
  ultimately show ?thesis by (cases "Rate_IsZero rate"; cases "0 < rate_N rate") simp_all
qed

lemma rl_RateLimit_returns_iff_witness:
  "(\<exists>es' w'. RateLimit ticking_env \<lparr>rate_N = 1, rate_Per = 10\<rparr> [5] 7 = Some (None, es', w')) \<and>
   RateLimit ticking_env \<lparr>rate_N = 0, rate_Per = 10\<rparr> [5] 7 = None"
proof -
  have l: "live_ctx ticking_env" by (simp add: live_ctx_def ticking_env_def)
  show ?thesis
    using rl_RateLimit_returns_iff[OF ticking_ok _ l, of "\<lparr>rate_N = 1, rate_Per = 10\<rparr>" "[5]" 7]
      rl_RateLimit_returns_iff[OF ticking_ok _ l, of "\<lparr>rate_N = 0, rate_Per = 10\<rparr>" "[5]" 7]
    by (simp add: Rate_IsZero_def)
qed

end
