(* ===== verification/Iokit.thy ===== *)
theory Iokit imports Errorkit "HOL-Library.Word" begin

text \<open>
  \<^verbatim>\<open>pkg/iokit\<close>: the in-memory buffer, writing everything, reading with a limit, the keep-alive reader and
  the lockstep readers, with what they use of the standard library's \<^verbatim>\<open>io\<close>.

  An \<^verbatim>\<open>io.Reader\<close> is a function on a world: given the length of \<^verbatim>\<open>p\<close> it yields the bytes it put at the front
  of \<^verbatim>\<open>p\<close> and the error. A loop over a reader that never ends is \<^const>\<open>None\<close>.
\<close>

type_synonym octet = "8 word"
type_synonym 'w reader = "nat \<Rightarrow> 'w \<Rightarrow> (octet list \<times> go_error option) \<times> 'w"
type_synonym 'w writer = "octet list \<Rightarrow> 'w \<Rightarrow> (int \<times> go_error option) \<times> 'w"

abbreviation EOF :: string where "EOF \<equiv> ''EOF''"
abbreviation io_EOF :: go_error where "io_EOF \<equiv> ErrConst EOF"
abbreviation ErrUnexpectedEOF :: go_error where "ErrUnexpectedEOF \<equiv> ErrConst ''unexpected EOF''"
abbreviation ErrShortWrite :: string where "ErrShortWrite \<equiv> ''short write''"
abbreviation fs_ErrClosed :: go_error where "fs_ErrClosed \<equiv> ErrConst ''file already closed''"

definition ErrSeekNegativePosition :: go_error where
  "ErrSeekNegativePosition = ErrConst ''iokit: negative position''"

definition ErrClosed :: go_error where
  "ErrClosed = ErrConst ''iokit: read/write on closed io''"

definition ErrReadLimitReached :: go_error where
  "ErrReadLimitReached = ErrConst ''request-entity-too-large''"

section \<open>io\<close>

text \<open>\<^verbatim>\<open>io.ReadFull(r, buf)\<close>, with what has been read.\<close>

partial_function (option) read_at_least ::
    "'w reader \<Rightarrow> nat \<Rightarrow> octet list \<Rightarrow> go_error option \<Rightarrow> 'w \<Rightarrow> ((octet list \<times> go_error option) \<times> 'w) option" where
  "read_at_least rd len got err w =
     (if length got < len \<and> err = None
      then (case rd (len - length got) w of ((bs, err), w') \<Rightarrow> read_at_least rd len (got @ bs) err w')
      else Some ((got, if len \<le> length got then None
                       else if got \<noteq> [] \<and> err = Some io_EOF then Some ErrUnexpectedEOF else err), w))"

definition io_ReadFull :: "'w reader \<Rightarrow> nat \<Rightarrow> 'w \<Rightarrow> ((octet list \<times> go_error option) \<times> 'w) option" where
  "io_ReadFull rd len w = read_at_least rd len [] None w"

text \<open>
  \<^verbatim>\<open>io.LimitReader\<close>: the bytes left are part of the world.
\<close>

definition LimitReader :: "'w reader \<Rightarrow> (int \<times> 'w) reader" where
  "LimitReader rd n = (\<lambda>(left, w).
     if left \<le> 0 then (([], Some io_EOF), (left, w))
     else (case rd (if left < int n then nat left else n) w of
             ((bs, err), w') \<Rightarrow> ((bs, err), (left - int (length bs), w'))))"

text \<open>\<^verbatim>\<open>io.ReadAll\<close>; \<open>room\<close> is the free capacity of its slice at a length, which append decides.\<close>

partial_function (option) read_all ::
    "(nat \<Rightarrow> nat) \<Rightarrow> 'w reader \<Rightarrow> octet list \<Rightarrow> 'w \<Rightarrow> ((octet list \<times> go_error option) \<times> 'w) option" where
  "read_all room rd got w =
     (case rd (room (length got)) w of
        ((bs, err), w') \<Rightarrow>
          if err \<noteq> None then Some ((got @ bs, if err = Some io_EOF then None else err), w')
          else read_all room rd (got @ bs) w')"

definition io_ReadAll :: "(nat \<Rightarrow> nat) \<Rightarrow> 'w reader \<Rightarrow> 'w \<Rightarrow> ((octet list \<times> go_error option) \<times> 'w) option" where
  "io_ReadAll room rd w = read_all room rd [] w"

section \<open>Writing everything, reading with a limit\<close>

partial_function (option) write_loop ::
    "'w writer \<Rightarrow> octet list \<Rightarrow> int \<Rightarrow> int \<Rightarrow> 'w \<Rightarrow> ((int \<times> go_error option) \<times> 'w) option" where
  "write_loop wr p index tries w =
     (if index < int (length p)
      then (case wr (drop (nat index) p) w of
              ((n, err), w') \<Rightarrow>
                let index = (if 0 < n then index + n else index)
                in if err \<noteq> None
                   then (if err_Is err ErrShortWrite
                         then (let tries = (if n = 0 then tries - 1 else tries)
                               in if 0 < tries then write_loop wr p index tries w' else Some ((index, err), w'))
                         else Some ((index, err), w'))
                   else write_loop wr p index tries w')
      else Some ((index, None), w))"

definition WriteAll :: "'w writer \<Rightarrow> octet list \<Rightarrow> 'w \<Rightarrow> ((int \<times> go_error option) \<times> 'w) option" where
  "WriteAll wr p w = write_loop wr p 0 42 w"

text \<open>
  \<^verbatim>\<open>ReadAllWithLimit\<close>: the body is nil, or a reader, with its \<^verbatim>\<open>Close\<close> when it has one.
\<close>

definition read_limited :: "(nat \<Rightarrow> nat) \<Rightarrow> 'w reader \<Rightarrow> int \<Rightarrow> 'w \<Rightarrow> ((octet list option \<times> go_error option) \<times> 'w) option" where
  "read_limited room rd readLimit w =
     (case io_ReadAll room (LimitReader rd) (readLimit, w) of
        None \<Rightarrow> None
      | Some ((data, Some err), (_, w1)) \<Rightarrow> Some ((None, Some err), w1)
      | Some ((data, None), (_, w1)) \<Rightarrow>
          (case rd 1 w1 of
             ((bs, err), w2) \<Rightarrow>
               if err = None \<and> bs \<noteq> [] then Some ((None, Some ErrReadLimitReached), w2)
               else Some ((Some data, None), w2)))"

definition ReadAllWithLimit ::
    "(nat \<Rightarrow> nat) \<Rightarrow> ('w reader \<times> ('w \<Rightarrow> go_error option \<times> 'w) option) option \<Rightarrow> int \<Rightarrow> 'w \<Rightarrow>
     ((octet list option \<times> go_error option) \<times> 'w) option" where
  "ReadAllWithLimit room body readLimit w =
     (case body of
        None \<Rightarrow> Some ((Some [], None), w)
      | Some (rd, None) \<Rightarrow> read_limited room rd readLimit w
      | Some (rd, Some close) \<Rightarrow>
          (case read_limited room rd readLimit w of
             None \<Rightarrow> None
           | Some ((data, err), w1) \<Rightarrow> (case close w1 of (cerr, w2) \<Rightarrow> Some ((data, Finish err cerr), w2))))"

section \<open>Buffer\<close>

record Buffer =
  bf_buffer :: "octet list"
  bf_position :: int
  bf_closed :: bool

definition NewBuffer :: "octet list \<Rightarrow> Buffer" where
  "NewBuffer data = \<lparr>bf_buffer = data, bf_position = 0, bf_closed = False\<rparr>"

definition bf_Read :: "Buffer reader" where
  "bf_Read n b =
     (if bf_closed b then (([], Some ErrClosed), b)
      else if bf_position b < 0 then (([], Some (ErrText ''bytes.Reader.Seek: negative position'')), b)
      else if int (length (bf_buffer b)) \<le> bf_position b then (([], Some io_EOF), b)
      else (let bs = take n (drop (nat (bf_position b)) (bf_buffer b))
            in ((bs, None), b\<lparr>bf_position := bf_position b + int (length bs)\<rparr>)))"

definition bf_Write :: "octet list \<Rightarrow> Buffer \<Rightarrow> (int \<times> go_error option) \<times> Buffer" where
  "bf_Write p b =
     (if bf_closed b then ((0, Some fs_ErrClosed), b)
      else (let extra = bf_position b - int (length (bf_buffer b));
                buf = (if 0 < extra then bf_buffer b @ replicate (nat extra) 0 else bf_buffer b);
                pos = nat (bf_position b);
                n = (if pos < length buf then min (length buf - pos) (length p) else 0);
                buf = take pos buf @ take n p @ drop (pos + n) buf;
                buf = buf @ drop n p
            in ((int (length p), None), b\<lparr>bf_buffer := buf, bf_position := bf_position b + int (length p)\<rparr>)))"

text \<open>\<^verbatim>\<open>Seek\<close>; the sums are on a 64-bit int. A \<^verbatim>\<open>whence\<close> other than 0, 1, 2 goes to position 0.\<close>

definition int64 :: "int \<Rightarrow> int" where
  "int64 z = sint (word_of_int z :: 64 word)"

definition bf_Seek :: "int \<Rightarrow> int \<Rightarrow> Buffer \<Rightarrow> (int \<times> go_error option) \<times> Buffer" where
  "bf_Seek offset whence b =
     (if bf_closed b then ((0, Some fs_ErrClosed), b)
      else (let nextPos = (if whence = 0 then offset
                           else if whence = 1 then int64 (bf_position b + offset)
                           else if whence = 2 then int64 (int (length (bf_buffer b)) + offset)
                           else 0)
            in if nextPos < 0 then ((0, Some ErrSeekNegativePosition), b)
               else ((nextPos, None), b\<lparr>bf_position := nextPos\<rparr>)))"

definition bf_Close :: "Buffer \<Rightarrow> go_error option \<times> Buffer" where
  "bf_Close b = (if bf_closed b then (Some fs_ErrClosed, b) else (None, b\<lparr>bf_closed := True\<rparr>))"

section \<open>KeepAliveReader\<close>

text \<open>
  The state under the lock of the reader. The goroutine \<^verbatim>\<open>keepAlive\<close> is the operation \<open>ka_tick\<close>, which may
  come between any two reads.
\<close>

record KeepAliveReader =
  ka_buffer :: "octet list"
  ka_eof :: bool
  ka_readError :: "go_error option"
  ka_closed :: bool
  ka_closeError :: "go_error option"

definition NewKeepAliveReader :: KeepAliveReader where
  "NewKeepAliveReader = \<lparr>ka_buffer = [], ka_eof = False, ka_readError = None, ka_closed = False, ka_closeError = None\<rparr>"

definition bufferAhead :: "'w reader \<Rightarrow> nat \<Rightarrow> KeepAliveReader \<Rightarrow> 'w \<Rightarrow> KeepAliveReader \<times> 'w" where
  "bufferAhead rd byteLength r w =
     (if ka_eof r \<or> ka_readError r \<noteq> None then (r, w)
      else (case rd byteLength w of
              ((bs, err), w') \<Rightarrow>
                let r1 = r\<lparr>ka_buffer := ka_buffer r @ bs\<rparr>;
                    r2 = (if err_Is err EOF then r1\<lparr>ka_eof := True\<rparr> else r1)
                in (if err \<noteq> None then r2\<lparr>ka_readError := err\<rparr> else r2, w')))"

definition ka_Read :: "'w reader \<Rightarrow> nat \<Rightarrow> KeepAliveReader \<Rightarrow> 'w \<Rightarrow> (octet list \<times> go_error option) \<times> KeepAliveReader \<times> 'w" where
  "ka_Read rd n r w =
     (case (if length (ka_buffer r) < n then bufferAhead rd (n - length (ka_buffer r)) r w else (r, w)) of
        (r1, w1) \<Rightarrow>
          if ka_buffer r1 = [] \<and> ka_eof r1 then (([], Some io_EOF), r1, w1)
          else (let n = (if length (ka_buffer r1) < n then length (ka_buffer r1) else n)
                in ((take n (ka_buffer r1), ka_readError r1), r1\<lparr>ka_buffer := drop n (ka_buffer r1)\<rparr>, w1)))"

text \<open>The source and its \<^verbatim>\<open>Close\<close>, when it has one.\<close>

definition ka_Close :: "('w \<Rightarrow> go_error option \<times> 'w) option \<Rightarrow> KeepAliveReader \<Rightarrow> 'w \<Rightarrow> go_error option \<times> KeepAliveReader \<times> 'w" where
  "ka_Close close r w =
     (if ka_closed r then (ka_closeError r, r, w)
      else (case close of
              None \<Rightarrow> (ka_closeError r, r\<lparr>ka_closed := True\<rparr>, w)
            | Some cl \<Rightarrow> (case cl w of (err, w') \<Rightarrow> (err, r\<lparr>ka_closed := True, ka_closeError := err\<rparr>, w'))))"

text \<open>A tick of \<^verbatim>\<open>keepAlive\<close>; the boolean ends the goroutine.\<close>

definition ka_tick :: "'w reader \<Rightarrow> KeepAliveReader \<Rightarrow> 'w \<Rightarrow> bool \<times> KeepAliveReader \<times> 'w" where
  "ka_tick rd r w =
     (case bufferAhead rd 1 r w of (r1, w1) \<Rightarrow> (ka_eof r1 \<or> ka_readError r1 \<noteq> None, r1, w1))"

section \<open>LockstepReaders\<close>

text \<open>
  The shared source and its outputs. An operation under the mutex is one step; indexes are
  \<^verbatim>\<open>mathkit.BigInt\<close> values, that is integers, and a distance of two of them fits an \<^verbatim>\<open>int\<close>. A panic
  is an \<^const>\<open>Inl\<close>.
\<close>

record lockstepOutput =
  lo_index :: int
  lo_done :: bool

record lockstepSource =
  ls_err :: "go_error option"
  ls_wlen :: int
  ls_wcap :: int
  ls_buffer :: "octet list"
  ls_index :: int
  ls_outs :: "lockstepOutput list"

definition newLockstepSource :: "int \<Rightarrow> lockstepSource" where
  "newLockstepSource bufferWindow =
     \<lparr>ls_err = None, ls_wlen = 0, ls_wcap = bufferWindow, ls_buffer = replicate (nat bufferWindow) 0, ls_index = 0, ls_outs = []\<rparr>"

definition ls_NewOutput :: "lockstepSource \<Rightarrow> lockstepSource" where
  "ls_NewOutput src = src\<lparr>ls_outs := ls_outs src @ [\<lparr>lo_index = 0, lo_done = False\<rparr>]\<rparr>"

definition LockstepReaders :: "int \<Rightarrow> int \<Rightarrow> string + lockstepSource" where
  "LockstepReaders n bufferWindow =
     (if n < 0 then Inl ''iokit.LockstepReaders reader multiplexing count must be non-negative''
      else if bufferWindow \<le> 0 then Inl ''iokit.LockstepReaders buffer window size must be greater than zero''
      else Inr ((ls_NewOutput ^^ nat n) (newLockstepSource bufferWindow)))"

definition ls_window :: "lockstepSource \<Rightarrow> octet list" where
  "ls_window src = take (nat (ls_wlen src)) (ls_buffer src)"

definition ls_tail :: "lockstepSource \<Rightarrow> int" where
  "ls_tail src = ls_index src + ls_wlen src"

text \<open>The index of the open output that is the most behind; the zero index when there is none.\<close>

fun most_behind :: "int option \<Rightarrow> lockstepOutput list \<Rightarrow> int" where
  "most_behind found [] = (case found of None \<Rightarrow> 0 | Some i \<Rightarrow> i)"
| "most_behind found (out # outs) =
     (if lo_done out then most_behind found outs
      else (let i = (case found of None \<Rightarrow> lo_index out | Some i \<Rightarrow> i)
            in most_behind (Some (if lo_index out < i then lo_index out else i)) outs))"

definition advancebleIndexDistance :: "lockstepSource \<Rightarrow> int" where
  "advancebleIndexDistance src =
     (if ls_err src \<noteq> None then 0 else most_behind None (ls_outs src) - ls_index src)"

definition fillBuffer :: "'w reader \<Rightarrow> lockstepSource \<Rightarrow> 'w \<Rightarrow> (lockstepSource \<times> 'w) option" where
  "fillBuffer rd src w =
     (if ls_wcap src \<le> ls_wlen src then Some (src, w)
      else if ls_err src \<noteq> None then Some (src, w)
      else (case io_ReadFull rd (length (ls_buffer src) - nat (ls_wlen src)) w of
              None \<Rightarrow> None
            | Some ((bs, err), w') \<Rightarrow>
                let wlen = nat (ls_wlen src);
                    src1 = src\<lparr>ls_buffer := take wlen (ls_buffer src) @ bs @ drop (wlen + length bs) (ls_buffer src),
                               ls_wlen := ls_wlen src + int (length bs)\<rparr>
                in Some (if err = None then src1
                         else src1\<lparr>ls_err := (if err = Some ErrUnexpectedEOF then Some io_EOF else err)\<rparr>, w')))"

definition shiftLeft :: "lockstepSource \<Rightarrow> int \<Rightarrow> string + lockstepSource" where
  "shiftLeft src n =
     (if n = 0 then Inr src
      else if int (length (ls_buffer src)) < n \<or> ls_wcap src < n
      then Inl ''not possible to shift more than the buffer window size''
      else if ls_wlen src < n then Inl ''not possible to shift more than the buffer window length''
      else if n < 0 then Inl ''slice bounds out of range''
      else Inr (src\<lparr>ls_buffer := drop (nat n) (ls_buffer src) @ replicate (nat n) 0,
                    ls_wlen := ls_wlen src - n, ls_index := ls_index src + n\<rparr>))"

definition ls_advance :: "'w reader \<Rightarrow> lockstepSource \<Rightarrow> 'w \<Rightarrow> (string + bool \<times> lockstepSource \<times> 'w) option" where
  "ls_advance rd src w =
     (let initialTail = ls_tail src
      in case fillBuffer rd src w of
           None \<Rightarrow> None
         | Some (src1, w1) \<Rightarrow>
             let toAdvance = min (advancebleIndexDistance src1) (ls_wlen src1)
             in if toAdvance = 0 then Some (Inr (initialTail < ls_tail src1, src1, w1))
                else (case shiftLeft src1 (if toAdvance \<le> ls_wlen src1 then toAdvance else ls_wlen src1) of
                        Inl panic \<Rightarrow> Some (Inl panic)
                      | Inr src2 \<Rightarrow>
                          (case fillBuffer rd src2 w1 of
                             None \<Rightarrow> None
                           | Some (src3, w3) \<Rightarrow> Some (Inr (True, src3, w3)))))"

definition ls_readersLen :: "lockstepSource \<Rightarrow> int" where
  "ls_readersLen src = int (length (filter (\<lambda>out. \<not> lo_done out) (ls_outs src)))"

text \<open>
  \<^verbatim>\<open>waitForWindowUpdate\<close>, up to the point where it waits: whether it wakes the waiting outputs and whether it
  waits. \<open>phaserLen\<close> is the number of outputs that wait already.
\<close>

definition waitForWindowUpdate ::
    "'w reader \<Rightarrow> int \<Rightarrow> lockstepSource \<Rightarrow> 'w \<Rightarrow> (string + (bool \<times> bool) \<times> lockstepSource \<times> 'w) option" where
  "waitForWindowUpdate rd phaserLen src w =
     (if ls_err src \<noteq> None then Some (Inr ((True, False), src, w))
      else (case ls_advance rd src w of
              None \<Rightarrow> None
            | Some (Inl panic) \<Rightarrow> Some (Inl panic)
            | Some (Inr (advanced, src1, w1)) \<Rightarrow>
                if advanced then Some (Inr ((True, False), src1, w1))
                else Some (Inr ((phaserLen = ls_readersLen src1 - 1, True), src1, w1))))"

definition lo_Close :: "nat \<Rightarrow> lockstepSource \<Rightarrow> lockstepSource" where
  "lo_Close i src = src\<lparr>ls_outs := (ls_outs src)[i := (ls_outs src ! i)\<lparr>lo_done := True\<rparr>]\<rparr>"

text \<open>\<^verbatim>\<open>pull\<close>: the bytes it copies to \<^verbatim>\<open>p\<close>, of length \<open>n\<close>.\<close>

definition lo_pull :: "nat \<Rightarrow> nat \<Rightarrow> lockstepSource \<Rightarrow> string + octet list \<times> lockstepSource" where
  "lo_pull i n src =
     (let out = ls_outs src ! i; start = lo_index out - ls_index src; window = ls_window src
      in if int (length window) < start then Inr ([], src)
         else if start < 0 then Inl ''slice bounds out of range''
         else (let current = drop (nat start) window; bs = take n current
               in if current = [] then Inr ([], src)
                  else Inr (bs, src\<lparr>ls_outs := (ls_outs src)[i := out\<lparr>lo_index := lo_index out + int (length bs)\<rparr>]\<rparr>)))"

definition isSourceFinished :: "nat \<Rightarrow> lockstepSource \<Rightarrow> bool" where
  "isSourceFinished i src \<longleftrightarrow> ls_err src \<noteq> None \<and> lo_index (ls_outs src ! i) = ls_tail src"

definition lo_read :: "nat \<Rightarrow> nat \<Rightarrow> lockstepSource \<Rightarrow> string + (octet list \<times> go_error option) \<times> lockstepSource" where
  "lo_read i n src =
     (case lo_pull i n src of
        Inl panic \<Rightarrow> Inl panic
      | Inr (bs, src1) \<Rightarrow> Inr ((bs, if isSourceFinished i src1 then ls_err src1 else None), src1))"

text \<open>
  The loop of an output's \<^verbatim>\<open>Read\<close>: after a read, whether it returns and what; otherwise it goes on to
  \<open>waitForWindowUpdate\<close>.
\<close>

definition lo_Read_step ::
    "nat \<Rightarrow> octet list \<Rightarrow> nat \<Rightarrow> lockstepSource \<Rightarrow> string + ((octet list \<times> go_error option) option \<times> octet list) \<times> lockstepSource" where
  "lo_Read_step i got len src =
     (if lo_done (ls_outs src ! i) then Inr ((Some ([], Some ErrClosed), got), src)
      else (case lo_read i (len - length got) src of
              Inl panic \<Rightarrow> Inl panic
            | Inr ((bs, err), src1) \<Rightarrow>
                let got = got @ bs
                in Inr ((if len \<le> length got \<or> err \<noteq> None then Some (got, err) else None, got), src1)))"

section \<open>Sources\<close>

text \<open>
  A reader as the documentation of \<^verbatim>\<open>io.Reader\<close> has it, as far as it matters here: it puts at most the asked number
  of bytes into \<^verbatim>\<open>p\<close>. \<open>consumed\<close> is what has been read from it.
\<close>

locale io_source =
  fixes rd :: "'w reader"
    and consumed :: "'w \<Rightarrow> octet list"
  assumes reads: "rd n w = ((bs, err), w') \<Longrightarrow> consumed w' = consumed w @ bs \<and> length bs \<le> n"
begin

lemma read_at_least_consumes:
  "read_at_least rd len got err w = Some ((bs, err'), w') \<Longrightarrow>
     length got \<le> len \<Longrightarrow>
     \<exists>new. bs = got @ new \<and> consumed w' = consumed w @ new \<and> length bs \<le> len \<and> (err' = None \<longleftrightarrow> length bs = len)"
proof -
  assume r: "read_at_least rd len got err w = Some ((bs, err'), w')" and l: "length got \<le> len"
  have "rd' = rd \<longrightarrow> length got \<le> len' \<longrightarrow>
      (\<exists>new. fst (fst y) = got @ new \<and> consumed (snd y) = consumed w @ new \<and> length (fst (fst y)) \<le> len' \<and>
         (snd (fst y) = None \<longleftrightarrow> length (fst (fst y)) = len'))"
    if "read_at_least rd' len' got err w = Some y" for rd' len' got err w y
  proof (rule read_at_least.raw_induct[OF _ that, where P = "\<lambda>rd' len' got err w y. rd' = rd \<longrightarrow> length got \<le> len' \<longrightarrow>
      (\<exists>new. fst (fst y) = got @ new \<and> consumed (snd y) = consumed w @ new \<and> length (fst (fst y)) \<le> len' \<and>
         (snd (fst y) = None \<longleftrightarrow> length (fst (fst y)) = len'))"], intro impI)
    fix f :: "'w reader \<Rightarrow> nat \<Rightarrow> octet list \<Rightarrow> go_error option \<Rightarrow> 'w \<Rightarrow> ((octet list \<times> go_error option) \<times> 'w) option"
    fix rd' len' got err w y
    assume IH: "\<And>rd' len' got err w y. f rd' len' got err w = Some y \<Longrightarrow> rd' = rd \<longrightarrow> length got \<le> len' \<longrightarrow>
      (\<exists>new. fst (fst y) = got @ new \<and> consumed (snd y) = consumed w @ new \<and> length (fst (fst y)) \<le> len' \<and>
         (snd (fst y) = None \<longleftrightarrow> length (fst (fst y)) = len'))"
      and body: "(if length got < len' \<and> err = None
         then case rd' (len' - length got) w of ((bs, err), w') \<Rightarrow> f rd' len' (got @ bs) err w'
         else Some ((got, if len' \<le> length got then None
                       else if got \<noteq> [] \<and> err = Some io_EOF then Some ErrUnexpectedEOF else err), w)) = Some y"
      and rd: "rd' = rd" and l: "length got \<le> len'"
    show "\<exists>new. fst (fst y) = got @ new \<and> consumed (snd y) = consumed w @ new \<and> length (fst (fst y)) \<le> len' \<and>
         (snd (fst y) = None \<longleftrightarrow> length (fst (fst y)) = len')"
    proof (cases "length got < len' \<and> err = None")
      case True
      obtain bs e w1 where 1: "rd (len' - length got) w = ((bs, e), w1)" by (metis prod.collapse)
      have 2: "consumed w1 = consumed w @ bs" "length bs \<le> len' - length got" using reads[OF 1] by simp_all
      have "f rd len' (got @ bs) e w1 = Some y" using body True 1 rd by simp
      from IH[OF this] 2 l True show ?thesis by auto
    next
      case False
      then show ?thesis using body l by (cases "len' \<le> length got") (auto split: if_splits)
    qed
  qed
  from this[OF r] l show ?thesis by auto
qed

lemma ReadFull_consumes:
  "io_ReadFull rd len w = Some ((bs, err), w') \<Longrightarrow>
     consumed w' = consumed w @ bs \<and> length bs \<le> len \<and> (err = None \<longleftrightarrow> length bs = len)"
  unfolding io_ReadFull_def by (drule read_at_least_consumes) auto

lemma bufferAhead_consumes:
  "bufferAhead rd n r w = (r', w') \<Longrightarrow>
     \<exists>bs. consumed w' = consumed w @ bs \<and> ka_buffer r' = ka_buffer r @ bs \<and> length bs \<le> n"
  using reads by (auto simp: bufferAhead_def Let_def split: if_splits prod.splits; blast)

end

text \<open>The buffer is such a source: what has been read is what lies before its position.\<close>

interpretation buffer_source: io_source bf_Read "\<lambda>b. take (nat (bf_position b)) (bf_buffer b)"
  by unfold_locales
     (auto simp: bf_Read_def Let_def nat_add_distrib take_add min_def split: if_splits)

section \<open>The keep-alive reader keeps the stream\<close>

inductive ka_reach ::
    "'w reader \<Rightarrow> ('w \<Rightarrow> go_error option \<times> 'w) option \<Rightarrow> 'w \<Rightarrow> KeepAliveReader \<times> 'w \<times> octet list \<Rightarrow> bool"
  for rd close w0 where
  ka_init: "ka_reach rd close w0 (NewKeepAliveReader, w0, [])"
| ka_read: "ka_reach rd close w0 (r, w, out) \<Longrightarrow> ka_Read rd n r w = ((bs, err), r', w') \<Longrightarrow>
     ka_reach rd close w0 (r', w', out @ bs)"
| ka_keepAlive: "ka_reach rd close w0 (r, w, out) \<Longrightarrow> ka_tick rd r w = (stop, r', w') \<Longrightarrow> ka_reach rd close w0 (r', w', out)"
| ka_close: "ka_reach rd close w0 (r, w, out) \<Longrightarrow> ka_Close close r w = (err, r', w') \<Longrightarrow> ka_reach rd close w0 (r', w', out)"

definition closes_quietly :: "('w \<Rightarrow> go_error option \<times> 'w) option \<Rightarrow> ('w \<Rightarrow> octet list) \<Rightarrow> bool" where
  "closes_quietly close consumed \<longleftrightarrow> (\<forall>cl w. close = Some cl \<longrightarrow> consumed (snd (cl w)) = consumed w)"

lemma ka_Read_consumes:
  assumes "io_source rd consumed" "ka_Read rd n r w = ((bs, err), r', w')"
  shows "\<exists>new. consumed w' = consumed w @ new \<and> ka_buffer r @ new = bs @ ka_buffer r' \<and> length bs \<le> n"
proof -
  obtain r1 w1 where 1: "(if length (ka_buffer r) < n then bufferAhead rd (n - length (ka_buffer r)) r w else (r, w)) = (r1, w1)"
    by fastforce
  obtain new where 2: "consumed w1 = consumed w @ new" "ka_buffer r1 = ka_buffer r @ new"
  proof (cases "length (ka_buffer r) < n")
    case True
    then have "bufferAhead rd (n - length (ka_buffer r)) r w = (r1, w1)" using 1 by simp
    from io_source.bufferAhead_consumes[OF assms(1) this] that show ?thesis by blast
  next
    case False
    then show ?thesis using 1 that[of "[]"] by simp
  qed
  have "length bs \<le> n" using assms(2) 1 by (auto simp: ka_Read_def Let_def split: if_splits)
  then show ?thesis using assms(2) 1 2 by (auto simp: ka_Read_def Let_def split: if_splits)
qed

text \<open>C37: A KeepAliveReader neither loses, repeats nor reorders a byte of its source: however its background reads
  come between the reads and the close, what the reads have returned, followed by what it has buffered, is what has
  been read from the source.\<close>

theorem ka_stream:
  assumes "io_source rd consumed" "closes_quietly close consumed" "ka_reach rd close w0 (r, w, out)"
  shows "consumed w = consumed w0 @ out @ ka_buffer r"
  using assms(3)
proof (induction "(r, w, out)" arbitrary: r w out)
  case ka_init
  show ?case by (simp add: NewKeepAliveReader_def)
next
  case (ka_read r w out n bs err r' w')
  then show ?case using ka_Read_consumes[OF assms(1) ka_read(3)] by (metis append.assoc)
next
  case (ka_keepAlive r w out stop r' w')
  then obtain new where "consumed w' = consumed w @ new" "ka_buffer r' = ka_buffer r @ new"
    using io_source.bufferAhead_consumes[OF assms(1), of 1 r w r' w'] by (auto simp: ka_tick_def split: prod.splits)
  then show ?case using ka_keepAlive(2) by simp
next
  case (ka_close r w out err r' w')
  then show ?case using assms(2)
    by (auto simp: ka_Close_def closes_quietly_def split: if_splits option.splits prod.splits) (metis snd_conv)
qed


lemma ka_stream_witness:
  "ka_reach bf_Read None (NewBuffer [1, 2, 3])
      (\<lparr>ka_buffer = [3], ka_eof = False, ka_readError = None, ka_closed = False, ka_closeError = None\<rparr>,
       \<lparr>bf_buffer = [1, 2, 3], bf_position = 3, bf_closed = False\<rparr>, [1, 2]) \<and>
   [1, 2, 3] = [] @ [1, 2] @ [3::octet]"
proof -
  let ?r = "\<lparr>ka_buffer = [3], ka_eof = False, ka_readError = None, ka_closed = False, ka_closeError = None\<rparr>"
  let ?w = "\<lparr>bf_buffer = [1, 2, 3::octet], bf_position = 3, bf_closed = False\<rparr>"
  have 1: "ka_Read bf_Read 2 NewKeepAliveReader (NewBuffer [1, 2, 3]) =
      (([1, 2], None), NewKeepAliveReader, ?w\<lparr>bf_position := 2\<rparr>)"
    by (simp add: ka_Read_def NewKeepAliveReader_def NewBuffer_def bufferAhead_def bf_Read_def Let_def)
  have 2: "ka_tick bf_Read NewKeepAliveReader (?w\<lparr>bf_position := 2\<rparr>) = (False, ?r, ?w)"
    by (simp add: ka_tick_def NewKeepAliveReader_def bufferAhead_def bf_Read_def Let_def)
  have 3: "ka_reach bf_Read None (NewBuffer [1, 2, 3]) (?r, ?w, [] @ [1, 2])"
    by (rule ka_keepAlive[OF ka_read[OF ka_init 1] 2])
  have "closes_quietly None (\<lambda>b. take (nat (bf_position b)) (bf_buffer b))" by (simp add: closes_quietly_def)
  from ka_stream[OF buffer_source.io_source_axioms this 3] 3 show ?thesis by (simp add: NewBuffer_def)
qed

text \<open>
  It may report the end too early: after four quiet periods the source of three bytes is at its end, and a read of two
  bytes returns them together with \<^verbatim>\<open>io.EOF\<close>, with the third still in its buffer.
\<close>

lemma ka_early_EOF:
  "\<exists>r w. ka_reach bf_Read None (NewBuffer [1, 2, 3]) (r, w, []) \<and>
     (\<exists>r' w'. ka_Read bf_Read 2 r w = (([1, 2], Some io_EOF), r', w') \<and> ka_buffer r' = [3])"
proof -
  define r :: "nat \<Rightarrow> bool \<Rightarrow> go_error option \<Rightarrow> KeepAliveReader"
    where "r n e err = \<lparr>ka_buffer = take n [1, 2, 3], ka_eof = e, ka_readError = err, ka_closed = False, ka_closeError = None\<rparr>" for n e err
  define w where "w i = \<lparr>bf_buffer = [1, 2, 3::octet], bf_position = i, bf_closed = False\<rparr>" for i
  note defs = ka_tick_def bufferAhead_def bf_Read_def r_def w_def Let_def
  have 1: "ka_tick bf_Read (r 0 False None) (w 0) = (False, r 1 False None, w 1)" by (simp add: defs)
  have 2: "ka_tick bf_Read (r 1 False None) (w 1) = (False, r 2 False None, w 2)" by (simp add: defs)
  have 3: "ka_tick bf_Read (r 2 False None) (w 2) = (False, r 3 False None, w 3)" by (simp add: defs)
  have 4: "ka_tick bf_Read (r 3 False None) (w 3) = (True, r 3 True (Some io_EOF), w 3)" by (simp add: defs)
  have i: "ka_reach bf_Read None (NewBuffer [1, 2, 3]) (r 0 False None, w 0, [])"
    using ka_init[of bf_Read None "NewBuffer [1, 2, 3]"] by (simp add: NewKeepAliveReader_def NewBuffer_def r_def w_def)
  have "ka_reach bf_Read None (NewBuffer [1, 2, 3]) (r 3 True (Some io_EOF), w 3, [])"
    by (rule ka_keepAlive[OF ka_keepAlive[OF ka_keepAlive[OF ka_keepAlive[OF i 1] 2] 3] 4])
  moreover have "ka_Read bf_Read 2 (r 3 True (Some io_EOF)) (w 3) = (([1, 2], Some io_EOF), (r 3 True (Some io_EOF))\<lparr>ka_buffer := [3]\<rparr>, w 3)"
    by (simp add: ka_Read_def r_def)
  ultimately show ?thesis by fastforce
qed

section \<open>Buffer\<close>

lemma int64_id: "0 \<le> z \<Longrightarrow> z < 2 ^ 63 \<Longrightarrow> int64 z = z"
  by (simp add: int64_def sint_sbintrunc' signed_take_bit_int_eq_self)

lemma nth_overwritten:
  "pos \<le> length B \<Longrightarrow> i < length (take pos B @ p @ drop (pos + length p) B) \<Longrightarrow>
     (take pos B @ p @ drop (pos + length p) B) ! i = (if pos \<le> i \<and> i < pos + length p then p ! (i - pos) else B ! i)"
  by (auto simp: nth_append)

text \<open>The buffer with the gap before the position filled.\<close>

definition bf_padded :: "Buffer \<Rightarrow> octet list" where
  "bf_padded b = bf_buffer b @ replicate (nat (bf_position b) - length (bf_buffer b)) 0"

lemma bf_Write_buffer:
  assumes "\<not> bf_closed b" "0 \<le> bf_position b"
  shows "bf_Write p b = ((int (length p), None),
    b\<lparr>bf_buffer := take (nat (bf_position b)) (bf_padded b) @ p @ drop (nat (bf_position b) + length p) (bf_padded b),
      bf_position := bf_position b + int (length p)\<rparr>)"
proof -
  let ?extra = "bf_position b - int (length (bf_buffer b))" and ?pos = "nat (bf_position b)" and ?B = "bf_padded b"
  have B: "(if 0 < ?extra then bf_buffer b @ replicate (nat ?extra) 0 else bf_buffer b) = ?B"
    using assms(2) by (auto simp: bf_padded_def nat_diff_distrib)
  define n where "n = (if ?pos < length ?B then min (length ?B - ?pos) (length p) else 0)"
  have "(take ?pos ?B @ take n p @ drop (?pos + n) ?B) @ drop n p = take ?pos ?B @ p @ drop (?pos + length p) ?B"
  proof (cases "n = length p")
    case True
    then show ?thesis by simp
  next
    case False
    have "?pos \<le> length ?B" using assms(2) by (simp add: bf_padded_def)
    then have "?pos + n = length ?B" "length ?B \<le> ?pos + length p" using False by (auto simp: n_def split: if_splits)
    then show ?thesis by simp
  qed
  then show ?thesis using assms(1) unfolding bf_Write_def Let_def B n_def [symmetric] by simp
qed

text \<open>What is written to an open Buffer is at its place, whatever the position: the write reports all its bytes,
  changes nothing outside of the written range except that it fills a gap before it with zeros, and seeking back
  to where the write began and reading gives the bytes back.\<close>

theorem bf_write_read:
  assumes "\<not> bf_closed b" "bf_Write p b = ((n, err), b')"
    and "0 \<le> bf_position b" "bf_position b + int (length p) < 2 ^ 63" "p \<noteq> []"
  shows "n = int (length p) \<and> err = None \<and>
    length (bf_buffer b') = max (length (bf_buffer b)) (nat (bf_position b) + length p) \<and>
    (\<forall>i < length (bf_buffer b'). bf_buffer b' ! i =
       (if nat (bf_position b) \<le> i \<and> i < nat (bf_position b) + length p then p ! (i - nat (bf_position b))
        else if i < length (bf_buffer b) then bf_buffer b ! i else 0)) \<and>
    fst (bf_Read (length p) (snd (bf_Seek (bf_position b) 0 b'))) = (p, None) \<and>
    fst (bf_Read (length p) (snd (bf_Seek (- int (length p)) 1 b'))) = (p, None)"
proof -
  let ?pos = "nat (bf_position b)" and ?B = "bf_padded b"
  let ?buf = "take ?pos ?B @ p @ drop (?pos + length p) ?B"
  have w: "n = int (length p)" "err = None" "b' = b\<lparr>bf_buffer := ?buf, bf_position := bf_position b + int (length p)\<rparr>"
    using bf_Write_buffer[OF assms(1,3), of p] assms(2) by auto
  have B: "length ?B = max ?pos (length (bf_buffer b))" by (auto simp: bf_padded_def)
  have len: "length ?buf = max (length (bf_buffer b)) (?pos + length p)" using B by (simp add: max_def)
  have nth: "?buf ! i = (if ?pos \<le> i \<and> i < ?pos + length p then p ! (i - ?pos)
        else if i < length (bf_buffer b) then bf_buffer b ! i else 0)" if "i < length ?buf" for i
  proof -
    have "?buf ! i = (if ?pos \<le> i \<and> i < ?pos + length p then p ! (i - ?pos) else ?B ! i)"
      by (rule nth_overwritten) (use that B in auto)
    moreover have "?B ! i = (if i < length (bf_buffer b) then bf_buffer b ! i else 0)" if "i < length ?B"
      using that by (auto simp: bf_padded_def nth_append)
    moreover have "\<not> (?pos \<le> i \<and> i < ?pos + length p) \<Longrightarrow> i < length ?B" using that len B by (auto simp: max_def split: if_splits)
    ultimately show ?thesis by presburger
  qed
  have read: "fst (bf_Read (length p) (b'\<lparr>bf_position := bf_position b\<rparr>)) = (p, None)"
    using assms(1,3,5) len B w(3) by (simp add: bf_Read_def Let_def max_def split: if_splits)
  have "snd (bf_Seek (bf_position b) 0 b') = b'\<lparr>bf_position := bf_position b\<rparr>"
    using assms(1,3) w(3) by (simp add: bf_Seek_def Let_def)
  moreover have "snd (bf_Seek (- int (length p)) 1 b') = b'\<lparr>bf_position := bf_position b\<rparr>"
    using assms(1,3,4) w(3) int64_id[of "bf_position b"] by (simp add: bf_Seek_def Let_def)
  moreover have be: "bf_buffer b' = ?buf" by (simp add: w(3))
  ultimately show ?thesis using w(1,2) len nth read by (auto simp only: be)
qed

lemma bf_write_read_witness:
  "fst (bf_Read 2 (snd (bf_Seek 3 0 (snd (bf_Write [8, 9] \<lparr>bf_buffer = [1], bf_position = 3, bf_closed = False\<rparr>))))) = ([8, 9], None)"
proof -
  let ?b = "\<lparr>bf_buffer = [1], bf_position = 3, bf_closed = False\<rparr>"
  obtain n err b' where w: "bf_Write [8, 9] ?b = ((n, err), b')" by (metis prod.collapse)
  show ?thesis using bf_write_read[OF _ w] w by (simp add: numeral_2_eq_2)
qed

section \<open>Lockstep outputs\<close>

text \<open>
  Any interleaving of the operations of the outputs: a locked read, the update of the window by an output that found
  nothing more to read, and the close of an output. A \<^verbatim>\<open>Read\<close> looks whether its output is closed and takes the lock
  only later, so the reads and the updates of closed outputs are steps too; a step that panics is none. \<open>out\<close>
  collects what has been copied to the caller of each.
\<close>

inductive ls_reach :: "'w reader \<Rightarrow> int \<Rightarrow> int \<Rightarrow> 'w \<Rightarrow> lockstepSource \<times> 'w \<times> octet list list \<Rightarrow> bool" for rd k cap w0 where
  ls_init: "LockstepReaders k cap = Inr src \<Longrightarrow> ls_reach rd k cap w0 (src, w0, replicate (nat k) [])"
| ls_pull: "ls_reach rd k cap w0 (src, w, out) \<Longrightarrow> i < length (ls_outs src) \<Longrightarrow>
     lo_read i n src = Inr ((bs, err), src') \<Longrightarrow> ls_reach rd k cap w0 (src', w, out[i := out ! i @ bs])"
| ls_update: "ls_reach rd k cap w0 (src, w, out) \<Longrightarrow> i < length (ls_outs src) \<Longrightarrow>
     waitForWindowUpdate rd waiting src w = Some (Inr (what, src', w')) \<Longrightarrow> ls_reach rd k cap w0 (src', w', out)"
| ls_close: "ls_reach rd k cap w0 (src, w, out) \<Longrightarrow> i < length (ls_outs src) \<Longrightarrow> ls_reach rd k cap w0 (lo_Close i src, w, out)"

text \<open>\<open>stream\<close>: what has been read from the source since the readers were made.\<close>

definition ls_shape :: "int \<Rightarrow> octet list \<Rightarrow> lockstepSource \<Rightarrow> bool" where
  "ls_shape cap stream src \<longleftrightarrow>
     0 < cap \<and> ls_wcap src = cap \<and> int (length (ls_buffer src)) = cap \<and> 0 \<le> ls_wlen src \<and> ls_wlen src \<le> cap \<and>
     0 \<le> ls_index src \<and> ls_tail src = int (length stream) \<and> ls_window src = drop (nat (ls_index src)) stream"

definition lo_ok :: "octet list \<Rightarrow> int \<Rightarrow> lockstepOutput \<Rightarrow> octet list \<Rightarrow> bool" where
  "lo_ok stream base lo bs \<longleftrightarrow>
     0 \<le> lo_index lo \<and> lo_index lo \<le> int (length stream) \<and> bs = take (nat (lo_index lo)) stream \<and> (lo_done lo \<or> base \<le> lo_index lo)"

definition ls_inv :: "int \<Rightarrow> octet list \<Rightarrow> lockstepSource \<Rightarrow> octet list list \<Rightarrow> bool" where
  "ls_inv cap stream src out \<longleftrightarrow>
     ls_shape cap stream src \<and> list_all2 (lo_ok stream (ls_index src)) (ls_outs src) out \<and>
     (ls_err src = None \<longrightarrow> stream = [] \<or> ls_wlen src = cap)"

lemma ls_shapeD:
  assumes "ls_shape cap stream src"
  shows "0 < cap" "ls_wcap src = cap" "int (length (ls_buffer src)) = cap" "0 \<le> ls_wlen src" "ls_wlen src \<le> cap"
    "0 \<le> ls_index src" "ls_tail src = int (length stream)" "ls_window src = drop (nat (ls_index src)) stream"
  using assms unfolding ls_shape_def by - (elim conjE, assumption)+

lemma lo_ok_append: "lo_ok stream base lo bs \<Longrightarrow> lo_ok (stream @ new) base lo bs"
  by (auto simp: lo_ok_def)

lemma list_all2_lo_ok_append:
  "list_all2 (lo_ok stream base) los bss \<Longrightarrow> list_all2 (lo_ok (stream @ new) base) los bss"
  by (erule list_all2_mono) (rule lo_ok_append)

lemma most_behind_found:
  "(\<forall>out \<in> set outs. \<not> lo_done out \<longrightarrow> most_behind (Some i) outs \<le> lo_index out) \<and> most_behind (Some i) outs \<le> i \<and>
   (most_behind (Some i) outs = i \<or> (\<exists>out \<in> set outs. \<not> lo_done out \<and> most_behind (Some i) outs = lo_index out))"
proof (induction outs arbitrary: i)
  case (Cons out outs)
  define j where "j = (if lo_done out then i else if lo_index out < i then lo_index out else i)"
  have "most_behind (Some i) (out # outs) = most_behind (Some j) outs" by (simp add: j_def)
  moreover have "j \<le> i" "\<not> lo_done out \<Longrightarrow> j \<le> lo_index out" "j = i \<or> \<not> lo_done out \<and> j = lo_index out"
    by (auto simp: j_def)
  ultimately show ?case using Cons.IH[of j] by fastforce
qed simp

lemma most_behind_none:
  "(\<forall>out \<in> set outs. \<not> lo_done out \<longrightarrow> most_behind None outs \<le> lo_index out) \<and>
   ((\<exists>out \<in> set outs. \<not> lo_done out) \<longrightarrow> (\<exists>out \<in> set outs. \<not> lo_done out \<and> most_behind None outs = lo_index out))"
proof (induction outs)
  case (Cons out outs)
  show ?case
  proof (cases "lo_done out")
    case False
    then have "most_behind None (out # outs) = most_behind (Some (lo_index out)) outs" by simp
    then show ?thesis using most_behind_found[of outs "lo_index out"] False by fastforce
  qed (use Cons.IH in auto)
qed simp

text \<open>A read of the source extends the stream; the outputs stay as they are.\<close>

lemma fillBuffer_inv:
  assumes "io_source rd consumed" "ls_shape cap stream src" "fillBuffer rd src w = Some (src', w')"
  shows "\<exists>new. consumed w' = consumed w @ new \<and> ls_shape cap (stream @ new) src' \<and> ls_outs src' = ls_outs src \<and>
     ls_index src' = ls_index src \<and> (ls_err src' = None \<longrightarrow> ls_wlen src' = cap) \<and>
     (ls_err src \<noteq> None \<or> cap \<le> ls_wlen src \<longrightarrow> src' = src \<and> w' = w \<and> new = [])"
proof (cases "ls_wcap src \<le> ls_wlen src \<or> ls_err src \<noteq> None")
  case True
  then have "src' = src" "w' = w" using assms(3) by (auto simp: fillBuffer_def split: if_splits)
  then show ?thesis using True assms(2) ls_shapeD(2,5)[OF assms(2)] by (intro exI[of _ "[]"]) auto
next
  case False
  note inv = ls_shapeD[OF assms(2)]
  let ?len = "nat (ls_wlen src)"
  obtain bs err where r: "io_ReadFull rd (length (ls_buffer src) - ?len) w = Some ((bs, err), w')"
    and src': "src' = (let src1 = src\<lparr>ls_buffer := take ?len (ls_buffer src) @ bs @ drop (?len + length bs) (ls_buffer src),
                               ls_wlen := ls_wlen src + int (length bs)\<rparr>
                in if err = None then src1 else src1\<lparr>ls_err := (if err = Some ErrUnexpectedEOF then Some io_EOF else err)\<rparr>)"
    using assms(3) False by (auto simp: fillBuffer_def Let_def split: option.splits prod.splits)
  have c: "consumed w' = consumed w @ bs" "length bs \<le> length (ls_buffer src) - ?len"
      "err = None \<longleftrightarrow> length bs = length (ls_buffer src) - ?len"
    using io_source.ReadFull_consumes[OF assms(1) r] by auto
  have f: "ls_buffer src' = take ?len (ls_buffer src) @ bs @ drop (?len + length bs) (ls_buffer src)"
      "ls_wlen src' = ls_wlen src + int (length bs)" "ls_index src' = ls_index src" "ls_outs src' = ls_outs src"
      "ls_wcap src' = ls_wcap src" "ls_err src' = (if err = None then ls_err src else if err = Some ErrUnexpectedEOF then Some io_EOF else err)"
    unfolding src' by (simp_all add: Let_def)
  have len: "?len + length bs \<le> length (ls_buffer src)" using c(2) inv(3,4,5) by linarith
  have i: "nat (ls_index src) \<le> length stream" using inv(4,6,7) by (simp add: ls_tail_def)
  have "ls_window src' = take ?len (ls_buffer src) @ bs"
    using len inv(4) by (simp add: ls_window_def f nat_add_distrib)
  also have "take ?len (ls_buffer src) = drop (nat (ls_index src)) stream" using inv(8) by (simp only: ls_window_def)
  finally have wn: "ls_window src' = drop (nat (ls_index src')) (stream @ bs)" using i by (simp add: f(3))
  have l: "int (length (ls_buffer src')) = cap" "ls_wlen src' \<le> cap" "ls_tail src' = int (length (stream @ bs))"
    using len inv(3,4,7) by (simp_all add: f ls_tail_def)
  have "ls_shape cap (stream @ bs) src'"
    unfolding ls_shape_def using l wn inv(1,2,4,6) f(2,3,5) by simp
  moreover have "ls_err src' = None \<Longrightarrow> ls_wlen src' = cap"
    using c(3) inv(3,4) f(2,6) len by (cases err) (auto split: if_splits)
  ultimately show ?thesis using c(1) f(3,4) False inv(2) by (intro exI[of _ bs]) simp
qed

lemma shiftLeft_inv:
  assumes "ls_shape cap stream src" "0 \<le> n" "n \<le> ls_wlen src"
  shows "\<exists>src'. shiftLeft src n = Inr src' \<and> ls_shape cap stream src' \<and> ls_outs src' = ls_outs src \<and>
     ls_index src' = ls_index src + n \<and> ls_wlen src' = ls_wlen src - n \<and> ls_err src' = ls_err src"
proof -
  note inv = ls_shapeD[OF assms(1)]
  let ?buf = "drop (nat n) (ls_buffer src) @ replicate (nat n) 0"
  let ?src = "src\<lparr>ls_buffer := ?buf, ls_wlen := ls_wlen src - n, ls_index := ls_index src + n\<rparr>"
  have "shiftLeft src n = Inr (if n = 0 then src else ?src)"
    using assms(2,3) inv(2,3,5) by (simp add: shiftLeft_def)
  moreover have "n = 0 \<Longrightarrow> ?src = src" by simp
  moreover have "ls_shape cap stream ?src"
  proof -
    have "take (nat (ls_wlen src - n)) ?buf = drop (nat n) (take (nat (ls_wlen src)) (ls_buffer src))"
      using assms(2,3) inv(3,5) by (simp add: nat_diff_distrib drop_take)
    also have "\<dots> = drop (nat (ls_index src + n)) stream"
      using inv(6,8) assms(2) by (simp add: ls_window_def nat_add_distrib add.commute)
    finally show ?thesis
      unfolding ls_shape_def using assms(2,3) inv(1-7) by (simp add: ls_window_def ls_tail_def)
  qed
  ultimately show ?thesis by (cases "n = 0") auto
qed

lemma list_all2_lo_ok_base:
  assumes "list_all2 (lo_ok stream base) los bss" "\<forall>lo \<in> set los. lo_done lo \<or> base' \<le> lo_index lo"
  shows "list_all2 (lo_ok stream base') los bss"
  using assms by (auto simp: list_all2_conv_all_nth lo_ok_def)

text \<open>With an open output the distance to advance is the one to the open output that is the most behind.\<close>

lemma advancebleIndexDistance_cases:
  assumes "list_all2 (lo_ok stream (ls_index src)) (ls_outs src) out" "lo \<in> set (ls_outs src)" "\<not> lo_done lo" "ls_err src = None"
  shows "\<exists>lo' \<in> set (ls_outs src). \<not> lo_done lo' \<and> advancebleIndexDistance src = lo_index lo' - ls_index src"
    and "\<forall>lo' \<in> set (ls_outs src). \<not> lo_done lo' \<longrightarrow> advancebleIndexDistance src \<le> lo_index lo' - ls_index src"
    and "0 \<le> advancebleIndexDistance src"
proof -
  note m = most_behind_none[of "ls_outs src"]
  show 1: "\<exists>lo' \<in> set (ls_outs src). \<not> lo_done lo' \<and> advancebleIndexDistance src = lo_index lo' - ls_index src"
    using m assms(2-4) by (auto simp: advancebleIndexDistance_def)
  show "\<forall>lo' \<in> set (ls_outs src). \<not> lo_done lo' \<longrightarrow> advancebleIndexDistance src \<le> lo_index lo' - ls_index src"
    using m assms(4) by (auto simp: advancebleIndexDistance_def)
  have "lo_done lo' \<or> ls_index src \<le> lo_index lo'" if "lo' \<in> set (ls_outs src)" for lo'
    using assms(1) that by (auto simp: list_all2_conv_all_nth lo_ok_def in_set_conv_nth)
  then show "0 \<le> advancebleIndexDistance src" using 1 by fastforce
qed

text \<open>
  An advance by an open output does not panic; when it has not moved anything, an open output has bytes to
  read, or the source ended before its first byte.
\<close>

lemma ls_advance_inv:
  assumes s: "io_source rd consumed" and i: "ls_inv cap stream src out" and lo: "lo \<in> set (ls_outs src)" "\<not> lo_done lo"
    and a: "ls_advance rd src w = Some r"
  shows "\<exists>b src' w' new. r = Inr (b, src', w') \<and> consumed w' = consumed w @ new \<and> ls_inv cap (stream @ new) src' out \<and>
     ls_outs src' = ls_outs src \<and>
     (\<not> b \<longrightarrow> ls_err src = None \<longrightarrow> (\<exists>lo' \<in> set (ls_outs src). \<not> lo_done lo' \<and> lo_index lo' < ls_tail src') \<or>
        stream @ new = [] \<and> ls_err src' \<noteq> None)"
proof -
  have sh: "ls_shape cap stream src" and all: "list_all2 (lo_ok stream (ls_index src)) (ls_outs src) out"
    and full: "ls_err src = None \<Longrightarrow> stream = [] \<or> ls_wlen src = cap"
    using i by (auto simp: ls_inv_def)
  obtain src1 w1 where f: "fillBuffer rd src w = Some (src1, w1)"
    using a by (auto simp: ls_advance_def Let_def split: option.splits)
  obtain new1 where 1: "consumed w1 = consumed w @ new1" "ls_shape cap (stream @ new1) src1" "ls_outs src1 = ls_outs src"
      "ls_index src1 = ls_index src" "ls_err src1 = None \<longrightarrow> ls_wlen src1 = cap"
      "ls_err src \<noteq> None \<or> cap \<le> ls_wlen src \<longrightarrow> src1 = src \<and> w1 = w \<and> new1 = []"
    using fillBuffer_inv[OF s sh f] by (elim exE conjE) (rule that)
  have all1: "list_all2 (lo_ok (stream @ new1) (ls_index src1)) (ls_outs src1) out"
    using list_all2_lo_ok_append[OF all] 1(3,4) by simp
  have tails: "ls_tail src = int (length stream)" "ls_tail src1 = int (length (stream @ new1))"
    using ls_shapeD(7)[OF sh] ls_shapeD(7)[OF 1(2)] by simp_all
  have lo1: "lo \<in> set (ls_outs src1)" using lo(1) 1(3) by simp
  let ?d = "min (advancebleIndexDistance src1) (ls_wlen src1)"
  have d0: "0 \<le> ?d"
    using advancebleIndexDistance_cases(3)[OF all1 lo1 lo(2)] ls_shapeD(4)[OF 1(2)]
    by (cases "ls_err src1") (auto simp: advancebleIndexDistance_def)
  show ?thesis
  proof (cases "?d = 0")
    case True
    then have r: "r = Inr (ls_tail src < ls_tail src1, src1, w1)" using a f by (simp add: ls_advance_def Let_def)
    have inv1: "ls_inv cap (stream @ new1) src1 out" using 1(2,5) all1 by (simp add: ls_inv_def)
    have "(\<exists>lo' \<in> set (ls_outs src). \<not> lo_done lo' \<and> lo_index lo' < ls_tail src1) \<or> stream @ new1 = [] \<and> ls_err src1 \<noteq> None"
      if n: "\<not> ls_tail src < ls_tail src1" and e: "ls_err src = None"
    proof (cases "ls_err src1 = None")
      case True
      then have "advancebleIndexDistance src1 = 0"
        using \<open>?d = 0\<close> 1(5) ls_shapeD(1)[OF 1(2)] by (simp add: min_def split: if_splits)
      with advancebleIndexDistance_cases(1)[OF all1 lo1 lo(2) True] 1(3) obtain lo'
        where "lo' \<in> set (ls_outs src)" "\<not> lo_done lo'" "lo_index lo' = ls_index src1" by auto
      moreover have "ls_index src1 < ls_tail src1" using mp[OF 1(5) True] ls_shapeD(1)[OF 1(2)] by (simp add: ls_tail_def)
      ultimately show ?thesis by auto
    next
      case False
      have "new1 = []" using n tails by simp
      moreover have "\<not> cap \<le> ls_wlen src" using 1(6) e False by auto
      ultimately show ?thesis using full[OF e] False by auto
    qed
    then have imp: "\<not> ls_tail src < ls_tail src1 \<longrightarrow> ls_err src = None \<longrightarrow>
        (\<exists>lo' \<in> set (ls_outs src). \<not> lo_done lo' \<and> lo_index lo' < ls_tail src1) \<or> stream @ new1 = [] \<and> ls_err src1 \<noteq> None"
      by blast
    show ?thesis
      by (rule exI[of _ "ls_tail src < ls_tail src1"], rule exI[of _ src1], rule exI[of _ w1], rule exI[of _ new1], intro conjI)
         (fact r 1(1,3) inv1 imp)+
  next
    case False
    obtain src2 where 2: "shiftLeft src1 ?d = Inr src2" "ls_shape cap (stream @ new1) src2" "ls_outs src2 = ls_outs src1"
        "ls_index src2 = ls_index src1 + ?d" "ls_err src2 = ls_err src1"
      using shiftLeft_inv[OF 1(2) d0] by (metis min.cobounded2)
    obtain src3 w3 where f3: "fillBuffer rd src2 w1 = Some (src3, w3)" and r: "r = Inr (True, src3, w3)"
      using a f False 2(1) by (auto simp: ls_advance_def Let_def split: option.splits)
    obtain new2 where 3: "consumed w3 = consumed w1 @ new2" "ls_shape cap ((stream @ new1) @ new2) src3" "ls_outs src3 = ls_outs src2"
        "ls_index src3 = ls_index src2" "ls_err src3 = None \<longrightarrow> ls_wlen src3 = cap"
      using fillBuffer_inv[OF s 2(2) f3] by (elim exE conjE) (rule that)
    have e1: "ls_err src1 = None" using False ls_shapeD(4)[OF 1(2)]
      by (cases "ls_err src1") (auto simp: advancebleIndexDistance_def min_def)
    have "ls_index src3 \<le> ls_index src1 + advancebleIndexDistance src1" using 2(4) 3(4) by simp
    then have "\<forall>lo' \<in> set (ls_outs src1). lo_done lo' \<or> ls_index src3 \<le> lo_index lo'"
      using advancebleIndexDistance_cases(2)[OF all1 lo1 lo(2) e1] by fastforce
    then have "list_all2 (lo_ok ((stream @ new1) @ new2) (ls_index src3)) (ls_outs src3) out"
      using list_all2_lo_ok_base[OF list_all2_lo_ok_append[OF all1]] 2(3) 3(3) by simp
    then have "ls_inv cap (stream @ new1 @ new2) src3 out" using 3(2,5) by (simp add: ls_inv_def)
    moreover have "consumed w3 = consumed w @ new1 @ new2" using 1(1) 3(1) by simp
    moreover have "ls_outs src3 = ls_outs src" using 1(3) 2(3) 3(3) by simp
    ultimately show ?thesis using r
      by (intro exI[of _ True] exI[of _ src3] exI[of _ w3] exI[of _ "new1 @ new2"] conjI) simp_all
  qed
qed

text \<open>
  Without an open output the distance is counted from the zero index: the update panics once the window has moved,
  and until then it leaves the window where it is.
\<close>

lemma most_behind_closed: "\<forall>lo \<in> set outs. lo_done lo \<Longrightarrow> most_behind None outs = 0"
  by (induction outs) simp_all

lemma shiftLeft_negative:
  assumes "ls_shape cap stream src" "n < 0" shows "shiftLeft src n = Inl ''slice bounds out of range''"
  using assms(2) ls_shapeD(1-4)[OF assms(1)] by (simp add: shiftLeft_def)

lemma ls_advance_closed:
  assumes s: "io_source rd consumed" and i: "ls_inv cap stream src out" and closed: "\<forall>lo \<in> set (ls_outs src). lo_done lo"
    and a: "ls_advance rd src w = Some r"
  shows "(\<exists>p. r = Inl p \<and> 0 < ls_index src) \<or>
     (\<exists>b src' w' new. r = Inr (b, src', w') \<and> consumed w' = consumed w @ new \<and> ls_inv cap (stream @ new) src' out \<and>
        ls_outs src' = ls_outs src)"
proof -
  have sh: "ls_shape cap stream src" and all: "list_all2 (lo_ok stream (ls_index src)) (ls_outs src) out"
    using i by (auto simp: ls_inv_def)
  obtain src1 w1 where f: "fillBuffer rd src w = Some (src1, w1)"
    using a by (auto simp: ls_advance_def Let_def split: option.splits)
  obtain new where 1: "consumed w1 = consumed w @ new" "ls_shape cap (stream @ new) src1" "ls_outs src1 = ls_outs src"
      "ls_index src1 = ls_index src" "ls_err src1 = None \<longrightarrow> ls_wlen src1 = cap"
      "ls_err src \<noteq> None \<or> cap \<le> ls_wlen src \<longrightarrow> src1 = src \<and> w1 = w \<and> new = []"
    using fillBuffer_inv[OF s sh f] by (elim exE conjE) (rule that)
  have "list_all2 (lo_ok (stream @ new) (ls_index src1)) (ls_outs src1) out"
    using list_all2_lo_ok_append[OF all] 1(3,4) by simp
  then have inv: "ls_inv cap (stream @ new) src1 out" using 1(2,5) by (simp add: ls_inv_def)
  let ?d = "min (advancebleIndexDistance src1) (ls_wlen src1)"
  have d: "advancebleIndexDistance src1 = (if ls_err src1 \<noteq> None then 0 else - ls_index src)"
    using most_behind_closed[OF closed] 1(3,4) by (simp add: advancebleIndexDistance_def)
  have pos: "0 \<le> ls_index src" "0 \<le> ls_wlen src1" using ls_shapeD(6)[OF sh] ls_shapeD(4)[OF 1(2)] by simp_all
  show ?thesis
  proof (cases "?d = 0")
    case True
    then have "r = Inr (ls_tail src < ls_tail src1, src1, w1)" using a f by (simp add: ls_advance_def Let_def)
    then show ?thesis using 1(1,3) inv by blast
  next
    case False
    then have neg: "?d < 0" "0 < ls_index src" using d pos by (auto simp: min_def split: if_splits)
    then have le: "advancebleIndexDistance src1 \<le> ls_wlen src1" "?d = advancebleIndexDistance src1"
      using pos(2) by (auto simp: min_def split: if_splits)
    then have "r = Inl ''slice bounds out of range''"
      using a f False shiftLeft_negative[OF 1(2) neg(1)] by (simp add: ls_advance_def Let_def)
    then show ?thesis using neg(2) by blast
  qed
qed

text \<open>What an update may wait for; \<open>fresh\<close>: nothing has been read from the source.\<close>

definition ls_waits_for :: "bool \<Rightarrow> lockstepSource \<Rightarrow> bool" where
  "ls_waits_for fresh src \<longleftrightarrow>
     (\<exists>lo \<in> set (ls_outs src). \<not> lo_done lo \<and> lo_index lo < ls_tail src) \<or> fresh \<and> ls_err src \<noteq> None \<or>
     (\<forall>lo \<in> set (ls_outs src). lo_done lo)"

lemma waitForWindowUpdate_inv:
  assumes s: "io_source rd consumed" and i: "ls_inv cap stream src out" and u: "waitForWindowUpdate rd waiting src w = Some r"
  shows "(\<exists>p. r = Inl p \<and> 0 < ls_index src \<and> (\<forall>lo \<in> set (ls_outs src). lo_done lo)) \<or>
     (\<exists>wakes waits src' w' new. r = Inr ((wakes, waits), src', w') \<and> consumed w' = consumed w @ new \<and>
     ls_inv cap (stream @ new) src' out \<and> ls_outs src' = ls_outs src \<and>
     (waits \<longrightarrow> ls_err src = None \<and> (waiting = ls_readersLen src' - 1 \<longrightarrow> wakes) \<and> ls_waits_for (stream @ new = []) src'))"
proof (cases "ls_err src = None")
  case False
  then have "r = Inr ((True, False), src, w)" using u by (simp add: waitForWindowUpdate_def)
  then have "\<exists>wakes waits src' w' new. r = Inr ((wakes, waits), src', w') \<and> consumed w' = consumed w @ new \<and>
     ls_inv cap (stream @ new) src' out \<and> ls_outs src' = ls_outs src \<and> \<not> waits"
    using i by (intro exI[of _ True] exI[of _ False] exI[of _ src] exI[of _ w] exI[of _ "[]"]) simp
  then show ?thesis by blast
next
  case True
  obtain ra where a: "ls_advance rd src w = Some ra"
    using u True by (auto simp: waitForWindowUpdate_def split: option.splits)
  have cases: "(\<exists>p. ra = Inl p \<and> 0 < ls_index src \<and> (\<forall>lo \<in> set (ls_outs src). lo_done lo)) \<or>
     (\<exists>b src' w' new. ra = Inr (b, src', w') \<and> consumed w' = consumed w @ new \<and> ls_inv cap (stream @ new) src' out \<and>
        ls_outs src' = ls_outs src \<and> (\<not> b \<longrightarrow> ls_waits_for (stream @ new = []) src'))"
  proof (cases "\<forall>lo \<in> set (ls_outs src). lo_done lo")
    case closed: True
    then show ?thesis using ls_advance_closed[OF s i closed a] by (fastforce simp: ls_waits_for_def)
  next
    case False
    then obtain lo where lo: "lo \<in> set (ls_outs src)" "\<not> lo_done lo" by blast
    obtain b src' w' new where 1: "ra = Inr (b, src', w')" "consumed w' = consumed w @ new" "ls_inv cap (stream @ new) src' out"
        "ls_outs src' = ls_outs src" "\<not> b \<longrightarrow> ls_err src = None \<longrightarrow>
          (\<exists>lo' \<in> set (ls_outs src). \<not> lo_done lo' \<and> lo_index lo' < ls_tail src') \<or> stream @ new = [] \<and> ls_err src' \<noteq> None"
      using ls_advance_inv[OF s i lo a] by (elim exE conjE) (rule that)
    have "\<not> b \<longrightarrow> ls_waits_for (stream @ new = []) src'" using 1(4,5) True unfolding ls_waits_for_def by auto
    then show ?thesis using 1(1-4) by blast
  qed
  then show ?thesis
  proof (elim disjE exE conjE)
    fix p assume "ra = Inl p" "0 < ls_index src" "\<forall>lo \<in> set (ls_outs src). lo_done lo"
    then show ?thesis using u True a by (auto simp: waitForWindowUpdate_def)
  next
    fix b src' w' new
    assume 1: "ra = Inr (b, src', w')" "consumed w' = consumed w @ new" "ls_inv cap (stream @ new) src' out"
      "ls_outs src' = ls_outs src" "\<not> b \<longrightarrow> ls_waits_for (stream @ new = []) src'"
    have r: "r = Inr ((b \<or> waiting = ls_readersLen src' - 1, \<not> b), src', w')"
      using u True a 1(1) by (cases b) (simp_all add: waitForWindowUpdate_def)
    have imp: "\<not> b \<longrightarrow> ls_err src = None \<and> (waiting = ls_readersLen src' - 1 \<longrightarrow> b \<or> waiting = ls_readersLen src' - 1) \<and>
        ls_waits_for (stream @ new = []) src'"
      using 1(5) True by simp
    show ?thesis
      by (rule disjI2, rule exI[of _ "b \<or> waiting = ls_readersLen src' - 1"], rule exI[of _ "\<not> b"], rule exI[of _ src'],
          rule exI[of _ w'], rule exI[of _ new], intro conjI) (fact r 1(2-4) imp)+
  qed
qed

text \<open>A locked read of an output that is not behind the window; the others are closed, and their read panics.\<close>

lemma lo_pull_behind: "lo_index (ls_outs src ! i) < ls_index src \<Longrightarrow> lo_pull i n src = Inl ''slice bounds out of range''"
  by (simp add: lo_pull_def Let_def)

lemma lo_pull_inv:
  assumes i: "ls_inv cap stream src out" and k: "i < length (ls_outs src)" "ls_index src \<le> lo_index (ls_outs src ! i)"
  shows "\<exists>bs src'. lo_pull i n src = Inr (bs, src') \<and> ls_inv cap stream src' (out[i := out ! i @ bs]) \<and>
     length (ls_outs src') = length (ls_outs src) \<and> length bs \<le> n \<and> ls_err src' = ls_err src \<and>
     out ! i @ bs = take (nat (lo_index (ls_outs src' ! i))) stream \<and> 0 \<le> lo_index (ls_outs src' ! i) \<and>
     (bs = [] \<longrightarrow> 0 < n \<longrightarrow> lo_index (ls_outs src ! i) = ls_tail src)"
proof -
  note sh = ls_shapeD[of cap stream src]
  have s: "ls_shape cap stream src" and all: "list_all2 (lo_ok stream (ls_index src)) (ls_outs src) out"
    using i by (auto simp: ls_inv_def)
  let ?o = "ls_outs src ! i" and ?start = "nat (lo_index (ls_outs src ! i) - ls_index src)"
  have ok: "lo_ok stream (ls_index src) ?o (out ! i)" using all k(1) by (auto simp: list_all2_conv_all_nth)
  have idx: "ls_index src \<le> lo_index ?o" "lo_index ?o \<le> int (length stream)" "out ! i = take (nat (lo_index ?o)) stream" "0 \<le> lo_index ?o"
    using ok k(2) by (auto simp: lo_ok_def)
  have ol: "length out = length (ls_outs src)" using all by (simp add: list_all2_lengthD)
  have win: "ls_window src = drop (nat (ls_index src)) stream" using sh(8)[OF s] .
  have cur: "drop ?start (ls_window src) = drop (nat (lo_index ?o)) stream"
    using idx(1) sh(6)[OF s] by (simp add: win nat_diff_distrib)
  have wl: "\<not> int (length (ls_window src)) < lo_index ?o - ls_index src" using idx(1,2) sh(6)[OF s] by (simp add: win)
  define bs where "bs = take n (drop (nat (lo_index ?o)) stream)"
  define src' where "src' = src\<lparr>ls_outs := (ls_outs src)[i := ?o\<lparr>lo_index := lo_index ?o + int (length bs)\<rparr>]\<rparr>"
  have same: "bs = [] \<Longrightarrow> src' = src" by (simp add: src'_def)
  have pull: "lo_pull i n src = Inr (bs, src')"
    using wl idx(1) cur same by (auto simp: lo_pull_def Let_def bs_def src'_def)
  have tk: "take (nat (lo_index ?o)) stream @ bs = take (nat (lo_index ?o + int (length bs))) stream"
    using idx(4) by (auto simp: bs_def nat_add_distrib take_add min_def)
  have le: "lo_index ?o + int (length bs) \<le> int (length stream)" using idx(2,4) by (simp add: bs_def)
  have "lo_ok stream (ls_index src) (?o\<lparr>lo_index := lo_index ?o + int (length bs)\<rparr>) (out ! i @ bs)"
    using idx tk le by (simp add: lo_ok_def)
  then have "list_all2 (lo_ok stream (ls_index src)) (ls_outs src') (out[i := out ! i @ bs])"
    using list_all2_update_cong[OF all] by (simp add: src'_def)
  moreover have "ls_shape cap stream src'" using s by (simp add: ls_shape_def src'_def ls_tail_def ls_window_def)
  ultimately have "ls_inv cap stream src' (out[i := out ! i @ bs])" using i by (simp add: ls_inv_def src'_def)
  moreover have ix: "lo_index (ls_outs src' ! i) = lo_index ?o + int (length bs)" using k(1) by (simp add: src'_def)
  moreover have "out ! i @ bs = take (nat (lo_index (ls_outs src' ! i))) stream" using tk idx(3) ix by (simp only:)
  moreover have "0 \<le> lo_index (ls_outs src' ! i)" using ix idx(4) by simp
  moreover have "length bs \<le> n" by (simp add: bs_def)
  moreover have "length (ls_outs src') = length (ls_outs src)" "ls_err src' = ls_err src" by (simp_all add: src'_def)
  moreover have "bs = [] \<Longrightarrow> 0 < n \<Longrightarrow> lo_index ?o = ls_tail src"
    using idx(2,4) sh(7)[OF s] by (auto simp: bs_def)
  ultimately show ?thesis using pull by blast
qed

section \<open>What the outputs deliver\<close>

lemma ls_NewOutput_iter:
  "(ls_NewOutput ^^ n) (newLockstepSource cap) = (newLockstepSource cap)\<lparr>ls_outs := replicate n \<lparr>lo_index = 0, lo_done = False\<rparr>\<rparr>"
  by (induction n) (simp_all add: ls_NewOutput_def newLockstepSource_def replicate_append_same)

lemma LockstepReaders_inv:
  assumes "LockstepReaders k cap = Inr src" shows "ls_inv cap [] src (replicate (nat k) [])"
proof -
  have c: "0 < cap" and src: "src = (newLockstepSource cap)\<lparr>ls_outs := replicate (nat k) \<lparr>lo_index = 0, lo_done = False\<rparr>\<rparr>"
    using assms by (auto simp: LockstepReaders_def ls_NewOutput_iter split: if_splits)
  have "list_all2 (lo_ok [] 0) (replicate (nat k) \<lparr>lo_index = 0, lo_done = False\<rparr>) (replicate (nat k) [])"
    by (simp add: list_all2_conv_all_nth lo_ok_def)
  then show ?thesis using c
    by (simp add: ls_inv_def ls_shape_def src newLockstepSource_def ls_tail_def ls_window_def)
qed

lemma lo_read_inv:
  assumes i: "ls_inv cap stream src out" and k: "i < length (ls_outs src)" "ls_index src \<le> lo_index (ls_outs src ! i)"
  shows "\<exists>bs err src'. lo_read i n src = Inr ((bs, err), src') \<and> ls_inv cap stream src' (out[i := out ! i @ bs]) \<and>
     length (ls_outs src') = length (ls_outs src) \<and> length bs \<le> n \<and>
     (err \<noteq> None \<longrightarrow> err = ls_err src \<and> out ! i @ bs = stream) \<and>
     (bs = [] \<longrightarrow> 0 < n \<longrightarrow> lo_index (ls_outs src ! i) = ls_tail src)"
proof -
  obtain bs src' where p: "lo_pull i n src = Inr (bs, src')" "ls_inv cap stream src' (out[i := out ! i @ bs])"
      "length (ls_outs src') = length (ls_outs src)" "length bs \<le> n" "ls_err src' = ls_err src"
      "out ! i @ bs = take (nat (lo_index (ls_outs src' ! i))) stream" "0 \<le> lo_index (ls_outs src' ! i)"
      "bs = [] \<longrightarrow> 0 < n \<longrightarrow> lo_index (ls_outs src ! i) = ls_tail src"
    using lo_pull_inv[OF i k, of n] by (elim exE conjE) (rule that)
  have t: "ls_tail src' = int (length stream)" using p(2) by (auto simp: ls_inv_def dest: ls_shapeD(7))
  have "isSourceFinished i src' \<Longrightarrow> out ! i @ bs = stream" using p(6) t by (simp add: isSourceFinished_def)
  then show ?thesis using p(1-5,8) by (auto simp: lo_read_def isSourceFinished_def)
qed

lemma lo_Close_inv: "ls_inv cap stream src out \<Longrightarrow> i < length (ls_outs src) \<Longrightarrow> ls_inv cap stream (lo_Close i src) out"
  by (auto simp: ls_inv_def ls_shape_def lo_Close_def ls_tail_def ls_window_def list_all2_conv_all_nth lo_ok_def nth_list_update)

lemma ls_reach_inv:
  assumes "io_source rd consumed" "ls_reach rd k cap w0 (src, w, out)"
  shows "\<exists>stream. consumed w = consumed w0 @ stream \<and> ls_inv cap stream src out"
  using assms(2)
proof (induction "(src, w, out)" arbitrary: src w out)
  case (ls_init src)
  then show ?case using LockstepReaders_inv by (intro exI[of _ "[]"]) simp
next
  case (ls_pull src w out i n bs err src')
  then obtain stream where s: "consumed w = consumed w0 @ stream" "ls_inv cap stream src out" by blast
  have "ls_index src \<le> lo_index (ls_outs src ! i)"
    using ls_pull(4) lo_pull_behind[of src i n] by (cases "lo_index (ls_outs src ! i) < ls_index src") (simp_all add: lo_read_def)
  then show ?case using lo_read_inv[OF s(2) ls_pull(3), of n] ls_pull(4) s(1) by auto
next
  case (ls_update src w out i waiting what src' w')
  then obtain stream where s: "consumed w = consumed w0 @ stream" "ls_inv cap stream src out" by blast
  have "\<exists>new. consumed w' = consumed w @ new \<and> ls_inv cap (stream @ new) src' out"
    using waitForWindowUpdate_inv[OF assms(1) s(2) ls_update(4)] by (elim disjE exE conjE) (cases what, auto)+
  then show ?case using s(1) by auto
next
  case (ls_close src w out i)
  then show ?case using lo_Close_inv by blast
qed

lemma ls_inv_open: "ls_inv cap stream src out \<Longrightarrow> i < length (ls_outs src) \<Longrightarrow> \<not> lo_done (ls_outs src ! i) \<Longrightarrow>
    ls_index src \<le> lo_index (ls_outs src ! i)"
  by (auto simp: ls_inv_def list_all2_conv_all_nth lo_ok_def)

text \<open>C38: Lockstep readers show every output the same stream. Whatever the outputs do in whatever order, closing them while
  they read included, what has been copied to the caller of an output, open or closed, is the beginning of what was read
  from the source, in order, without a gap or a repetition; the locked read of an open output does not panic, delivers at
  most what was asked for, continues that stream, and reports an error only at its end, the error of the source; and
  at most the window is kept in memory.\<close>

theorem lockstep_same_stream:
  assumes "io_source rd consumed" "ls_reach rd k cap w0 (src, w, out)"
  shows "\<exists>stream. consumed w = consumed w0 @ stream \<and> length out = length (ls_outs src) \<and>
     (\<forall>bs \<in> set out. \<exists>rest. stream = bs @ rest) \<and>
     (\<forall>i < length out. \<not> lo_done (ls_outs src ! i) \<longrightarrow>
        (\<exists>bs err src' rest. lo_read i n src = Inr ((bs, err), src') \<and> length bs \<le> n \<and> stream = out ! i @ bs @ rest \<and>
           (err \<noteq> None \<longrightarrow> err = ls_err src \<and> rest = []))) \<and>
     ls_wlen src \<le> cap \<and> int (length (ls_buffer src)) = cap"
proof -
  obtain stream where s: "consumed w = consumed w0 @ stream" "ls_inv cap stream src out"
    using ls_reach_inv[OF assms] by blast
  have prefix: "\<exists>rest. stream = out' ! i @ rest" if "ls_inv cap stream src' out'" "i < length out'" for src' out' i
  proof -
    have "out' ! i = take (nat (lo_index (ls_outs src' ! i))) stream"
      using that by (auto simp: ls_inv_def list_all2_conv_all_nth lo_ok_def)
    then show ?thesis by (metis append_take_drop_id)
  qed
  have len: "length out = length (ls_outs src)" using s(2) by (auto simp: ls_inv_def dest: list_all2_lengthD)
  have "\<exists>bs err src' rest. lo_read i n src = Inr ((bs, err), src') \<and> length bs \<le> n \<and> stream = out ! i @ bs @ rest \<and>
      (err \<noteq> None \<longrightarrow> err = ls_err src \<and> rest = [])" if i: "i < length out" "\<not> lo_done (ls_outs src ! i)" for i
  proof -
    have il: "i < length (ls_outs src)" using i(1) len by simp
    obtain bs err src' where r: "lo_read i n src = Inr ((bs, err), src')" "ls_inv cap stream src' (out[i := out ! i @ bs])"
        "length bs \<le> n" "err \<noteq> None \<longrightarrow> err = ls_err src \<and> out ! i @ bs = stream"
      using lo_read_inv[OF s(2) il ls_inv_open[OF s(2) il i(2)], of n] by (elim exE conjE) (rule that)
    obtain rest where "stream = (out ! i @ bs) @ rest" using prefix[OF r(2), of i] i(1) by auto
    then show ?thesis using r(1,3,4) by auto
  qed
  moreover have "\<forall>bs \<in> set out. \<exists>rest. stream = bs @ rest" using prefix[OF s(2)] by (auto simp: in_set_conv_nth)
  moreover have "ls_wlen src \<le> cap" "int (length (ls_buffer src)) = cap" using s(2) ls_shapeD(3,5) by (auto simp: ls_inv_def)
  ultimately show ?thesis using s(1) len by blast
qed







text \<open>
  An output with a window of one byte reads a source of three. After the update and the read of the first byte it is closed by
  another goroutine; its \<^verbatim>\<open>Read\<close>, which wants more, updates the window and waits, with no output left to wake it.
  After the second byte the same close makes the update panic.
\<close>

definition one_lockstep :: "octet \<Rightarrow> int \<Rightarrow> int \<Rightarrow> bool \<Rightarrow> lockstepSource" where
  "one_lockstep b base index closed =
     \<lparr>ls_err = None, ls_wlen = 1, ls_wcap = 1, ls_buffer = [b], ls_index = base, ls_outs = [\<lparr>lo_index = index, lo_done = closed\<rparr>]\<rparr>"

abbreviation three_bytes :: "int \<Rightarrow> Buffer" where
  "three_bytes i \<equiv> \<lparr>bf_buffer = [7, 8, 9], bf_position = i, bf_closed = False\<rparr>"

lemmas one_lockstep_simps = one_lockstep_def waitForWindowUpdate_def ls_advance_def fillBuffer_def shiftLeft_def
  advancebleIndexDistance_def ls_tail_def ls_window_def ls_readersLen_def lo_read_def lo_pull_def isSourceFinished_def lo_Close_def

lemma ReadFull_one: "bf_Read 1 w = (([b], None), w') \<Longrightarrow> io_ReadFull bf_Read 1 w = Some (([b], None), w')"
  unfolding io_ReadFull_def by (subst read_at_least.simps, simp, subst read_at_least.simps, simp)

lemma one_lockstep_reach:
  "ls_reach bf_Read 1 1 (three_bytes 0) (one_lockstep 7 0 1 False, three_bytes 1, [[7]])"
  "ls_reach bf_Read 1 1 (three_bytes 0) (one_lockstep 8 1 2 False, three_bytes 2, [[7, 8]])"
proof -
  let ?s0 = "\<lparr>ls_err = None, ls_wlen = 0, ls_wcap = 1, ls_buffer = [0], ls_index = 0, ls_outs = [\<lparr>lo_index = 0, lo_done = False\<rparr>]\<rparr>"
  have f: "io_ReadFull bf_Read (Suc 0) (three_bytes 0) = Some (([7], None), three_bytes 1)"
      "io_ReadFull bf_Read (Suc 0) (three_bytes 1) = Some (([8], None), three_bytes 2)"
    using ReadFull_one[of "three_bytes 0" 7 "three_bytes 1"] ReadFull_one[of "three_bytes 1" 8 "three_bytes 2"]
    by (simp_all add: bf_Read_def Let_def)
  have 0: "LockstepReaders 1 1 = Inr ?s0" by (simp add: LockstepReaders_def ls_NewOutput_def newLockstepSource_def)
  have 1: "waitForWindowUpdate bf_Read 0 ?s0 (three_bytes 0) = Some (Inr ((True, False), one_lockstep 7 0 0 False, three_bytes 1))"
    using f(1) by (simp add: one_lockstep_simps Let_def)
  have 2: "lo_read 0 2 (one_lockstep 7 0 0 False) = Inr (([7], None), one_lockstep 7 0 1 False)"
    by (simp add: one_lockstep_simps Let_def)
  have 3: "waitForWindowUpdate bf_Read 0 (one_lockstep 7 0 1 False) (three_bytes 1) =
      Some (Inr ((True, False), one_lockstep 8 1 1 False, three_bytes 2))"
    using f(2) by (simp add: one_lockstep_simps Let_def)
  have 4: "lo_read 0 2 (one_lockstep 8 1 1 False) = Inr (([8], None), one_lockstep 8 1 2 False)"
    by (simp add: one_lockstep_simps Let_def)
  have r0: "ls_reach bf_Read 1 1 (three_bytes 0) (?s0, three_bytes 0, [[]])"
    using ls_init[OF 0, of bf_Read "three_bytes 0"] by simp
  have r1: "ls_reach bf_Read 1 1 (three_bytes 0) (one_lockstep 7 0 0 False, three_bytes 1, [[]])"
    by (rule ls_update[OF r0 _ 1, where i = 0]) simp
  show r2: "ls_reach bf_Read 1 1 (three_bytes 0) (one_lockstep 7 0 1 False, three_bytes 1, [[7]])"
    using ls_pull[OF r1 _ 2] by (simp add: one_lockstep_def)
  have r3: "ls_reach bf_Read 1 1 (three_bytes 0) (one_lockstep 8 1 1 False, three_bytes 2, [[7]])"
    by (rule ls_update[OF r2 _ 3, where i = 0]) (simp add: one_lockstep_def)
  show "ls_reach bf_Read 1 1 (three_bytes 0) (one_lockstep 8 1 2 False, three_bytes 2, [[7, 8]])"
    using ls_pull[OF r3 _ 4] by (simp add: one_lockstep_def)
qed

lemma lockstep_same_stream_witness:
  "\<exists>bs err src' rest. lo_read 0 2 (one_lockstep 8 1 2 False) = Inr ((bs, err), src') \<and> length bs \<le> 2 \<and> [7, 8] = [7, 8] @ bs @ (rest :: octet list)"
  using lockstep_same_stream[OF buffer_source.io_source_axioms one_lockstep_reach(2), of 2]
  by (auto simp: one_lockstep_def)

lemma lockstep_closed_waits_forever:
  "ls_reach bf_Read 1 1 (three_bytes 0) (one_lockstep 7 0 1 True, three_bytes 1, [[7]]) \<and>
   waitForWindowUpdate bf_Read 0 (one_lockstep 7 0 1 True) (three_bytes 1) =
     Some (Inr ((False, True), one_lockstep 7 0 1 True, three_bytes 1))"
  using ls_close[OF one_lockstep_reach(1), of 0] by (simp add: one_lockstep_simps Let_def)

lemma lockstep_close_race_panics:
  "ls_reach bf_Read 1 1 (three_bytes 0) (one_lockstep 8 1 2 True, three_bytes 2, [[7, 8]]) \<and>
   waitForWindowUpdate bf_Read 0 (one_lockstep 8 1 2 True) (three_bytes 2) = Some (Inl ''slice bounds out of range'')"
  using ls_close[OF one_lockstep_reach(2), of 0] by (simp add: one_lockstep_simps Let_def)

section \<open>Reading with a limit, writing everything\<close>

text \<open>
  A reader may return its last bytes together with the end. When such a body is one byte longer than the limit,
  \<^verbatim>\<open>ReadAllWithLimit\<close> drops that byte and reports no error.
\<close>

definition eager_reader :: "octet list reader" where
  "eager_reader n s = ((take n s, if length s \<le> n then Some io_EOF else None), drop n s)"

lemma ReadAllWithLimit_truncates:
  "ReadAllWithLimit (\<lambda>_. 512) (Some (eager_reader, None)) 2 [1, 2, 3] = Some ((Some [1, 2], None), [])"
proof -
  let ?rd = "LimitReader eager_reader"
  have 1: "?rd 512 (2, [1, 2, 3]) = (([1, 2], None), (0, [3]))" by (simp add: LimitReader_def eager_reader_def)
  have 2: "?rd 512 (0, [3]) = (([], Some io_EOF), (0, [3]))" by (simp add: LimitReader_def)
  have "read_all (\<lambda>_. 512) ?rd [] (2, [1, 2, 3]) = read_all (\<lambda>_. 512) ?rd [1, 2] (0, [3])"
    using 1 by (subst read_all.simps) simp
  also have "\<dots> = Some (([1, 2], None), (0, [3]))" using 2 by (subst read_all.simps) simp
  finally have "io_ReadAll (\<lambda>_. 512) ?rd (2, [1, 2, 3]) = Some (([1, 2], None), (0, [3]))" by (simp add: io_ReadAll_def)
  then show ?thesis by (simp add: ReadAllWithLimit_def read_limited_def eager_reader_def)
qed

end
