(* ===== verification/ResilientIO.thy ===== *)
theory ResilientIO imports Retry Iokit Mathkit begin

text \<open>
  \<^verbatim>\<open>pkg/resilience/resio.go\<close>: the \<^verbatim>\<open>Reader\<close>, which opens its source again when a read fails and goes on from where it was.

  The readers that \<^verbatim>\<open>Open\<close> yields are handles; the record \<^verbatim>\<open>source_io\<close> holds what the code does with
  them. A result is an \<^const>\<open>Inl\<close> when the retry strategy panics, and \<^const>\<open>None\<close> when the call does not return.
\<close>

record ('r, 'w) source_io =
  si_Open :: "'w \<Rightarrow> ('r option \<times> go_error option) \<times> 'w"
  si_Read :: "'r \<Rightarrow> 'w reader"
  si_Seeker :: "'r \<Rightarrow> (int \<Rightarrow> 'w \<Rightarrow> (int \<times> go_error option) \<times> 'w) option" \<comment> \<open>\<^verbatim>\<open>Seek(offset, io.SeekCurrent)\<close>\<close>
  si_Closer :: "'r \<Rightarrow> ('w \<Rightarrow> go_error option \<times> 'w) option"

record 'r resReader =
  rr_reader :: "'r option"
  rr_offset :: "64 word BigInt"
  rr_closed :: bool

definition rr_tryClose :: "('r, 'w) source_io \<Rightarrow> 'r option \<Rightarrow> 'w \<Rightarrow> go_error option \<times> 'w" where
  "rr_tryClose io r w =
     (case r of None \<Rightarrow> (None, w)
      | Some r \<Rightarrow> (case si_Closer io r of None \<Rightarrow> (None, w) | Some close \<Rightarrow> close w))"

definition rr_Close :: "('r, 'w) source_io \<Rightarrow> 'r resReader \<Rightarrow> 'w \<Rightarrow> go_error option \<times> 'r resReader \<times> 'w" where
  "rr_Close io rr w =
     (if rr_closed rr then (Some ErrClosed, rr, w)
      else (case rr_tryClose io (rr_reader rr) w of
              (_, w') \<Rightarrow> (None, rr\<lparr>rr_reader := None, rr_closed := True\<rparr>, w')))"

section \<open>Seeking\<close>

text \<open>\<^verbatim>\<open>io.CopyN(io.Discard, r, n)\<close>: the bytes copied and the error.\<close>

partial_function (option) discard_loop :: "'w reader \<Rightarrow> int \<Rightarrow> int \<Rightarrow> 'w \<Rightarrow> ((int \<times> go_error option) \<times> 'w) option" where
  "discard_loop rd left acc w =
     (case LimitReader rd 8192 (left, w) of
        ((bs, err), (left', w')) \<Rightarrow>
          if err \<noteq> None then Some ((acc + int (length bs), if err = Some io_EOF then None else err), w')
          else discard_loop rd left' (acc + int (length bs)) w')"

definition io_CopyN :: "'w reader \<Rightarrow> int \<Rightarrow> 'w \<Rightarrow> ((int \<times> go_error option) \<times> 'w) option" where
  "io_CopyN rd n w =
     (case discard_loop rd n 0 w of
        None \<Rightarrow> None
      | Some ((written, err), w') \<Rightarrow>
          Some (if written = n then (n, None) else if written < n \<and> err = None then (written, Some io_EOF) else (written, err), w'))"

partial_function (option) seek_loop ::
    "(int \<Rightarrow> 'w \<Rightarrow> (int \<times> go_error option) \<times> 'w) \<Rightarrow> int \<Rightarrow> int \<Rightarrow> 'w \<Rightarrow> ((go_error option \<times> bool) \<times> 'w) option" where
  "seek_loop seek offset delta w =
     (if delta < offset
      then (case seek offset w of
              ((got, err), w') \<Rightarrow>
                let delta = delta + got sdiv 2 + (got - got sdiv 2)
                in if err \<noteq> None then Some ((err, delta = offset), w') else seek_loop seek offset delta w')
      else Some ((None, True), w))"

definition rr_seekFunc :: "('r, 'w) source_io \<Rightarrow> 'r \<Rightarrow> int \<Rightarrow> 'w \<Rightarrow> ((go_error option \<times> bool) \<times> 'w) option" where
  "rr_seekFunc io r offset w =
     (case si_Seeker io r of
        Some seek \<Rightarrow> seek_loop seek offset 0 w
      | None \<Rightarrow>
          (case io_CopyN (si_Read io r) offset w of
             None \<Rightarrow> None
           | Some ((delta, err), w') \<Rightarrow> Some ((err, delta = offset), w')))"

section \<open>Opening again\<close>

text \<open>The range over the offset; the error and whether the attempt counts as done.\<close>

fun rr_seek_all :: "('r, 'w) source_io \<Rightarrow> 'r \<Rightarrow> 64 word list \<Rightarrow> 'w \<Rightarrow> ((go_error option \<times> bool) \<times> 'w) option" where
  "rr_seek_all io r [] w = Some ((None, True), w)"
| "rr_seek_all io r (n # ns) w =
     (case rr_seekFunc io r (sint n) w of
        None \<Rightarrow> None
      | Some ((err, ok), w') \<Rightarrow> if err \<noteq> None then Some ((err, ok), w') else rr_seek_all io r ns w')"

definition rr_attempt :: "('r, 'w) source_io \<Rightarrow> 64 word BigInt \<Rightarrow> 'w \<Rightarrow> (('r option \<times> go_error option \<times> bool) \<times> 'w) option" where
  "rr_attempt io offset w =
     (case si_Open io w of
        ((r, Some err), w1) \<Rightarrow> Some ((r, Some err, False), w1)
      | ((None, None), w1) \<Rightarrow> Some ((None, Some (ErrText ''nil io.Reader from %T#Open''), False), w1)
      | ((Some r, None), w1) \<Rightarrow>
          if BigInt_IsZero offset then Some ((Some r, None, True), w1)
          else (case BigInt_Iter offset of
                  None \<Rightarrow> None
                | Some ns \<Rightarrow>
                    (case rr_seek_all io r ns w1 of
                       None \<Rightarrow> None
                     | Some ((err, ok), w2) \<Rightarrow> Some ((Some r, err, if err = None then True else ok), w2))))"

text \<open>
  What the loop of \<^verbatim>\<open>restart\<close> changes: the reader, \<^verbatim>\<open>lastError\<close>, and the result when it returns from within.
\<close>

record 'r restart_state =
  st_reader :: "'r option"
  st_lastError :: "go_error option"
  st_returned :: "go_error option option"

definition restart_body ::
    "('r, 'w) source_io \<Rightarrow> 64 word BigInt \<Rightarrow> RetryAttempt \<Rightarrow> 'r restart_state \<times> 'w \<Rightarrow> (bool \<times> 'r restart_state \<times> 'w) option" where
  "restart_body io offset a = (\<lambda>(st, w).
     case rr_attempt io offset w of
       None \<Rightarrow> None
     | Some ((r, err, ok), w1) \<Rightarrow>
         if err = None \<and> ok then Some (False, st\<lparr>st_reader := r, st_returned := Some None\<rparr>, w1)
         else if err \<noteq> None then
           (let st1 = st\<lparr>st_lastError := err\<rparr>
            in if err_Is err EOF \<and> ok then Some (False, st1\<lparr>st_reader := r, st_returned := Some err\<rparr>, w1)
               else (case rr_tryClose io r w1 of (_, w2) \<Rightarrow> Some (True, st1, w2)))
         else Some (True, st, w1))"

text \<open>A strategy on a world with local variables.\<close>

definition with_locals :: "'w strategy \<Rightarrow> ('s \<times> 'w) strategy" where
  "with_locals ask a = (\<lambda>(st, w). case ask a w of (r, w') \<Rightarrow> (r, (st, w')))"

definition rr_restart ::
    "'w retry_env \<Rightarrow> 'w strategy \<Rightarrow> ('r, 'w) source_io \<Rightarrow> 'r resReader \<Rightarrow> 'w \<Rightarrow> ((string + go_error option) \<times> 'r resReader \<times> 'w) option" where
  "rr_restart env ask io rr w =
     (if rr_closed rr then Some (Inr (Some ErrClosed), rr, w)
      else (case rr_Close io rr w of
              (_, rr1, w1) \<Rightarrow>
                (case MakeRetryAttempt env w1 of
                   (a, w2) \<Rightarrow>
                     (case retries_loop (with_locals ask) (restart_body io (rr_offset rr)) a
                             (\<lparr>st_reader = None, st_lastError = None, st_returned = None\<rparr>, w2) of
                        None \<Rightarrow> None
                      | Some (panic, st, w3) \<Rightarrow>
                          let rr2 = rr1\<lparr>rr_closed := False, rr_reader := st_reader st\<rparr>
                          in Some (case panic of
                                Some msg \<Rightarrow> (Inl msg, rr2, w3)
                              | None \<Rightarrow>
                                  (case st_returned st of
                                     Some err \<Rightarrow> (Inr err, rr2, w3)
                                   | None \<Rightarrow>
                                       if st_lastError st \<noteq> None then (Inr (st_lastError st), rr2, w3)
                                       else if rr_reader rr2 = None then (Inr (Some (ErrText ''%T failed restart io.Reader'')), rr2, w3)
                                       else (Inr None, rr2, w3)))))))"

section \<open>Reading\<close>

definition rr_advance :: "'r resReader \<Rightarrow> nat \<Rightarrow> 'r resReader" where
  "rr_advance rr n = rr\<lparr>rr_offset := BigInt_Add (rr_offset rr) (BigInt_Of (word_of_nat n))\<rparr>"

text \<open>The part of \<^verbatim>\<open>Read\<close> from its label on.\<close>

partial_function (option) rr_read_loop ::
    "'w retry_env \<Rightarrow> 'w strategy \<Rightarrow> ('r, 'w) source_io \<Rightarrow> nat \<Rightarrow> 'r resReader \<Rightarrow> 'w \<Rightarrow>
     ((string + octet list \<times> go_error option) \<times> 'r resReader \<times> 'w) option" where
  "rr_read_loop env ask io n rr w =
     (case rr_reader rr of
        None \<Rightarrow> Some (Inl ''nil pointer dereference'', rr, w)
      | Some r \<Rightarrow>
          (case si_Read io r n w of
             ((bs, err), w1) \<Rightarrow>
               if err = None \<or> err_Is err EOF then Some (Inr (bs, err), rr_advance rr (length bs), w1)
               else (case rr_restart env ask io rr w1 of
                       None \<Rightarrow> None
                     | Some (res, rr2, w2) \<Rightarrow>
                         (case res of
                            Inl panic \<Rightarrow> Some (Inl panic, rr2, w2)
                          | Inr err2 \<Rightarrow> if err2 \<noteq> None then Some (Inr (bs, err2), rr2, w2) else rr_read_loop env ask io n rr2 w2))))"

definition rr_Read ::
    "'w retry_env \<Rightarrow> 'w strategy \<Rightarrow> ('r, 'w) source_io \<Rightarrow> nat \<Rightarrow> 'r resReader \<Rightarrow> 'w \<Rightarrow>
     ((string + octet list \<times> go_error option) \<times> 'r resReader \<times> 'w) option" where
  "rr_Read env ask io n rr w =
     (if rr_closed rr then Some (Inr ([], Some ErrClosed), rr, w)
      else if rr_reader rr = None
      then (case rr_restart env ask io rr w of
              None \<Rightarrow> None
            | Some (res, rr1, w1) \<Rightarrow>
                (case res of
                   Inl panic \<Rightarrow> Some (Inl panic, rr1, w1)
                 | Inr err \<Rightarrow> if err \<noteq> None then Some (Inr ([], err), rr1, w1) else rr_read_loop env ask io n rr1 w1))
      else rr_read_loop env ask io n rr w)"

text \<open>\<^verbatim>\<open>Source\<close>, which opens the source when there is none; the error of the restart is dropped.\<close>

definition rr_Source ::
    "'w retry_env \<Rightarrow> 'w strategy \<Rightarrow> ('r, 'w) source_io \<Rightarrow> 'r resReader \<Rightarrow> 'w \<Rightarrow> ((string + 'r option) \<times> 'r resReader \<times> 'w) option" where
  "rr_Source env ask io rr w =
     (if rr_reader rr = None
      then (case rr_restart env ask io rr w of
              None \<Rightarrow> None
            | Some (Inl panic, rr1, w1) \<Rightarrow> Some (Inl panic, rr1, w1)
            | Some (Inr err, rr1, w1) \<Rightarrow> Some (Inr (rr_reader rr1), rr1, w1))
      else Some (Inr (rr_reader rr), rr, w))"

section \<open>Sources that can be read again\<close>

text \<open>
  Every reader that \<^verbatim>\<open>Open\<close> yields shows the same \<open>data\<close> from its beginning. \<open>pos w r\<close> is where the reader
  \<open>r\<close> stands. A read may be short and may fail at any time, but ends only at the end of the data; a seek moves
  forward or fails.
\<close>

definition stable_io :: "('r, 'w) source_io \<Rightarrow> octet list \<Rightarrow> ('w \<Rightarrow> 'r \<Rightarrow> nat) \<Rightarrow> bool" where
  "stable_io io data pos \<longleftrightarrow>
     length data < 2 ^ 63 \<and>
     (\<forall>w r w'. si_Open io w = ((Some r, None), w') \<longrightarrow> pos w' r = 0) \<and>
     (\<forall>w r e w'. si_Open io w = ((r, Some e), w') \<longrightarrow> \<not> errors_Is e EOF) \<and>
     (\<forall>r n w bs err w'. si_Read io r n w = ((bs, err), w') \<longrightarrow> pos w r \<le> length data \<longrightarrow>
        take (length bs) (drop (pos w r) data) = bs \<and> length bs \<le> n \<and> pos w' r = pos w r + length bs \<and>
        pos w' r \<le> length data \<and> (err_Is err EOF \<longrightarrow> pos w' r = length data)) \<and>
     (\<forall>r seek off w got err w'. si_Seeker io r = Some seek \<longrightarrow> seek off w = ((got, err), w') \<longrightarrow> 0 < off \<longrightarrow>
        int (pos w r) + off \<le> int (length data) \<longrightarrow>
        (if err = None then got = int (pos w r) + off \<and> int (pos w' r) = got else \<not> err_Is err EOF))"

lemma stable_ioD:
  assumes "stable_io io data pos"
  shows "length data < 2 ^ 63"
    "si_Open io w = ((Some r, None), w') \<Longrightarrow> pos w' r = 0"
    "si_Open io w = ((ro, Some e), w') \<Longrightarrow> \<not> errors_Is e EOF"
    "si_Read io r n w = ((bs, err), w') \<Longrightarrow> pos w r \<le> length data \<Longrightarrow>
       take (length bs) (drop (pos w r) data) = bs \<and> length bs \<le> n \<and> pos w' r = pos w r + length bs \<and>
       pos w' r \<le> length data \<and> (err_Is err EOF \<longrightarrow> pos w' r = length data)"
    "si_Seeker io r = Some seek \<Longrightarrow> seek off w = ((got, err), w') \<Longrightarrow> 0 < off \<Longrightarrow>
       int (pos w r) + off \<le> int (length data) \<Longrightarrow>
       (if err = None then got = int (pos w r) + off \<and> int (pos w' r) = got else \<not> err_Is err EOF)"
  using assms unfolding stable_io_def by blast+

text \<open>The seek of a fresh reader: it stands at the offset, or there is an error other than the end.\<close>

lemma discard_loop_stable:
  fixes io :: "('r, 'w) source_io"
  assumes st: "stable_io io data pos"
    and d: "discard_loop (si_Read io r) left acc w = Some ((written, err), w')" "0 \<le> left" "pos w r \<le> length data"
  shows "\<exists>n. written = acc + int n \<and> int n \<le> left \<and> pos w' r = pos w r + n \<and> pos w' r \<le> length data \<and>
     (err = None \<or> err_Is err EOF \<longrightarrow> int n = left \<or> pos w' r = length data)"
proof -
  have "rd = si_Read io r \<longrightarrow> 0 \<le> left \<longrightarrow> pos w r \<le> length data \<longrightarrow>
      (\<exists>n. fst (fst y) = acc + int n \<and> int n \<le> left \<and> pos (snd y) r = pos w r + n \<and> pos (snd y) r \<le> length data \<and>
        (snd (fst y) = None \<or> err_Is (snd (fst y)) EOF \<longrightarrow> int n = left \<or> pos (snd y) r = length data))"
    if "discard_loop rd left acc w = Some y" for rd left acc w y
  proof (rule discard_loop.raw_induct[OF _ that, where P = "\<lambda>rd left acc w y. rd = si_Read io r \<longrightarrow> 0 \<le> left \<longrightarrow>
      pos w r \<le> length data \<longrightarrow>
      (\<exists>n. fst (fst y) = acc + int n \<and> int n \<le> left \<and> pos (snd y) r = pos w r + n \<and> pos (snd y) r \<le> length data \<and>
        (snd (fst y) = None \<or> err_Is (snd (fst y)) EOF \<longrightarrow> int n = left \<or> pos (snd y) r = length data))"], intro impI)
    fix f :: "'w reader \<Rightarrow> int \<Rightarrow> int \<Rightarrow> 'w \<Rightarrow> ((int \<times> go_error option) \<times> 'w) option"
    fix rd left acc w y
    assume IH: "\<And>rd left acc w y. f rd left acc w = Some y \<Longrightarrow> rd = si_Read io r \<longrightarrow> 0 \<le> left \<longrightarrow> pos w r \<le> length data \<longrightarrow>
      (\<exists>n. fst (fst y) = acc + int n \<and> int n \<le> left \<and> pos (snd y) r = pos w r + n \<and> pos (snd y) r \<le> length data \<and>
        (snd (fst y) = None \<or> err_Is (snd (fst y)) EOF \<longrightarrow> int n = left \<or> pos (snd y) r = length data))"
      and body: "(case LimitReader rd 8192 (left, w) of ((bs, err), left', w') \<Rightarrow>
          if err \<noteq> None then Some ((acc + int (length bs), if err = Some io_EOF then None else err), w')
          else f rd left' (acc + int (length bs)) w') = Some y"
      and rd: "rd = si_Read io r" and l: "0 \<le> left" and p: "pos w r \<le> length data"
    show "\<exists>n. fst (fst y) = acc + int n \<and> int n \<le> left \<and> pos (snd y) r = pos w r + n \<and> pos (snd y) r \<le> length data \<and>
        (snd (fst y) = None \<or> err_Is (snd (fst y)) EOF \<longrightarrow> int n = left \<or> pos (snd y) r = length data)"
    proof (cases "left \<le> 0")
      case True
      then show ?thesis using body l p by (intro exI[of _ 0]) (auto simp: LimitReader_def)
    next
      case False
      let ?k = "if left < int 8192 then nat left else 8192"
      obtain bs err w1 where r: "si_Read io r ?k w = ((bs, err), w1)" by (metis prod.collapse)
      have s: "length bs \<le> ?k" "pos w1 r = pos w r + length bs" "pos w1 r \<le> length data"
          "err_Is err EOF \<longrightarrow> pos w1 r = length data"
        using stable_ioD(4)[OF st r p] by blast+
      have k: "int (length bs) \<le> left" using s(1) l by (auto split: if_splits)
      have lim: "LimitReader rd 8192 (left, w) = ((bs, err), (left - int (length bs), w1))"
        using False r rd by (simp add: LimitReader_def)
      show ?thesis
      proof (cases err)
        case None
        then have "f rd (left - int (length bs)) (acc + int (length bs)) w1 = Some y" using body lim by simp
        from IH[OF this] rd k s obtain n where
          "fst (fst y) = acc + int (length bs) + int n \<and> int n \<le> left - int (length bs) \<and> pos (snd y) r = pos w1 r + n \<and>
            pos (snd y) r \<le> length data \<and>
            (snd (fst y) = None \<or> err_Is (snd (fst y)) EOF \<longrightarrow> int n = left - int (length bs) \<or> pos (snd y) r = length data)"
          by auto
        then show ?thesis using s by (intro exI[of _ "length bs + n"]) auto
      next
        case (Some e)
        then have "y = ((acc + int (length bs), if e = io_EOF then None else Some e), w1)" using body lim by auto
        then show ?thesis using s k Some by (intro exI[of _ "length bs"]) (auto split: if_splits)
      qed
    qed
  qed
  from this[OF d(1)] d(2,3) show ?thesis by auto
qed

lemma rr_seekFunc_stable:
  assumes st: "stable_io io data pos" and p: "pos w r = 0" and k: "0 < k" "k \<le> int (length data)"
    and s: "rr_seekFunc io r k w = Some ((err, ok), w')"
  shows "if err = None then int (pos w' r) = k else \<not> err_Is err EOF"
proof (cases "si_Seeker io r")
  case None
  obtain written e w1 where d: "discard_loop (si_Read io r) k 0 w = Some ((written, e), w1)"
    using s None by (auto simp: rr_seekFunc_def io_CopyN_def split: option.splits)
  obtain n where n: "written = int n" "int n \<le> k" "pos w1 r = n" "n \<le> length data"
      "e = None \<or> err_Is e EOF \<longrightarrow> int n = k \<or> n = length data"
    using discard_loop_stable[OF st d] k(1) p by auto
  show ?thesis using s None d n k by (auto simp: rr_seekFunc_def io_CopyN_def split: if_splits)
next
  case (Some seek)
  obtain got e w1 where g: "seek k w = ((got, e), w1)" by (metis prod.collapse)
  note q = stable_ioD(5)[OF st Some g k(1)]
  show ?thesis
  proof (cases e)
    case None
    then have "got = k" "int (pos w1 r) = k" using q p k(2) by auto
    then have "seek_loop seek k 0 w = Some ((None, True), w1)"
      using k(1) g None by (subst seek_loop.simps) (simp add: seek_loop.simps[of seek k k w1])
    then show ?thesis using s Some \<open>int (pos w1 r) = k\<close> by (simp add: rr_seekFunc_def)
  next
    case (Some e')
    then have "\<exists>b. seek_loop seek k 0 w = Some ((e, b), w1)" using k(1) g by (subst seek_loop.simps) simp
    then show ?thesis using s \<open>si_Seeker io r = Some seek\<close> Some q p k(2) by (auto simp: rr_seekFunc_def)
  qed
qed

abbreviation offset_is :: "64 word BigInt \<Rightarrow> nat \<Rightarrow> bool" where
  "offset_is offset k \<equiv> bi_val offset = int k \<and> bi_norm offset"

lemma offset_Iter:
  assumes "offset_is offset k" "0 < k" "k < 2 ^ 63"
  shows "BigInt_Iter offset = Some [bi_n offset]" "sint (bi_n offset) = int k" "\<not> BigInt_IsZero offset"
proof -
  have "bi_i offset = None" using assms by (auto simp: bi_norm_def half_def)
  then show "sint (bi_n offset) = int k" "BigInt_Iter offset = Some [bi_n offset]" "\<not> BigInt_IsZero offset"
    using assms(1,2) by (simp_all add: bi_val_int BigInt_Iter_def BigInt_Compare_val BigInt_IsZero_def)
qed

lemma rr_attempt_stable:
  assumes st: "stable_io io data pos" and k: "offset_is offset k" "k \<le> length data"
    and a: "rr_attempt io offset w = Some ((r, err, ok), w')"
  shows "if err = None then \<exists>h. r = Some h \<and> pos w' h = k else \<not> err_Is err EOF"
proof -
  obtain ro eo w1 where op: "si_Open io w = ((ro, eo), w1)" by (metis prod.collapse)
  note D = stable_ioD[OF st]
  consider (fail) e where "eo = Some e" | (nil) "eo = None" "ro = None" | (ok) h where "eo = None" "ro = Some h" by blast
  then show ?thesis
  proof cases
    case fail
    then have "r = ro" "err = Some e" using a op by (cases ro; simp add: rr_attempt_def)+
    then show ?thesis using fail op D(3) by auto
  next
    case nil
    then show ?thesis using a op by (auto simp: rr_attempt_def)
  next
    case ok
    have p: "pos w1 h = 0" using op ok D(2) by blast
    show ?thesis
    proof (cases "k = 0")
      case True
      then have "BigInt_IsZero offset" using k(1) by (simp add: BigInt_IsZero_def BigInt_Compare_val)
      then show ?thesis using a op ok p True by (auto simp: rr_attempt_def)
    next
      case False
      have it: "BigInt_Iter offset = Some [bi_n offset]" "sint (bi_n offset) = int k" "\<not> BigInt_IsZero offset"
        using offset_Iter[OF k(1)] False k(2) D(1) by auto
      obtain e b w2 where s: "rr_seekFunc io h (int k) w1 = Some ((e, b), w2)" "r = Some h" "err = e" "w' = w2"
        using a op ok it by (auto simp: rr_attempt_def split: option.splits if_splits)
      show ?thesis using rr_seekFunc_stable[OF st p _ _ s(1)] False k(2) s(2-4) by auto
    qed
  qed
qed

lemma retries_loop_invariant:
  assumes "retries_loop ask yield a w = Some (p, w')" "I w"
    and "\<And>a w r w'. I w \<Longrightarrow> ask a w = (r, w') \<Longrightarrow> I w'"
    and "\<And>a w c w'. I w \<Longrightarrow> yield a w = Some (c, w') \<Longrightarrow> if c then I w' else Q w'"
    and "\<And>w. I w \<Longrightarrow> Q w"
  shows "Q w'"
proof -
  have "ask' = ask \<and> yield' = yield \<longrightarrow> I w \<longrightarrow> Q (snd y)" if "retries_loop ask' yield' a w = Some y" for ask' yield' a w y
  proof (rule retries_loop.raw_induct[OF _ that, where P = "\<lambda>ask' yield' a w y. ask' = ask \<and> yield' = yield \<longrightarrow> I w \<longrightarrow> Q (snd y)"],
      intro impI, elim conjE)
    fix f ask' yield' a w y
    assume IH: "\<And>ask' yield' a w y. f ask' yield' a w = Some y \<Longrightarrow> ask' = ask \<and> yield' = yield \<longrightarrow> I w \<longrightarrow> Q (snd y)"
      and body: "(case ask' a w of (Inl panic, w1) \<Rightarrow> Some (Some panic, w1)
         | (Inr ok, w1) \<Rightarrow> if \<not> ok then Some (None, w1)
             else case ask' a w1 of (Inl panic, w2) \<Rightarrow> Some (Some panic, w2)
               | (Inr ok, w2) \<Rightarrow> if \<not> ok then Some (None, w2)
                   else case yield' a w2 of None \<Rightarrow> None
                     | Some (continue, w3) \<Rightarrow> if \<not> continue then Some (None, w3)
                         else f ask' yield' (RetryAttempt_Next a) w3) = Some y"
      and I: "I w" and eq: "ask' = ask" "yield' = yield"
    obtain r1 w1 where 1: "ask a w = (r1, w1)" by fastforce
    obtain r2 w2 where 2: "ask a w1 = (r2, w2)" by fastforce
    have I1: "I w1" using assms(3)[OF I 1] .
    have I2: "I w2" using assms(3)[OF I1 2] .
    have y: "yield a w2 = Some (c, w3) \<Longrightarrow> if c then I w3 else Q w3" for c w3 using assms(4)[OF I2] by blast
    have IH': "f ask yield (RetryAttempt_Next a) w3 = Some y \<Longrightarrow> I w3 \<Longrightarrow> Q (snd y)" for w3 using IH by blast
    show "Q (snd y)"
      using body[unfolded eq] 1 2 assms(5)[OF I1] assms(5)[OF I2] y IH'
      by (fastforce split: sum.splits if_splits option.splits prod.splits)
  qed
  from this[OF assms(1)] assms(2) show ?thesis by simp
qed

text \<open>A restart that succeeds leaves a reader at the offset; one that fails reports an error other than the end.\<close>

lemma rr_restart_stable:
  fixes io :: "('r, 'w) source_io"
  assumes st: "stable_io io data pos" and k: "offset_is (rr_offset rr) k" "k \<le> length data"
    and c: "\<not> rr_closed rr" and r: "rr_restart env ask io rr w = Some (Inr err, rr', w')"
  shows "rr_offset rr' = rr_offset rr \<and> \<not> rr_closed rr' \<and>
    (if err = None then \<exists>h. rr_reader rr' = Some h \<and> pos w' h = k else \<not> err_Is err EOF \<and> rr_reader rr' = None)"
proof -
  let ?st0 = "\<lparr>st_reader = None, st_lastError = None, st_returned = None\<rparr>"
  obtain w1 where c1: "rr_Close io rr w = (None, rr\<lparr>rr_reader := None, rr_closed := True\<rparr>, w1)"
    using c by (cases "rr_tryClose io (rr_reader rr) w") (simp add: rr_Close_def)
  obtain a w2 where a: "MakeRetryAttempt env w1 = (a, w2)" by fastforce
  obtain p s w3 where l: "retries_loop (with_locals ask) (restart_body io (rr_offset rr)) a (?st0, w2) = Some (p, s, w3)"
    using r c c1 a by (auto simp: rr_restart_def split: option.splits)
  define I where "I = (\<lambda>v :: 'r restart_state \<times> 'w.
      st_returned (fst v) = None \<and> st_reader (fst v) = None \<and> \<not> err_Is (st_lastError (fst v)) EOF)"
  define Q where "Q = (\<lambda>v :: 'r restart_state \<times> 'w. I v \<or>
      st_returned (fst v) = Some None \<and> (\<exists>h. st_reader (fst v) = Some h \<and> pos (snd v) h = k))"
  have "Q (s, w3)"
  proof (rule retries_loop_invariant[OF l, of I Q])
    show "I (?st0, w2)" by (simp add: I_def)
    show "I v' " if "I v" "with_locals ask a v = (x, v')" for a v x v'
      using that by (auto simp: with_locals_def I_def split: prod.splits)
    show "if c then I v' else Q v'" if i: "I v" and b: "restart_body io (rr_offset rr) a v = Some (c, v')" for a v c v'
    proof -
      obtain s w where v: "v = (s, w)" by fastforce
      obtain h e ok w1 where at: "rr_attempt io (rr_offset rr) w = Some ((h, e, ok), w1)"
        using b v by (auto simp: restart_body_def split: option.splits)
      obtain x w2 where cl: "rr_tryClose io h w1 = (x, w2)" by fastforce
      note sp = rr_attempt_stable[OF st k at]
      show ?thesis
      proof (cases e)
        case None
        then show ?thesis using b v at i sp by (cases ok) (auto simp: restart_body_def I_def Q_def)
      next
        case (Some e')
        then show ?thesis using b v at i sp cl by (auto simp: restart_body_def I_def Q_def Let_def)
      qed
    qed
    show "Q v" if "I v" for v using that by (simp add: Q_def)
  qed
  then show ?thesis using r c c1 a l by (auto simp: rr_restart_def Let_def Q_def I_def split: option.splits if_splits)
qed

section \<open>Reading goes on where it was\<close>

definition rr_at :: "octet list \<Rightarrow> ('w \<Rightarrow> 'r \<Rightarrow> nat) \<Rightarrow> nat \<Rightarrow> 'r resReader \<Rightarrow> 'w \<Rightarrow> bool" where
  "rr_at data pos k rr w \<longleftrightarrow>
     offset_is (rr_offset rr) k \<and> k \<le> length data \<and> (\<forall>h. rr_reader rr = Some h \<longrightarrow> pos w h = k)"

text \<open>What a read makes of a reader at \<open>k\<close>.\<close>

definition rr_read_ok ::
    "octet list \<Rightarrow> ('w \<Rightarrow> 'r \<Rightarrow> nat) \<Rightarrow> nat \<Rightarrow> nat \<Rightarrow> (string + octet list \<times> go_error option) \<times> 'r resReader \<times> 'w \<Rightarrow> bool" where
  "rr_read_ok data pos n k = (\<lambda>(res, rr, w).
     case res of
       Inl _ \<Rightarrow> True
     | Inr (bs, err) \<Rightarrow>
         take (length bs) (drop k data) = bs \<and> length bs \<le> n \<and>
         (if err = None \<or> err_Is err EOF
          then rr_at data pos (k + length bs) rr w \<and> (err_Is err EOF \<longrightarrow> k + length bs = length data)
          else rr_at data pos k rr w))"

lemma rr_advance_at:
  assumes "offset_is (rr_offset rr) k" "k + n < 2 ^ 63" shows "offset_is (rr_offset (rr_advance rr n)) (k + n)"
proof -
  have "sint (word_of_nat n :: 64 word) = int n"
    using sint_of_int_bounded[of "int n"] assms(2) by simp
  then show ?thesis using assms(1) BigInt_Add_val[of "rr_offset rr" "BigInt_Of (word_of_nat n)"]
    by (simp add: rr_advance_def)
qed

lemma rr_read_loop_stable:
  fixes io :: "('r, 'w) source_io"
  assumes st: "stable_io io data pos" and l: "rr_read_loop env ask io n rr w = Some y"
    and c: "\<not> rr_closed rr" and at: "rr_at data pos k rr w"
  shows "rr_read_ok data pos n k y"
proof -
  have "io' = io \<and> n' = n \<longrightarrow> \<not> rr_closed rr \<longrightarrow> rr_at data pos k rr w \<longrightarrow> rr_read_ok data pos n k y"
    if "rr_read_loop env ask io' n' rr w = Some y" for env ask io' n' rr w y
  proof (rule rr_read_loop.raw_induct[OF _ that, where P = "\<lambda>env ask io' n' rr w y. io' = io \<and> n' = n \<longrightarrow> \<not> rr_closed rr \<longrightarrow>
      rr_at data pos k rr w \<longrightarrow> rr_read_ok data pos n k y"], intro impI, elim conjE)
    fix f env ask io' n' and rr :: "'r resReader" and w y
    assume IH: "\<And>env ask io' n' rr w y. f env ask io' n' rr w = Some y \<Longrightarrow> io' = io \<and> n' = n \<longrightarrow> \<not> rr_closed rr \<longrightarrow>
        rr_at data pos k rr w \<longrightarrow> rr_read_ok data pos n k y"
      and body: "(case rr_reader rr of None \<Rightarrow> Some (Inl ''nil pointer dereference'', rr, w)
        | Some r \<Rightarrow> case si_Read io' r n' w of ((bs, err), w1) \<Rightarrow>
            if err = None \<or> err_Is err EOF then Some (Inr (bs, err), rr_advance rr (length bs), w1)
            else case rr_restart env ask io' rr w1 of None \<Rightarrow> None
              | Some (res, rr2, w2) \<Rightarrow> case res of Inl panic \<Rightarrow> Some (Inl panic, rr2, w2)
                  | Inr err2 \<Rightarrow> if err2 \<noteq> None then Some (Inr (bs, err2), rr2, w2) else f env ask io' n' rr2 w2) = Some y"
      and c: "\<not> rr_closed rr" and at: "rr_at data pos k rr w" and eq: "io' = io" "n' = n"
    have off: "offset_is (rr_offset rr) k" "k \<le> length data" using at by (auto simp: rr_at_def)
    show "rr_read_ok data pos n k y"
    proof (cases "rr_reader rr")
      case None
      then show ?thesis using body by (auto simp: rr_read_ok_def)
    next
      case (Some r)
      have p: "pos w r = k" using at Some by (simp add: rr_at_def)
      obtain bs err w1 where rd: "si_Read io r n w = ((bs, err), w1)" by (metis prod.collapse)
      have s: "take (length bs) (drop k data) = bs" "length bs \<le> n" "pos w1 r = k + length bs" "k + length bs \<le> length data"
          "err_Is err EOF \<longrightarrow> k + length bs = length data"
        using stable_ioD(4)[OF st rd] p off(2) by auto
      show ?thesis
      proof (cases "err = None \<or> err_Is err EOF")
        case True
        then have y: "y = (Inr (bs, err), rr_advance rr (length bs), w1)" using body rd Some eq by auto
        have "offset_is (rr_offset (rr_advance rr (length bs))) (k + length bs)"
          by (rule rr_advance_at[OF off(1)]) (use s(4) stable_ioD(1)[OF st] in linarith)
        then have "rr_at data pos (k + length bs) (rr_advance rr (length bs)) w1"
          using s(3,4) Some by (simp add: rr_at_def rr_advance_def)
        then show ?thesis using True s unfolding y rr_read_ok_def by simp
      next
        case False
        obtain res rr2 w2 where re: "rr_restart env ask io rr w1 = Some (res, rr2, w2)"
          using body rd Some eq False by (auto split: option.splits)
        show ?thesis
        proof (cases res)
          case (Inl p)
          then show ?thesis using body rd Some eq False re by (auto simp: rr_read_ok_def)
        next
          case (Inr err2)
          note q = rr_restart_stable[OF st off c re[unfolded Inr]]
          show ?thesis
          proof (cases err2)
            case None
            then have "f env ask io n rr2 w2 = Some y" using body rd Some eq False re Inr by simp
            moreover have "rr_at data pos k rr2 w2" "\<not> rr_closed rr2" using q None off by (auto simp: rr_at_def)
            ultimately show ?thesis using IH by blast
          next
            case (Some e)
            then have y: "y = (Inr (bs, Some e), rr2, w2)" using body rd \<open>rr_reader rr = Some r\<close> eq False re Inr by simp
            then show ?thesis using q Some off s(1,2) by (auto simp: rr_read_ok_def rr_at_def)
          qed
        qed
      qed
    qed
  qed
  from this[OF l] c at show ?thesis by simp
qed

lemma rr_Read_stable:
  assumes st: "stable_io io data pos" and r: "rr_Read env ask io n rr w = Some y" and at: "rr_at data pos k rr w"
  shows "rr_read_ok data pos n k y"
proof (cases "rr_closed rr \<or> rr_reader rr \<noteq> None")
  case True
  show ?thesis
  proof (cases "rr_closed rr")
    case True
    then show ?thesis using r at by (auto simp: rr_Read_def rr_read_ok_def ErrClosed_def)
  next
    case open_: False
    with True obtain h where "rr_reader rr = Some h" by blast
    then have "rr_read_loop env ask io n rr w = Some y" using r open_ by (simp add: rr_Read_def)
    then show ?thesis using rr_read_loop_stable[OF st _ open_ at] by blast
  qed
next
  case False
  have off: "offset_is (rr_offset rr) k" "k \<le> length data" using at by (auto simp: rr_at_def)
  obtain res rr1 w1 where re: "rr_restart env ask io rr w = Some (res, rr1, w1)"
    using r False by (auto simp: rr_Read_def split: option.splits)
  show ?thesis
  proof (cases res)
    case (Inl p)
    then show ?thesis using r False re by (auto simp: rr_Read_def rr_read_ok_def)
  next
    case (Inr err)
    have c: "\<not> rr_closed rr" using False by simp
    note q = rr_restart_stable[OF st off c re[unfolded Inr]]
    show ?thesis
    proof (cases err)
      case None
      then have "rr_read_loop env ask io n rr1 w1 = Some y" using r False re Inr by (simp add: rr_Read_def)
      moreover have "rr_at data pos k rr1 w1" "\<not> rr_closed rr1" using q None off by (auto simp: rr_at_def)
      ultimately show ?thesis using rr_read_loop_stable[OF st] by blast
    next
      case (Some e)
      then have "y = (Inr ([], Some e), rr1, w1)" using r False re Inr by (simp add: rr_Read_def)
      then show ?thesis using q Some off by (auto simp: rr_read_ok_def rr_at_def)
    qed
  qed
qed

lemma rr_Source_stable:
  assumes st: "stable_io io data pos" and r: "rr_Source env ask io rr w = Some (Inr h, rr', w')" and at: "rr_at data pos k rr w"
  shows "rr_at data pos k rr' w'"
proof (cases "rr_reader rr = None \<and> \<not> rr_closed rr")
  case True
  then obtain err where re: "rr_restart env ask io rr w = Some (Inr err, rr', w')"
    using r by (auto simp: rr_Source_def split: option.splits sum.splits)
  have off: "offset_is (rr_offset rr) k" "k \<le> length data" using at by (auto simp: rr_at_def)
  show ?thesis using rr_restart_stable[OF st off _ re] True off by (auto simp: rr_at_def split: if_splits)
next
  case False
  then have "rr' = rr \<and> w' = w" using r by (auto simp: rr_Source_def rr_restart_def split: if_splits)
  then show ?thesis using at by simp
qed

lemma rr_Close_at: "rr_Close io rr w = (err, rr', w') \<Longrightarrow> rr_at data pos k rr w \<Longrightarrow> rr_at data pos k rr' w'"
  by (auto simp: rr_Close_def rr_at_def split: if_splits prod.splits)

text \<open>
  A use of the reader: reads of any sizes, asking for its source, and closing it. \<open>out\<close> collects the bytes of the reads
  that returned no error or the end, \<open>ended\<close> tells that the last read returned the end. Nothing is done with the
  source that \<open>rr_Source\<close> returns, as the comment there asks.
\<close>

inductive rr_reach ::
    "'w retry_env \<Rightarrow> 'w strategy \<Rightarrow> ('r, 'w) source_io \<Rightarrow> 'r resReader \<times> 'w \<times> octet list \<times> bool \<Rightarrow> bool" for env ask io where
  rr_init: "rr_reach env ask io (\<lparr>rr_reader = None, rr_offset = BigInt_Of 0, rr_closed = False\<rparr>, w, [], False)"
| rr_read: "rr_reach env ask io (rr, w, out, ended) \<Longrightarrow> rr_Read env ask io n rr w = Some (Inr (bs, err), rr', w') \<Longrightarrow>
     rr_reach env ask io (rr', w', if err = None \<or> err_Is err EOF then out @ bs else out, err_Is err EOF)"
| rr_source: "rr_reach env ask io (rr, w, out, ended) \<Longrightarrow> rr_Source env ask io rr w = Some (Inr h, rr', w') \<Longrightarrow>
     rr_reach env ask io (rr', w', out, ended)"
| rr_close: "rr_reach env ask io (rr, w, out, ended) \<Longrightarrow> rr_Close io rr w = (err, rr', w') \<Longrightarrow>
     rr_reach env ask io (rr', w', out, ended)"

lemma rr_reach_at:
  assumes "stable_io io data pos" "rr_reach env ask io (rr, w, out, ended)"
  shows "take (length out) data = out \<and> (ended \<longrightarrow> out = data) \<and> rr_at data pos (length out) rr w"
  using assms(2)
proof (induction "(rr, w, out, ended)" arbitrary: rr w out ended)
  case (rr_init w)
  then show ?case by (simp add: rr_at_def)
next
  case (rr_read rr w out ended n bs err rr' w')
  then have prefix: "take (length out) data = out" and at: "rr_at data pos (length out) rr w" by auto
  from rr_Read_stable[OF assms(1) rr_read(3) at] have q: "rr_read_ok data pos n (length out) (Inr (bs, err), rr', w')" .
  show ?case
  proof (cases "err = None \<or> err_Is err EOF")
    case True
    have 1: "take (length bs) (drop (length out) data) = bs" "rr_at data pos (length out + length bs) rr' w'"
        "err_Is err EOF \<longrightarrow> length out + length bs = length data"
      using q True by (auto simp: rr_read_ok_def)
    have t: "take (length (out @ bs)) data = out @ bs" using 1(1) prefix by (simp add: take_add)
    have "err_Is err EOF \<longrightarrow> out @ bs = data"
    proof
      assume "err_Is err EOF"
      then have "length data \<le> length (out @ bs)" using 1(3) by simp
      then show "out @ bs = data" using t by (simp only: take_all)
    qed
    then show ?thesis using t True 1(2) by simp
  next
    case False
    then show ?thesis using q prefix by (auto simp: rr_read_ok_def)
  qed
next
  case (rr_source rr w out ended h rr' w')
  then show ?case using rr_Source_stable[OF assms(1) rr_source(3)] by blast
next
  case (rr_close rr w out ended err rr' w')
  then show ?case using rr_Close_at[OF rr_close(3)] by blast
qed

text \<open>C40: The Reader hides the failures of its source. When every reader that Open yields shows the same data, then however
  reads, seeks and openings fail in between and whatever the retry strategy does, the bytes of the reads that returned
  no error, or the end, are the beginning of the data, each once and in order, and when a read returns the end they are
  all of it. Whatever a further read returns, with an error or without one, are the bytes that follow these; the bytes
  that come with an error other than the end are not counted as delivered, so the next read returns them again.\<close>

theorem rr_seamless:
  assumes "stable_io io data pos" "rr_reach env ask io (rr, w, out, ended)"
  shows "out = take (length out) data \<and> (ended \<longrightarrow> out = data) \<and>
    (\<forall>n bs err rr' w'. rr_Read env ask io n rr w = Some (Inr (bs, err), rr', w') \<longrightarrow>
       length bs \<le> n \<and> bs = take (length bs) (drop (length out) data))"
proof -
  note at = rr_reach_at[OF assms]
  have "take (length bs) (drop (length out) data) = bs \<and> length bs \<le> n"
    if "rr_Read env ask io n rr w = Some (Inr (bs, err), rr', w')" for n bs err rr' w'
    using rr_Read_stable[OF assms(1) that, of "length out"] at by (simp add: rr_read_ok_def)
  then show ?thesis using at by metis
qed

text \<open>A source of two bytes; the world is the position of the only handle.\<close>

definition two_bytes :: "(unit, nat) source_io" where
  "two_bytes =
     \<lparr>si_Open = (\<lambda>w. ((Some (), None), 0)),
      si_Read = (\<lambda>_ n w. ((take n (drop w [7, 8]), if 2 \<le> w + n then Some io_EOF else None), w + length (take n (drop w [7, 8 :: octet])))),
      si_Seeker = (\<lambda>_. None), si_Closer = (\<lambda>_. None)\<rparr>"

lemma two_bytes_stable: "stable_io two_bytes [7, 8] (\<lambda>w _. w)"
  by (auto simp: stable_io_def two_bytes_def)

text \<open>A restart of which the first attempt is allowed and opens a source at its beginning.\<close>

lemma rr_restart_first:
  assumes "\<not> rr_closed rr" "rr_reader rr = None \<or> (\<forall>r. si_Closer io r = None)" "rr_offset rr = BigInt_Of 0"
    and "\<And>a w. ra_FailureCount a = 0 \<Longrightarrow> ask a w = (Inr True, w)" "re_Now env w = (t, w1)" "si_Open io w1 = ((Some h, None), w2)"
  shows "rr_restart env ask io rr w = Some (Inr None, rr\<lparr>rr_reader := Some h\<rparr>, w2)"
proof -
  have c: "rr_Close io rr w = (None, rr\<lparr>rr_reader := None, rr_closed := True\<rparr>, w)"
    using assms(1,2) by (auto simp: rr_Close_def rr_tryClose_def split: option.splits)
  let ?a = "\<lparr>ra_StartedAt = t, ra_FailureCount = 0\<rparr>"
  have m: "MakeRetryAttempt env w = (?a, w1)" using assms(5) by (simp add: MakeRetryAttempt_def)
  have at: "rr_attempt io (rr_offset rr) w1 = Some ((Some h, None, True), w2)"
    using assms(3,6) by (simp add: rr_attempt_def BigInt_IsZero_def BigInt_Compare_val)
  have "retries_loop (with_locals ask) (restart_body io (rr_offset rr)) ?a (st, w1) =
      Some (None, st\<lparr>st_reader := Some h, st_returned := Some None\<rparr>, w2)" for st
    using assms(4) at by (subst retries_loop.simps) (simp add: with_locals_def restart_body_def)
  then show ?thesis using assms(1) c m by (simp add: rr_restart_def)
qed

lemma rr_seamless_witness:
  "\<exists>rr. rr_reach counting_env (\<lambda>a w. (Inr True, w)) two_bytes (rr, 2, [7, 8], True) \<and> [7, 8] = take 2 [7, 8 :: octet]"
proof -
  let ?ask = "\<lambda>(a :: RetryAttempt) (w :: nat). (Inr True :: string + bool, w)"
  let ?rr = "\<lparr>rr_reader = None, rr_offset = BigInt_Of 0, rr_closed = False\<rparr> :: unit resReader"
  let ?rr1 = "\<lparr>rr_reader = Some (), rr_offset = BigInt_Of 0, rr_closed = False\<rparr> :: unit resReader"
  have re: "rr_restart counting_env ?ask two_bytes ?rr 0 = Some (Inr None, ?rr1, 0)"
    using rr_restart_first[of ?rr two_bytes ?ask counting_env 0 0 0 "()" 0] by (simp add: counting_env_def two_bytes_def)
  have "rr_read_loop counting_env ?ask two_bytes 4 ?rr1 0 = Some (Inr ([7, 8], Some io_EOF), rr_advance ?rr1 2, 2)"
    by (subst rr_read_loop.simps) (simp add: two_bytes_def numeral_2_eq_2)
  then have "rr_Read counting_env ?ask two_bytes 4 ?rr 0 = Some (Inr ([7, 8], Some io_EOF), rr_advance ?rr1 2, 2)"
    using re by (simp add: rr_Read_def)
  from rr_read[OF rr_init this]
  have 1: "rr_reach counting_env ?ask two_bytes (rr_advance ?rr1 2, 2, [7, 8], True)" by simp
  show ?thesis using rr_seamless[OF two_bytes_stable 1] 1 by auto
qed

text \<open>
  The retry strategy does not bound a read: it starts afresh with each restart. When a source can always be opened but
  fails at the first read, \<^verbatim>\<open>Read\<close> never returns, even when the strategy allows a single attempt.
\<close>

lemma rr_Read_never_returns:
  assumes o: "\<And>w. \<exists>h w'. si_Open io w = ((Some h, None), w')" and c: "\<And>r. si_Closer io r = None"
    and f: "\<And>r w. \<exists>w'. si_Read io r n w = (([], Some (ErrText ''reset'')), w')"
    and a: "\<And>a w. ra_FailureCount a = 0 \<Longrightarrow> ask a w = (Inr True, w)"
  shows "rr_Read env ask io n \<lparr>rr_reader = None, rr_offset = BigInt_Of 0, rr_closed = False\<rparr> w = None"
proof -
  have restart: "\<exists>h w'. rr_restart env ask io rr w = Some (Inr None, rr\<lparr>rr_reader := Some h\<rparr>, w')"
    if "\<not> rr_closed rr" "rr_offset rr = BigInt_Of 0" for rr w
  proof -
    obtain t w1 where t: "re_Now env w = (t, w1)" by fastforce
    obtain h w2 where h: "si_Open io w1 = ((Some h, None), w2)" using o by blast
    have "rr_restart env ask io rr w = Some (Inr None, rr\<lparr>rr_reader := Some h\<rparr>, w2)"
      by (rule rr_restart_first[OF _ _ _ _ t]) (use that c a t h in auto)
    then show ?thesis by blast
  qed
  have loop: "\<not> (env' = env \<and> ask' = ask \<and> io' = io \<and> n' = n \<and> \<not> rr_closed rr \<and> rr_offset rr = BigInt_Of 0 \<and> rr_reader rr \<noteq> None)"
    if "rr_read_loop env' ask' io' n' rr w = Some y" for env' ask' io' n' rr w y
  proof (rule rr_read_loop.raw_induct[OF _ that, where P = "\<lambda>env' ask' io' n' rr w y. \<not> (env' = env \<and> ask' = ask \<and> io' = io \<and> n' = n \<and>
      \<not> rr_closed rr \<and> rr_offset rr = BigInt_Of 0 \<and> rr_reader rr \<noteq> None)"], rule notI, elim conjE)
    fix g env' ask' io' n' rr w y
    assume IH: "\<And>env' ask' io' n' rr w y. g env' ask' io' n' rr w = Some y \<Longrightarrow> \<not> (env' = env \<and> ask' = ask \<and> io' = io \<and> n' = n \<and>
        \<not> rr_closed rr \<and> rr_offset rr = BigInt_Of 0 \<and> rr_reader rr \<noteq> None)"
      and body: "(case rr_reader rr of None \<Rightarrow> Some (Inl ''nil pointer dereference'', rr, w)
        | Some r \<Rightarrow> case si_Read io' r n' w of ((bs, err), w1) \<Rightarrow>
            if err = None \<or> err_Is err EOF then Some (Inr (bs, err), rr_advance rr (length bs), w1)
            else case rr_restart env' ask' io' rr w1 of None \<Rightarrow> None
              | Some (res, rr2, w2) \<Rightarrow> case res of Inl panic \<Rightarrow> Some (Inl panic, rr2, w2)
                  | Inr err2 \<Rightarrow> if err2 \<noteq> None then Some (Inr (bs, err2), rr2, w2) else g env' ask' io' n' rr2 w2) = Some y"
      and eq: "env' = env" "ask' = ask" "io' = io" "n' = n" and rr: "\<not> rr_closed rr" "rr_offset rr = BigInt_Of 0" "rr_reader rr \<noteq> None"
    obtain r where r: "rr_reader rr = Some r" using rr(3) by blast
    obtain w1 where w1: "si_Read io r n w = (([], Some (ErrText ''reset'')), w1)" using f by blast
    obtain h w2 where h: "rr_restart env ask io rr w1 = Some (Inr None, rr\<lparr>rr_reader := Some h\<rparr>, w2)" using restart[OF rr(1,2)] by blast
    have "g env ask io n (rr\<lparr>rr_reader := Some h\<rparr>) w2 = Some y" using body[unfolded eq] r w1 h by simp
    from IH[OF this] rr show False by simp
  qed
  let ?rr = "\<lparr>rr_reader = None, rr_offset = BigInt_Of 0, rr_closed = False\<rparr> :: 'b resReader"
  obtain h w1 where h: "rr_restart env ask io ?rr w = Some (Inr None, ?rr\<lparr>rr_reader := Some h\<rparr>, w1)" using restart[of ?rr w] by auto
  have "rr_read_loop env ask io n (?rr\<lparr>rr_reader := Some h\<rparr>) w1 = None"
    using loop[of env ask io n "?rr\<lparr>rr_reader := Some h\<rparr>" w1] by (cases "rr_read_loop env ask io n (?rr\<lparr>rr_reader := Some h\<rparr>) w1") auto
  then show ?thesis using h by (simp add: rr_Read_def)
qed

end
