(* ===== verification/Spec2Isabelle.thy ===== *)
theory Spec2Isabelle
  imports EventLogRepository TxKit Mathkit Filemode LinkedList OrderedSet Migration Iterkit Mapkit
    MemoryRepository DsPort Slicekit Jsontoken Cache CacheRepository WorkflowStore Uuid PubSub
    Retry RateLimit Iokit ResilientIO
begin

text \<open>
  The verification library of frameless, a Go collection of ports (interfaces with a contract),
  adapters (implementations of them) and helper packages.

  \<^bold>\<open>The program's parts.\<close> Ports: \<^verbatim>\<open>port/comproto\<close> (one-phase commit),
  \<^verbatim>\<open>port/crud\<close> (repositories), \<^verbatim>\<open>port/migration\<close>, \<^verbatim>\<open>port/ds\<close> (containers),
  \<^verbatim>\<open>port/filesystem/filemode\<close>. The adapter modelled is \<^verbatim>\<open>adapter/memory\<close>: a transactional
  key-value store (\<^verbatim>\<open>Memory\<close>) with a repository on it, and an append-only \<^verbatim>\<open>EventLog\<close> with an
  event-sourced repository on it, a message queue with transactions and a fan-out exchange.
  \<^verbatim>\<open>pkg/workflow\<close> is a workflow engine: a process is a program of steps whose effects are recorded as
  events, so that running it again replays what was done. Helper packages: \<^verbatim>\<open>pkg/errorkit\<close>, \<^verbatim>\<open>pkg/contextkit\<close>,
  \<^verbatim>\<open>pkg/teardown\<close>, \<^verbatim>\<open>pkg/txkit\<close>, \<^verbatim>\<open>pkg/slicekit\<close>, \<^verbatim>\<open>pkg/mapkit\<close>,
  \<^verbatim>\<open>pkg/iterkit\<close>, \<^verbatim>\<open>pkg/mathkit\<close>, \<^verbatim>\<open>pkg/cache\<close> (a cache in front of any
  repository, kept in two repositories of its own), \<^verbatim>\<open>pkg/jsonkit/jsontoken\<close>, \<^verbatim>\<open>pkg/uuid\<close>,
  \<^verbatim>\<open>pkg/resilience\<close> (retry strategies and a rate limit), \<^verbatim>\<open>pkg/iokit\<close> (readers and buffers). The repositories open a transaction in the
  context, do their work through it and finish it with the helpers of \<^verbatim>\<open>comproto\<close>; the
  migrator does the same on two foreign connections and keeps its progress in a repository; the
  ordered set keeps its elements in maps and deletes by shifting indexes; the iterators are what
  the repositories return.

  \<^bold>\<open>Theories.\<close>
  \<^item> \<^verbatim>\<open>Prelude\<close>: Go maps as association lists (the list order is the order of a \<^verbatim>\<open>range\<close>
    loop, so a theorem for every list is one for every order), slices, pull iterators, the
    collections \<^verbatim>\<open>gomap_simps\<close> and \<^verbatim>\<open>slice_simps\<close>.
  \<^item> \<^verbatim>\<open>Errorkit\<close> (\<^verbatim>\<open>internal/errorkitlite\<close>): error values, \<^verbatim>\<open>Merge\<close>, \<^verbatim>\<open>errors.Is\<close>.
    \<^verbatim>\<open>GoContext\<close> (\<^verbatim>\<open>context\<close>, \<^verbatim>\<open>contextkit\<close>): a context is its path of cancel
    scopes, whether it is done, and its transactions.
  \<^item> \<^verbatim>\<open>Comproto\<close>: \<^verbatim>\<open>FinishTx\<close>, \<^verbatim>\<open>FinishOnePhaseCommit\<close>, and the locale
    \<^verbatim>\<open>one_phase_commit\<close>, whose lemmas say that an operation run between BeginTx and a Finish
    helper is all or nothing.
  \<^item> \<^verbatim>\<open>Crud\<close>, \<^verbatim>\<open>MemoryStore\<close>, \<^verbatim>\<open>MemoryRepository\<close>
    (\<^verbatim>\<open>adapter/memory/Repository.go\<close>): the record \<^verbatim>\<open>memory\<close> holds the committed tables and
    the transactions of the process; \<^verbatim>\<open>mem_BeginTx\<close>, \<^verbatim>\<open>mem_CommitTx\<close>, \<^verbatim>\<open>mem_RollbackTx\<close>,
    \<^verbatim>\<open>mem_Get\<close>, \<^verbatim>\<open>mem_Set\<close>, \<^verbatim>\<open>mem_Del\<close>, \<^verbatim>\<open>mem_All\<close> are its methods; \<^verbatim>\<open>repo_\<close> and
    \<^verbatim>\<open>batch_\<close> are the methods of the repository and of its batch. The locale
    \<^verbatim>\<open>kv_actions\<close> is interpreted on the store, on a transaction and on their dispatch;
    \<^verbatim>\<open>one_phase_commit\<close> is interpreted on the store and on the repository. \<^verbatim>\<open>mem_reach\<close> is the
    step relation of the store's clients, with well-formedness by rule induction, which the other
    properties assume of a memory and a context.
  \<^item> \<^verbatim>\<open>EventLog\<close>, \<^verbatim>\<open>EventLogRepository\<close>: the same for the event log; the repository's
    view is the fold of its events, and compression keeps that view.
  \<^item> \<^verbatim>\<open>TxKit\<close> (\<^verbatim>\<open>pkg/teardown\<close>, \<^verbatim>\<open>pkg/txkit\<close>): the LIFO teardown, and the
    nested transactions of the generic manager and of the context.
  \<^item> \<^verbatim>\<open>Slicekit\<close>, \<^verbatim>\<open>Mapkit\<close>, \<^verbatim>\<open>Mathkit\<close>, \<^verbatim>\<open>Filemode\<close>, \<^verbatim>\<open>Iterkit\<close>: one
    definition per function of these packages. Integers are words of every width; an iterator is
    the function that takes its loop body.
  \<^item> \<^verbatim>\<open>DsPort\<close>: the locale \<^verbatim>\<open>appendable\<close>; \<^verbatim>\<open>LinkedList\<close> interprets it on Append and
    Prepend of the doubly linked list over a heap of cells, \<^verbatim>\<open>OrderedSet\<close> on the ordered set.
  \<^item> \<^verbatim>\<open>Migration\<close>: the migrator; the locale \<^verbatim>\<open>state_repository\<close> says what it needs of
    the repository of states and is interpreted on the in-memory repository of \<^verbatim>\<open>MemoryRepository\<close>.
  \<^item> \<^verbatim>\<open>Cache\<close> (\<^verbatim>\<open>pkg/cache\<close>): the record \<^verbatim>\<open>Cache\<close> holds the source and the cache
    repository as operations on one world; \<^verbatim>\<open>cache_\<close>, \<^verbatim>\<open>Refresh\<close>, \<^verbatim>\<open>CachedQuery\<close> and
    \<^verbatim>\<open>invalidate\<close> are the methods, \<^verbatim>\<open>rc_\<close> those of \<^verbatim>\<open>RefreshCache\<close>. The locale
    \<^verbatim>\<open>cache_store\<close> says what invalidation needs of the repository; \<^verbatim>\<open>CacheRepository\<close>
    (\<^verbatim>\<open>adapter/memory/cache.go\<close>) interprets it on the in-memory repositories, inside any stack of
    open transactions.
  \<^item> \<^verbatim>\<open>Jsontoken\<close> (\<^verbatim>\<open>pkg/jsonkit/jsontoken\<close>): the streaming scanner as total functions
    on the remaining input; a grammar of documents with the theorem both ways; the goroutines of
    \<^verbatim>\<open>Query\<close> as a step relation.
  \<^item> \<^verbatim>\<open>MemoryStack\<close>: what an operation of the store does at the bottom of a stack of open
    transactions, shared by \<^verbatim>\<open>CacheRepository\<close> and \<^verbatim>\<open>WorkflowRepository\<close>, and
    \<^verbatim>\<open>mem_holds\<close>: what every value that is written satisfies, every read finds satisfied.
  \<^item> \<^verbatim>\<open>WorkflowVars\<close>, \<^verbatim>\<open>Workflow\<close> (\<^verbatim>\<open>pkg/workflow\<close>): the events, paths and scopes, the
    variables as folds over the events, and the definitions, steps, signals and retries of the engine over any
    event repository; execution and retries are partial functions. \<^verbatim>\<open>WorkflowReplay\<close> states in the
    locale \<^verbatim>\<open>event_store\<close> what replaying needs of the repository and proves it for the steps;
    \<^verbatim>\<open>WorkflowRepository\<close> (\<^verbatim>\<open>adapter/memory/workflow.go\<close>) interprets it on the in-memory repository. The record \<^verbatim>\<open>host\<close>
    holds what the repository and the engine ask of the platform: the sort of \<^verbatim>\<open>SortBy\<close>, which need
    not be stable, and the clock; event IDs are counted, and the theorems on replaying assume that the clock moves on from
    event to event. \<^verbatim>\<open>WorkflowStore\<close>: \<^verbatim>\<open>wer_reach\<close> is any sequence of operations of that
    repository, in transactions at any depth, on any clock.
  \<^item> \<^verbatim>\<open>Uuid\<close> (\<^verbatim>\<open>pkg/uuid\<close>): text, order, and the generators over words, with any reader and clock.
  \<^item> \<^verbatim>\<open>PubSub\<close> (\<^verbatim>\<open>adapter/memory/pubsub.go\<close>): queues, subscriptions and the exchange over
    the transaction manager of \<^verbatim>\<open>TxKit\<close>; \<^verbatim>\<open>queue_step\<close> is the step relation of all clients,
    with Purge and with settlements that come a second time. The operations of the exchange take as an argument
    what the other goroutines do between their steps.
  \<^item> \<^verbatim>\<open>Retry\<close> (\<^verbatim>\<open>pkg/resilience/retry.go\<close>): the strategies, prefixed \<^verbatim>\<open>eb_\<close>, \<^verbatim>\<open>fd_\<close>,
    \<^verbatim>\<open>ji_\<close> and \<^verbatim>\<open>wa_\<close>, over the record \<^verbatim>\<open>retry_env\<close> of what they ask of clock, context and timers;
    \<^verbatim>\<open>retries_loop\<close> is the range over \<^verbatim>\<open>Retries\<close>; the locale \<^verbatim>\<open>stopping_strategy\<close> is interpreted on the
    strategies that count attempts. \<^verbatim>\<open>RateLimit\<close> (\<^verbatim>\<open>ratelimit.go\<close>): \<^verbatim>\<open>rl_section\<close> is what a call does
    under the mutex, \<^verbatim>\<open>rl_reach\<close> any interleaving of such sections.
  \<^item> \<^verbatim>\<open>Iokit\<close> (\<^verbatim>\<open>pkg/iokit\<close>): the buffer (\<^verbatim>\<open>bf_\<close>), the keep-alive reader (\<^verbatim>\<open>ka_\<close>), the lockstep
    readers (\<^verbatim>\<open>ls_\<close> the shared source, \<^verbatim>\<open>lo_\<close> an output), and what they use of the standard library; the locale
    \<^verbatim>\<open>io_source\<close> is the contract of a reader, interpreted on the buffer. \<^verbatim>\<open>ka_reach\<close> and \<^verbatim>\<open>ls_reach\<close> are
    the interleavings of their goroutines; an output can be closed at any point of its own Read.
  \<^item> \<^verbatim>\<open>ResilientIO\<close> (\<^verbatim>\<open>pkg/resilience/resio.go\<close>): the \<^verbatim>\<open>Reader\<close> that opens its source again and seeks to
    where it was (\<^verbatim>\<open>rr_\<close>), over \<^verbatim>\<open>Retry\<close>, \<^verbatim>\<open>Iokit\<close> and the big integers of \<^verbatim>\<open>Mathkit\<close>.

  \<^bold>\<open>What the theorems show.\<close> Store and repositories: commit publishes exactly the changes of the
  transaction, rollback none, a transaction is isolated until then, it finishes once, reads agree
  with each other, Save and batches are atomic, Compress keeps what is read. Transactions: the
  steps of a teardown run once, last first, each whatever the others do; only the root
  transaction commits. Containers: each refines the list, multiset or map it stands for.
  Migrations are all or nothing and forget exactly the steps after the target. Iterators agree with
  the list functions, and the batch loop loses no value. The cache: invalidation ends and
  leaves nothing that refers to the entity, a miss reads through. The scanner accepts its grammar
  and hands every selector its values. The workflow engine: a recorded step is not done again and returns what was
  recorded, the first definition bound to a process stays, all ways of reading a variable agree. Queues: no
  message is lost, and none is held twice unless it is settled twice, a consumer's publications and its acknowledgement are one transaction, the exchange
  publishes to all or none when nobody interferes. UUIDs: text and order agree, V7 is monotonic in one process. Retries: a range ends after the
  allowed attempts, its waits are known exactly; the rate limit lets at most N calls pass in any period. Readers: the
  keep-alive reader and every lockstep output hand out the stream of their source, no output waits in vain,
  the resuming reader hides the failures of a source that can be read again. Some theorems state a defect of the code as
  it is (they say so in their text).

  \<^bold>\<open>Termination and fuel.\<close> No definition has fuel. A loop that need not end is a
  \<^theory_text>\<open>partial_function (option)\<close> whose value is \<^const>\<open>None\<close> when it does not return; the theorems
  prove that it returns, from the state in which the code calls it. Every other recursion is total.

  \<^bold>\<open>Not modelled.\<close> Goroutines and locks: an operation under a mutex is one step, and theorems on
  interleavings quantify over the order of the steps. Panics other than index and nil errors, time
  and randomness are parameters. Adapters to databases and services, HTTP, command line, the
  JSON codec, reflection, logging and the contract tests are not modelled: they are calls into systems or
  packages that are not part of the repository, or test code.
\<close>

end
